(* ===== verification/Doxa_Prelude.thy ===== *)
theory Doxa_Prelude
  imports Main "HOL-Library.Word"
begin

section \<open>Prelude: results, loops, byte strings\<close>

text \<open>
  What every theory of the development shares: the type of fallible results (a Rust
  \<^verbatim>\<open>Result\<close> whose error side also carries panics), the model of a Rust \<^verbatim>\<open>for\<close> loop with its
  total-correctness rule, checked reads and writes of a \<^verbatim>\<open>Vec\<close>, and the byte encodings of
  machine integers. The model is that of a build with debug assertions and overflow checks on:
  an index out of range, an \<^verbatim>\<open>unwrap\<close> of an empty option, a failed \<^verbatim>\<open>assert\<close> or
  \<^verbatim>\<open>debug_assert\<close> of the repository and an arithmetic overflow are all the value \<open>Panic\<close>.
\<close>

type_synonym u8 = "8 word"
type_synonym u32 = "32 word"
type_synonym u64 = "64 word"
type_synonym u256 = "256 word"
type_synonym bytes = "u8 list"

named_theorems result_simps "evaluation of results, checked reads and loops"
named_theorems codec_simps "the byte and limb encodings unfolded to digits"

subsection \<open>Results\<close>

text \<open>\<open>Out_of_fuel\<close> stands for a loop that is still running when its fuel is used up.\<close>

datatype panic = Index_out_of_bounds | Unwrap_failed | Assertion_failed | Arith_overflow | Out_of_fuel

datatype 'e failure = Err 'e | Panic panic

type_synonym ('e, 'a) result = "'e failure + 'a"

definition bind_r :: "'x + 'a \<Rightarrow> ('a \<Rightarrow> 'x + 'b) \<Rightarrow> 'x + 'b" where
  "bind_r r f = (case r of Inl e \<Rightarrow> Inl e | Inr a \<Rightarrow> f a)"

lemma bind_r_Inl [simp]: "bind_r (Inl e) f = Inl e"
  by (simp add: bind_r_def)

lemma bind_r_Inr [simp]: "bind_r (Inr a) f = f a"
  by (simp add: bind_r_def)

lemma bind_r_eq_Inr [result_simps]:
  "bind_r r f = Inr b \<longleftrightarrow> (\<exists>a. r = Inr a \<and> f a = Inr b)"
  by (cases r) auto

lemma bind_r_eq_Inl [result_simps]:
  "bind_r r f = Inl e \<longleftrightarrow> r = Inl e \<or> (\<exists>a. r = Inr a \<and> f a = Inl e)"
  by (cases r) auto

lemma bind_r_assoc: "bind_r (bind_r r f) g = bind_r r (\<lambda>a. bind_r (f a) g)"
  by (cases r) auto

text \<open>\<^verbatim>\<open>ensure!\<close>, \<^verbatim>\<open>assert!\<close>, \<^verbatim>\<open>ok_or\<close> and \<^verbatim>\<open>unwrap\<close>.\<close>

definition ensure :: "bool \<Rightarrow> 'e \<Rightarrow> ('e, unit) result" where
  "ensure b e = (if b then Inr () else Inl (Err e))"

definition assert_r :: "bool \<Rightarrow> ('e, unit) result" where
  "assert_r b = (if b then Inr () else Inl (Panic Assertion_failed))"

definition ok_or :: "'a option \<Rightarrow> 'e \<Rightarrow> ('e, 'a) result" where
  "ok_or x e = (case x of None \<Rightarrow> Inl (Err e) | Some a \<Rightarrow> Inr a)"

definition unwrap :: "'a option \<Rightarrow> ('e, 'a) result" where
  "unwrap x = (case x of None \<Rightarrow> Inl (Panic Unwrap_failed) | Some a \<Rightarrow> Inr a)"

text \<open>\<^verbatim>\<open>result.unwrap()\<close> and \<^verbatim>\<open>result.map_err(f)\<close>.\<close>

fun unwrap_r :: "('e, 'a) result \<Rightarrow> ('f, 'a) result" where
  "unwrap_r (Inr a) = Inr a"
| "unwrap_r (Inl (Err e)) = Inl (Panic Unwrap_failed)"
| "unwrap_r (Inl (Panic p)) = Inl (Panic p)"

fun map_err :: "('e \<Rightarrow> 'f) \<Rightarrow> ('e, 'a) result \<Rightarrow> ('f, 'a) result" where
  "map_err f (Inr a) = Inr a"
| "map_err f (Inl (Err e)) = Inl (Err (f e))"
| "map_err f (Inl (Panic p)) = Inl (Panic p)"

lemma ensure_simps [simp]:
  "ensure True e = Inr ()" "ensure False e = Inl (Err e)"
  by (simp_all add: ensure_def)

lemma ensure_eq_Inr [result_simps]: "ensure b e = Inr u \<longleftrightarrow> b"
  by (simp add: ensure_def)

lemma assert_r_simps [simp]:
  "assert_r True = Inr ()" "assert_r False = Inl (Panic Assertion_failed)"
  by (simp_all add: assert_r_def)

lemma ok_or_simps [simp]: "ok_or (Some a) e = Inr a" "ok_or None e = Inl (Err e)"
  by (simp_all add: ok_or_def)

lemma ok_or_eq_Inr [result_simps]: "ok_or x e = Inr a \<longleftrightarrow> x = Some a"
  by (cases x) auto

lemma unwrap_simps [simp]: "unwrap (Some a) = Inr a" "unwrap None = Inl (Panic Unwrap_failed)"
  by (simp_all add: unwrap_def)

lemma unwrap_eq_Inr [result_simps]: "unwrap x = Inr a \<longleftrightarrow> x = Some a"
  by (cases x) auto

lemma unwrap_r_eq_Inr [result_simps]: "unwrap_r r = Inr a \<longleftrightarrow> r = Inr a"
  by (cases r rule: unwrap_r.cases) auto

lemma map_err_eq_Inr [result_simps]: "map_err f r = Inr a \<longleftrightarrow> r = Inr a"
  by (cases "(f, r)" rule: map_err.cases) auto

subsection \<open>Vectors\<close>

definition vec_get :: "'a list \<Rightarrow> nat \<Rightarrow> ('e, 'a) result" where
  "vec_get xs i = (if i < length xs then Inr (xs ! i) else Inl (Panic Index_out_of_bounds))"

lemma vec_get_ok [simp]: "i < length xs \<Longrightarrow> vec_get xs i = Inr (xs ! i)"
  by (simp add: vec_get_def)

lemma vec_get_panic [simp]: "length xs \<le> i \<Longrightarrow> vec_get xs i = Inl (Panic Index_out_of_bounds)"
  by (simp add: vec_get_def)

text \<open>
  The write-or-append of the tree code: overwrite an existing slot, or append when the slot is
  the next one (a \<^verbatim>\<open>debug_assert_eq\<close> otherwise).
\<close>

definition write_or_push :: "'a list \<Rightarrow> nat \<Rightarrow> 'a \<Rightarrow> ('e, 'a list) result" where
  "write_or_push xs i x =
     (if i < length xs then Inr (xs[i := x])
      else if i = length xs then Inr (xs @ [x])
      else Inl (Panic Assertion_failed))"

lemma write_or_push_overwrite [simp]: "i < length xs \<Longrightarrow> write_or_push xs i x = Inr (xs[i := x])"
  by (simp add: write_or_push_def)

lemma write_or_push_append [simp]: "write_or_push xs (length xs) x = Inr (xs @ [x])"
  by (simp add: write_or_push_def)

lemma write_or_push_nth:
  assumes "q \<le> length xs"
  shows "\<exists>ys. write_or_push xs q v = Inr ys \<and> length ys = max (length xs) (Suc q) \<and>
    (\<forall>p < length ys. ys ! p = (if p = q then v else xs ! p))"
  using assms by (cases "q < length xs") (auto simp: nth_append less_Suc_eq max_def)

lemma write_or_push_map:
  assumes "q \<le> length xs" and "\<And>p. p < length xs \<Longrightarrow> p \<noteq> q \<Longrightarrow> xs ! p = g p"
  shows "write_or_push xs q (g q) = Inr (map g [0..<max (length xs) (Suc q)])"
proof (cases "q < length xs")
  case True
  then have "xs[q := g q] = map g [0..<max (length xs) (Suc q)]"
    using assms(2) by (intro nth_equalityI) (auto simp: nth_list_update max_def)
  with True show ?thesis by simp
next
  case False
  with assms(1) have q: "q = length xs" by simp
  then have "xs @ [g q] = map g [0..<max (length xs) (Suc q)]"
    using assms(2) by (intro nth_equalityI) (auto simp: nth_append less_Suc_eq max_def)
  with q show ?thesis by simp
qed

subsection \<open>Loops\<close>

fun for_each :: "('i \<Rightarrow> 's \<Rightarrow> 'x + 's) \<Rightarrow> 'i list \<Rightarrow> 's \<Rightarrow> 'x + 's" where
  "for_each f [] s = Inr s"
| "for_each f (i # is) s = bind_r (f i s) (for_each f is)"

lemma for_each_append: "for_each f (is @ js) s = bind_r (for_each f is s) (for_each f js)"
proof (induction "is" arbitrary: s)
  case (Cons i "is")
  show ?case by (cases "f i s") (simp_all add: Cons.IH)
qed simp

lemma for_each_snoc: "for_each f (xs @ [x]) s = bind_r (for_each f xs s) (f x)"
proof -
  have "bind_r r (for_each f []) = r" for r by (cases r) simp_all
  then have "for_each f [x] = f x" by (simp add: fun_eq_iff)
  then show ?thesis by (simp only: for_each_append)
qed

lemma for_each_Inr_id [simp]: "for_each (\<lambda>i s. Inr s) is s = Inr s"
  by (induction "is") auto

lemma for_each_cong:
  "xs = ys \<Longrightarrow> (\<And>i s. i \<in> set ys \<Longrightarrow> f i s = g i s) \<Longrightarrow> for_each f xs s = for_each g ys s"
proof (induction ys arbitrary: xs s)
  case (Cons y ys)
  then have "for_each f ys s' = for_each g ys s'" for s' by simp
  with Cons.prems show ?case by (simp add: bind_r_def split: sum.split)
qed simp

lemma for_each_map: "for_each f (map h xs) s = for_each (f \<circ> h) xs s"
proof (induction xs arbitrary: s)
  case (Cons x xs)
  then show ?case by (simp add: bind_r_def split: sum.split)
qed simp

text \<open>A loop whose body cannot fail is a fold.\<close>

lemma for_each_pure: "for_each (\<lambda>i s. Inr (g i s)) is s = Inr (fold g is s)"
  by (induction "is" arbitrary: s) auto

text \<open>A loop whose body fails with one error, exactly on the bad indices.\<close>

lemma for_each_checked:
  assumes "\<And>i s. i \<in> set is \<Longrightarrow> f i s = (if ok i then Inr (g i s) else Inl e)"
  shows "for_each f is s = (if \<forall>i \<in> set is. ok i then Inr (fold g is s) else Inl e)"
  using assms by (induction "is" arbitrary: s) auto

lemma upt_shift: "k = n + m \<Longrightarrow> [n..<k] = map ((+) n) [0..<m]"
  by (rule nth_equalityI) auto

lemma upt_split: "a \<le> b \<Longrightarrow> b \<le> c \<Longrightarrow> [a..<c] = [a..<b] @ [b..<c]"
  using upt_add_eq_append [of a b "c - b"] by simp

lemma fold_upt_blocks: "fold (\<lambda>s. fold (\<lambda>j. f (s * w + j)) [0..<w]) [0..<n] st = fold f [0..<n * w] st"
proof (induction n)
  case (Suc n)
  have "[0..<Suc n * w] = [0..<n * w] @ [n * w..<n * w + w]"
    using upt_add_eq_append [of 0 "n * w" w] by (simp add: add.commute)
  moreover have "[n * w..<n * w + w] = map (\<lambda>j. n * w + j) [0..<w]"
    using map_add_upt [of "n * w" w] by (simp add: add.commute)
  ultimately show ?case using Suc by (simp add: fold_map o_def)
qed simp

text \<open>
  The total-correctness rule of \<^verbatim>\<open>for i in a..b\<close>: an invariant indexed by the loop
  counter that the body establishes for the next index without failing.
\<close>

lemma for_each_upt_rule:
  assumes "I a s" and "a \<le> b"
    and "\<And>i s. a \<le> i \<Longrightarrow> i < b \<Longrightarrow> I i s \<Longrightarrow> \<exists>s'. f i s = Inr s' \<and> I (Suc i) s'"
  shows "\<exists>s'. for_each f [a..<b] s = Inr s' \<and> I b s'"
  using assms
proof (induction "b - a" arbitrary: a s)
  case 0
  then show ?case by auto
next
  case (Suc n)
  then have "a < b" by simp
  with Suc.prems obtain s1 where s1: "f a s = Inr s1" "I (Suc a) s1" by blast
  have "\<exists>s'. for_each f [Suc a..<b] s1 = Inr s' \<and> I b s'"
    using Suc.hyps(1) [of "Suc a" s1] Suc.hyps(2) Suc.prems s1(2) \<open>a < b\<close> by auto
  with s1(1) \<open>a < b\<close> show ?case by (auto simp: upt_conv_Cons)
qed

text \<open>The same for a loop over any list, with an invariant of the part already done.\<close>

lemma for_each_list_rule:
  assumes "I [] s"
    and "\<And>ys x s. x \<in> set xs \<Longrightarrow> I ys s \<Longrightarrow> \<exists>s'. f x s = Inr s' \<and> I (ys @ [x]) s'"
  shows "\<exists>s'. for_each f xs s = Inr s' \<and> I xs s'"
  using assms
proof (induction xs rule: rev_induct)
  case (snoc x xs)
  then obtain s1 where "for_each f xs s = Inr s1" "I xs s1" by force
  with snoc.prems(2) [of x xs s1] show ?case by (auto simp: for_each_append)
qed simp

text \<open>What a loop that ended keeps.\<close>

lemma for_each_inv:
  assumes "for_each f xs s = Inr s'" and "P s"
    and "\<And>x s s'. x \<in> set xs \<Longrightarrow> P s \<Longrightarrow> f x s = Inr s' \<Longrightarrow> P s'"
  shows "P s'"
  using assms by (induction xs arbitrary: s) (auto simp: result_simps)

lemma for_each_all_ran:
  "for_each f xs s = Inr s' \<Longrightarrow> x \<in> set xs \<Longrightarrow> \<exists>s1 s2. f x s1 = Inr s2"
  by (induction xs arbitrary: s) (auto simp: bind_r_eq_Inr)

subsection \<open>Integers as digits in base 256\<close>

fun le_digits :: "nat \<Rightarrow> nat \<Rightarrow> nat list" where
  "le_digits 0 v = []"
| "le_digits (Suc n) v = v mod 256 # le_digits n (v div 256)"

fun le_value :: "nat list \<Rightarrow> nat" where
  "le_value [] = 0"
| "le_value (d # ds) = d + 256 * le_value ds"

lemma length_le_digits [simp]: "length (le_digits n v) = n"
  by (induction n arbitrary: v) auto

lemma le_digits_lt: "d \<in> set (le_digits n v) \<Longrightarrow> d < 256"
  by (induction n arbitrary: v) auto

lemma le_value_digits: "le_value (le_digits n v) = v mod 256 ^ n"
  by (induction n arbitrary: v) (simp_all add: mod_mult2_eq)

lemma le_value_lt: "\<forall>d \<in> set ds. d < 256 \<Longrightarrow> le_value ds < 256 ^ length ds"
proof (induction ds)
  case (Cons d ds)
  then have "le_value ds + 1 \<le> 256 ^ length ds" and "d < 256" by auto
  then have "256 * (le_value ds + 1) \<le> 256 * 256 ^ length ds" and "d < 256"
    using mult_le_mono2 by blast+
  then show ?case by simp
qed simp

lemma le_digits_value: "\<forall>d \<in> set ds. d < 256 \<Longrightarrow> le_digits (length ds) (le_value ds) = ds"
  by (induction ds) auto

lemma le_digits_add: "le_digits (m + n) v = le_digits m v @ le_digits n (v div 256 ^ m)"
  by (induction m arbitrary: v) (auto simp: div_mult2_eq)

lemma le_digits_mod: "m \<le> n \<Longrightarrow> le_digits m (v mod 256 ^ n) = le_digits m v"
proof (induction m arbitrary: n v)
  case (Suc m)
  then obtain k where n: "n = Suc k" and "m \<le> k" by (cases n) auto
  have "v mod 256 ^ n div 256 = (v div 256) mod 256 ^ k"
    by (simp add: n mod_mult2_eq)
  moreover have "v mod 256 ^ n mod 256 = v mod 256"
    by (simp add: n mod_mod_cancel)
  ultimately show ?case using Suc.IH [OF \<open>m \<le> k\<close>] by simp
qed simp

subsection \<open>Numbers as digits\<close>

fun dvalue :: "nat \<Rightarrow> nat list \<Rightarrow> nat" where
  "dvalue b [] = 0"
| "dvalue b (d # ds) = d + b * dvalue b ds"

lemma dvalue_less: "\<forall>d \<in> set ds. d < b \<Longrightarrow> dvalue b ds < b ^ length ds"
proof (induction ds)
  case (Cons d ds)
  then have "dvalue b ds + 1 \<le> b ^ length ds" "d < b" by auto
  then have "b * (dvalue b ds + 1) \<le> b * b ^ length ds" using mult_le_mono2 by blast
  with \<open>d < b\<close> show ?case by simp
qed simp

lemma dvalue_append: "dvalue b (xs @ ys) = dvalue b xs + b ^ length xs * dvalue b ys"
  by (induction xs) (simp_all add: algebra_simps)

lemma dvalue_digits: "dvalue b (map (\<lambda>i. v div b ^ i mod b) [0..<n]) = v mod b ^ n"
proof (induction n)
  case (Suc n)
  then show ?case by (simp add: dvalue_append mod_mult2_eq mult.commute [of b])
qed simp

lemma dvalue_inj:
  assumes "length xs = length ys" "\<forall>x \<in> set xs. x < b" "\<forall>y \<in> set ys. y < b" "dvalue b xs = dvalue b ys"
  shows "xs = ys"
  using assms
proof (induction xs ys rule: list_induct2)
  case (Cons x xs y ys)
  have "(x + b * dvalue b xs) mod b = (y + b * dvalue b ys) mod b" using Cons.prems(3) by simp
  then have "x = y" using Cons.prems by simp
  with Cons show ?case by (cases "b = 0") auto
qed simp

subsection \<open>Byte strings\<close>

definition to_bytes_of :: "nat list \<Rightarrow> bytes" where
  "to_bytes_of = map of_nat"

lemma unat_to_bytes_of: "\<forall>d \<in> set ds. d < 256 \<Longrightarrow> map unat (to_bytes_of ds) = ds"
  by (induction ds) (auto simp: to_bytes_of_def unat_of_nat)

lemma to_bytes_of_unat: "to_bytes_of (map unat bs) = bs"
  by (simp add: to_bytes_of_def o_def)

lemma byte_digits_lt: "\<forall>d \<in> set (map unat (bs :: bytes)). d < 256"
proof -
  have "unat b < 256" for b :: u8
    using unsigned_less [where 'a = nat, of b] by simp
  then show ?thesis by auto
qed

text \<open>\<^verbatim>\<open>u64::to_le_bytes\<close>, \<^verbatim>\<open>to_be_bytes\<close> and their inverses; the same for \<^verbatim>\<open>u32\<close>.\<close>

definition u64_to_le_bytes :: "u64 \<Rightarrow> bytes" where
  "u64_to_le_bytes w = to_bytes_of (le_digits 8 (unat w))"

definition u64_from_le_bytes :: "bytes \<Rightarrow> u64" where
  "u64_from_le_bytes bs = of_nat (le_value (map unat bs))"

definition u64_to_be_bytes :: "u64 \<Rightarrow> bytes" where
  "u64_to_be_bytes w = rev (u64_to_le_bytes w)"

definition u64_from_be_bytes :: "bytes \<Rightarrow> u64" where
  "u64_from_be_bytes bs = u64_from_le_bytes (rev bs)"

definition u32_to_be_bytes :: "u32 \<Rightarrow> bytes" where
  "u32_to_be_bytes w = rev (to_bytes_of (le_digits 4 (unat w)))"

definition u32_from_be_bytes :: "bytes \<Rightarrow> u32" where
  "u32_from_be_bytes bs = of_nat (le_value (map unat (rev bs)))"

definition u32_to_le_bytes :: "u32 \<Rightarrow> bytes" where
  "u32_to_le_bytes w = to_bytes_of (le_digits 4 (unat w))"

definition u32_from_le_bytes :: "bytes \<Rightarrow> u32" where
  "u32_from_le_bytes bs = of_nat (le_value (map unat bs))"

lemma length_int_bytes [simp]:
  "length (u64_to_le_bytes w) = 8" "length (u64_to_be_bytes w) = 8"
  "length (u32_to_be_bytes v) = 4" "length (u32_to_le_bytes v) = 4"
  by (simp_all add: u64_to_le_bytes_def u64_to_be_bytes_def u32_to_be_bytes_def
      u32_to_le_bytes_def to_bytes_of_def)

lemma u64_le_roundtrip [simp]: "u64_from_le_bytes (u64_to_le_bytes w) = w"
proof -
  have "unat w mod 256 ^ 8 = unat w"
    using unsigned_less [where 'a = nat, of w] by simp
  moreover have "map unat (u64_to_le_bytes w) = le_digits 8 (unat w)"
    unfolding u64_to_le_bytes_def by (rule unat_to_bytes_of) (simp add: le_digits_lt)
  ultimately show ?thesis
    by (simp only: u64_from_le_bytes_def le_value_digits of_nat_unat ucast_id)
qed

lemma u64_be_roundtrip [simp]: "u64_from_be_bytes (u64_to_be_bytes w) = w"
  by (simp add: u64_from_be_bytes_def u64_to_be_bytes_def)

lemma u64_from_le_unat:
  assumes "length bs = 8"
  shows "unat (u64_from_le_bytes bs) = le_value (map unat bs)"
proof -
  have "le_value (map unat bs) < 256 ^ length (map unat bs)"
    by (rule le_value_lt [OF byte_digits_lt])
  with assms show ?thesis by (simp add: u64_from_le_bytes_def unat_of_nat)
qed

lemma u64_le_roundtrip_bytes [simp]:
  assumes "length bs = 8"
  shows "u64_to_le_bytes (u64_from_le_bytes bs) = bs"
proof -
  have "le_digits (length (map unat bs)) (le_value (map unat bs)) = map unat bs"
    by (rule le_digits_value [OF byte_digits_lt])
  with assms show ?thesis
    by (simp add: u64_to_le_bytes_def u64_from_le_unat to_bytes_of_unat)
qed

lemma u64_be_roundtrip_bytes [simp]:
  "length bs = 8 \<Longrightarrow> u64_to_be_bytes (u64_from_be_bytes bs) = bs"
  by (simp add: u64_from_be_bytes_def u64_to_be_bytes_def)

lemma u32_le_roundtrip [simp]: "u32_from_le_bytes (u32_to_le_bytes w) = w"
proof -
  have "unat w mod 256 ^ 4 = unat w"
    using unsigned_less [where 'a = nat, of w] by simp
  moreover have "map unat (u32_to_le_bytes w) = le_digits 4 (unat w)"
    unfolding u32_to_le_bytes_def by (rule unat_to_bytes_of) (simp add: le_digits_lt)
  ultimately show ?thesis
    by (simp only: u32_from_le_bytes_def le_value_digits of_nat_unat ucast_id)
qed

lemma u32_be_roundtrip [simp]: "u32_from_be_bytes (u32_to_be_bytes w) = w"
  using u32_le_roundtrip [of w]
  by (simp add: u32_from_be_bytes_def u32_to_be_bytes_def u32_from_le_bytes_def u32_to_le_bytes_def)

lemma u32_be_roundtrip_bytes [simp]:
  assumes "length bs = 4"
  shows "u32_to_be_bytes (u32_from_be_bytes bs) = bs"
proof -
  have "le_value (map unat (rev bs)) < 256 ^ length (map unat (rev bs))"
    by (rule le_value_lt [OF byte_digits_lt])
  then have "unat (u32_from_be_bytes bs) = le_value (map unat (rev bs))"
    using assms by (simp add: u32_from_be_bytes_def unat_of_nat)
  moreover have "le_digits (length (map unat (rev bs))) (le_value (map unat (rev bs))) = map unat (rev bs)"
    by (rule le_digits_value [OF byte_digits_lt])
  ultimately have "to_bytes_of (le_digits 4 (unat (u32_from_be_bytes bs))) = rev bs"
    using assms by (simp add: to_bytes_of_unat)
  then show ?thesis by (simp add: u32_to_be_bytes_def)
qed

text \<open>A 64-bit big-endian string is the high 32-bit half followed by the low one.\<close>

definition lo32 :: "u64 \<Rightarrow> u32" where
  "lo32 w = ucast w"

definition hi32 :: "u64 \<Rightarrow> u32" where
  "hi32 w = ucast (drop_bit 32 w)"

definition join32 :: "u32 \<Rightarrow> u32 \<Rightarrow> u64" where
  "join32 lo hi = or (ucast lo) (push_bit 32 (ucast hi))"

lemma unat_lo32: "unat (lo32 w) = unat w mod 2 ^ 32"
  by (simp add: lo32_def unsigned_ucast_eq take_bit_eq_mod)

lemma unat_hi32: "unat (hi32 w) = unat w div 2 ^ 32"
proof -
  have "unat w div 2 ^ 32 < 2 ^ 32"
    using unsigned_less [where 'a = nat, of w] by (simp add: less_mult_imp_div_less)
  then show ?thesis
    by (simp add: hi32_def unsigned_ucast_eq unat_div_distrib take_bit_eq_mod drop_bit_eq_div)
qed

lemma u64_be_halves: "u64_to_be_bytes w = u32_to_be_bytes (hi32 w) @ u32_to_be_bytes (lo32 w)"
proof -
  have lo: "le_digits 4 (unat w mod 2 ^ 32) = le_digits 4 (unat w)"
    using le_digits_mod [of 4 4 "unat w"] by simp
  have "le_digits 8 (unat w) = le_digits 4 (unat w) @ le_digits 4 (unat w div 2 ^ 32)"
    using le_digits_add [of 4 4 "unat w"] by simp
  then show ?thesis
    by (simp only: u64_to_be_bytes_def u64_to_le_bytes_def u32_to_be_bytes_def unat_lo32 unat_hi32
        to_bytes_of_def map_append rev_append lo)
qed

lemma join32_halves [simp]: "join32 (lo32 w) (hi32 w) = w"
  by (rule bit_word_eqI)
     (auto simp: join32_def lo32_def hi32_def bit_simps)

lemma u64_from_be_halves:
  assumes "length lo = 4" and "length hi = 4"
  shows "u64_from_be_bytes (hi @ lo) = join32 (u32_from_be_bytes lo) (u32_from_be_bytes hi)"
proof -
  let ?w = "join32 (u32_from_be_bytes lo) (u32_from_be_bytes hi)"
  have "lo32 ?w = u32_from_be_bytes lo"
    by (rule bit_word_eqI) (auto simp: join32_def lo32_def bit_simps)
  moreover have "hi32 ?w = u32_from_be_bytes hi"
    by (rule bit_word_eqI) (auto simp: join32_def hi32_def bit_simps dest: bit_imp_le_length)
  ultimately have "u64_to_be_bytes ?w = hi @ lo"
    using assms by (simp add: u64_be_halves)
  then show ?thesis by (metis u64_be_roundtrip)
qed

lemma lo32_join [simp]: "lo32 (join32 a b) = a"
  by (rule bit_word_eqI) (auto simp: join32_def lo32_def bit_simps)

lemma hi32_join [simp]: "hi32 (join32 a b) = b"
  by (rule bit_word_eqI) (auto simp: join32_def hi32_def bit_simps dest: bit_imp_le_length)

subsection \<open>Slices\<close>

definition slice_at :: "'a list \<Rightarrow> nat \<Rightarrow> nat \<Rightarrow> 'a list" where
  "slice_at xs off n = take n (drop off xs)"

lemma length_slice_at [simp]: "off + n \<le> length xs \<Longrightarrow> length (slice_at xs off n) = n"
  by (simp add: slice_at_def)

lemma slice_0 [simp]: "slice_at xs 0 n = take n xs"
  by (simp add: slice_at_def)

lemma slice_append_skip [simp]:
  "length xs \<le> off \<Longrightarrow> slice_at (xs @ ys) off n = slice_at ys (off - length xs) n"
  by (simp add: slice_at_def)

lemma slice_append_take [simp]: "off + n \<le> length xs \<Longrightarrow> slice_at (xs @ ys) off n = slice_at xs off n"
  by (simp add: slice_at_def)

lemma slice_slice [simp]: "b + n \<le> m \<Longrightarrow> slice_at (slice_at xs a m) b n = slice_at xs (a + b) n"
  by (simp add: slice_at_def drop_take add.commute min_def)

text \<open>The \<open>k\<close>-th block of a concatenation of blocks of equal width.\<close>

lemma slice_concat_map:
  assumes "k < length xs" and "\<And>x. x \<in> set xs \<Longrightarrow> length (f x) = w"
  shows "slice_at (concat (map f xs)) (k * w) w = f (xs ! k)"
  using assms
proof (induction xs arbitrary: k)
  case (Cons x xs)
  show ?case
  proof (cases k)
    case 0
    then show ?thesis using Cons.prems by (simp add: slice_at_def)
  next
    case (Suc j)
    with Cons show ?thesis by (simp add: slice_at_def)
  qed
qed simp

lemma slice_block:
  assumes "k < length xs" and "\<And>x. x \<in> set xs \<Longrightarrow> length (f x) = w" and "j + n \<le> w"
  shows "slice_at (concat (map f xs)) (k * w + j) n = slice_at (f (xs ! k)) j n"
  using slice_slice [OF assms(3), of "concat (map f xs)" "k * w"] slice_concat_map [OF assms(1,2)] by simp

lemma length_4_conv: "length xs = 4 \<longleftrightarrow> (\<exists>a b c d. xs = [a, b, c, d])"
proof
  assume "length xs = 4"
  then have "xs = [xs ! 0, xs ! 1, xs ! 2, xs ! 3]"
    by (intro nth_equalityI) (auto simp: less_Suc_eq eval_nat_numeral)
  then show "\<exists>a b c d. xs = [a, b, c, d]" by blast
qed auto

lemma concat_slices: "concat (map (\<lambda>i. slice_at xs (i * w) w) [0..<n]) = take (n * w) xs"
  by (induction n) (simp_all add: slice_at_def take_add [symmetric] add.commute)

lemma length_concat_map_const:
  assumes "\<And>x. x \<in> set xs \<Longrightarrow> length (f x) = w"
  shows "length (concat (map f xs)) = length xs * w"
  using assms by (induction xs) auto

lemma slice_at_short: "length xs < off + n \<Longrightarrow> off \<le> length xs \<Longrightarrow> length (slice_at xs off n) = length xs - off"
  by (simp add: slice_at_def)

text \<open>\<^verbatim>\<open>v[off..off + n]\<close> panics when the range leaves the vector.\<close>

definition slice_r :: "'a list \<Rightarrow> nat \<Rightarrow> nat \<Rightarrow> ('e, 'a list) result" where
  "slice_r xs off n =
     (if off + n \<le> length xs then Inr (slice_at xs off n) else Inl (Panic Index_out_of_bounds))"

lemma slice_r_ok [simp]: "off + n \<le> length xs \<Longrightarrow> slice_r xs off n = Inr (slice_at xs off n)"
  by (simp add: slice_r_def)

text \<open>\<^verbatim>\<open>u64\<close> addition and subtraction with overflow checks, on values below \<open>2 ^ 64\<close>.\<close>

definition add_u64 :: "nat \<Rightarrow> nat \<Rightarrow> ('e, nat) result" where
  "add_u64 a b = (if a + b < 2 ^ 64 then Inr (a + b) else Inl (Panic Arith_overflow))"

definition sub_u64 :: "nat \<Rightarrow> nat \<Rightarrow> ('e, nat) result" where
  "sub_u64 a b = (if b \<le> a then Inr (a - b) else Inl (Panic Arith_overflow))"

subsection \<open>Operations on a state that survives errors\<close>

type_synonym ('s, 'e, 'a) op = "'s \<Rightarrow> ('e, 'a) result \<times> 's"

definition bind_s :: "('s, 'e, 'a) op \<Rightarrow> ('a \<Rightarrow> ('s, 'e, 'b) op) \<Rightarrow> ('s, 'e, 'b) op" where
  "bind_s m f s = (case m s of (Inl e, s') \<Rightarrow> (Inl e, s') | (Inr a, s') \<Rightarrow> f a s')"

definition lift_s :: "('e, 'a) result \<Rightarrow> ('s, 'e, 'a) op" where
  "lift_s r s = (r, s)"

definition get_s :: "('s \<Rightarrow> 'a) \<Rightarrow> ('s, 'e, 'a) op" where
  "get_s f s = (Inr (f s), s)"

definition modify_s :: "('s \<Rightarrow> 's) \<Rightarrow> ('s, 'e, unit) op" where
  "modify_s f s = (Inr (), f s)"

definition update_s :: "('s \<Rightarrow> ('e, 's) result) \<Rightarrow> ('s, 'e, unit) op" where
  "update_s f s = (case f s of Inl e \<Rightarrow> (Inl e, s) | Inr s' \<Rightarrow> (Inr (), s'))"

fun for_each_s :: "('i \<Rightarrow> ('s, 'e, unit) op) \<Rightarrow> 'i list \<Rightarrow> ('s, 'e, unit) op" where
  "for_each_s f [] s = (Inr (), s)"
| "for_each_s f (i # is) s = bind_s (f i) (\<lambda>_. for_each_s f is) s"

lemma op_simps [simp]:
  "lift_s r s = (r, s)" "get_s f s = (Inr (f s), s)" "modify_s g s = (Inr (), g s)"
  by (simp_all add: lift_s_def get_s_def modify_s_def)

lemma bind_s_Inl [simp]: "m s = (Inl e, s') \<Longrightarrow> bind_s m f s = (Inl e, s')"
  by (simp add: bind_s_def)

lemma bind_s_Inr [simp]: "m s = (Inr a, s') \<Longrightarrow> bind_s m f s = f a s'"
  by (simp add: bind_s_def)

lemma for_each_s_inv:
  assumes "\<And>i s. i \<in> set is \<Longrightarrow> Q s \<Longrightarrow> Q (snd (f i s))" and "Q s"
  shows "Q (snd (for_each_s f is s))"
  using assms
proof (induction "is" arbitrary: s)
  case (Cons i "is")
  obtain r s1 where f: "f i s = (r, s1)" by (cases "f i s")
  then have "Q s1" using Cons.prems(1) [of i s] Cons.prems(2) by simp
  then show ?case using Cons f by (cases r) auto
qed simp

lemma bind_s_inv:
  assumes "Q s \<Longrightarrow> Q (snd (m s))" and "\<And>a s. Q s \<Longrightarrow> Q (snd (f a s))" and "Q s"
  shows "Q (snd (bind_s m f s))"
proof -
  obtain r s1 where "m s = (r, s1)" by (cases "m s")
  with assms show ?thesis by (cases r) auto
qed

end
