(* ===== verification/Field_Codec.thy ===== *)
theory Field_Codec
  imports Doxa_Prelude "HOL-Library.Product_Lexorder"
begin

section \<open>Field elements, hashes and their byte encodings\<close>

text \<open>
  The Goldilocks field element \<^verbatim>\<open>F\<close> as the 64-bit word it stores, the digest
  \<^verbatim>\<open>HashOutput\<close> of \<^verbatim>\<open>doxa-utils/src/hasher.rs\<close>, and the conversions between digests and
  what the contract and the database store: \<^verbatim>\<open>bytes32\<close>, the little-endian packed
  \<^verbatim>\<open>uint256\<close> and the preimage layout of \<^verbatim>\<open>doxa-state-sync/src/contract.rs\<close> (which the
  server duplicates), and the byte columns of \<^verbatim>\<open>doxa-subpool-database/src/convert.rs\<close>.
  \<^verbatim>\<open>F::from_canonical_u64\<close> stores its argument, \<^verbatim>\<open>F::to_canonical_u64\<close> subtracts the order
  once when the stored word is not reduced.
\<close>

type_synonym felt = u64

definition GOLDILOCKS_PRIME :: u64 where
  "GOLDILOCKS_PRIME = 0xFFFFFFFF00000001"

definition canonical :: "felt \<Rightarrow> bool" where
  "canonical x \<longleftrightarrow> x < GOLDILOCKS_PRIME"

definition from_canonical_u64 :: "u64 \<Rightarrow> felt" where
  "from_canonical_u64 n = n"

definition to_canonical_u64 :: "felt \<Rightarrow> u64" where
  "to_canonical_u64 x = (if GOLDILOCKS_PRIME \<le> x then x - GOLDILOCKS_PRIME else x)"

text \<open>Field addition, subtraction and multiplication, on the canonical representative.\<close>

definition felt_add :: "felt \<Rightarrow> felt \<Rightarrow> felt" where
  "felt_add a b = of_nat ((unat a + unat b) mod unat GOLDILOCKS_PRIME)"

definition felt_mul :: "felt \<Rightarrow> felt \<Rightarrow> felt" where
  "felt_mul a b = of_nat ((unat a * unat b) mod unat GOLDILOCKS_PRIME)"

definition felt_sub :: "felt \<Rightarrow> felt \<Rightarrow> felt" where
  "felt_sub a b = of_nat ((unat a + (unat GOLDILOCKS_PRIME - unat b mod unat GOLDILOCKS_PRIME))
     mod unat GOLDILOCKS_PRIME)"

datatype hash_output = HashOutput felt felt felt felt

fun elems :: "hash_output \<Rightarrow> felt list" where
  "elems (HashOutput a b c d) = [a, b, c, d]"

definition hash_of :: "felt list \<Rightarrow> hash_output" where
  "hash_of es = HashOutput (es ! 0) (es ! 1) (es ! 2) (es ! 3)"

definition ZERO_hash :: hash_output where
  "ZERO_hash = HashOutput 0 0 0 0"

definition canonical_hash :: "hash_output \<Rightarrow> bool" where
  "canonical_hash h = list_all canonical (elems h)"

text \<open>\<^verbatim>\<open>impl Ord for HashOutput\<close>: the lexicographic order of the four limbs.\<close>

fun to_u64 :: "hash_output \<Rightarrow> u64 \<times> u64 \<times> u64 \<times> u64" where
  "to_u64 (HashOutput a b c d) = (a, b, c, d)"

lemma to_u64_inj: "to_u64 x = to_u64 y \<Longrightarrow> x = y"
  by (cases x; cases y) simp

instantiation hash_output :: linorder
begin

definition less_eq_hash_output :: "hash_output \<Rightarrow> hash_output \<Rightarrow> bool" where
  "less_eq_hash_output x y \<longleftrightarrow> to_u64 x \<le> to_u64 y"

definition less_hash_output :: "hash_output \<Rightarrow> hash_output \<Rightarrow> bool" where
  "less_hash_output x y \<longleftrightarrow> to_u64 x < to_u64 y"

instance
proof
  fix x y z :: hash_output
  show "(x < y) = (x \<le> y \<and> \<not> y \<le> x)"
    unfolding less_eq_hash_output_def less_hash_output_def by (rule less_le_not_le)
  show "x \<le> x"
    unfolding less_eq_hash_output_def by (rule order_refl)
  show "x \<le> y \<Longrightarrow> y \<le> z \<Longrightarrow> x \<le> z"
    unfolding less_eq_hash_output_def by (rule order_trans)
  show "x \<le> y \<Longrightarrow> y \<le> x \<Longrightarrow> x = y"
    unfolding less_eq_hash_output_def by (rule to_u64_inj) (rule order_antisym)
  show "x \<le> y \<or> y \<le> x"
    unfolding less_eq_hash_output_def by (rule linear)
qed

end

lemma length_elems [simp]: "length (elems h) = 4"
  by (cases h) simp

lemma hash_of_elems [simp]: "hash_of (elems h) = h"
  by (cases h) (simp add: hash_of_def)

lemma elems_hash_of [simp]: "length es = 4 \<Longrightarrow> elems (hash_of es) = es"
  by (auto simp: hash_of_def eval_nat_numeral length_Suc_conv)

lemma elems_inj [simp]: "elems x = elems y \<longleftrightarrow> x = y"
  by (metis hash_of_elems)

lemma canonical_ZERO [simp]: "canonical_hash ZERO_hash"
  by (simp add: canonical_hash_def ZERO_hash_def canonical_def GOLDILOCKS_PRIME_def)

lemma to_canonical_canonical [simp]: "canonical x \<Longrightarrow> to_canonical_u64 x = x"
  by (auto simp: canonical_def to_canonical_u64_def dest: leD)

lemma canonical_to_canonical: "canonical (to_canonical_u64 x)"
proof (cases "GOLDILOCKS_PRIME \<le> x")
  case True
  have p: "unat GOLDILOCKS_PRIME = 18446744069414584321"
    by (simp add: GOLDILOCKS_PRIME_def)
  have "unat x < 2 ^ 64"
    using unsigned_less [where 'a = nat, of x] by simp
  moreover have "unat (x - GOLDILOCKS_PRIME) = unat x - unat GOLDILOCKS_PRIME"
    using True by (simp add: unat_sub)
  ultimately have "unat (x - GOLDILOCKS_PRIME) < unat GOLDILOCKS_PRIME"
    by (simp add: p)
  with True show ?thesis
    by (simp add: canonical_def to_canonical_u64_def word_less_nat_alt)
qed (auto simp: canonical_def to_canonical_u64_def)

lemma unat_PRIME: "unat GOLDILOCKS_PRIME = 18446744069414584321"
  by (simp add: GOLDILOCKS_PRIME_def)

lemma unat_reduced: "unat (of_nat (n mod unat GOLDILOCKS_PRIME) :: felt) = n mod unat GOLDILOCKS_PRIME"
proof -
  have "n mod unat GOLDILOCKS_PRIME < 2 ^ 64"
    by (rule less_trans [OF mod_less_divisor]) (simp_all add: unat_PRIME)
  then show ?thesis by (simp add: unat_of_nat)
qed

lemma felt_arith_unat:
  "unat (felt_add a b) = (unat a + unat b) mod unat GOLDILOCKS_PRIME"
  "unat (felt_mul a b) = (unat a * unat b) mod unat GOLDILOCKS_PRIME"
  by (simp_all add: felt_add_def felt_mul_def unat_reduced)

lemma canonical_unat: "canonical x \<longleftrightarrow> unat x < unat GOLDILOCKS_PRIME"
  by (simp add: canonical_def word_less_nat_alt)

lemma canonical_felt_add: "canonical (felt_add a b)"
  by (simp add: canonical_unat felt_arith_unat unat_PRIME)

subsection \<open>Chunks of eight bytes\<close>

definition be_limb :: "bytes \<Rightarrow> nat \<Rightarrow> u64" where
  "be_limb b i = u64_from_be_bytes (slice_at b (i * 8) 8)"

definition le_limb :: "bytes \<Rightarrow> nat \<Rightarrow> u64" where
  "le_limb b i = u64_from_le_bytes (slice_at b (i * 8) 8)"

text \<open>
  The loop of the decoders: read limb \<open>i\<close>, reject it when it is out of the field, store it.
\<close>

datatype codec_error = Limb_out_of_range nat | Bad_hex | Bad_length

definition read_limbs :: "(u64 \<Rightarrow> bool) \<Rightarrow> (nat \<Rightarrow> u64) \<Rightarrow> (codec_error, felt list) result" where
  "read_limbs ok limb = for_each (\<lambda>i elems.
     bind_r (ensure (ok (limb i)) (Limb_out_of_range i))
       (\<lambda>_. Inr (elems[i := from_canonical_u64 (limb i)]))) [0..<4] (replicate 4 0)"

lemma upt_04: "[0..<4] = [0, Suc 0, 2, 3]"
  by (simp add: upt_conv_Cons)

lemma read_limbs_eq:
  "read_limbs ok limb =
     (case filter (\<lambda>i. \<not> ok (limb i)) [0..<4] of
        [] \<Rightarrow> Inr (map limb [0..<4])
      | i # _ \<Rightarrow> Inl (Err (Limb_out_of_range i)))"
  by (simp add: read_limbs_def upt_04 from_canonical_u64_def ensure_def bind_r_def
      numeral_eq_Suc)

lemma read_limbs_Inr:
  "read_limbs ok limb = Inr es \<longleftrightarrow> es = map limb [0..<4] \<and> (\<forall>i < 4. ok (limb i))"
proof (cases "filter (\<lambda>i. \<not> ok (limb i)) [0..<4]")
  case Nil
  then show ?thesis by (auto simp: read_limbs_eq filter_empty_conv)
next
  case (Cons i "is")
  then have "i \<in> set (filter (\<lambda>i. \<not> ok (limb i)) [0..<4])" by simp
  then have "i < 4 \<and> \<not> ok (limb i)" by (simp only: set_filter) simp
  with Cons show ?thesis by (auto simp: read_limbs_eq)
qed

lemma less_4_cases: "(i::nat) < 4 \<longleftrightarrow> i = 0 \<or> i = 1 \<or> i = 2 \<or> i = 3"
  by auto

lemma read_limbs_first_bad:
  "read_limbs (\<lambda>v. v < m) limb = Inl e \<longleftrightarrow>
    (\<exists>i < 4. e = Err (Limb_out_of_range i) \<and> m \<le> limb i \<and> (\<forall>j < i. limb j < m))"
  (is "?l e \<longleftrightarrow> ?r e")
proof -
  let ?bad = "\<lambda>i. \<not> limb i < m"
  have first: "?r e" if err: "?l e" for e
  proof -
    obtain i "is" where f: "filter ?bad [0..<4] = i # is" and e: "e = Err (Limb_out_of_range i)"
      using err by (auto simp: read_limbs_eq split: list.splits)
    then obtain us vs where u: "[0..<4] = us @ i # vs" "\<forall>u \<in> set us. \<not> ?bad u" "?bad i"
      by (auto simp: filter_eq_Cons_iff)
    have "length [0..<4] = length us + Suc (length vs)" by (subst u(1)) simp
    then have len: "length us < 4" by simp
    have "i = [0..<4] ! length us" and "us = take (length us) [0..<4]" 
      using u(1) by simp_all
    with len
    have "i = length us" and "us = [0..<length us]"
      by (simp_all add: take_upt)
    then have "set us = {..<i}" by (metis atLeast_upt)
    with u e len \<open>i = length us\<close> show ?thesis by (auto simp: not_less)
  qed
  show ?thesis
  proof
    assume r: "?r e"
    then have "\<not> (\<exists>es. read_limbs (\<lambda>v. v < m) limb = Inr es)"
      by (auto simp: read_limbs_Inr not_less)
    then obtain e' where l: "?l e'" by (cases "read_limbs (\<lambda>v. v < m) limb") auto
    from first [OF l] r have "e' = e" by (metis leD linorder_neqE_nat)
    with l show "?l e" by simp
  qed (rule first)
qed

lemma canonical_hash_iff: "canonical_hash h \<longleftrightarrow> (\<forall>i < 4. canonical (elems h ! i))"
  by (simp add: canonical_hash_def list_all_length)

text \<open>Four chunks of eight bytes, cut and put together again.\<close>

lemma limb_concat:
  assumes "length ws = 4" and "i < 4"
  shows "be_limb (concat (map u64_to_be_bytes ws)) i = ws ! i"
    and "le_limb (concat (map u64_to_le_bytes ws)) i = ws ! i"
  using assms by (simp_all add: be_limb_def le_limb_def slice_concat_map)

lemma chunks_of_32: "length b = 32 \<Longrightarrow> b = concat (map (\<lambda>i. slice_at b (i * 8) 8) [0..<4])"
  by (simp only: concat_slices) simp

subsection \<open>Digests as contract values\<close>

definition hash_to_bytes32 :: "hash_output \<Rightarrow> bytes" where
  "hash_to_bytes32 h = concat (map u64_to_be_bytes (elems h))"

definition bytes32_to_hash :: "bytes \<Rightarrow> (codec_error, hash_output) result" where
  "bytes32_to_hash b =
     bind_r (read_limbs (\<lambda>val. val < GOLDILOCKS_PRIME) (be_limb b)) (\<lambda>es. Inr (hash_of es))"

definition bytes_slice_to_hashes :: "bytes list \<Rightarrow> (codec_error, hash_output list) result" where
  "bytes_slice_to_hashes raw =
     for_each (\<lambda>b acc. bind_r (bytes32_to_hash b) (\<lambda>h. Inr (acc @ [h]))) raw []"

text \<open>\<^verbatim>\<open>U256::from_limbs\<close> and \<^verbatim>\<open>into_limbs\<close>.\<close>

definition from_limbs :: "u64 \<Rightarrow> u64 \<Rightarrow> u64 \<Rightarrow> u64 \<Rightarrow> u256" where
  "from_limbs l0 l1 l2 l3 = or (ucast l0) (or (push_bit 64 (ucast l1))
     (or (push_bit 128 (ucast l2)) (push_bit 192 (ucast l3))))"

definition into_limb :: "u256 \<Rightarrow> nat \<Rightarrow> u64" where
  "into_limb v i = ucast (drop_bit (64 * i) v)"

definition hash_to_u256_le :: "hash_output \<Rightarrow> u256" where
  "hash_to_u256_le h = from_limbs (elems h ! 0) (elems h ! 1) (elems h ! 2) (elems h ! 3)"

definition bytes32_be_to_u256_le :: "bytes \<Rightarrow> u256" where
  "bytes32_be_to_u256_le b = from_limbs (be_limb b 0) (be_limb b 1) (be_limb b 2) (be_limb b 3)"

definition u256_le_to_hash :: "u256 \<Rightarrow> (codec_error, hash_output) result" where
  "u256_le_to_hash v =
     bind_r (read_limbs (\<lambda>l. l < GOLDILOCKS_PRIME) (into_limb v)) (\<lambda>es. Inr (hash_of es))"

text \<open>The preimage layout: per element the low half, then the high half, both big-endian.\<close>

definition preimage_limb :: "u64 \<Rightarrow> bytes" where
  "preimage_limb v = u32_to_be_bytes (lo32 v) @ u32_to_be_bytes (hi32 v)"

definition hash_to_preimage_bytes32 :: "hash_output \<Rightarrow> bytes" where
  "hash_to_preimage_bytes32 h = concat (map preimage_limb (elems h))"

definition raw_to_preimage_bytes32 :: "bytes \<Rightarrow> bytes" where
  "raw_to_preimage_bytes32 raw = concat (map (\<lambda>i.
     slice_at raw (i * 8 + 4) 4 @ slice_at raw (i * 8) 4) [0..<4])"

definition preimage_bytes32_to_raw :: "bytes \<Rightarrow> bytes" where
  "preimage_bytes32_to_raw b = raw_to_preimage_bytes32 b"

subsection \<open>The contract encodings are inverse to each other\<close>

lemma length_hash_bytes [simp]:
  "length (hash_to_bytes32 h) = 32" "length (hash_to_preimage_bytes32 h) = 32"
  by (cases h; simp add: hash_to_bytes32_def hash_to_preimage_bytes32_def preimage_limb_def)+

lemma be_limb_hash: "i < 4 \<Longrightarrow> be_limb (hash_to_bytes32 h) i = elems h ! i"
  by (simp add: hash_to_bytes32_def limb_concat)

lemma elems_by_index: "map (\<lambda>i. elems h ! i) [0..<4] = elems h"
  using map_nth [of "elems h"] by simp

lemma map_be_limb_hash: "map (be_limb (hash_to_bytes32 h)) [0..<4] = elems h"
proof -
  have "map (be_limb (hash_to_bytes32 h)) [0..<4] = map (\<lambda>i. elems h ! i) [0..<4]"
    by (rule map_cong) (simp_all add: be_limb_hash)
  then show ?thesis by (simp only: elems_by_index)
qed

lemma hash_to_bytes32_of_limbs:
  assumes "length b = 32"
  shows "hash_to_bytes32 (hash_of (map (be_limb b) [0..<4])) = b"
proof -
  have "map (u64_to_be_bytes \<circ> be_limb b) [0..<4] = map (\<lambda>i. slice_at b (i * 8) 8) [0..<4]"
    using assms by (auto simp: be_limb_def)
  then show ?thesis
    using chunks_of_32 [OF assms] by (simp add: hash_to_bytes32_def del: map_eq_conv)
qed

lemma bytes32_to_hash_Inr:
  assumes "length b = 32"
  shows "bytes32_to_hash b = Inr h \<longleftrightarrow> canonical_hash h \<and> hash_to_bytes32 h = b"
proof
  assume "bytes32_to_hash b = Inr h"
  then have h: "h = hash_of (map (be_limb b) [0..<4])" and ok: "\<forall>i < 4. be_limb b i < GOLDILOCKS_PRIME"
    by (auto simp: bytes32_to_hash_def result_simps read_limbs_Inr)
  then have "elems h ! i = be_limb b i" if "i < 4" for i
    using that by simp
  with ok h assms show "canonical_hash h \<and> hash_to_bytes32 h = b"
    by (simp add: hash_to_bytes32_of_limbs canonical_hash_iff canonical_def)
next
  assume h: "canonical_hash h \<and> hash_to_bytes32 h = b"
  then have "\<forall>i < 4. be_limb b i < GOLDILOCKS_PRIME"
    using be_limb_hash by (auto simp: canonical_hash_iff canonical_def)
  with h map_be_limb_hash [of h] show "bytes32_to_hash b = Inr h"
    by (auto simp: bytes32_to_hash_def result_simps read_limbs_Inr)
qed

lemma bytes32_to_hash_roundtrip [simp]:
  "canonical_hash h \<Longrightarrow> bytes32_to_hash (hash_to_bytes32 h) = Inr h"
  by (simp add: bytes32_to_hash_Inr)

lemma into_limb_from_limbs:
  "into_limb (from_limbs a b c d) 0 = a" "into_limb (from_limbs a b c d) 1 = b"
  "into_limb (from_limbs a b c d) 2 = c" "into_limb (from_limbs a b c d) 3 = d"
  by (rule bit_word_eqI;
      auto simp: into_limb_def from_limbs_def bit_simps dest: bit_imp_le_length)+

lemma from_limbs_into_limb:
  "from_limbs (into_limb v 0) (into_limb v 1) (into_limb v 2) (into_limb v 3) = v"
proof (rule bit_word_eqI)
  fix n :: nat
  assume n: "n < LENGTH(256)"
  consider "n < 64" | "64 \<le> n" "n < 128" | "128 \<le> n" "n < 192" | "192 \<le> n" by linarith
  then show "bit (from_limbs (into_limb v 0) (into_limb v 1) (into_limb v 2) (into_limb v 3)) n = bit v n"
    using n by cases (auto simp: into_limb_def from_limbs_def bit_simps)
qed

lemma into_limb_hash: "i < 4 \<Longrightarrow> into_limb (hash_to_u256_le h) i = elems h ! i"
  using into_limb_from_limbs by (auto simp: less_4_cases hash_to_u256_le_def)

lemma u256_le_to_hash_Inr:
  "u256_le_to_hash v = Inr h \<longleftrightarrow> canonical_hash h \<and> hash_to_u256_le h = v"
proof
  assume "u256_le_to_hash v = Inr h"
  then have h: "h = hash_of (map (into_limb v) [0..<4])" and ok: "\<forall>i < 4. into_limb v i < GOLDILOCKS_PRIME"
    by (auto simp: u256_le_to_hash_def result_simps read_limbs_Inr)
  then have el: "elems h ! i = into_limb v i" if "i < 4" for i
    using that by simp
  with ok show "canonical_hash h \<and> hash_to_u256_le h = v"
    by (simp add: hash_to_u256_le_def canonical_hash_iff canonical_def
        from_limbs_into_limb [simplified])
next
  assume h: "canonical_hash h \<and> hash_to_u256_le h = v"
  then have "\<forall>i < 4. into_limb v i < GOLDILOCKS_PRIME"
    using into_limb_hash by (auto simp: canonical_hash_iff canonical_def)
  moreover have "map (into_limb v) [0..<4] = elems h"
    by (rule nth_equalityI) (use h into_limb_hash in auto)
  ultimately show "u256_le_to_hash v = Inr h"
    by (simp add: u256_le_to_hash_def result_simps read_limbs_Inr)
qed

text \<open>The preimage layout swaps the halves of every limb.\<close>

lemma raw_halves:
  "raw_to_preimage_bytes32 (concat (map (\<lambda>(x, y). x @ y) hs)) = concat (map (\<lambda>(x, y). y @ x) hs)"
  if len: "length hs = 4" and wid: "\<forall>(x, y) \<in> set hs. length x = 4 \<and> length y = 4"
proof -
  obtain a b c d where hs: "hs = [a, b, c, d]"
    using len unfolding length_4_conv by blast
  show ?thesis
    using wid unfolding hs
    by (cases a; cases b; cases c; cases d)
       (simp add: raw_to_preimage_bytes32_def upt_04 slice_at_def)
qed

lemma raw_to_preimage_hash:
  "raw_to_preimage_bytes32 (hash_to_bytes32 h) = hash_to_preimage_bytes32 h"
  "raw_to_preimage_bytes32 (hash_to_preimage_bytes32 h) = hash_to_bytes32 h"
proof -
  have fns: "u64_to_be_bytes = (\<lambda>w. u32_to_be_bytes (hi32 w) @ u32_to_be_bytes (lo32 w))"
    "preimage_limb = (\<lambda>w. u32_to_be_bytes (lo32 w) @ u32_to_be_bytes (hi32 w))"
    by (auto simp: u64_be_halves preimage_limb_def)
  show "raw_to_preimage_bytes32 (hash_to_bytes32 h) = hash_to_preimage_bytes32 h"
    "raw_to_preimage_bytes32 (hash_to_preimage_bytes32 h) = hash_to_bytes32 h"
    using raw_halves [of "map (\<lambda>w. (u32_to_be_bytes (hi32 w), u32_to_be_bytes (lo32 w))) (elems h)"]
      raw_halves [of "map (\<lambda>w. (u32_to_be_bytes (lo32 w), u32_to_be_bytes (hi32 w))) (elems h)"]
    by (simp_all add: hash_to_bytes32_def hash_to_preimage_bytes32_def fns o_def)
qed

lemma raw_to_preimage_involution:
  assumes "length b = 32"
  shows "raw_to_preimage_bytes32 (raw_to_preimage_bytes32 b) = b"
  using raw_to_preimage_hash hash_to_bytes32_of_limbs [OF assms] by metis

subsection \<open>Digests from foreign bytes\<close>

text \<open>\<^verbatim>\<open>HashOutput::from_32bytes_digest\<close> and the two \<^verbatim>\<open>from_encoded_fields\<close>.\<close>

definition from_32bytes_digest :: "bytes \<Rightarrow> hash_output" where
  "from_32bytes_digest digest =
     hash_of (map (\<lambda>i. from_canonical_u64 (and (be_limb digest i) 0x7FFFFFFFFFFFFFFF)) [0..<4])"

definition from_encoded_fields_unchecked :: "bytes \<Rightarrow> hash_output" where
  "from_encoded_fields_unchecked b = hash_of (map (\<lambda>i. from_canonical_u64 (be_limb b i)) [0..<4])"

definition from_encoded_fields_checked :: "bytes \<Rightarrow> (codec_error, hash_output) result" where
  "from_encoded_fields_checked b =
     bind_r (for_each (\<lambda>i elems. bind_r (assert_r (be_limb b i \<le> GOLDILOCKS_PRIME))
         (\<lambda>_. Inr (elems[i := from_canonical_u64 (be_limb b i)]))) [0..<4] (replicate 4 0))
       (\<lambda>es. Inr (hash_of es))"

lemma from_32bytes_digest_canonical: "canonical_hash (from_32bytes_digest b)"
proof -
  have "and w 0x7FFFFFFFFFFFFFFF < GOLDILOCKS_PRIME" for w :: u64
  proof -
    have "and w 0x7FFFFFFFFFFFFFFF \<le> (0x7FFFFFFFFFFFFFFF :: u64)"
      by (rule word_and_le1)
    also have "\<dots> < GOLDILOCKS_PRIME" by (simp add: GOLDILOCKS_PRIME_def)
    finally show ?thesis .
  qed
  then show ?thesis
    by (simp add: canonical_hash_iff canonical_def from_32bytes_digest_def from_canonical_u64_def)
qed

lemma from_encoded_fields_unchecked_roundtrip:
  "from_encoded_fields_unchecked (hash_to_bytes32 h) = h"
  using map_be_limb_hash [of h] by (simp add: from_encoded_fields_unchecked_def from_canonical_u64_def)

subsection \<open>Database columns\<close>

definition f_to_bytes :: "felt \<Rightarrow> bytes" where
  "f_to_bytes f = u64_to_le_bytes (to_canonical_u64 f)"

definition bytes_to_f :: "bytes \<Rightarrow> felt" where
  "bytes_to_f b = from_canonical_u64 (u64_from_le_bytes b)"

definition u256_words :: "u256 \<Rightarrow> u64 list" where
  "u256_words v = map (into_limb v) [0..<4]"

definition u256_to_bytes :: "u256 \<Rightarrow> bytes" where
  "u256_to_bytes v = concat (map u64_to_le_bytes (u256_words v))"

definition bytes_to_u256 :: "bytes \<Rightarrow> u256" where
  "bytes_to_u256 b = from_limbs (le_limb b 0) (le_limb b 1) (le_limb b 2) (le_limb b 3)"

lemma bytes_to_f_roundtrip [simp]: "bytes_to_f (f_to_bytes f) = to_canonical_u64 f"
  by (simp add: f_to_bytes_def bytes_to_f_def from_canonical_u64_def)

lemma length_u256_bytes [simp]: "length (f_to_bytes f) = 8" "length (u256_to_bytes v) = 32"
  by (simp_all add: f_to_bytes_def u256_to_bytes_def u256_words_def upt_04)

lemma u256_bytes_roundtrip [simp]: "bytes_to_u256 (u256_to_bytes v) = v"
proof -
  have "le_limb (u256_to_bytes v) i = into_limb v i" if "i < 4" for i
    using that limb_concat(2) [of "u256_words v" i] by (simp add: u256_to_bytes_def u256_words_def)
  then show ?thesis
    using from_limbs_into_limb [of v] by (simp add: bytes_to_u256_def)
qed

subsection \<open>Properties\<close>

text \<open>
  C33. \<^verbatim>\<open>bytes32_to_hash\<close> is the exact partial inverse of \<^verbatim>\<open>hash_to_bytes32\<close>: it returns a
  digest if and only if the digest is canonical and encodes to the given bytes, and otherwise
  reports the first limb that is not below the Goldilocks prime.
\<close>

theorem bytes32_to_hash_exact:
  assumes "length b = 32"
  shows "(bytes32_to_hash b = Inr h \<longleftrightarrow> canonical_hash h \<and> hash_to_bytes32 h = b)
    \<and> (bytes32_to_hash b = Inl e \<longleftrightarrow>
        (\<exists>i < 4. e = Err (Limb_out_of_range i) \<and> GOLDILOCKS_PRIME \<le> be_limb b i
          \<and> (\<forall>j < i. be_limb b j < GOLDILOCKS_PRIME)))"
proof -
  have "bytes32_to_hash b = Inl e \<longleftrightarrow> read_limbs (\<lambda>val. val < GOLDILOCKS_PRIME) (be_limb b) = Inl e"
    by (cases "read_limbs (\<lambda>val. val < GOLDILOCKS_PRIME) (be_limb b)") (simp_all add: bytes32_to_hash_def)
  also have "\<dots> \<longleftrightarrow> (\<exists>i < 4. e = Err (Limb_out_of_range i) \<and> GOLDILOCKS_PRIME \<le> be_limb b i
          \<and> (\<forall>j < i. be_limb b j < GOLDILOCKS_PRIME))"
    by (rule read_limbs_first_bad)
  finally show ?thesis using bytes32_to_hash_Inr [OF assms] by simp
qed

theorem bytes32_to_hash_exact_witness:
  "bytes32_to_hash (hash_to_bytes32 (HashOutput 1 2 3 4)) = Inr (HashOutput 1 2 3 4)"
proof -
  have "canonical_hash (HashOutput 1 2 3 4)"
    by (simp add: canonical_hash_def canonical_def GOLDILOCKS_PRIME_def)
  then show ?thesis
    using bytes32_to_hash_exact [of "hash_to_bytes32 (HashOutput 1 2 3 4)" "HashOutput 1 2 3 4" "Err Bad_hex"]
    by simp
qed

text \<open>
  \<^verbatim>\<open>u256_le_to_hash\<close> is the exact partial inverse of \<^verbatim>\<open>hash_to_u256_le\<close>, so a packed
  \<^verbatim>\<open>uint256\<close> denotes at most one digest; and packing the big-endian bytes of a digest
  directly gives the same word as packing the digest.
\<close>

theorem u256_le_codec_exact:
  "(u256_le_to_hash v = Inr h \<longleftrightarrow> canonical_hash h \<and> hash_to_u256_le h = v)
    \<and> bytes32_be_to_u256_le (hash_to_bytes32 h') = hash_to_u256_le h'"
  using be_limb_hash by (simp add: u256_le_to_hash_Inr bytes32_be_to_u256_le_def hash_to_u256_le_def)

text \<open>
  The half-swap between the \<^verbatim>\<open>bytes32\<close> and the preimage layout is its own inverse and maps
  the two encodings of a digest to each other, so a canonical digest read back from a preimage
  through \<^verbatim>\<open>preimage_bytes32_to_raw\<close> is the digest that was written.
\<close>

theorem preimage_layout_roundtrip:
  assumes "length b = 32" and "canonical_hash h"
  shows "preimage_bytes32_to_raw (raw_to_preimage_bytes32 b) = b
    \<and> raw_to_preimage_bytes32 (hash_to_bytes32 h) = hash_to_preimage_bytes32 h
    \<and> bytes32_to_hash (preimage_bytes32_to_raw (hash_to_preimage_bytes32 h)) = Inr h"
  using assms by (simp add: preimage_bytes32_to_raw_def raw_to_preimage_involution raw_to_preimage_hash)

theorem preimage_layout_roundtrip_witness:
  "bytes32_to_hash (preimage_bytes32_to_raw (hash_to_preimage_bytes32 ZERO_hash)) = Inr ZERO_hash"
  using preimage_layout_roundtrip [of "replicate 32 0" ZERO_hash] by simp

text \<open>
  The checked decoder accepts a limb equal to the field order: it returns a digest that is
  not canonical, although its comment restricts it to encodings of field elements.
\<close>

theorem from_encoded_fields_checked_accepts_order:
  "\<exists>h. from_encoded_fields_checked (hash_to_bytes32 (HashOutput GOLDILOCKS_PRIME 0 0 0)) = Inr h
    \<and> \<not> canonical_hash h"
proof -
  let ?h = "HashOutput GOLDILOCKS_PRIME 0 0 0"
  let ?b = "be_limb (hash_to_bytes32 ?h)"
  have "?b 0 = GOLDILOCKS_PRIME" "?b (Suc 0) = 0" "?b (Suc (Suc 0)) = 0" "?b (Suc (Suc (Suc 0))) = 0"
    by (simp_all add: be_limb_hash)
  then have "from_encoded_fields_checked (hash_to_bytes32 ?h) = Inr ?h"
    by (simp add: from_encoded_fields_checked_def upt_04 from_canonical_u64_def hash_of_def
        numeral_eq_Suc)
  moreover have "\<not> canonical_hash ?h"
    by (simp add: canonical_hash_def canonical_def)
  ultimately show ?thesis by blast
qed

end
