(* ===== verification/Merkle_Tree.thy ===== *)
theory Merkle_Tree
  imports Field_Codec
begin

section \<open>The append-only sparse Merkle tree\<close>

text \<open>
  \<^verbatim>\<open>doxa-trees/src/tree.rs\<close>: the tree keeps its leaves, one vector of parents per level
  and the digests of empty subtrees, and every update rewrites the nodes above the leaves it
  touched. The reference is \<open>node\<close>, the digest of a complete binary tree whose missing leaves
  are \<open>ZERO\<close>; \<open>tree_ok\<close> says that every stored layer is the non-empty prefix of that tree's
  level. Every operation is shown to keep \<open>tree_ok\<close> and to end without a panic, the batched
  insert to be the sequence of single inserts, and \<^verbatim>\<open>root\<close> to be the reference root.
  The digest operations are the trait \<^verbatim>\<open>MerkleHash\<close>, a record the operations take as an
  argument; its law on the direction bit is the locale \<open>merkle_hash_laws\<close>.
\<close>

record 'd merkle_hash =
  ZERO :: 'd
  hash_2_to_1_swapped :: "'d \<Rightarrow> 'd \<Rightarrow> bool \<Rightarrow> 'd"

record 'd merkle_tree =
  leaves :: "'d list"
  layers :: "'d list list"
  default_siblings :: "'d list"

datatype tree_error =
    FullTree | InvalidBatch | IndexError | RootMismatch | LayerMismatch nat

type_synonym 'a tree_result = "(tree_error, 'a) result"

subsection \<open>Operations\<close>

definition merkle_tree_new :: "'d merkle_hash \<Rightarrow> nat \<Rightarrow> 'd merkle_tree" where
  "merkle_tree_new H depth =
     \<lparr>leaves = [], layers = replicate depth [],
      default_siblings = fold (\<lambda>i ds.
          ds @ [hash_2_to_1_swapped H (ds ! (i - 1)) (ds ! (i - 1)) False]) [1..<depth] [ZERO H]\<rparr>"

definition depth :: "'d merkle_tree \<Rightarrow> nat" where
  "depth t = length (layers t)"

definition num_leaves :: "'d merkle_tree \<Rightarrow> nat" where
  "num_leaves t = length (leaves t)"

definition leaf :: "'d merkle_tree \<Rightarrow> nat \<Rightarrow> 'd tree_result" where
  "leaf t index = (if num_leaves t \<le> index then Inl (Err IndexError) else Inr (leaves t ! index))"

text \<open>\<^verbatim>\<open>1 << depth\<close> on \<^verbatim>\<open>usize\<close>.\<close>

definition capacity :: "nat \<Rightarrow> ('e, nat) result" where
  "capacity d = (if d < 64 then Inr (2 ^ d) else Inl (Panic Arith_overflow))"

text \<open>The nodes below \<open>layers ! level\<close>: the leaves, or the layer before.\<close>

definition level_nodes :: "'d merkle_tree \<Rightarrow> nat \<Rightarrow> 'd list" where
  "level_nodes t level = (if level = 0 then leaves t else layers t ! (level - 1))"

text \<open>One level of \<^verbatim>\<open>merkle_path\<close>: store the sibling, or the empty digest when there is none.\<close>

definition merkle_path_level ::
  "'d merkle_tree \<Rightarrow> nat \<Rightarrow> nat \<Rightarrow> 'd list \<times> nat \<Rightarrow> ('d list \<times> nat) tree_result" where
  "merkle_path_level t start_depth level = (\<lambda>(siblings, pos).
     let sibling_pos = (if odd pos then pos - 1 else pos + 1);
         prev_layer = level_nodes t level
     in bind_r (if sibling_pos < length prev_layer then Inr (prev_layer ! sibling_pos)
                else vec_get (default_siblings t) level)
          (\<lambda>sib. Inr (siblings[level - start_depth := sib], pos div 2)))"

definition merkle_path ::
  "'d merkle_hash \<Rightarrow> 'd merkle_tree \<Rightarrow> nat \<Rightarrow> nat \<Rightarrow> nat \<Rightarrow> 'd list tree_result" where
  "merkle_path H t index start_depth end_depth =
     bind_r (assert_r (end_depth \<le> depth t)) (\<lambda>_.
     bind_r (assert_r (start_depth < end_depth)) (\<lambda>_.
     bind_r (for_each (merkle_path_level t start_depth) [start_depth..<end_depth]
         (replicate (end_depth - start_depth) (ZERO H), index div 2 ^ start_depth))
       (\<lambda>(siblings, pos). Inr siblings)))"

definition root :: "'d merkle_hash \<Rightarrow> 'd merkle_tree \<Rightarrow> 'd tree_result" where
  "root H t =
     (if layers t = [] then Inl (Panic Unwrap_failed)
      else let last_layer = last (layers t) in
        if last_layer = [] then
          (if default_siblings t = [] then Inl (Panic Unwrap_failed)
           else let last_default = last (default_siblings t)
                in Inr (hash_2_to_1_swapped H last_default last_default False))
        else bind_r (assert_r (length last_layer = 1)) (\<lambda>_. Inr (last_layer ! 0)))"

text \<open>
  The sibling of \<open>pos\<close> at \<open>level\<close>: a right child needs its left sibling, a left child
  falls back to the digest of an empty subtree.
\<close>

definition path_sibling :: "'d merkle_tree \<Rightarrow> nat \<Rightarrow> nat \<Rightarrow> 'd tree_result" where
  "path_sibling t level pos =
     (let prev_layer = level_nodes t level in
      if odd pos then vec_get prev_layer (pos - 1)
      else if pos + 1 < length prev_layer then Inr (prev_layer ! (pos + 1))
      else vec_get (default_siblings t) level)"

text \<open>Write the parent of \<open>pos\<close>: overwrite it, or append it when it is the next one.\<close>

definition write_parent :: "nat \<Rightarrow> nat \<Rightarrow> 'd \<Rightarrow> 'd merkle_tree \<Rightarrow> 'd merkle_tree tree_result" where
  "write_parent level parent h t =
     bind_r (write_or_push (layers t ! level) parent h)
       (\<lambda>layer. Inr (t\<lparr>layers := (layers t)[level := layer]\<rparr>))"

definition update_merkle_path ::
  "'d merkle_hash \<Rightarrow> nat \<Rightarrow> 'd merkle_tree \<Rightarrow> 'd merkle_tree tree_result" where
  "update_merkle_path H index t =
     bind_r (vec_get (leaves t) index) (\<lambda>leaf_hash.
     bind_r (for_each (\<lambda>level (pos, current_hash, t).
         bind_r (path_sibling t level pos) (\<lambda>sibling_hash.
         let current_hash = hash_2_to_1_swapped H current_hash sibling_hash (odd pos) in
         bind_r (write_parent level (pos div 2) current_hash t)
           (\<lambda>t. Inr (pos div 2, current_hash, t))))
         [0..<depth t] (index, leaf_hash, t))
       (\<lambda>(pos, current_hash, t). Inr t))"

definition rebuild_tree ::
  "'d merkle_hash \<Rightarrow> 'd merkle_tree \<Rightarrow> 'd merkle_tree tree_result" where
  "rebuild_tree H t =
     for_each (update_merkle_path H) [0..<length (leaves t)]
       (t\<lparr>layers := map (\<lambda>_. []) (layers t)\<rparr>)"

definition update_leaf ::
  "'d merkle_hash \<Rightarrow> nat \<Rightarrow> 'd \<Rightarrow> 'd merkle_tree \<Rightarrow> 'd merkle_tree tree_result" where
  "update_leaf H index new_leaf t =
     (if length (leaves t) \<le> index then Inl (Err IndexError)
      else update_merkle_path H index (t\<lparr>leaves := (leaves t)[index := new_leaf]\<rparr>))"

definition insert_tree ::
  "'d merkle_hash \<Rightarrow> 'd \<Rightarrow> 'd merkle_tree \<Rightarrow> (nat \<times> 'd merkle_tree) tree_result" where
  "insert_tree H lf t =
     bind_r (capacity (depth t)) (\<lambda>cap.
     if cap \<le> num_leaves t then Inl (Err FullTree)
     else let t = t\<lparr>leaves := leaves t @ [lf]\<rparr> in
       bind_r (update_merkle_path H (length (leaves t) - 1) t)
         (\<lambda>t. Inr (num_leaves t - 1, t)))"

text \<open>
  One parent of the batched update: unlike \<open>path_sibling\<close>, a missing node is \<open>ZERO\<close>
  and a missing sibling on either side an empty subtree.
\<close>

definition consecutive_parent ::
  "'d merkle_hash \<Rightarrow> nat \<Rightarrow> nat \<Rightarrow> 'd merkle_tree \<Rightarrow> 'd merkle_tree tree_result" where
  "consecutive_parent H level pos t =
     (let prev = level_nodes t level;
          current_hash = (if pos < length prev then prev ! pos else ZERO H);
          sibling_pos = (if odd pos then pos - 1 else pos + 1)
      in bind_r (if sibling_pos < length prev then Inr (prev ! sibling_pos)
                 else vec_get (default_siblings t) level)
           (\<lambda>sibling_hash. write_parent level (pos div 2)
              (hash_2_to_1_swapped H current_hash sibling_hash (odd pos)) t))"

definition update_consecutive_paths ::
  "'d merkle_hash \<Rightarrow> nat \<Rightarrow> nat \<Rightarrow> 'd merkle_tree \<Rightarrow> 'd merkle_tree tree_result" where
  "update_consecutive_paths H start batch_size t =
     bind_r (capacity (depth t)) (\<lambda>cap.
     if cap < start + batch_size then Inl (Err IndexError)
     else bind_r (for_each (\<lambda>level (cur_start, cur_end, t).
         bind_r (for_each (consecutive_parent H level) [cur_start..<cur_end] t)
           (\<lambda>t. Inr (cur_start div 2, (cur_end + 1) div 2, t)))
         [0..<depth t] (start, start + batch_size, t))
       (\<lambda>(cur_start, cur_end, t). Inr t))"

text \<open>
  \<^verbatim>\<open>insert_batch\<close> extends the leaves before the update can fail, so the tree it leaves
  behind is a result of its own. \<^verbatim>\<open>is_multiple_of(0)\<close> holds of \<open>0\<close> only.
\<close>

definition insert_batch ::
  "'d merkle_hash \<Rightarrow> 'd list \<Rightarrow> 'd merkle_tree \<Rightarrow> unit tree_result \<times> 'd merkle_tree" where
  "insert_batch H ls t =
     (let batch_size = length ls in
      if \<not> batch_size dvd num_leaves t then (Inl (Err InvalidBatch), t)
      else case capacity (depth t) of
        Inl e \<Rightarrow> (Inl e, t)
      | Inr cap \<Rightarrow>
          if cap \<le> num_leaves t then (Inl (Err FullTree), t)
          else let t = t\<lparr>leaves := leaves t @ ls\<rparr> in
            case update_consecutive_paths H (num_leaves t - batch_size) batch_size t of
              Inl e \<Rightarrow> (Inl e, t)
            | Inr t \<Rightarrow> (Inr (), t))"

text \<open>A \<^verbatim>\<open>BTreeSet\<close> is walked in ascending order.\<close>

definition sparse_parent ::
  "'d merkle_hash \<Rightarrow> nat \<Rightarrow> nat \<Rightarrow> 'd merkle_tree \<Rightarrow> 'd merkle_tree tree_result" where
  "sparse_parent H level pos t =
     bind_r (vec_get (level_nodes t level) pos) (\<lambda>current_hash.
     bind_r (path_sibling t level pos) (\<lambda>sibling_hash.
     write_parent level (pos div 2)
       (hash_2_to_1_swapped H current_hash sibling_hash (odd pos)) t))"

definition sparse_pass ::
  "'d merkle_hash \<Rightarrow> nat \<Rightarrow> nat list \<times> 'd merkle_tree \<Rightarrow> (nat list \<times> 'd merkle_tree) tree_result" where
  "sparse_pass H level = (\<lambda>(active, t).
     bind_r (for_each (sparse_parent H level) active t)
       (\<lambda>t. Inr (if level + 1 < depth t
                  then sorted_list_of_set ((\<lambda>pos. pos div 2) ` set active) else active, t)))"

definition update_sparse_paths ::
  "'d merkle_hash \<Rightarrow> nat list \<Rightarrow> 'd merkle_tree \<Rightarrow> 'd merkle_tree tree_result" where
  "update_sparse_paths H indices t =
     (if indices = [] then Inr t
      else bind_r (for_each (sparse_pass H) [0..<depth t] (sorted_list_of_set (set indices), t))
        (\<lambda>(active, t). Inr t))"

subsection \<open>The reference tree\<close>

definition leaf_at :: "'d merkle_hash \<Rightarrow> 'd list \<Rightarrow> nat \<Rightarrow> 'd" where
  "leaf_at H ls i = (if i < length ls then ls ! i else ZERO H)"

fun node :: "'d merkle_hash \<Rightarrow> (nat \<Rightarrow> 'd) \<Rightarrow> nat \<Rightarrow> nat \<Rightarrow> 'd" where
  "node H f 0 p = f p"
| "node H f (Suc k) p =
     hash_2_to_1_swapped H (node H f k (2 * p)) (node H f k (2 * p + 1)) False"

definition zero_node :: "'d merkle_hash \<Rightarrow> nat \<Rightarrow> 'd" where
  "zero_node H k = node H (\<lambda>_. ZERO H) k 0"

definition spec_root :: "'d merkle_hash \<Rightarrow> nat \<Rightarrow> 'd list \<Rightarrow> 'd" where
  "spec_root H d ls = node H (leaf_at H ls) d 0"

text \<open>\<open>up n k\<close> nodes of level \<open>k\<close> have a leaf among the first \<open>n\<close> below them.\<close>

fun up :: "nat \<Rightarrow> nat \<Rightarrow> nat" where
  "up n 0 = n"
| "up n (Suc k) = (up n k + 1) div 2"

definition stored :: "'d merkle_hash \<Rightarrow> (nat \<Rightarrow> 'd) \<Rightarrow> nat \<Rightarrow> nat \<Rightarrow> 'd list" where
  "stored H f n k = map (node H f k) [0..<up n k]"

definition canonical_tree :: "'d merkle_hash \<Rightarrow> nat \<Rightarrow> 'd list \<Rightarrow> 'd merkle_tree" where
  "canonical_tree H d ls =
     \<lparr>leaves = ls,
      layers = map (\<lambda>j. stored H (leaf_at H ls) (length ls) (Suc j)) [0..<d],
      default_siblings = map (zero_node H) [0..<max 1 d]\<rparr>"

definition tree_ok :: "'d merkle_hash \<Rightarrow> 'd merkle_tree \<Rightarrow> bool" where
  "tree_ok H t \<longleftrightarrow> num_leaves t \<le> 2 ^ depth t \<and> t = canonical_tree H (depth t) (leaves t)"

lemma canonical_tree_sel [simp]:
  "leaves (canonical_tree H d ls) = ls"
  "depth (canonical_tree H d ls) = d"
  "num_leaves (canonical_tree H d ls) = length ls"
  "default_siblings (canonical_tree H d ls) = map (zero_node H) [0..<max 1 d]"
  by (simp_all add: canonical_tree_def depth_def num_leaves_def)

lemma tree_ok_canonical [simp]: "tree_ok H (canonical_tree H d ls) \<longleftrightarrow> length ls \<le> 2 ^ d"
  by (simp add: tree_ok_def)

lemma length_stored [simp]: "length (stored H f n k) = up n k"
  by (simp add: stored_def)

lemma nth_stored [simp]: "p < up n k \<Longrightarrow> stored H f n k ! p = node H f k p"
  by (simp add: stored_def)

lemma stored_0 [simp]: "stored H (leaf_at H ls) (length ls) 0 = ls"
  by (rule nth_equalityI) (auto simp: leaf_at_def)

lemma div_pow_Suc: "i div 2 ^ Suc k = i div 2 ^ k div (2 :: nat)"
  by (simp only: power_Suc2 div_mult2_eq)

lemma node_cong: "(\<And>i. i div 2 ^ k = p \<Longrightarrow> f i = g i) \<Longrightarrow> node H f k p = node H g k p"
proof (induction k arbitrary: p)
  case (Suc k)
  have "node H f k q = node H g k q" if "q div 2 = p" for q
    by (rule Suc.IH, rule Suc.prems) (simp add: div_pow_Suc that del: power_Suc)
  then show ?case by simp
qed simp

lemma node_const: "node H (\<lambda>_. z) k p = node H (\<lambda>_. z) k q"
proof (induction k arbitrary: p q)
  case (Suc k)
  then have "node H (\<lambda>_. z) k (2 * p) = node H (\<lambda>_. z) k (2 * q)"
    "node H (\<lambda>_. z) k (2 * p + 1) = node H (\<lambda>_. z) k (2 * q + 1)"
    by blast+
  then show ?case by simp
qed simp

lemma zero_node_simps [simp]:
  "zero_node H 0 = ZERO H"
  "zero_node H (Suc k) = hash_2_to_1_swapped H (zero_node H k) (zero_node H k) False"
  using node_const [of H "ZERO H" k 1 0] by (simp_all add: zero_node_def)

lemma below_up: "i < n \<Longrightarrow> i div 2 ^ k < up n k"
  by (induction k) (auto simp: div_pow_Suc simp del: power_Suc)

lemma above_up: "n div 2 ^ k \<le> up n k"
  by (induction k) (auto simp: div_pow_Suc simp del: power_Suc)

lemma node_empty:
  assumes "\<And>i. n \<le> i \<Longrightarrow> f i = ZERO H" and "up n k \<le> p"
  shows "node H f k p = zero_node H k"
proof -
  have "node H f k p = node H (\<lambda>_. ZERO H) k p"
  proof (rule node_cong)
    fix i assume "i div 2 ^ k = p"
    then have "n \<le> i" using assms(2) below_up [of i n k] by force
    then show "f i = ZERO H" by (rule assms(1))
  qed
  then show ?thesis unfolding zero_node_def using node_const by metis
qed

lemma up_Suc_leaf: "up (Suc n) k = max (up n k) (Suc (n div 2 ^ k))"
proof (induction k)
  case (Suc k)
  have half: "(max a (Suc q) + 1) div 2 = max ((a + 1) div 2) (Suc (q div 2))" for a q :: nat
    by (simp add: max_def) linarith
  show ?case by (simp only: up.simps Suc.IH half div_pow_Suc)
qed simp

lemma up_pow: "n \<le> 2 ^ (k + j) \<Longrightarrow> up n k \<le> 2 ^ j"
proof (induction k arbitrary: j)
  case (Suc k)
  then have "up n k \<le> 2 ^ Suc j" using Suc.IH [of "Suc j"] by simp
  then show ?case by simp
qed simp

lemma up_top: "n \<le> 2 ^ d \<Longrightarrow> up n d \<le> 1"
  using up_pow [of n d 0] by simp

lemma up_mono: "n \<le> n' \<Longrightarrow> up n k \<le> up n' k"
proof (induction k)
  case (Suc k)
  then show ?case by (simp add: div_le_mono)
qed simp

lemma up_zero_iff [simp]: "up n k = 0 \<longleftrightarrow> n = 0"
  by (induction k) auto

subsection \<open>The hash interface and the update of a path\<close>

text \<open>
  The layers while an update rewrites them bottom-up: new below level \<open>k\<close>, old from there on.
\<close>

definition mixed ::
  "'d merkle_hash \<Rightarrow> (nat \<Rightarrow> 'd) \<Rightarrow> nat \<Rightarrow> (nat \<Rightarrow> 'd) \<Rightarrow> nat \<Rightarrow> nat \<Rightarrow> nat \<Rightarrow> 'd list list" where
  "mixed H f n g n' d k =
     map (\<lambda>j. if j < k then stored H g n' (Suc j) else stored H f n (Suc j)) [0..<d]"

lemma mixed_first: "mixed H f n g n' d 0 = map (\<lambda>j. stored H f n (Suc j)) [0..<d]"
  by (simp add: mixed_def)

lemma mixed_last: "mixed H f n g n' d d = map (\<lambda>j. stored H g n' (Suc j)) [0..<d]"
  by (simp add: mixed_def)

lemma mixed_step: "(mixed H f n g n' d k)[k := stored H g n' (Suc k)] = mixed H f n g n' d (Suc k)"
  by (rule nth_equalityI) (auto simp: mixed_def nth_list_update less_Suc_eq)

lemma length_mixed [simp]: "length (mixed H f n g n' d k) = d"
  by (simp add: mixed_def)

lemma nth_mixed: "k < d \<Longrightarrow> mixed H f n g n' d k ! k = stored H f n (Suc k)"
  by (simp add: mixed_def)

text \<open>What an update of level \<open>k\<close> reads: the nodes below it and its empty digest.\<close>

definition level_ok :: "'d merkle_hash \<Rightarrow> 'd merkle_tree \<Rightarrow> nat \<Rightarrow> (nat \<Rightarrow> 'd) \<Rightarrow> nat \<Rightarrow> bool" where
  "level_ok H t k f n \<longleftrightarrow> level_nodes t k = stored H f n k \<and> k < length (default_siblings t)
     \<and> default_siblings t ! k = zero_node H k \<and> (\<forall>i \<ge> n. f i = ZERO H)"

lemma level_ok_mixed:
  assumes "0 < k" and "k < d" and "default_siblings t = map (zero_node H) [0..<max 1 d]"
    and "\<And>j. n' \<le> j \<Longrightarrow> g j = ZERO H"
  shows "level_ok H (t\<lparr>layers := mixed H f n g n' d k\<rparr>) k g n'"
  using assms by (cases k) (auto simp: level_ok_def level_nodes_def mixed_def simp del: zero_node_simps)

lemma level_ok_write [simp]:
  "level_ok H (t\<lparr>layers := Ls[k := L]\<rparr>) k g n' = level_ok H (t\<lparr>layers := Ls\<rparr>) k g n'"
  by (simp add: level_ok_def level_nodes_def)

locale merkle_hash_laws =
  fixes H :: "'d merkle_hash"
  assumes swap: "hash_2_to_1_swapped H l r True = hash_2_to_1_swapped H r l False"
begin

text \<open>Hashing a node with its sibling gives their parent, on either side.\<close>

lemma parent_hash:
  "hash_2_to_1_swapped H (node H f k pos) (node H f k (if odd pos then pos - 1 else pos + 1)) (odd pos)
     = node H f (Suc k) (pos div 2)"
proof (cases "odd pos")
  case True
  then have "2 * (pos div 2) = pos - 1" "Suc (2 * (pos div 2)) = pos"
    by (auto simp: odd_two_times_div_two_nat)
  with True show ?thesis by (simp add: swap)
next
  case False
  then have "2 * (pos div 2) = pos" by simp
  with False show ?thesis by simp
qed

lemma sibling_lookup:
  assumes "level_ok H t k f n"
  shows "(if p < length (level_nodes t k) then Inr (level_nodes t k ! p)
          else vec_get (default_siblings t) k) = Inr (node H f k p)"
  using assms by (auto simp: level_ok_def node_empty [of n f H k p])

lemma path_sibling_ok:
  assumes "level_ok H t k f n" and "pos < up n k"
  shows "path_sibling t k pos = Inr (node H f k (if odd pos then pos - 1 else pos + 1))"
  using assms sibling_lookup [OF assms(1), of "pos + 1"]
  by (auto simp: path_sibling_def level_ok_def Let_def split: if_splits)

text \<open>
  One level of an update: the layer holds the old nodes, all of them right but the one
  above the changed leaf; writing that one gives the new layer.
\<close>

lemma write_parent_ok:
  assumes "level < depth t" and "layers t ! level = stored H f n (Suc level)"
    and "parent \<le> up n (Suc level)" and "n' = max (up n (Suc level)) (Suc parent)"
    and "\<And>p. p \<noteq> parent \<Longrightarrow> node H f (Suc level) p = node H g (Suc level) p"
  shows "write_parent level parent (node H g (Suc level) parent) t =
    Inr (t\<lparr>layers := (layers t)[level := map (node H g (Suc level)) [0..<n']]\<rparr>)"
proof -
  have "(write_or_push (layers t ! level) parent (node H g (Suc level) parent) :: 'd list tree_result) =
      Inr (map (node H g (Suc level)) [0..<max (length (layers t ! level)) (Suc parent)])"
    by (rule write_or_push_map) (use assms in \<open>simp_all del: node.simps up.simps\<close>)
  with assms show ?thesis by (simp only: write_parent_def bind_r_Inr length_stored)
qed

text \<open>The changed leaves all lie under one parent, so above level 0 the path is all that changes.\<close>

lemma update_merkle_path_ok:
  assumes old: "layers t = map (\<lambda>j. stored H f n (Suc j)) [0..<d]"
    and defs: "default_siblings t = map (zero_node H) [0..<max 1 d]"
    and i: "i < length (leaves t)" "leaves t ! i = g i" "i < n'"
    and sib0: "0 < d \<Longrightarrow> path_sibling t 0 i = Inr (g (if odd i then i - 1 else i + 1))"
    and agree: "\<And>j. j div 2 \<noteq> i div 2 \<Longrightarrow> f j = g j"
    and empty: "\<And>j. n' \<le> j \<Longrightarrow> g j = ZERO H"
    and grow: "\<And>k. up n' (Suc k) = max (up n (Suc k)) (Suc (i div 2 ^ Suc k))"
    and next_slot: "\<And>k. i div 2 ^ Suc k \<le> up n (Suc k)"
  shows "update_merkle_path H i t =
    Inr (t\<lparr>layers := map (\<lambda>j. stored H g n' (Suc j)) [0..<d]\<rparr>)"
proof -
  let ?mixed = "mixed H f n g n' d"
  define I where "I k st \<longleftrightarrow> st = (i div 2 ^ k, node H g k (i div 2 ^ k), t\<lparr>layers := ?mixed k\<rparr>)"
    for k and st :: "nat \<times> 'd \<times> 'd merkle_tree"
  have dt: "depth t = d" by (simp add: depth_def old)
  have same: "node H f (Suc k) p = node H g (Suc k) p" if "p \<noteq> i div 2 ^ Suc k" for k p
  proof (rule node_cong)
    fix j assume j: "j div 2 ^ Suc k = p"
    have "j div 2 \<noteq> i div 2"
      using that j by (auto simp: div_mult2_eq)
    then show "f j = g j" by (rule agree)
  qed
  have step: "\<exists>st'. (case st of (pos, cur, t) \<Rightarrow>
        bind_r (path_sibling t k pos) (\<lambda>sib.
        let cur = hash_2_to_1_swapped H cur sib (odd pos) in
        bind_r (write_parent k (pos div 2) cur t) (\<lambda>t. Inr (pos div 2, cur, t)))) = Inr st'
      \<and> I (Suc k) st'" if k: "k < d" and st: "I k st" for k st
  proof -
    let ?pos = "i div 2 ^ k" and ?t = "t\<lparr>layers := ?mixed k\<rparr>"
    have sib: "path_sibling ?t k ?pos = Inr (node H g k (if odd ?pos then ?pos - 1 else ?pos + 1))"
    proof (cases k)
      case 0
      then show ?thesis using sib0 k
        by (auto simp: path_sibling_def level_nodes_def Let_def vec_get_def split: if_splits)
    next
      case (Suc k')
      with k empty have "level_ok H ?t k g n'" by (intro level_ok_mixed) (simp_all add: defs)
      then show ?thesis by (rule path_sibling_ok) (rule below_up [OF i(3)])
    qed
    have wr: "write_parent k (?pos div 2) (node H g (Suc k) (?pos div 2)) ?t = Inr (t\<lparr>layers := ?mixed (Suc k)\<rparr>)"
    proof -
      have "write_parent k (?pos div 2) (node H g (Suc k) (?pos div 2)) ?t =
          Inr (?t\<lparr>layers := (layers ?t)[k := map (node H g (Suc k)) [0..<up n' (Suc k)]]\<rparr>)"
        by (rule write_parent_ok [of _ _ f n])
           (use k grow [of k] next_slot [of k] same [of _ k] in
             \<open>simp_all add: nth_mixed depth_def del: node.simps up.simps power_Suc flip: div_pow_Suc\<close>)
      then show ?thesis by (simp add: mixed_step del: up.simps flip: stored_def)
    qed
    show ?thesis
      using st parent_hash [of g k ?pos]
      by (simp add: I_def sib wr div_pow_Suc del: node.simps power_Suc)
  qed
  have start: "I 0 (i, leaves t ! i, t)"
    by (simp add: I_def mixed_first i(2) flip: old)
  show ?thesis
    using for_each_upt_rule [of I 0 "(i, leaves t ! i, t)" d, OF start _ step]
    by (auto simp: update_merkle_path_def dt i(1) I_def mixed_last)
qed

lemma new_canonical: "merkle_tree_new H d = canonical_tree H d []"
proof -
  have "fold (\<lambda>i ds. ds @ [hash_2_to_1_swapped H (ds ! (i - 1)) (ds ! (i - 1)) False]) [1..<d] [ZERO H]
      = map (zero_node H) [0..<max 1 d]"
  proof (induction d)
    case (Suc d)
    then show ?case by (cases d) (simp_all add: nth_append)
  qed simp
  then show ?thesis
    by (simp add: merkle_tree_new_def canonical_tree_def stored_def list_eq_iff_nth_eq)
qed

text \<open>Appending a leaf, and overwriting one.\<close>

lemma path_append:
  assumes "length ls < 2 ^ d"
  shows "update_merkle_path H (length ls) ((canonical_tree H d ls)\<lparr>leaves := ls @ [x]\<rparr>)
    = Inr (canonical_tree H d (ls @ [x]))"
proof -
  let ?t = "(canonical_tree H d ls)\<lparr>leaves := ls @ [x]\<rparr>" and ?g = "leaf_at H (ls @ [x])"
  have "update_merkle_path H (length ls) ?t =
      Inr (?t\<lparr>layers := map (\<lambda>j. stored H ?g (Suc (length ls)) (Suc j)) [0..<d]\<rparr>)"
  proof (rule update_merkle_path_ok [of _ "leaf_at H ls" "length ls"])
    show "leaf_at H ls j = ?g j" if "j div 2 \<noteq> length ls div 2" for j
      using that by (auto simp: leaf_at_def nth_append)
    show "path_sibling ?t 0 (length ls) = Inr (?g (if odd (length ls) then length ls - 1 else length ls + 1))"
      using odd_pos [of "length ls"]
      by (auto simp: path_sibling_def level_nodes_def leaf_at_def canonical_tree_def nth_append)
  qed (auto simp: canonical_tree_def leaf_at_def up_Suc_leaf above_up simp del: up.simps power_Suc)
  then show ?thesis by (simp add: canonical_tree_def)
qed

lemma path_overwrite:
  assumes "i < length ls" and "length ls \<le> 2 ^ d"
  shows "update_merkle_path H i ((canonical_tree H d ls)\<lparr>leaves := ls[i := x]\<rparr>)
    = Inr (canonical_tree H d (ls[i := x]))"
proof -
  let ?t = "(canonical_tree H d ls)\<lparr>leaves := ls[i := x]\<rparr>" and ?g = "leaf_at H (ls[i := x])"
  have fit: "i div 2 ^ Suc k < up (length ls) (Suc k)" for k
    by (rule below_up [OF assms(1)])
  have "update_merkle_path H i ?t =
      Inr (?t\<lparr>layers := map (\<lambda>j. stored H ?g (length ls) (Suc j)) [0..<d]\<rparr>)"
  proof (rule update_merkle_path_ok [of _ "leaf_at H ls" "length ls"])
    show "leaf_at H ls j = ?g j" if "j div 2 \<noteq> i div 2" for j
      using that by (auto simp: leaf_at_def nth_list_update)
    show "path_sibling ?t 0 i = Inr (?g (if odd i then i - 1 else i + 1))"
      using odd_pos [of i] assms(1)
      by (auto simp: path_sibling_def level_nodes_def leaf_at_def canonical_tree_def)
    show "up (length ls) (Suc k) = max (up (length ls) (Suc k)) (Suc (i div 2 ^ Suc k))" for k
      using fit [of k] by simp
    show "i div 2 ^ Suc k \<le> up (length ls) (Suc k)" for k
      using fit [of k] by simp
  qed (use assms in \<open>auto simp: canonical_tree_def leaf_at_def\<close>)
  then show ?thesis by (simp add: canonical_tree_def)
qed

lemma insert_canonical:
  assumes "d < 64"
  shows "insert_tree H x (canonical_tree H d ls) =
    (if length ls < 2 ^ d then Inr (length ls, canonical_tree H d (ls @ [x])) else Inl (Err FullTree))"
  using assms path_append [of ls d x] by (simp add: insert_tree_def capacity_def Let_def)

lemma update_leaf_canonical:
  assumes "length ls \<le> 2 ^ d"
  shows "update_leaf H i x (canonical_tree H d ls) =
    (if i < length ls then Inr (canonical_tree H d (ls[i := x])) else Inl (Err IndexError))"
  using assms path_overwrite [of i ls d x] by (simp add: update_leaf_def)

text \<open>One level of the batched update: all nodes above the appended leaves, left to right.\<close>

lemma consecutive_parent_ok:
  assumes "level_ok H t k g n'" and "pos < up n' k"
  shows "consecutive_parent H k pos t = write_parent k (pos div 2) (node H g (Suc k) (pos div 2)) t"
proof -
  have cur: "(if pos < length (level_nodes t k) then level_nodes t k ! pos else ZERO H) = node H g k pos"
    using assms by (simp add: level_ok_def)
  show ?thesis
    unfolding consecutive_parent_def Let_def cur sibling_lookup [OF assms(1)] bind_r_Inr parent_hash ..
qed

lemma consecutive_level:
  assumes k: "k < length Ls" and ok: "level_ok H (t\<lparr>layers := Ls\<rparr>) k g n'"
    and old: "Ls ! k = stored H f n (Suc k)"
    and agree: "\<And>p. p < n div 2 ^ Suc k \<Longrightarrow> node H f (Suc k) p = node H g (Suc k) p"
    and less: "n < n'"
  shows "for_each (consecutive_parent H k) [n div 2 ^ k..<up n' k] (t\<lparr>layers := Ls\<rparr>) =
    Inr (t\<lparr>layers := Ls[k := stored H g n' (Suc k)]\<rparr>)"
proof -
  let ?s = "n div 2 ^ k" and ?m = "up n (Suc k)" and ?v = "node H g (Suc k)"
  define I where "I pos tt \<longleftrightarrow> (\<exists>L. tt = t\<lparr>layers := Ls[k := L]\<rparr> \<and> length L = max ?m ((pos + 1) div 2) \<and>
      (\<forall>p < length L. p < ?s div 2 \<or> p \<in> (\<lambda>x. x div 2) ` {?s..<pos} \<longrightarrow> L ! p = ?v p))" for pos tt
  have s_m: "(?s + 1) div 2 \<le> ?m"
    using above_up [of n k] by simp
  have m_e: "?m \<le> (up n' k + 1) div 2" and s_e: "?s < up n' k"
    using up_mono [of n n' k] below_up [of n n' k] less by simp_all
  have "Ls[k := stored H f n (Suc k)] = Ls"
    using list_update_id [of Ls k] old by simp
  then have start: "I ?s (t\<lparr>layers := Ls\<rparr>)"
    unfolding I_def
    by (intro exI [of _ "stored H f n (Suc k)"])
       (use agree s_m in \<open>auto simp: div_pow_Suc simp del: node.simps power_Suc up.simps\<close>)
  have step: "\<exists>tt'. consecutive_parent H k pos tt = Inr tt' \<and> I (Suc pos) tt'"
    if pos: "?s \<le> pos" "pos < up n' k" and I: "I pos tt" for pos tt
  proof -
    obtain L where L: "tt = t\<lparr>layers := Ls[k := L]\<rparr>" "length L = max ?m ((pos + 1) div 2)"
      "\<forall>p < length L. p < ?s div 2 \<or> p \<in> (\<lambda>x. x div 2) ` {?s..<pos} \<longrightarrow> L ! p = ?v p"
      using I unfolding I_def by blast
    have q: "pos div 2 \<le> length L" using L(2) by linarith
    obtain L' where L': "write_or_push L (pos div 2) (?v (pos div 2)) = (Inr L' :: 'd list tree_result)"
      "length L' = max (length L) (Suc (pos div 2))"
      "\<forall>p < length L'. L' ! p = (if p = pos div 2 then ?v (pos div 2) else L ! p)"
      using write_or_push_nth [OF q] by blast
    have "consecutive_parent H k pos tt = write_parent k (pos div 2) (?v (pos div 2)) tt"
      by (rule consecutive_parent_ok [OF _ pos(2)]) (simp add: L(1) ok)
    then have "consecutive_parent H k pos tt = Inr (t\<lparr>layers := Ls[k := L']\<rparr>)"
      using k by (simp add: write_parent_def L(1) L'(1) del: node.simps)
    moreover have "I (Suc pos) (t\<lparr>layers := Ls[k := L']\<rparr>)"
      unfolding I_def
    proof (intro exI conjI allI impI)
      show "length L' = max ?m ((Suc pos + 1) div 2)"
        using L(2) L'(2) max_absorb2 [of "Suc pos div 2" "Suc (pos div 2)"] by (simp add: max.assoc)
      fix p assume p: "p < length L'" "p < ?s div 2 \<or> p \<in> (\<lambda>x. x div 2) ` {?s..<Suc pos}"
      show "L' ! p = ?v p"
      proof (cases "p = pos div 2")
        case False
        then have "p < length L"
          using p(1) q unfolding L'(2) by linarith
        moreover have "p < ?s div 2 \<or> p \<in> (\<lambda>x. x div 2) ` {?s..<pos}"
          using p(2) False pos(1) by (auto simp: atLeastLessThanSuc)
        ultimately show ?thesis
          using False p(1) L(3) L'(3) by metis
      qed (use p L'(3) in simp)
    qed simp
    ultimately show ?thesis by blast
  qed
  have "\<exists>tt. for_each (consecutive_parent H k) [?s..<up n' k] (t\<lparr>layers := Ls\<rparr>) = Inr tt \<and> I (up n' k) tt"
    by (rule for_each_upt_rule [OF start _ step]) (use s_e in auto)
  then obtain L where run: "for_each (consecutive_parent H k) [?s..<up n' k] (t\<lparr>layers := Ls\<rparr>)
        = Inr (t\<lparr>layers := Ls[k := L]\<rparr>)"
    and L: "length L = (up n' k + 1) div 2"
      "\<forall>p < length L. p < ?s div 2 \<or> p \<in> (\<lambda>x. x div 2) ` {?s..<up n' k} \<longrightarrow> L ! p = ?v p"
    using m_e unfolding I_def by (auto simp: max_def)
  have "L = stored H g n' (Suc k)"
  proof (rule nth_equalityI)
    fix p assume p: "p < length L"
    have "p < ?s div 2 \<or> p \<in> (\<lambda>x. x div 2) ` {?s..<up n' k}"
    proof (cases "?s \<le> 2 * p")
      case True
      then show ?thesis using p L(1) by (intro disjI2 image_eqI [of _ _ "2 * p"]) auto
    next
      case False
      show ?thesis
      proof (cases "p = ?s div 2")
        case True
        then show ?thesis using s_e by (intro disjI2 image_eqI [of _ _ ?s]) auto
      qed (use False in auto)
    qed
    with p L(2) have "L ! p = ?v p" by metis
    then show "L ! p = stored H g n' (Suc k) ! p" using p L(1) by (simp del: node.simps)
  qed (simp add: L(1))
  with run show ?thesis by simp
qed

lemma update_consecutive_canonical:
  assumes "xs \<noteq> []" and "length ls + length xs \<le> 2 ^ d" and "d < 64"
  shows "update_consecutive_paths H (length ls) (length xs) ((canonical_tree H d ls)\<lparr>leaves := ls @ xs\<rparr>)
    = Inr (canonical_tree H d (ls @ xs))"
proof -
  let ?t = "(canonical_tree H d ls)\<lparr>leaves := ls @ xs\<rparr>"
  let ?f = "leaf_at H ls" and ?g = "leaf_at H (ls @ xs)" and ?n = "length ls"
  let ?n' = "length ls + length xs"
  let ?mixed = "mixed H ?f ?n ?g ?n' d"
  define I where "I k st \<longleftrightarrow> st = (?n div 2 ^ k, up ?n' k, ?t\<lparr>layers := ?mixed k\<rparr>)" for k st
  have less: "?n < ?n'" using assms(1) by simp
  have agree: "node H ?f (Suc k) p = node H ?g (Suc k) p" if "p < ?n div 2 ^ Suc k" for k p
  proof (rule node_cong)
    fix i assume "i div 2 ^ Suc k = p"
    with that have "i < ?n" using div_le_mono [of ?n i "2 ^ Suc k"] by force
    then show "?f i = ?g i" by (simp add: leaf_at_def nth_append)
  qed
  have step: "\<exists>st'. (case st of (cur_start, cur_end, t) \<Rightarrow>
        bind_r (for_each (consecutive_parent H k) [cur_start..<cur_end] t)
          (\<lambda>t. Inr (cur_start div 2, (cur_end + 1) div 2, t))) = Inr st' \<and> I (Suc k) st'"
    if k: "k < d" and st: "I k st" for k st
  proof -
    have lvl: "level_ok H (?t\<lparr>layers := ?mixed k\<rparr>) k ?g ?n'"
    proof (cases "k = 0")
      case True
      have "stored H ?g ?n' 0 = ls @ xs" using stored_0 [of H "ls @ xs"] by simp
      with True show ?thesis
        using k by (simp add: level_ok_def level_nodes_def leaf_at_def)
    next
      case False
      with k show ?thesis by (intro level_ok_mixed) (simp_all add: leaf_at_def)
    qed
    have "for_each (consecutive_parent H k) [?n div 2 ^ k..<up ?n' k] (?t\<lparr>layers := ?mixed k\<rparr>)
        = Inr (?t\<lparr>layers := (?mixed k)[k := stored H ?g ?n' (Suc k)]\<rparr>)"
      by (rule consecutive_level [OF _ lvl _ agree less]) (simp_all add: k nth_mixed)
    with st show ?thesis by (simp add: I_def mixed_step div_pow_Suc del: power_Suc)
  qed
  have start: "I 0 (?n, ?n', ?t)"
    by (simp add: I_def mixed_first) (simp add: canonical_tree_def)
  have "depth ?t = d" by (simp add: depth_def canonical_tree_def)
  then show ?thesis
    using for_each_upt_rule [of I 0 "(?n, ?n', ?t)" d, OF start _ step] assms
    by (auto simp: update_consecutive_paths_def capacity_def I_def mixed_last)
       (simp add: canonical_tree_def)
qed

text \<open>The batched insert on every branch.\<close>

lemma insert_batch_canonical:
  assumes "d < 64"
  shows "insert_batch H xs (canonical_tree H d ls) =
    (if \<not> length xs dvd length ls then (Inl (Err InvalidBatch), canonical_tree H d ls)
     else if 2 ^ d \<le> length ls then (Inl (Err FullTree), canonical_tree H d ls)
     else if 2 ^ d < length ls + length xs
       then (Inl (Err IndexError), (canonical_tree H d ls)\<lparr>leaves := ls @ xs\<rparr>)
     else (Inr (), canonical_tree H d (ls @ xs)))"
proof -
  let ?t = "(canonical_tree H d ls)\<lparr>leaves := ls @ xs\<rparr>"
  have d: "depth ?t = d" by (simp add: depth_def canonical_tree_def)
  have big: "update_consecutive_paths H (length ls) (length xs) ?t = Inl (Err IndexError)"
    if "2 ^ d < length ls + length xs"
    using that assms d by (simp add: update_consecutive_paths_def capacity_def)
  have ok: "update_consecutive_paths H (length ls) (length xs) ?t = Inr (canonical_tree H d (ls @ xs))"
    if "length ls + length xs \<le> 2 ^ d" "length xs dvd length ls"
  proof (cases "xs = []")
    case True
    then have "ls = []" using that(2) by simp
    have "for_each (\<lambda>level (cur_start, cur_end, t).
        bind_r (for_each (consecutive_parent H level) [cur_start..<cur_end] t)
          (\<lambda>t. Inr (cur_start div 2, (cur_end + 1) div 2, t))) ks (0, 0, t) = Inr (0, 0, t)"
      for ks and t :: "'d merkle_tree"
      by (induction ks) auto
    with True \<open>ls = []\<close> assms d show ?thesis
      by (simp add: update_consecutive_paths_def capacity_def canonical_tree_def)
  qed (use update_consecutive_canonical that assms in blast)
  show ?thesis
    using assms big ok by (simp add: insert_batch_def capacity_def num_leaves_def Let_def)
qed

lemma inserts_canonical:
  assumes "d < 64" and "length ls + length xs \<le> 2 ^ d"
  shows "for_each (\<lambda>x t. bind_r (insert_tree H x t) (\<lambda>(i, t). Inr t)) xs (canonical_tree H d ls)
    = Inr (canonical_tree H d (ls @ xs))"
  using assms
proof (induction xs arbitrary: ls)
  case (Cons x xs)
  then show ?case by (simp add: insert_canonical)
qed simp

text \<open>
  Rebuilding from the leaves: after \<open>i\<close> steps the layers are those of the leaves read so far,
  an even number of them, since a left child already reads its right sibling.
\<close>

lemma rebuild_step:
  fixes d :: nat
  assumes i: "i < length ls"
  defines "m \<equiv> \<lambda>i. min (length ls) (2 * ((i + 1) div 2))"
  defines "L \<equiv> \<lambda>i. map (\<lambda>j. stored H (leaf_at H (take (m i) ls)) (m i) (Suc j)) [0..<d]"
  shows "update_merkle_path H i ((canonical_tree H d ls)\<lparr>layers := L i\<rparr>)
    = Inr ((canonical_tree H d ls)\<lparr>layers := L (Suc i)\<rparr>)"
proof -
  let ?t = "(canonical_tree H d ls)\<lparr>layers := L i\<rparr>"
  let ?f = "leaf_at H (take (m i) ls)" and ?g = "leaf_at H (take (m (Suc i)) ls)"
  consider (even1) "even i" "m i = i" "m (Suc i) = Suc i" "length ls = Suc i"
    | (even2) "even i" "m i = i" "m (Suc i) = Suc (Suc i)" "Suc i < length ls"
    | (odd) "odd i" "m i = Suc i" "m (Suc i) = Suc i"
    using i unfolding m_def by (cases "even i"; cases "length ls = Suc i") (auto elim: evenE oddE)
  note cases = this
  have half: "Suc i div 2 ^ Suc k = i div 2 ^ Suc k" if "even i" for k
  proof -
    have "Suc i div 2 = i div 2" using that by simp
    then show ?thesis by (simp add: div_mult2_eq)
  qed
  have below: "i div 2 ^ Suc k < up (Suc i) (Suc k)" for k by (rule below_up) simp
  have "update_merkle_path H i ?t = Inr (?t\<lparr>layers := L (Suc i)\<rparr>)"
    unfolding L_def
  proof (rule update_merkle_path_ok [of _ ?f "m i"])
    show "leaves ((canonical_tree H d ls)\<lparr>layers :=
        map (\<lambda>j. stored H ?f (m i) (Suc j)) [0..<d]\<rparr>) ! i = ?g i"
      using cases by cases (use i in \<open>auto simp: leaf_at_def\<close>)
    show "i < m (Suc i)" using cases by cases auto
    show "path_sibling ((canonical_tree H d ls)\<lparr>layers :=
        map (\<lambda>j. stored H ?f (m i) (Suc j)) [0..<d]\<rparr>) 0 i = Inr (?g (if odd i then i - 1 else i + 1))"
      using cases by cases (use i in \<open>auto simp: path_sibling_def level_nodes_def leaf_at_def\<close>)
    show "?f j = ?g j" if "j div 2 \<noteq> i div 2" for j
    proof -
      have "j \<noteq> i" "even i \<Longrightarrow> j \<noteq> Suc i" using that by auto
      with cases show ?thesis by cases (auto simp: leaf_at_def)
    qed
    show "up (m (Suc i)) (Suc k) = max (up (m i) (Suc k)) (Suc (i div 2 ^ Suc k))" for k
      using cases by cases (use half [of k] below [of k] in
        \<open>simp_all add: up_Suc_leaf del: up.simps power_Suc\<close>)
    show "i div 2 ^ Suc k \<le> up (m i) (Suc k)" for k
      using cases by cases (use below [of k] above_up [of i "Suc k"] in \<open>simp_all del: up.simps\<close>)
  qed (use i in \<open>auto simp: leaf_at_def m_def\<close>)
  then show ?thesis by simp
qed

lemma rebuild_canonical:
  assumes "leaves t = ls" and "depth t = d" and "default_siblings t = map (zero_node H) [0..<max 1 d]"
  shows "rebuild_tree H t = Inr (canonical_tree H d ls)"
proof -
  let ?m = "\<lambda>i. min (length ls) (2 * ((i + 1) div 2))"
  let ?L = "\<lambda>i. map (\<lambda>j. stored H (leaf_at H (take (?m i) ls)) (?m i) (Suc j)) [0..<d]"
  define I where "I i tt \<longleftrightarrow> tt = (canonical_tree H d ls)\<lparr>layers := ?L i\<rparr>" for i tt
  have clear: "t\<lparr>layers := map (\<lambda>_. []) (layers t)\<rparr> = (canonical_tree H d ls)\<lparr>layers := ?L 0\<rparr>"
  proof -
    have "up 0 k = 0" for k by (induction k) auto
    then have "?L 0 = replicate d []" by (simp add: stored_def map_replicate_const del: up.simps)
    moreover have "map (\<lambda>_. []) (layers t) = replicate d []"
      using assms(2) by (simp add: depth_def map_replicate_const)
    ultimately show ?thesis using assms(1,3) by (cases t) (simp add: canonical_tree_def)
  qed
  have fin: "?m (length ls) = length ls" by auto
  have step: "\<exists>t'. update_merkle_path H i tt = Inr t' \<and> I (Suc i) t'"
    if "i < length ls" "I i tt" for i tt
    using that rebuild_step [of i ls d] by (simp add: I_def)
  have "\<exists>t'. for_each (update_merkle_path H) [0..<length ls]
      ((canonical_tree H d ls)\<lparr>layers := ?L 0\<rparr>) = Inr t' \<and> I (length ls) t'"
    by (rule for_each_upt_rule [of I]) (simp add: I_def, simp, rule step)
  then show ?thesis
    unfolding rebuild_tree_def assms(1) clear I_def fin by (auto simp: canonical_tree_def)
qed

text \<open>The sparse update, after leaves at \<open>indices\<close> were overwritten in place.\<close>

lemma sparse_parent_ok:
  assumes "level_ok H t k g n" and "pos < up n k"
  shows "sparse_parent H k pos t = write_parent k (pos div 2) (node H g (Suc k) (pos div 2)) t"
proof -
  have "vec_get (level_nodes t k) pos = (Inr (node H g k pos) :: 'd tree_result)"
    using assms by (simp add: level_ok_def)
  then show ?thesis
    unfolding sparse_parent_def path_sibling_ok [OF assms] by (simp only: bind_r_Inr parent_hash)
qed

lemma sparse_level:
  assumes k: "k < length Ls" and ok: "level_ok H (t\<lparr>layers := Ls\<rparr>) k g n"
    and old: "Ls ! k = stored H f n (Suc k)"
    and agree: "\<And>p. p \<notin> (\<lambda>x. x div 2) ` set ps \<Longrightarrow> node H f (Suc k) p = node H g (Suc k) p"
    and ps: "\<And>pos. pos \<in> set ps \<Longrightarrow> pos < up n k"
  shows "for_each (sparse_parent H k) ps (t\<lparr>layers := Ls\<rparr>) =
    Inr (t\<lparr>layers := Ls[k := stored H g n (Suc k)]\<rparr>)"
proof -
  let ?v = "node H g (Suc k)" and ?m = "up n (Suc k)"
  define I where "I ys tt \<longleftrightarrow> (\<exists>L. tt = t\<lparr>layers := Ls[k := L]\<rparr> \<and> length L = ?m \<and>
      (\<forall>p < ?m. p \<notin> (\<lambda>x. x div 2) ` set ps \<or> p \<in> (\<lambda>x. x div 2) ` set ys \<longrightarrow> L ! p = ?v p))" for ys tt
  have "Ls[k := stored H f n (Suc k)] = Ls"
    using list_update_id [of Ls k] old by simp
  then have start: "I [] (t\<lparr>layers := Ls\<rparr>)"
    unfolding I_def using agree
    by (intro exI [of _ "stored H f n (Suc k)"]) (simp del: node.simps up.simps)
  have step: "\<exists>tt'. sparse_parent H k pos tt = Inr tt' \<and> I (ys @ [pos]) tt'"
    if pos: "pos \<in> set ps" and I: "I ys tt" for ys pos tt
  proof -
    obtain L where L: "tt = t\<lparr>layers := Ls[k := L]\<rparr>" "length L = ?m"
      "\<forall>p < ?m. p \<notin> (\<lambda>x. x div 2) ` set ps \<or> p \<in> (\<lambda>x. x div 2) ` set ys \<longrightarrow> L ! p = ?v p"
      using I unfolding I_def by blast
    have q: "pos div 2 < length L" using ps [OF pos] L(2) by simp
    have "sparse_parent H k pos tt = write_parent k (pos div 2) (?v (pos div 2)) tt"
      by (rule sparse_parent_ok [OF _ ps [OF pos]]) (simp add: L(1) ok)
    then have "sparse_parent H k pos tt = Inr (t\<lparr>layers := Ls[k := L[pos div 2 := ?v (pos div 2)]]\<rparr>)"
      using k q by (simp add: write_parent_def L(1) del: node.simps)
    moreover have "I (ys @ [pos]) (t\<lparr>layers := Ls[k := L[pos div 2 := ?v (pos div 2)]]\<rparr>)"
      unfolding I_def
      by (rule exI [of _ "L[pos div 2 := ?v (pos div 2)]"])
         (use L q in \<open>auto simp: nth_list_update simp del: node.simps up.simps\<close>)
    ultimately show ?thesis by blast
  qed
  obtain L where "for_each (sparse_parent H k) ps (t\<lparr>layers := Ls\<rparr>) = Inr (t\<lparr>layers := Ls[k := L]\<rparr>)"
    and L: "length L = ?m" "\<forall>p < ?m. L ! p = ?v p"
    using for_each_list_rule [of I "t\<lparr>layers := Ls\<rparr>" ps "sparse_parent H k", OF start step]
    unfolding I_def by blast
  moreover have "L = stored H g n (Suc k)"
    by (rule nth_equalityI) (use L in \<open>simp_all del: node.simps up.simps\<close>)
  ultimately show ?thesis by simp
qed

lemma update_sparse_canonical:
  assumes len: "length ls' = length ls" and "length ls \<le> 2 ^ d"
    and idx: "\<And>i. i \<in> set indices \<Longrightarrow> i < length ls"
    and off: "\<And>i. i < length ls \<Longrightarrow> i \<notin> set indices \<Longrightarrow> ls' ! i = ls ! i"
  shows "update_sparse_paths H indices ((canonical_tree H d ls)\<lparr>leaves := ls'\<rparr>)
    = Inr (canonical_tree H d ls')"
proof (cases "indices = []")
  case True
  then have "ls' = ls" using len off by (intro nth_equalityI) auto
  then show ?thesis by (simp add: update_sparse_paths_def True canonical_tree_def)
next
  case False
  let ?t = "(canonical_tree H d ls)\<lparr>leaves := ls'\<rparr>"
  let ?f = "leaf_at H ls" and ?g = "leaf_at H ls'" and ?n = "length ls"
  let ?mixed = "mixed H ?f ?n ?g ?n d"
  let ?act = "\<lambda>k. (\<lambda>i. i div 2 ^ k) ` set indices"
  define I where "I k st \<longleftrightarrow> snd st = ?t\<lparr>layers := ?mixed k\<rparr> \<and> (k < d \<longrightarrow> fst st = sorted_list_of_set (?act k))"
    for k st
  have agree: "node H ?f (Suc k) p = node H ?g (Suc k) p" if "p \<notin> (\<lambda>x. x div 2) ` ?act k" for k p
  proof (rule node_cong)
    fix i assume i: "i div 2 ^ Suc k = p"
    have "i \<notin> set indices"
    proof
      assume "i \<in> set indices"
      then have "p \<in> (\<lambda>x. x div 2) ` ?act k" using i by (auto simp: image_image div_pow_Suc simp del: power_Suc)
      with that show False ..
    qed
    then show "?f i = ?g i" using off len by (simp add: leaf_at_def)
  qed
  have act: "pos < up ?n k" if "pos \<in> ?act k" for pos k
    using that below_up idx by auto
  have step: "\<exists>st'. sparse_pass H k st = Inr st' \<and> I (Suc k) st'" if k: "k < d" and st: "I k st" for k st
  proof -
    have lvl: "level_ok H (?t\<lparr>layers := ?mixed k\<rparr>) k ?g ?n"
    proof (cases "k = 0")
      case True
      have "stored H ?g ?n 0 = ls'" using stored_0 [of H ls'] len by simp
      with True len show ?thesis using k by (simp add: level_ok_def level_nodes_def leaf_at_def)
    next
      case False
      with k len show ?thesis by (intro level_ok_mixed) (simp_all add: leaf_at_def)
    qed
    let ?ps = "sorted_list_of_set (?act k)"
    have set_ps: "set ?ps = ?act k" by simp
    have "for_each (sparse_parent H k) ?ps (?t\<lparr>layers := ?mixed k\<rparr>)
        = Inr (?t\<lparr>layers := (?mixed k)[k := stored H ?g ?n (Suc k)]\<rparr>)"
      by (rule sparse_level [where f = ?f, OF _ lvl]) (use agree act k set_ps in \<open>simp_all add: nth_mixed del: node.simps\<close>)
    moreover have "(\<lambda>pos. pos div 2) ` ?act k = ?act (Suc k)"
      by (simp add: image_image div_pow_Suc del: power_Suc)
    ultimately show ?thesis
      using st k by (cases st) (simp add: sparse_pass_def I_def mixed_step depth_def del: power_Suc)
  qed
  have start: "I 0 (sorted_list_of_set (set indices), ?t)"
    by (simp add: I_def mixed_first) (simp add: canonical_tree_def)
  obtain st where run: "for_each (sparse_pass H) [0..<d] (sorted_list_of_set (set indices), ?t) = Inr st"
    and "I d st"
    using for_each_upt_rule [of I 0 "(sorted_list_of_set (set indices), ?t)" d "sparse_pass H"] start step
    by blast
  then have "snd st = canonical_tree H d ls'"
    using len by (simp add: I_def mixed_last canonical_tree_def)
  moreover have "depth ?t = d" by (simp add: depth_def canonical_tree_def)
  ultimately show ?thesis
    using False run by (cases st) (simp add: update_sparse_paths_def)
qed

text \<open>Reading: the path of any position, inside the leaves or not, and the root.\<close>

lemma merkle_path_canonical:
  assumes "start < end_d" and "end_d \<le> d"
  shows "merkle_path H (canonical_tree H d ls) index start end_d =
    Inr (map (\<lambda>level. node H (leaf_at H ls) level
      (let pos = index div 2 ^ level in if odd pos then pos - 1 else pos + 1)) [start..<end_d])"
proof -
  let ?t = "canonical_tree H d ls" and ?f = "leaf_at H ls"
  let ?sib = "\<lambda>level. node H ?f level
      (let pos = index div 2 ^ level in if odd pos then pos - 1 else pos + 1)"
  define I where "I level st \<longleftrightarrow> st = (map ?sib [start..<level] @ replicate (end_d - level) (ZERO H),
      index div 2 ^ level)" for level st
  have lvl: "level_ok H ?t level ?f (length ls)" if "level < d" for level
    using that by (cases level)
      (auto simp: level_ok_def level_nodes_def canonical_tree_def leaf_at_def simp del: zero_node_simps)
  have step: "\<exists>st'. merkle_path_level ?t start level st = Inr st' \<and> I (Suc level) st'"
    if level: "start \<le> level" "level < end_d" and st: "I level st" for level st
  proof -
    obtain m where m: "end_d - level = Suc m" "end_d - Suc level = m"
      using level(2) by (metis Suc_diff_Suc)
    show ?thesis
      unfolding merkle_path_level_def st [unfolded I_def] prod.case Let_def
        sibling_lookup [OF lvl [OF less_le_trans [OF level(2) assms(2)]]] bind_r_Inr
      using level(1) by (simp add: I_def Let_def m div_pow_Suc list_update_append del: power_Suc)
  qed
  have "\<exists>st. for_each (merkle_path_level ?t start) [start..<end_d]
      (replicate (end_d - start) (ZERO H), index div 2 ^ start) = Inr st \<and> I end_d st"
    by (rule for_each_upt_rule [of I]) (simp add: I_def, use assms in simp, rule step)
  then show ?thesis
    using assms by (auto simp: merkle_path_def I_def)
qed

lemma root_canonical:
  assumes "0 < d" and "length ls \<le> 2 ^ d"
  shows "root H (canonical_tree H d ls) = Inr (spec_root H d ls)"
proof -
  obtain k where d: "d = Suc k" using assms(1) by (cases d) auto
  have last: "last (layers (canonical_tree H d ls)) = stored H (leaf_at H ls) (length ls) d"
    by (simp add: canonical_tree_def d)
  show ?thesis
  proof (cases "ls = []")
    case True
    have "leaf_at H [] = (\<lambda>_. ZERO H)" by (simp add: leaf_at_def fun_eq_iff)
    then have "spec_root H d [] = zero_node H d" by (simp only: spec_root_def zero_node_def)
    moreover have "stored H (leaf_at H ls) (length ls) d = []"
      using True by (simp add: stored_def)
    ultimately show ?thesis
      using True last by (simp add: root_def d Let_def) (simp add: canonical_tree_def)
  next
    case False
    then have "up (length ls) d = 1"
      using up_top [OF assms(2)] up_zero_iff [of "length ls" d] False
      by (simp add: le_Suc_eq)
    then have "stored H (leaf_at H ls) (length ls) d = [spec_root H d ls]"
      by (simp add: stored_def spec_root_def)
    with last show ?thesis by (simp add: root_def) (simp add: canonical_tree_def d)
  qed
qed

end

subsection \<open>The Poseidon instance\<close>

text \<open>
  \<^verbatim>\<open>impl MerkleHash for HashOutput\<close>: the eight limbs of the two children, swapped when
  \<^verbatim>\<open>dir\<close> is set, through plonky2's \<^verbatim>\<open>PoseidonHash::hash_no_pad\<close>, the argument \<open>poseidon\<close>.
\<close>

type_synonym hasher = "felt list \<Rightarrow> hash_output"

definition hash_output_hash :: "hasher \<Rightarrow> hash_output merkle_hash" where
  "hash_output_hash poseidon =
     \<lparr>ZERO = ZERO_hash,
      hash_2_to_1_swapped = (\<lambda>left right dir.
        if dir then poseidon (elems right @ elems left) else poseidon (elems left @ elems right))\<rparr>"

interpretation hash_output: merkle_hash_laws "hash_output_hash poseidon" for poseidon
  by unfold_locales (simp add: hash_output_hash_def)

lemma tree_okE:
  assumes "tree_ok H t"
  obtains d ls where "t = canonical_tree H d ls" "length ls \<le> 2 ^ d" "depth t = d" "leaves t = ls"
  using assms unfolding tree_ok_def num_leaves_def by blast

text \<open>A small hasher to evaluate the model on.\<close>

definition demo_hasher :: hasher where
  "demo_hasher es = HashOutput (foldl (\<lambda>a e. and (31 * a + e + 1) 0xFFFFFFFF) 7 es) (of_nat (length es)) 0 0"

subsection \<open>Properties\<close>

text \<open>
  C2. A single insert on a well-formed tree below depth 64 never panics. It appends the leaf,
  returns its index and leaves a well-formed tree, or reports \<open>FullTree\<close> exactly when all
  \<open>2 ^ depth\<close> slots are taken.
\<close>

theorem insert_refines_append:
  assumes "tree_ok (hash_output_hash poseidon) t" and "depth t < 64"
  shows "if num_leaves t < 2 ^ depth t
     then \<exists>t'. insert_tree (hash_output_hash poseidon) lf t = Inr (num_leaves t, t')
       \<and> tree_ok (hash_output_hash poseidon) t' \<and> leaves t' = leaves t @ [lf] \<and> depth t' = depth t
     else insert_tree (hash_output_hash poseidon) lf t = Inl (Err FullTree)"
proof -
  obtain d ls where "t = canonical_tree (hash_output_hash poseidon) d ls" and "length ls \<le> 2 ^ d"
    using assms(1) by (rule tree_okE)
  with assms(2) show ?thesis by (simp add: hash_output.insert_canonical)
qed

theorem insert_refines_append_witness:
  "\<exists>t'. insert_tree (hash_output_hash demo_hasher) (HashOutput 1 2 3 4)
      (merkle_tree_new (hash_output_hash demo_hasher) 2) = Inr (0, t')
    \<and> leaves t' = [HashOutput 1 2 3 4]"
  using insert_refines_append [of demo_hasher
      "merkle_tree_new (hash_output_hash demo_hasher) 2" "HashOutput 1 2 3 4"]
  by (auto simp: hash_output.new_canonical)

text \<open>
  Overwriting a leaf gives exactly the tree of the changed leaves; an index that holds
  no leaf is an \<open>IndexError\<close>.
\<close>

theorem update_leaf_refines_overwrite:
  assumes "tree_ok (hash_output_hash poseidon) t"
  shows "update_leaf (hash_output_hash poseidon) i lf t =
    (if i < num_leaves t
     then Inr (canonical_tree (hash_output_hash poseidon) (depth t) ((leaves t)[i := lf]))
     else Inl (Err IndexError))"
proof -
  obtain d ls where "t = canonical_tree (hash_output_hash poseidon) d ls" and "length ls \<le> 2 ^ d"
    using assms(1) by (rule tree_okE)
  then show ?thesis by (simp add: hash_output.update_leaf_canonical)
qed

theorem update_leaf_refines_overwrite_witness:
  "update_leaf (hash_output_hash demo_hasher) 1 (HashOutput 9 0 0 0)
      (canonical_tree (hash_output_hash demo_hasher) 2 [ZERO_hash, ZERO_hash, ZERO_hash])
    = Inr (canonical_tree (hash_output_hash demo_hasher) 2 [ZERO_hash, HashOutput 9 0 0 0, ZERO_hash])"
  using update_leaf_refines_overwrite [of demo_hasher
      "canonical_tree (hash_output_hash demo_hasher) 2 [ZERO_hash, ZERO_hash, ZERO_hash]" 1 "HashOutput 9 0 0 0"]
  by simp

text \<open>
  C28. The batched insert, which rewrites each level once, ends in the same tree as inserting the
  leaves one at a time, whenever the batch is aligned and fits.
\<close>

theorem insert_batch_is_sequential:
  assumes "tree_ok (hash_output_hash poseidon) t" and "depth t < 64"
    and "length xs dvd num_leaves t" and "num_leaves t + length xs \<le> 2 ^ depth t"
  shows "\<exists>t'. insert_batch (hash_output_hash poseidon) xs t = (Inr (), t')
    \<and> for_each (\<lambda>x t. bind_r (insert_tree (hash_output_hash poseidon) x t) (\<lambda>(i, t). Inr t)) xs t = Inr t'
    \<and> tree_ok (hash_output_hash poseidon) t' \<and> leaves t' = leaves t @ xs"
proof -
  obtain d ls where t: "t = canonical_tree (hash_output_hash poseidon) d ls"
    using assms(1) by (rule tree_okE)
  have "length ls < 2 ^ d"
    using assms(3,4) t by (cases "xs = []") (auto intro: le_neq_trans)
  with t assms show ?thesis
    by (simp add: hash_output.insert_batch_canonical hash_output.inserts_canonical)
qed

theorem insert_batch_is_sequential_witness:
  "fst (insert_batch (hash_output_hash demo_hasher) [ZERO_hash, HashOutput 1 0 0 0]
     (canonical_tree (hash_output_hash demo_hasher) 2 [ZERO_hash, HashOutput 5 5 5 5])) = Inr ()"
  using insert_batch_is_sequential [of demo_hasher
      "canonical_tree (hash_output_hash demo_hasher) 2 [ZERO_hash, HashOutput 5 5 5 5]"
      "[ZERO_hash, HashOutput 1 0 0 0]"]
  by auto

text \<open>
  A batch that starts below the capacity and ends above it is reported as an error only after
  its leaves were appended: the tree it leaves behind has more leaves than slots and is no
  longer well-formed.
\<close>

theorem insert_batch_overflow_corrupts:
  assumes "tree_ok (hash_output_hash poseidon) t" and "depth t < 64"
    and "length xs dvd num_leaves t" and "num_leaves t < 2 ^ depth t"
    and "2 ^ depth t < num_leaves t + length xs"
  shows "\<exists>t'. insert_batch (hash_output_hash poseidon) xs t = (Inl (Err IndexError), t')
    \<and> leaves t' = leaves t @ xs \<and> layers t' = layers t \<and> \<not> tree_ok (hash_output_hash poseidon) t'"
proof -
  obtain d ls where t: "t = canonical_tree (hash_output_hash poseidon) d ls"
    using assms(1) by (rule tree_okE)
  let ?t' = "t\<lparr>leaves := leaves t @ xs\<rparr>"
  have "insert_batch (hash_output_hash poseidon) xs t = (Inl (Err IndexError), ?t')"
    using t assms by (simp add: hash_output.insert_batch_canonical)
  moreover have "\<not> tree_ok (hash_output_hash poseidon) ?t'"
    using assms(5) by (simp add: tree_ok_def num_leaves_def depth_def)
  ultimately show ?thesis by simp
qed

theorem insert_batch_overflow_corrupts_witness:
  "\<exists>t'. insert_batch (hash_output_hash demo_hasher) (replicate 3 ZERO_hash)
      (merkle_tree_new (hash_output_hash demo_hasher) 1) = (Inl (Err IndexError), t')
    \<and> \<not> tree_ok (hash_output_hash demo_hasher) t'"
  using insert_batch_overflow_corrupts [of demo_hasher
      "merkle_tree_new (hash_output_hash demo_hasher) 1" "replicate 3 ZERO_hash"]
  by (auto simp: hash_output.new_canonical)

text \<open>
  \<^verbatim>\<open>rebuild_tree\<close> restores a well-formed tree from its leaves, whatever its layers held
  before.
\<close>

theorem rebuild_tree_restores:
  assumes "tree_ok (hash_output_hash poseidon) t" and "length Ls = depth t"
  shows "rebuild_tree (hash_output_hash poseidon) (t\<lparr>layers := Ls\<rparr>) = Inr t"
proof -
  obtain d ls where t: "t = canonical_tree (hash_output_hash poseidon) d ls"
    using assms(1) by (rule tree_okE)
  show ?thesis
    unfolding t by (rule hash_output.rebuild_canonical)
      (use assms(2) t in \<open>simp_all add: depth_def canonical_tree_def\<close>)
qed

theorem rebuild_tree_restores_witness:
  "rebuild_tree (hash_output_hash demo_hasher)
      ((canonical_tree (hash_output_hash demo_hasher) 2 [ZERO_hash, HashOutput 5 5 5 5])
        \<lparr>layers := [[ZERO_hash], []]\<rparr>)
    = Inr (canonical_tree (hash_output_hash demo_hasher) 2 [ZERO_hash, HashOutput 5 5 5 5])"
  by (rule rebuild_tree_restores) simp_all

end
