(* ===== verification/Merkle_Proof.thy ===== *)
theory Merkle_Proof
  imports Merkle_Tree
begin

section \<open>Membership proofs and the self-check of a tree\<close>

text \<open>
  \<^verbatim>\<open>doxa-trees/src/merkle_proof.rs\<close> and \<^verbatim>\<open>verification.rs\<close>: building and verifying a
  membership proof, and the recomputation a tree checks itself with. Proofs of every position of
  a well-formed tree verify; two openings of one root along the same path either agree on the
  leaf or contain a hash collision, which \<open>find_collision\<close> computes; and \<^verbatim>\<open>verify_layers\<close>
  accepts exactly the well-formed trees.
\<close>

record 'd merkle_proof =
  proof_leaf :: 'd
  siblings :: "'d list"
  path :: "bool list"
  pos :: nat
  proof_num_leaves :: nat
  proof_root :: 'd

definition path_bits :: "nat \<Rightarrow> nat \<Rightarrow> bool list" where
  "path_bits d index = map (\<lambda>j. odd (index div 2 ^ j)) [0..<d]"

definition merkle_proof :: "'d merkle_hash \<Rightarrow> 'd merkle_tree \<Rightarrow> nat \<Rightarrow> 'd merkle_proof tree_result" where
  "merkle_proof H t index =
     bind_r (merkle_path H t index 0 (depth t)) (\<lambda>sibs.
     bind_r (root H t) (\<lambda>r.
       Inr \<lparr>proof_leaf = (if index < num_leaves t then leaves t ! index else ZERO H),
            siblings = sibs, path = path_bits (depth t) index, pos = index,
            proof_num_leaves = num_leaves t, proof_root = r\<rparr>))"

definition fold_path :: "'d merkle_hash \<Rightarrow> 'd \<Rightarrow> bool list \<Rightarrow> 'd list \<Rightarrow> 'd" where
  "fold_path H lf bits sibs =
     fold (\<lambda>(bit, sibling) current. hash_2_to_1_swapped H current sibling bit) (zip bits sibs) lf"

definition verify_proof :: "'d merkle_hash \<Rightarrow> 'd merkle_proof \<Rightarrow> bool" where
  "verify_proof H p \<longleftrightarrow> fold_path H (proof_leaf p) (path p) (siblings p) = proof_root p"

definition extract_siblings_bits :: "hash_output merkle_proof \<Rightarrow> felt list list \<times> bool list" where
  "extract_siblings_bits p = (map elems (siblings p), path p)"

text \<open>One level recomputed from the one below; a last node without a sibling is paired with
  the empty digest of the level.\<close>

fun pair_up :: "'d merkle_hash \<Rightarrow> 'd \<Rightarrow> 'd list \<Rightarrow> 'd list" where
  "pair_up H dflt [] = []"
| "pair_up H dflt [x] = [hash_2_to_1_swapped H x dflt False]"
| "pair_up H dflt (x # y # zs) = hash_2_to_1_swapped H x y False # pair_up H dflt zs"

text \<open>The default is only read when the level has an odd number of nodes.\<close>

definition next_level :: "'d merkle_hash \<Rightarrow> 'd merkle_tree \<Rightarrow> nat \<Rightarrow> 'd list \<Rightarrow> 'd list tree_result" where
  "next_level H t level prev =
     (if even (length prev) then Inr (pair_up H (ZERO H) prev)
      else bind_r (vec_get (default_siblings t) level) (\<lambda>dflt. Inr (pair_up H dflt prev)))"

definition verify_layers :: "'d merkle_hash \<Rightarrow> 'd merkle_tree \<Rightarrow> unit tree_result" where
  "verify_layers H t =
     bind_r (for_each (\<lambda>level prev_hashes.
         bind_r (next_level H t level prev_hashes) (\<lambda>expected_layer.
         bind_r (ensure (expected_layer = layers t ! level) (LayerMismatch level))
           (\<lambda>_. Inr expected_layer))) [0..<depth t] (leaves t))
       (\<lambda>_. Inr ())"

definition recompute_root :: "'d merkle_hash \<Rightarrow> 'd merkle_tree \<Rightarrow> 'd tree_result" where
  "recompute_root H t =
     bind_r (for_each (next_level H t) [0..<depth t] (leaves t)) (\<lambda>current.
     bind_r (assert_r (length current = 1)) (\<lambda>_. vec_get current 0))"

definition verify_root :: "'d merkle_hash \<Rightarrow> 'd merkle_tree \<Rightarrow> unit tree_result" where
  "verify_root H t =
     bind_r (recompute_root H t) (\<lambda>recomputed_root.
     bind_r (root H t) (\<lambda>stored_root.
       ensure (recomputed_root = stored_root) RootMismatch))"

definition verify_tree :: "'d merkle_hash \<Rightarrow> 'd merkle_tree \<Rightarrow> unit tree_result" where
  "verify_tree H t = bind_r (verify_layers H t) (\<lambda>_. verify_root H t)"

subsection \<open>Proofs verify\<close>

lemma fold_path_simps [simp]:
  "fold_path H lf [] sibs = lf"
  "fold_path H lf (b # bs) (s # ss) = fold_path H (hash_2_to_1_swapped H lf s b) bs ss"
  by (simp_all add: fold_path_def)

context merkle_hash_laws
begin

lemma fold_path_node:
  "fold_path H (node H f k (index div 2 ^ k))
     (map (\<lambda>j. odd (index div 2 ^ j)) [k..<d])
     (map (\<lambda>level. node H f level
        (let pos = index div 2 ^ level in if odd pos then pos - 1 else pos + 1)) [k..<d])
   = node H f (max k d) (index div 2 ^ max k d)"
proof (induction "d - k" arbitrary: k)
  case 0
  then show ?case by simp
next
  case (Suc m)
  then have "k < d" and IH: "fold_path H (node H f (Suc k) (index div 2 ^ Suc k))
     (map (\<lambda>j. odd (index div 2 ^ j)) [Suc k..<d])
     (map (\<lambda>level. node H f level
        (let pos = index div 2 ^ level in if odd pos then pos - 1 else pos + 1)) [Suc k..<d])
   = node H f (max (Suc k) d) (index div 2 ^ max (Suc k) d)"
    by (simp, intro Suc.hyps(1)) (use Suc.hyps(2) in simp)
  have "hash_2_to_1_swapped H (node H f k (index div 2 ^ k)) (node H f k
        (let pos = index div 2 ^ k in if odd pos then pos - 1 else pos + 1)) (odd (index div 2 ^ k))
      = node H f (Suc k) (index div 2 ^ Suc k)"
    unfolding Let_def div_pow_Suc by (rule parent_hash)
  with IH \<open>k < d\<close> show ?case
    by (simp add: upt_conv_Cons max_absorb2 del: node.simps power_Suc)
qed

lemma merkle_proof_canonical:
  assumes "0 < d" and "length ls \<le> 2 ^ d" and "index < 2 ^ d"
  shows "\<exists>p. merkle_proof H (canonical_tree H d ls) index = Inr p \<and> verify_proof H p
    \<and> proof_leaf p = leaf_at H ls index \<and> proof_root p = spec_root H d ls
    \<and> path p = path_bits d index \<and> length (siblings p) = d"
proof -
  have "fold_path H (leaf_at H ls index) (path_bits d index)
     (map (\<lambda>level. node H (leaf_at H ls) level
        (let pos = index div 2 ^ level in if odd pos then pos - 1 else pos + 1)) [0..<d])
    = spec_root H d ls"
    using fold_path_node [of "leaf_at H ls" 0 index d] assms(3)
    by (simp add: path_bits_def spec_root_def)
  moreover have "ls ! index = leaf_at H ls index" if "index < length ls"
    using that by (simp add: leaf_at_def)
  moreover have "ZERO H = leaf_at H ls index" if "\<not> index < length ls"
    using that by (simp add: leaf_at_def)
  ultimately show ?thesis
    using assms
    by (simp add: merkle_proof_def merkle_path_canonical root_canonical verify_proof_def path_bits_def)
qed

end

subsection \<open>Proofs are binding\<close>

text \<open>
  Walk two openings along one path and return the first level at which different inputs hash to
  the same parent, as the ordered pairs of children.
\<close>

fun find_collision ::
  "'d merkle_hash \<Rightarrow> 'd \<Rightarrow> 'd \<Rightarrow> (bool \<times> 'd \<times> 'd) list \<Rightarrow> (('d \<times> 'd) \<times> ('d \<times> 'd)) option" where
  "find_collision H a b [] = None"
| "find_collision H a b ((dir, s, s') # rest) =
     (let x = (if dir then (s, a) else (a, s)); y = (if dir then (s', b) else (b, s'));
          h = hash_2_to_1_swapped H a s dir; h' = hash_2_to_1_swapped H b s' dir
      in if x \<noteq> y \<and> h = h' then Some (x, y) else find_collision H h h' rest)"

context merkle_hash_laws
begin

lemma find_collision_ok:
  assumes "find_collision H a b steps = Some ((l, r), (l', r'))"
  shows "(l, r) \<noteq> (l', r')
    \<and> hash_2_to_1_swapped H l r False = hash_2_to_1_swapped H l' r' False"
  using assms by (induction steps arbitrary: a b) (auto simp: Let_def swap split: if_splits)

lemma collision_or_equal:
  assumes "fold_path H a bits ss = fold_path H b bits ss'"
    and "length ss = length bits" and "length ss' = length bits"
    and "find_collision H a b (zip bits (zip ss ss')) = None"
  shows "a = b"
  using assms
proof (induction bits arbitrary: a b ss ss')
  case (Cons dir bits)
  obtain s ss1 s' ss1' where ss: "ss = s # ss1" "ss' = s' # ss1'"
    using Cons.prems(2,3) by (auto simp: length_Suc_conv)
  let ?h = "hash_2_to_1_swapped H a s dir" and ?h' = "hash_2_to_1_swapped H b s' dir"
  have none: "find_collision H ?h ?h' (zip bits (zip ss1 ss1')) = None"
    and no: "\<not> ((if dir then (s, a) else (a, s)) \<noteq> (if dir then (s', b) else (b, s')) \<and> ?h = ?h')"
    using Cons.prems(4) unfolding ss by (auto simp: Let_def split: if_splits)
  have "?h = ?h'" using Cons.IH [OF _ _ _ none] Cons.prems(1-3) ss by simp
  with no show ?case by (auto split: if_splits)
qed simp

end

subsection \<open>The self-check\<close>

lemma length_pair_up [simp]: "length (pair_up H d xs) = (length xs + 1) div 2"
  by (induction H d xs rule: pair_up.induct) auto

lemma nth_pair_up:
  "p < (length xs + 1) div 2 \<Longrightarrow> pair_up H d xs ! p =
    hash_2_to_1_swapped H (xs ! (2 * p)) (if 2 * p + 1 < length xs then xs ! (2 * p + 1) else d) False"
proof (induction H d xs arbitrary: p rule: pair_up.induct)
  case (3 H dflt x y zs)
  then show ?case by (cases p) auto
qed auto

lemma pair_up_even: "even (length xs) \<Longrightarrow> pair_up H d xs = pair_up H d' xs"
  by (induction H d xs rule: pair_up.induct) auto

context merkle_hash_laws
begin

lemma pair_up_stored:
  assumes "\<And>i. n \<le> i \<Longrightarrow> f i = ZERO H"
  shows "pair_up H (zero_node H k) (stored H f n k) = stored H f n (Suc k)"
proof (rule nth_equalityI)
  fix p assume p: "p < length (pair_up H (zero_node H k) (stored H f n k))"
  then have p': "p < (up n k + 1) div 2" by simp
  then have "2 * p < up n k" by linarith
  then show "pair_up H (zero_node H k) (stored H f n k) ! p = stored H f n (Suc k) ! p"
    using p' node_empty [of n f H k "2 * p + 1"] assms by (simp add: nth_pair_up)
qed simp

lemma next_level_stored:
  assumes "k < d" and "default_siblings t = map (zero_node H) [0..<max 1 d]"
    and "\<And>i. n \<le> i \<Longrightarrow> f i = ZERO H"
  shows "next_level H t k (stored H f n k) = Inr (stored H f n (Suc k))"
proof -
  have "pair_up H (zero_node H k) (stored H f n k) = stored H f n (Suc k)"
    by (rule pair_up_stored) (rule assms(3))
  with assms(1,2) pair_up_even [of "stored H f n k" H "ZERO H" "zero_node H k"] show ?thesis
    by (simp add: next_level_def del: zero_node_simps)
qed

lemma recompute_root_canonical:
  assumes "length ls \<le> 2 ^ d"
  shows "recompute_root H (canonical_tree H d ls) =
    (if ls = [] then Inl (Panic Assertion_failed) else Inr (spec_root H d ls))"
proof -
  let ?t = "canonical_tree H d ls" and ?st = "stored H (leaf_at H ls) (length ls)"
  define I where "I k cur \<longleftrightarrow> cur = ?st k" for k cur
  have "\<exists>cur. for_each (next_level H ?t) [0..<d] ls = Inr cur \<and> I d cur"
  proof (rule for_each_upt_rule [of I])
    show "I 0 ls" by (simp add: I_def)
    show "\<exists>s'. next_level H ?t k cur = Inr s' \<and> I (Suc k) s'" if "k < d" "I k cur" for k cur
      using that next_level_stored [of k d ?t "length ls" "leaf_at H ls"]
      by (simp add: I_def leaf_at_def)
  qed simp
  then have run: "for_each (next_level H ?t) [0..<d] ls = Inr (?st d)" by (simp add: I_def)
  show ?thesis
  proof (cases "ls = []")
    case True
    moreover have "up 0 d = 0" by simp
    ultimately show ?thesis using run by (simp add: recompute_root_def del: up_zero_iff)
  next
    case False
    then have "up (length ls) d = 1"
      using up_top [OF assms] up_zero_iff [of "length ls" d] by (simp add: le_Suc_eq)
    with run False show ?thesis by (simp add: recompute_root_def spec_root_def)
  qed
qed

text \<open>The layer check accepts the reference layers, and nothing else.\<close>

lemma verify_layers_iff:
  assumes "default_siblings t = map (zero_node H) [0..<max 1 (depth t)]"
  shows "verify_layers H t = Inr () \<longleftrightarrow> t = canonical_tree H (depth t) (leaves t)"
proof -
  let ?st = "stored H (leaf_at H (leaves t)) (length (leaves t))"
  let ?body = "\<lambda>level prev_hashes. bind_r (next_level H t level prev_hashes) (\<lambda>expected_layer.
         bind_r (ensure (expected_layer = layers t ! level) (LayerMismatch level))
           (\<lambda>_. Inr expected_layer))"
  have body: "?body k (?st k) = (if ?st (Suc k) = layers t ! k then Inr (?st (Suc k))
      else Inl (Err (LayerMismatch k)))" if "k < depth t" for k
    using that assms next_level_stored [of k "depth t" t "length (leaves t)" "leaf_at H (leaves t)"]
    by (simp add: leaf_at_def ensure_def)
  have loop: "for_each ?body [0..<m] (leaves t) = Inr s \<longleftrightarrow> s = ?st m \<and> (\<forall>k < m. layers t ! k = ?st (Suc k))"
    if "m \<le> depth t" for m s
    using that
  proof (induction m arbitrary: s)
    case (Suc m)
    have "for_each ?body [0..<Suc m] (leaves t) = bind_r (for_each ?body [0..<m] (leaves t)) (?body m)"
      by (simp only: upt_Suc_append [OF le0] for_each_snoc)
    then show ?case
      using Suc body [of m] by (auto simp: bind_r_eq_Inr [of "for_each ?body [0..<m] (leaves t)"] less_Suc_eq
          split: if_splits)
  qed auto
  have "verify_layers H t = Inr () \<longleftrightarrow> (\<exists>s. for_each ?body [0..<depth t] (leaves t) = Inr s)"
    by (simp add: verify_layers_def bind_r_eq_Inr)
  also have "\<dots> \<longleftrightarrow> (\<forall>k < depth t. layers t ! k = ?st (Suc k))"
    using loop [of "depth t"] by simp
  also have "\<dots> \<longleftrightarrow> layers t = map (\<lambda>j. ?st (Suc j)) [0..<depth t]"
  proof
    assume "layers t = map (\<lambda>j. ?st (Suc j)) [0..<depth t]"
    then have "layers t ! k = map (\<lambda>j. ?st (Suc j)) [0..<depth t] ! k" for k by (rule arg_cong)
    then show "\<forall>k < depth t. layers t ! k = ?st (Suc k)" by simp
  qed (intro nth_equalityI; simp add: depth_def)
  also have "\<dots> \<longleftrightarrow> t = canonical_tree H (depth t) (leaves t)"
    using assms by (cases t) (simp add: canonical_tree_def)
  finally show ?thesis .
qed

end

lemma verify_tree_ok:
  assumes "tree_ok (hash_output_hash poseidon) t" and "0 < depth t" and "leaves t \<noteq> []"
  shows "verify_tree (hash_output_hash poseidon) t = Inr ()"
proof -
  obtain d ls where t: "t = canonical_tree (hash_output_hash poseidon) d ls" "length ls \<le> 2 ^ d"
    using assms(1) by (rule tree_okE)
  have "verify_layers (hash_output_hash poseidon) t = Inr ()"
    using t(1) by (subst hash_output.verify_layers_iff) simp_all
  with assms t show ?thesis
    by (simp add: verify_tree_def verify_root_def hash_output.recompute_root_canonical
        hash_output.root_canonical)
qed

subsection \<open>Properties\<close>

text \<open>
  C3. For every position of a well-formed tree, filled or empty, the membership proof is built
  without a panic, opens the leaf at that position (\<open>ZERO\<close> for an empty slot) against the
  reference root, and verifies.
\<close>

theorem merkle_proof_verifies:
  assumes "tree_ok (hash_output_hash poseidon) t" and "0 < depth t" and "index < 2 ^ depth t"
  shows "\<exists>p. merkle_proof (hash_output_hash poseidon) t index = Inr p
    \<and> verify_proof (hash_output_hash poseidon) p
    \<and> proof_leaf p = (if index < num_leaves t then leaves t ! index else ZERO_hash)
    \<and> proof_root p = spec_root (hash_output_hash poseidon) (depth t) (leaves t)
    \<and> root (hash_output_hash poseidon) t = Inr (proof_root p)"
proof -
  obtain d ls where t: "t = canonical_tree (hash_output_hash poseidon) d ls" "length ls \<le> 2 ^ d"
    using assms(1) by (rule tree_okE)
  have "ZERO (hash_output_hash poseidon) = ZERO_hash" by (simp add: hash_output_hash_def)
  with assms t hash_output.merkle_proof_canonical [of d ls index poseidon] show ?thesis
    by (auto simp: leaf_at_def hash_output.root_canonical)
qed

theorem merkle_proof_verifies_witness:
  "\<exists>p. merkle_proof (hash_output_hash demo_hasher)
      (canonical_tree (hash_output_hash demo_hasher) 2 [HashOutput 5 5 5 5]) 3 = Inr p
    \<and> verify_proof (hash_output_hash demo_hasher) p \<and> proof_leaf p = ZERO_hash"
  using merkle_proof_verifies [of demo_hasher
      "canonical_tree (hash_output_hash demo_hasher) 2 [HashOutput 5 5 5 5]" 3]
  by auto

text \<open>
  C4. Binding: a proof for position \<open>index\<close> that verifies against the root of a well-formed tree
  but opens another leaf yields, by walking it next to the tree's own proof, two different pairs
  of children with the same Poseidon digest.
\<close>

theorem merkle_proof_binding:
  assumes "tree_ok (hash_output_hash poseidon) t" and "0 < depth t" and "index < 2 ^ depth t"
    and "merkle_proof (hash_output_hash poseidon) t index = Inr honest"
    and "verify_proof (hash_output_hash poseidon) p" and "proof_root p = proof_root honest"
    and "path p = path_bits (depth t) index" and "length (siblings p) = depth t"
    and "proof_leaf p \<noteq> proof_leaf honest"
  shows "\<exists>l r l' r'. find_collision (hash_output_hash poseidon) (proof_leaf p) (proof_leaf honest)
      (zip (path p) (zip (siblings p) (siblings honest))) = Some ((l, r), (l', r'))
    \<and> (l, r) \<noteq> (l', r') \<and> poseidon (elems l @ elems r) = poseidon (elems l' @ elems r')"
proof -
  obtain d ls where t: "t = canonical_tree (hash_output_hash poseidon) d ls" "length ls \<le> 2 ^ d"
    using assms(1) by (rule tree_okE)
  with assms(2-4) hash_output.merkle_proof_canonical [of d ls index poseidon]
  have h: "verify_proof (hash_output_hash poseidon) honest" "path honest = path_bits d index"
    "length (siblings honest) = d" by auto
  let ?c = "find_collision (hash_output_hash poseidon) (proof_leaf p) (proof_leaf honest)
      (zip (path p) (zip (siblings p) (siblings honest)))"
  have "?c \<noteq> None"
  proof
    assume "?c = None"
    have "proof_leaf p = proof_leaf honest"
    proof (rule hash_output.collision_or_equal)
      show "?c = None" by fact
      show "fold_path (hash_output_hash poseidon) (proof_leaf p) (path p) (siblings p) =
          fold_path (hash_output_hash poseidon) (proof_leaf honest) (path p) (siblings honest)"
        using assms(5-7) h(1,2) t(1) by (simp add: verify_proof_def)
      show "length (siblings p) = length (path p)" "length (siblings honest) = length (path p)"
        using assms(7,8) h(3) t(1) by (simp_all add: path_bits_def)
    qed
    with assms(9) show False ..
  qed
  then obtain l r l' r' where "?c = Some ((l, r), (l', r'))" by auto
  with hash_output.find_collision_ok [OF this] show ?thesis by (simp add: hash_output_hash_def)
qed

theorem merkle_proof_binding_witness:
  "find_collision (hash_output_hash demo_hasher) (HashOutput 0 0 0 1) ZERO_hash
     [(False, HashOutput 4294967265 0 0 0, ZERO_hash)] \<noteq> None"
proof -
  let ?H = "hash_output_hash demo_hasher" and ?t = "canonical_tree (hash_output_hash demo_hasher) 1 []"
  let ?r = "HashOutput (foldl (\<lambda>a e. and (31 * a + e + 1) 0xFFFFFFFF) 7 (replicate 8 0)) 8 0 0"
  let ?h = "\<lparr>proof_leaf = ZERO_hash, siblings = [ZERO_hash], path = [False], pos = 0,
      proof_num_leaves = 0, proof_root = ?r\<rparr>"
  let ?p = "?h\<lparr>proof_leaf := HashOutput 0 0 0 1, siblings := [HashOutput 4294967265 0 0 0]\<rparr>"
  have r: "spec_root ?H 1 [] = ?r"
    by (simp add: spec_root_def leaf_at_def hash_output_hash_def demo_hasher_def ZERO_hash_def
        numeral_eq_Suc)
  have honest: "merkle_proof ?H ?t 0 = Inr ?h"
    using r by (simp add: merkle_proof_def hash_output.merkle_path_canonical hash_output.root_canonical
        path_bits_def leaf_at_def) (simp add: hash_output_hash_def)
  have "verify_proof ?H ?p"
    by (simp add: verify_proof_def hash_output_hash_def demo_hasher_def numeral_eq_Suc)
  with honest show ?thesis
    using merkle_proof_binding [of demo_hasher ?t 0 ?h ?p]
    by (auto simp: path_bits_def ZERO_hash_def)
qed

text \<open>
  The layer check is exact: on a tree with the right empty digests it succeeds if and only if
  every stored layer is the reference one.
\<close>

theorem verify_layers_exact:
  assumes "default_siblings t = map (zero_node (hash_output_hash poseidon)) [0..<max 1 (depth t)]"
    and "num_leaves t \<le> 2 ^ depth t"
  shows "verify_layers (hash_output_hash poseidon) t = Inr () \<longleftrightarrow> tree_ok (hash_output_hash poseidon) t"
  using hash_output.verify_layers_iff [OF assms(1)] assms(2) by (simp add: tree_ok_def)

theorem verify_layers_exact_witness:
  "verify_layers (hash_output_hash demo_hasher)
     \<lparr>leaves = [ZERO_hash], layers = [[ZERO_hash]],
      default_siblings = [ZERO_hash]\<rparr> \<noteq> Inr ()"
proof -
  let ?t = "\<lparr>leaves = [ZERO_hash], layers = [[ZERO_hash]], default_siblings = [ZERO_hash]\<rparr>"
  have "\<not> tree_ok (hash_output_hash demo_hasher) ?t"
    by (simp add: tree_ok_def canonical_tree_def depth_def num_leaves_def stored_def leaf_at_def
        hash_output_hash_def demo_hasher_def ZERO_hash_def)
  then show ?thesis
    using verify_layers_exact [of ?t demo_hasher]
    by (simp add: depth_def num_leaves_def hash_output_hash_def)
qed

end
