(* ===== verification/Account.thy ===== *)
theory Account
  imports Merkle_Proof
begin

section \<open>Accounts and their balance trees\<close>

text \<open>
  \<^verbatim>\<open>doxa-client/src/account.rs\<close> with the constants of \<^verbatim>\<open>lib.rs\<close> it uses: the account
  state tree (AST), a Merkle tree of balances mirrored by a map from asset to leaf index and
  amount, the account with its commitment, nullifier and keys, its shareable address, and the
  transaction hashes. The abstraction of an AST is the list of its (asset, amount) pairs in
  leaf order; \<open>ast_rep\<close> relates the two and every operation refines an operation on that list.
  Hash maps handed to a function are lists of entries in an arbitrary iteration order.
  Poseidon's \<^verbatim>\<open>hash_no_pad\<close> is the argument \<open>P\<close>. Asset ids and all other field elements
  are compared by the stored word, which is \<^verbatim>\<open>F\<close>'s equality on canonical elements.
\<close>

definition DS_NULLIFIER_KEY :: u64 where "DS_NULLIFIER_KEY = 12"
definition DS_PUBLIC_IDENTIFIER :: u64 where "DS_PUBLIC_IDENTIFIER = 13"
definition DS_ACC_AST_LEAF :: u64 where "DS_ACC_AST_LEAF = 1312"
definition NOTE_BATCH :: nat where "NOTE_BATCH = 7"
definition ACC_AST_DEPTH :: nat where "ACC_AST_DEPTH = 10"
definition STATE_TREE_DEPTH :: nat where "STATE_TREE_DEPTH = 32"
definition MAIN_POOL_CONFIG_DEPTH :: nat where "MAIN_POOL_CONFIG_DEPTH = 20"

text \<open>\<^verbatim>\<open>CompressedPublicKey\<close>: the five limbs of the encoded curve point.\<close>

datatype pubkey = CompressedPublicKey felt felt felt felt felt

fun pk_elems :: "pubkey \<Rightarrow> felt list" where
  "pk_elems (CompressedPublicKey a b c d e) = [a, b, c, d, e]"

definition DEFAULT_ACC_COMM_CONSUME_PK_PLACEHOLDER :: pubkey where
  "DEFAULT_ACC_COMM_CONSUME_PK_PLACEHOLDER = CompressedPublicKey 7613690455422068269
     12930951591626745075 16103143792840800039 4657200339622395349 3857357297380158342"

definition DEFAULT_SPEND_AUTH_PK :: pubkey where
  "DEFAULT_SPEND_AUTH_PK = CompressedPublicKey 7613690455422068269
     12930951591626745075 16103143792840800039 4657200339622395349 3857357297380158342"

subsection \<open>The account state tree\<close>

type_synonym asset_id = felt

definition asset_id_from_u64 :: "u64 \<Rightarrow> (string, asset_id) result" where
  "asset_id_from_u64 v =
     bind_r (ensure (v < GOLDILOCKS_PRIME) ''AssetId out of field range'')
       (\<lambda>_. Inr (from_canonical_u64 v))"

text \<open>The eight 32-bit limbs of an amount, least significant first.\<close>

definition u256_limbs :: "u256 \<Rightarrow> felt list" where
  "u256_limbs v = concat (map (\<lambda>w. [ucast (lo32 w), ucast (hi32 w)]) (u256_words v))"

definition ast_leaf_commitment :: "hasher \<Rightarrow> asset_id \<Rightarrow> u256 \<Rightarrow> hash_output" where
  "ast_leaf_commitment P asset amount = P ([DS_ACC_AST_LEAF, asset] @ u256_limbs amount)"

record account_state_tree =
  tree :: "hash_output merkle_tree"
  assets :: "asset_id \<rightharpoonup> nat \<times> u256"

datatype ast_error =
    Tree_error tree_error | Default_asset | Asset_exists | Asset_not_found | Not_contiguous

definition insert_asset_raw ::
  "hasher \<Rightarrow> asset_id \<Rightarrow> u256 \<Rightarrow> account_state_tree \<Rightarrow> (ast_error, account_state_tree) result" where
  "insert_asset_raw P asset amount a =
     (let index = num_leaves (tree a) in
      bind_r (map_err Tree_error
          (insert_tree (hash_output_hash P) (ast_leaf_commitment P asset amount) (tree a)))
        (\<lambda>(_, t). Inr (a\<lparr>tree := t, assets := (assets a)(asset \<mapsto> (index, amount))\<rparr>)))"

definition ast_new :: "hasher \<Rightarrow> (ast_error, account_state_tree) result" where
  "ast_new P = unwrap_r (insert_asset_raw P 0 0
     \<lparr>tree = merkle_tree_new (hash_output_hash P) ACC_AST_DEPTH, assets = Map.empty\<rparr>)"

definition ast_root :: "hasher \<Rightarrow> account_state_tree \<Rightarrow> hash_output tree_result" where
  "ast_root P a = root (hash_output_hash P) (tree a)"

definition ast_size :: "account_state_tree \<Rightarrow> nat" where
  "ast_size a = num_leaves (tree a)"

definition insert_asset ::
  "hasher \<Rightarrow> asset_id \<Rightarrow> u256 \<Rightarrow> account_state_tree \<Rightarrow> (ast_error, account_state_tree) result" where
  "insert_asset P asset amount a =
     (if asset = 0 then Inl (Err Default_asset)
      else if assets a asset \<noteq> None then Inl (Err Asset_exists)
      else insert_asset_raw P asset amount a)"

definition update_asset ::
  "hasher \<Rightarrow> asset_id \<Rightarrow> u256 \<Rightarrow> account_state_tree \<Rightarrow> (ast_error, u256 \<times> account_state_tree) result" where
  "update_asset P asset amount a =
     (if asset = 0 then Inl (Err Default_asset)
      else bind_r (ok_or (assets a asset) Asset_not_found) (\<lambda>(index, prev_amount).
        bind_r (map_err Tree_error
            (update_leaf (hash_output_hash P) index (ast_leaf_commitment P asset amount) (tree a)))
          (\<lambda>t. Inr (prev_amount,
             a\<lparr>tree := t, assets := (assets a)(asset \<mapsto> (index, amount))\<rparr>))))"

definition insert_or_update_asset ::
  "hasher \<Rightarrow> asset_id \<Rightarrow> u256 \<Rightarrow> account_state_tree \<Rightarrow>
     (ast_error, u256 option \<times> account_state_tree) result" where
  "insert_or_update_asset P asset amount a =
     (if assets a asset \<noteq> None
      then bind_r (unwrap_r (update_asset P asset amount a)) (\<lambda>(prev, a). Inr (Some prev, a))
      else bind_r (unwrap_r (insert_asset P asset amount a)) (\<lambda>a. Inr (None, a)))"

definition merkle_proof_at ::
  "hasher \<Rightarrow> account_state_tree \<Rightarrow> nat \<Rightarrow> (tree_error, hash_output merkle_proof) result" where
  "merkle_proof_at P a index = unwrap_r (merkle_proof (hash_output_hash P) (tree a) index)"

definition amount_for :: "account_state_tree \<Rightarrow> asset_id \<Rightarrow> (nat \<times> u256) option" where
  "amount_for a asset = assets a asset"

definition next_index :: "account_state_tree \<Rightarrow> nat" where
  "next_index a = num_leaves (tree a)"

text \<open>
  Reconstruction from a saved asset map, given as its entries (asset, leaf index, amount) in
  iteration order: a stable sort by leaf index, the contiguity check, the inserts.
\<close>

definition new_from_asset_map ::
  "hasher \<Rightarrow> (asset_id \<times> nat \<times> u256) list \<Rightarrow> (ast_error, account_state_tree) result" where
  "new_from_asset_map P map_entries =
     (let entries = sort_key (\<lambda>(_, leaf_index, _). leaf_index) map_entries in
      bind_r (for_each (\<lambda>(expected, (_, leaf_index, _)) _.
          ensure (leaf_index = expected) Not_contiguous) (enumerate 0 entries) ()) (\<lambda>_.
      bind_r (ast_new P) (\<lambda>ast.
        for_each (\<lambda>(asset, _, amount). insert_asset P asset amount) entries ast)))"

subsection \<open>The account\<close>

record account =
  private_identifier :: "felt \<times> felt"
  subpool_id :: felt
  nonce :: felt
  spend_pk :: "pubkey option"
  consume_config :: bool
  consume_pk :: "pubkey option"
  ast :: account_state_tree

definition nonce_incremented :: "felt \<Rightarrow> felt" where
  "nonce_incremented n = from_canonical_u64 (to_canonical_u64 n + 1)"

definition spend_pk_or_default :: "account \<Rightarrow> pubkey" where
  "spend_pk_or_default acc = (case spend_pk acc of Some pk \<Rightarrow> pk | None \<Rightarrow> DEFAULT_SPEND_AUTH_PK)"

definition consume_pk_or_default :: "account \<Rightarrow> pubkey" where
  "consume_pk_or_default acc =
     (case consume_pk acc of Some pk \<Rightarrow> pk | None \<Rightarrow> DEFAULT_ACC_COMM_CONSUME_PK_PLACEHOLDER)"

definition new_with :: "hasher \<Rightarrow> felt \<times> felt \<Rightarrow> felt \<Rightarrow> (ast_error, account) result" where
  "new_with P private_id subpool =
     bind_r (ast_new P) (\<lambda>a. Inr
       \<lparr>private_identifier = private_id, subpool_id = subpool, nonce = 0, spend_pk = None,
        consume_config = False, consume_pk = None, ast = a\<rparr>)"

definition clone_with_incremented_nonce :: "account \<Rightarrow> account" where
  "clone_with_incremented_nonce acc = acc\<lparr>nonce := nonce_incremented (nonce acc)\<rparr>"

definition private_id_elems :: "account \<Rightarrow> felt list" where
  "private_id_elems acc = [fst (private_identifier acc), snd (private_identifier acc)]"

definition public_id :: "hasher \<Rightarrow> account \<Rightarrow> hash_output" where
  "public_id P acc = P (DS_PUBLIC_IDENTIFIER # private_id_elems acc)"

definition nk :: "hasher \<Rightarrow> account \<Rightarrow> hash_output" where
  "nk P acc = P (DS_NULLIFIER_KEY # private_id_elems acc)"

definition commitment_input :: "account \<Rightarrow> hash_output \<Rightarrow> pubkey \<Rightarrow> felt list" where
  "commitment_input acc ast_rt consume =
     private_id_elems acc @ [subpool_id acc] @ elems ast_rt @ [nonce acc]
       @ pk_elems (spend_pk_or_default acc)
       @ [if consume_config acc then 1 else 0] @ pk_elems consume"

definition account_commitment :: "hasher \<Rightarrow> account \<Rightarrow> hash_output tree_result" where
  "account_commitment P acc =
     bind_r (ast_root P (ast acc)) (\<lambda>ast_rt.
     bind_r (if consume_config acc then unwrap (consume_pk acc)
             else Inr DEFAULT_ACC_COMM_CONSUME_PK_PLACEHOLDER) (\<lambda>consume.
       Inr (P (commitment_input acc ast_rt consume))))"

definition account_nullifier :: "hasher \<Rightarrow> account \<Rightarrow> hash_output tree_result" where
  "account_nullifier P acc =
     bind_r (account_commitment P acc) (\<lambda>comm. Inr (P (elems comm @ elems (nk P acc))))"

definition is_fresh :: "account \<Rightarrow> bool" where
  "is_fresh acc \<longleftrightarrow> nonce acc = 0 \<and> spend_pk acc = None \<and> \<not> consume_config acc
     \<and> consume_pk acc = None \<and> ast_size (ast acc) = 0"

subsection \<open>Addresses\<close>

record account_address =
  addr_subpool_id :: felt
  addr_public_id :: hash_output

definition address_default :: account_address where
  "address_default = \<lparr>addr_subpool_id = 0, addr_public_id = ZERO_hash\<rparr>"

definition address_from_acc :: "hasher \<Rightarrow> account \<Rightarrow> account_address" where
  "address_from_acc P acc = \<lparr>addr_subpool_id = subpool_id acc, addr_public_id = public_id P acc\<rparr>"

definition address_to_bytes :: "account_address \<Rightarrow> bytes" where
  "address_to_bytes ad = u64_to_le_bytes (to_canonical_u64 (addr_subpool_id ad))
     @ concat (map (\<lambda>f. u64_to_le_bytes (to_canonical_u64 f)) (elems (addr_public_id ad)))"

definition address_from_bytes :: "bytes \<Rightarrow> (codec_error, account_address) result" where
  "address_from_bytes b =
     bind_r (ensure (length b = 40) Bad_length) (\<lambda>_.
     Inr \<lparr>addr_subpool_id = from_canonical_u64 (u64_from_le_bytes (slice_at b 0 8)),
          addr_public_id = hash_of (map (\<lambda>i.
            from_canonical_u64 (u64_from_le_bytes (slice_at b (8 + i * 8) 8))) [0..<4])\<rparr>)"

text \<open>The hex strings of the \<^verbatim>\<open>hex\<close> crate: its encoder and decoder are arguments.\<close>

definition address_to_hex :: "(bytes \<Rightarrow> string) \<Rightarrow> account_address \<Rightarrow> string" where
  "address_to_hex hex_encode ad = hex_encode (address_to_bytes ad)"

definition address_from_hex ::
  "(string \<Rightarrow> bytes option) \<Rightarrow> string \<Rightarrow> (codec_error, account_address) result" where
  "address_from_hex hex_decode s =
     bind_r (ensure (length s = 80) Bad_length) (\<lambda>_.
     bind_r (ok_or (hex_decode s) Bad_hex) address_from_bytes)"

subsection \<open>Transaction hashes\<close>

definition derive_priv_tx_hash ::
  "hasher \<Rightarrow> hash_output \<Rightarrow> hash_output \<Rightarrow> hash_output list \<Rightarrow> hash_output list \<Rightarrow> hash_output" where
  "derive_priv_tx_hash P accin_null accout_comm inotes_null onotes_comm =
     P (elems accin_null @ elems accout_comm @ concat (map elems inotes_null)
        @ concat (map elems onotes_comm))"

text \<open>\<^verbatim>\<open>map_h160_to_f\<close>: the twenty bytes of an address as five 32-bit elements.\<close>

definition map_h160_to_f :: "bytes \<Rightarrow> felt list" where
  "map_h160_to_f v = map (\<lambda>i. ucast (u32_from_le_bytes (slice_at v (4 * i) 4))) [0..<5]"

definition derive_deposit_tx_hash ::
  "hasher \<Rightarrow> hash_output \<Rightarrow> hash_output \<Rightarrow> hash_output \<Rightarrow> bytes \<Rightarrow> hash_output" where
  "derive_deposit_tx_hash P accin_null accout_comm deposit_note_comm eth_adrs =
     P (elems accin_null @ elems accout_comm @ elems deposit_note_comm @ map_h160_to_f eth_adrs)"

definition derive_withdraw_tx_hash ::
  "hasher \<Rightarrow> hash_output \<Rightarrow> hash_output \<Rightarrow> asset_id list \<Rightarrow> u256 list \<Rightarrow> bytes \<Rightarrow> hash_output" where
  "derive_withdraw_tx_hash P accin_null accout_comm asset_ids amounts w_acc_addr =
     P (elems accin_null @ elems accout_comm @ asset_ids @ concat (map u256_limbs amounts)
        @ map_h160_to_f w_acc_addr)"

subsection \<open>The balance list an account state tree stands for\<close>

fun lookup_from :: "nat \<Rightarrow> (asset_id \<times> u256) list \<Rightarrow> asset_id \<Rightarrow> (nat \<times> u256) option" where
  "lookup_from i [] x = None"
| "lookup_from i ((y, v) # es) x = (if x = y then Some (i, v) else lookup_from (Suc i) es x)"

definition ast_leaves :: "hasher \<Rightarrow> (asset_id \<times> u256) list \<Rightarrow> hash_output list" where
  "ast_leaves P es = map (\<lambda>(x, v). ast_leaf_commitment P x v) es"

definition ast_rep :: "hasher \<Rightarrow> account_state_tree \<Rightarrow> (asset_id \<times> u256) list \<Rightarrow> bool" where
  "ast_rep P a es \<longleftrightarrow>
     tree a = canonical_tree (hash_output_hash P) ACC_AST_DEPTH (ast_leaves P es)
     \<and> assets a = lookup_from 0 es \<and> distinct (map fst es) \<and> length es \<le> 2 ^ ACC_AST_DEPTH"

text \<open>The invariant of an account's AST: slot 0 is the reserved asset 0 with no balance.\<close>

definition ast_ok :: "hasher \<Rightarrow> account_state_tree \<Rightarrow> bool" where
  "ast_ok P a \<longleftrightarrow> (\<exists>es. ast_rep P a ((0, 0) # es))"

lemma length_ast_leaves [simp]: "length (ast_leaves P es) = length es"
  by (simp add: ast_leaves_def)

lemma lookup_from_append:
  "lookup_from i (es @ fs) x =
     (case lookup_from i es x of Some r \<Rightarrow> Some r | None \<Rightarrow> lookup_from (i + length es) fs x)"
  by (induction es arbitrary: i) (auto split: option.split)

lemma lookup_from_None: "lookup_from i es x = None \<longleftrightarrow> x \<notin> fst ` set es"
  by (induction i es x rule: lookup_from.induct) auto

lemma lookup_from_Some:
  "distinct (map fst es) \<Longrightarrow>
   lookup_from i es x = Some (j, v) \<longleftrightarrow> i \<le> j \<and> j - i < length es \<and> es ! (j - i) = (x, v)"
proof (induction i es x rule: lookup_from.induct)
  case (2 i y w es x)
  show ?case
  proof (cases "x = y")
    case True
    have "es ! k \<noteq> (x, v)" if "k < length es" for k
      using 2(2) True that nth_mem [of k es] by force
    then show ?thesis using True by (auto simp: nth_Cons')
  next
    case False
    with 2 show ?thesis by (auto simp: nth_Cons' Suc_le_eq)
  qed
qed simp

lemma lookup_from_update:
  assumes "distinct (map fst es)" and "j < length es" and "fst (es ! j) = x"
  shows "lookup_from i (es[j := (x, v)]) = (lookup_from i es)(x \<mapsto> (i + j, v))"
  using assms
proof (induction es arbitrary: i j)
  case (Cons e es)
  obtain y w where e: "e = (y, w)" by (cases e)
  show ?case
  proof (cases j)
    case 0
    with Cons.prems e show ?thesis by (auto simp: fun_eq_iff)
  next
    case (Suc k)
    then have "x \<noteq> y" using Cons.prems e by (force simp: in_set_conv_nth)
    with Cons Suc e show ?thesis by (auto simp: fun_eq_iff)
  qed
qed simp

lemma ast_rep_sel:
  assumes "ast_rep P a es"
  shows "num_leaves (tree a) = length es" and "ast_size a = length es" and "next_index a = length es"
    and "amount_for a = lookup_from 0 es"
  using assms by (simp_all add: ast_rep_def ast_size_def next_index_def amount_for_def fun_eq_iff)

lemma depth_bounds [simp]: "ACC_AST_DEPTH < 64" "0 < ACC_AST_DEPTH"
  by (simp_all add: ACC_AST_DEPTH_def)

lemma insert_asset_raw_rep:
  assumes "ast_rep P a es" and "x \<notin> fst ` set es"
  shows "if length es < 2 ^ ACC_AST_DEPTH
    then \<exists>a'. insert_asset_raw P x v a = Inr a' \<and> ast_rep P a' (es @ [(x, v)])
    else insert_asset_raw P x v a = Inl (Err (Tree_error FullTree))"
proof -
  have t: "tree a = canonical_tree (hash_output_hash P) ACC_AST_DEPTH (ast_leaves P es)"
    using assms(1) by (simp add: ast_rep_def)
  have "lookup_from 0 (es @ [(x, v)]) = (lookup_from 0 es)(x \<mapsto> (length es, v))"
  proof
    fix y
    have "lookup_from 0 es x = None" using assms(2) by (simp add: lookup_from_None)
    then show "lookup_from 0 (es @ [(x, v)]) y = ((lookup_from 0 es)(x \<mapsto> (length es, v))) y"
      by (auto simp: lookup_from_append split: option.split)
  qed
  then show ?thesis
    using assms
    by (simp add: insert_asset_raw_def t hash_output.insert_canonical ast_rep_def)
       (simp add: ast_leaves_def)
qed

lemma ast_new_rep: "\<exists>a. ast_new P = Inr a \<and> ast_rep P a [(0, 0)]"
proof -
  let ?a = "\<lparr>tree = merkle_tree_new (hash_output_hash P) ACC_AST_DEPTH, assets = Map.empty\<rparr>"
  have "ast_rep P ?a []"
    by (simp add: ast_rep_def hash_output.new_canonical ast_leaves_def fun_eq_iff)
  from insert_asset_raw_rep [OF this, of 0 0] show ?thesis by (auto simp: ast_new_def)
qed

lemma insert_asset_rep:
  assumes "ast_rep P a es"
  shows "if x = 0 then insert_asset P x v a = Inl (Err Default_asset)
    else if x \<in> fst ` set es then insert_asset P x v a = Inl (Err Asset_exists)
    else if length es < 2 ^ ACC_AST_DEPTH
      then \<exists>a'. insert_asset P x v a = Inr a' \<and> ast_rep P a' (es @ [(x, v)])
    else insert_asset P x v a = Inl (Err (Tree_error FullTree))"
proof -
  have "assets a x = None \<longleftrightarrow> x \<notin> fst ` set es"
    using assms by (simp add: ast_rep_def lookup_from_None)
  then show ?thesis using insert_asset_raw_rep [OF assms] by (simp add: insert_asset_def)
qed

lemma update_asset_rep:
  assumes "ast_rep P a es"
  shows "if x = 0 then update_asset P x v a = Inl (Err Default_asset)
    else case lookup_from 0 es x of
        None \<Rightarrow> update_asset P x v a = Inl (Err Asset_not_found)
      | Some (j, prev) \<Rightarrow> \<exists>a'. update_asset P x v a = Inr (prev, a') \<and> ast_rep P a' (es[j := (x, v)])"
proof (cases "lookup_from 0 es x")
  case None
  with assms show ?thesis by (simp add: update_asset_def ast_rep_def)
next
  case (Some r)
  obtain j prev where r: "r = (j, prev)" by (cases r)
  have a: "tree a = canonical_tree (hash_output_hash P) ACC_AST_DEPTH (ast_leaves P es)"
    "assets a = lookup_from 0 es" "distinct (map fst es)" "length es \<le> 2 ^ ACC_AST_DEPTH"
    using assms by (simp_all add: ast_rep_def)
  have j: "j < length es" "es ! j = (x, prev)"
    using Some r lookup_from_Some [OF a(3), of 0 x j prev] by simp_all
  have "map fst (es[j := (x, v)]) = map fst es"
    using j by (simp add: map_update list_update_same_conv)
  then have "ast_rep P (a\<lparr>tree := canonical_tree (hash_output_hash P) ACC_AST_DEPTH
        ((ast_leaves P es)[j := ast_leaf_commitment P x v]),
      assets := (assets a)(x \<mapsto> (j, v))\<rparr>) (es[j := (x, v)])"
    using a j lookup_from_update [of es j x 0 v] by (simp add: ast_rep_def ast_leaves_def map_update)
  moreover have "update_leaf (hash_output_hash P) j (ast_leaf_commitment P x v) (tree a) =
      Inr (canonical_tree (hash_output_hash P) ACC_AST_DEPTH
        ((ast_leaves P es)[j := ast_leaf_commitment P x v]))"
    using a j by (simp add: hash_output.update_leaf_canonical)
  ultimately show ?thesis
    using Some r a(2) by (simp add: update_asset_def)
qed

subsection \<open>The balance store the transaction builders rely on\<close>

locale asset_store =
  fixes inv :: "'s \<Rightarrow> bool"
    and get :: "'s \<Rightarrow> 'k \<Rightarrow> (nat \<times> 'v) option"
    and size_of :: "'s \<Rightarrow> nat"
    and put :: "'k \<Rightarrow> 'v \<Rightarrow> 's \<Rightarrow> 'x + ('v option \<times> 's)"
    and reserved :: 'k
    and cap :: nat
  assumes put_law: "inv s \<Longrightarrow> k \<noteq> reserved \<Longrightarrow> get s k \<noteq> None \<or> size_of s < cap \<Longrightarrow>
      \<exists>s'. put k v s = Inr (map_option snd (get s k), s') \<and> inv s'
        \<and> get s' = (get s)(k \<mapsto> (case get s k of Some (i, _) \<Rightarrow> i | None \<Rightarrow> size_of s, v))
        \<and> size_of s' = (if get s k = None then Suc (size_of s) else size_of s)"
begin

text \<open>The balance read back from the store.\<close>

definition bal :: "'s \<Rightarrow> 'k \<Rightarrow> 'v option" where
  "bal s k = map_option snd (get s k)"

lemma put_bal:
  assumes "inv s" and "k \<noteq> reserved" and "get s k \<noteq> None \<or> size_of s < cap"
  obtains s' where "put k v s = Inr (bal s k, s')" "inv s'" "bal s' = (bal s)(k \<mapsto> v)"
    "dom (get s') = dom (get s) \<union> {k}"
    "size_of s' = (if get s k = None then Suc (size_of s) else size_of s)"
proof -
  obtain s' where s': "put k v s = Inr (map_option snd (get s k), s')" "inv s'"
    "get s' = (get s)(k \<mapsto> (case get s k of Some (i, _) \<Rightarrow> i | None \<Rightarrow> size_of s, v))"
    "size_of s' = (if get s k = None then Suc (size_of s) else size_of s)"
    using put_law [OF assms] by blast
  moreover have "bal s' = (bal s)(k \<mapsto> v)" by (simp add: bal_def s'(3) fun_eq_iff)
  ultimately show ?thesis by (intro that) (auto simp: bal_def s'(3))
qed

text \<open>Writing a list of tracked assets one after the other.\<close>

lemma put_all:
  assumes "inv s" and "\<And>k v. (k, v) \<in> set kvs \<Longrightarrow> k \<noteq> reserved \<and> get s k \<noteq> None"
  shows "\<exists>s'. for_each (\<lambda>(k, v) s. bind_r (put k v s) (\<lambda>(_, s). Inr s)) kvs s = Inr s'
    \<and> inv s' \<and> bal s' = bal s ++ map_of (rev kvs) \<and> size_of s' = size_of s"
  using assms
proof (induction kvs arbitrary: s)
  case (Cons kv kvs)
  obtain k v where kv: "kv = (k, v)" by (cases kv)
  with Cons.prems have k: "k \<noteq> reserved" "get s k \<noteq> None" by auto
  obtain s1 where s1: "put k v s = Inr (bal s k, s1)" "inv s1" "bal s1 = (bal s)(k \<mapsto> v)"
    "dom (get s1) = dom (get s) \<union> {k}" "size_of s1 = size_of s"
    by (rule put_bal [of s k v]) (use Cons.prems(1) k in auto)
  have "get s1 k' \<noteq> None" if "(k', v') \<in> set kvs" for k' v'
  proof -
    have "k' \<in> dom (get s)" using that Cons.prems(2) [of k' v'] by auto
    with s1(4) show ?thesis by (metis UnI1 domIff)
  qed
  then have "\<exists>s'. for_each (\<lambda>(k, v) s. bind_r (put k v s) (\<lambda>(_, s). Inr s)) kvs s1 = Inr s'
    \<and> inv s' \<and> bal s' = bal s1 ++ map_of (rev kvs) \<and> size_of s' = size_of s1"
    by (intro Cons.IH [OF s1(2)]) (use Cons.prems(2) in auto)
  then obtain s2 where s2: "for_each (\<lambda>(k, v) s. bind_r (put k v s) (\<lambda>(_, s). Inr s)) kvs s1 = Inr s2"
    "inv s2" "bal s2 = bal s1 ++ map_of (rev kvs)" "size_of s2 = size_of s1" by blast
  have "bal s1 ++ map_of (rev kvs) = bal s ++ map_of (rev (kv # kvs))"
    by (auto simp: kv s1(3) map_add_def fun_eq_iff split: option.split)
  with s2(3) have "bal s2 = bal s ++ map_of (rev (kv # kvs))" by (rule trans)
  with s2(1,2,4) s1(1,5) show ?case
    by (intro exI [of _ s2]) (simp only: kv for_each.simps prod.case bind_r_Inr simp_thms)
qed simp

end

lemma insert_or_update_rep:
  assumes "ast_rep P a es" and "x \<noteq> 0" and "x \<in> fst ` set es \<or> length es < 2 ^ ACC_AST_DEPTH"
  shows "case lookup_from 0 es x of
      None \<Rightarrow> \<exists>a'. insert_or_update_asset P x v a = Inr (None, a') \<and> ast_rep P a' (es @ [(x, v)])
    | Some (j, prev) \<Rightarrow> \<exists>a'. insert_or_update_asset P x v a = Inr (Some prev, a')
        \<and> ast_rep P a' (es[j := (x, v)])"
proof (cases "lookup_from 0 es x")
  case None
  then have "x \<notin> fst ` set es" by (simp add: lookup_from_None)
  with assms insert_asset_rep [OF assms(1), of x v]
  obtain a' where "insert_asset P x v a = Inr a'" "ast_rep P a' (es @ [(x, v)])" by auto
  with None assms show ?thesis by (simp add: insert_or_update_asset_def ast_rep_def)
next
  case (Some r)
  with assms update_asset_rep [OF assms(1), of x v] show ?thesis
    by (cases r) (auto simp: insert_or_update_asset_def ast_rep_def)
qed

lemma lookup_from_0_hd: "lookup_from 0 ((0, 0) # es) x = Some (j, v) \<Longrightarrow> x \<noteq> 0 \<Longrightarrow> 0 < j"
  using lookup_from_append [of 0 "[(0, 0)]" es x]
proof -
  have "lookup_from i es x = Some (j, v) \<Longrightarrow> i \<le> j" for i
    by (induction i es x rule: lookup_from.induct) (auto split: if_splits)
  then show "lookup_from 0 ((0, 0) # es) x = Some (j, v) \<Longrightarrow> x \<noteq> 0 \<Longrightarrow> 0 < j"
    by (fastforce split: if_splits)
qed

interpretation ast_store: asset_store "ast_ok P" amount_for ast_size "insert_or_update_asset P" 0
    "2 ^ ACC_AST_DEPTH" for P
proof
  fix s x v
  assume inv: "ast_ok P s" and x: "x \<noteq> 0"
    and room: "amount_for s x \<noteq> None \<or> ast_size s < 2 ^ ACC_AST_DEPTH"
  obtain es0 where rep: "ast_rep P s ((0, 0) # es0)" using inv by (auto simp: ast_ok_def)
  let ?es = "(0, 0) # es0"
  have sel: "amount_for s = lookup_from 0 ?es" "ast_size s = length ?es"
    using ast_rep_sel [OF rep] by simp_all
  have room': "x \<in> fst ` set ?es \<or> length ?es < 2 ^ ACC_AST_DEPTH"
    using room sel by (metis lookup_from_None)
  show "\<exists>s'. insert_or_update_asset P x v s = Inr (map_option snd (amount_for s x), s') \<and> ast_ok P s'
      \<and> amount_for s' = (amount_for s)(x \<mapsto> (case amount_for s x of Some (i, _) \<Rightarrow> i | None \<Rightarrow> ast_size s, v))
      \<and> ast_size s' = (if amount_for s x = None then Suc (ast_size s) else ast_size s)"
  proof (cases "lookup_from 0 ?es x")
    case None
    then obtain a' where a': "insert_or_update_asset P x v s = Inr (None, a')" "ast_rep P a' (?es @ [(x, v)])"
      using insert_or_update_rep [OF rep x room', of v] by auto
    have "lookup_from 0 (?es @ [(x, v)]) = (lookup_from 0 ?es)(x \<mapsto> (length ?es, v))"
      using None by (auto simp: fun_eq_iff lookup_from_append split: option.split)
    with a' None sel ast_rep_sel [OF a'(2)] show ?thesis by (auto simp: ast_ok_def)
  next
    case (Some r)
    obtain j prev where r: "r = (j, prev)" by (cases r)
    then obtain a' where a': "insert_or_update_asset P x v s = Inr (Some prev, a')"
      "ast_rep P a' (?es[j := (x, v)])"
      using insert_or_update_rep [OF rep x room', of v] Some by auto
    have dist: "distinct (map fst ?es)" using rep unfolding ast_rep_def by blast
    have "j < length ?es \<and> ?es ! j = (x, prev)" and "0 < j"
      using Some r lookup_from_Some [OF dist, of 0 x j prev] lookup_from_0_hd [of es0 x j prev] x by simp_all
    moreover from this have "lookup_from 0 (?es[j := (x, v)]) = (lookup_from 0 ?es)(x \<mapsto> (j, v))"
      using lookup_from_update [OF dist, of j x 0 v] by simp
    moreover obtain k where "j = Suc k" using \<open>0 < j\<close> by (cases j) auto
    ultimately show ?thesis
      using a' Some r sel ast_rep_sel [OF a'(2)] by (auto simp: ast_ok_def)
  qed
qed

subsection \<open>Properties\<close>

text \<open>
  C32. Setting a balance: on a well-formed AST, for any asset but the reserved one that is tracked
  or has room, \<^verbatim>\<open>insert_or_update_asset\<close> returns the previous balance, keeps the AST
  well-formed, and afterwards that asset has the new balance and every other asset the old one.
\<close>

theorem insert_or_update_asset_sets_balance:
  assumes "ast_ok P a" and "x \<noteq> 0" and "amount_for a x \<noteq> None \<or> ast_size a < 2 ^ ACC_AST_DEPTH"
  shows "\<exists>a'. insert_or_update_asset P x v a = Inr (map_option snd (amount_for a x), a')
    \<and> ast_ok P a' \<and> map_option snd (amount_for a' x) = Some v
    \<and> (\<forall>y. y \<noteq> x \<longrightarrow> amount_for a' y = amount_for a y)"
  using ast_store.put_law [OF assms, of v] by auto

theorem insert_or_update_asset_sets_balance_witness:
  "\<exists>a a'. ast_new demo_hasher = Inr a \<and> insert_or_update_asset demo_hasher 5 100 a = Inr (None, a')
    \<and> map_option snd (amount_for a' 5) = Some 100"
proof -
  obtain a where a: "ast_new demo_hasher = Inr a" "ast_rep demo_hasher a [(0, 0)]"
    using ast_new_rep by blast
  have "amount_for a 5 = None" "ast_size a < 2 ^ ACC_AST_DEPTH"
    using ast_rep_sel [OF a(2)] by (simp_all add: ACC_AST_DEPTH_def)
  moreover have "ast_ok demo_hasher a" using a(2) by (auto simp: ast_ok_def)
  ultimately show ?thesis
    using insert_or_update_asset_sets_balance [of demo_hasher a 5 100] a(1) by auto
qed

text \<open>
  The witness of a balance: for a tracked asset the membership proof at its leaf index verifies,
  opens the commitment to exactly its balance, and is against the current AST root.
\<close>

theorem balance_proof_verifies:
  assumes "ast_ok P a" and "amount_for a x = Some (i, v)"
  shows "\<exists>p. merkle_proof_at P a i = Inr p \<and> verify_proof (hash_output_hash P) p
    \<and> proof_leaf p = ast_leaf_commitment P x v \<and> ast_root P a = Inr (proof_root p)"
proof -
  obtain es where rep: "ast_rep P a es" using assms(1) by (auto simp: ast_ok_def)
  then have t: "tree a = canonical_tree (hash_output_hash P) ACC_AST_DEPTH (ast_leaves P es)"
    and len: "length es \<le> 2 ^ ACC_AST_DEPTH" and dist: "distinct (map fst es)"
    by (simp_all add: ast_rep_def)
  have i: "i < length es" "es ! i = (x, v)"
    using assms(2) ast_rep_sel(4) [OF rep] lookup_from_Some [OF dist, of 0 x i v] by simp_all
  have "leaf_at (hash_output_hash P) (ast_leaves P es) i = ast_leaf_commitment P x v"
    using i by (simp add: leaf_at_def ast_leaves_def)
  with t len i hash_output.merkle_proof_canonical [of ACC_AST_DEPTH "ast_leaves P es" i P]
  show ?thesis by (auto simp: merkle_proof_at_def ast_root_def hash_output.root_canonical)
qed

theorem balance_proof_verifies_witness:
  "\<exists>a p. ast_new demo_hasher = Inr a \<and> merkle_proof_at demo_hasher a 0 = Inr p
    \<and> verify_proof (hash_output_hash demo_hasher) p"
proof -
  obtain a where a: "ast_new demo_hasher = Inr a" "ast_rep demo_hasher a [(0, 0)]"
    using ast_new_rep by blast
  have "ast_ok demo_hasher a" "amount_for a 0 = Some (0, 0)"
    using a(2) ast_rep_sel(4) [OF a(2)] by (auto simp: ast_ok_def)
  then show ?thesis using balance_proof_verifies [of demo_hasher a 0 0 0] a(1) by blast
qed

text \<open>
  No account is ever fresh: \<^verbatim>\<open>AccountStateTree::new\<close> already stores the reserved asset, so
  \<^verbatim>\<open>is_fresh\<close>, which asks for an empty AST, is false of every newly created account and of
  every account with a well-formed AST.
\<close>

theorem no_account_is_fresh:
  "(\<exists>acc. new_with P private_id subpool = Inr acc \<and> ast_ok P (ast acc) \<and> nonce acc = 0 \<and> \<not> is_fresh acc)
    \<and> (ast_ok P (ast other) \<longrightarrow> \<not> is_fresh other)"
proof -
  obtain a where a: "ast_new P = Inr a" "ast_rep P a [(0, 0)]" using ast_new_rep by blast
  have size: "ast_ok P b \<Longrightarrow> 0 < ast_size b" for b
    using ast_rep_sel(2) by (fastforce simp: ast_ok_def)
  have "ast_ok P a" using a(2) by (auto simp: ast_ok_def)
  with size a(1) show ?thesis by (auto simp: new_with_def is_fresh_def)
qed

theorem no_account_is_fresh_witness:
  "\<exists>acc. new_with demo_hasher (1, 2) 7 = Inr acc \<and> \<not> is_fresh acc"
  using no_account_is_fresh [of demo_hasher "(1, 2)" 7] by blast

text \<open>
  The account commitment encodes its fields injectively: two accounts with the same Poseidon
  input have the same identifier, subpool, AST root, nonce, consume flag and committed keys.
\<close>

theorem commitment_input_injective:
  assumes "commitment_input acc r k = commitment_input acc' r' k'"
  shows "private_identifier acc = private_identifier acc' \<and> subpool_id acc = subpool_id acc' \<and> r = r'
    \<and> nonce acc = nonce acc' \<and> spend_pk_or_default acc = spend_pk_or_default acc'
    \<and> consume_config acc = consume_config acc' \<and> k = k'"
proof -
  have "pk_elems a = pk_elems b \<longleftrightarrow> a = b" for a b by (cases a; cases b) simp
  then show ?thesis
    using assms
    by (cases r; cases r'; cases "spend_pk_or_default acc"; cases "spend_pk_or_default acc'")
       (simp add: commitment_input_def private_id_elems_def prod_eq_iff split: if_splits)
qed

theorem commitment_input_injective_witness:
  "\<exists>acc. commitment_input acc ZERO_hash DEFAULT_SPEND_AUTH_PK
     \<noteq> commitment_input (acc\<lparr>nonce := 1\<rparr>) ZERO_hash DEFAULT_SPEND_AUTH_PK"
proof -
  let ?acc = "\<lparr>private_identifier = (1, 2), subpool_id = 3, nonce = 0, spend_pk = None,
    consume_config = False, consume_pk = None,
    ast = \<lparr>tree = merkle_tree_new (hash_output_hash demo_hasher) 10, assets = Map.empty\<rparr>\<rparr>"
  have "commitment_input ?acc ZERO_hash DEFAULT_SPEND_AUTH_PK
     \<noteq> commitment_input (?acc\<lparr>nonce := 1\<rparr>) ZERO_hash DEFAULT_SPEND_AUTH_PK"
    using commitment_input_injective [of ?acc ZERO_hash DEFAULT_SPEND_AUTH_PK "?acc\<lparr>nonce := 1\<rparr>"
        ZERO_hash DEFAULT_SPEND_AUTH_PK] by auto
  then show ?thesis by blast
qed

text \<open>
  A saved asset map can never be loaded again: every AST tracks the reserved asset 0, the
  reconstruction inserts each saved entry, and inserting asset 0 is an error.
\<close>

theorem saved_asset_map_never_reloads:
  assumes "ast_ok P a" and "set entries = {(x, i, v). amount_for a x = Some (i, v)}"
  shows "new_from_asset_map P entries \<noteq> Inr a'"
proof
  assume run: "new_from_asset_map P entries = Inr a'"
  obtain es where "ast_rep P a ((0, 0) # es)" using assms(1) by (auto simp: ast_ok_def)
  then have "(0, 0, 0) \<in> set entries" using assms(2) ast_rep_sel(4) by simp
  moreover obtain a0 where "for_each (\<lambda>(asset, _, amount). insert_asset P asset amount)
      (sort_key (\<lambda>(_, leaf_index, _). leaf_index) entries) a0 = Inr a'"
    using run by (auto simp: new_from_asset_map_def Let_def bind_r_eq_Inr)
  ultimately obtain s1 s2 where "insert_asset P 0 0 s1 = Inr s2"
    using for_each_all_ran [where x = "(0, 0, 0)"] by fastforce
  then show False by (simp add: insert_asset_def)
qed

theorem saved_asset_map_never_reloads_witness:
  "\<forall>a'. new_from_asset_map demo_hasher [(0, 0, 0)] \<noteq> Inr a'"
proof -
  obtain a where a: "ast_rep demo_hasher a [(0, 0)]" using ast_new_rep by blast
  have "ast_ok demo_hasher a" using a by (auto simp: ast_ok_def)
  moreover have "set [(0, 0, 0)] = {(x, i, v). amount_for a x = Some (i, v)}"
    using ast_rep_sel(4) [OF a] by (auto split: if_splits)
  ultimately show ?thesis using saved_asset_map_never_reloads [of demo_hasher a "[(0, 0, 0)]"] by blast
qed

text \<open>
  An address survives the trip through its byte and hex encodings: with a hex codec that
  decodes what it encodes to two characters per byte, \<^verbatim>\<open>from_hex\<close> of \<^verbatim>\<open>to_hex\<close> is the
  address itself when its field elements are canonical.
\<close>

theorem address_roundtrip:
  assumes "canonical (addr_subpool_id ad)" and "canonical_hash (addr_public_id ad)"
    and "\<And>b. hex_decode (hex_encode b) = Some b" and "\<And>b. length (hex_encode b) = 2 * length b"
  shows "address_from_bytes (address_to_bytes ad) = Inr ad
    \<and> address_from_hex hex_decode (address_to_hex hex_encode ad) = Inr ad"
proof -
  obtain a b c d where h: "addr_public_id ad = HashOutput a b c d" by (cases "addr_public_id ad")
  then have can: "canonical a" "canonical b" "canonical c" "canonical d"
    using assms(2) by (simp_all add: canonical_hash_def)
  have "address_from_bytes (address_to_bytes ad) = Inr ad"
    using can assms(1) h
    by (cases ad) (simp add: address_from_bytes_def address_to_bytes_def from_canonical_u64_def upt_04
        slice_at_def hash_of_def)
  moreover have "length (address_to_bytes ad) = 40"
    by (simp add: address_to_bytes_def h)
  ultimately show ?thesis
    using assms(3,4) by (simp add: address_from_hex_def address_to_hex_def)
qed

theorem address_roundtrip_witness:
  "address_from_hex (\<lambda>s. Some (map (\<lambda>c. of_nat (of_char c)) (take (length s div 2) s)))
     (address_to_hex (\<lambda>b. map (\<lambda>x. char_of (unat x)) (b @ b))
        \<lparr>addr_subpool_id = 3, addr_public_id = HashOutput 1 2 3 4\<rparr>)
   = Inr \<lparr>addr_subpool_id = 3, addr_public_id = HashOutput 1 2 3 4\<rparr>"
proof -
  have "of_nat (of_char (char_of (unat b) :: char)) = (b :: u8)" for b
  proof -
    have "unat b < 256" using unsigned_less [where 'a = nat, of b] by simp
    then show ?thesis by simp
  qed
  then show ?thesis
    using address_roundtrip [of "\<lparr>addr_subpool_id = 3, addr_public_id = HashOutput 1 2 3 4\<rparr>"
        "\<lambda>s. Some (map (\<lambda>c. of_nat (of_char c)) (take (length s div 2) s))"
        "\<lambda>b. map (\<lambda>x. char_of (unat x)) (b @ b)"]
    by (simp add: canonical_def canonical_hash_def GOLDILOCKS_PRIME_def o_def)
qed

end
