(* ===== verification/Pool_Config.thy ===== *)
theory Pool_Config
  imports Account
begin

section \<open>Pool configuration\<close>

text \<open>
  \<^verbatim>\<open>doxa-client/src/pool_config.rs\<close>: the main pool configuration tree, whose position
  \<open>subpool_id\<close> holds the commitment to a subpool's authority key, and the proofs taken from it.
  Its abstraction is the list of subpool roots inserted so far. plonky2's \<^verbatim>\<open>two_to_one\<close> is
  the argument \<open>T\<close>.
\<close>

type_synonym compressor = "hash_output \<Rightarrow> hash_output \<Rightarrow> hash_output"

definition pubkey_commit :: "hasher \<Rightarrow> pubkey \<Rightarrow> hash_output" where
  "pubkey_commit P pk = P (pk_elems pk)"

record subpool_config =
  approval_key :: pubkey

definition subpool_commitment :: "hasher \<Rightarrow> subpool_config \<Rightarrow> hash_output" where
  "subpool_commitment P c = pubkey_commit P (approval_key c)"

definition main_pool_leaf_commit :: "compressor \<Rightarrow> hash_output \<Rightarrow> felt \<Rightarrow> hash_output" where
  "main_pool_leaf_commit T subpool_config_comm sid = T (HashOutput sid 0 0 0) subpool_config_comm"

record main_pool_config_tree =
  inner :: "hash_output merkle_tree"
  leaf_index_map :: "hash_output \<rightharpoonup> nat"

datatype pool_error = Pool_tree tree_error | Reserved_subpool | Not_sequential | Leaf_not_found

definition main_pool_new :: "hasher \<Rightarrow> main_pool_config_tree" where
  "main_pool_new P =
     \<lparr>inner = merkle_tree_new (hash_output_hash P) MAIN_POOL_CONFIG_DEPTH, leaf_index_map = Map.empty\<rparr>"

definition main_pool_root :: "hasher \<Rightarrow> main_pool_config_tree \<Rightarrow> hash_output tree_result" where
  "main_pool_root P c = root (hash_output_hash P) (inner c)"

text \<open>The digest stored for a subpool: an uninitialised subpool is the zero leaf.\<close>

definition subpool_digest :: "compressor \<Rightarrow> felt \<Rightarrow> hash_output \<Rightarrow> hash_output" where
  "subpool_digest T sid subpool_root =
     (if subpool_root = ZERO_hash then ZERO_hash else main_pool_leaf_commit T subpool_root sid)"

definition insert_subpool_at_position ::
  "hasher \<Rightarrow> compressor \<Rightarrow> felt \<Rightarrow> hash_output \<Rightarrow> main_pool_config_tree \<Rightarrow>
     (pool_error, main_pool_config_tree) result" where
  "insert_subpool_at_position P T sid subpool_root c =
     (let id = unat (to_canonical_u64 sid) in
      bind_r (ensure (0 < id) Reserved_subpool) (\<lambda>_.
      bind_r (if id = 1 then
                (if num_leaves (inner c) = 0
                 then bind_r (map_err Pool_tree (insert_tree (hash_output_hash P) ZERO_hash (inner c)))
                   (\<lambda>(_, t). Inr t)
                 else Inr (inner c))
              else bind_r (ensure (num_leaves (inner c) = id) Not_sequential) (\<lambda>_. Inr (inner c))) (\<lambda>t.
      let digest = subpool_digest T sid subpool_root in
      bind_r (map_err Pool_tree (insert_tree (hash_output_hash P) digest t)) (\<lambda>(inserted_at, t).
      bind_r (assert_r (inserted_at = id)) (\<lambda>_.
        Inr \<lparr>inner = t, leaf_index_map =
          (if digest \<noteq> ZERO_hash then (leaf_index_map c)(digest \<mapsto> id) else leaf_index_map c)\<rparr>)))))"

definition subpool_proof ::
  "hasher \<Rightarrow> compressor \<Rightarrow> main_pool_config_tree \<Rightarrow> felt \<Rightarrow> hash_output \<Rightarrow>
     (pool_error, hash_output merkle_proof) result" where
  "subpool_proof P T c sid subpool_config_comm =
     (if subpool_config_comm = ZERO_hash
      then map_err Pool_tree
        (merkle_proof (hash_output_hash P) (inner c) (unat (to_canonical_u64 sid)))
      else bind_r (ok_or (leaf_index_map c (main_pool_leaf_commit T subpool_config_comm sid)) Leaf_not_found)
        (\<lambda>index. map_err Pool_tree (merkle_proof (hash_output_hash P) (inner c) index)))"

record subpool_full_proof =
  main_pool_proof :: "hash_output merkle_proof"
  sp_config :: subpool_config
  sp_id :: felt

definition full_subpool_proof ::
  "hasher \<Rightarrow> compressor \<Rightarrow> main_pool_config_tree \<Rightarrow> subpool_config \<Rightarrow> felt \<Rightarrow>
     (pool_error, subpool_full_proof) result" where
  "full_subpool_proof P T c subpool sid =
     bind_r (subpool_proof P T c sid (subpool_commitment P subpool)) (\<lambda>p.
       Inr \<lparr>main_pool_proof = p, sp_config = \<lparr>approval_key = approval_key subpool\<rparr>, sp_id = sid\<rparr>)"

definition subpool_full_proof_default :: subpool_full_proof where
  "subpool_full_proof_default =
     \<lparr>main_pool_proof = \<lparr>proof_leaf = ZERO_hash,
        siblings = replicate MAIN_POOL_CONFIG_DEPTH ZERO_hash,
        path = replicate MAIN_POOL_CONFIG_DEPTH False, pos = 0, proof_num_leaves = 0,
        proof_root = ZERO_hash\<rparr>,
      sp_config = \<lparr>approval_key = DEFAULT_SPEND_AUTH_PK\<rparr>, sp_id = 0\<rparr>"

subsection \<open>The list of subpool roots a configuration tree stands for\<close>

definition pool_leaves :: "compressor \<Rightarrow> hash_output list \<Rightarrow> hash_output list" where
  "pool_leaves T rs = (if rs = [] then []
     else ZERO_hash # map (\<lambda>(i, r). subpool_digest T (of_nat i) r) (enumerate 1 rs))"

definition pool_rep :: "hasher \<Rightarrow> compressor \<Rightarrow> main_pool_config_tree \<Rightarrow> hash_output list \<Rightarrow> bool" where
  "pool_rep P T c rs \<longleftrightarrow>
     inner c = canonical_tree (hash_output_hash P) MAIN_POOL_CONFIG_DEPTH (pool_leaves T rs)
     \<and> length rs < 2 ^ MAIN_POOL_CONFIG_DEPTH
     \<and> (\<forall>d i. leaf_index_map c d = Some i \<longrightarrow> i < length (pool_leaves T rs) \<and> pool_leaves T rs ! i = d)
     \<and> (\<forall>d \<in> set (pool_leaves T rs). d \<noteq> ZERO_hash \<longrightarrow> leaf_index_map c d \<noteq> None)"

lemma config_depth_bounds [simp]: "MAIN_POOL_CONFIG_DEPTH < 64" "0 < MAIN_POOL_CONFIG_DEPTH"
  by (simp_all add: MAIN_POOL_CONFIG_DEPTH_def)

lemma length_pool_leaves: "length (pool_leaves T rs) = (if rs = [] then 0 else Suc (length rs))"
  by (simp add: pool_leaves_def)

lemma pool_leaves_snoc:
  "pool_leaves T (rs @ [r]) =
     (if rs = [] then [ZERO_hash] else pool_leaves T rs)
       @ [subpool_digest T (of_nat (Suc (length rs))) r]"
  by (simp add: pool_leaves_def enumerate_append_eq)

lemma nth_pool_leaves:
  "i < length rs \<Longrightarrow> pool_leaves T rs ! Suc i = subpool_digest T (of_nat (Suc i)) (rs ! i)"
  by (auto simp: pool_leaves_def nth_enumerate_eq)

lemma main_pool_new_rep: "pool_rep P T (main_pool_new P) []"
  by (simp add: pool_rep_def main_pool_new_def hash_output.new_canonical pool_leaves_def)

text \<open>The effect of a sequential insert on the leaves and the index map.\<close>

lemma pool_rep_insert:
  fixes r :: hash_output
  assumes rep: "pool_rep P T c rs" and room: "Suc (length rs) < 2 ^ MAIN_POOL_CONFIG_DEPTH"
  defines "digest \<equiv> subpool_digest T (of_nat (Suc (length rs))) r"
  shows "pool_rep P T \<lparr>inner = canonical_tree (hash_output_hash P) MAIN_POOL_CONFIG_DEPTH (pool_leaves T (rs @ [r])),
     leaf_index_map = (if digest \<noteq> ZERO_hash then (leaf_index_map c)(digest \<mapsto> Suc (length rs))
       else leaf_index_map c)\<rparr> (rs @ [r])"
proof -
  let ?old = "pool_leaves T rs" and ?new = "pool_leaves T (rs @ [r])"
  have new: "?new = (if rs = [] then [ZERO_hash] else ?old) @ [digest]"
    by (simp add: pool_leaves_snoc digest_def)
  have len: "length (if rs = [] then [ZERO_hash] else ?old) = Suc (length rs)"
    by (simp add: length_pool_leaves)
  have m: "leaf_index_map c d = Some i \<Longrightarrow> i < length ?old \<and> ?old ! i = d" for d i
    using rep by (simp add: pool_rep_def)
  then have m': "leaf_index_map c d = Some i \<Longrightarrow> rs \<noteq> []" for d i
    by (fastforce simp: length_pool_leaves)
  have m'': "leaf_index_map c d = Some i \<Longrightarrow> i < Suc (Suc (length rs))" for d i
    using m [of d i] by (auto simp: length_pool_leaves split: if_splits)
  have dom: "d \<in> set ?old \<Longrightarrow> d \<noteq> ZERO_hash \<Longrightarrow> leaf_index_map c d \<noteq> None" for d
    using rep by (simp add: pool_rep_def)
  have "?new ! Suc (length rs) = digest" using len by (simp add: new nth_append)
  moreover have "i < length ?old \<Longrightarrow> rs \<noteq> [] \<Longrightarrow> ?new ! i = ?old ! i" for i
    by (simp add: new nth_append)
  moreover have "length ?new = Suc (Suc (length rs))" using len by (simp add: new)
  ultimately show ?thesis
    using room m m' m'' dom
    by (auto simp: pool_rep_def new length_pool_leaves split: if_splits)
qed

lemma insert_subpool_rep:
  assumes "pool_rep P T c rs" and "Suc (length rs) < 2 ^ MAIN_POOL_CONFIG_DEPTH"
    and "unat (to_canonical_u64 sid) = Suc (length rs)" and "canonical sid"
  shows "\<exists>c'. insert_subpool_at_position P T sid r c = Inr c' \<and> pool_rep P T c' (rs @ [r])"
proof -
  have sid: "sid = of_nat (Suc (length rs))"
    using assms(3,4) by (metis of_nat_unat ucast_id to_canonical_canonical)
  let ?c' = "\<lparr>inner = canonical_tree (hash_output_hash P) MAIN_POOL_CONFIG_DEPTH (pool_leaves T (rs @ [r])),
     leaf_index_map = (if subpool_digest T sid r \<noteq> ZERO_hash
       then (leaf_index_map c)(subpool_digest T sid r \<mapsto> Suc (length rs)) else leaf_index_map c)\<rparr>"
  have inner: "inner c = canonical_tree (hash_output_hash P) MAIN_POOL_CONFIG_DEPTH (pool_leaves T rs)"
    using assms(1) by (simp add: pool_rep_def)
  have "insert_subpool_at_position P T sid r c = Inr ?c'"
    using assms(2) assms(3)
    by (cases "rs = []")
       (simp_all add: insert_subpool_at_position_def inner length_pool_leaves pool_leaves_snoc
         hash_output.insert_canonical Let_def sid pool_leaves_def [of T "[]"] pool_leaves_def [of T "[r]"])
  moreover have "pool_rep P T ?c' (rs @ [r])"
    using pool_rep_insert [OF assms(1,2), of r] unfolding sid .
  ultimately show ?thesis by blast
qed

lemma subpool_proof_rep:
  assumes rep: "pool_rep P T c rs" and i: "i < length rs" and sid: "sid = of_nat (Suc i)"
    and nz: "rs ! i \<noteq> ZERO_hash \<Longrightarrow> main_pool_leaf_commit T (rs ! i) sid \<noteq> ZERO_hash"
  shows "\<exists>p. subpool_proof P T c sid (rs ! i) = Inr p \<and> verify_proof (hash_output_hash P) p
    \<and> proof_leaf p = subpool_digest T sid (rs ! i) \<and> main_pool_root P c = Inr (proof_root p)"
proof -
  let ?ls = "pool_leaves T rs" and ?d = "subpool_digest T sid (rs ! i)"
  have inner: "inner c = canonical_tree (hash_output_hash P) MAIN_POOL_CONFIG_DEPTH ?ls"
    and len: "length rs < 2 ^ MAIN_POOL_CONFIG_DEPTH" using rep by (simp_all add: pool_rep_def)
  have fit: "length ?ls \<le> 2 ^ MAIN_POOL_CONFIG_DEPTH" "length ?ls = Suc (length rs)"
    using len i by (auto simp: length_pool_leaves)
  have proofs: "\<exists>p. merkle_proof (hash_output_hash P) (inner c) j = Inr p \<and> verify_proof (hash_output_hash P) p
      \<and> proof_leaf p = ?ls ! j \<and> main_pool_root P c = Inr (proof_root p)" if "j < length ?ls" for j
    using hash_output.merkle_proof_canonical [of MAIN_POOL_CONFIG_DEPTH ?ls j P] that fit
    by (auto simp: inner leaf_at_def main_pool_root_def hash_output.root_canonical)
  have leaf_i: "?ls ! Suc i = ?d" using nth_pool_leaves [OF i, of T] sid by simp
  have small: "Suc i < unat GOLDILOCKS_PRIME"
    using i len by (simp add: unat_PRIME MAIN_POOL_CONFIG_DEPTH_def)
  then have "unat sid = Suc i" by (simp add: sid unat_of_nat unat_PRIME del: of_nat_Suc)
  then have id: "unat (to_canonical_u64 sid) = Suc i"
    using small by (simp add: canonical_unat)
  show ?thesis
  proof (cases "rs ! i = ZERO_hash")
    case True
    with proofs [of "Suc i"] leaf_i fit i id show ?thesis by (auto simp: subpool_proof_def)
  next
    case False
    then have d: "?d = main_pool_leaf_commit T (rs ! i) sid" "?d \<noteq> ZERO_hash"
      using nz by (simp_all add: subpool_digest_def)
    moreover have "?d \<in> set ?ls"
      using leaf_i i fit(2) by (metis Suc_less_eq nth_mem)
    ultimately obtain j where j: "leaf_index_map c ?d = Some j" "j < length ?ls" "?ls ! j = ?d"
      using rep unfolding pool_rep_def by blast
    with proofs [of j] d False show ?thesis by (auto simp: subpool_proof_def)
  qed
qed

text \<open>Every branch of an insert.\<close>

lemma insert_subpool_branches:
  assumes "pool_rep P T c rs" and "Suc (length rs) < 2 ^ MAIN_POOL_CONFIG_DEPTH" and "canonical sid"
  shows "let id = unat sid in
    if id = 0 then insert_subpool_at_position P T sid r c = Inl (Err Reserved_subpool)
    else if id = Suc (length rs)
      then \<exists>c'. insert_subpool_at_position P T sid r c = Inr c' \<and> pool_rep P T c' (rs @ [r])
    else if id = 1 then insert_subpool_at_position P T sid r c = Inl (Panic Assertion_failed)
    else insert_subpool_at_position P T sid r c = Inl (Err Not_sequential)"
proof -
  have inner: "inner c = canonical_tree (hash_output_hash P) MAIN_POOL_CONFIG_DEPTH (pool_leaves T rs)"
    using assms(1) by (simp add: pool_rep_def)
  show ?thesis
  proof (cases "unat sid = Suc (length rs)")
    case True
    with insert_subpool_rep [OF assms(1,2), of sid r] assms(3) show ?thesis by simp
  next
    case False
    then show ?thesis
      using assms(2,3)
      by (auto simp: insert_subpool_at_position_def inner length_pool_leaves Let_def
          hash_output.insert_canonical)
  qed
qed

subsection \<open>Properties\<close>

text \<open>
  Inserting a subpool, on every branch: the next id in sequence appends its digest at exactly
  that position; id 0 is rejected; an id above 1 out of sequence is rejected; and id 1, which is
  documented as always allowed, panics once any subpool exists, because the digest then lands at
  the end of the tree.
\<close>

theorem insert_subpool_all_branches:
  assumes "pool_rep P T c rs" and "Suc (length rs) < 2 ^ MAIN_POOL_CONFIG_DEPTH" and "canonical sid"
  shows "let id = unat sid in
    if id = 0 then insert_subpool_at_position P T sid r c = Inl (Err Reserved_subpool)
    else if id = Suc (length rs)
      then \<exists>c'. insert_subpool_at_position P T sid r c = Inr c' \<and> pool_rep P T c' (rs @ [r])
    else if id = 1 then insert_subpool_at_position P T sid r c = Inl (Panic Assertion_failed)
    else insert_subpool_at_position P T sid r c = Inl (Err Not_sequential)"
  using insert_subpool_branches [OF assms] .

theorem insert_subpool_all_branches_witness:
  "\<exists>c'. insert_subpool_at_position demo_hasher (\<lambda>l r. demo_hasher (elems l @ elems r)) 1 (HashOutput 9 9 9 9)
      (main_pool_new demo_hasher) = Inr c'"
  using insert_subpool_all_branches [of demo_hasher "\<lambda>l r. demo_hasher (elems l @ elems r)"
      "main_pool_new demo_hasher" "[]" 1 "HashOutput 9 9 9 9", OF main_pool_new_rep]
  by (auto simp: Let_def MAIN_POOL_CONFIG_DEPTH_def canonical_def GOLDILOCKS_PRIME_def)

text \<open>
  Every inserted subpool has a configuration proof that verifies against the current main pool
  root and opens that subpool's digest, provided the digest of an initialised subpool is not the
  reserved zero value.
\<close>

theorem subpool_proof_verifies:
  assumes "pool_rep P T c rs" and "i < length rs"
    and "rs ! i \<noteq> ZERO_hash \<Longrightarrow> main_pool_leaf_commit T (rs ! i) (of_nat (Suc i)) \<noteq> ZERO_hash"
  shows "\<exists>p. subpool_proof P T c (of_nat (Suc i)) (rs ! i) = Inr p
    \<and> verify_proof (hash_output_hash P) p
    \<and> proof_leaf p = subpool_digest T (of_nat (Suc i)) (rs ! i) \<and> main_pool_root P c = Inr (proof_root p)"
  using subpool_proof_rep [OF assms(1,2) refl] assms(3) by blast

theorem subpool_proof_verifies_witness:
  "\<exists>c p. subpool_proof demo_hasher (\<lambda>l r. demo_hasher (elems l @ elems r)) c 1 (HashOutput 9 9 9 9) = Inr p
    \<and> verify_proof (hash_output_hash demo_hasher) p"
proof -
  let ?T = "\<lambda>l r. demo_hasher (elems l @ elems r)"
  have one: "canonical (1 :: felt)" by (simp add: canonical_def GOLDILOCKS_PRIME_def)
  then obtain c where c: "pool_rep demo_hasher ?T c ([] @ [HashOutput 9 9 9 9])"
    using insert_subpool_rep [of demo_hasher ?T "main_pool_new demo_hasher" "[]" 1, OF main_pool_new_rep]
    by (force simp: MAIN_POOL_CONFIG_DEPTH_def)
  have "main_pool_leaf_commit ?T (HashOutput 9 9 9 9) 1 \<noteq> ZERO_hash"
    by (simp add: main_pool_leaf_commit_def demo_hasher_def ZERO_hash_def)
  then show ?thesis
    using subpool_proof_verifies [OF c, of 0] by auto
qed

end
