(* ===== verification/Sync_State.thy ===== *)
theory Sync_State
  imports Pool_Config "HOL-Library.AList"
begin

section \<open>The state of the sync service\<close>

text \<open>
  \<^verbatim>\<open>doxa-state-sync/src/state.rs\<close>: the mirror of the contract's state tree, the batch
  subtrees with the location of every commitment, the pending and confirmed batches and
  nullifiers, the subpool roots and the deposits. Hash maps are maps, hash sets are sets; those
  that the code iterates over or drains (subpool roots, buffered assignments, deposits) are
  association lists. Block numbers,
  subpool ids and indices are natural numbers. A method that can fail after it changed the state
  returns its result together with the state it leaves behind.
\<close>

datatype deposit_status = Deposit_Pending | Deposit_Validated | Deposit_Withdrawn

record deposit_record =
  dr_note_commitment :: bytes
  dr_value :: u256
  dr_recipient :: bytes
  dr_status :: deposit_status
  dr_block :: nat
  dr_asset_id :: u256

record commitment_location =
  loc_pi :: bytes
  loc_index :: nat
  loc_confirmed :: bool

datatype batch_kind = Transaction | BridgeTx

record subpool_assigned_event =
  ev_subpool_id :: nat
  ev_owner :: bytes
  ev_block :: nat
  ev_log_index :: nat

record sync_state =
  state_tree :: "hash_output merkle_tree"
  batch_root_to_leaf_index :: "bytes \<rightharpoonup> nat"
  commitment_to_batch :: "hash_output \<rightharpoonup> commitment_location"
  confirmed_roots :: "hash_output set"
  pending_batch_leaves :: "bytes \<rightharpoonup> hash_output list"
  confirmed_batch_subtrees :: "bytes \<rightharpoonup> hash_output merkle_tree"
  pi_to_batch_root :: "bytes \<rightharpoonup> hash_output"
  pending_tx_batches :: "bytes \<rightharpoonup> bytes"
  pending_bridge_tx_batches :: "bytes \<rightharpoonup> bytes"
  confirmed_tx_batches :: "bytes set"
  confirmed_bridge_tx_batches :: "bytes set"
  confirmed_nullifiers :: "hash_output set"
  pending_nullifiers :: "hash_output \<rightharpoonup> bytes"
  config_tree :: main_pool_config_tree
  subpool_roots :: "(nat \<times> hash_output) list"
  pending_subpool_assignments :: "(nat \<times> subpool_assigned_event) list"
  next_expected_subpool_id :: nat
  deposits :: "(bytes \<times> deposit_record) list"
  last_synced_block :: nat

datatype sync_error =
    Sync_tree tree_error | Sync_codec codec_error | Sync_rpc string | Preimage_too_short
  | Submission_not_found | Config_depth_mismatch | Value_overflow

definition BATCH_SUBTREE_DEPTH :: nat where "BATCH_SUBTREE_DEPTH = 9"

definition sync_state_new :: "hasher \<Rightarrow> nat \<Rightarrow> (sync_error, sync_state) result" where
  "sync_state_new P tree_depth =
     (let t = merkle_tree_new (hash_output_hash P) tree_depth in
      bind_r (map_err Sync_tree (root (hash_output_hash P) t)) (\<lambda>genesis_root. Inr
        \<lparr>state_tree = t, batch_root_to_leaf_index = Map.empty, commitment_to_batch = Map.empty,
         confirmed_roots = {genesis_root}, pending_batch_leaves = Map.empty,
         confirmed_batch_subtrees = Map.empty, pi_to_batch_root = Map.empty,
         pending_tx_batches = Map.empty, pending_bridge_tx_batches = Map.empty,
         confirmed_tx_batches = {}, confirmed_bridge_tx_batches = {},
         confirmed_nullifiers = {}, pending_nullifiers = Map.empty,
         config_tree = main_pool_new P, subpool_roots = [],
         pending_subpool_assignments = [], next_expected_subpool_id = 1,
         deposits = [], last_synced_block = 0\<rparr>))"

definition insert_state_tree_leaf ::
  "hasher \<Rightarrow> hash_output \<Rightarrow> sync_state \<Rightarrow> (sync_error, nat \<times> sync_state) result" where
  "insert_state_tree_leaf P batch_root s =
     bind_r (map_err Sync_tree (insert_tree (hash_output_hash P) batch_root (state_tree s)))
       (\<lambda>(index, t). Inr (index, s\<lparr>state_tree := t,
          batch_root_to_leaf_index := (batch_root_to_leaf_index s)(hash_to_bytes32 batch_root \<mapsto> index)\<rparr>))"

text \<open>The subtree of a batch, built leaf by leaf; its root is only compared for a warning.\<close>

definition build_subtree :: "hasher \<Rightarrow> hash_output list \<Rightarrow> (sync_error, hash_output merkle_tree) result" where
  "build_subtree P ls =
     bind_r (map_err Sync_tree (for_each (\<lambda>l t. bind_r (insert_tree (hash_output_hash P) l t)
         (\<lambda>(_, t). Inr t)) ls (merkle_tree_new (hash_output_hash P) BATCH_SUBTREE_DEPTH))) (\<lambda>subtree.
     bind_r (map_err Sync_tree (root (hash_output_hash P) subtree)) (\<lambda>_. Inr subtree))"

text \<open>Mark the commitments of a batch confirmed.\<close>

definition confirm_commitments :: "bytes \<Rightarrow> sync_state \<Rightarrow> sync_state" where
  "confirm_commitments pi s = s\<lparr>commitment_to_batch := (\<lambda>c.
     map_option (\<lambda>loc. if loc_pi loc = pi then loc\<lparr>loc_confirmed := True\<rparr> else loc)
       (commitment_to_batch s c))\<rparr>"

definition confirm_pending_batch :: "bytes \<Rightarrow> sync_state \<Rightarrow> sync_state" where
  "confirm_pending_batch pi s =
     (if pending_tx_batches s pi \<noteq> None
      then s\<lparr>pending_tx_batches := (pending_tx_batches s)(pi := None),
             confirmed_tx_batches := confirmed_tx_batches s \<union> {pi}\<rparr>
      else if pending_bridge_tx_batches s pi \<noteq> None
      then s\<lparr>pending_bridge_tx_batches := (pending_bridge_tx_batches s)(pi := None),
             confirmed_bridge_tx_batches := confirmed_bridge_tx_batches s \<union> {pi}\<rparr>
      else s)"

definition confirm_nullifiers :: "bytes \<Rightarrow> sync_state \<Rightarrow> sync_state" where
  "confirm_nullifiers pi s =
     s\<lparr>pending_nullifiers := (\<lambda>n. if pending_nullifiers s n = Some pi then None else pending_nullifiers s n),
       confirmed_nullifiers := confirmed_nullifiers s \<union> {n. pending_nullifiers s n = Some pi}\<rparr>"

definition finish_confirm :: "bytes \<Rightarrow> hash_output \<Rightarrow> hash_output \<Rightarrow> sync_state \<Rightarrow> sync_state" where
  "finish_confirm pi batch_root new_tree_root s =
     (let s = s\<lparr>pi_to_batch_root := (pi_to_batch_root s)(pi \<mapsto> batch_root)\<rparr>;
          s = confirm_nullifiers pi (confirm_pending_batch pi (confirm_commitments pi s))
      in s\<lparr>confirmed_roots := confirmed_roots s \<union> {new_tree_root}\<rparr>)"

definition confirm_batch ::
  "hasher \<Rightarrow> bytes \<Rightarrow> hash_output \<Rightarrow> hash_output \<Rightarrow> sync_state \<Rightarrow>
     (sync_error, unit) result \<times> sync_state" where
  "confirm_batch P pi batch_root new_tree_root s =
     (case insert_state_tree_leaf P batch_root s of
        Inl e \<Rightarrow> (Inl e, s)
      | Inr (_, s) \<Rightarrow>
          (case root (hash_output_hash P) (state_tree s) of
             Inl e \<Rightarrow> (map_err Sync_tree (Inl e), s)
           | Inr local_root \<Rightarrow>
               (case pending_batch_leaves s pi of
                  None \<Rightarrow> (Inr (), finish_confirm pi batch_root new_tree_root s)
                | Some ls \<Rightarrow>
                    let s = s\<lparr>pending_batch_leaves := (pending_batch_leaves s)(pi := None)\<rparr> in
                    (case build_subtree P ls of
                       Inl e \<Rightarrow> (Inl e, s)
                     | Inr subtree \<Rightarrow>
                         (Inr (), finish_confirm pi batch_root new_tree_root
                           (s\<lparr>confirmed_batch_subtrees := (confirmed_batch_subtrees s)(pi \<mapsto> subtree)\<rparr>))))))"

definition add_pending_commitment :: "hash_output \<Rightarrow> bytes \<Rightarrow> nat \<Rightarrow> sync_state \<Rightarrow> sync_state" where
  "add_pending_commitment commitment pi subtree_leaf_index s =
     (let ls = (case pending_batch_leaves s pi of Some ls \<Rightarrow> ls | None \<Rightarrow> replicate 512 ZERO_hash) in
      s\<lparr>commitment_to_batch := (commitment_to_batch s)(commitment \<mapsto>
          \<lparr>loc_pi = pi, loc_index = subtree_leaf_index, loc_confirmed = False\<rparr>),
        pending_batch_leaves := (pending_batch_leaves s)(pi \<mapsto>
          (if subtree_leaf_index < 512 then ls[subtree_leaf_index := commitment] else ls))\<rparr>)"

definition add_pending_nullifier :: "hash_output \<Rightarrow> bytes \<Rightarrow> sync_state \<Rightarrow> sync_state" where
  "add_pending_nullifier nullifier pi s =
     s\<lparr>pending_nullifiers := (pending_nullifiers s)(nullifier \<mapsto> pi)\<rparr>"

subsection \<open>Queries\<close>

datatype commitment_status =
    Commitment_Confirmed "hash_output merkle_proof" "hash_output merkle_proof"
  | Commitment_Pending bytes | Commitment_NotFound

datatype nullifier_status = Nullifier_Confirmed | Nullifier_Pending bytes | Nullifier_NotFound

datatype batch_status = Batch_Confirmed | Batch_Pending | Batch_NotFound

definition get_batch_root_for_commitment :: "sync_state \<Rightarrow> hash_output \<Rightarrow> hash_output option" where
  "get_batch_root_for_commitment s c =
     Option.bind (commitment_to_batch s c) (\<lambda>loc. pi_to_batch_root s (loc_pi loc))"

definition get_batch_subtree_proof ::
  "hasher \<Rightarrow> sync_state \<Rightarrow> hash_output \<Rightarrow> (sync_error, hash_output merkle_proof) result" where
  "get_batch_subtree_proof P s c =
     bind_r (ok_or (commitment_to_batch s c) Submission_not_found) (\<lambda>loc.
     bind_r (ok_or (confirmed_batch_subtrees s (loc_pi loc)) Submission_not_found) (\<lambda>subtree.
       map_err Sync_tree (merkle_proof (hash_output_hash P) subtree (loc_index loc))))"

text \<open>
  A failed lookup on the way falls through to \<open>Commitment_NotFound\<close>; a panic inside the
  proof construction is a panic of the query.
\<close>

definition get_commitment_status ::
  "hasher \<Rightarrow> sync_state \<Rightarrow> hash_output \<Rightarrow> (sync_error, commitment_status) result" where
  "get_commitment_status P s c =
     (case commitment_to_batch s c of
        None \<Rightarrow> Inr Commitment_NotFound
      | Some location \<Rightarrow>
          if \<not> loc_confirmed location then Inr (Commitment_Pending (loc_pi location))
          else (case get_batch_subtree_proof P s c of
             Inl (Panic p) \<Rightarrow> Inl (Panic p)
           | Inl (Err _) \<Rightarrow> Inr Commitment_NotFound
           | Inr batch_subtree_path \<Rightarrow>
               (case get_batch_root_for_commitment s c of
                  None \<Rightarrow> Inr Commitment_NotFound
                | Some batch_root \<Rightarrow>
                    (case batch_root_to_leaf_index s (hash_to_bytes32 batch_root) of
                       None \<Rightarrow> Inr Commitment_NotFound
                     | Some batch_leaf_index \<Rightarrow>
                         (case merkle_proof (hash_output_hash P) (state_tree s) batch_leaf_index of
                            Inl (Panic p) \<Rightarrow> Inl (Panic p)
                          | Inl (Err _) \<Rightarrow> Inr Commitment_NotFound
                          | Inr state_tree_path \<Rightarrow>
                              Inr (Commitment_Confirmed batch_subtree_path state_tree_path))))))"

definition get_nullifier_status :: "sync_state \<Rightarrow> hash_output \<Rightarrow> nullifier_status" where
  "get_nullifier_status s n =
     (if n \<in> confirmed_nullifiers s then Nullifier_Confirmed
      else case pending_nullifiers s n of
        Some pi \<Rightarrow> Nullifier_Pending pi | None \<Rightarrow> Nullifier_NotFound)"

definition get_batch_status :: "sync_state \<Rightarrow> bytes \<Rightarrow> batch_kind \<Rightarrow> batch_status" where
  "get_batch_status s pi kind =
     (case kind of
        Transaction \<Rightarrow>
          if pi \<in> confirmed_tx_batches s then Batch_Confirmed
          else if pending_tx_batches s pi \<noteq> None then Batch_Pending else Batch_NotFound
      | BridgeTx \<Rightarrow>
          if pi \<in> confirmed_bridge_tx_batches s then Batch_Confirmed
          else if pending_bridge_tx_batches s pi \<noteq> None then Batch_Pending else Batch_NotFound)"

definition get_deposits_from_block :: "sync_state \<Rightarrow> nat \<Rightarrow> deposit_record list" where
  "get_deposits_from_block s from_block =
     filter (\<lambda>d. from_block \<le> dr_block d) (map snd (deposits s))"

subsection \<open>Confirming a batch\<close>

definition state_ok :: "hasher \<Rightarrow> sync_state \<Rightarrow> bool" where
  "state_ok P s \<longleftrightarrow> tree_ok (hash_output_hash P) (state_tree s)
     \<and> 0 < depth (state_tree s) \<and> depth (state_tree s) < 64
     \<and> (\<forall>pi ls. pending_batch_leaves s pi = Some ls \<longrightarrow> length ls = 512)"

lemma subtree_depth [simp]: "BATCH_SUBTREE_DEPTH < 64" "0 < BATCH_SUBTREE_DEPTH"
  "2 ^ BATCH_SUBTREE_DEPTH = (512 :: nat)"
  by (simp_all add: BATCH_SUBTREE_DEPTH_def)

lemma build_subtree_ok:
  "length ls \<le> 512 \<Longrightarrow> build_subtree P ls = Inr (canonical_tree (hash_output_hash P) BATCH_SUBTREE_DEPTH ls)"
  by (simp add: build_subtree_def hash_output.new_canonical hash_output.inserts_canonical
      hash_output.root_canonical)

lemma confirm_commitments_sel [simp]:
  "state_tree (confirm_commitments pi s) = state_tree s"
  "batch_root_to_leaf_index (confirm_commitments pi s) = batch_root_to_leaf_index s"
  "confirmed_roots (confirm_commitments pi s) = confirmed_roots s"
  "pending_batch_leaves (confirm_commitments pi s) = pending_batch_leaves s"
  "confirmed_batch_subtrees (confirm_commitments pi s) = confirmed_batch_subtrees s"
  "pi_to_batch_root (confirm_commitments pi s) = pi_to_batch_root s"
  "pending_tx_batches (confirm_commitments pi s) = pending_tx_batches s"
  "pending_bridge_tx_batches (confirm_commitments pi s) = pending_bridge_tx_batches s"
  "confirmed_tx_batches (confirm_commitments pi s) = confirmed_tx_batches s"
  "confirmed_bridge_tx_batches (confirm_commitments pi s) = confirmed_bridge_tx_batches s"
  "confirmed_nullifiers (confirm_commitments pi s) = confirmed_nullifiers s"
  "pending_nullifiers (confirm_commitments pi s) = pending_nullifiers s"
  "config_tree (confirm_commitments pi s) = config_tree s"
  "subpool_roots (confirm_commitments pi s) = subpool_roots s"
  "pending_subpool_assignments (confirm_commitments pi s) = pending_subpool_assignments s"
  "next_expected_subpool_id (confirm_commitments pi s) = next_expected_subpool_id s"
  "deposits (confirm_commitments pi s) = deposits s"
  "last_synced_block (confirm_commitments pi s) = last_synced_block s"
  by (simp_all add: confirm_commitments_def)

lemma confirm_pending_batch_sel [simp]:
  "state_tree (confirm_pending_batch pi s) = state_tree s"
  "batch_root_to_leaf_index (confirm_pending_batch pi s) = batch_root_to_leaf_index s"
  "commitment_to_batch (confirm_pending_batch pi s) = commitment_to_batch s"
  "confirmed_roots (confirm_pending_batch pi s) = confirmed_roots s"
  "pending_batch_leaves (confirm_pending_batch pi s) = pending_batch_leaves s"
  "confirmed_batch_subtrees (confirm_pending_batch pi s) = confirmed_batch_subtrees s"
  "pi_to_batch_root (confirm_pending_batch pi s) = pi_to_batch_root s"
  "confirmed_nullifiers (confirm_pending_batch pi s) = confirmed_nullifiers s"
  "pending_nullifiers (confirm_pending_batch pi s) = pending_nullifiers s"
  "config_tree (confirm_pending_batch pi s) = config_tree s"
  "subpool_roots (confirm_pending_batch pi s) = subpool_roots s"
  "pending_subpool_assignments (confirm_pending_batch pi s) = pending_subpool_assignments s"
  "next_expected_subpool_id (confirm_pending_batch pi s) = next_expected_subpool_id s"
  "deposits (confirm_pending_batch pi s) = deposits s"
  "last_synced_block (confirm_pending_batch pi s) = last_synced_block s"
  by (simp_all add: confirm_pending_batch_def)

lemma confirm_nullifiers_sel [simp]:
  "state_tree (confirm_nullifiers pi s) = state_tree s"
  "batch_root_to_leaf_index (confirm_nullifiers pi s) = batch_root_to_leaf_index s"
  "commitment_to_batch (confirm_nullifiers pi s) = commitment_to_batch s"
  "confirmed_roots (confirm_nullifiers pi s) = confirmed_roots s"
  "pending_batch_leaves (confirm_nullifiers pi s) = pending_batch_leaves s"
  "confirmed_batch_subtrees (confirm_nullifiers pi s) = confirmed_batch_subtrees s"
  "pi_to_batch_root (confirm_nullifiers pi s) = pi_to_batch_root s"
  "pending_tx_batches (confirm_nullifiers pi s) = pending_tx_batches s"
  "pending_bridge_tx_batches (confirm_nullifiers pi s) = pending_bridge_tx_batches s"
  "confirmed_tx_batches (confirm_nullifiers pi s) = confirmed_tx_batches s"
  "confirmed_bridge_tx_batches (confirm_nullifiers pi s) = confirmed_bridge_tx_batches s"
  "config_tree (confirm_nullifiers pi s) = config_tree s"
  "subpool_roots (confirm_nullifiers pi s) = subpool_roots s"
  "pending_subpool_assignments (confirm_nullifiers pi s) = pending_subpool_assignments s"
  "next_expected_subpool_id (confirm_nullifiers pi s) = next_expected_subpool_id s"
  "deposits (confirm_nullifiers pi s) = deposits s"
  "last_synced_block (confirm_nullifiers pi s) = last_synced_block s"
  by (simp_all add: confirm_nullifiers_def)

lemma confirm_ops_upd [simp]:
  "pending_tx_batches (confirm_pending_batch pi s) = (if pending_tx_batches s pi \<noteq> None
     then (pending_tx_batches s)(pi := None) else pending_tx_batches s)"
  "confirmed_tx_batches (confirm_pending_batch pi s) = (if pending_tx_batches s pi \<noteq> None
     then confirmed_tx_batches s \<union> {pi} else confirmed_tx_batches s)"
  "pending_bridge_tx_batches (confirm_pending_batch pi s) =
     (if pending_tx_batches s pi = None \<and> pending_bridge_tx_batches s pi \<noteq> None
      then (pending_bridge_tx_batches s)(pi := None) else pending_bridge_tx_batches s)"
  "confirmed_bridge_tx_batches (confirm_pending_batch pi s) =
     (if pending_tx_batches s pi = None \<and> pending_bridge_tx_batches s pi \<noteq> None
      then confirmed_bridge_tx_batches s \<union> {pi} else confirmed_bridge_tx_batches s)"
  "confirmed_nullifiers (confirm_nullifiers pi s) =
     confirmed_nullifiers s \<union> {n. pending_nullifiers s n = Some pi}"
  "pending_nullifiers (confirm_nullifiers pi s) n =
     (if pending_nullifiers s n = Some pi then None else pending_nullifiers s n)"
  "commitment_to_batch (confirm_commitments pi s) c =
     map_option (\<lambda>loc. if loc_pi loc = pi then loc\<lparr>loc_confirmed := True\<rparr> else loc)
       (commitment_to_batch s c)"
  by (simp_all add: confirm_pending_batch_def confirm_nullifiers_def confirm_commitments_def)

lemma finish_confirm_sel [simp]:
  "state_tree (finish_confirm pi br nr s) = state_tree s"
  "batch_root_to_leaf_index (finish_confirm pi br nr s) = batch_root_to_leaf_index s"
  "commitment_to_batch (finish_confirm pi br nr s) = commitment_to_batch (confirm_commitments pi s)"
  "pending_batch_leaves (finish_confirm pi br nr s) = pending_batch_leaves s"
  "confirmed_batch_subtrees (finish_confirm pi br nr s) = confirmed_batch_subtrees s"
  "pending_tx_batches (finish_confirm pi br nr s) = pending_tx_batches (confirm_pending_batch pi s)"
  "pending_bridge_tx_batches (finish_confirm pi br nr s) = pending_bridge_tx_batches (confirm_pending_batch pi s)"
  "confirmed_tx_batches (finish_confirm pi br nr s) = confirmed_tx_batches (confirm_pending_batch pi s)"
  "confirmed_bridge_tx_batches (finish_confirm pi br nr s) = confirmed_bridge_tx_batches (confirm_pending_batch pi s)"
  "confirmed_nullifiers (finish_confirm pi br nr s) = confirmed_nullifiers (confirm_nullifiers pi s)"
  "pending_nullifiers (finish_confirm pi br nr s) = pending_nullifiers (confirm_nullifiers pi s)"
  "config_tree (finish_confirm pi br nr s) = config_tree s"
  "subpool_roots (finish_confirm pi br nr s) = subpool_roots s"
  "pending_subpool_assignments (finish_confirm pi br nr s) = pending_subpool_assignments s"
  "next_expected_subpool_id (finish_confirm pi br nr s) = next_expected_subpool_id s"
  "deposits (finish_confirm pi br nr s) = deposits s"
  "last_synced_block (finish_confirm pi br nr s) = last_synced_block s"
  "pi_to_batch_root (finish_confirm pi br nr s) = (pi_to_batch_root s)(pi \<mapsto> br)"
  "confirmed_roots (finish_confirm pi br nr s) = confirmed_roots s \<union> {nr}"
  by (simp_all add: finish_confirm_def Let_def fun_eq_iff)

text \<open>
  The outcome of \<^verbatim>\<open>confirm_batch\<close>: on a full state tree nothing changes; otherwise the leaf
  is appended, the subtree built, and the bookkeeping done.
\<close>

lemma confirm_batch_cases:
  assumes "state_ok P s"
  shows "if num_leaves (state_tree s) < 2 ^ depth (state_tree s)
    then confirm_batch P pi br nr s = (Inr (), finish_confirm pi br nr
      (s\<lparr>state_tree := canonical_tree (hash_output_hash P) (depth (state_tree s)) (leaves (state_tree s) @ [br]),
         batch_root_to_leaf_index := (batch_root_to_leaf_index s)(hash_to_bytes32 br \<mapsto> num_leaves (state_tree s)),
         pending_batch_leaves := (pending_batch_leaves s)(pi := None),
         confirmed_batch_subtrees := (case pending_batch_leaves s pi of
             None \<Rightarrow> confirmed_batch_subtrees s
           | Some ls \<Rightarrow> (confirmed_batch_subtrees s)(pi \<mapsto>
               canonical_tree (hash_output_hash P) BATCH_SUBTREE_DEPTH ls))\<rparr>))
    else confirm_batch P pi br nr s = (Inl (Err (Sync_tree FullTree)), s)"
proof -
  obtain d ls where t: "state_tree s = canonical_tree (hash_output_hash P) d ls" "length ls \<le> 2 ^ d"
    "depth (state_tree s) = d" "leaves (state_tree s) = ls"
    using assms unfolding state_ok_def by (meson tree_okE)
  have d: "0 < d" "d < 64" using assms t(3) by (simp_all add: state_ok_def)
  have len: "pending_batch_leaves s pi = Some l \<Longrightarrow> length l = 512" for l
    using assms by (simp add: state_ok_def)
  have none: "pending_batch_leaves s pi = None \<Longrightarrow> (pending_batch_leaves s)(pi := None) = pending_batch_leaves s"
    by (simp add: fun_eq_iff)
  show ?thesis
    using d t(2) len none
    by (cases "pending_batch_leaves s pi")
       (auto simp: confirm_batch_def insert_state_tree_leaf_def t(1) hash_output.insert_canonical
         hash_output.root_canonical build_subtree_ok)
qed

lemma sync_state_new_ok:
  assumes "0 < d" and "d < 64"
  obtains s0 where "sync_state_new P d = Inr s0" "state_ok P s0"
    "state_tree s0 = canonical_tree (hash_output_hash P) d []" "pending_batch_leaves s0 = Map.empty"
    "commitment_to_batch s0 = Map.empty" "pending_nullifiers s0 = Map.empty" "confirmed_nullifiers s0 = {}"
    "subpool_roots s0 = []" "next_expected_subpool_id s0 = 1"
    "pending_subpool_assignments s0 = []" "last_synced_block s0 = 0"
  using assms that
  by (simp add: sync_state_new_def hash_output.new_canonical hash_output.root_canonical Let_def state_ok_def)

lemma confirm_batch_proofs:
  assumes "state_ok P s" and "num_leaves (state_tree s) < 2 ^ depth (state_tree s)"
    and "pending_batch_leaves s pi = Some ls" and "i < 512" and "ls ! i = c"
    and "commitment_to_batch s c = Some \<lparr>loc_pi = pi, loc_index = i, loc_confirmed = b\<rparr>"
    and "br = spec_root (hash_output_hash P) BATCH_SUBTREE_DEPTH ls"
  shows "\<exists>s' p q. confirm_batch P pi br nr s = (Inr (), s')
    \<and> get_commitment_status P s' c = Inr (Commitment_Confirmed p q)
    \<and> verify_proof (hash_output_hash P) p \<and> verify_proof (hash_output_hash P) q
    \<and> proof_leaf p = c \<and> proof_root p = br \<and> proof_leaf q = br
    \<and> root (hash_output_hash P) (state_tree s') = Inr (proof_root q)"
proof -
  let ?H = "hash_output_hash P" and ?d = "depth (state_tree s)" and ?L = "leaves (state_tree s)"
  have len: "length ls = 512" using assms(1,3) by (simp add: state_ok_def)
  have d: "0 < ?d" and fit: "length ?L < 2 ^ ?d"
    using assms(1,2) by (simp_all add: state_ok_def num_leaves_def)
  obtain p where p: "merkle_proof ?H (canonical_tree ?H BATCH_SUBTREE_DEPTH ls) i = Inr p" "verify_proof ?H p"
    "proof_leaf p = c" "proof_root p = br"
    using hash_output.merkle_proof_canonical [of BATCH_SUBTREE_DEPTH ls i P] len assms(4,5,7)
    by (auto simp: leaf_at_def)
  obtain q where q: "merkle_proof ?H (canonical_tree ?H ?d (?L @ [br])) (length ?L) = Inr q" "verify_proof ?H q"
    "proof_leaf q = br" "proof_root q = spec_root ?H ?d (?L @ [br])"
    using hash_output.merkle_proof_canonical [of ?d "?L @ [br]" "length ?L" P] d fit
    by (auto simp: leaf_at_def nth_append)
  show ?thesis
    using confirm_batch_cases [OF assms(1), of pi br nr] assms(2,3,6) p q d fit
    by (simp add: get_commitment_status_def get_batch_subtree_proof_def get_batch_root_for_commitment_def
        confirm_commitments_def num_leaves_def hash_output.root_canonical)
qed

subsection \<open>Properties\<close>

text \<open>
  Once its batch is confirmed, a commitment can be proved. Let a batch with leaves \<open>ls\<close> be
  pending, let \<open>c\<close> be recorded at index \<open>i\<close> of it, and let the batch root announced on chain be
  the root of \<open>ls\<close>. Then confirming the batch succeeds (the state tree has room), and the
  commitment query answers with two proofs that verify and chain: the first opens \<open>c\<close> under the
  batch root, the second opens the batch root under the root of the state tree.
\<close>

theorem confirmed_commitment_has_proofs:
  assumes "state_ok P s" and "num_leaves (state_tree s) < 2 ^ depth (state_tree s)"
    and "pending_batch_leaves s pi = Some ls" and "i < 512" and "ls ! i = c"
    and "commitment_to_batch s c = Some \<lparr>loc_pi = pi, loc_index = i, loc_confirmed = b\<rparr>"
    and "br = spec_root (hash_output_hash P) BATCH_SUBTREE_DEPTH ls"
  shows "\<exists>s' p q. confirm_batch P pi br nr s = (Inr (), s')
    \<and> get_commitment_status P s' c = Inr (Commitment_Confirmed p q)
    \<and> verify_proof (hash_output_hash P) p \<and> verify_proof (hash_output_hash P) q
    \<and> proof_leaf p = c \<and> proof_root p = br \<and> proof_leaf q = br
    \<and> root (hash_output_hash P) (state_tree s') = Inr (proof_root q)"
  using confirm_batch_proofs [OF assms] .

theorem confirmed_commitment_has_proofs_witness:
  "\<exists>s s' p q. confirm_batch demo_hasher [7] (spec_root (hash_output_hash demo_hasher) BATCH_SUBTREE_DEPTH
        ((replicate 512 ZERO_hash)[3 := HashOutput 5 5 5 5])) ZERO_hash s = (Inr (), s')
    \<and> get_commitment_status demo_hasher s' (HashOutput 5 5 5 5) = Inr (Commitment_Confirmed p q)"
proof -
  obtain s0 :: sync_state where tree: "state_tree s0 = canonical_tree (hash_output_hash demo_hasher) 32 []"
    and none: "pending_batch_leaves s0 = Map.empty"
    by (rule sync_state_new_ok [of 32 demo_hasher]) auto
  let ?s = "add_pending_commitment (HashOutput 5 5 5 5) [7] 3 s0"
  let ?ls = "(replicate 512 ZERO_hash)[3 := HashOutput 5 5 5 5]"
  have "state_ok demo_hasher ?s"
    using tree none by (auto simp: state_ok_def add_pending_commitment_def split: if_splits)
  then have "\<exists>s' p q. confirm_batch demo_hasher [7] (spec_root (hash_output_hash demo_hasher) BATCH_SUBTREE_DEPTH ?ls)
        ZERO_hash ?s = (Inr (), s')
      \<and> get_commitment_status demo_hasher s' (HashOutput 5 5 5 5) = Inr (Commitment_Confirmed p q)
      \<and> verify_proof (hash_output_hash demo_hasher) p \<and> verify_proof (hash_output_hash demo_hasher) q
      \<and> proof_leaf p = HashOutput 5 5 5 5
      \<and> proof_root p = spec_root (hash_output_hash demo_hasher) BATCH_SUBTREE_DEPTH ?ls
      \<and> proof_leaf q = spec_root (hash_output_hash demo_hasher) BATCH_SUBTREE_DEPTH ?ls
      \<and> root (hash_output_hash demo_hasher) (state_tree s') = Inr (proof_root q)"
    by (rule confirmed_commitment_has_proofs)
       (use tree none in \<open>auto simp: add_pending_commitment_def\<close>)
  then show ?thesis by blast
qed

text \<open>
  What confirming a batch does to the queries: a nullifier is confirmed afterwards exactly if
  it was confirmed before or pending for this batch, every other nullifier keeps its status, and
  a batch that was pending is confirmed; the new root is among the confirmed roots. If the state
  tree is full, the call fails and leaves the whole state unchanged.
\<close>

theorem confirm_batch_effect:
  assumes "state_ok P s"
  shows "if num_leaves (state_tree s) < 2 ^ depth (state_tree s)
    then \<exists>s'. confirm_batch P pi br nr s = (Inr (), s') \<and> state_ok P s'
      \<and> leaves (state_tree s') = leaves (state_tree s) @ [br]
      \<and> (\<forall>n. get_nullifier_status s' n =
            (if get_nullifier_status s n = Nullifier_Pending pi then Nullifier_Confirmed
             else get_nullifier_status s n))
      \<and> (\<forall>k. get_batch_status s pi k = Batch_Pending \<and> (k = BridgeTx \<longrightarrow> pending_tx_batches s pi = None)
            \<longrightarrow> get_batch_status s' pi k = Batch_Confirmed)
      \<and> confirmed_roots s' = confirmed_roots s \<union> {nr}
    else confirm_batch P pi br nr s = (Inl (Err (Sync_tree FullTree)), s)"
proof (cases "num_leaves (state_tree s) < 2 ^ depth (state_tree s)")
  case True
  obtain s' where s': "confirm_batch P pi br nr s = (Inr (), s')"
    "s' = finish_confirm pi br nr
      (s\<lparr>state_tree := canonical_tree (hash_output_hash P) (depth (state_tree s)) (leaves (state_tree s) @ [br]),
         batch_root_to_leaf_index := (batch_root_to_leaf_index s)(hash_to_bytes32 br \<mapsto> num_leaves (state_tree s)),
         pending_batch_leaves := (pending_batch_leaves s)(pi := None),
         confirmed_batch_subtrees := (case pending_batch_leaves s pi of
             None \<Rightarrow> confirmed_batch_subtrees s
           | Some ls \<Rightarrow> (confirmed_batch_subtrees s)(pi \<mapsto>
               canonical_tree (hash_output_hash P) BATCH_SUBTREE_DEPTH ls))\<rparr>)"
    using confirm_batch_cases [OF assms, of pi br nr] True by simp
  have "state_ok P s'"
    using assms True by (simp add: s'(2) state_ok_def num_leaves_def)
  moreover have "get_nullifier_status s' n =
      (if get_nullifier_status s n = Nullifier_Pending pi then Nullifier_Confirmed
       else get_nullifier_status s n)" for n
    by (auto simp: s'(2) get_nullifier_status_def split: option.splits)
  moreover have "get_batch_status s' pi k = Batch_Confirmed"
    if "get_batch_status s pi k = Batch_Pending" "k = BridgeTx \<longrightarrow> pending_tx_batches s pi = None" for k
    using that by (cases k) (auto simp: s'(2) get_batch_status_def split: if_splits)
  ultimately show ?thesis
    using True s' by auto
qed (use confirm_batch_cases [OF assms, of pi br nr] in simp)

theorem confirm_batch_effect_witness:
  "\<exists>s. sync_state_new demo_hasher 5 = Inr s \<and>
    fst (confirm_batch demo_hasher [1] (HashOutput 1 1 1 1) ZERO_hash
      (add_pending_nullifier (HashOutput 2 2 2 2) [1] s)) = Inr ()"
proof -
  obtain s where s: "sync_state_new demo_hasher 5 = Inr s" "state_ok demo_hasher s"
    "state_tree s = canonical_tree (hash_output_hash demo_hasher) 5 []"
    by (rule sync_state_new_ok [of 5 demo_hasher]) auto
  have "state_ok demo_hasher (add_pending_nullifier (HashOutput 2 2 2 2) [1] s)"
    using s(2) by (simp add: state_ok_def add_pending_nullifier_def)
  from confirm_batch_effect [OF this, of "[1]" "HashOutput 1 1 1 1" ZERO_hash] s show ?thesis
    by (auto simp: add_pending_nullifier_def split: if_splits)
qed

end
