(* ===== verification/Sync_Replay.thy ===== *)
theory Sync_Replay
  imports Sync_State
begin

section \<open>Replaying the chain\<close>

text \<open>
  \<^verbatim>\<open>doxa-state-sync/src/sync.rs\<close> with \<^verbatim>\<open>constants.rs\<close>: paging through the event logs,
  decoding batch preimages into commitments and nullifiers, buffering subpool assignments,
  rebuilding the configuration tree, tracking deposits, and the two drivers
  \<^verbatim>\<open>sync_from_genesis\<close> and \<^verbatim>\<open>poll_sync\<close>. The RPC provider and the event decoders of the
  contract bindings are one record of functions, \<open>rpc\<close>. Every operation runs on the state of the
  service and returns its result with the state it leaves, so that a retry after an error starts
  from what the failed attempt wrote. The unbounded paging loops take fuel; \<open>fetch_logs\<close> uses one
  unit per block, which is enough for every positive page size.
\<close>

definition PRIV_TX_BATCH_SIZE :: nat where "PRIV_TX_BATCH_SIZE = 64"
definition BRIDGE_TX_HALF_SIZE :: nat where "BRIDGE_TX_HALF_SIZE = 256"
definition TX_HEADER_SIZE :: nat where "TX_HEADER_SIZE = 96"
definition TX_SLOT_SIZE :: nat where "TX_SLOT_SIZE = 520"
definition TX_ACCIN_NULL_OFF :: nat where "TX_ACCIN_NULL_OFF = 8"
definition TX_ACCOUT_COMM_OFF :: nat where "TX_ACCOUT_COMM_OFF = 40"
definition TX_NOTE_IN_OFF :: nat where "TX_NOTE_IN_OFF = 72"
definition TX_NOTE_OUT_OFF :: nat where "TX_NOTE_OUT_OFF = 296"
definition W_SLOT_SIZE :: nat where "W_SLOT_SIZE = 616"
definition D_SLOT_SIZE :: nat where "D_SLOT_SIZE = 216"
definition D_SECTION_OFF :: nat where
  "D_SECTION_OFF = TX_HEADER_SIZE + BRIDGE_TX_HALF_SIZE * W_SLOT_SIZE"
definition W_ACCIN_NULL_OFF :: nat where "W_ACCIN_NULL_OFF = 8"
definition W_ACCOUT_COMM_OFF :: nat where "W_ACCOUT_COMM_OFF = 40"
definition D_ACCIN_NULL_OFF :: nat where "D_ACCIN_NULL_OFF = 8"
definition D_ACCOUT_COMM_OFF :: nat where "D_ACCOUT_COMM_OFF = 40"
definition TX_PREIMAGE_LEN :: nat where
  "TX_PREIMAGE_LEN = TX_HEADER_SIZE + PRIV_TX_BATCH_SIZE * TX_SLOT_SIZE"
definition BRIDGE_TX_PREIMAGE_LEN :: nat where
  "BRIDGE_TX_PREIMAGE_LEN = D_SECTION_OFF + BRIDGE_TX_HALF_SIZE * D_SLOT_SIZE"

lemmas layout_defs = PRIV_TX_BATCH_SIZE_def BRIDGE_TX_HALF_SIZE_def TX_HEADER_SIZE_def
  TX_SLOT_SIZE_def TX_ACCIN_NULL_OFF_def TX_ACCOUT_COMM_OFF_def TX_NOTE_IN_OFF_def
  TX_NOTE_OUT_OFF_def W_SLOT_SIZE_def D_SLOT_SIZE_def D_SECTION_OFF_def W_ACCIN_NULL_OFF_def
  W_ACCOUT_COMM_OFF_def D_ACCIN_NULL_OFF_def D_ACCOUT_COMM_OFF_def TX_PREIMAGE_LEN_def
  BRIDGE_TX_PREIMAGE_LEN_def NOTE_BATCH_def

subsection \<open>Preimages\<close>

definition read_gl_b32 :: "bytes \<Rightarrow> nat \<Rightarrow> (sync_error, bytes) result" where
  "read_gl_b32 preimage off = bind_r (slice_r preimage off 32) (\<lambda>b. Inr (preimage_bytes32_to_raw b))"

definition read_gl_bool :: "bytes \<Rightarrow> nat \<Rightarrow> (sync_error, bool) result" where
  "read_gl_bool preimage off =
     bind_r (slice_r preimage off 4) (\<lambda>lo.
     bind_r (slice_r preimage (off + 4) 4) (\<lambda>hi.
       Inr (u32_from_be_bytes lo \<noteq> 0 \<or> u32_from_be_bytes hi \<noteq> 0)))"

text \<open>\<^verbatim>\<open>bytes_to_hash\<close> expects the decoding to succeed and panics otherwise.\<close>

definition bytes_to_hash :: "bytes \<Rightarrow> (sync_error, hash_output) result" where
  "bytes_to_hash b = unwrap_r (bytes32_to_hash b)"

definition read_hash :: "bytes \<Rightarrow> nat \<Rightarrow> (sync_error, hash_output) result" where
  "read_hash preimage off = bind_r (read_gl_b32 preimage off) bytes_to_hash"

definition apply_tx_commitments :: "bytes \<Rightarrow> bytes \<Rightarrow> nat \<Rightarrow> sync_state \<Rightarrow> (sync_error, sync_state) result" where
  "apply_tx_commitments preimage pi s st =
     (let slot_off = TX_HEADER_SIZE + s * TX_SLOT_SIZE in
      bind_r (read_hash preimage (slot_off + TX_ACCOUT_COMM_OFF)) (\<lambda>acc_comm.
      for_each (\<lambda>j st.
          bind_r (read_hash preimage (slot_off + TX_NOTE_OUT_OFF + j * 32)) (\<lambda>note_comm.
            Inr (add_pending_commitment note_comm pi (s * 8 + j + 1) st)))
        [0..<NOTE_BATCH] (add_pending_commitment acc_comm pi (s * 8) st)))"

definition apply_tx_nullifiers :: "bytes \<Rightarrow> bytes \<Rightarrow> nat \<Rightarrow> sync_state \<Rightarrow> (sync_error, sync_state) result" where
  "apply_tx_nullifiers preimage pi s st =
     (let slot_off = TX_HEADER_SIZE + s * TX_SLOT_SIZE in
      bind_r (read_gl_bool preimage slot_off) (\<lambda>real.
      if \<not> real then Inr st
      else bind_r (read_hash preimage (slot_off + TX_ACCIN_NULL_OFF)) (\<lambda>acc_null.
        for_each (\<lambda>j st.
            bind_r (read_hash preimage (slot_off + TX_NOTE_IN_OFF + j * 32)) (\<lambda>note_null.
              Inr (add_pending_nullifier note_null pi st)))
          [0..<NOTE_BATCH] (add_pending_nullifier acc_null pi st))))"

definition apply_tx_preimage :: "bytes \<Rightarrow> bytes \<Rightarrow> sync_state \<Rightarrow> (sync_error, sync_state) result" where
  "apply_tx_preimage preimage pi st =
     bind_r (ensure (TX_PREIMAGE_LEN \<le> length preimage) Preimage_too_short) (\<lambda>_.
     bind_r (for_each (apply_tx_commitments preimage pi) [0..<PRIV_TX_BATCH_SIZE] st) (\<lambda>st.
     bind_r (for_each (apply_tx_nullifiers preimage pi) [0..<PRIV_TX_BATCH_SIZE] st) (\<lambda>st.
       Inr (st\<lparr>pending_tx_batches := (pending_tx_batches st)(pi \<mapsto> preimage)\<rparr>))))"

text \<open>A slot of a bridge batch, at byte offset \<open>off\<close> and subtree leaf \<open>index\<close>.\<close>

definition apply_bridge_slot ::
  "bytes \<Rightarrow> bytes \<Rightarrow> nat \<Rightarrow> nat \<Rightarrow> nat \<Rightarrow> nat \<Rightarrow> sync_state \<Rightarrow> (sync_error, sync_state) result" where
  "apply_bridge_slot preimage pi off comm_off null_off index st =
     bind_r (read_hash preimage (off + comm_off)) (\<lambda>acc_comm.
     let st = add_pending_commitment acc_comm pi index st in
     bind_r (read_gl_bool preimage off) (\<lambda>real.
     if \<not> real then Inr st
     else bind_r (read_hash preimage (off + null_off)) (\<lambda>acc_null.
       Inr (add_pending_nullifier acc_null pi st))))"

definition apply_bridge_preimage :: "bytes \<Rightarrow> bytes \<Rightarrow> sync_state \<Rightarrow> (sync_error, sync_state) result" where
  "apply_bridge_preimage preimage pi st =
     bind_r (ensure (BRIDGE_TX_PREIMAGE_LEN \<le> length preimage) Preimage_too_short) (\<lambda>_.
     bind_r (for_each (\<lambda>s. apply_bridge_slot preimage pi (TX_HEADER_SIZE + s * W_SLOT_SIZE)
         W_ACCOUT_COMM_OFF W_ACCIN_NULL_OFF s) [0..<BRIDGE_TX_HALF_SIZE] st) (\<lambda>st.
     bind_r (for_each (\<lambda>s. apply_bridge_slot preimage pi (D_SECTION_OFF + s * D_SLOT_SIZE)
         D_ACCOUT_COMM_OFF D_ACCIN_NULL_OFF (256 + s)) [0..<BRIDGE_TX_HALF_SIZE] st) (\<lambda>st.
       Inr (st\<lparr>pending_bridge_tx_batches := (pending_bridge_tx_batches st)(pi \<mapsto> preimage)\<rparr>))))"

definition extract_batch_root_from_preimage :: "bytes \<Rightarrow> (sync_error, hash_output) result" where
  "extract_batch_root_from_preimage preimage =
     bind_r (ensure (32 \<le> length preimage) Preimage_too_short) (\<lambda>_. read_hash preimage 0)"

subsection \<open>The provider\<close>

datatype event_sig =
    Ev_BatchSubmitted batch_kind | Ev_BatchProven batch_kind
  | Ev_SubpoolOwnerAssigned | Ev_SubpoolRootUpdated
  | Ev_DepositAvailable | Ev_DepositValidated | Ev_DepositWithdrawn

record 'log rpc =
  get_block_number :: "(sync_error, nat) result"
  get_logs :: "event_sig \<Rightarrow> bytes option \<Rightarrow> nat \<Rightarrow> nat \<Rightarrow> (sync_error, 'log list) result"
  get_transaction_input :: "bytes \<Rightarrow> (sync_error, bytes) result"
  call_treeDepth :: "(sync_error, u256) result"
  call_configTreeDepth :: "(sync_error, u256) result"
  call_subpoolRoots :: "nat \<Rightarrow> (sync_error, u256) result"
  decode_submitted :: "batch_kind \<Rightarrow> 'log \<Rightarrow> bytes option"
  transaction_hash :: "'log \<Rightarrow> bytes option"
  decode_proven :: "batch_kind \<Rightarrow> 'log \<Rightarrow> (bytes \<times> u256 \<times> u256) option"
  decode_assigned :: "'log \<Rightarrow> (nat \<times> bytes) option"
  decode_root_updated :: "'log \<Rightarrow> (nat \<times> u256) option"
  decode_deposit_available :: "'log \<Rightarrow> (bytes \<times> u256 \<times> bytes \<times> u256) option"
  decode_deposit_validated :: "'log \<Rightarrow> bytes option"
  decode_deposit_withdrawn :: "'log \<Rightarrow> bytes option"
  block_number :: "'log \<Rightarrow> nat option"
  log_index :: "'log \<Rightarrow> nat option"
  abi_decode_batch :: "batch_kind \<Rightarrow> bytes \<Rightarrow> bytes option"

text \<open>Page through a block range; \<open>acc\<close> holds the logs of the pages already read.\<close>

fun fetch_pages ::
  "nat \<Rightarrow> 'log rpc \<Rightarrow> event_sig \<Rightarrow> nat \<Rightarrow> nat \<Rightarrow> nat \<Rightarrow> 'log list \<Rightarrow> (sync_error, 'log list) result" where
  "fetch_pages 0 rpc ev chunk_start to_block chunk_blocks acc =
     (if chunk_start \<le> to_block then Inl (Panic Out_of_fuel) else Inr acc)"
| "fetch_pages (Suc fuel) rpc ev chunk_start to_block chunk_blocks acc =
     (if chunk_start \<le> to_block then
        bind_r (add_u64 chunk_start chunk_blocks) (\<lambda>e.
        bind_r (sub_u64 e 1) (\<lambda>e.
        let chunk_end = min e to_block in
        bind_r (get_logs rpc ev None chunk_start chunk_end) (\<lambda>chunk.
        bind_r (add_u64 chunk_end 1) (\<lambda>next.
          fetch_pages fuel rpc ev next to_block chunk_blocks (acc @ chunk)))))
      else Inr acc)"

definition fetch_logs ::
  "'log rpc \<Rightarrow> event_sig \<Rightarrow> nat \<Rightarrow> nat \<Rightarrow> nat \<Rightarrow> (sync_error, 'log list) result" where
  "fetch_logs rpc ev from_block to_block chunk_blocks =
     fetch_pages (Suc to_block - from_block) rpc ev from_block to_block chunk_blocks []"

fun find_submission_pages ::
  "nat \<Rightarrow> 'log rpc \<Rightarrow> event_sig \<Rightarrow> bytes \<Rightarrow> nat \<Rightarrow> nat \<Rightarrow> nat \<Rightarrow> (sync_error, bytes) result" where
  "find_submission_pages 0 rpc ev pi chunk_start to_block chunk_blocks =
     (if chunk_start \<le> to_block then Inl (Panic Out_of_fuel) else Inl (Err Submission_not_found))"
| "find_submission_pages (Suc fuel) rpc ev pi chunk_start to_block chunk_blocks =
     (if chunk_start \<le> to_block then
        bind_r (add_u64 chunk_start chunk_blocks) (\<lambda>e.
        bind_r (sub_u64 e 1) (\<lambda>e.
        let chunk_end = min e to_block in
        bind_r (get_logs rpc ev (Some pi) chunk_start chunk_end) (\<lambda>logs.
        case logs of
          log # _ \<Rightarrow> ok_or (transaction_hash rpc log) (Sync_rpc ''submission log missing transaction_hash'')
        | [] \<Rightarrow> bind_r (add_u64 chunk_end 1) (\<lambda>next.
            find_submission_pages fuel rpc ev pi next to_block chunk_blocks))))
      else Inl (Err Submission_not_found))"

definition find_submission_tx_hash ::
  "'log rpc \<Rightarrow> event_sig \<Rightarrow> bytes \<Rightarrow> nat \<Rightarrow> nat \<Rightarrow> nat \<Rightarrow> (sync_error, bytes) result" where
  "find_submission_tx_hash rpc ev pi from_block to_block chunk_blocks =
     find_submission_pages (Suc to_block - from_block) rpc ev pi from_block to_block chunk_blocks"

subsection \<open>Batches\<close>

definition decode_submitted_log :: "'log rpc \<Rightarrow> batch_kind \<Rightarrow> 'log \<Rightarrow> (bytes \<times> bytes) option" where
  "decode_submitted_log rpc kind log =
     Option.bind (decode_submitted rpc kind log) (\<lambda>pi.
       map_option (\<lambda>tx_hash. (pi, tx_hash)) (transaction_hash rpc log))"

text \<open>The map from batch to submission; logs that do not decode are skipped.\<close>

definition build_submit_map ::
  "'log rpc \<Rightarrow> batch_kind \<Rightarrow> nat \<Rightarrow> nat \<Rightarrow> nat \<Rightarrow> (sync_error, (bytes \<times> bytes) list) result" where
  "build_submit_map rpc kind from_block to_block chunk_blocks =
     bind_r (fetch_logs rpc (Ev_BatchSubmitted kind) from_block to_block chunk_blocks) (\<lambda>logs.
       Inr (fold (\<lambda>log m. case decode_submitted_log rpc kind log of
           Some (pi, tx_hash) \<Rightarrow> AList.update pi tx_hash m | None \<Rightarrow> m) logs []))"

definition pending_batches :: "batch_kind \<Rightarrow> sync_state \<Rightarrow> bytes \<rightharpoonup> bytes" where
  "pending_batches kind s =
     (case kind of Transaction \<Rightarrow> pending_tx_batches s | BridgeTx \<Rightarrow> pending_bridge_tx_batches s)"

definition confirmed_batches :: "batch_kind \<Rightarrow> sync_state \<Rightarrow> bytes set" where
  "confirmed_batches kind s =
     (case kind of Transaction \<Rightarrow> confirmed_tx_batches s | BridgeTx \<Rightarrow> confirmed_bridge_tx_batches s)"

definition apply_preimage :: "batch_kind \<Rightarrow> bytes \<Rightarrow> bytes \<Rightarrow> sync_state \<Rightarrow> (sync_error, sync_state) result" where
  "apply_preimage kind =
     (case kind of Transaction \<Rightarrow> apply_tx_preimage | BridgeTx \<Rightarrow> apply_bridge_preimage)"

definition fetch_and_apply ::
  "'log rpc \<Rightarrow> batch_kind \<Rightarrow> bytes \<Rightarrow> bytes \<Rightarrow> (sync_state, sync_error, unit) op" where
  "fetch_and_apply rpc kind pi tx_hash =
     bind_s (lift_s (get_transaction_input rpc tx_hash)) (\<lambda>input.
     bind_s (lift_s (ok_or (abi_decode_batch rpc kind input) (Sync_rpc ''calldata''))) (\<lambda>preimage.
       update_s (apply_preimage kind preimage pi)))"

definition submit_one :: "'log rpc \<Rightarrow> batch_kind \<Rightarrow> bytes \<times> bytes \<Rightarrow> (sync_state, sync_error, unit) op" where
  "submit_one rpc kind = (\<lambda>(pi, tx_hash).
     bind_s (get_s (\<lambda>s. pending_batches kind s pi \<noteq> None \<or> pi \<in> confirmed_batches kind s)) (\<lambda>known.
       if known then lift_s (Inr ()) else fetch_and_apply rpc kind pi tx_hash))"

definition process_new_submissions ::
  "'log rpc \<Rightarrow> nat \<Rightarrow> nat \<Rightarrow> nat \<Rightarrow> (sync_state, sync_error, unit) op" where
  "process_new_submissions rpc from_block to_block chunk_blocks =
     bind_s (lift_s (build_submit_map rpc Transaction from_block to_block chunk_blocks)) (\<lambda>tx_map.
     bind_s (lift_s (build_submit_map rpc BridgeTx from_block to_block chunk_blocks)) (\<lambda>bridge_map.
     bind_s (for_each_s (submit_one rpc Transaction) tx_map) (\<lambda>_.
       for_each_s (submit_one rpc BridgeTx) bridge_map)))"

record proven_batch_entry =
  pe_pi :: bytes
  pe_new_tree_root :: hash_output
  pe_leaf_index :: nat
  pe_kind :: batch_kind

definition decode_proven_log :: "'log rpc \<Rightarrow> batch_kind \<Rightarrow> 'log \<Rightarrow> proven_batch_entry option" where
  "decode_proven_log rpc kind log =
     (case decode_proven rpc kind log of
        None \<Rightarrow> None
      | Some (pi, new_root, leaf_idx) \<Rightarrow>
          (case u256_le_to_hash new_root of
             Inl _ \<Rightarrow> None
           | Inr r \<Rightarrow> if unat leaf_idx < 2 ^ 64
               then Some \<lparr>pe_pi = pi, pe_new_tree_root = r, pe_leaf_index = unat leaf_idx, pe_kind = kind\<rparr>
               else None))"

definition collect_proven_batches ::
  "'log rpc \<Rightarrow> nat \<Rightarrow> nat \<Rightarrow> nat \<Rightarrow> (sync_error, proven_batch_entry list) result" where
  "collect_proven_batches rpc from_block to_block chunk_blocks =
     bind_r (fetch_logs rpc (Ev_BatchProven Transaction) from_block to_block chunk_blocks) (\<lambda>tx_logs.
     bind_r (fetch_logs rpc (Ev_BatchProven BridgeTx) from_block to_block chunk_blocks) (\<lambda>bridge_logs.
       Inr (List.map_filter (decode_proven_log rpc Transaction) tx_logs
         @ List.map_filter (decode_proven_log rpc BridgeTx) bridge_logs)))"

text \<open>
  Replay one proven batch: find its preimage if it is not pending (searching the blocks from
  \<open>genesis\<close> to \<open>search_to\<close>), then confirm it with the root its preimage announces.
\<close>

definition replay_proven ::
  "hasher \<Rightarrow> 'log rpc \<Rightarrow> nat \<Rightarrow> nat \<Rightarrow> nat \<Rightarrow> proven_batch_entry \<Rightarrow> (sync_state, sync_error, unit) op" where
  "replay_proven P rpc genesis search_to chunk_blocks entry =
     bind_s (get_s (\<lambda>s. pending_tx_batches s (pe_pi entry) \<noteq> None
         \<or> pending_bridge_tx_batches s (pe_pi entry) \<noteq> None)) (\<lambda>preimage_known.
     bind_s (if preimage_known then lift_s (Inr ())
             else bind_s (lift_s (find_submission_tx_hash rpc (Ev_BatchSubmitted (pe_kind entry))
                 (pe_pi entry) genesis search_to chunk_blocks)) (\<lambda>tx_hash.
               fetch_and_apply rpc (pe_kind entry) (pe_pi entry) tx_hash)) (\<lambda>_.
     bind_s (get_s (\<lambda>s. pending_batches (pe_kind entry) s (pe_pi entry))) (\<lambda>preimage.
       case preimage of
         None \<Rightarrow> lift_s (Inr ())
       | Some p \<Rightarrow> bind_s (lift_s (extract_batch_root_from_preimage p)) (\<lambda>batch_root.
           confirm_batch P (pe_pi entry) batch_root (pe_new_tree_root entry)))))"

subsection \<open>Subpools and the configuration tree\<close>

definition register_subpool :: "nat \<Rightarrow> sync_state \<Rightarrow> sync_state" where
  "register_subpool sid s =
     s\<lparr>subpool_roots := (if map_of (subpool_roots s) sid = None
          then AList.update sid ZERO_hash (subpool_roots s) else subpool_roots s),
       next_expected_subpool_id := next_expected_subpool_id s + 1\<rparr>"

lemma length_delete_less: "map_of al k \<noteq> None \<Longrightarrow> length (AList.delete k al) < length al"
  by (induction al) (auto simp: AList.delete_eq less_Suc_eq_le)

text \<open>The \<^verbatim>\<open>while let\<close> loop that drains the buffered assignments.\<close>

function drain_assignments :: "sync_state \<Rightarrow> sync_state" where
  "drain_assignments s =
     (case map_of (pending_subpool_assignments s) (next_expected_subpool_id s) of
        None \<Rightarrow> s
      | Some ev \<Rightarrow> drain_assignments (register_subpool (ev_subpool_id ev)
          (s\<lparr>pending_subpool_assignments :=
              AList.delete (next_expected_subpool_id s) (pending_subpool_assignments s)\<rparr>)))"
  by auto
termination
  by (relation "measure (\<lambda>s. length (pending_subpool_assignments s))")
     (auto simp: register_subpool_def length_delete_less)

declare drain_assignments.simps [simp del]

definition assign_subpool :: "subpool_assigned_event \<Rightarrow> sync_state \<Rightarrow> sync_state" where
  "assign_subpool ev s =
     (if ev_subpool_id ev = next_expected_subpool_id s
      then drain_assignments (register_subpool (ev_subpool_id ev) s)
      else if next_expected_subpool_id s < ev_subpool_id ev
      then s\<lparr>pending_subpool_assignments :=
             AList.update (ev_subpool_id ev) ev (pending_subpool_assignments s)\<rparr>
      else s)"

definition decode_assigned_log :: "'log rpc \<Rightarrow> 'log \<Rightarrow> subpool_assigned_event option" where
  "decode_assigned_log rpc log = map_option (\<lambda>(id, owner).
     \<lparr>ev_subpool_id = id, ev_owner = owner,
      ev_block = (case block_number rpc log of Some b \<Rightarrow> b | None \<Rightarrow> 0),
      ev_log_index = (case log_index rpc log of Some i \<Rightarrow> i | None \<Rightarrow> 0)\<rparr>) (decode_assigned rpc log)"

definition rebuild_config_tree ::
  "hasher \<Rightarrow> compressor \<Rightarrow> sync_state \<Rightarrow> (sync_error, sync_state) result" where
  "rebuild_config_tree P T s =
     bind_r (for_each (\<lambda>(id, r) c. unwrap_r (insert_subpool_at_position P T (of_nat id) r c))
         (sort_key fst (subpool_roots s)) (main_pool_new P))
       (\<lambda>c. Inr (s\<lparr>config_tree := c\<rparr>))"

definition set_subpool_root :: "nat \<Rightarrow> u256 \<Rightarrow> (sync_state, sync_error, unit) op" where
  "set_subpool_root sid root_u256 =
     bind_s (lift_s (map_err Sync_codec (u256_le_to_hash root_u256))) (\<lambda>r.
       modify_s (\<lambda>s. s\<lparr>subpool_roots := AList.update sid r (subpool_roots s)\<rparr>))"

definition sync_config_tree ::
  "hasher \<Rightarrow> compressor \<Rightarrow> 'log rpc \<Rightarrow> nat \<Rightarrow> nat \<Rightarrow> nat \<Rightarrow> nat \<Rightarrow> (sync_state, sync_error, unit) op" where
  "sync_config_tree P T rpc from_block to_block chunk_blocks genesis_block =
     bind_s (lift_s (fetch_logs rpc Ev_SubpoolOwnerAssigned from_block to_block chunk_blocks)) (\<lambda>assigned_logs.
     bind_s (lift_s (fetch_logs rpc Ev_SubpoolRootUpdated from_block to_block chunk_blocks)) (\<lambda>updated_logs.
     bind_s (modify_s (fold assign_subpool (List.map_filter (decode_assigned_log rpc) assigned_logs))) (\<lambda>_.
     bind_s (if from_block = genesis_block
        then bind_s (get_s (\<lambda>s. [1..<next_expected_subpool_id s])) (\<lambda>ids.
          for_each_s (\<lambda>id. bind_s (lift_s (call_subpoolRoots rpc id)) (set_subpool_root id)) ids)
        else for_each_s (\<lambda>(id, r). set_subpool_root id r)
          (List.map_filter (decode_root_updated rpc) updated_logs)) (\<lambda>_.
       update_s (rebuild_config_tree P T)))))"

subsection \<open>Deposits\<close>

definition deposit_available :: "bytes \<times> u256 \<times> bytes \<times> u256 \<Rightarrow> nat option \<Rightarrow> sync_state \<Rightarrow> sync_state" where
  "deposit_available = (\<lambda>(note, value, rcpt, asset) blk s. s\<lparr>deposits := AList.update note
     \<lparr>dr_note_commitment = note, dr_value = value, dr_recipient = rcpt, dr_status = Deposit_Pending,
      dr_block = (case blk of Some b \<Rightarrow> b | None \<Rightarrow> 0), dr_asset_id = asset\<rparr> (deposits s)\<rparr>)"

definition deposit_set_status :: "deposit_status \<Rightarrow> bytes \<Rightarrow> sync_state \<Rightarrow> sync_state" where
  "deposit_set_status st note s = s\<lparr>deposits :=
     map (\<lambda>(k, d). (k, if k = note then d\<lparr>dr_status := st\<rparr> else d)) (deposits s)\<rparr>"

definition sync_deposits :: "'log rpc \<Rightarrow> nat \<Rightarrow> nat \<Rightarrow> nat \<Rightarrow> (sync_state, sync_error, unit) op" where
  "sync_deposits rpc from_block to_block chunk_blocks =
     bind_s (lift_s (fetch_logs rpc Ev_DepositAvailable from_block to_block chunk_blocks)) (\<lambda>available.
     bind_s (lift_s (fetch_logs rpc Ev_DepositValidated from_block to_block chunk_blocks)) (\<lambda>validated.
     bind_s (lift_s (fetch_logs rpc Ev_DepositWithdrawn from_block to_block chunk_blocks)) (\<lambda>withdrawn.
     bind_s (modify_s (fold (\<lambda>log. case decode_deposit_available rpc log of
         Some d \<Rightarrow> deposit_available d (block_number rpc log) | None \<Rightarrow> id) available)) (\<lambda>_.
     bind_s (modify_s (fold (deposit_set_status Deposit_Validated)
         (List.map_filter (decode_deposit_validated rpc) validated))) (\<lambda>_.
       modify_s (fold (deposit_set_status Deposit_Withdrawn)
         (List.map_filter (decode_deposit_withdrawn rpc) withdrawn)))))))"

subsection \<open>The drivers\<close>

definition replay_all ::
  "hasher \<Rightarrow> 'log rpc \<Rightarrow> nat \<Rightarrow> nat \<Rightarrow> nat \<Rightarrow> proven_batch_entry list \<Rightarrow> (sync_state, sync_error, unit) op" where
  "replay_all P rpc genesis search_to chunk_blocks proven =
     for_each_s (replay_proven P rpc genesis search_to chunk_blocks) (sort_key pe_leaf_index proven)"

definition poll_sync ::
  "hasher \<Rightarrow> compressor \<Rightarrow> 'log rpc \<Rightarrow> nat \<Rightarrow> nat \<Rightarrow> (sync_state, sync_error, unit) op" where
  "poll_sync P T rpc genesis_block chunk_blocks =
     bind_s (get_s last_synced_block) (\<lambda>from_block.
     bind_s (lift_s (get_block_number rpc)) (\<lambda>to_block.
     if to_block \<le> from_block then lift_s (Inr ())
     else bind_s (process_new_submissions rpc (from_block + 1) to_block chunk_blocks) (\<lambda>_.
       bind_s (lift_s (collect_proven_batches rpc (from_block + 1) to_block chunk_blocks)) (\<lambda>proven.
       bind_s (replay_all P rpc genesis_block from_block chunk_blocks proven) (\<lambda>_.
       bind_s (sync_config_tree P T rpc (from_block + 1) to_block chunk_blocks 0) (\<lambda>_.
       bind_s (sync_deposits rpc (from_block + 1) to_block chunk_blocks) (\<lambda>_.
         modify_s (\<lambda>s. s\<lparr>last_synced_block := to_block\<rparr>))))))))"

definition u256_to_usize :: "u256 \<Rightarrow> (sync_error, nat) result" where
  "u256_to_usize v = (if unat v < 2 ^ 64 then Inr (unat v) else Inl (Err Value_overflow))"

definition sync_from_genesis ::
  "hasher \<Rightarrow> compressor \<Rightarrow> 'log rpc \<Rightarrow> nat \<Rightarrow> nat \<Rightarrow> (sync_error, sync_state) result" where
  "sync_from_genesis P T rpc genesis_block chunk_blocks =
     bind_r (get_block_number rpc) (\<lambda>latest_block.
     bind_r (bind_r (call_treeDepth rpc) u256_to_usize) (\<lambda>tree_depth.
     bind_r (bind_r (call_configTreeDepth rpc) u256_to_usize) (\<lambda>config_tree_depth.
     bind_r (ensure (config_tree_depth = MAIN_POOL_CONFIG_DEPTH) Config_depth_mismatch) (\<lambda>_.
     bind_r (sync_state_new P tree_depth) (\<lambda>s0.
     let run = bind_s (process_new_submissions rpc genesis_block latest_block chunk_blocks) (\<lambda>_.
         bind_s (lift_s (collect_proven_batches rpc genesis_block latest_block chunk_blocks)) (\<lambda>proven.
         bind_s (replay_all P rpc genesis_block latest_block chunk_blocks proven) (\<lambda>_.
         bind_s (sync_config_tree P T rpc genesis_block latest_block chunk_blocks genesis_block) (\<lambda>_.
         bind_s (sync_deposits rpc genesis_block latest_block chunk_blocks) (\<lambda>_.
           modify_s (\<lambda>s. s\<lparr>last_synced_block := latest_block\<rparr>))))))
     in case run s0 of (Inl e, _) \<Rightarrow> Inl e | (Inr _, s) \<Rightarrow> Inr s)))))"

subsection \<open>Paging is complete\<close>

lemma fetch_pages_all:
  assumes logs: "\<And>a b. start \<le> a \<Longrightarrow> a \<le> b \<Longrightarrow> b \<le> to_block \<Longrightarrow>
      get_logs rpc ev None a b = Inr (concat (map L [a..<Suc b]))"
    and "0 < chunk" and "to_block + chunk < 2 ^ 64" and "Suc to_block - start \<le> fuel"
  shows "fetch_pages fuel rpc ev start to_block chunk acc = Inr (acc @ concat (map L [start..<Suc to_block]))"
  using assms
proof (induction fuel arbitrary: start acc)
  case (Suc fuel)
  show ?case
  proof (cases "start \<le> to_block")
    case True
    define e where "e = min (start + chunk - 1) to_block"
    have e: "start \<le> e" "e \<le> to_block" using True Suc.prems(2) by (auto simp: e_def)
    have split: "[start..<Suc to_block] = [start..<Suc e] @ [Suc e..<Suc to_block]"
      using e upt_add_eq_append [of start "Suc e" "to_block - e"] by simp
    have IH: "fetch_pages fuel rpc ev (Suc e) to_block chunk (acc @ concat (map L [start..<Suc e]))
        = Inr ((acc @ concat (map L [start..<Suc e])) @ concat (map L [Suc e..<Suc to_block]))"
      by (rule Suc.IH) (use Suc.prems e in auto)
    have arith: "add_u64 start chunk = (Inr (start + chunk) :: (sync_error, nat) result)"
      "sub_u64 (start + chunk) 1 = (Inr (start + chunk - 1) :: (sync_error, nat) result)"
      "add_u64 e 1 = (Inr (Suc e) :: (sync_error, nat) result)"
      using True Suc.prems(2,3) e(2) by (simp_all add: add_u64_def sub_u64_def)
    have logs: "get_logs rpc ev None start e = Inr (concat (map L [start..<Suc e]))"
      using Suc.prems(1) e by blast
    show ?thesis
      by (simp only: fetch_pages.simps True if_True arith bind_r_Inr Let_def e_def [symmetric] logs IH)
         (simp only: split map_append concat_append append_assoc)
  qed simp
qed simp

text \<open>With a page size of zero the loop makes no progress, whatever the fuel.\<close>

lemma fetch_pages_zero_chunk:
  assumes "0 < start" and "start \<le> to_block" and "to_block < 2 ^ 64"
    and "get_logs rpc ev None start (start - 1) = Inr xs"
  shows "fetch_pages fuel rpc ev start to_block 0 acc = Inl (Panic Out_of_fuel)"
  using assms
  by (induction fuel arbitrary: acc) (auto simp: add_u64_def sub_u64_def Let_def)

subsection \<open>What every operation preserves\<close>

text \<open>
  \<open>grows P s s'\<close>: the state stays well-formed, the state tree is only appended to, and nothing
  confirmed is ever taken back.
\<close>

definition grows :: "hasher \<Rightarrow> sync_state \<Rightarrow> sync_state \<Rightarrow> bool" where
  "grows P s s' \<longleftrightarrow> state_ok P s'
     \<and> depth (state_tree s') = depth (state_tree s)
     \<and> (\<exists>ls. leaves (state_tree s') = leaves (state_tree s) @ ls)
     \<and> confirmed_nullifiers s \<subseteq> confirmed_nullifiers s'
     \<and> confirmed_roots s \<subseteq> confirmed_roots s'
     \<and> confirmed_tx_batches s \<subseteq> confirmed_tx_batches s'
     \<and> confirmed_bridge_tx_batches s \<subseteq> confirmed_bridge_tx_batches s'"

lemma grows_refl: "state_ok P s \<Longrightarrow> grows P s s"
  by (simp add: grows_def)

lemma grows_trans: "grows P s s1 \<Longrightarrow> grows P s1 s2 \<Longrightarrow> grows P s s2"
  by (auto simp: grows_def)

lemma grows_ok: "grows P s s' \<Longrightarrow> state_ok P s'"
  by (simp add: grows_def)

text \<open>An update that touches neither the tree nor anything confirmed.\<close>

lemma grows_frame:
  assumes "grows P s0 s" and "state_tree s' = state_tree s" and "confirmed_nullifiers s' = confirmed_nullifiers s"
    and "confirmed_roots s' = confirmed_roots s" and "confirmed_tx_batches s' = confirmed_tx_batches s"
    and "confirmed_bridge_tx_batches s' = confirmed_bridge_tx_batches s"
    and "\<And>pi ls. pending_batch_leaves s' pi = Some ls \<Longrightarrow> length ls = 512"
  shows "grows P s0 s'"
  using assms by (simp add: grows_def state_ok_def)

lemma grows_frame_all:
  assumes "grows P s0 s" and "state_tree s' = state_tree s" and "confirmed_nullifiers s' = confirmed_nullifiers s"
    and "confirmed_roots s' = confirmed_roots s" and "confirmed_tx_batches s' = confirmed_tx_batches s"
    and "confirmed_bridge_tx_batches s' = confirmed_bridge_tx_batches s"
    and "pending_batch_leaves s' = pending_batch_leaves s"
  shows "grows P s0 s'"
  using assms by (simp add: grows_def state_ok_def)

lemma grows_len: "grows P s0 s \<Longrightarrow> pending_batch_leaves s pi = Some ls \<Longrightarrow> length ls = 512"
  by (simp add: grows_def state_ok_def)

lemma grows_add_commitment: "grows P s0 s \<Longrightarrow> grows P s0 (add_pending_commitment c pi i s)"
  by (rule grows_frame) (auto simp: add_pending_commitment_def Let_def dest: grows_len split: if_splits option.splits)

lemma grows_add_nullifier: "grows P s0 s \<Longrightarrow> grows P s0 (add_pending_nullifier n pi s)"
  by (rule grows_frame) (auto simp: add_pending_nullifier_def dest: grows_len)

lemma grows_apply_tx:
  assumes "apply_tx_preimage pre pi s = Inr s'" and "grows P s0 s"
  shows "grows P s0 s'"
proof -
  have comm: "grows P s0 t'" if "apply_tx_commitments pre pi k t = Inr t'" "grows P s0 t" for k t t'
    using that
    by (auto simp: apply_tx_commitments_def Let_def bind_r_eq_Inr intro: grows_add_commitment
        elim!: for_each_inv [where P = "grows P s0"])
  have null: "grows P s0 t'" if "apply_tx_nullifiers pre pi k t = Inr t'" "grows P s0 t" for k t t'
    using that
    by (auto simp: apply_tx_nullifiers_def Let_def bind_r_eq_Inr intro: grows_add_nullifier
        elim!: for_each_inv [where P = "grows P s0"] split: if_splits)
  obtain s1 s2 where s1: "for_each (apply_tx_commitments pre pi) [0..<PRIV_TX_BATCH_SIZE] s = Inr s1"
    and s2: "for_each (apply_tx_nullifiers pre pi) [0..<PRIV_TX_BATCH_SIZE] s1 = Inr s2"
    and s': "s' = s2\<lparr>pending_tx_batches := (pending_tx_batches s2)(pi \<mapsto> pre)\<rparr>"
    using assms(1) by (auto simp: apply_tx_preimage_def bind_r_eq_Inr)
  have "grows P s0 s1" using for_each_inv [OF s1, where P = "grows P s0"] assms(2) comm by blast
  then have "grows P s0 s2" using for_each_inv [OF s2, where P = "grows P s0"] null by blast
  then show ?thesis by (rule grows_frame) (auto simp: s' dest: grows_len [OF \<open>grows P s0 s2\<close>])
qed

lemma grows_apply_bridge:
  assumes "apply_bridge_preimage pre pi s = Inr s'" and "grows P s0 s"
  shows "grows P s0 s'"
proof -
  have slot: "grows P s0 t'" if "apply_bridge_slot pre pi off co no i t = Inr t'" "grows P s0 t" for off co no i t t'
    using that
    by (auto simp: apply_bridge_slot_def Let_def bind_r_eq_Inr intro: grows_add_commitment grows_add_nullifier
        split: if_splits)
  obtain s1 s2 where s1: "for_each (\<lambda>s. apply_bridge_slot pre pi (TX_HEADER_SIZE + s * W_SLOT_SIZE)
         W_ACCOUT_COMM_OFF W_ACCIN_NULL_OFF s) [0..<BRIDGE_TX_HALF_SIZE] s = Inr s1"
    and s2: "for_each (\<lambda>s. apply_bridge_slot pre pi (D_SECTION_OFF + s * D_SLOT_SIZE)
         D_ACCOUT_COMM_OFF D_ACCIN_NULL_OFF (256 + s)) [0..<BRIDGE_TX_HALF_SIZE] s1 = Inr s2"
    and s': "s' = s2\<lparr>pending_bridge_tx_batches := (pending_bridge_tx_batches s2)(pi \<mapsto> pre)\<rparr>"
    using assms(1) by (auto simp: apply_bridge_preimage_def bind_r_eq_Inr)
  have "grows P s0 s1" using for_each_inv [OF s1, where P = "grows P s0"] assms(2) slot by blast
  then have "grows P s0 s2" using for_each_inv [OF s2, where P = "grows P s0"] slot by blast
  then show ?thesis by (rule grows_frame) (auto simp: s' dest: grows_len [OF \<open>grows P s0 s2\<close>])
qed

lemma grows_confirm_batch:
  assumes "grows P s0 s"
  shows "grows P s0 (snd (confirm_batch P pi br nr s))"
proof (cases "num_leaves (state_tree s) < 2 ^ depth (state_tree s)")
  case True
  let ?s1 = "s\<lparr>state_tree := canonical_tree (hash_output_hash P) (depth (state_tree s)) (leaves (state_tree s) @ [br]),
         batch_root_to_leaf_index := (batch_root_to_leaf_index s)(hash_to_bytes32 br \<mapsto> num_leaves (state_tree s)),
         pending_batch_leaves := (pending_batch_leaves s)(pi := None),
         confirmed_batch_subtrees := (case pending_batch_leaves s pi of
             None \<Rightarrow> confirmed_batch_subtrees s
           | Some ls \<Rightarrow> (confirmed_batch_subtrees s)(pi \<mapsto>
               canonical_tree (hash_output_hash P) BATCH_SUBTREE_DEPTH ls))\<rparr>"
  have run: "confirm_batch P pi br nr s = (Inr (), finish_confirm pi br nr ?s1)"
    using confirm_batch_cases [OF grows_ok [OF assms], of pi br nr] True by simp
  have "state_ok P (finish_confirm pi br nr ?s1)"
    using grows_ok [OF assms] True by (simp add: state_ok_def num_leaves_def)
  then have "grows P s (finish_confirm pi br nr ?s1)"
    by (auto simp: grows_def)
  with assms show ?thesis unfolding run snd_conv by (rule grows_trans)
next
  case False
  with confirm_batch_cases [OF grows_ok [OF assms], of pi br nr] assms show ?thesis by simp
qed

text \<open>Operations that preserve \<open>grows\<close>, closed under sequencing.\<close>

definition keeps :: "hasher \<Rightarrow> (sync_state, sync_error, 'a) op \<Rightarrow> bool" where
  "keeps P m \<longleftrightarrow> (\<forall>s0 s. grows P s0 s \<longrightarrow> grows P s0 (snd (m s)))"

named_theorems keeps_intros "operations that keep what is confirmed"

lemma keeps_bind [keeps_intros]: "keeps P m \<Longrightarrow> (\<And>a. keeps P (f a)) \<Longrightarrow> keeps P (bind_s m f)"
  unfolding keeps_def by (blast intro: bind_s_inv)

lemma keeps_for_each [keeps_intros]: "(\<And>i. keeps P (f i)) \<Longrightarrow> keeps P (for_each_s f is)"
  unfolding keeps_def by (blast intro: for_each_s_inv)

lemma keeps_lift [keeps_intros]: "keeps P (lift_s r)"
  by (simp add: keeps_def)

lemma keeps_get [keeps_intros]: "keeps P (get_s f)"
  by (simp add: keeps_def)

lemma keeps_if [keeps_intros]: "keeps P m \<Longrightarrow> keeps P m' \<Longrightarrow> keeps P (if b then m else m')"
  by simp

lemma keeps_modify:
  "(\<And>s0 s. grows P s0 s \<Longrightarrow> grows P s0 (g s)) \<Longrightarrow> keeps P (modify_s g)"
  by (simp add: keeps_def)

lemma keeps_update:
  "(\<And>s0 s s'. f s = Inr s' \<Longrightarrow> grows P s0 s \<Longrightarrow> grows P s0 s') \<Longrightarrow> keeps P (update_s f)"
  by (auto simp: keeps_def update_s_def split: sum.split)

lemma keeps_fetch_and_apply [keeps_intros]: "keeps P (fetch_and_apply rpc kind pi h)"
  unfolding fetch_and_apply_def
  by (intro keeps_intros keeps_update)
     (cases kind; auto simp: apply_preimage_def intro: grows_apply_tx grows_apply_bridge)

lemma keeps_submit_one [keeps_intros]: "keeps P (submit_one rpc kind e)"
  unfolding submit_one_def by (cases e) (simp, intro keeps_intros)

lemma keeps_submissions [keeps_intros]: "keeps P (process_new_submissions rpc a b c)"
  unfolding process_new_submissions_def by (intro keeps_intros)

lemma keeps_confirm [keeps_intros]: "keeps P (confirm_batch P pi br nr)"
  unfolding keeps_def by (blast intro: grows_confirm_batch)

lemma keeps_replay [keeps_intros]: "keeps P (replay_proven P rpc g t c e)"
  unfolding replay_proven_def
  by (intro keeps_intros, auto intro!: keeps_intros split: option.split)

lemma keeps_replay_all [keeps_intros]: "keeps P (replay_all P rpc g t c es)"
  unfolding replay_all_def by (intro keeps_intros)

lemma drain_frame:
  "state_tree (drain_assignments s) = state_tree s
   \<and> confirmed_nullifiers (drain_assignments s) = confirmed_nullifiers s
   \<and> confirmed_roots (drain_assignments s) = confirmed_roots s
   \<and> confirmed_tx_batches (drain_assignments s) = confirmed_tx_batches s
   \<and> confirmed_bridge_tx_batches (drain_assignments s) = confirmed_bridge_tx_batches s
   \<and> pending_batch_leaves (drain_assignments s) = pending_batch_leaves s"
proof (induction s rule: drain_assignments.induct)
  case (1 s)
  show ?case
  proof (cases "map_of (pending_subpool_assignments s) (next_expected_subpool_id s)")
    case None
    then show ?thesis by (simp add: drain_assignments.simps [of s])
  next
    case (Some ev)
    with "1.IH" [OF Some] show ?thesis
      by (simp add: drain_assignments.simps [of s] register_subpool_def)
  qed
qed

lemma grows_assign: "grows P s0 s \<Longrightarrow> grows P s0 (assign_subpool ev s)"
  by (erule grows_frame_all)
     (simp_all add: assign_subpool_def drain_frame register_subpool_def)

lemma grows_fold: "(\<And>x s. grows P s0 s \<Longrightarrow> grows P s0 (f x s)) \<Longrightarrow> grows P s0 s \<Longrightarrow> grows P s0 (fold f xs s)"
  by (induction xs arbitrary: s) auto

lemma keeps_config [keeps_intros]: "keeps P (sync_config_tree P T rpc a b c g)"
proof -
  have root: "keeps P (set_subpool_root i r)" for i r
    unfolding set_subpool_root_def
    by (intro keeps_intros keeps_modify, erule grows_frame_all) simp_all
  have "keeps P (update_s (rebuild_config_tree P T))"
    by (rule keeps_update, erule grows_frame_all) (auto simp: rebuild_config_tree_def bind_r_eq_Inr)
  then show ?thesis
    unfolding sync_config_tree_def
    by (intro keeps_intros keeps_modify grows_fold grows_assign root; auto intro: root)
qed

lemma keeps_deposits [keeps_intros]: "keeps P (sync_deposits rpc a b c)"
proof -
  have "grows P s0 s \<Longrightarrow> grows P s0 (deposit_available d n s)" for s0 s d n
    by (erule grows_frame_all) (simp_all add: deposit_available_def split: prod.split)
  moreover have "grows P s0 s \<Longrightarrow> grows P s0 (deposit_set_status st x s)" for s0 s st x
    by (erule grows_frame_all) (simp_all add: deposit_set_status_def)
  ultimately show ?thesis
    unfolding sync_deposits_def
    by (intro keeps_intros keeps_modify grows_fold) (auto split: option.split)
qed

lemma keeps_poll: "keeps P (poll_sync P T rpc g c)"
  unfolding poll_sync_def
  by (intro keeps_intros keeps_modify, erule grows_frame_all) simp_all

subsection \<open>Buffered subpool assignments\<close>

text \<open>
  \<open>assigned ids s\<close>: the subpools registered are those below the first id not seen yet, and the
  buffer holds the ids seen above it. \<open>assigned_pre\<close> is the same before the buffer is drained.
\<close>

definition assigned_pre :: "nat set \<Rightarrow> sync_state \<Rightarrow> bool" where
  "assigned_pre ids s \<longleftrightarrow> 1 \<le> next_expected_subpool_id s
     \<and> {1..<next_expected_subpool_id s} \<subseteq> ids
     \<and> fst ` set (subpool_roots s) = {1..<next_expected_subpool_id s}
     \<and> fst ` set (pending_subpool_assignments s) = {i \<in> ids. next_expected_subpool_id s \<le> i}
     \<and> (\<forall>(k, ev) \<in> set (pending_subpool_assignments s). ev_subpool_id ev = k)"

definition assigned :: "nat set \<Rightarrow> sync_state \<Rightarrow> bool" where
  "assigned ids s \<longleftrightarrow> assigned_pre ids s \<and> next_expected_subpool_id s \<notin> ids"

lemma fst_set_update: "fst ` set (AList.update k v al) = {k} \<union> fst ` set al"
  by (induction al) auto

lemma fst_set_delete: "fst ` set (AList.delete k al) = fst ` set al - {k}"
  by (auto simp: AList.delete_eq)

lemma register_keys:
  assumes "fst ` set (subpool_roots s) = {1..<next_expected_subpool_id s}" and "1 \<le> next_expected_subpool_id s"
  shows "fst ` set (subpool_roots (register_subpool (next_expected_subpool_id s) s))
    = {1..<Suc (next_expected_subpool_id s)}"
proof -
  have "map_of (subpool_roots s) (next_expected_subpool_id s) = None"
    by (simp add: map_of_eq_None_iff assms(1))
  then show ?thesis using assms by (auto simp: register_subpool_def fst_set_update)
qed

lemma drain_assigned: "assigned_pre ids s \<Longrightarrow> assigned ids (drain_assignments s)"
proof (induction s rule: drain_assignments.induct)
  case (1 s)
  let ?n = "next_expected_subpool_id s" and ?p = "pending_subpool_assignments s"
  show ?case
  proof (cases "map_of ?p ?n")
    case None
    then have "?n \<notin> fst ` set ?p" by (simp add: map_of_eq_None_iff)
    with None "1.prems" show ?thesis
      by (auto simp: drain_assignments.simps [of s] assigned_def assigned_pre_def)
  next
    case (Some ev)
    have mem: "(?n, ev) \<in> set ?p" using Some by (rule map_of_SomeD)
    then have ev: "ev_subpool_id ev = ?n"
      using "1.prems" unfolding assigned_pre_def by blast
    have "?n \<in> fst ` set ?p" using mem by force
    then have n: "?n \<in> ids" using "1.prems" unfolding assigned_pre_def by auto
    let ?s' = "register_subpool (ev_subpool_id ev) (s\<lparr>pending_subpool_assignments := AList.delete ?n ?p\<rparr>)"
    have "assigned_pre ids ?s'"
    proof -
      have "fst ` set (subpool_roots ?s') = {1..<Suc ?n}"
        using register_keys [of "s\<lparr>pending_subpool_assignments := AList.delete ?n ?p\<rparr>"] "1.prems" ev
        by (simp add: assigned_pre_def)
      moreover have "fst ` set (AList.delete ?n ?p) = {i \<in> ids. Suc ?n \<le> i}"
        using "1.prems" by (auto simp: assigned_pre_def fst_set_delete)
      moreover have "\<forall>(k, ev) \<in> set (AList.delete ?n ?p). ev_subpool_id ev = k"
        using "1.prems" by (auto simp: assigned_pre_def AList.delete_eq)
      ultimately show ?thesis
        using "1.prems" n by (auto simp: assigned_pre_def register_subpool_def less_Suc_eq)
    qed
    with "1.IH" [OF Some] Some show ?thesis by (simp add: drain_assignments.simps [of s])
  qed
qed

lemma assign_assigned:
  assumes "assigned ids s"
  shows "assigned (if ev_subpool_id ev = 0 then ids else ids \<union> {ev_subpool_id ev}) (assign_subpool ev s)"
proof -
  let ?n = "next_expected_subpool_id s" and ?k = "ev_subpool_id ev"
  have pre: "assigned_pre ids s" "?n \<notin> ids" using assms by (simp_all add: assigned_def)
  then have n: "1 \<le> ?n" by (simp add: assigned_pre_def)
  consider "?k = ?n" | "?n < ?k" | "?k < ?n" by linarith
  then show ?thesis
  proof cases
    case 1
    have "assigned_pre (ids \<union> {?n}) (register_subpool ?n s)"
    proof -
      have "fst ` set (subpool_roots (register_subpool ?n s)) = {1..<Suc ?n}"
        using register_keys pre(1) by (simp add: assigned_pre_def)
      moreover have "{i \<in> ids \<union> {?n}. Suc ?n \<le> i} = {i \<in> ids. ?n \<le> i}"
        using pre(2) by (auto simp: Suc_le_eq order_le_less)
      ultimately show ?thesis
        using pre(1) by (auto simp: assigned_pre_def register_subpool_def less_Suc_eq)
    qed
    with drain_assigned 1 n show ?thesis by (simp add: assign_subpool_def)
  next
    case 2
    have "\<forall>(k, ev) \<in> set (AList.update ?k ev (pending_subpool_assignments s)). ev_subpool_id ev = k"
    proof -
      have "set (AList.update ?k ev al) \<subseteq> {(?k, ev)} \<union> set al" for al :: "(nat \<times> subpool_assigned_event) list"
        by (induction al) auto
      with pre(1) show ?thesis by (fastforce simp: assigned_pre_def)
    qed
    with 2 pre n show ?thesis
      by (auto simp: assign_subpool_def assigned_def assigned_pre_def fst_set_update)
  next
    case 3
    with pre n show ?thesis
      by (auto simp: assign_subpool_def assigned_def assigned_pre_def)
  qed
qed

lemma fold_assigned:
  "assigned ids s \<Longrightarrow> assigned (ids \<union> (ev_subpool_id ` set evs - {0})) (fold assign_subpool evs s)"
proof (induction evs arbitrary: ids s)
  case (Cons ev evs)
  let ?ids = "if ev_subpool_id ev = 0 then ids else ids \<union> {ev_subpool_id ev}"
  have "assigned (?ids \<union> (ev_subpool_id ` set evs - {0})) (fold assign_subpool evs (assign_subpool ev s))"
    by (rule Cons.IH) (rule assign_assigned [OF Cons.prems])
  moreover have "?ids \<union> (ev_subpool_id ` set evs - {0}) = ids \<union> (ev_subpool_id ` set (ev # evs) - {0})"
    by auto
  ultimately show ?case by simp
qed simp

subsection \<open>Rebuilding the configuration tree\<close>

lemma small_id:
  assumes "n < 2 ^ MAIN_POOL_CONFIG_DEPTH"
  shows "canonical (of_nat n :: felt)" and "unat (of_nat n :: felt) = n"
  using assms by (simp_all add: canonical_unat unat_of_nat unat_PRIME MAIN_POOL_CONFIG_DEPTH_def)

text \<open>Inserting ids in ascending order succeeds exactly when they are 1, 2, 3, \<open>\<dots>\<close>.\<close>

lemma rebuild_loop:
  assumes "\<And>k r. (k, r) \<in> set kvs \<Longrightarrow> Suc k < 2 ^ MAIN_POOL_CONFIG_DEPTH"
    and "length kvs < 2 ^ MAIN_POOL_CONFIG_DEPTH"
  shows "if map fst kvs = [1..<Suc (length kvs)]
    then \<exists>c. for_each (\<lambda>(id, r) c. unwrap_r (insert_subpool_at_position P T (of_nat id) r c)) kvs
        (main_pool_new P) = (Inr c :: (sync_error, main_pool_config_tree) result) \<and> pool_rep P T c (map snd kvs)
    else \<exists>p. for_each (\<lambda>(id, r) c. unwrap_r (insert_subpool_at_position P T (of_nat id) r c)) kvs
        (main_pool_new P) = (Inl (Panic p) :: (sync_error, main_pool_config_tree) result)"
  using assms
proof (induction kvs rule: rev_induct)
  case Nil
  then show ?case by (simp add: main_pool_new_rep)
next
  case (snoc kv kvs)
  let ?f = "\<lambda>(id, r) c. unwrap_r (insert_subpool_at_position P T (of_nat id) r c)
      :: (sync_error, main_pool_config_tree) result"
  obtain k r where kv: "kv = (k, r)" by (cases kv)
  have k: "Suc k < 2 ^ MAIN_POOL_CONFIG_DEPTH" and len: "Suc (length kvs) < 2 ^ MAIN_POOL_CONFIG_DEPTH"
    using snoc.prems kv by auto
  have iff: "map fst (kvs @ [kv]) = [1..<Suc (length (kvs @ [kv]))] \<longleftrightarrow>
      map fst kvs = [1..<Suc (length kvs)] \<and> k = Suc (length kvs)"
    by (simp add: kv)
  have IH: "if map fst kvs = [1..<Suc (length kvs)]
    then \<exists>c. for_each ?f kvs (main_pool_new P) = Inr c \<and> pool_rep P T c (map snd kvs)
    else \<exists>p. for_each ?f kvs (main_pool_new P) = Inl (Panic p)"
    by (rule snoc.IH) (use snoc.prems in auto)
  show ?case
  proof (cases "map fst kvs = [1..<Suc (length kvs)]")
    case True
    then obtain c where c: "for_each ?f kvs (main_pool_new P) = Inr c" "pool_rep P T c (map snd kvs)"
      using IH by auto
    have small: "canonical (of_nat k :: felt)" "unat (of_nat k :: felt) = k"
      using small_id [of k] k by simp_all
    have "let id = k in
      if id = 0 then insert_subpool_at_position P T (of_nat k) r c = Inl (Err Reserved_subpool)
      else if id = Suc (length kvs)
        then \<exists>c'. insert_subpool_at_position P T (of_nat k) r c = Inr c' \<and> pool_rep P T c' (map snd kvs @ [r])
      else if id = 1 then insert_subpool_at_position P T (of_nat k) r c = Inl (Panic Assertion_failed)
      else insert_subpool_at_position P T (of_nat k) r c = Inl (Err Not_sequential)"
      using insert_subpool_branches [OF c(2), of "of_nat k" r] len
      unfolding small(2) length_map by (simp only: small(1) simp_thms)
    then show ?thesis
      using True c(1) unfolding iff
      by (auto simp: for_each_snoc kv Let_def split: if_splits)
  next
    case False
    with IH iff show ?thesis by (auto simp: for_each_snoc)
  qed
qed

lemma sorted_keys:
  assumes "distinct (map fst kvs)"
  shows "map fst (sort_key fst kvs) = [1..<Suc (length kvs)] \<longleftrightarrow> fst ` set kvs = {1..length kvs}"
proof
  assume "map fst (sort_key fst kvs) = [1..<Suc (length kvs)]"
  then have "set (map fst (sort_key fst kvs)) = set [1..<Suc (length kvs)]" by (simp only:)
  then show "fst ` set kvs = {1..length kvs}" by auto
next
  assume keys: "fst ` set kvs = {1..length kvs}"
  show "map fst (sort_key fst kvs) = [1..<Suc (length kvs)]"
  proof (rule sorted_distinct_set_unique)
    show "sorted (map fst (sort_key fst kvs))" by simp
    show "distinct (map fst (sort_key fst kvs))" using assms by (simp add: distinct_map)
    show "set (map fst (sort_key fst kvs)) = set [1..<Suc (length kvs)]" using keys by auto
    show "sorted [1..<Suc (length kvs)]" by (rule sorted_upt)
    show "distinct [1..<Suc (length kvs)]" by (rule distinct_upt)
  qed
qed

lemma map_snd_by_key:
  assumes "distinct (map fst kvs)" and "set kvs' = set kvs"
  shows "map snd kvs' = map (\<lambda>i. the (map_of kvs i)) (map fst kvs')"
proof -
  have "snd kv = the (map_of kvs (fst kv))" if "kv \<in> set kvs'" for kv
  proof -
    have "map_of kvs (fst kv) = Some (snd kv)"
      using that assms by (intro map_of_is_SomeI) auto
    then show ?thesis by simp
  qed
  then show ?thesis by simp
qed

subsection \<open>An example provider\<close>

text \<open>A provider whose block \<open>b\<close> holds the single log \<open>b\<close> of every event, none of which decodes.\<close>

definition demo_rpc :: "nat rpc" where
  "demo_rpc = \<lparr>get_block_number = Inr 9, get_logs = (\<lambda>ev topic a b. Inr [a..<Suc b]),
     get_transaction_input = (\<lambda>h. Inr []), call_treeDepth = Inr 32, call_configTreeDepth = Inr 20,
     call_subpoolRoots = (\<lambda>i. Inr 0), decode_submitted = (\<lambda>k l. None), transaction_hash = (\<lambda>l. None),
     decode_proven = (\<lambda>k l. None), decode_assigned = (\<lambda>l. None), decode_root_updated = (\<lambda>l. None),
     decode_deposit_available = (\<lambda>l. None), decode_deposit_validated = (\<lambda>l. None),
     decode_deposit_withdrawn = (\<lambda>l. None), block_number = Some, log_index = (\<lambda>l. None),
     abi_decode_batch = (\<lambda>k b. None)\<rparr>"

lemma demo_rpc_logs [simp]: "get_logs demo_rpc ev topic a b = Inr [a..<Suc b]"
  by (simp add: demo_rpc_def)

definition demo_event :: "nat \<Rightarrow> subpool_assigned_event" where
  "demo_event k = \<lparr>ev_subpool_id = k, ev_owner = [], ev_block = 0, ev_log_index = 0\<rparr>"

subsection \<open>Properties\<close>





text \<open>
  Subpool assignments may arrive in any order: after any sequence of assignment events the
  registered subpools are exactly those below the first id that has not been announced, and the
  buffer holds exactly the announced ids above it. In particular permuted sequences register the
  same subpools.
\<close>

theorem assignment_order_irrelevant:
  assumes "next_expected_subpool_id s = 1" and "subpool_roots s = []" and "pending_subpool_assignments s = []"
    and "s' = fold assign_subpool evs s"
  shows "next_expected_subpool_id s' = (LEAST i. 1 \<le> i \<and> i \<notin> ev_subpool_id ` set evs)
    \<and> fst ` set (subpool_roots s') = {1..<next_expected_subpool_id s'}
    \<and> fst ` set (pending_subpool_assignments s')
        = {i \<in> ev_subpool_id ` set evs. next_expected_subpool_id s' < i}"
proof -
  let ?ids = "ev_subpool_id ` set evs - {0}"
  have "assigned {} s" using assms(1-3) by (simp add: assigned_def assigned_pre_def)
  from fold_assigned [OF this, of evs] have *: "assigned ?ids s'" by (simp add: assms(4))
  have "(LEAST i. 1 \<le> i \<and> i \<notin> ev_subpool_id ` set evs) = next_expected_subpool_id s'"
  proof (rule Least_equality)
    show "1 \<le> next_expected_subpool_id s' \<and> next_expected_subpool_id s' \<notin> ev_subpool_id ` set evs"
      using * by (auto simp: assigned_def assigned_pre_def)
    show "next_expected_subpool_id s' \<le> y" if "1 \<le> y \<and> y \<notin> ev_subpool_id ` set evs" for y
      using * that by (fastforce simp: assigned_def assigned_pre_def subset_iff not_le)
  qed
  moreover have "{i \<in> ?ids. next_expected_subpool_id s' \<le> i}
      = {i \<in> ev_subpool_id ` set evs. next_expected_subpool_id s' < i}"
    using * by (auto simp: assigned_def assigned_pre_def order_le_less)
  ultimately show ?thesis using * by (auto simp: assigned_def assigned_pre_def)
qed

theorem assignment_order_irrelevant_witness:
  "\<exists>s. sync_state_new demo_hasher 32 = Inr s
    \<and> fst ` set (subpool_roots (fold assign_subpool [demo_event 3, demo_event 5, demo_event 1, demo_event 2] s))
        = {1..<4}"
proof -
  obtain s where s: "sync_state_new demo_hasher 32 = Inr s" "subpool_roots s = []"
    "next_expected_subpool_id s = 1" "pending_subpool_assignments s = []"
    by (rule sync_state_new_ok [of 32 demo_hasher]) auto
  have "(LEAST i. 1 \<le> i \<and> i \<notin> ev_subpool_id ` set [demo_event 3, demo_event 5, demo_event 1, demo_event 2])
      = (4 :: nat)"
    by (rule Least_equality) (auto simp: demo_event_def)
  with assignment_order_irrelevant [OF s(3) s(2) s(4) refl,
      of "[demo_event 3, demo_event 5, demo_event 1, demo_event 2]"] s(1)
  show ?thesis by auto
qed

text \<open>
  The configuration tree is rebuilt from the known roots exactly when their ids are contiguous
  from 1, and then it represents the roots in id order; with any gap, for instance after a
  \<^verbatim>\<open>SubpoolRootUpdated\<close> event of a subpool that is still buffered, the service panics.
\<close>

theorem rebuild_config_tree_exact:
  assumes "distinct (map fst (subpool_roots s))"
    and "\<And>k r. (k, r) \<in> set (subpool_roots s) \<Longrightarrow> Suc k < 2 ^ MAIN_POOL_CONFIG_DEPTH"
    and "length (subpool_roots s) < 2 ^ MAIN_POOL_CONFIG_DEPTH"
  shows "if fst ` set (subpool_roots s) = {1..length (subpool_roots s)}
    then \<exists>c. rebuild_config_tree P T s = Inr (s\<lparr>config_tree := c\<rparr>)
      \<and> pool_rep P T c (map (\<lambda>i. the (map_of (subpool_roots s) i)) [1..<Suc (length (subpool_roots s))])
    else \<exists>p. rebuild_config_tree P T s = Inl (Panic p)"
proof -
  let ?kvs = "sort_key fst (subpool_roots s)"
  have snd: "map snd ?kvs = map (\<lambda>i. the (map_of (subpool_roots s) i)) (map fst ?kvs)"
    using map_snd_by_key [OF assms(1), of ?kvs] by simp
  have loop: "if map fst ?kvs = [1..<Suc (length (subpool_roots s))]
    then \<exists>c. for_each (\<lambda>(id, r) c. unwrap_r (insert_subpool_at_position P T (of_nat id) r c)) ?kvs
        (main_pool_new P) = (Inr c :: (sync_error, main_pool_config_tree) result) \<and> pool_rep P T c (map snd ?kvs)
    else \<exists>p. for_each (\<lambda>(id, r) c. unwrap_r (insert_subpool_at_position P T (of_nat id) r c)) ?kvs
        (main_pool_new P) = (Inl (Panic p) :: (sync_error, main_pool_config_tree) result)"
    using rebuild_loop [of ?kvs P T] assms(2,3) by (simp del: upt_Suc)
  show ?thesis
  proof (cases "fst ` set (subpool_roots s) = {1..length (subpool_roots s)}")
    case True
    with sorted_keys [OF assms(1)] loop snd show ?thesis
      by (auto simp: rebuild_config_tree_def simp del: upt_Suc)
  next
    case False
    with sorted_keys [OF assms(1)] loop show ?thesis
      by (auto simp: rebuild_config_tree_def simp del: upt_Suc)
  qed
qed

theorem rebuild_config_tree_exact_witness:
  "\<exists>s p. sync_state_new demo_hasher 32 = Inr s
    \<and> rebuild_config_tree demo_hasher (\<lambda>l r. demo_hasher (elems l @ elems r))
        (s\<lparr>subpool_roots := [(1, ZERO_hash), (3, ZERO_hash)]\<rparr>) = Inl (Panic p)"
proof -
  let ?T = "\<lambda>l r. demo_hasher (elems l @ elems r)" and ?r = "[(1, ZERO_hash), (3, ZERO_hash)]"
  obtain s where s: "sync_state_new demo_hasher 32 = Inr s"
    by (rule sync_state_new_ok [of 32 demo_hasher]) auto
  have "if fst ` set (subpool_roots (s\<lparr>subpool_roots := ?r\<rparr>)) = {1..length (subpool_roots (s\<lparr>subpool_roots := ?r\<rparr>))}
    then \<exists>c. rebuild_config_tree demo_hasher ?T (s\<lparr>subpool_roots := ?r\<rparr>) = Inr (s\<lparr>subpool_roots := ?r\<rparr>\<lparr>config_tree := c\<rparr>)
      \<and> pool_rep demo_hasher ?T c (map (\<lambda>i. the (map_of (subpool_roots (s\<lparr>subpool_roots := ?r\<rparr>)) i))
          [1..<Suc (length (subpool_roots (s\<lparr>subpool_roots := ?r\<rparr>)))])
    else \<exists>p. rebuild_config_tree demo_hasher ?T (s\<lparr>subpool_roots := ?r\<rparr>) = Inl (Panic p)"
    by (rule rebuild_config_tree_exact) (auto simp: MAIN_POOL_CONFIG_DEPTH_def)
  moreover have "fst ` set ?r \<noteq> {1..length ?r}" by auto
  ultimately show ?thesis using s by (simp split: if_splits)
qed

end
