(* ===== verification/Batch_Replay.thy ===== *)
theory Batch_Replay
  imports Sync_Replay
begin

section \<open>What a batch preimage does to the state\<close>

text \<open>
  The functional meaning of \<^verbatim>\<open>apply_tx_preimage\<close> and \<^verbatim>\<open>apply_bridge_preimage\<close> on arbitrary
  bytes: every field of the preimage is one 8-byte aligned element \<open>preimage_field\<close>, every digest
  four consecutive ones. From it follow the leaves of the pending batch, the location of every
  commitment and the pending nullifiers, and that a preimage with a limb outside the field makes
  the service panic.
\<close>

subsection \<open>Fields\<close>

definition preimage_field :: "bytes \<Rightarrow> nat \<Rightarrow> felt" where
  "preimage_field pre k =
     join32 (u32_from_be_bytes (slice_at pre (k * 8) 4)) (u32_from_be_bytes (slice_at pre (k * 8 + 4) 4))"

definition preimage_hash :: "bytes \<Rightarrow> nat \<Rightarrow> hash_output" where
  "preimage_hash pre k = hash_of (map (\<lambda>i. preimage_field pre (k + i)) [0..<4])"

lemma be_limb_swapped:
  assumes "k * 8 + 32 \<le> length pre" and "i < 4"
  shows "be_limb (preimage_bytes32_to_raw (slice_at pre (k * 8) 32)) i = preimage_field pre (k + i)"
proof -
  let ?b = "slice_at pre (k * 8) 32"
  let ?f = "\<lambda>i. slice_at ?b (i * 8 + 4) 4 @ slice_at ?b (i * 8) 4"
  have "length (?f x) = 8" if "x \<in> set [0..<4]" for x using assms that by simp
  then have "slice_at (concat (map ?f [0..<4])) (i * 8) 8 = ?f ([0..<4] ! i)"
    by (intro slice_concat_map) (use assms(2) in simp_all)
  then have "be_limb (preimage_bytes32_to_raw ?b) i = u64_from_be_bytes (?f i)"
    using assms(2) by (simp add: be_limb_def preimage_bytes32_to_raw_def raw_to_preimage_bytes32_def)
  also have "\<dots> = preimage_field pre (k + i)"
    using assms by (simp add: u64_from_be_halves preimage_field_def algebra_simps)
  finally show ?thesis .
qed

lemma read_hash_aligned:
  assumes "k * 8 + 32 \<le> length pre"
  shows "read_hash pre (k * 8) =
    (if canonical_hash (preimage_hash pre k) then Inr (preimage_hash pre k) else Inl (Panic Unwrap_failed))"
proof -
  let ?raw = "preimage_bytes32_to_raw (slice_at pre (k * 8) 32)"
  let ?h = "preimage_hash pre k"
  have limbs: "map (be_limb ?raw) [0..<4] = map (\<lambda>i. preimage_field pre (k + i)) [0..<4]"
    using be_limb_swapped [OF assms] by (intro map_cong) auto
  then have h: "?h = hash_of (map (be_limb ?raw) [0..<4])"
    by (simp only: preimage_hash_def)
  have ok: "canonical_hash ?h \<longleftrightarrow> (\<forall>i < 4. be_limb ?raw i < GOLDILOCKS_PRIME)"
    by (simp add: h canonical_hash_iff canonical_def)
  have "bytes32_to_hash ?raw = Inr ?h" if "canonical_hash ?h"
    using that ok by (simp add: bytes32_to_hash_def h bind_r_eq_Inr read_limbs_Inr)
  moreover have "\<exists>e. bytes32_to_hash ?raw = Inl (Err e)" if bad: "\<not> canonical_hash ?h"
  proof -
    obtain e where e: "read_limbs (\<lambda>v. v < GOLDILOCKS_PRIME) (be_limb ?raw) = Inl e"
      using bad ok by (cases "read_limbs (\<lambda>v. v < GOLDILOCKS_PRIME) (be_limb ?raw)")
        (auto simp: read_limbs_Inr)
    then obtain i where "e = Err (Limb_out_of_range i)"
      unfolding read_limbs_first_bad by blast
    with e show ?thesis by (simp add: bytes32_to_hash_def)
  qed
  ultimately show ?thesis
    using assms by (auto simp: read_hash_def read_gl_b32_def bytes_to_hash_def)
qed

lemma read_gl_bool_aligned:
  assumes "k * 8 + 8 \<le> length pre"
  shows "read_gl_bool pre (k * 8) = Inr (preimage_field pre k \<noteq> 0)"
proof -
  have "(lo \<noteq> 0 \<or> hi \<noteq> 0) = (join32 lo hi \<noteq> 0)" for lo hi
  proof -
    have "join32 0 0 = 0" by (simp add: join32_def)
    then show ?thesis by (metis lo32_join hi32_join)
  qed
  with assms show ?thesis
    by (simp add: read_gl_bool_def preimage_field_def)
qed

subsection \<open>Registering many commitments and nullifiers\<close>

definition add_commitments :: "(nat \<Rightarrow> hash_output) \<Rightarrow> bytes \<Rightarrow> nat list \<Rightarrow> sync_state \<Rightarrow> sync_state" where
  "add_commitments lf pi = fold (\<lambda>i. add_pending_commitment (lf i) pi i)"

definition add_nullifiers :: "hash_output list \<Rightarrow> bytes \<Rightarrow> sync_state \<Rightarrow> sync_state" where
  "add_nullifiers ns pi = fold (\<lambda>n. add_pending_nullifier n pi) ns"

definition pending_leaves :: "sync_state \<Rightarrow> bytes \<Rightarrow> hash_output list" where
  "pending_leaves s pi = (case pending_batch_leaves s pi of Some ls \<Rightarrow> ls | None \<Rightarrow> replicate 512 ZERO_hash)"

lemma add_nullifiers_simps [simp]:
  "pending_nullifiers (add_nullifiers ns pi s) = (\<lambda>n. if n \<in> set ns then Some pi else pending_nullifiers s n)"
  "pending_batch_leaves (add_nullifiers ns pi s) = pending_batch_leaves s"
  "commitment_to_batch (add_nullifiers ns pi s) = commitment_to_batch s"
  "state_tree (add_nullifiers ns pi s) = state_tree s"
  "confirmed_nullifiers (add_nullifiers ns pi s) = confirmed_nullifiers s"
  "pending_tx_batches (add_nullifiers ns pi s) = pending_tx_batches s"
  "pending_bridge_tx_batches (add_nullifiers ns pi s) = pending_bridge_tx_batches s"
  "confirmed_tx_batches (add_nullifiers ns pi s) = confirmed_tx_batches s"
  unfolding add_nullifiers_def
  by (induction ns arbitrary: s) (auto simp: add_pending_nullifier_def)

lemma add_commitments_simps [simp]:
  "pending_nullifiers (add_commitments lf pi is s) = pending_nullifiers s"
  "state_tree (add_commitments lf pi is s) = state_tree s"
  "confirmed_nullifiers (add_commitments lf pi is s) = confirmed_nullifiers s"
  "pending_tx_batches (add_commitments lf pi is s) = pending_tx_batches s"
  "pending_bridge_tx_batches (add_commitments lf pi is s) = pending_bridge_tx_batches s"
  "confirmed_tx_batches (add_commitments lf pi is s) = confirmed_tx_batches s"
  unfolding add_commitments_def
  by (induction "is" arbitrary: s) (auto simp: add_pending_commitment_def Let_def)

lemma add_commitments_leaves:
  assumes "n \<le> 512" and "length (pending_leaves s pi) = 512"
  shows "pending_leaves (add_commitments lf pi [0..<n] s) pi = map lf [0..<n] @ drop n (pending_leaves s pi)
    \<and> (0 < n \<longrightarrow> pending_batch_leaves (add_commitments lf pi [0..<n] s) pi \<noteq> None)
    \<and> (\<forall>pi'. pi' \<noteq> pi \<longrightarrow>
        pending_batch_leaves (add_commitments lf pi [0..<n] s) pi' = pending_batch_leaves s pi')"
  using assms
proof (induction n)
  case (Suc n)
  let ?s = "add_commitments lf pi [0..<n] s" and ?old = "pending_leaves s pi"
  have IH: "pending_leaves ?s pi = map lf [0..<n] @ drop n ?old"
    "\<forall>pi'. pi' \<noteq> pi \<longrightarrow> pending_batch_leaves ?s pi' = pending_batch_leaves s pi'"
    using Suc by simp_all
  have step: "add_commitments lf pi [0..<Suc n] s = add_pending_commitment (lf n) pi n ?s"
    by (simp add: add_commitments_def)
  have "(map lf [0..<n] @ drop n ?old)[n := lf n] = map lf [0..<Suc n] @ drop (Suc n) ?old"
    using Suc.prems by (simp add: list_update_append Cons_nth_drop_Suc [symmetric])
  with IH Suc.prems show ?case
    unfolding step
    by (auto simp: add_pending_commitment_def pending_leaves_def Let_def fun_eq_iff split: option.split)
qed (simp add: add_commitments_def)

lemma add_commitments_locations:
  "commitment_to_batch (add_commitments lf pi [0..<n] s) c =
    (if c \<in> lf ` {..<n}
     then Some \<lparr>loc_pi = pi, loc_index = Max {i. i < n \<and> lf i = c}, loc_confirmed = False\<rparr>
     else commitment_to_batch s c)"
proof (induction n)
  case (Suc n)
  have step: "commitment_to_batch (add_commitments lf pi [0..<Suc n] s) =
      (commitment_to_batch (add_commitments lf pi [0..<n] s))(lf n \<mapsto>
        \<lparr>loc_pi = pi, loc_index = n, loc_confirmed = False\<rparr>)"
    by (simp add: add_commitments_def add_pending_commitment_def Let_def)
  show ?case
  proof (cases "c = lf n")
    case True
    have "Max {i. i < Suc n \<and> lf i = c} = n" using True by (intro Max_eqI) auto
    with True show ?thesis unfolding step by simp
  next
    case False
    then have "{i. i < Suc n \<and> lf i = c} = {i. i < n \<and> lf i = c}"
      by (auto simp: less_Suc_eq)
    with False Suc show ?thesis unfolding step by (auto simp: less_Suc_eq lessThan_Suc)
  qed
qed (simp add: add_commitments_def)

subsection \<open>Transaction batches\<close>

text \<open>Leaf \<open>i\<close> of the subtree, the flag of slot \<open>s\<close> and its nullifiers, by position in the preimage.\<close>

definition tx_leaf :: "bytes \<Rightarrow> nat \<Rightarrow> hash_output" where
  "tx_leaf pre i = preimage_hash pre
     (12 + (i div 8) * 65 + (if i mod 8 = 0 then 5 else 37 + (i mod 8 - 1) * 4))"

definition tx_real :: "bytes \<Rightarrow> nat \<Rightarrow> bool" where
  "tx_real pre s \<longleftrightarrow> preimage_field pre (12 + s * 65) \<noteq> 0"

definition tx_nullifiers :: "bytes \<Rightarrow> nat \<Rightarrow> hash_output list" where
  "tx_nullifiers pre s = preimage_hash pre (12 + s * 65 + 1)
     # map (\<lambda>j. preimage_hash pre (12 + s * 65 + 9 + j * 4)) [0..<7]"

definition tx_all_nullifiers :: "bytes \<Rightarrow> hash_output list" where
  "tx_all_nullifiers pre = concat (map (tx_nullifiers pre) (filter (tx_real pre) [0..<64]))"

definition tx_canonical :: "bytes \<Rightarrow> bool" where
  "tx_canonical pre \<longleftrightarrow> (\<forall>i < 512. canonical_hash (tx_leaf pre i))
     \<and> (\<forall>n \<in> set (tx_all_nullifiers pre). canonical_hash n)"

lemma bind_checked:
  "bind_r (if a then Inr x else Inl e) (\<lambda>y. if b y then Inr (g y) else Inl e)
    = (if a \<and> b x then Inr (g x) else Inl e)"
  by simp

lemma apply_tx_commitments_eq:
  assumes "TX_PREIMAGE_LEN \<le> length pre" and "s < 64"
  shows "apply_tx_commitments pre pi s st =
    (if \<forall>j < 8. canonical_hash (tx_leaf pre (s * 8 + j))
     then Inr (fold (\<lambda>j. add_pending_commitment (tx_leaf pre (s * 8 + j)) pi (s * 8 + j)) [0..<8] st)
     else Inl (Panic Unwrap_failed))"
proof -
  have len: "(12 + s * 65 + k) * 8 + 32 \<le> length pre" if "k \<le> 61" for k
    using assms that by (simp add: layout_defs)
  have acc: "read_hash pre (TX_HEADER_SIZE + s * TX_SLOT_SIZE + TX_ACCOUT_COMM_OFF) =
      (if canonical_hash (tx_leaf pre (s * 8)) then Inr (tx_leaf pre (s * 8)) else Inl (Panic Unwrap_failed))"
    using read_hash_aligned [OF len [of 5]] by (simp add: tx_leaf_def layout_defs algebra_simps)
  have nts: "read_hash pre (TX_HEADER_SIZE + s * TX_SLOT_SIZE + TX_NOTE_OUT_OFF + j * 32) =
      (if canonical_hash (tx_leaf pre (s * 8 + j + 1)) then Inr (tx_leaf pre (s * 8 + j + 1))
       else Inl (Panic Unwrap_failed))" if "j < 7" for j
  proof -
    have "(s * 8 + j + 1) div 8 = s" "(s * 8 + j + 1) mod 8 = j + 1" using that by presburger+
    then show ?thesis
      using read_hash_aligned [OF len [of "37 + j * 4"]] that
      by (simp add: tx_leaf_def layout_defs algebra_simps)
  qed
  have loop: "for_each (\<lambda>j st. bind_r (read_hash pre (TX_HEADER_SIZE + s * TX_SLOT_SIZE + TX_NOTE_OUT_OFF + j * 32))
        (\<lambda>c. Inr (add_pending_commitment c pi (s * 8 + j + 1) st))) [0..<NOTE_BATCH] st' =
      (if \<forall>j \<in> set [0..<NOTE_BATCH]. canonical_hash (tx_leaf pre (s * 8 + j + 1))
       then Inr (fold (\<lambda>j. add_pending_commitment (tx_leaf pre (s * 8 + j + 1)) pi (s * 8 + j + 1)) [0..<NOTE_BATCH] st')
       else Inl (Panic Unwrap_failed))" for st'
    by (rule for_each_checked) (auto simp: nts NOTE_BATCH_def)
  have upt: "[0..<8] = 0 # map Suc [0..<7]" by (simp add: map_Suc_upt upt_conv_Cons)
  have all: "(\<forall>j < 8. Q j) \<longleftrightarrow> Q 0 \<and> (\<forall>j \<in> set [0..<7]. Q (j + 1))" for Q :: "nat \<Rightarrow> bool"
    by (auto simp: less_Suc_eq_0_disj eval_nat_numeral)
  show ?thesis
    unfolding apply_tx_commitments_def Let_def acc loop all upt
    by (simp add: NOTE_BATCH_def fold_map o_def)
qed

lemma apply_tx_nullifiers_eq:
  assumes "TX_PREIMAGE_LEN \<le> length pre" and "s < 64"
  shows "apply_tx_nullifiers pre pi s st =
    (if \<forall>n \<in> set (if tx_real pre s then tx_nullifiers pre s else []). canonical_hash n
     then Inr (add_nullifiers (if tx_real pre s then tx_nullifiers pre s else []) pi st)
     else Inl (Panic Unwrap_failed))"
proof -
  have len: "(12 + s * 65 + k) * 8 + 32 \<le> length pre" if "k \<le> 61" for k
    using assms that by (simp add: layout_defs)
  have real: "read_gl_bool pre (TX_HEADER_SIZE + s * TX_SLOT_SIZE) = Inr (tx_real pre s)"
    using read_gl_bool_aligned [of "12 + s * 65" pre] len [of 0]
    by (simp add: tx_real_def layout_defs algebra_simps)
  have acc: "read_hash pre (TX_HEADER_SIZE + s * TX_SLOT_SIZE + TX_ACCIN_NULL_OFF) =
      (if canonical_hash (preimage_hash pre (12 + s * 65 + 1)) then Inr (preimage_hash pre (12 + s * 65 + 1))
       else Inl (Panic Unwrap_failed))"
    using read_hash_aligned [OF len [of 1]] by (simp add: layout_defs algebra_simps)
  have nts: "read_hash pre (TX_HEADER_SIZE + s * TX_SLOT_SIZE + TX_NOTE_IN_OFF + j * 32) =
      (if canonical_hash (preimage_hash pre (12 + s * 65 + 9 + j * 4))
       then Inr (preimage_hash pre (12 + s * 65 + 9 + j * 4)) else Inl (Panic Unwrap_failed))" if "j < 7" for j
    using read_hash_aligned [OF len [of "9 + j * 4"]] that by (simp add: layout_defs algebra_simps)
  have loop: "for_each (\<lambda>j st. bind_r (read_hash pre (TX_HEADER_SIZE + s * TX_SLOT_SIZE + TX_NOTE_IN_OFF + j * 32))
        (\<lambda>n. Inr (add_pending_nullifier n pi st))) [0..<NOTE_BATCH] st' =
      (if \<forall>j \<in> set [0..<NOTE_BATCH]. canonical_hash (preimage_hash pre (12 + s * 65 + 9 + j * 4))
       then Inr (fold (\<lambda>j. add_pending_nullifier (preimage_hash pre (12 + s * 65 + 9 + j * 4)) pi) [0..<NOTE_BATCH] st')
       else Inl (Panic Unwrap_failed))" for st'
    by (rule for_each_checked) (auto simp: nts NOTE_BATCH_def)
  show ?thesis
    unfolding apply_tx_nullifiers_def Let_def real acc loop bind_r_Inr
    by (auto simp add: NOTE_BATCH_def add_nullifiers_def tx_nullifiers_def fold_map o_def)
qed

text \<open>The whole preimage.\<close>

definition tx_applied :: "bytes \<Rightarrow> bytes \<Rightarrow> sync_state \<Rightarrow> sync_state" where
  "tx_applied pre pi st =
     (let s = add_nullifiers (tx_all_nullifiers pre) pi (add_commitments (tx_leaf pre) pi [0..<512] st)
      in s\<lparr>pending_tx_batches := (pending_tx_batches s)(pi \<mapsto> pre)\<rparr>)"

lemma fold_add_nullifiers:
  "fold (\<lambda>s. add_nullifiers (f s) pi) xs st = add_nullifiers (concat (map f xs)) pi st"
  by (induction xs arbitrary: st) (simp_all add: add_nullifiers_def)

lemma concat_map_filter: "concat (map (\<lambda>x. if p x then f x else []) xs) = concat (map f (filter p xs))"
  by (induction xs) auto

lemma all_blocks: "(\<forall>s < (n::nat). \<forall>j < 8. Q (s * 8 + j)) \<longleftrightarrow> (\<forall>i < n * 8. Q i)"
proof (intro iffI allI impI)
  fix i assume all: "\<forall>s < n. \<forall>j < 8. Q (s * 8 + j)" and i: "i < n * 8"
  have "i div 8 < n" "i mod 8 < 8" using i by (simp_all add: less_mult_imp_div_less)
  with all have "Q (i div 8 * 8 + i mod 8)" by blast
  then show "Q i" by (simp only: div_mult_mod_eq)
next
  fix s j assume "\<forall>i < n * 8. Q i" and "s < n" and "(j::nat) < 8"
  moreover from this have "s * 8 + j < n * 8" by linarith
  ultimately show "Q (s * 8 + j)" by blast
qed

lemma apply_tx_preimage_eq:
  "apply_tx_preimage pre pi st =
    (if length pre < TX_PREIMAGE_LEN then Inl (Err Preimage_too_short)
     else if tx_canonical pre then Inr (tx_applied pre pi st)
     else Inl (Panic Unwrap_failed))"
proof (cases "TX_PREIMAGE_LEN \<le> length pre")
  case True
  let ?nulls = "\<lambda>s. if tx_real pre s then tx_nullifiers pre s else []"
  have comm: "for_each (apply_tx_commitments pre pi) [0..<PRIV_TX_BATCH_SIZE] st =
      (if \<forall>s \<in> set [0..<PRIV_TX_BATCH_SIZE]. \<forall>j < 8. canonical_hash (tx_leaf pre (s * 8 + j))
       then Inr (fold (\<lambda>s. fold (\<lambda>j. add_pending_commitment (tx_leaf pre (s * 8 + j)) pi (s * 8 + j)) [0..<8])
         [0..<PRIV_TX_BATCH_SIZE] st)
       else Inl (Panic Unwrap_failed))"
    by (rule for_each_checked) (simp add: apply_tx_commitments_eq [OF True] PRIV_TX_BATCH_SIZE_def)
  have null: "for_each (apply_tx_nullifiers pre pi) [0..<PRIV_TX_BATCH_SIZE] st' =
      (if \<forall>s \<in> set [0..<PRIV_TX_BATCH_SIZE]. \<forall>n \<in> set (?nulls s). canonical_hash n
       then Inr (fold (\<lambda>s. add_nullifiers (?nulls s) pi) [0..<PRIV_TX_BATCH_SIZE] st')
       else Inl (Panic Unwrap_failed))" for st'
    by (rule for_each_checked) (simp add: apply_tx_nullifiers_eq [OF True] PRIV_TX_BATCH_SIZE_def)
  have c: "(\<forall>s \<in> set [0..<64]. \<forall>j < 8. canonical_hash (tx_leaf pre (s * 8 + j)))
      \<longleftrightarrow> (\<forall>i < 512. canonical_hash (tx_leaf pre i))"
    using all_blocks [of 64 "\<lambda>i. canonical_hash (tx_leaf pre i)"] by auto
  have n: "(\<forall>s \<in> set [0..<64]. \<forall>n \<in> set (?nulls s). canonical_hash n)
      \<longleftrightarrow> (\<forall>n \<in> set (tx_all_nullifiers pre). canonical_hash n)"
    by (auto simp: tx_all_nullifiers_def)
  have "fold (\<lambda>s. add_nullifiers (?nulls s) pi) [0..<64] st' = add_nullifiers (tx_all_nullifiers pre) pi st'" for st'
    by (simp only: fold_add_nullifiers concat_map_filter tx_all_nullifiers_def)
  moreover have "fold (\<lambda>s. fold (\<lambda>j. add_pending_commitment (tx_leaf pre (s * 8 + j)) pi (s * 8 + j)) [0..<8]) [0..<64] st
      = add_commitments (tx_leaf pre) pi [0..<512] st"
    using fold_upt_blocks [of "\<lambda>i. add_pending_commitment (tx_leaf pre i) pi i" 8 64 st]
    by (simp add: add_commitments_def)
  ultimately show ?thesis
    using True unfolding apply_tx_preimage_def comm null unfolding PRIV_TX_BATCH_SIZE_def c n
    by (simp add: tx_canonical_def tx_applied_def Let_def del: upt_Suc)
qed (simp add: apply_tx_preimage_def not_le)

subsection \<open>Bridge batches\<close>

definition bridge_slot :: "nat \<Rightarrow> nat" where
  "bridge_slot i = (if i < 256 then 12 + i * 77 else 12 + 256 * 77 + (i - 256) * 27)"

definition bridge_leaf :: "bytes \<Rightarrow> nat \<Rightarrow> hash_output" where
  "bridge_leaf pre i = preimage_hash pre (bridge_slot i + 5)"

definition bridge_nullifiers :: "bytes \<Rightarrow> nat \<Rightarrow> hash_output list" where
  "bridge_nullifiers pre i =
     (if preimage_field pre (bridge_slot i) \<noteq> 0 then [preimage_hash pre (bridge_slot i + 1)] else [])"

definition bridge_all_nullifiers :: "bytes \<Rightarrow> hash_output list" where
  "bridge_all_nullifiers pre = concat (map (bridge_nullifiers pre) [0..<512])"

definition bridge_canonical :: "bytes \<Rightarrow> bool" where
  "bridge_canonical pre \<longleftrightarrow> (\<forall>i < 512. canonical_hash (bridge_leaf pre i))
     \<and> (\<forall>n \<in> set (bridge_all_nullifiers pre). canonical_hash n)"

definition bridge_applied :: "bytes \<Rightarrow> bytes \<Rightarrow> sync_state \<Rightarrow> sync_state" where
  "bridge_applied pre pi st =
     (let s = add_nullifiers (bridge_all_nullifiers pre) pi (add_commitments (bridge_leaf pre) pi [0..<512] st)
      in s\<lparr>pending_bridge_tx_batches := (pending_bridge_tx_batches s)(pi \<mapsto> pre)\<rparr>)"

lemma fold_commuting:
  assumes "\<And>i j s. f i (g j s) = g j (f i s)"
  shows "fold (\<lambda>i s. g i (f i s)) xs s = fold g xs (fold f xs s)"
proof -
  have swap: "fold f xs (g j s) = g j (fold f xs s)" for xs j s
    by (induction xs arbitrary: s) (simp_all add: assms)
  show ?thesis by (induction xs arbitrary: s) (simp_all add: swap)
qed

lemma add_nullifiers_commute:
  "add_pending_commitment c pi i (add_nullifiers ns pi' s) = add_nullifiers ns pi' (add_pending_commitment c pi i s)"
proof -
  have one: "add_pending_commitment c pi i (add_pending_nullifier n pi' s)
      = add_pending_nullifier n pi' (add_pending_commitment c pi i s)" for n s
    by (cases s) (simp add: add_pending_commitment_def add_pending_nullifier_def Let_def)
  show ?thesis
    unfolding add_nullifiers_def by (induction ns arbitrary: s) (simp_all add: one)
qed

lemma apply_bridge_slot_eq:
  assumes "BRIDGE_TX_PREIMAGE_LEN \<le> length pre" and "i < 512"
  shows "apply_bridge_slot pre pi (bridge_slot i * 8) 40 8 i st =
    (if canonical_hash (bridge_leaf pre i) \<and> (\<forall>n \<in> set (bridge_nullifiers pre i). canonical_hash n)
     then Inr (add_nullifiers (bridge_nullifiers pre i) pi (add_pending_commitment (bridge_leaf pre i) pi i st))
     else Inl (Panic Unwrap_failed))"
proof -
  have len: "(bridge_slot i + k) * 8 + 32 \<le> length pre" if "k \<le> 5" for k
    using assms that by (auto simp: layout_defs bridge_slot_def)
  have "read_hash pre (bridge_slot i * 8 + 40) =
      (if canonical_hash (bridge_leaf pre i) then Inr (bridge_leaf pre i) else Inl (Panic Unwrap_failed))"
    using read_hash_aligned [OF len [of 5]] by (simp add: bridge_leaf_def add.commute)
  moreover have "read_hash pre (bridge_slot i * 8 + 8) =
      (if canonical_hash (preimage_hash pre (bridge_slot i + 1)) then Inr (preimage_hash pre (bridge_slot i + 1))
       else Inl (Panic Unwrap_failed))"
    using read_hash_aligned [OF len [of 1]] by (simp add: add.commute)
  moreover have "read_gl_bool pre (bridge_slot i * 8) = Inr (preimage_field pre (bridge_slot i) \<noteq> 0)"
    using read_gl_bool_aligned [of "bridge_slot i" pre] len [of 0] by simp
  ultimately show ?thesis
    by (simp add: apply_bridge_slot_def Let_def bridge_nullifiers_def add_nullifiers_def)
qed

lemma apply_bridge_preimage_eq:
  "apply_bridge_preimage pre pi st =
    (if length pre < BRIDGE_TX_PREIMAGE_LEN then Inl (Err Preimage_too_short)
     else if bridge_canonical pre then Inr (bridge_applied pre pi st)
     else Inl (Panic Unwrap_failed))"
proof (cases "BRIDGE_TX_PREIMAGE_LEN \<le> length pre")
  case True
  let ?step = "\<lambda>i. apply_bridge_slot pre pi (bridge_slot i * 8) 40 8 i"
  let ?ok = "\<lambda>i. canonical_hash (bridge_leaf pre i) \<and> (\<forall>n \<in> set (bridge_nullifiers pre i). canonical_hash n)"
  let ?g = "\<lambda>i s. add_nullifiers (bridge_nullifiers pre i) pi (add_pending_commitment (bridge_leaf pre i) pi i s)"
  have w: "for_each (\<lambda>s. apply_bridge_slot pre pi (TX_HEADER_SIZE + s * W_SLOT_SIZE)
       W_ACCOUT_COMM_OFF W_ACCIN_NULL_OFF s) [0..<BRIDGE_TX_HALF_SIZE] st = for_each ?step [0..<256] st" for st
    by (rule for_each_cong) (simp_all add: layout_defs bridge_slot_def algebra_simps)
  have d: "for_each (\<lambda>s. apply_bridge_slot pre pi (D_SECTION_OFF + s * D_SLOT_SIZE)
       D_ACCOUT_COMM_OFF D_ACCIN_NULL_OFF (256 + s)) [0..<BRIDGE_TX_HALF_SIZE] st
       = for_each ?step [256..<512] st" for st
  proof -
    have "[256..<512] = map ((+) 256) [0..<256 :: nat]"
      by (rule upt_shift) simp
    then show ?thesis
      by (simp only: for_each_map o_def)
         (rule for_each_cong, simp_all add: layout_defs bridge_slot_def algebra_simps)
  qed
  have "[0..<512] = [0..<256] @ [256..<512 :: nat]"
    by (rule upt_split) simp_all
  then have both: "bind_r (for_each ?step [0..<256] st) (for_each ?step [256..<512]) = for_each ?step [0..<512] st"
    by (simp only: for_each_append)
  have loop: "for_each ?step [0..<512] st = (if \<forall>i \<in> set [0..<512]. ?ok i then Inr (fold ?g [0..<512] st)
      else Inl (Panic Unwrap_failed))"
    by (rule for_each_checked) (simp add: apply_bridge_slot_eq [OF True])
  have g: "fold ?g [0..<512] st = add_nullifiers (bridge_all_nullifiers pre) pi
      (add_commitments (bridge_leaf pre) pi [0..<512] st)"
    using fold_commuting [of "\<lambda>i. add_pending_commitment (bridge_leaf pre i) pi i"
        "\<lambda>i. add_nullifiers (bridge_nullifiers pre i) pi" "[0..<512]" st]
    by (simp only: add_nullifiers_commute fold_add_nullifiers bridge_all_nullifiers_def add_commitments_def)
  have ok: "(\<forall>i \<in> set [0..<512]. ?ok i) \<longleftrightarrow> bridge_canonical pre"
    by (auto simp: bridge_canonical_def bridge_all_nullifiers_def)
  have "apply_bridge_preimage pre pi st = bind_r (bind_r (for_each ?step [0..<256] st) (for_each ?step [256..<512]))
      (\<lambda>st. Inr (st\<lparr>pending_bridge_tx_batches := (pending_bridge_tx_batches st)(pi \<mapsto> pre)\<rparr>))"
    unfolding apply_bridge_preimage_def w d using True by (simp add: bind_r_assoc del: upt_Suc)
  then show ?thesis
    unfolding both loop ok g using True by (simp add: bridge_applied_def Let_def del: upt_Suc)
qed (simp add: apply_bridge_preimage_def not_le)

subsection \<open>Effects on the queries\<close>

lemma pending_leaves_len: "state_ok P s \<Longrightarrow> length (pending_leaves s pi) = 512"
  by (auto simp: state_ok_def pending_leaves_def split: option.split)

lemma all_commitments_added:
  assumes "state_ok P s"
  shows "pending_batch_leaves (add_commitments lf pi [0..<512] s) pi = Some (map lf [0..<512])"
    and "pi' \<noteq> pi \<Longrightarrow> pending_batch_leaves (add_commitments lf pi [0..<512] s) pi' = pending_batch_leaves s pi'"
proof -
  have len: "length (pending_leaves s pi) = 512" using pending_leaves_len [OF assms] .
  note * = add_commitments_leaves [OF order_refl len, of lf]
  from * have "pending_leaves (add_commitments lf pi [0..<512] s) pi = map lf [0..<512]"
    using len by (simp del: upt_Suc)
  moreover from * obtain ls where "pending_batch_leaves (add_commitments lf pi [0..<512] s) pi = Some ls" by auto
  ultimately show "pending_batch_leaves (add_commitments lf pi [0..<512] s) pi = Some (map lf [0..<512])"
    by (simp add: pending_leaves_def del: upt_Suc)
  show "pi' \<noteq> pi \<Longrightarrow> pending_batch_leaves (add_commitments lf pi [0..<512] s) pi' = pending_batch_leaves s pi'"
    using * by blast
qed

lemma located_leaf:
  assumes "i < n"
  shows "\<exists>j < n. lf j = lf i \<and> commitment_to_batch (add_commitments lf pi [0..<n] s) (lf i)
    = Some \<lparr>loc_pi = pi, loc_index = j, loc_confirmed = False\<rparr>"
proof -
  let ?S = "{j. j < n \<and> lf j = lf i}"
  have "Max ?S \<in> ?S" by (rule Max_in) (use assms in auto)
  with assms show ?thesis by (auto simp: add_commitments_locations)
qed

lemma tx_applied_simps [simp]:
  "pending_nullifiers (tx_applied pre pi s) =
     (\<lambda>n. if n \<in> set (tx_all_nullifiers pre) then Some pi else pending_nullifiers s n)"
  "pending_batch_leaves (tx_applied pre pi s) = pending_batch_leaves (add_commitments (tx_leaf pre) pi [0..<512] s)"
  "commitment_to_batch (tx_applied pre pi s) = commitment_to_batch (add_commitments (tx_leaf pre) pi [0..<512] s)"
  "state_tree (tx_applied pre pi s) = state_tree s"
  "confirmed_nullifiers (tx_applied pre pi s) = confirmed_nullifiers s"
  "pending_tx_batches (tx_applied pre pi s) = (pending_tx_batches s)(pi \<mapsto> pre)"
  "confirmed_tx_batches (tx_applied pre pi s) = confirmed_tx_batches s"
  by (auto simp: tx_applied_def Let_def fun_eq_iff simp del: upt_Suc)

lemma state_ok_tx_applied: "state_ok P s \<Longrightarrow> state_ok P (tx_applied pre pi s)"
proof -
  assume ok: "state_ok P s"
  have "length ls = 512" if "pending_batch_leaves (add_commitments (tx_leaf pre) pi [0..<512] s) pi' = Some ls" for pi' ls
    using that all_commitments_added [OF ok, where lf = "tx_leaf pre" and pi = pi] ok
    by (cases "pi' = pi") (auto simp: state_ok_def)
  with ok show ?thesis by (simp add: state_ok_def del: upt_Suc)
qed

text \<open>An example preimage: a header digest and nothing but zero bytes after it.\<close>

definition demo_preimage :: "hash_output \<Rightarrow> bytes" where
  "demo_preimage r = hash_to_preimage_bytes32 r @ replicate (TX_PREIMAGE_LEN - 32) 0"

lemma zeros_decode: "u32_from_be_bytes (replicate n 0) = 0"
proof -
  have "le_value (replicate n 0) = 0" by (induction n) simp_all
  then show ?thesis by (simp add: u32_from_be_bytes_def map_replicate_const)
qed

lemma demo_preimage_field: "4 \<le> k \<Longrightarrow> preimage_field (demo_preimage r) k = 0"
  by (simp add: preimage_field_def demo_preimage_def slice_at_def zeros_decode join32_def)

lemma demo_preimage_props:
  "length (demo_preimage r) = TX_PREIMAGE_LEN" "tx_leaf (demo_preimage r) i = ZERO_hash"
  "tx_all_nullifiers (demo_preimage r) = []" "tx_canonical (demo_preimage r)"
proof -
  show leaf: "tx_leaf (demo_preimage r) i = ZERO_hash" for i
    by (simp add: tx_leaf_def preimage_hash_def demo_preimage_field hash_of_def ZERO_hash_def)
  show "length (demo_preimage r) = TX_PREIMAGE_LEN"
    by (simp add: demo_preimage_def layout_defs)
  show none: "tx_all_nullifiers (demo_preimage r) = []"
    by (simp add: tx_all_nullifiers_def tx_real_def demo_preimage_field)
  show "tx_canonical (demo_preimage r)"
    by (simp add: tx_canonical_def leaf none)
qed

lemma demo_preimage_root:
  assumes "canonical_hash r"
  shows "extract_batch_root_from_preimage (demo_preimage r) = Inr r"
proof -
  have "bytes32_to_hash (preimage_bytes32_to_raw (hash_to_preimage_bytes32 r)) = Inr r"
    using assms by (simp add: preimage_bytes32_to_raw_def raw_to_preimage_hash)
  then have "read_hash (demo_preimage r) 0 = Inr r"
    by (simp add: read_hash_def read_gl_b32_def bytes_to_hash_def demo_preimage_def)
  then show ?thesis
    by (simp add: extract_batch_root_from_preimage_def demo_preimage_def)
qed

subsection \<open>Replaying a pending batch\<close>

lemma replay_pending:
  assumes "pending_tx_batches s (pe_pi e) = Some pre" and "pe_kind e = Transaction"
    and "extract_batch_root_from_preimage pre = Inr br"
  shows "replay_proven P rpc g t c e s = confirm_batch P (pe_pi e) br (pe_new_tree_root e) s"
  using assms by (simp add: replay_proven_def pending_batches_def)

lemma tx_applied_confirm:
  assumes "state_ok P s" and "num_leaves (state_tree s) < 2 ^ depth (state_tree s)"
    and "br = spec_root (hash_output_hash P) BATCH_SUBTREE_DEPTH (map (tx_leaf pre) [0..<512])" and "i < 512"
  shows "\<exists>p q. get_commitment_status P (snd (confirm_batch P pi br nr (tx_applied pre pi s))) (tx_leaf pre i)
      = Inr (Commitment_Confirmed p q)
    \<and> verify_proof (hash_output_hash P) p \<and> verify_proof (hash_output_hash P) q
    \<and> proof_leaf p = tx_leaf pre i \<and> proof_root p = br \<and> proof_leaf q = br
    \<and> root (hash_output_hash P) (state_tree (snd (confirm_batch P pi br nr (tx_applied pre pi s))))
        = Inr (proof_root q)"
proof -
  let ?s = "tx_applied pre pi s"
  obtain j where j: "j < 512" "tx_leaf pre j = tx_leaf pre i"
    and loc: "commitment_to_batch ?s (tx_leaf pre i) = Some \<lparr>loc_pi = pi, loc_index = j, loc_confirmed = False\<rparr>"
    using located_leaf [OF assms(4), of "tx_leaf pre" pi s] by (auto simp del: upt_Suc)
  have leaves: "pending_batch_leaves ?s pi = Some (map (tx_leaf pre) [0..<512])"
    using all_commitments_added(1) [OF assms(1)] by (simp del: upt_Suc)
  obtain s' p q where run: "confirm_batch P pi br nr ?s = (Inr (), s')"
    and proofs: "get_commitment_status P s' (tx_leaf pre i) = Inr (Commitment_Confirmed p q)"
      "verify_proof (hash_output_hash P) p" "verify_proof (hash_output_hash P) q"
      "proof_leaf p = tx_leaf pre i" "proof_root p = br" "proof_leaf q = br"
      "root (hash_output_hash P) (state_tree s') = Inr (proof_root q)"
    using confirm_batch_proofs [OF state_ok_tx_applied [OF assms(1)] _ leaves j(1) _ loc assms(3), of nr] assms(2) j
    by (auto simp del: upt_Suc)
  from proofs show ?thesis by (simp add: run)
qed

lemma tx_applied_confirm_status:
  assumes "state_ok P s" and "num_leaves (state_tree s) < 2 ^ depth (state_tree s)"
  shows "\<exists>s'. confirm_batch P pi br nr (tx_applied pre pi s) = (Inr (), s')
    \<and> leaves (state_tree s') = leaves (state_tree s) @ [br]
    \<and> (\<forall>n \<in> set (tx_all_nullifiers pre). get_nullifier_status s' n = Nullifier_Confirmed)
    \<and> get_batch_status s' pi Transaction = Batch_Confirmed"
  using confirm_batch_cases [OF state_ok_tx_applied [OF assms(1)], of pre pi pi br nr] assms(2)
  by (auto simp: get_nullifier_status_def get_batch_status_def simp del: upt_Suc)

lemma demo_hasher_canonical:
  assumes "length es = 8"
  shows "canonical_hash (demo_hasher es)"
proof -
  have mask: "canonical (and x 0xFFFFFFFF)" for x :: u64
    unfolding canonical_def by (rule le_less_trans [OF word_and_le1]) (simp add: GOLDILOCKS_PRIME_def)
  obtain ys y where "es = ys @ [y]" using assms by (cases es rule: rev_cases) auto
  then have "canonical (foldl (\<lambda>a e. and (31 * a + e + 1) 0xFFFFFFFF) 7 es)"
    by (simp only: foldl_append foldl.simps mask)
  moreover have "canonical 0" "canonical 8" by (simp_all add: canonical_def GOLDILOCKS_PRIME_def)
  ultimately show ?thesis using assms by (simp add: demo_hasher_def canonical_hash_def)
qed

lemma subtree_root_canonical:
  assumes "\<And>es. length es = 8 \<Longrightarrow> canonical_hash (P es)"
  shows "canonical_hash (spec_root (hash_output_hash P) BATCH_SUBTREE_DEPTH ls)"
proof -
  have depth: "BATCH_SUBTREE_DEPTH = Suc 8" by (simp add: BATCH_SUBTREE_DEPTH_def)
  show ?thesis
    unfolding depth spec_root_def node.simps by (simp add: hash_output_hash_def assms)
qed

lemma demo_root_canonical: "canonical_hash (spec_root (hash_output_hash demo_hasher) BATCH_SUBTREE_DEPTH ls)"
  by (rule subtree_root_canonical) (rule demo_hasher_canonical)

subsection \<open>Properties\<close>

text \<open>
  C26. What a transaction preimage does, on every branch: too short a preimage is an error that
  changes nothing; a limb outside the field in any output commitment, or in a nullifier of a real
  slot, makes the service panic; otherwise the batch becomes pending with its 512 output
  commitments in order as the leaves of its subtree, every commitment is located at a leaf that
  holds it, and exactly the nullifiers of the real slots become pending for this batch.
\<close>

theorem apply_tx_preimage_effect:
  assumes "state_ok P s"
  shows "if length pre < TX_PREIMAGE_LEN then apply_tx_preimage pre pi s = Inl (Err Preimage_too_short)
    else if \<not> tx_canonical pre then apply_tx_preimage pre pi s = Inl (Panic Unwrap_failed)
    else \<exists>s'. apply_tx_preimage pre pi s = Inr s' \<and> state_ok P s'
      \<and> pending_tx_batches s' = (pending_tx_batches s)(pi \<mapsto> pre)
      \<and> pending_batch_leaves s' pi = Some (map (tx_leaf pre) [0..<512])
      \<and> (\<forall>i < 512. \<exists>j < 512. tx_leaf pre j = tx_leaf pre i
          \<and> commitment_to_batch s' (tx_leaf pre i) = Some \<lparr>loc_pi = pi, loc_index = j, loc_confirmed = False\<rparr>)
      \<and> (\<forall>n. pending_nullifiers s' n =
          (if \<exists>k < 64. tx_real pre k \<and> n \<in> set (tx_nullifiers pre k) then Some pi else pending_nullifiers s n))"
proof -
  have nulls: "n \<in> set (tx_all_nullifiers pre) \<longleftrightarrow> (\<exists>k < 64. tx_real pre k \<and> n \<in> set (tx_nullifiers pre k))" for n
    by (auto simp: tx_all_nullifiers_def)
  have "\<exists>j < 512. tx_leaf pre j = tx_leaf pre i
      \<and> commitment_to_batch (tx_applied pre pi s) (tx_leaf pre i)
        = Some \<lparr>loc_pi = pi, loc_index = j, loc_confirmed = False\<rparr>" if "i < 512" for i
    using located_leaf [OF that, of "tx_leaf pre" pi s] by (simp del: upt_Suc)
  then show ?thesis
    using state_ok_tx_applied [OF assms, of pre pi] all_commitments_added(1) [OF assms, of "tx_leaf pre" pi]
    unfolding apply_tx_preimage_eq by (simp add: nulls del: upt_Suc)
qed

theorem apply_tx_preimage_effect_witness:
  "\<exists>s s'. sync_state_new demo_hasher 32 = Inr s
    \<and> apply_tx_preimage (demo_preimage ZERO_hash) [1] s = Inr s'
    \<and> pending_batch_leaves s' [1] = Some (replicate 512 ZERO_hash)"
proof -
  obtain s where s: "sync_state_new demo_hasher 32 = Inr s" "state_ok demo_hasher s"
    by (rule sync_state_new_ok [of 32 demo_hasher]) auto
  have "map (tx_leaf (demo_preimage ZERO_hash)) [0..<512] = replicate 512 ZERO_hash"
    by (rule nth_equalityI) (simp_all add: demo_preimage_props del: upt_Suc)
  with apply_tx_preimage_effect [OF s(2), of "demo_preimage ZERO_hash" "[1]"] s(1) show ?thesis
    by (auto simp: demo_preimage_props simp del: upt_Suc)
qed

text \<open>
  C6. A batch that was submitted and then proven can be used: if the digest at the head of the
  preimage is the Merkle root of its 512 output commitments and the state tree has room, replaying
  the proof event succeeds against any provider; afterwards every output commitment has two
  verifying proofs that chain up to the root of the state tree, the nullifiers of all real slots
  are confirmed, and so is the batch.
\<close>

theorem replayed_batch_is_provable:
  assumes "state_ok P s" and "num_leaves (state_tree s) < 2 ^ depth (state_tree s)"
    and "apply_tx_preimage pre (pe_pi e) s = Inr s1" and "pe_kind e = Transaction"
    and "extract_batch_root_from_preimage pre = Inr br"
    and "br = spec_root (hash_output_hash P) BATCH_SUBTREE_DEPTH (map (tx_leaf pre) [0..<512])"
  shows "\<exists>s2. replay_proven P rpc genesis search_to chunk e s1 = (Inr (), s2)
    \<and> leaves (state_tree s2) = leaves (state_tree s) @ [br]
    \<and> (\<forall>i < 512. \<exists>p q. get_commitment_status P s2 (tx_leaf pre i) = Inr (Commitment_Confirmed p q)
        \<and> verify_proof (hash_output_hash P) p \<and> verify_proof (hash_output_hash P) q
        \<and> proof_leaf p = tx_leaf pre i \<and> proof_root p = br \<and> proof_leaf q = br
        \<and> root (hash_output_hash P) (state_tree s2) = Inr (proof_root q))
    \<and> (\<forall>n \<in> set (tx_all_nullifiers pre). get_nullifier_status s2 n = Nullifier_Confirmed)
    \<and> get_batch_status s2 (pe_pi e) Transaction = Batch_Confirmed"
proof -
  have s1: "s1 = tx_applied pre (pe_pi e) s"
    using assms(3) by (simp add: apply_tx_preimage_eq split: if_splits)
  have run: "replay_proven P rpc genesis search_to chunk e s1 = confirm_batch P (pe_pi e) br (pe_new_tree_root e) s1"
    by (rule replay_pending) (use assms(4,5) s1 in simp_all)
  obtain s2 where s2: "confirm_batch P (pe_pi e) br (pe_new_tree_root e) s1 = (Inr (), s2)"
    and st: "leaves (state_tree s2) = leaves (state_tree s) @ [br]"
      "\<forall>n \<in> set (tx_all_nullifiers pre). get_nullifier_status s2 n = Nullifier_Confirmed"
      "get_batch_status s2 (pe_pi e) Transaction = Batch_Confirmed"
    using tx_applied_confirm_status [OF assms(1,2)] s1 by blast
  have "\<forall>i < 512. \<exists>p q. get_commitment_status P s2 (tx_leaf pre i) = Inr (Commitment_Confirmed p q)
      \<and> verify_proof (hash_output_hash P) p \<and> verify_proof (hash_output_hash P) q
      \<and> proof_leaf p = tx_leaf pre i \<and> proof_root p = br \<and> proof_leaf q = br
      \<and> root (hash_output_hash P) (state_tree s2) = Inr (proof_root q)"
    using tx_applied_confirm [OF assms(1,2,6), of _ "pe_pi e" "pe_new_tree_root e"] s2 unfolding s1 by simp
  with run s2 st show ?thesis by simp
qed

theorem replayed_batch_is_provable_witness:
  "\<exists>s s1 s2 r. sync_state_new demo_hasher 32 = Inr s
    \<and> apply_tx_preimage (demo_preimage r) [1] s = Inr s1
    \<and> replay_proven demo_hasher demo_rpc 0 0 1
        \<lparr>pe_pi = [1], pe_new_tree_root = ZERO_hash, pe_leaf_index = 0, pe_kind = Transaction\<rparr> s1 = (Inr (), s2)
    \<and> get_batch_status s2 [1] Transaction = Batch_Confirmed"
proof -
  let ?r = "spec_root (hash_output_hash demo_hasher) BATCH_SUBTREE_DEPTH (replicate 512 ZERO_hash)"
  let ?e = "\<lparr>pe_pi = [1], pe_new_tree_root = ZERO_hash, pe_leaf_index = 0, pe_kind = Transaction\<rparr>"
  obtain s where s: "sync_state_new demo_hasher 32 = Inr s" "state_ok demo_hasher s"
    "state_tree s = canonical_tree (hash_output_hash demo_hasher) 32 []"
    by (rule sync_state_new_ok [of 32 demo_hasher]) auto
  have leaves: "map (tx_leaf (demo_preimage ?r)) [0..<512] = replicate 512 ZERO_hash"
    by (rule nth_equalityI) (simp_all add: demo_preimage_props del: upt_Suc)
  have app: "apply_tx_preimage (demo_preimage ?r) (pe_pi ?e) s = Inr (tx_applied (demo_preimage ?r) [1] s)"
    by (simp add: apply_tx_preimage_eq demo_preimage_props)
  have fits: "num_leaves (state_tree s) < 2 ^ depth (state_tree s)" using s(3) by (simp add: num_leaves_def)
  have eq: "?r = spec_root (hash_output_hash demo_hasher) BATCH_SUBTREE_DEPTH
      (map (tx_leaf (demo_preimage ?r)) [0..<512])"
    by (simp only: leaves)
  have kind: "pe_kind ?e = Transaction" by simp
  obtain s2 where "replay_proven demo_hasher demo_rpc 0 0 1 ?e (tx_applied (demo_preimage ?r) [1] s) = (Inr (), s2)"
    and "get_batch_status s2 (pe_pi ?e) Transaction = Batch_Confirmed"
    using replayed_batch_is_provable [OF s(2) fits app kind demo_preimage_root [OF demo_root_canonical] eq,
        of demo_rpc 0 0 1] by (elim exE conjE)
  with s(1) app show ?thesis unfolding proven_batch_entry.select_convs by blast
qed

text \<open>
  The bridge preimage, on every branch: 256 withdrawal slots and 256 deposit slots of different
  widths become the 512 leaves of the pending batch in slot order, and exactly the account
  nullifiers of the real slots become pending; a limb outside the field makes the service panic.
\<close>

theorem apply_bridge_preimage_effect:
  assumes "state_ok P s"
  shows "if length pre < BRIDGE_TX_PREIMAGE_LEN then apply_bridge_preimage pre pi s = Inl (Err Preimage_too_short)
    else if \<not> bridge_canonical pre then apply_bridge_preimage pre pi s = Inl (Panic Unwrap_failed)
    else \<exists>s'. apply_bridge_preimage pre pi s = Inr s'
      \<and> pending_bridge_tx_batches s' = (pending_bridge_tx_batches s)(pi \<mapsto> pre)
      \<and> pending_batch_leaves s' pi = Some (map (bridge_leaf pre) [0..<512])
      \<and> (\<forall>i < 512. \<exists>j < 512. bridge_leaf pre j = bridge_leaf pre i
          \<and> commitment_to_batch s' (bridge_leaf pre i) = Some \<lparr>loc_pi = pi, loc_index = j, loc_confirmed = False\<rparr>)
      \<and> (\<forall>n. pending_nullifiers s' n =
          (if \<exists>k < 512. preimage_field pre (bridge_slot k) \<noteq> 0 \<and> n = preimage_hash pre (bridge_slot k + 1)
           then Some pi else pending_nullifiers s n))"
proof -
  have nulls: "n \<in> set (bridge_all_nullifiers pre) \<longleftrightarrow>
      (\<exists>k < 512. preimage_field pre (bridge_slot k) \<noteq> 0 \<and> n = preimage_hash pre (bridge_slot k + 1))" for n
    by (auto simp: bridge_all_nullifiers_def bridge_nullifiers_def split: if_splits)
  have sel: "pending_batch_leaves (bridge_applied pre pi s) = pending_batch_leaves (add_commitments (bridge_leaf pre) pi [0..<512] s)"
    "commitment_to_batch (bridge_applied pre pi s) = commitment_to_batch (add_commitments (bridge_leaf pre) pi [0..<512] s)"
    "pending_bridge_tx_batches (bridge_applied pre pi s) = (pending_bridge_tx_batches s)(pi \<mapsto> pre)"
    "pending_nullifiers (bridge_applied pre pi s) =
      (\<lambda>n. if n \<in> set (bridge_all_nullifiers pre) then Some pi else pending_nullifiers s n)"
    by (auto simp: bridge_applied_def Let_def fun_eq_iff simp del: upt_Suc)
  have "\<exists>j < 512. bridge_leaf pre j = bridge_leaf pre i
      \<and> commitment_to_batch (bridge_applied pre pi s) (bridge_leaf pre i)
        = Some \<lparr>loc_pi = pi, loc_index = j, loc_confirmed = False\<rparr>" if "i < 512" for i
    using located_leaf [OF that, of "bridge_leaf pre" pi s] by (simp add: sel del: upt_Suc)
  then show ?thesis
    using all_commitments_added(1) [OF assms, of "bridge_leaf pre" pi]
    unfolding apply_bridge_preimage_eq by (simp add: nulls sel del: upt_Suc)
qed

theorem apply_bridge_preimage_effect_witness:
  "\<exists>s. sync_state_new demo_hasher 32 = Inr s
    \<and> apply_bridge_preimage (demo_preimage ZERO_hash) [1] s = Inl (Err Preimage_too_short)"
proof -
  obtain s where s: "sync_state_new demo_hasher 32 = Inr s" "state_ok demo_hasher s"
    by (rule sync_state_new_ok [of 32 demo_hasher]) auto
  have "length (demo_preimage ZERO_hash) < BRIDGE_TX_PREIMAGE_LEN"
    by (simp add: demo_preimage_props layout_defs)
  with apply_bridge_preimage_effect [OF s(2), of "demo_preimage ZERO_hash" "[1]"] s(1) show ?thesis by simp
qed



end
