(* ===== verification/Goldilocks.thy ===== *)
theory Goldilocks
  imports Field_Codec
begin

section \<open>The Goldilocks field\<close>

text \<open>
  The wires of every circuit carry elements of the Goldilocks field, modelled by their canonical
  words. This theory shows that the order \<open>2 ^ 64 - 2 ^ 32 + 1\<close> has no proper divisor, by
  Pocklington's criterion with a root of unity of order \<open>2 ^ 32\<close>,
  so that a product of two field elements vanishes only if a factor does, and collects the rules
  that turn a constraint between wires into a congruence of natural numbers.
\<close>

abbreviation gp :: nat where "gp \<equiv> 18446744069414584321"

named_theorems felt_simps "field operations as arithmetic modulo the order"

subsection \<open>The order has no proper divisor\<close>

text \<open>
  A chain of squarings modulo \<open>n\<close>, each certified by its quotient and remainder.
\<close>

fun square_chain :: "nat \<Rightarrow> nat \<Rightarrow> (nat \<times> nat) list \<Rightarrow> nat \<Rightarrow> bool" where
  "square_chain n a [] z \<longleftrightarrow> a = z"
| "square_chain n a ((q, r) # cs) z \<longleftrightarrow> a * a = q * n + r \<and> square_chain n r cs z"

lemma square_chain_power:
  "square_chain n a cs z \<Longrightarrow> b ^ e mod n = a mod n \<Longrightarrow> b ^ (e * 2 ^ length cs) mod n = z mod n"
proof (induction n a cs z arbitrary: e rule: square_chain.induct)
  case (2 n a q r cs z)
  have "b ^ (e * 2) mod n = (b ^ e mod n) * (b ^ e mod n) mod n"
    by (simp only: mult_2_right power_add mod_mult_eq)
  also have "\<dots> = (q * n + r) mod n" using 2(2,3) by (simp add: mod_mult_eq)
  finally have "b ^ (e * 2) mod n = r mod n" by simp
  then have "b ^ (e * 2 * 2 ^ length cs) mod n = z mod n" using 2(1) 2(2) by simp
  then show ?case by (simp add: mult.assoc)
qed simp

definition root_of_unity :: nat where
  "root_of_unity = 1753635133440165772"

definition square_certificate :: "(nat \<times> nat) list" where
  "square_certificate =
    [(166708887468903991, 4614640910117430873),
     (1154399424049971884, 9123114210336311365),
     (4511973093009996851, 16116352524544190054),
     (14080361158478670879, 6414415596519834757),
     (2230460144622294524, 1213594585890690845),
     (79841288704448195, 17096174751763063430),
     (15844486704156700236, 5456943929260765144),
     (1614281465338340559, 9713644485405565297),
     (5114988793349933654, 16905767614792059275),
     (15493518941330557636, 5416168637041100469),
     (1590247178281506213, 17654865857378133588),
     (16896981237942002723, 3511170319078647661),
     (668319404399374695, 18146160046829613826),
     (17850473948468743512, 9306717745644682924),
     (4695408299218975106, 12380578893860276750),
     (8309256808156222390, 6115771955107415310),
     (2027602620068516376, 17776499369601055404),
     (17130607366173278638, 16207902636198568418),
     (14240784545824149997, 1532612707718625687),
     (127334216977357403, 17492915097719143606),
     (16588405924890216597, 455906449640507599),
     (11267608529812975, 11353340290879379826),
     (6987592784692205430, 1803076106186727246),
     (176241586724885086, 13797081185216407910),
     (10319406422896923811, 17870292113338400769),
     (17311854006015885313, 549755813888),
     (16384, 70368744161280),
     (268435455, 17293822564807737345),
     (16212958654255595520, 18446744069397807105),
     (18446744069381029889, 281474976710656),
     (4294967296, 18446744069414584320)]"

definition half_order :: nat where
  "half_order = 2147483648"

lemma root_half_order: "root_of_unity ^ half_order mod gp = gp - 1"
proof -
  have "square_chain gp root_of_unity square_certificate (gp - 1)"
    by (simp add: square_certificate_def root_of_unity_def)
  moreover have "2 ^ length square_certificate = half_order"
    by (simp add: square_certificate_def half_order_def)
  ultimately show ?thesis
    using square_chain_power [of gp root_of_unity square_certificate "gp - 1" root_of_unity 1] by simp
qed

lemma order_cancel:
  fixes b q :: nat
  assumes "b ^ j mod q = 1 mod q" and "i \<le> j" and "b ^ i mod q = b ^ (i + k) mod q"
  shows "b ^ k mod q = 1 mod q"
proof -
  have "b ^ (j - i) * b ^ i mod q = b ^ (j - i) * b ^ (i + k) mod q"
    using assms(3) by (metis mod_mult_right_eq)
  moreover have "b ^ (j - i) * b ^ i = b ^ j" "b ^ (j - i) * b ^ (i + k) = b ^ j * b ^ k"
    using assms(2) by (simp_all flip: power_add)
  ultimately have "b ^ j mod q = b ^ j * b ^ k mod q" by simp
  also have "\<dots> = b ^ k mod q"
    using assms(1) by (metis mod_mult_left_eq mult_1)
  finally show ?thesis using assms(1) by simp
qed

lemma divisor_bound:
  fixes b q h :: nat
  assumes q: "1 < q" "odd q" and half: "b ^ h mod q = q - 1" and split: "2 * h = 2 ^ k * m" and "0 < h"
  shows "2 ^ k < q"
proof -
  have "b ^ (2 * h) mod q = (b ^ h mod q) * (b ^ h mod q) mod q"
    by (simp only: mult_2 power_add mod_mult_eq)
  then have "b ^ (2 * h) mod q = (q - 1) * (q - 1) mod q" by (simp only: half)
  moreover have "(q - 1) * (q - 1) = (q - 2) * q + 1"
  proof -
    define r where "r = q - 2"
    then have "q = Suc (Suc r)" using q(1) by simp
    then show ?thesis by simp
  qed
  ultimately have one: "b ^ (2 * h) mod q = 1" using q(1) by (simp only: mod_mult_self3 mod_less)
  define ord where "ord = (LEAST j. 0 < j \<and> b ^ j mod q = 1)"
  have ord: "0 < ord" "b ^ ord mod q = 1"
    using LeastI [of "\<lambda>j. 0 < j \<and> b ^ j mod q = 1" "2 * h"] one \<open>0 < h\<close> by (auto simp: ord_def)
  have least: "b ^ j mod q \<noteq> 1" if "0 < j" "j < ord" for j
    using not_less_Least [of j "\<lambda>j. 0 < j \<and> b ^ j mod q = 1"] that by (auto simp: ord_def)
  have pow_ord: "b ^ (ord * c + r) mod q = b ^ r mod q" for c r
  proof -
    have "(b ^ ord) ^ c mod q = (b ^ ord mod q) ^ c mod q" by (simp only: power_mod)
    then have "(b ^ ord) ^ c mod q = 1" using q(1) by (simp only: ord(2) power_one mod_less)
    moreover have "b ^ (ord * c + r) mod q = ((b ^ ord) ^ c mod q) * b ^ r mod q"
      by (simp only: power_add power_mult mod_mult_left_eq)
    ultimately show ?thesis by simp
  qed
  have dvd: "ord dvd j" if "b ^ j mod q = 1" for j
  proof (rule ccontr)
    assume "\<not> ord dvd j"
    then have "0 < j mod ord" "j mod ord < ord" using ord(1) by (simp_all add: mod_greater_zero_iff_not_dvd)
    moreover have "b ^ (j mod ord) mod q = 1"
      using pow_ord [of "j div ord" "j mod ord"] that by simp
    ultimately show False using least by blast
  qed
  obtain c where c: "2 * h = ord * c" using dvd [OF one] by blast
  have "\<not> ord dvd h"
  proof
    assume "ord dvd h"
    then obtain c' where "h = ord * c'" by blast
    then have "q - 1 = 1" using pow_ord [of c' 0] half q(1) by simp
    then have "q = 2" by simp
    then show False using q(2) by simp
  qed
  have "odd c"
  proof
    assume "even c"
    then obtain e where "c = 2 * e" by blast
    then have "h = ord * e" using c by simp
    with \<open>\<not> ord dvd h\<close> show False by simp
  qed
  then have "coprime (2 ^ k) c" by simp
  moreover have "2 ^ k dvd ord * c" using c split by (metis dvd_triv_left)
  ultimately have "2 ^ k dvd ord" using coprime_dvd_mult_left_iff by blast
  then have "2 ^ k \<le> ord" using ord(1) dvd_imp_le by blast
  also have "ord \<le> q - 1"
  proof -
    have "inj_on (\<lambda>i. b ^ i mod q) {0..<ord}"
    proof (rule linorder_inj_onI)
      fix i j assume "i < j" "i \<in> {0..<ord}" "j \<in> {0..<ord}"
      then show "b ^ i mod q \<noteq> b ^ j mod q"
        using order_cancel [of b ord q i "j - i"] least [of "j - i"] ord(2) q(1) by auto
    qed auto
    moreover have "(\<lambda>i. b ^ i mod q) ` {0..<ord} \<subseteq> {1..<q}"
    proof (clarsimp, intro conjI)
      fix i assume i: "i < ord"
      show "Suc 0 \<le> b ^ i mod q"
      proof (rule ccontr)
        assume "\<not> Suc 0 \<le> b ^ i mod q"
        then have "b ^ i mod q = 0" by simp
        then have "b ^ i * b ^ (ord - i) mod q = 0" by (metis mod_mult_left_eq mult_0 mod_0)
        then have "b ^ (i + (ord - i)) mod q = 0" by (simp only: power_add)
        with i ord(2) show False by simp
      qed
      show "b ^ i mod q < q" using q(1) by simp
    qed
    ultimately have "card {0..<ord} \<le> card {1..<q}" using card_inj_on_le finite_atLeastLessThan by blast
    then show ?thesis by simp
  qed
  finally show ?thesis using q(1) by simp
qed

lemma gp_divisors:
  assumes "d dvd gp"
  shows "d = 1 \<or> d = gp"
proof (rule ccontr)
  assume d: "\<not> (d = 1 \<or> d = gp)"
  obtain e where e: "gp = d * e" using assms by (rule dvdE)
  have big: "4294967296 < q" if dv: "q dvd gp" and ne: "q \<noteq> 1" for q
  proof -
    have "odd q"
    proof
      assume "even q"
      with dv have "2 dvd gp" by (rule dvd_trans [rotated])
      then show False by simp
    qed
    moreover from this have "q \<noteq> 0" by (intro notI) simp
    ultimately have "q \<noteq> 0" "odd q" by simp_all
    then have q: "1 < q" using ne by simp
    have "(gp - 1) mod q = q - 1"
    proof -
      obtain c where c: "gp = q * c" using dv by (rule dvdE)
      then have "c \<noteq> 0" by (intro notI) simp
      then obtain c' where "c = Suc c'" by (cases c) auto
      then have "gp - 1 = q * c' + (q - 1)" using c q by simp
      then show ?thesis using q by (simp only: mod_mult_self4 mod_less diff_less)
    qed
    moreover have "root_of_unity ^ half_order mod q = (gp - 1) mod q"
      by (simp only: mod_mod_cancel [OF dv, of "root_of_unity ^ half_order", symmetric] root_half_order)
    ultimately have "root_of_unity ^ half_order mod q = q - 1" by (rule trans [rotated])
    moreover have "2 * half_order = 2 ^ 32 * 1" "0 < half_order"
      by (simp_all add: half_order_def)
    ultimately have "2 ^ 32 < q" using q \<open>odd q\<close> divisor_bound by blast
    then show ?thesis by simp
  qed
  have "4294967296 < d" using big [OF assms] d by blast
  moreover have "e \<noteq> 1" using e d by (intro notI) simp
  then have "4294967296 < e" using big [of e] e by simp
  ultimately have "4294967297 * 4294967297 \<le> d * e" by (intro mult_le_mono) simp_all
  then show False unfolding e [symmetric] by simp
qed

lemma gp_euclid: "gp dvd a * b \<Longrightarrow> gp dvd a \<or> gp dvd b"
proof (rule disjCI)
  assume ab: "gp dvd a * b" and "\<not> gp dvd b"
  then have "gcd gp b \<noteq> gp" by (metis gcd_dvd2)
  then have "coprime gp b" using gp_divisors [of "gcd gp b"] by (metis coprime_iff_gcd_eq_1 gcd_dvd1)
  then show "gp dvd a" using ab coprime_dvd_mult_left_iff by blast
qed

subsection \<open>Wires and constraints\<close>

lemma gp_eq: "unat GOLDILOCKS_PRIME = gp"
  by (rule unat_PRIME)

lemma felt_eq_iff: "(x :: felt) = y \<longleftrightarrow> unat x = unat y"
  by (rule word_unat_eq_iff)

lemma canonical_lt: "canonical x \<longleftrightarrow> unat x < gp"
  by (simp add: canonical_unat gp_eq)

lemma unat_felt_add [felt_simps]: "unat (felt_add a b) = (unat a + unat b) mod gp"
  by (simp add: felt_arith_unat gp_eq)

lemma unat_felt_mul [felt_simps]: "unat (felt_mul a b) = unat a * unat b mod gp"
  by (simp add: felt_arith_unat gp_eq)

lemma unat_felt_sub [felt_simps]: "unat (felt_sub a b) = (unat a + (gp - unat b mod gp)) mod gp"
  by (simp only: felt_sub_def unat_reduced) (simp only: gp_eq)

text \<open>The same over the integers, where subtraction needs no correction.\<close>

lemma uint_felt_ops:
  "uint (felt_add a b) = (uint a + uint b) mod int gp"
  "uint (felt_mul a b) = uint a * uint b mod int gp"
  "uint (felt_sub a b) = (uint a - uint b) mod int gp"
proof -
  have n: "uint x = int (unat x)" for x :: felt by simp
  show "uint (felt_add a b) = (uint a + uint b) mod int gp"
    unfolding n unat_felt_add by (simp only: of_nat_add of_nat_mod)
  show "uint (felt_mul a b) = uint a * uint b mod int gp"
    unfolding n unat_felt_mul by (simp only: of_nat_mult of_nat_mod)
  have "int (gp - unat b mod gp) = int gp - int (unat b) mod int gp"
    by (subst of_nat_diff) (simp_all only: of_nat_mod mod_le_divisor zero_less_numeral)
  then have "uint (felt_sub a b) = (int (unat a) + (int gp - int (unat b) mod int gp)) mod int gp"
    unfolding n unat_felt_sub by (simp only: of_nat_add of_nat_mod)
  also have "\<dots> = (int (unat a) - int (unat b) mod int gp + int gp) mod int gp"
    by (simp only: algebra_simps)
  also have "\<dots> = (uint a - uint b) mod int gp"
    unfolding n by (simp only: mod_add_self2 mod_diff_right_eq)
  finally show "uint (felt_sub a b) = (uint a - uint b) mod int gp" .
qed

lemma canonical_felt_ops [simp]:
  "canonical (felt_add a b)" "canonical (felt_mul a b)" "canonical (felt_sub a b)"
  by (simp_all add: canonical_lt felt_simps)

lemma unat_of_small: "n < 2 ^ 64 \<Longrightarrow> unat (of_nat n :: felt) = n"
  by (simp add: unat_of_nat)

lemma canonical_0_1 [simp]: "canonical 0" "canonical 1"
  by (simp_all add: canonical_lt)

text \<open>The field has no zero divisors.\<close>

lemma felt_mul_eq_0:
  assumes "canonical a" and "canonical b" and "felt_mul a b = 0"
  shows "a = 0 \<or> b = 0"
proof -
  have "gp dvd unat a * unat b"
    using assms(3) by (simp add: felt_eq_iff felt_simps dvd_eq_mod_eq_0)
  then have "gp dvd unat a \<or> gp dvd unat b" by (rule gp_euclid)
  then have "unat a = 0 \<or> unat b = 0"
    using assms(1,2) by (auto simp: canonical_lt dest: dvd_imp_le)
  then show ?thesis by (simp add: felt_eq_iff)
qed

text \<open>\<^verbatim>\<open>mul_const_add(c, x, y)\<close> is \<open>c * x + y\<close>; \<^verbatim>\<open>mul_sub(x, y, z)\<close> is \<open>x * y - z\<close>.\<close>

definition mul_const_add :: "felt \<Rightarrow> felt \<Rightarrow> felt \<Rightarrow> felt" where
  "mul_const_add c x y = felt_add (felt_mul c x) y"

definition mul_sub :: "felt \<Rightarrow> felt \<Rightarrow> felt \<Rightarrow> felt" where
  "mul_sub x y z = felt_sub (felt_mul x y) z"

lemma unat_mul_const_add [felt_simps]: "unat (mul_const_add c x y) = (unat c * unat x + unat y) mod gp"
  by (simp add: mul_const_add_def felt_simps mod_simps)

text \<open>The boolean constraint \<open>b * b - b = 0\<close>.\<close>

lemma uint_mod_canonical: "canonical x \<Longrightarrow> uint x mod int gp = uint x"
proof (rule mod_pos_pos_trivial)
  assume "canonical x"
  then have "int (unat x) < int gp" by (simp only: canonical_lt of_nat_less_iff)
  then show "uint x < int gp" by simp
qed simp

lemma felt_sub_eq_0: "canonical a \<Longrightarrow> canonical b \<Longrightarrow> felt_sub a b = 0 \<longleftrightarrow> a = b"
proof -
  assume c: "canonical a" "canonical b"
  have "felt_sub a b = 0 \<longleftrightarrow> (uint a - uint b) mod int gp = 0"
    by (simp only: word_uint_eq_iff uint_felt_ops unsigned_0)
  also have "\<dots> \<longleftrightarrow> uint a mod int gp = uint b mod int gp"
    by (simp only: mod_eq_0_iff_dvd mod_eq_dvd_iff)
  finally have "felt_sub a b = 0 \<longleftrightarrow> uint a mod int gp = uint b mod int gp" .
  then show ?thesis using c by (simp only: word_uint_eq_iff uint_mod_canonical)
qed

lemma felt_mul_sub_distrib: "felt_sub (felt_mul x x) x = felt_mul x (felt_sub x 1)"
proof -
  have "uint (felt_sub (felt_mul x x) x) = (uint x * uint x - uint x) mod int gp"
    by (simp only: uint_felt_ops mod_diff_left_eq)
  also have "\<dots> = uint (felt_mul x (felt_sub x 1))"
    by (simp only: uint_felt_ops mod_mult_right_eq right_diff_distrib unsigned_1 mult_1_right)
  finally show ?thesis by (simp only: word_uint_eq_iff)
qed

lemma bool_constraint:
  assumes "canonical x"
  shows "mul_sub x x x = 0 \<longleftrightarrow> x = 0 \<or> x = 1"
proof
  assume "mul_sub x x x = 0"
  then have "felt_mul x (felt_sub x 1) = 0" by (simp add: mul_sub_def felt_mul_sub_distrib)
  with assms felt_mul_eq_0 [of x "felt_sub x 1"] show "x = 0 \<or> x = 1"
    by (simp add: felt_sub_eq_0)
next
  assume "x = 0 \<or> x = 1"
  then show "mul_sub x x x = 0"
    by (auto simp: mul_sub_def felt_mul_sub_distrib felt_eq_iff felt_simps)
qed

end
