(* ===== verification/U32_Gadgets.thy ===== *)
theory U32_Gadgets
  imports Goldilocks
begin

section \<open>32-bit gadgets over lookup tables\<close>

text \<open>
  \<^verbatim>\<open>doxa-utils/src/plonky2_gadgets/u32/gadgets\<close>: range checks by decomposition into looked-up
  chunks, XOR, AND, NOT, wrapping addition, rotation and shift. A gadget is modelled by the
  constraints it adds, as a predicate on the values of the wires: the wires it allocates are
  arguments, and a gadget that returns a wire yields its value together with the truth of the
  constraints. A lookup table is the list of its pairs; looking a wire up demands a pair with
  that input. The witness generators are functions of the values they depend on. Soundness
  says what the constraints force on the output for range-checked inputs, completeness that the
  generated wires satisfy them.
\<close>

unbundle bit_operations_syntax

type_synonym lut = "(felt \<times> felt) list"

subsection \<open>Lookup tables\<close>

definition chunk_bits_ok :: "nat \<Rightarrow> bool" where
  "chunk_bits_ok k \<longleftrightarrow> k = 1 \<or> k = 2 \<or> k = 4 \<or> k = 8"

definition add_chunk_range_check_lookup_table :: "nat \<Rightarrow> (unit, lut) result" where
  "add_chunk_range_check_lookup_table k =
     bind_r (assert_r (chunk_bits_ok k)) (\<lambda>_. Inr (map (\<lambda>i. (of_nat i, of_nat i)) [0..<2 ^ k]))"

definition chunk_pair_table :: "(nat \<Rightarrow> nat \<Rightarrow> nat) \<Rightarrow> nat \<Rightarrow> lut" where
  "chunk_pair_table f k =
     concat (map (\<lambda>a. map (\<lambda>b. (of_nat (push_bit k a OR b), of_nat (f a b))) [0..<2 ^ k]) [0..<2 ^ k])"

definition add_chunk_xor_lookup_table :: "nat \<Rightarrow> (unit, lut) result" where
  "add_chunk_xor_lookup_table k =
     bind_r (assert_r (chunk_bits_ok k)) (\<lambda>_. Inr (chunk_pair_table (\<lambda>a b. a XOR b) k))"

definition add_chunk_and_lookup_table :: "nat \<Rightarrow> (unit, lut) result" where
  "add_chunk_and_lookup_table k =
     bind_r (assert_r (chunk_bits_ok k)) (\<lambda>_. Inr (chunk_pair_table (\<lambda>a b. a AND b) k))"

definition add_u8_range_check_lookup_table :: "(unit, lut) result" where
  "add_u8_range_check_lookup_table = add_chunk_range_check_lookup_table 8"

record bitwise_luts =
  chunk_bits :: nat
  chunk_range_lut :: lut
  xor_lut :: lut
  and_lut :: lut
  byte_range_lut :: lut

definition bitwise_luts_new :: "nat \<Rightarrow> (unit, bitwise_luts) result" where
  "bitwise_luts_new k =
     bind_r add_u8_range_check_lookup_table (\<lambda>byte_lut.
     bind_r (if k = 8 then Inr byte_lut else add_chunk_range_check_lookup_table k) (\<lambda>range_lut.
     bind_r (add_chunk_xor_lookup_table k) (\<lambda>xlut.
     bind_r (add_chunk_and_lookup_table k) (\<lambda>alut.
       Inr \<lparr>chunk_bits = k, chunk_range_lut = range_lut, xor_lut = xlut, and_lut = alut,
            byte_range_lut = byte_lut\<rparr>))))"

text \<open>\<^verbatim>\<open>add_lookup_from_index\<close>: the input must be listed; the pair, when the output is used.\<close>

definition in_lut :: "lut \<Rightarrow> felt \<Rightarrow> bool" where
  "in_lut t x \<longleftrightarrow> x \<in> fst ` set t"

definition looked_up :: "lut \<Rightarrow> felt \<Rightarrow> felt \<Rightarrow> bool" where
  "looked_up t x y \<longleftrightarrow> (x, y) \<in> set t"

subsection \<open>Decompositions\<close>

definition horner :: "felt \<Rightarrow> felt list \<Rightarrow> felt" where
  "horner c_base chunks = foldr (\<lambda>c acc. mul_const_add c_base acc c) (butlast chunks) (last chunks)"

definition decompose_u32_to_bytes :: "lut \<Rightarrow> felt \<Rightarrow> felt list \<Rightarrow> bool" where
  "decompose_u32_to_bytes range_lut v bs \<longleftrightarrow>
     length bs = 4 \<and> list_all (in_lut range_lut) bs \<and> horner 256 bs = v"

definition decompose_u32_to_u16_limbs ::
  "lut \<Rightarrow> felt \<Rightarrow> felt \<Rightarrow> felt \<Rightarrow> felt \<times> felt \<Rightarrow> felt \<times> felt \<Rightarrow> bool" where
  "decompose_u32_to_u16_limbs range_lut v lo hi lo_bytes hi_bytes \<longleftrightarrow>
     list_all (\<lambda>(limb, b0, b1). in_lut range_lut b0 \<and> in_lut range_lut b1
       \<and> mul_const_add 256 b1 b0 = limb) [(lo, lo_bytes), (hi, hi_bytes)]
     \<and> mul_const_add 65536 hi lo = v"

definition decompose_u32_to_chunks :: "lut \<Rightarrow> nat \<Rightarrow> felt \<Rightarrow> felt list \<Rightarrow> bool" where
  "decompose_u32_to_chunks range_lut k v chunks \<longleftrightarrow>
     chunk_bits_ok k \<and> length chunks = 32 div k \<and> list_all (in_lut range_lut) chunks
     \<and> horner (of_nat (2 ^ k)) chunks = v"

text \<open>The witness generators of the decompositions.\<close>

definition ByteDecompositionGenerator :: "felt \<Rightarrow> felt list" where
  "ByteDecompositionGenerator v =
     map (\<lambda>i. from_canonical_u64 (take_bit 8 (drop_bit (8 * i) (to_canonical_u64 v)))) [0..<4]"

definition ChunkDecompositionGenerator :: "nat \<Rightarrow> felt \<Rightarrow> felt list" where
  "ChunkDecompositionGenerator k v =
     map (\<lambda>i. from_canonical_u64 (take_bit k (drop_bit (k * i) (to_canonical_u64 v)))) [0..<32 div k]"

definition U16LimbDecompositionGenerator :: "felt \<Rightarrow> felt \<times> felt" where
  "U16LimbDecompositionGenerator v =
     (from_canonical_u64 (take_bit 16 (to_canonical_u64 v)),
      from_canonical_u64 (take_bit 16 (drop_bit 16 (to_canonical_u64 v))))"

definition LimbByteDecompositionGenerator :: "felt \<Rightarrow> felt \<times> felt" where
  "LimbByteDecompositionGenerator v =
     (from_canonical_u64 (take_bit 8 (to_canonical_u64 v)),
      from_canonical_u64 (take_bit 8 (drop_bit 8 (to_canonical_u64 v))))"

subsection \<open>Bitwise operations\<close>

definition bitwise_u32 ::
  "lut \<Rightarrow> bitwise_luts \<Rightarrow> felt \<Rightarrow> felt \<Rightarrow> felt list \<Rightarrow> felt list \<Rightarrow> felt list \<Rightarrow> felt \<times> bool" where
  "bitwise_u32 op_lut luts a b a_chunks b_chunks out_chunks =
     (let c_base = of_nat (2 ^ chunk_bits luts) in
      (horner c_base out_chunks,
       decompose_u32_to_chunks (chunk_range_lut luts) (chunk_bits luts) a a_chunks
       \<and> decompose_u32_to_chunks (chunk_range_lut luts) (chunk_bits luts) b b_chunks
       \<and> length out_chunks = 32 div chunk_bits luts
       \<and> list_all (\<lambda>i. looked_up op_lut (mul_const_add c_base (a_chunks ! i) (b_chunks ! i))
           (out_chunks ! i)) [0..<32 div chunk_bits luts]))"

definition xor_u32 where
  "xor_u32 luts a b a_chunks b_chunks out_chunks =
     bitwise_u32 (xor_lut luts) luts a b a_chunks b_chunks out_chunks"

definition and_u32 where
  "and_u32 luts a b a_chunks b_chunks out_chunks =
     bitwise_u32 (and_lut luts) luts a b a_chunks b_chunks out_chunks"

definition not_u32 :: "felt \<Rightarrow> felt" where
  "not_u32 a = felt_sub 0xFFFFFFFF a"

subsection \<open>Addition\<close>

definition wrapping_add_u32 ::
  "lut \<Rightarrow> felt \<Rightarrow> felt \<Rightarrow> felt \<Rightarrow> felt \<Rightarrow> felt list \<Rightarrow> felt \<times> bool" where
  "wrapping_add_u32 range_lut a b r overflow bs =
     (r, decompose_u32_to_bytes range_lut r bs \<and> mul_sub overflow overflow overflow = 0
       \<and> felt_add a b = felt_add r (felt_mul overflow 4294967296))"

definition assert_add_u32_limbs :: "felt \<times> felt \<Rightarrow> felt \<times> felt \<Rightarrow> felt \<times> felt \<Rightarrow> bool" where
  "assert_add_u32_limbs r lhs rhs \<longleftrightarrow>
     (let r_full = mul_const_add 65536 (snd r) (fst r);
          lhs_full = mul_const_add 65536 (snd lhs) (fst lhs);
          rhs_full = mul_const_add 65536 (snd rhs) (fst rhs);
          acc = felt_sub (felt_sub r_full lhs_full) rhs_full;
          acc16 = felt_sub (felt_sub (fst r) (fst lhs)) (fst rhs)
      in felt_mul acc (felt_add acc 4294967296) = 0 \<and> felt_mul acc16 (felt_add acc16 65536) = 0)"

definition U32WrappingAddGenerator :: "felt \<Rightarrow> felt \<Rightarrow> ('e, felt \<times> felt) result" where
  "U32WrappingAddGenerator a b =
     bind_r (add_u64 (unat (to_canonical_u64 a)) (unat (to_canonical_u64 b))) (\<lambda>s.
       Inr (from_canonical_u64 (of_nat (take_bit 32 s)), from_canonical_u64 (of_nat (drop_bit 32 s))))"

subsection \<open>Rotation and shift\<close>

definition split_product ::
  "lut \<Rightarrow> felt \<Rightarrow> nat \<Rightarrow> felt \<Rightarrow> felt \<Rightarrow> felt list \<Rightarrow> felt list \<Rightarrow> bool" where
  "split_product range_lut a n lo hi lo_bytes hi_bytes \<longleftrightarrow>
     0 < n \<and> n < 32 \<and>
     (let product = mul_const_add (of_nat (2 ^ (32 - n))) a 0 in
      decompose_u32_to_bytes range_lut lo lo_bytes \<and> decompose_u32_to_bytes range_lut hi hi_bytes
      \<and> product = mul_const_add 4294967296 hi lo)"

definition rotr_u32 where
  "rotr_u32 range_lut a n lo hi lo_bytes hi_bytes =
     (felt_add lo hi, split_product range_lut a n lo hi lo_bytes hi_bytes)"

definition shr_u32 :: "lut \<Rightarrow> felt \<Rightarrow> nat \<Rightarrow> felt \<Rightarrow> felt \<Rightarrow> felt list \<Rightarrow> felt list \<Rightarrow> felt \<times> bool" where
  "shr_u32 range_lut a n lo hi lo_bytes hi_bytes =
     (hi, split_product range_lut a n lo hi lo_bytes hi_bytes)"

definition SplitLowHighGenerator :: "felt \<Rightarrow> felt \<times> felt" where
  "SplitLowHighGenerator product =
     (let v = to_canonical_u64 product in
      (from_canonical_u64 (take_bit 32 v), from_canonical_u64 (drop_bit 32 v)))"

subsection \<open>Recomposition\<close>

lemma horner_Cons: "cs \<noteq> [] \<Longrightarrow> horner b (c # cs) = mul_const_add b (horner b cs) c"
  by (simp add: horner_def)

lemma unat_horner:
  assumes "cs \<noteq> []" and "\<forall>c \<in> set cs. unat c < b" and "b ^ length cs \<le> gp" and "unat base = b"
  shows "unat (horner base cs) = dvalue b (map unat cs)"
  using assms(1-3)
proof (induction cs rule: list_nonempty_induct)
  case (single c)
  then show ?case by (simp add: horner_def)
next
  case (cons c cs)
  have "0 < b" using cons.prems(1) by fastforce
  then have "b ^ length cs \<le> b ^ length (c # cs)" by simp
  with cons have IH: "unat (horner base cs) = dvalue b (map unat cs)" by simp
  have "dvalue b (map unat (c # cs)) < gp"
    using dvalue_less [of "map unat (c # cs)" b] cons.prems by simp
  with cons.hyps IH assms(4) show ?case by (simp add: horner_Cons felt_simps add.commute)
qed

subsection \<open>Range checks\<close>

lemma chunk_bits_cases: "chunk_bits_ok k \<Longrightarrow> 0 < k \<and> k \<le> 8 \<and> k * (32 div k) = 32"
  by (auto simp: chunk_bits_ok_def)

lemma in_range_table:
  assumes "add_chunk_range_check_lookup_table k = Inr t"
  shows "in_lut t x \<longleftrightarrow> unat x < 2 ^ k"
proof -
  have k: "k \<le> 8" and t: "t = map (\<lambda>i. (of_nat i, of_nat i)) [0..<2 ^ k]"
    using assms chunk_bits_cases
    by (auto simp: add_chunk_range_check_lookup_table_def result_simps assert_r_def split: if_splits)
  have small: "unat (of_nat i :: felt) = i" if "i < 2 ^ k" for i
  proof -
    have "(2::nat) ^ k \<le> 2 ^ 8" using k by (intro power_increasing) auto
    then show ?thesis using that by (intro unat_of_small) simp
  qed
  have "in_lut t x \<longleftrightarrow> (\<exists>i < 2 ^ k. x = of_nat i)"
    by (auto simp: in_lut_def t image_image)
  also have "\<dots> \<longleftrightarrow> unat x < 2 ^ k"
  proof
    assume "unat x < 2 ^ k"
    moreover have "x = of_nat (unat x)" by simp
    ultimately show "\<exists>i < 2 ^ k. x = of_nat i" by blast
  qed (auto simp: small)
  finally show ?thesis .
qed

definition byte_lut :: lut where
  "byte_lut = map (\<lambda>i. (of_nat i, of_nat i)) [0..<256]"

lemma u8_table: "add_u8_range_check_lookup_table = Inr byte_lut"
  by (simp add: add_u8_range_check_lookup_table_def add_chunk_range_check_lookup_table_def
      chunk_bits_ok_def byte_lut_def del: upt_Suc)

lemma in_byte_lut: "in_lut byte_lut x \<longleftrightarrow> unat x < 256"
  using in_range_table [of 8 byte_lut x] u8_table by (simp add: add_u8_range_check_lookup_table_def)

lemma decompose_bytes_sound:
  assumes "decompose_u32_to_bytes byte_lut v bs"
  shows "unat v < 2 ^ 32"
proof -
  have "unat v = dvalue 256 (map unat bs)"
    using assms unat_horner [of bs 256 256]
    by (cases bs) (auto simp: decompose_u32_to_bytes_def list_all_iff in_byte_lut)
  also have "\<dots> < 256 ^ 4"
    using assms dvalue_less [of "map unat bs" 256]
    by (auto simp: decompose_u32_to_bytes_def list_all_iff in_byte_lut)
  finally show ?thesis by simp
qed

lemma unat_chunk:
  "unat (from_canonical_u64 (take_bit k (drop_bit j v))) = unat v div 2 ^ j mod 2 ^ k"
proof -
  have "unat (take_bit k (drop_bit j v)) = take_bit k (drop_bit j (unat v))"
    by (simp only: unsigned_take_bit_eq unat_drop_bit_eq)
  then show ?thesis
    by (simp only: from_canonical_u64_def) (simp only: take_bit_eq_mod drop_bit_eq_div)
qed

lemma horner_generated:
  assumes "canonical v" and "unat v < 2 ^ (k * n)" and "0 < k" "0 < n" and "k * n < 64"
  shows "horner (of_nat (2 ^ k)) (map (\<lambda>i. from_canonical_u64 (take_bit k (drop_bit (k * i) (to_canonical_u64 v)))) [0..<n]) = v"
    (is "horner _ (map ?c _) = v")
proof -
  have digits: "map unat (map ?c [0..<n]) = map (\<lambda>i. unat v div (2 ^ k) ^ i mod 2 ^ k) [0..<n]"
    using assms(1) by (simp add: unat_chunk power_mult)
  have "k * 1 \<le> k * n" using assms(4) by (intro mult_le_mono) simp_all
  then have "k < 64" unfolding mult_1_right using assms(5) by (rule le_less_trans)
  then have "(2::nat) ^ k < 2 ^ 64" by (intro power_strict_increasing) auto
  then have base: "unat (of_nat (2 ^ k) :: felt) = 2 ^ k" by (rule unat_of_small)
  have "(2 ^ k) ^ n \<le> (2::nat) ^ 63"
    unfolding power_mult [symmetric] using assms(5) by (intro power_increasing) auto
  then have le: "(2 ^ k) ^ length (map ?c [0..<n]) \<le> gp" by simp
  have "unat (horner (of_nat (2 ^ k)) (map ?c [0..<n])) = dvalue (2 ^ k) (map unat (map ?c [0..<n]))"
    by (rule unat_horner [OF _ _ le base]) (use assms in \<open>auto simp: unat_chunk\<close>)
  also have "\<dots> = unat v" unfolding digits dvalue_digits using assms(2) by (simp flip: power_mult)
  finally show ?thesis by (simp only: felt_eq_iff)
qed

lemma decompose_bytes_complete:
  assumes "unat v < 2 ^ 32"
  shows "decompose_u32_to_bytes byte_lut v (ByteDecompositionGenerator v)"
proof -
  have c: "canonical v" using assms by (simp add: canonical_lt)
  have "horner (of_nat (2 ^ 8)) (ByteDecompositionGenerator v) = v"
    unfolding ByteDecompositionGenerator_def using assms c by (intro horner_generated) simp_all
  moreover have "list_all (in_lut byte_lut) (ByteDecompositionGenerator v)"
    unfolding ByteDecompositionGenerator_def list_all_iff using c by (auto simp: in_byte_lut unat_chunk)
  ultimately show ?thesis by (simp add: decompose_u32_to_bytes_def ByteDecompositionGenerator_def)
qed

lemma decompose_chunks_sound:
  assumes "decompose_u32_to_chunks t k v cs" and "add_chunk_range_check_lookup_table k = Inr t"
  shows "unat v = dvalue (2 ^ k) (map unat cs)" "\<forall>c \<in> set cs. unat c < 2 ^ k" "unat v < 2 ^ 32"
proof -
  have k: "chunk_bits_ok k" and len: "length cs = 32 div k" and v: "horner (of_nat (2 ^ k)) cs = v"
    and small: "\<forall>c \<in> set cs. unat c < 2 ^ k"
    using assms in_range_table [OF assms(2)] by (simp_all add: decompose_u32_to_chunks_def list_all_iff)
  have "(2 ^ k) ^ length cs = (2::nat) ^ 32" "cs \<noteq> []" "unat (of_nat (2 ^ k) :: felt) = 2 ^ k"
    using k len by (auto simp: chunk_bits_ok_def)
  then show "unat v = dvalue (2 ^ k) (map unat cs)" "unat v < 2 ^ 32"
    using unat_horner [of cs "2 ^ k" "of_nat (2 ^ k)"] dvalue_less [of "map unat cs" "2 ^ k"] small v by auto
  show "\<forall>c \<in> set cs. unat c < 2 ^ k" by (fact small)
qed

lemma decompose_chunks_complete:
  assumes "unat v < 2 ^ 32" and "add_chunk_range_check_lookup_table k = Inr t"
  shows "decompose_u32_to_chunks t k v (ChunkDecompositionGenerator k v)"
proof -
  have c: "canonical v" using assms by (simp add: canonical_lt)
  have ok: "chunk_bits_ok k"
    using assms(2) by (auto simp: add_chunk_range_check_lookup_table_def result_simps assert_r_def split: if_splits)
  then have k: "0 < k" "k * (32 div k) = 32" "0 < 32 div k" by (auto simp: chunk_bits_ok_def)
  have "horner (of_nat (2 ^ k)) (ChunkDecompositionGenerator k v) = v"
    unfolding ChunkDecompositionGenerator_def using assms(1) c k by (intro horner_generated) simp_all
  moreover have "list_all (in_lut t) (ChunkDecompositionGenerator k v)"
    unfolding ChunkDecompositionGenerator_def list_all_iff
    using c in_range_table [OF assms(2)] by (auto simp: unat_chunk)
  ultimately show ?thesis
    using ok by (simp add: decompose_u32_to_chunks_def ChunkDecompositionGenerator_def)
qed

subsection \<open>Bitwise operations act digit by digit\<close>

lemma bit_split:
  fixes u x :: nat
  assumes "u < 2 ^ k"
  shows "bit (u + 2 ^ k * x) n \<longleftrightarrow> (if n < k then bit u n else bit x (n - k))"
proof (cases "n < k")
  case True
  then have "(2::nat) ^ k = 2 ^ n * 2 ^ (k - n)" by (simp flip: power_add)
  then have "(u + 2 ^ k * x) div 2 ^ n = u div 2 ^ n + 2 ^ (k - n) * x" by (simp add: mult.assoc)
  then show ?thesis using True by (simp add: bit_iff_odd)
next
  case False
  then have "(2::nat) ^ n = 2 ^ k * 2 ^ (n - k)" by (simp flip: power_add)
  then have "(u + 2 ^ k * x) div 2 ^ n = x div 2 ^ (n - k)" using assms by (simp add: div_mult2_eq)
  then show ?thesis using False by (simp add: bit_iff_odd)
qed

lemma bit_below:
  fixes y :: nat
  assumes "y < 2 ^ k" and "bit y n"
  shows "n < k"
proof (rule ccontr)
  assume "\<not> n < k"
  then have "(2::nat) ^ k \<le> 2 ^ n" by (intro power_increasing) auto
  then have "y div 2 ^ n = 0" using less_le_trans [OF assms(1)] by (simp only: div_less)
  with assms(2) show False by (simp add: bit_iff_odd)
qed

text \<open>What a bitwise operation is: it commutes with reading a bit, and keeps zero.\<close>

definition bitwise_op :: "(nat \<Rightarrow> nat \<Rightarrow> nat) \<Rightarrow> (bool \<Rightarrow> bool \<Rightarrow> bool) \<Rightarrow> bool" where
  "bitwise_op f g \<longleftrightarrow> (\<forall>a b n. bit (f a b) n = g (bit a n) (bit b n)) \<and> \<not> g False False"

lemma bitwise_op_xor_and: "bitwise_op (\<lambda>a b. a XOR b) (\<noteq>)" "bitwise_op (\<lambda>a b. a AND b) (\<and>)"
  by (simp_all add: bitwise_op_def bit_simps)

lemma bitwise_less:
  assumes "bitwise_op f g" and "a < 2 ^ k" "b < 2 ^ k"
  shows "f a b < 2 ^ k"
proof -
  have "take_bit k (f a b) = f a b"
  proof (rule bit_eqI)
    fix n
    have "bit (f a b) n = g (bit a n) (bit b n)" "\<not> g False False"
      using assms(1) by (simp_all add: bitwise_op_def)
    then have "bit (f a b) n \<Longrightarrow> bit a n \<or> bit b n" by (cases "bit a n"; cases "bit b n") simp_all
    then have "bit (f a b) n \<Longrightarrow> n < k" using assms(2,3) bit_below by blast
    then show "bit (take_bit k (f a b)) n = bit (f a b) n" by (auto simp: bit_take_bit_iff)
  qed
  then show ?thesis by (metis take_bit_nat_less_exp)
qed

lemma bitwise_split:
  assumes "bitwise_op f g" and "u < 2 ^ k" "v < 2 ^ k"
  shows "f (u + 2 ^ k * x) (v + 2 ^ k * y) = f u v + 2 ^ k * f x y"
  using assms bitwise_less [OF assms] by (intro bit_eqI) (auto simp: bitwise_op_def bit_split)

lemma bitwise_dvalue:
  assumes "bitwise_op f g" and "length xs = length ys"
    and "\<forall>x \<in> set xs. x < 2 ^ k" "\<forall>y \<in> set ys. y < 2 ^ k"
  shows "f (dvalue (2 ^ k) xs) (dvalue (2 ^ k) ys) = dvalue (2 ^ k) (map2 f xs ys)"
  using assms(2-)
proof (induction xs ys rule: list_induct2)
  case Nil
  have "f 0 0 = 0" using assms(1) by (intro bit_eqI) (simp add: bitwise_op_def)
  then show ?case by simp
qed (simp add: bitwise_split [OF assms(1)])

lemma chunk_pair_table_iff:
  "(x, r) \<in> set (chunk_pair_table f k) \<longleftrightarrow>
     (\<exists>a < 2 ^ k. \<exists>b < 2 ^ k. x = of_nat (push_bit k a OR b) \<and> r = of_nat (f a b))"
proof -
  have "set (chunk_pair_table f k) =
      {(of_nat (push_bit k a OR b), of_nat (f a b)) | a b. a \<in> {0..<2 ^ k} \<and> b \<in> {0..<2 ^ k}}"
    unfolding chunk_pair_table_def set_concat set_map set_upt image_image by blast
  then show ?thesis by fastforce
qed

lemma looked_up_pair:
  assumes k: "chunk_bits_ok k" and f: "bitwise_op f g" and a: "unat a < 2 ^ k" and b: "unat b < 2 ^ k"
  shows "looked_up (chunk_pair_table f k) (mul_const_add (of_nat (2 ^ k)) a b) r
    \<longleftrightarrow> unat r = f (unat a) (unat b)"
proof -
  have k8: "k \<le> 8" using chunk_bits_cases [OF k] by simp
  have le: "(2::nat) ^ k * 2 ^ k \<le> 65536" using k by (auto simp: chunk_bits_ok_def)
  have pack: "push_bit k x OR y = 2 ^ k * x + y" if "y < 2 ^ k" for x y :: nat
  proof (rule bit_eqI)
    fix n
    have "bit y n \<Longrightarrow> n < k" using bit_below [OF that] .
    then show "bit (push_bit k x OR y) n = bit (2 ^ k * x + y) n"
      using that bit_split [of y k x n]
      by (auto simp: bit_or_iff bit_push_bit_iff add.commute)
  qed
  have lt: "2 ^ k * x + y < 65536" if "x < 2 ^ k" "y < 2 ^ k" for x y :: nat
  proof -
    have "2 ^ k * x + y < 2 ^ k * Suc x" using that by simp
    also have "\<dots> \<le> 2 ^ k * 2 ^ k" using that by (intro mult_le_mono) simp_all
    finally show ?thesis using le by simp
  qed
  have key: "mul_const_add (of_nat (2 ^ k)) a b = of_nat (2 ^ k * unat a + unat b)"
  proof -
    have "(2::nat) ^ k \<le> 2 ^ 8" using k8 by (intro power_increasing) auto
    then have "unat (of_nat (2 ^ k) :: felt) = 2 ^ k" by (intro unat_of_small) simp
    moreover have "unat (of_nat (2 ^ k * unat a + unat b) :: felt) = 2 ^ k * unat a + unat b"
      using lt [OF a b] by (intro unat_of_small) simp
    moreover have "(2 ^ k * unat a + unat b) mod gp = 2 ^ k * unat a + unat b"
      using lt [OF a b] by (intro mod_less) simp
    ultimately show ?thesis by (simp only: felt_eq_iff felt_simps)
  qed
  have inj: "of_nat (2 ^ k * x + y) = (of_nat (2 ^ k * unat a + unat b) :: felt) \<longleftrightarrow> x = unat a \<and> y = unat b"
    if "x < 2 ^ k" "y < 2 ^ k" for x y
  proof -
    have "of_nat (2 ^ k * x + y) = (of_nat (2 ^ k * unat a + unat b) :: felt)
      \<longleftrightarrow> 2 ^ k * x + y = 2 ^ k * unat a + unat b"
      unfolding felt_eq_iff
      by (subst (1 2) unat_of_small) (use lt [OF that] lt [OF a b] in simp_all)
    also have "\<dots> \<longleftrightarrow> x = unat a \<and> y = unat b"
    proof
      assume e: "2 ^ k * x + y = 2 ^ k * unat a + unat b"
      from e have "(2 ^ k * x + y) div 2 ^ k = (2 ^ k * unat a + unat b) div 2 ^ k" by simp
      then have "x = unat a" using that b by simp
      with e show "x = unat a \<and> y = unat b" by simp
    qed simp
    finally show ?thesis .
  qed
  have "looked_up (chunk_pair_table f k) (mul_const_add (of_nat (2 ^ k)) a b) r
    \<longleftrightarrow> (\<exists>x < 2 ^ k. \<exists>y < 2 ^ k. of_nat (2 ^ k * x + y) = (of_nat (2 ^ k * unat a + unat b) :: felt)
          \<and> r = of_nat (f x y))"
    unfolding looked_up_def chunk_pair_table_iff key using pack by metis
  also have "\<dots> \<longleftrightarrow> r = of_nat (f (unat a) (unat b))" using inj a b by blast
  also have "\<dots> \<longleftrightarrow> unat r = f (unat a) (unat b)"
  proof -
    have "(2::nat) ^ k \<le> 2 ^ 8" using k8 by (intro power_increasing) auto
    then have "f (unat a) (unat b) < 2 ^ 8" by (rule less_le_trans [OF bitwise_less [OF f a b]])
    then show ?thesis by (simp add: felt_eq_iff unat_of_small)
  qed
  finally show ?thesis .
qed

lemma bitwise_luts_fields:
  assumes "bitwise_luts_new k = Inr luts"
  shows "chunk_bits luts = k" "chunk_bits_ok k" "add_chunk_range_check_lookup_table k = Inr (chunk_range_lut luts)"
    "xor_lut luts = chunk_pair_table (\<lambda>a b. a XOR b) k" "and_lut luts = chunk_pair_table (\<lambda>a b. a AND b) k"
  using assms
  by (auto simp: bitwise_luts_new_def result_simps add_u8_range_check_lookup_table_def
      add_chunk_xor_lookup_table_def add_chunk_and_lookup_table_def assert_r_def simp del: upt_Suc split: if_splits)

lemma bitwise_u32_sound:
  assumes luts: "bitwise_luts_new k = Inr luts" and f: "bitwise_op f g" and t: "op_lut = chunk_pair_table f k"
    and ok: "bitwise_u32 op_lut luts a b ac bc oc = (r, True)"
  shows "unat a < 2 ^ 32 \<and> unat b < 2 ^ 32 \<and> unat r = f (unat a) (unat b)"
proof -
  note fld = bitwise_luts_fields [OF luts]
  define n where "n = 32 div k"
  have da: "decompose_u32_to_chunks (chunk_range_lut luts) k a ac"
    and db: "decompose_u32_to_chunks (chunk_range_lut luts) k b bc"
    and r: "r = horner (of_nat (2 ^ k)) oc" and lo: "length oc = n"
    and lk: "i < n \<Longrightarrow> looked_up op_lut (mul_const_add (of_nat (2 ^ k)) (ac ! i) (bc ! i)) (oc ! i)" for i
    using ok by (auto simp: bitwise_u32_def Let_def fld(1) n_def list_all_iff)
  note sa = decompose_chunks_sound [OF da fld(3)] and sb = decompose_chunks_sound [OF db fld(3)]
  have la: "length ac = n" "length bc = n"
    using da db by (simp_all add: decompose_u32_to_chunks_def n_def)
  have oc: "map unat oc = map2 f (map unat ac) (map unat bc)"
  proof (rule nth_equalityI)
    fix i assume "i < length (map unat oc)"
    then have "i < n" using lo by simp
    with lk [OF this] looked_up_pair [OF fld(2) f] sa(2) sb(2) la lo
    show "map unat oc ! i = map2 f (map unat ac) (map unat bc) ! i" by (simp add: t)
  qed (simp add: lo la)
  have "c < 2 ^ k" if "c \<in> set (map unat oc)" for c
    using that bitwise_less [OF f] sa(2) sb(2) unfolding oc by (auto dest!: set_zip_leftD set_zip_rightD simp: set_zip)
  then have "\<forall>c \<in> set oc. unat c < 2 ^ k" by simp
  moreover have "oc \<noteq> []" "(2 ^ k) ^ length oc \<le> gp" "unat (of_nat (2 ^ k) :: felt) = 2 ^ k"
    using lo fld(2) by (auto simp: n_def chunk_bits_ok_def)
  ultimately have "unat r = dvalue (2 ^ k) (map2 f (map unat ac) (map unat bc))"
    using unat_horner [of oc "2 ^ k" "of_nat (2 ^ k)"] by (simp add: r oc)
  also have "\<dots> = f (unat a) (unat b)"
    using bitwise_dvalue [OF f, of "map unat ac" "map unat bc" k] sa sb la by simp
  finally show ?thesis using sa(3) sb(3) by simp
qed

lemma bitwise_u32_complete:
  assumes luts: "bitwise_luts_new k = Inr luts" and f: "bitwise_op f g" and t: "op_lut = chunk_pair_table f k"
    and ab: "unat a < 2 ^ 32" "unat b < 2 ^ 32"
  shows "\<exists>oc. snd (bitwise_u32 op_lut luts a b
    (ChunkDecompositionGenerator k a) (ChunkDecompositionGenerator k b) oc)"
proof -
  note fld = bitwise_luts_fields [OF luts]
  let ?a = "ChunkDecompositionGenerator k a" and ?b = "ChunkDecompositionGenerator k b"
  let ?oc = "map (\<lambda>i. of_nat (f (unat (?a ! i)) (unat (?b ! i))) :: felt) [0..<32 div k]"
  note da = decompose_chunks_complete [OF ab(1) fld(3)] and db = decompose_chunks_complete [OF ab(2) fld(3)]
  have la: "length ?a = 32 div k" "length ?b = 32 div k" by (simp_all add: ChunkDecompositionGenerator_def)
  have "looked_up op_lut (mul_const_add (of_nat (2 ^ k)) (?a ! i) (?b ! i)) (?oc ! i)" if "i < 32 div k" for i
  proof -
    have "unat (?a ! i) < 2 ^ k" "unat (?b ! i) < 2 ^ k"
      using that decompose_chunks_sound(2) [OF da fld(3)] decompose_chunks_sound(2) [OF db fld(3)] la by simp_all
    moreover from bitwise_less [OF f this] have "unat (?oc ! i) = f (unat (?a ! i)) (unat (?b ! i))"
    proof -
      have "(2::nat) ^ k \<le> 2 ^ 8" using fld(2) chunk_bits_cases by (intro power_increasing) auto
      then have "f (unat (?a ! i)) (unat (?b ! i)) < 2 ^ 64"
        using \<open>f (unat (?a ! i)) (unat (?b ! i)) < 2 ^ k\<close> by simp
      then have "unat (of_nat (f (unat (?a ! i)) (unat (?b ! i))) :: felt) = f (unat (?a ! i)) (unat (?b ! i))"
        by (rule unat_of_small)
      then show ?thesis using that by simp
    qed
    ultimately show ?thesis using looked_up_pair [OF fld(2) f] by (simp add: t)
  qed
  then have "snd (bitwise_u32 op_lut luts a b ?a ?b ?oc)"
    using da db by (simp add: bitwise_u32_def Let_def fld(1) list_all_iff)
  then show ?thesis ..
qed

lemma not_u32_value: "unat a < 2 ^ 32 \<Longrightarrow> unat (not_u32 a) = 4294967295 - unat a"
proof -
  assume a: "unat a < 2 ^ 32"
  then have "unat (not_u32 a) = (4294967295 + (gp - unat a)) mod gp"
    by (simp add: not_u32_def felt_simps)
  also have "4294967295 + (gp - unat a) = (4294967295 - unat a) + gp" using a by simp
  also have "\<dots> mod gp = 4294967295 - unat a" unfolding mod_add_self2 by simp
  finally show ?thesis .
qed

subsection \<open>Addition\<close>

lemma wrapping_add_sound:
  assumes "unat a < 2 ^ 32" "unat b < 2 ^ 32" "canonical ov"
    and "wrapping_add_u32 byte_lut a b w ov bs = (r, True)"
  shows "unat r = (unat a + unat b) mod 2 ^ 32"
proof -
  have r: "unat r < 2 ^ 32" and "ov = 0 \<or> ov = 1"
    and eq: "felt_add a b = felt_add r (felt_mul ov 4294967296)"
    using assms decompose_bytes_sound bool_constraint by (auto simp: wrapping_add_u32_def)
  then consider "ov = 0" | "ov = 1" by blast
  then show ?thesis
  proof cases
    case 1
    with eq r assms(1,2) have "unat a + unat b = unat r" by (simp add: felt_eq_iff felt_simps)
    with r show ?thesis by simp
  next
    case 2
    with eq r assms(1,2) have "unat a + unat b = unat r + 4294967296" by (simp add: felt_eq_iff felt_simps)
    with r show ?thesis by simp
  qed
qed

lemma wrapping_add_complete:
  assumes "unat a < 2 ^ 32" "unat b < 2 ^ 32"
  shows "\<exists>r ov. U32WrappingAddGenerator a b = Inr (r, ov) \<and> canonical ov
    \<and> wrapping_add_u32 byte_lut a b r ov (ByteDecompositionGenerator r) = (r, True)"
proof -
  define s where "s = unat a + unat b"
  define r :: felt where "r = of_nat (s mod 2 ^ 32)"
  define ov :: felt where "ov = of_nat (s div 2 ^ 32)"
  have s: "s < 2 ^ 33" using assms by (simp add: s_def)
  have c: "canonical a" "canonical b" using assms by (simp_all add: canonical_lt)
  have gen: "U32WrappingAddGenerator a b = Inr (r, ov)"
    using c s by (simp add: U32WrappingAddGenerator_def add_u64_def result_simps from_canonical_u64_def
        r_def ov_def take_bit_eq_mod drop_bit_eq_div flip: s_def)
  have ur: "unat r = s mod 2 ^ 32" "unat ov = s div 2 ^ 32"
    using s by (simp_all add: r_def ov_def unat_of_small)
  have "s div 2 ^ 32 = 0 \<or> s div 2 ^ 32 = 1" using s by (simp add: div_nat_eqI) linarith
  then have ov: "ov = 0 \<or> ov = 1" using ur(2) by (auto simp: felt_eq_iff)
  have "unat r + unat ov * 4294967296 = s" unfolding ur by simp
  then have "felt_add a b = felt_add r (felt_mul ov 4294967296)"
    using s by (simp add: felt_eq_iff felt_simps mod_simps flip: s_def)
  moreover have "decompose_u32_to_bytes byte_lut r (ByteDecompositionGenerator r)"
    by (rule decompose_bytes_complete) (simp add: ur)
  moreover have "canonical ov" using ov by auto
  ultimately show ?thesis using gen ov bool_constraint by (auto simp: wrapping_add_u32_def)
qed

lemma limb_recompose: "unat lo < 2 ^ 16 \<Longrightarrow> unat hi < 2 ^ 16 \<Longrightarrow>
    unat (mul_const_add 65536 hi lo) = 65536 * unat hi + unat lo"
  by (simp add: felt_simps)

lemma vanishing_product:
  assumes "canonical x" and "canonical c"
  shows "felt_mul x (felt_add x c) = 0 \<longleftrightarrow> x = 0 \<or> felt_add x c = 0"
proof
  assume "felt_mul x (felt_add x c) = 0"
  with assms felt_mul_eq_0 show "x = 0 \<or> felt_add x c = 0" by simp
qed (auto simp: felt_eq_iff felt_simps)

text \<open>A difference of three short numbers is zero in the field, or minus \<open>c\<close>, only as an integer.\<close>

lemma diff_is_0_or_minus:
  assumes "unat r < 2 ^ 32" "unat x < 2 ^ 32" "unat y < 2 ^ 32" "unat c \<le> 2 ^ 32"
  defines "d \<equiv> felt_sub (felt_sub r x) y"
  shows "felt_mul d (felt_add d c) = 0 \<longleftrightarrow> unat r = unat x + unat y \<or> unat r + unat c = unat x + unat y"
proof -
  have d: "uint d = (uint r - uint x - uint y) mod int gp"
    by (simp only: d_def uint_felt_ops mod_diff_left_eq)
  have zero: "z mod int gp = 0 \<longleftrightarrow> z = 0" if "- int gp < z" "z < int gp" for z :: int
    using that zdvd_imp_le [of "int gp" z] zdvd_imp_le [of "int gp" "- z"] by (auto simp: mod_eq_0_iff_dvd)
  have u: "uint x = int (unat x)" for x :: felt by simp
  have gpi: "int gp = 18446744069414584321" by simp
  have bnd: "unat r < 4294967296" "unat x < 4294967296" "unat y < 4294967296" "unat c \<le> 4294967296"
    using assms(1-4) by simp_all
  have "canonical c" using assms(4) by (simp add: canonical_lt)
  then have "felt_mul d (felt_add d c) = 0 \<longleftrightarrow> d = 0 \<or> felt_add d c = 0"
    by (intro vanishing_product) (simp_all add: d_def)
  also have "d = 0 \<longleftrightarrow> unat r = unat x + unat y"
  proof -
    have "d = 0 \<longleftrightarrow> (uint r - uint x - uint y) mod int gp = 0"
      by (simp only: word_uint_eq_iff d unsigned_0)
    also have "\<dots> \<longleftrightarrow> uint r - uint x - uint y = 0"
      unfolding u by (rule zero) (use bnd gpi in linarith)+
    finally show ?thesis unfolding u by linarith
  qed
  also have "felt_add d c = 0 \<longleftrightarrow> unat r + unat c = unat x + unat y"
  proof -
    have "felt_add d c = 0 \<longleftrightarrow> (uint r - uint x - uint y + uint c) mod int gp = 0"
      by (simp only: word_uint_eq_iff uint_felt_ops d mod_add_left_eq unsigned_0)
    also have "\<dots> \<longleftrightarrow> uint r - uint x - uint y + uint c = 0"
      unfolding u by (rule zero) (use bnd gpi in linarith)+
    finally show ?thesis unfolding u by linarith
  qed
  finally show ?thesis .
qed

lemma reduced_sum: "(r :: nat) < m \<Longrightarrow> s < 2 * m \<Longrightarrow> r = s mod m \<longleftrightarrow> r = s \<or> r + m = s"
  by (cases "s < m") (auto simp: le_mod_geq)

lemma add_limbs_nat:
  fixes r0 r1 x0 x1 y0 y1 :: nat
  assumes "r0 < 65536" "r1 < 65536" "x0 < 65536" "x1 < 65536" "y0 < 65536" "y1 < 65536"
  defines "R \<equiv> 65536 * r1 + r0" and "S \<equiv> 65536 * x1 + x0 + (65536 * y1 + y0)"
  shows "(R = S \<or> R + 4294967296 = S) \<and> (r0 = x0 + y0 \<or> r0 + 65536 = x0 + y0)
    \<longleftrightarrow> R = S mod 2 ^ 32"
proof -
  have full: "R = S mod 2 ^ 32 \<longleftrightarrow> R = S \<or> R + 2 ^ 32 = S"
    using assms(1-6) by (intro reduced_sum) (simp_all add: R_def S_def)
  have low: "r0 = (x0 + y0) mod 65536 \<longleftrightarrow> r0 = x0 + y0 \<or> r0 + 65536 = x0 + y0"
    using assms(1,3,5) by (intro reduced_sum) simp_all
  have "r0 = (x0 + y0) mod 65536" if "R = S mod 2 ^ 32"
  proof -
    have "R mod 65536 = S mod 2 ^ 32 mod 65536" using that by simp
    also have "\<dots> = S mod 65536" by (rule mod_mod_cancel) simp
    also have "S = x0 + y0 + 65536 * (x1 + y1)" by (simp add: S_def)
    finally have "R mod 65536 = (x0 + y0) mod 65536" by (simp only: mod_mult_self2)
    then show ?thesis using assms(1) by (simp add: R_def)
  qed
  then show ?thesis unfolding full low by auto
qed

lemma assert_add_limbs_exact:
  assumes "unat r0 < 2 ^ 16" "unat r1 < 2 ^ 16" "unat x0 < 2 ^ 16" "unat x1 < 2 ^ 16"
    "unat y0 < 2 ^ 16" "unat y1 < 2 ^ 16"
  shows "assert_add_u32_limbs (r0, r1) (x0, x1) (y0, y1) \<longleftrightarrow>
    65536 * unat r1 + unat r0 = (65536 * unat x1 + unat x0 + (65536 * unat y1 + unat y0)) mod 2 ^ 32"
    (is "_ \<longleftrightarrow> ?R = (?X + ?Y) mod _")
proof -
  let ?r = "mul_const_add 65536 r1 r0" and ?x = "mul_const_add 65536 x1 x0" and ?y = "mul_const_add 65536 y1 y0"
  have v: "unat ?r = ?R" "unat ?x = ?X" "unat ?y = ?Y" using assms by (simp_all only: limb_recompose)
  have b: "?R < 2 ^ 32" "?X < 2 ^ 32" "?Y < 2 ^ 32" using assms by simp_all
  have "assert_add_u32_limbs (r0, r1) (x0, x1) (y0, y1) \<longleftrightarrow>
    (unat ?r = unat ?x + unat ?y \<or> unat ?r + unat (4294967296 :: felt) = unat ?x + unat ?y)
    \<and> (unat r0 = unat x0 + unat y0 \<or> unat r0 + unat (65536 :: felt) = unat x0 + unat y0)"
    unfolding assert_add_u32_limbs_def Let_def fst_conv snd_conv
    by (subst (1 2) diff_is_0_or_minus) (use b assms in \<open>simp_all add: v\<close>)
  also have "\<dots> \<longleftrightarrow> (?R = ?X + ?Y \<or> ?R + 4294967296 = ?X + ?Y)
    \<and> (unat r0 = unat x0 + unat y0 \<or> unat r0 + 65536 = unat x0 + unat y0)" by (simp add: v)
  also have "\<dots> \<longleftrightarrow> ?R = (?X + ?Y) mod 2 ^ 32"
    using assms by (intro add_limbs_nat) simp_all
  finally show ?thesis .
qed

subsection \<open>Rotation and shift\<close>

text \<open>
  Two 32-bit halves denote a number below \<open>2 ^ 64\<close>, which exceeds the order of the field: a
  product below \<open>2 ^ 32 - 1\<close> has a second pair of halves.
\<close>

lemma halves_exact:
  fixes v lo hi :: nat
  assumes "v < gp" "lo < 2 ^ 32" "hi < 2 ^ 32"
  shows "v = (4294967296 * hi + lo) mod gp \<longleftrightarrow>
    lo = v mod 2 ^ 32 \<and> hi = v div 2 ^ 32 \<or> v < 4294967295 \<and> lo = v + 1 \<and> hi = 4294967295"
proof -
  let ?t = "4294967296 * hi + lo"
  have t: "?t < 2 * gp" using assms(2,3) by simp
  have "v = ?t mod gp \<longleftrightarrow> v = ?t \<or> v + gp = ?t" by (rule reduced_sum [OF assms(1) t])
  also have "v = ?t \<longleftrightarrow> lo = v mod 2 ^ 32 \<and> hi = v div 2 ^ 32"
  proof
    assume "v = ?t"
    then show "lo = v mod 2 ^ 32 \<and> hi = v div 2 ^ 32" using assms(2) by simp
  next
    assume "lo = v mod 2 ^ 32 \<and> hi = v div 2 ^ 32"
    then show "v = ?t" by simp
  qed
  also have "v + gp = ?t \<longleftrightarrow> v < 4294967295 \<and> lo = v + 1 \<and> hi = 4294967295"
  proof
    assume e: "v + gp = ?t"
    have "hi = 4294967295"
    proof (rule ccontr)
      assume "hi \<noteq> 4294967295"
      then have "hi \<le> 4294967294" using assms(3) by simp
      then have "?t < gp" using assms(2) by simp
      with e show False by simp
    qed
    with e assms(2) show "v < 4294967295 \<and> lo = v + 1 \<and> hi = 4294967295" by simp
  qed simp
  finally show ?thesis by blast
qed

lemma shifted_halves:
  fixes a :: nat
  assumes "n < 32"
  defines "s \<equiv> 2 ^ (32 - n)"
  shows "a * s mod 2 ^ 32 = a mod 2 ^ n * s" "a * s div 2 ^ 32 = a div 2 ^ n"
    "a * s < 4294967295 \<longleftrightarrow> a < 2 ^ n"
proof -
  have nn: "(2::nat) ^ 32 = 2 ^ n * s" using assms(1) by (simp add: s_def flip: power_add)
  have s2: "2 \<le> s" using self_le_power [of 2 "32 - n"] assms(1) by (simp add: s_def)
  show "a * s mod 2 ^ 32 = a mod 2 ^ n * s" unfolding nn by (rule mod_mult_mult2)
  show "a * s div 2 ^ 32 = a div 2 ^ n" unfolding nn using s2 by (intro div_mult_mult2) simp
  show "a * s < 4294967295 \<longleftrightarrow> a < 2 ^ n"
  proof
    assume "a * s < 4294967295"
    then have "a * s < 2 ^ n * s" unfolding nn [symmetric] by simp
    then show "a < 2 ^ n" by simp
  next
    assume "a < 2 ^ n"
    then have "Suc a * s \<le> 2 ^ n * s" by (intro mult_le_mono) simp_all
    then have "s + a * s \<le> 2 ^ 32" unfolding nn by simp
    with s2 show "a * s < 4294967295" by simp
  qed
qed

lemma split_product_exact:
  assumes "unat a < 2 ^ 32" "0 < n" "n < 32"
  shows "(\<exists>lb hb. split_product byte_lut a n lo hi lb hb) \<longleftrightarrow>
    unat lo = unat a mod 2 ^ n * 2 ^ (32 - n) \<and> unat hi = unat a div 2 ^ n
    \<or> unat a < 2 ^ n \<and> unat lo = unat a * 2 ^ (32 - n) + 1 \<and> unat hi = 4294967295"
proof -
  let ?s = "(2::nat) ^ (32 - n)"
  let ?v = "unat a * ?s"
  note sh = shifted_halves [OF assms(3), of "unat a"]
  have s2: "0 < ?s" by simp
  have "?s \<le> 2 ^ 31" using assms(2) by (intro power_increasing) auto
  then have "?v < 2 ^ 32 * 2 ^ 31" using assms(1) s2 by (intro mult_less_le_imp_less) simp_all
  then have v: "?v < gp" by simp
  have "?s < 2 ^ 64" using \<open>?s \<le> 2 ^ 31\<close> by simp
  then have "unat (mul_const_add (of_nat ?s) a 0) = ?v"
    using v by (simp only: felt_simps unat_of_small) (simp add: mult.commute)
  then have "(\<exists>lb hb. split_product byte_lut a n lo hi lb hb) \<longleftrightarrow>
      unat lo < 2 ^ 32 \<and> unat hi < 2 ^ 32 \<and> ?v = (4294967296 * unat hi + unat lo) mod gp"
    using decompose_bytes_sound decompose_bytes_complete assms(2,3)
    unfolding split_product_def Let_def felt_eq_iff unat_mul_const_add [of 4294967296] by auto
  also have "\<dots> \<longleftrightarrow> unat lo < 2 ^ 32 \<and> unat hi < 2 ^ 32 \<and>
     (unat lo = ?v mod 2 ^ 32 \<and> unat hi = ?v div 2 ^ 32
      \<or> ?v < 4294967295 \<and> unat lo = ?v + 1 \<and> unat hi = 4294967295)"
    using halves_exact [OF v] by blast
  finally have acc: "(\<exists>lb hb. split_product byte_lut a n lo hi lb hb) \<longleftrightarrow>
     unat lo < 2 ^ 32 \<and> unat hi < 2 ^ 32 \<and> (unat lo = ?v mod 2 ^ 32 \<and> unat hi = ?v div 2 ^ 32
      \<or> ?v < 4294967295 \<and> unat lo = ?v + 1 \<and> unat hi = 4294967295)" .
  have "?v mod 2 ^ 32 < 2 ^ 32" by simp
  moreover have "?v div 2 ^ 32 < 2 ^ 32"
    unfolding sh by (rule le_less_trans [OF div_le_dividend assms(1)])
  ultimately have "(\<exists>lb hb. split_product byte_lut a n lo hi lb hb) \<longleftrightarrow>
     unat lo = ?v mod 2 ^ 32 \<and> unat hi = ?v div 2 ^ 32
      \<or> ?v < 4294967295 \<and> unat lo = ?v + 1 \<and> unat hi = 4294967295"
    unfolding acc by auto
  then show ?thesis unfolding sh .
qed

lemma ex_felt: "m < 2 ^ 32 \<Longrightarrow> \<exists>x :: felt. unat x = m"
  by (rule exI [of _ "of_nat m"]) (simp add: unat_of_small)

lemma ex_felt_sum:
  assumes "l < 2 ^ 32" "h < 2 ^ 32"
  shows "(\<exists>lo hi. felt_add lo hi = r \<and> unat lo = l \<and> unat hi = h) \<longleftrightarrow> unat r = l + h"
proof -
  obtain lo hi :: felt where "unat lo = l" "unat hi = h" using ex_felt assms by meson
  moreover have "(unat lo' + unat hi') mod gp = l + h" if "unat lo' = l" "unat hi' = h" for lo' hi' :: felt
    unfolding that by (rule mod_less) (use assms in simp)
  ultimately show ?thesis unfolding felt_eq_iff unat_felt_add by metis
qed

subsection \<open>Properties\<close>


lemma demo_luts: "\<exists>luts. bitwise_luts_new 4 = Inr luts"
  by (simp add: bitwise_luts_new_def add_u8_range_check_lookup_table_def add_chunk_range_check_lookup_table_def
      add_chunk_xor_lookup_table_def add_chunk_and_lookup_table_def chunk_bits_ok_def del: upt_Suc)


text \<open>
  Rotation and shift are not exact: besides the intended result, the constraints accept
  exactly one more for every operand below \<open>2 ^ n\<close>, namely \<open>a * 2 ^ (32 - n) + 2 ^ 32\<close> (not a 32-bit
  value) for the rotation and \<open>2 ^ 32 - 1\<close> for the shift, since the two halves may denote the
  product plus the order of the field.
\<close>

theorem rotation_gadgets_accept:
  assumes "unat a < 2 ^ 32" "0 < n" "n < 32"
  shows "((\<exists>lo hi lb hb. rotr_u32 byte_lut a n lo hi lb hb = (r, True)) \<longleftrightarrow>
      unat r = unat a div 2 ^ n + unat a mod 2 ^ n * 2 ^ (32 - n)
      \<or> unat a < 2 ^ n \<and> unat r = unat a * 2 ^ (32 - n) + 2 ^ 32)
    \<and> ((\<exists>lo hi lb hb. shr_u32 byte_lut a n lo hi lb hb = (r, True)) \<longleftrightarrow>
      unat r = unat a div 2 ^ n \<or> unat a < 2 ^ n \<and> unat r = 2 ^ 32 - 1)"
proof -
  let ?s = "(2::nat) ^ (32 - n)"
  let ?l = "unat a mod 2 ^ n * ?s" and ?h = "unat a div 2 ^ n" and ?v = "unat a * ?s"
  note sh = shifted_halves [OF assms(3), of "unat a"]
  have l: "?l < 2 ^ 32" unfolding sh [symmetric] by simp
  have h: "?h < 2 ^ 32" by (rule le_less_trans [OF div_le_dividend assms(1)])
  have v: "?v + 1 < 2 ^ 32" if "unat a < 2 ^ n" using that unfolding sh(3) [symmetric] by simp
  have "(\<exists>lo hi lb hb. rotr_u32 byte_lut a n lo hi lb hb = (r, True)) \<longleftrightarrow>
      (\<exists>lo hi. felt_add lo hi = r \<and> unat lo = ?l \<and> unat hi = ?h)
      \<or> unat a < 2 ^ n \<and> (\<exists>lo hi. felt_add lo hi = r \<and> unat lo = ?v + 1 \<and> unat hi = 4294967295)"
    using split_product_exact [OF assms] by (simp add: rotr_u32_def) blast
  also have "\<dots> \<longleftrightarrow> unat r = ?h + ?l \<or> unat a < 2 ^ n \<and> unat r = ?v + 2 ^ 32"
    using ex_felt_sum [OF l h, of r] ex_felt_sum [OF v, of 4294967295 r] by (auto simp: add.commute)
  finally have rotr: "(\<exists>lo hi lb hb. rotr_u32 byte_lut a n lo hi lb hb = (r, True)) \<longleftrightarrow>
      unat r = ?h + ?l \<or> unat a < 2 ^ n \<and> unat r = ?v + 2 ^ 32" .
  have "(\<exists>lo hi lb hb. shr_u32 byte_lut a n lo hi lb hb = (r, True)) \<longleftrightarrow>
      (\<exists>lo. unat (lo :: felt) = ?l) \<and> unat r = ?h
      \<or> unat a < 2 ^ n \<and> (\<exists>lo. unat (lo :: felt) = ?v + 1) \<and> unat r = 4294967295"
    using split_product_exact [OF assms] by (simp add: shr_u32_def) blast
  then have "(\<exists>lo hi lb hb. shr_u32 byte_lut a n lo hi lb hb = (r, True)) \<longleftrightarrow>
      unat r = ?h \<or> unat a < 2 ^ n \<and> unat r = 2 ^ 32 - 1"
    using ex_felt [OF l] ex_felt [OF v] by auto
  with rotr show ?thesis by (rule conjI)
qed

theorem rotation_gadgets_accept_witness:
  "(\<exists>lo hi lb hb. shr_u32 byte_lut 0 1 lo hi lb hb = (0xFFFFFFFF, True))
    \<and> (\<exists>lo hi lb hb. shr_u32 byte_lut 0 1 lo hi lb hb = (0, True))"
  using rotation_gadgets_accept [of 0 1 "0xFFFFFFFF"] rotation_gadgets_accept [of 0 1 0] by simp

end
