(* ===== verification/U256_Gadgets.thy ===== *)
theory U256_Gadgets
  imports U32_Gadgets Account
begin

section \<open>Sums of 256-bit amounts in the circuits\<close>

text \<open>
  \<^verbatim>\<open>doxa-client/src/plonky2_gadgets/u256.rs\<close>: an amount is eight 32-bit limb wires, and
  \<^verbatim>\<open>u256_addition_chain\<close> adds amounts limb by limb with a carry wire between the limbs. The
  wires a limb allocates (result, carry, bytes of the result) are a \<open>limb_wires\<close> record. The
  generated wires satisfy the constraints and compute the sum modulo \<open>2 ^ 256\<close>; the constraints
  alone do not force it, because the carry wires are not range-checked.
\<close>

definition U256Target_set :: "u256 \<Rightarrow> felt list" where
  "U256Target_set v = concat (map (\<lambda>w. [ucast (ucast w :: u32), ucast (ucast (drop_bit 32 w) :: u32)]) (u256_words v))"

definition constant_u256 :: "u32 list \<Rightarrow> felt list" where
  "constant_u256 ws = map ucast ws"

record limb_wires =
  limb_result :: felt
  limb_carry :: felt
  limb_bytes :: "felt list"

definition limb_sum :: "felt list \<Rightarrow> felt" where
  "limb_sum col = foldl felt_add (hd col) (tl col)"

fun limb_steps :: "lut \<Rightarrow> felt list list \<Rightarrow> felt \<Rightarrow> limb_wires list \<Rightarrow> bool" where
  "limb_steps range_lut [] carry ws \<longleftrightarrow> ws = []"
| "limb_steps range_lut (col # cols) carry [] \<longleftrightarrow> False"
| "limb_steps range_lut (col # cols) carry (w # ws) \<longleftrightarrow>
     decompose_u32_to_bytes range_lut (limb_result w) (limb_bytes w)
     \<and> felt_add (limb_sum col) carry = felt_add (limb_result w) (felt_mul (limb_carry w) 4294967296)
     \<and> limb_steps range_lut cols (limb_carry w) ws"

text \<open>The limbs of one position, of the input and of every addend.\<close>

definition columns :: "felt list \<Rightarrow> felt list list \<Rightarrow> felt list list" where
  "columns input chain = map (\<lambda>limb_idx. input ! limb_idx # map (\<lambda>c. c ! limb_idx) chain) [0..<8]"

definition u256_addition_chain ::
  "felt list \<Rightarrow> felt list list \<Rightarrow> lut \<Rightarrow> limb_wires list \<Rightarrow> felt list \<times> bool" where
  "u256_addition_chain input chain range_lut ws =
     (map limb_result ws, limb_steps range_lut (columns input chain) 0 ws)"

definition connect_u256 :: "felt list \<Rightarrow> felt list \<Rightarrow> bool" where
  "connect_u256 lhs rhs \<longleftrightarrow> list_all (\<lambda>(l, r). l = r) (zip lhs rhs)"

text \<open>The witness generator of one limb, and all of them run from the least significant limb up.\<close>

definition U256LimbSumGenerator :: "felt list \<Rightarrow> felt \<Rightarrow> (unit, felt \<times> felt) result" where
  "U256LimbSumGenerator limb_inputs carry_in =
     bind_r (for_each (\<lambda>limb acc. add_u64 acc (unat (to_canonical_u64 limb))) limb_inputs
         (unat (to_canonical_u64 carry_in)))
       (\<lambda>s. Inr (from_canonical_u64 (of_nat (take_bit 32 s)), from_canonical_u64 (of_nat (drop_bit 32 s))))"

fun generate_limbs :: "felt list list \<Rightarrow> felt \<Rightarrow> (unit, limb_wires list) result" where
  "generate_limbs [] carry = Inr []"
| "generate_limbs (col # cols) carry =
     bind_r (U256LimbSumGenerator col carry) (\<lambda>(r, carry_out).
     bind_r (generate_limbs cols carry_out) (\<lambda>ws.
       Inr (\<lparr>limb_result = r, limb_carry = carry_out, limb_bytes = ByteDecompositionGenerator r\<rparr> # ws)))"

subsection \<open>The value of an amount\<close>

definition limbs_value :: "felt list \<Rightarrow> nat" where
  "limbs_value ls = dvalue (2 ^ 32) (map unat ls)"

definition u256_wire :: "felt list \<Rightarrow> bool" where
  "u256_wire ls \<longleftrightarrow> length ls = 8 \<and> list_all (\<lambda>l. unat l < 2 ^ 32) ls"

lemma u256_wireD:
  assumes "u256_wire ls"
  shows "length ls = 8" "\<forall>l \<in> set ls. unat l < 2 ^ 32" "\<forall>l \<in> set ls. canonical l" "limbs_value ls < 2 ^ 256"
proof -
  show l: "length ls = 8" "\<forall>l \<in> set ls. unat l < 2 ^ 32"
    using assms by (simp_all add: u256_wire_def list_all_iff)
  then show "\<forall>l \<in> set ls. canonical l" by (auto simp: canonical_lt)
  have "dvalue (2 ^ 32) (map unat ls) < (2 ^ 32) ^ length (map unat ls)"
    using l by (intro dvalue_less) simp
  also have "(2 ^ 32) ^ length (map unat ls) = (2::nat) ^ 256" by (simp add: l)
  finally show "limbs_value ls < 2 ^ 256" by (simp only: limbs_value_def)
qed

lemma dvalue_add: "dvalue b (map (\<lambda>i. f i + g i) xs) = dvalue b (map f xs) + dvalue b (map g xs)"
  by (induction xs) (simp_all add: algebra_simps)

lemma dvalue_sum_list:
  "dvalue b (map (\<lambda>i. sum_list (map (\<lambda>c. h c i) cs)) xs) = sum_list (map (\<lambda>c. dvalue b (map (h c) xs)) cs)"
proof (induction cs)
  case Nil
  have "dvalue b (map (\<lambda>_. 0) xs) = 0" by (induction xs) simp_all
  then show ?case by simp
qed (simp add: dvalue_add)

lemma limbs_by_index: "length ls = 8 \<Longrightarrow> map (\<lambda>i. unat (ls ! i)) [0..<8] = map unat ls"
  by (rule nth_equalityI) simp_all

lemma columns_value:
  assumes "length input = 8" and "\<forall>c \<in> set chain. length c = 8"
  shows "dvalue (2 ^ 32) (map (\<lambda>col. sum_list (map unat col)) (columns input chain))
    = limbs_value input + sum_list (map limbs_value chain)"
proof -
  have "map (\<lambda>col. sum_list (map unat col)) (columns input chain) =
    map (\<lambda>i. unat (input ! i) + sum_list (map (\<lambda>c. unat (c ! i)) chain)) [0..<8]"
    by (simp add: columns_def comp_def del: upt_Suc)
  also have "dvalue (2 ^ 32) \<dots> = dvalue (2 ^ 32) (map (\<lambda>i. unat (input ! i)) [0..<8])
     + sum_list (map (\<lambda>c. dvalue (2 ^ 32) (map (\<lambda>i. unat (c ! i)) [0..<8])) chain)"
    unfolding dvalue_add dvalue_sum_list ..
  also have "map (\<lambda>c. dvalue (2 ^ 32) (map (\<lambda>i. unat (c ! i)) [0..<8])) chain = map limbs_value chain"
    using assms(2) by (intro map_cong refl) (simp only: limbs_by_index limbs_value_def)
  finally show ?thesis using assms(1) by (simp only: limbs_by_index limbs_value_def [of input])
qed

subsection \<open>One column\<close>

lemma unat_foldl_add: "canonical a \<Longrightarrow> unat (foldl felt_add a xs) = (unat a + sum_list (map unat xs)) mod gp"
proof (induction xs arbitrary: a)
  case (Cons x xs)
  show ?case using Cons.IH [of "felt_add a x"] by (simp add: felt_simps mod_add_left_eq add.assoc)
qed (simp add: canonical_lt)

text \<open>A column of \<open>n\<close> 32-bit limbs and a carry below \<open>2 ^ 31\<close>.\<close>

definition small_column :: "felt list \<Rightarrow> bool" where
  "small_column col \<longleftrightarrow> col \<noteq> [] \<and> length col \<le> 2 ^ 30 \<and> list_all (\<lambda>x. unat x < 2 ^ 32) col"

lemma small_column_sum:
  assumes "small_column col"
  shows "sum_list (map unat col) \<le> 2 ^ 30 * (2 ^ 32 - 1)"
proof -
  have "sum_list (map unat col) \<le> sum_list (map (\<lambda>_. 2 ^ 32 - 1) col)"
  proof (rule sum_list_mono)
    fix x assume "x \<in> set col"
    then have "unat x < 2 ^ 32" using assms by (simp add: small_column_def list_all_iff)
    then show "unat x \<le> 2 ^ 32 - 1" by simp
  qed
  also have "\<dots> = length col * (2 ^ 32 - 1)" by (simp add: sum_list_triv)
  also have "\<dots> \<le> 2 ^ 30 * (2 ^ 32 - 1)" using assms by (simp add: small_column_def)
  finally show ?thesis .
qed

lemma unat_column:
  assumes "small_column col" and "unat carry < 2 ^ 31"
  shows "unat (felt_add (limb_sum col) carry) = sum_list (map unat col) + unat carry"
proof -
  obtain x xs where col: "col = x # xs" using assms(1) by (cases col) (auto simp: small_column_def)
  then have "canonical x" using assms(1) by (simp add: small_column_def canonical_lt)
  then have "unat (limb_sum col) = sum_list (map unat col) mod gp"
    by (simp add: limb_sum_def col unat_foldl_add)
  moreover have "sum_list (map unat col) + unat carry < gp"
    using small_column_sum [OF assms(1)] assms(2) by simp
  ultimately show ?thesis by (simp add: felt_simps)
qed

lemma unat_carried:
  assumes "unat r < 2 ^ 32" and "unat c < 2 ^ 31"
  shows "unat (felt_add r (felt_mul c 4294967296)) = unat r + 2 ^ 32 * unat c"
  using assms by (simp add: felt_simps)

lemma limb_steps_value:
  assumes "limb_steps byte_lut cols carry ws" and "list_all small_column cols" and "unat carry < 2 ^ 31"
    and "list_all (\<lambda>w. unat (limb_carry w) < 2 ^ 31) ws"
  shows "\<exists>cf. dvalue (2 ^ 32) (map (\<lambda>col. sum_list (map unat col)) cols) + unat carry
    = limbs_value (map limb_result ws) + (2 ^ 32) ^ length cols * cf"
  using assms
proof (induction byte_lut cols carry ws rule: limb_steps.induct)
  case (3 col cols carry w ws)
  let ?S = "dvalue (2 ^ 32) (map (\<lambda>col. sum_list (map unat col)) cols)"
  obtain cf where cf: "?S + unat (limb_carry w) = limbs_value (map limb_result ws) + (2 ^ 32) ^ length cols * cf"
    using 3 by auto
  have "sum_list (map unat col) + unat carry = unat (limb_result w) + 2 ^ 32 * unat (limb_carry w)"
    using 3 unat_column [of col carry] unat_carried [of "limb_result w" "limb_carry w"] decompose_bytes_sound
    by auto
  moreover have "2 ^ 32 * (?S + unat (limb_carry w)) =
      2 ^ 32 * limbs_value (map limb_result ws) + (2 ^ 32) ^ length (col # cols) * cf"
    unfolding cf by (simp add: algebra_simps)
  ultimately have "dvalue (2 ^ 32) (map (\<lambda>col. sum_list (map unat col)) (col # cols)) + unat carry
    = limbs_value (map limb_result (w # ws)) + (2 ^ 32) ^ length (col # cols) * cf"
    by (simp add: limbs_value_def algebra_simps)
  then show ?case ..
qed (simp_all add: limbs_value_def)

lemma length_columns [simp]: "length (columns input chain) = 8"
  by (simp add: columns_def)

lemma columns_small:
  assumes "u256_wire input" "list_all u256_wire chain" "length chain < 2 ^ 30"
  shows "list_all small_column (columns input chain)"
  using assms u256_wireD
  by (auto simp: columns_def small_column_def list_all_iff simp del: upt_Suc)

lemma limb_steps_results:
  "limb_steps byte_lut cols carry ws \<Longrightarrow>
    length ws = length cols \<and> list_all (\<lambda>l. unat l < 2 ^ 32) (map limb_result ws)"
  by (induction byte_lut cols carry ws rule: limb_steps.induct)
     (auto dest!: decompose_bytes_sound)

lemma chain_sound:
  assumes "u256_wire input" "list_all u256_wire chain" "length chain < 2 ^ 30"
    and "limb_steps byte_lut (columns input chain) 0 ws" and "list_all (\<lambda>w. unat (limb_carry w) < 2 ^ 31) ws"
  shows "limbs_value (map limb_result ws) = (limbs_value input + sum_list (map limbs_value chain)) mod 2 ^ 256"
proof -
  obtain cf where "dvalue (2 ^ 32) (map (\<lambda>col. sum_list (map unat col)) (columns input chain)) + unat (0 :: felt)
      = limbs_value (map limb_result ws) + (2 ^ 32) ^ length (columns input chain) * cf"
    using limb_steps_value [OF assms(4) columns_small [OF assms(1-3)] _ assms(5)] by auto
  then have "limbs_value input + sum_list (map limbs_value chain)
      = limbs_value (map limb_result ws) + 2 ^ 256 * cf"
    using columns_value u256_wireD(1) assms(1,2) by (auto simp: list_all_iff)
  moreover have "u256_wire (map limb_result ws)"
    using limb_steps_results [OF assms(4)] by (simp add: u256_wire_def)
  ultimately show ?thesis using u256_wireD(4) by (simp only: mod_mult_self2 mod_less)
qed

subsection \<open>The generated wires\<close>

lemma limb_generator:
  assumes "small_column col" and "unat carry < 2 ^ 31"
  defines "s \<equiv> sum_list (map unat col) + unat carry"
  shows "U256LimbSumGenerator col carry = Inr (of_nat (s mod 2 ^ 32), of_nat (s div 2 ^ 32))"
proof -
  have "for_each (\<lambda>limb acc. add_u64 acc (unat (to_canonical_u64 limb))) xs n =
      (Inr (sum_list (map unat xs) + n) :: (unit, nat) result)"
    if "list_all (\<lambda>x. unat x < 2 ^ 32) xs" "sum_list (map unat xs) + n < 2 ^ 64" for xs n
    using that by (induction xs arbitrary: n) (auto simp: add_u64_def canonical_lt add.commute add.left_commute)
  moreover have "s < 2 ^ 64" using small_column_sum [OF assms(1)] assms(2) by (simp add: s_def)
  moreover have "to_canonical_u64 carry = carry" using assms(2) by (simp add: canonical_lt)
  ultimately show ?thesis
    using assms(1) by (simp add: U256LimbSumGenerator_def small_column_def s_def from_canonical_u64_def
        take_bit_eq_mod drop_bit_eq_div)
qed

lemma generate_limbs_ok:
  assumes "list_all small_column cols" and "unat carry < 2 ^ 31"
  shows "\<exists>ws. generate_limbs cols carry = Inr ws \<and> limb_steps byte_lut cols carry ws
    \<and> list_all (\<lambda>w. unat (limb_carry w) < 2 ^ 31) ws"
  using assms
proof (induction cols arbitrary: carry)
  case (Cons col cols)
  define s where "s = sum_list (map unat col) + unat carry"
  define r c :: felt where "r = of_nat (s mod 2 ^ 32)" and "c = of_nat (s div 2 ^ 32)"
  have gen: "U256LimbSumGenerator col carry = Inr (r, c)"
    using Cons.prems limb_generator [of col carry] by (simp add: r_def c_def s_def)
  have "s < 2 ^ 31 * 2 ^ 32" using small_column_sum [of col] Cons.prems by (simp add: s_def)
  then have "s div 2 ^ 32 < 2 ^ 31" by (simp add: less_mult_imp_div_less)
  then have u: "unat r = s mod 2 ^ 32" "unat c = s div 2 ^ 32" "unat c < 2 ^ 31"
    by (simp_all add: r_def c_def unat_of_small)
  then obtain ws where ws: "generate_limbs cols c = Inr ws" "limb_steps byte_lut cols c ws"
      "list_all (\<lambda>w. unat (limb_carry w) < 2 ^ 31) ws"
    using Cons.IH [of c] Cons.prems(1) u(3) by auto
  have "unat r < 2 ^ 32" by (simp add: u)
  then have "unat (felt_add r (felt_mul c 4294967296)) = s"
    using unat_carried [OF _ u(3)] by (simp add: u)
  then have "felt_add (limb_sum col) carry = felt_add r (felt_mul c 4294967296)"
    using unat_column [of col carry] Cons.prems by (simp add: felt_eq_iff s_def)
  with ws u gen decompose_bytes_complete [OF \<open>unat r < 2 ^ 32\<close>] show ?case by simp
qed simp

subsection \<open>Forged carries\<close>

text \<open>The inverse of \<open>2 ^ 32\<close> in the field.\<close>

definition INV_2_32 :: felt where
  "INV_2_32 = 18446744065119617026"

lemma forged_carry:
  "felt_add r (felt_mul (felt_mul (felt_sub t r) INV_2_32) 4294967296) = t" if "canonical t"
proof -
  have inv: "uint INV_2_32 * uint (4294967296 :: felt) mod int gp = 1" by (simp add: INV_2_32_def)
  have "uint (felt_mul (felt_mul (felt_sub t r) INV_2_32) 4294967296) =
      (uint t - uint r) * (uint INV_2_32 * uint (4294967296 :: felt)) mod int gp"
    by (simp only: uint_felt_ops mod_mult_left_eq mult.assoc)
  also have "\<dots> = (uint t - uint r) mod int gp"
    using mod_mult_right_eq [of "uint t - uint r" "uint INV_2_32 * uint (4294967296 :: felt)" "int gp"]
    by (simp only: inv mult_1_right)
  finally have "uint (felt_add r (felt_mul (felt_mul (felt_sub t r) INV_2_32) 4294967296))
      = (uint r + (uint t - uint r)) mod int gp"
    by (simp only: uint_felt_ops(1) mod_add_right_eq)
  also have "uint r + (uint t - uint r) = uint t" by simp
  also have "uint t mod int gp = uint t"
    using that by (rule uint_mod_canonical)
  finally show ?thesis by (simp only: word_uint_eq_iff)
qed

lemma limb_steps_forge:
  assumes "length out = length cols" and "list_all (\<lambda>l. unat l < 2 ^ 32) out"
  shows "\<exists>ws. limb_steps byte_lut cols carry ws \<and> map limb_result ws = out"
  using assms
proof (induction cols arbitrary: carry out)
  case (Cons col cols)
  then obtain r rs where out: "out = r # rs" by (cases out) auto
  define c where "c = felt_mul (felt_sub (felt_add (limb_sum col) carry) r) INV_2_32"
  obtain ws where "limb_steps byte_lut cols c ws" "map limb_result ws = rs"
    using Cons out by auto
  then have "limb_steps byte_lut (col # cols) carry
      (\<lparr>limb_result = r, limb_carry = c, limb_bytes = ByteDecompositionGenerator r\<rparr> # ws)"
    using Cons.prems out decompose_bytes_complete by (simp add: c_def forged_carry)
  with \<open>map limb_result ws = rs\<close> show ?case
    by (intro exI [of _ "\<lparr>limb_result = r, limb_carry = c, limb_bytes = ByteDecompositionGenerator r\<rparr> # ws"])
       (simp add: out)
qed simp

subsection \<open>Amounts set from machine integers\<close>

lemma U256Target_set_limbs: "U256Target_set v = u256_limbs v"
  by (simp add: U256Target_set_def u256_limbs_def lo32_def hi32_def)

lemma unat_into_limb: "unat (into_limb v i) = unat v div 2 ^ (64 * i) mod 2 ^ 64"
  unfolding into_limb_def by (simp only: unsigned_ucast_eq unat_drop_bit_eq)
    (simp add: take_bit_eq_mod drop_bit_eq_div)

lemma unat_ucast_u32: "unat (ucast (x :: u32) :: felt) = unat x"
  using unsigned_less [where 'a = nat, of x] by (simp add: unsigned_ucast_eq take_bit_eq_mod)

lemma unat_limb_pair:
  "unat (ucast (lo32 (into_limb v i)) :: felt) = unat v div (2 ^ 32) ^ (2 * i) mod 2 ^ 32"
  "unat (ucast (hi32 (into_limb v i)) :: felt) = unat v div (2 ^ 32) ^ (2 * i + 1) mod 2 ^ 32"
proof -
  have e: "(2::nat) ^ (64 * i) = (2 ^ 32) ^ (2 * i)" by (subst power_mult [symmetric]) simp
  show "unat (ucast (lo32 (into_limb v i)) :: felt) = unat v div (2 ^ 32) ^ (2 * i) mod 2 ^ 32"
    unfolding unat_ucast_u32 unat_lo32 unat_into_limb e by (rule mod_mod_cancel) simp
  have "(x mod 2 ^ 64) div 2 ^ 32 = x div 2 ^ 32 mod 2 ^ 32" for x :: nat
    using mod_mult2_eq [of x "2 ^ 32" "2 ^ 32"] by simp
  then show "unat (ucast (hi32 (into_limb v i)) :: felt) = unat v div (2 ^ 32) ^ (2 * i + 1) mod 2 ^ 32"
    unfolding unat_ucast_u32 unat_hi32 unat_into_limb e by (simp only: div_mult2_eq [symmetric] power_add power_one_right)
qed

lemma unat_u256_limbs: "map unat (u256_limbs v) = map (\<lambda>i. unat v div (2 ^ 32) ^ i mod 2 ^ 32) [0..<8]"
proof -
  have "u256_limbs v = concat (map (\<lambda>i. [ucast (lo32 (into_limb v i)), ucast (hi32 (into_limb v i))]) [0, 1, 2, 3])"
    by (simp add: u256_limbs_def u256_words_def upt_04)
  then have "map unat (u256_limbs v) = concat (map (\<lambda>i. [unat v div (2 ^ 32) ^ (2 * i) mod 2 ^ 32,
      unat v div (2 ^ 32) ^ (2 * i + 1) mod 2 ^ 32]) [0, 1, 2, 3])"
    by (simp only: map_concat list.map unat_limb_pair comp_def)
  also have "\<dots> = map (\<lambda>i. unat v div (2 ^ 32) ^ i mod 2 ^ 32) [0, 1, 2, 3, 4, 5, 6, 7]" by simp
  also have "[0, 1, 2, 3, 4, 5, 6, 7] = [0..<8::nat]" by (simp add: upt_conv_Cons)
  finally show ?thesis .
qed

lemma u256_limbs_value: "u256_wire (u256_limbs v)" "limbs_value (u256_limbs v) = unat v"
proof -
  have "\<forall>n \<in> set (map unat (u256_limbs v)). n < 2 ^ 32"
    unfolding unat_u256_limbs by simp
  then show "u256_wire (u256_limbs v)"
    using arg_cong [OF unat_u256_limbs, of length v] by (simp add: u256_wire_def list_all_iff)
  have "limbs_value (u256_limbs v) = unat v mod (2 ^ 32) ^ 8"
    unfolding limbs_value_def unat_u256_limbs by (rule dvalue_digits)
  also have "\<dots> = unat v" using unsigned_less [where 'a = nat, of v] by simp
  finally show "limbs_value (u256_limbs v) = unat v" .
qed

lemma u256_wire_limbs:
  assumes "u256_wire ls"
  shows "ls = u256_limbs (of_nat (limbs_value ls))"
proof -
  let ?rs = "u256_limbs (of_nat (limbs_value ls))"
  have "limbs_value ?rs = limbs_value ls"
    unfolding u256_limbs_value(2) using u256_wireD(4) [OF assms] by (simp add: unat_of_nat)
  then have "map unat ls = map unat ?rs"
    using u256_wireD(1,2) [OF assms] u256_wireD(1,2) [OF u256_limbs_value(1)]
    by (intro dvalue_inj [of _ _ "2 ^ 32"]) (simp_all add: limbs_value_def)
  then show ?thesis by (rule map_injective) (simp add: inj_def felt_eq_iff)
qed

subsection \<open>Properties\<close>

text \<open>
  C39. The honest prover's sum: on amounts of 32-bit limbs the witness generators of an addition
  chain never overflow, their wires satisfy every constraint, and the output denotes the sum
  modulo \<open>2 ^ 256\<close>; and any satisfying wires whose carries stay below \<open>2 ^ 31\<close> have that output.
\<close>

theorem u256_chain_computes_sum:
  assumes "u256_wire input" "list_all u256_wire chain" "length chain < 2 ^ 30"
  shows "(\<exists>ws. generate_limbs (columns input chain) 0 = Inr ws
        \<and> snd (u256_addition_chain input chain byte_lut ws)
        \<and> list_all (\<lambda>w. unat (limb_carry w) < 2 ^ 31) ws)
    \<and> (\<forall>ws out. u256_addition_chain input chain byte_lut ws = (out, True)
        \<and> list_all (\<lambda>w. unat (limb_carry w) < 2 ^ 31) ws
        \<longrightarrow> u256_wire out \<and> limbs_value out = (limbs_value input + sum_list (map limbs_value chain)) mod 2 ^ 256)"
proof
  show "\<exists>ws. generate_limbs (columns input chain) 0 = Inr ws
      \<and> snd (u256_addition_chain input chain byte_lut ws) \<and> list_all (\<lambda>w. unat (limb_carry w) < 2 ^ 31) ws"
    using generate_limbs_ok [OF columns_small [OF assms], of 0] by (auto simp: u256_addition_chain_def)
  show "\<forall>ws out. u256_addition_chain input chain byte_lut ws = (out, True)
      \<and> list_all (\<lambda>w. unat (limb_carry w) < 2 ^ 31) ws
      \<longrightarrow> u256_wire out \<and> limbs_value out = (limbs_value input + sum_list (map limbs_value chain)) mod 2 ^ 256"
    using chain_sound [OF assms] limb_steps_results by (auto simp: u256_addition_chain_def u256_wire_def)
qed

theorem u256_chain_computes_sum_witness:
  "\<exists>ws. generate_limbs (columns (u256_limbs 5) [u256_limbs 7]) 0 = Inr ws
    \<and> u256_addition_chain (u256_limbs 5) [u256_limbs 7] byte_lut ws = (u256_limbs 12, True)"
proof -
  have wires: "u256_wire (u256_limbs 5)" "list_all u256_wire [u256_limbs 7]" "length [u256_limbs 7] < 2 ^ 30"
    by (simp_all add: u256_limbs_value)
  obtain ws where ws: "generate_limbs (columns (u256_limbs 5) [u256_limbs 7]) 0 = Inr ws"
      "snd (u256_addition_chain (u256_limbs 5) [u256_limbs 7] byte_lut ws)"
      "list_all (\<lambda>w. unat (limb_carry w) < 2 ^ 31) ws"
    using u256_chain_computes_sum [OF wires] by blast
  define out where "out = fst (u256_addition_chain (u256_limbs 5) [u256_limbs 7] byte_lut ws)"
  have eq: "u256_addition_chain (u256_limbs 5) [u256_limbs 7] byte_lut ws = (out, True)"
    using ws(2) by (simp add: out_def prod_eq_iff)
  then have "u256_wire out" and v: "limbs_value out =
      (limbs_value (u256_limbs 5) + sum_list (map limbs_value [u256_limbs 7])) mod 2 ^ 256"
    using u256_chain_computes_sum [OF wires] ws(3) by blast+
  have "limbs_value out = 12" unfolding v list.map u256_limbs_value by simp
  with u256_wire_limbs [OF \<open>u256_wire out\<close>] have "out = u256_limbs 12" by simp
  with eq ws(1) show ?thesis by blast
qed

text \<open>
  The constraints of an addition chain do not constrain its output: whatever the input and
  the addends, every eight 32-bit limbs are accepted as the sum, by carry wires outside the
  32-bit range.
\<close>

theorem u256_chain_accepts_any_sum:
  assumes "u256_wire out"
  shows "\<exists>ws. u256_addition_chain input chain byte_lut ws = (out, True)"
  using limb_steps_forge [of out "columns input chain" 0] assms
  by (auto simp: u256_addition_chain_def u256_wire_def)

theorem u256_chain_accepts_any_sum_witness:
  "\<exists>ws. u256_addition_chain (u256_limbs 0) [u256_limbs 0] byte_lut ws = (u256_limbs 1000, True)"
  using u256_chain_accepts_any_sum [OF u256_limbs_value(1)] by blast

end
