(* ===== verification/Note.thy ===== *)
theory Note
  imports Account
begin

section \<open>Notes\<close>

text \<open>
  \<^verbatim>\<open>doxa-client/src/note.rs\<close>: deposit notes and the standard notes that move balances between
  accounts, with their commitments and the position-dependent nullifier. The Poseidon inputs
  are shown to determine every committed field; the memo is not one of them.
\<close>

record deposit_note =
  dn_identifier :: "felt \<times> felt"
  dn_recipient :: account_address
  dn_amount :: u256
  dn_asset_id :: asset_id

definition deposit_note_default_for :: "account_address \<Rightarrow> deposit_note" where
  "deposit_note_default_for rcpt =
     \<lparr>dn_identifier = (0, 0), dn_recipient = rcpt, dn_amount = 0, dn_asset_id = 0\<rparr>"

definition address_elems :: "account_address \<Rightarrow> felt list" where
  "address_elems ad = addr_subpool_id ad # elems (addr_public_id ad)"

definition deposit_note_input :: "deposit_note \<Rightarrow> felt list" where
  "deposit_note_input n =
     [fst (dn_identifier n), snd (dn_identifier n)] @ address_elems (dn_recipient n)
       @ u256_limbs (dn_amount n) @ [dn_asset_id n]"

definition deposit_note_commitment :: "hasher \<Rightarrow> deposit_note \<Rightarrow> hash_output" where
  "deposit_note_commitment P n = P (deposit_note_input n)"

record standard_note =
  note_identifier :: "felt \<times> felt"
  note_asset_id :: asset_id
  amt :: u256
  recipient :: account_address
  sender :: account_address
  memo :: bytes

definition note_input :: "standard_note \<Rightarrow> felt list" where
  "note_input n =
     [fst (note_identifier n), snd (note_identifier n)] @ u256_limbs (amt n) @ [note_asset_id n]
       @ address_elems (recipient n) @ address_elems (sender n)"

definition note_commitment :: "hasher \<Rightarrow> standard_note \<Rightarrow> hash_output" where
  "note_commitment P n = P (note_input n)"

datatype note_error = Position_exceeds_field

text \<open>The nullifier takes the nullifier key as the four elements of a digest.\<close>

definition note_nullifier_input :: "hash_output \<Rightarrow> felt \<Rightarrow> hash_output \<Rightarrow> felt list" where
  "note_nullifier_input comm position key = elems comm @ [position] @ elems key"

definition note_nullifier ::
  "hasher \<Rightarrow> standard_note \<Rightarrow> nat \<Rightarrow> hash_output \<Rightarrow> (note_error, hash_output) result" where
  "note_nullifier P n position key =
     bind_r (ensure (position < unat GOLDILOCKS_PRIME) Position_exceeds_field) (\<lambda>_.
       Inr (P (note_nullifier_input (note_commitment P n) (from_canonical_u64 (of_nat position)) key)))"

subsection \<open>Limbs determine the amount\<close>

lemma length_u256_limbs [simp]: "length (u256_limbs v) = 8"
  by (simp add: u256_limbs_def u256_words_def upt_04)

lemma ucast_u32_felt_inj: "(ucast (a :: u32) :: felt) = ucast b \<longleftrightarrow> a = b"
proof
  assume eq: "(ucast a :: felt) = ucast b"
  have "unat (ucast x :: felt) = unat x" for x :: u32
    using unsigned_less [where 'a = nat, of x] by (simp add: unsigned_ucast_eq take_bit_eq_mod)
  with eq show "a = b" by (metis unsigned_word_eqI)
qed simp

lemma u256_limbs_inj: "u256_limbs v = u256_limbs w \<longleftrightarrow> v = w"
proof
  assume eq: "u256_limbs v = u256_limbs w"
  have halves: "lo32 x = lo32 y \<Longrightarrow> hi32 x = hi32 y \<Longrightarrow> x = y" for x y
    by (metis join32_halves)
  have "into_limb v i = into_limb w i" if "i < 4" for i
    using that eq
    by (auto simp: u256_limbs_def u256_words_def upt_04 ucast_u32_felt_inj less_4_cases intro!: halves)
  then have "into_limb v 0 = into_limb w 0" "into_limb v 1 = into_limb w 1"
    "into_limb v 2 = into_limb w 2" "into_limb v 3 = into_limb w 3" by simp_all
  then show "v = w" by (metis from_limbs_into_limb)
qed simp

lemma address_elems_inj: "address_elems a = address_elems b \<longleftrightarrow> a = b"
  by (cases a; cases b) (auto simp: address_elems_def)

lemma length_address_elems [simp]: "length (address_elems a) = 5"
  by (simp add: address_elems_def)

lemma deposit_note_input_inj: "deposit_note_input n = deposit_note_input m \<longleftrightarrow> n = m"
  by (cases n; cases m)
     (auto simp: deposit_note_input_def append_eq_append_conv address_elems_inj u256_limbs_inj prod_eq_iff)

subsection \<open>Properties\<close>

text \<open>
  Note commitments and nullifiers hash an injective encoding: equal Poseidon inputs of two
  notes mean equal identifier, amount, asset, recipient and sender; equal inputs of two
  nullifiers mean the same note commitment, tree position and nullifier key.
\<close>

theorem note_encodings_injective:
  "(note_input n = note_input m \<longleftrightarrow>
      note_identifier n = note_identifier m \<and> amt n = amt m \<and> note_asset_id n = note_asset_id m
      \<and> recipient n = recipient m \<and> sender n = sender m)
   \<and> (note_nullifier_input c p k = note_nullifier_input c' p' k' \<longleftrightarrow> c = c' \<and> p = p' \<and> k = k')
   \<and> (deposit_note_input d = deposit_note_input d' \<longleftrightarrow> d = d')"
  by (auto simp: note_input_def note_nullifier_input_def append_eq_append_conv address_elems_inj
      u256_limbs_inj deposit_note_input_inj prod_eq_iff)

text \<open>
  The memo is not committed: replacing it changes neither the commitment nor any nullifier.
\<close>

theorem memo_not_committed:
  "note_commitment P (n\<lparr>memo := b\<rparr>) = note_commitment P n
    \<and> note_nullifier P (n\<lparr>memo := b\<rparr>) position key = note_nullifier P n position key"
  by (simp add: note_commitment_def note_nullifier_def note_input_def)

end
