(* ===== verification/Tx_Circuit_Builder.thy ===== *)
theory Tx_Circuit_Builder
  imports U256_Gadgets Note Pool_Config
begin

section \<open>The gadgets of the transaction circuits\<close>

text \<open>
  \<^verbatim>\<open>doxa-client/src/plonky2_gadgets\<close>: \<^verbatim>\<open>merkle.rs\<close>, \<^verbatim>\<open>priv_tx/circuit_builder.rs\<close>, the target structs of
  \<^verbatim>\<open>priv_tx/targets.rs\<close> and \<^verbatim>\<open>double_hash\<close> of \<^verbatim>\<open>priv_tx/utils.rs\<close>. A target struct is the record of the values of its wires;
  a safe boolean target is a \<open>bool\<close>. A \<open>derive\<close> method is a function of wire values, an \<open>assert\<close>
  method the predicate its constraints amount to, with the wires it allocates as arguments.
  \<^verbatim>\<open>connect\<close> is equality and \<^verbatim>\<open>conditional_assert_eq\<close> equality under its boolean. In-circuit Poseidon
  is the argument \<open>P\<close>, as natively. The constraints of the Schnorr gadget are the argument
  \<open>S\<close>, a predicate of the selector, message, key and the gadget's own wires.
\<close>

type_synonym 's sig_gadget = "bool \<Rightarrow> hash_output \<Rightarrow> pubkey \<Rightarrow> 's \<Rightarrow> bool"

record account_target =
  t_private_identifier :: "felt \<times> felt"
  t_nonce :: felt
  t_subpool_id :: felt
  t_acc_ast_root :: hash_output
  t_spend_auth :: pubkey
  t_consume_config :: bool
  t_consume_pk :: pubkey

record note_target =
  t_identifier :: "felt \<times> felt"
  t_amount :: "felt list"
  t_asset_id :: felt
  t_recipient :: account_address
  t_sender :: account_address

subsection \<open>Selection and equality\<close>

definition conditional_assert_eq :: "bool \<Rightarrow> 'a \<Rightarrow> 'a \<Rightarrow> bool" where
  "conditional_assert_eq c x y \<longleftrightarrow> (c \<longrightarrow> x = y)"

definition select_felt :: "bool \<Rightarrow> felt \<Rightarrow> felt \<Rightarrow> felt" where
  "select_felt b x y = (if b then x else y)"

definition select_hash :: "bool \<Rightarrow> hash_output \<Rightarrow> hash_output \<Rightarrow> hash_output" where
  "select_hash b x y = hash_of (map (\<lambda>i. select_felt b (elems x ! i) (elems y ! i)) [0..<4])"

definition conditionally_assert_hash_equal :: "bool \<Rightarrow> hash_output \<Rightarrow> hash_output \<Rightarrow> bool" where
  "conditionally_assert_hash_equal c h0 h1 \<longleftrightarrow>
     list_all (\<lambda>i. conditional_assert_eq c (elems h0 ! i) (elems h1 ! i)) [0..<4]"

definition conditional_assert_pk :: "bool \<Rightarrow> pubkey \<Rightarrow> pubkey \<Rightarrow> bool" where
  "conditional_assert_pk c k0 k1 \<longleftrightarrow>
     list_all (\<lambda>i. conditional_assert_eq c (pk_elems k0 ! i) (pk_elems k1 ! i)) [0..<5]"

definition conditional_assert_limbs :: "bool \<Rightarrow> felt list \<Rightarrow> felt list \<Rightarrow> bool" where
  "conditional_assert_limbs c a b \<longleftrightarrow> list_all (\<lambda>j. conditional_assert_eq c (a ! j) (b ! j)) [0..<8]"

definition bool_felt :: "bool \<Rightarrow> felt" where
  "bool_felt b = (if b then 1 else 0)"

subsection \<open>Merkle paths\<close>

record merkle_wires =
  mw_siblings :: "hash_output list"
  mw_bits :: "bool list"

definition hash_2_to_1_swapped_circuit :: "hasher \<Rightarrow> hash_output \<Rightarrow> hash_output \<Rightarrow> bool \<Rightarrow> hash_output" where
  "hash_2_to_1_swapped_circuit P cur sib dir =
     (if dir then P (elems sib @ elems cur) else P (elems cur @ elems sib))"

definition merkle_root_circuit :: "hasher \<Rightarrow> hash_output \<Rightarrow> hash_output list \<Rightarrow> bool list \<Rightarrow> hash_output" where
  "merkle_root_circuit P leaf_hash sibs bits =
     fold (\<lambda>(sibling, dir) current. hash_2_to_1_swapped_circuit P current sibling dir) (zip sibs bits) leaf_hash"

definition compute_merkle_root_gadget :: "hasher \<Rightarrow> hash_output \<Rightarrow> nat \<Rightarrow> merkle_wires \<Rightarrow> hash_output \<times> bool" where
  "compute_merkle_root_gadget P lf d w =
     (merkle_root_circuit P lf (mw_siblings w) (mw_bits w),
      length (mw_siblings w) = d \<and> length (mw_bits w) = d)"

definition conditional_merkle_verify_gadget ::
  "hasher \<Rightarrow> hash_output \<Rightarrow> hash_output \<Rightarrow> bool \<Rightarrow> nat \<Rightarrow> merkle_wires \<Rightarrow> bool" where
  "conditional_merkle_verify_gadget P lf expected_root selector d w \<longleftrightarrow>
     (case compute_merkle_root_gadget P lf d w of (r, ok) \<Rightarrow>
        ok \<and> conditionally_assert_hash_equal selector r expected_root)"

definition merkle_set_witness :: "hash_output merkle_proof \<Rightarrow> merkle_wires" where
  "merkle_set_witness p =
     (case extract_siblings_bits p of (sibs, bits) \<Rightarrow>
        \<lparr>mw_siblings = map hash_of sibs, mw_bits = bits\<rparr>)"

definition merkle_set_dummy_witness :: "nat \<Rightarrow> merkle_wires" where
  "merkle_set_dummy_witness d = \<lparr>mw_siblings = replicate d ZERO_hash, mw_bits = replicate d False\<rparr>"

subsection \<open>Derivations\<close>

definition derive_account_commitment :: "hasher \<Rightarrow> account_target \<Rightarrow> hash_output" where
  "derive_account_commitment P acc =
     P ([fst (t_private_identifier acc), snd (t_private_identifier acc)] @ [t_subpool_id acc]
        @ elems (t_acc_ast_root acc) @ [t_nonce acc] @ pk_elems (t_spend_auth acc)
        @ [bool_felt (t_consume_config acc)] @ pk_elems (t_consume_pk acc))"

definition derive_account_nullifier :: "hasher \<Rightarrow> hash_output \<Rightarrow> hash_output \<Rightarrow> hash_output" where
  "derive_account_nullifier P acc_comm nullifier_key = P (elems acc_comm @ elems nullifier_key)"

definition derive_nullifier_key :: "hasher \<Rightarrow> felt \<times> felt \<Rightarrow> hash_output" where
  "derive_nullifier_key P priv_id = P ([DS_NULLIFIER_KEY] @ [fst priv_id, snd priv_id])"

definition derive_public_identifier :: "hasher \<Rightarrow> felt \<times> felt \<Rightarrow> hash_output" where
  "derive_public_identifier P priv_id = P ([DS_PUBLIC_IDENTIFIER] @ [fst priv_id, snd priv_id])"

definition derive_note_commitment :: "hasher \<Rightarrow> note_target \<Rightarrow> hash_output" where
  "derive_note_commitment P n =
     P ([fst (t_identifier n), snd (t_identifier n)] @ t_amount n @ [t_asset_id n]
        @ [addr_subpool_id (t_recipient n)] @ elems (addr_public_id (t_recipient n))
        @ [addr_subpool_id (t_sender n)] @ elems (addr_public_id (t_sender n)))"

definition derive_note_nullifier :: "hasher \<Rightarrow> hash_output \<Rightarrow> felt \<Rightarrow> hash_output \<Rightarrow> hash_output" where
  "derive_note_nullifier P nc position nullifier_key = P (elems nc @ [position] @ elems nullifier_key)"

definition double_hash :: "hasher \<Rightarrow> hash_output \<Rightarrow> hash_output" where
  "double_hash P input = P (elems (P (elems input)))"

definition derive_dummy_note_nullifier :: "hasher \<Rightarrow> hash_output \<Rightarrow> hash_output" where
  "derive_dummy_note_nullifier P dnote = double_hash P dnote"

definition derive_dummy_note_commitment :: "hasher \<Rightarrow> hash_output \<Rightarrow> hash_output" where
  "derive_dummy_note_commitment P dnote = double_hash P dnote"

definition derive_tx_hash ::
  "hasher \<Rightarrow> hash_output list \<Rightarrow> hash_output list \<Rightarrow> hash_output \<Rightarrow> hash_output \<Rightarrow> hash_output" where
  "derive_tx_hash P effective_inotes_null effective_onotes_comm accin_null accout_comm =
     P (elems accin_null @ elems accout_comm @ concat (map elems effective_inotes_null)
        @ concat (map elems effective_onotes_comm))"

subsection \<open>Assertions\<close>

definition AST_DEFAULT_ROOT :: hash_output where
  "AST_DEFAULT_ROOT = HashOutput 2537328717772714990 1534150781011785517 14977255124160483673 9325839111461431495"

definition AST_DEFAULT_LEAF :: hash_output where
  "AST_DEFAULT_LEAF = HashOutput 0 0 0 0"

definition account_in_act :: "hasher \<Rightarrow> hash_output \<Rightarrow> hash_output \<Rightarrow> bool \<Rightarrow> merkle_wires \<Rightarrow> bool" where
  "account_in_act P acc_comm state_root cond w =
     conditional_merkle_verify_gadget P acc_comm state_root cond STATE_TREE_DEPTH w"

definition ast_leaf_circuit :: "hasher \<Rightarrow> felt \<Rightarrow> felt list \<Rightarrow> bool \<Rightarrow> hash_output" where
  "ast_leaf_circuit P asset amount selector =
     select_hash selector (P ([DS_ACC_AST_LEAF, asset] @ amount)) AST_DEFAULT_LEAF"

definition assert_asset_amt_or_default_in_ast ::
  "hasher \<Rightarrow> felt \<Rightarrow> felt list \<Rightarrow> hash_output \<Rightarrow> bool \<Rightarrow> merkle_wires \<Rightarrow> bool" where
  "assert_asset_amt_or_default_in_ast P asset amount acc_ast_root selector w \<longleftrightarrow>
     (case compute_merkle_root_gadget P (ast_leaf_circuit P asset amount selector) ACC_AST_DEPTH w of (r, ok) \<Rightarrow>
        ok \<and> r = acc_ast_root
        \<and> list_all (\<lambda>i. conditional_assert_eq (\<not> selector) (amount ! i) 0) [0..<8])"

definition assert_ast_update ::
  "hasher \<Rightarrow> felt \<Rightarrow> felt list \<Rightarrow> felt list \<Rightarrow> hash_output \<Rightarrow> hash_output \<Rightarrow> bool \<Rightarrow> bool
     \<Rightarrow> merkle_wires \<Rightarrow> merkle_wires \<Rightarrow> bool" where
  "assert_ast_update P asset in_amt out_amt in_root out_root exists_in exists_out in_w out_w \<longleftrightarrow>
     assert_asset_amt_or_default_in_ast P asset in_amt in_root exists_in in_w
     \<and> assert_asset_amt_or_default_in_ast P asset out_amt out_root exists_out out_w
     \<and> list_all (\<lambda>i. mw_siblings in_w ! i = mw_siblings out_w ! i \<and> mw_bits in_w ! i = mw_bits out_w ! i)
         [0..<ACC_AST_DEPTH]"

definition assert_subpool_full_proof ::
  "hasher \<Rightarrow> felt \<Rightarrow> pubkey \<Rightarrow> hash_output \<Rightarrow> bool \<Rightarrow> merkle_wires \<Rightarrow> bool" where
  "assert_subpool_full_proof P sid key config_root real w \<longleftrightarrow>
     conditional_merkle_verify_gadget P
       (P ([sid, 0, 0, 0] @ elems (P (pk_elems key)))) config_root real MAIN_POOL_CONFIG_DEPTH w"

definition assert_inotes_valid ::
  "hasher \<Rightarrow> note_target list \<Rightarrow> bool list \<Rightarrow> hash_output list \<Rightarrow> hash_output \<Rightarrow> felt \<Rightarrow> hash_output
     \<Rightarrow> merkle_wires list \<Rightarrow> bool" where
  "assert_inotes_valid P inotes inote_isactive inotes_comm public_identifier sid state_root ws \<longleftrightarrow>
     length ws = NOTE_BATCH
     \<and> list_all (\<lambda>i. conditional_merkle_verify_gadget P (inotes_comm ! i) state_root (inote_isactive ! i)
         STATE_TREE_DEPTH (ws ! i)) [0..<NOTE_BATCH]
     \<and> list_all (\<lambda>n. addr_public_id (t_recipient n) = public_identifier
         \<and> addr_subpool_id (t_recipient n) = sid) inotes"

definition assert_account_invariants_simple :: "account_target \<Rightarrow> account_target \<Rightarrow> bool" where
  "assert_account_invariants_simple accin accout \<longleftrightarrow>
     t_private_identifier accin = t_private_identifier accout
     \<and> t_subpool_id accin = t_subpool_id accout
     \<and> t_nonce accout = felt_add (t_nonce accin) 1
     \<and> t_spend_auth accin = t_spend_auth accout
     \<and> t_consume_pk accin = t_consume_pk accout
     \<and> t_consume_config accin = t_consume_config accout"

definition assert_account_invariants ::
  "account_target \<Rightarrow> account_target \<Rightarrow> bool \<Rightarrow> bool \<Rightarrow> bool \<Rightarrow> bool" where
  "assert_account_invariants accin accout is_fresh_acc is_update_auth is_priv_tx \<longleftrightarrow>
     t_private_identifier accin = t_private_identifier accout
     \<and> t_subpool_id accin = t_subpool_id accout
     \<and> t_nonce accout = felt_add (t_nonce accin) 1
     \<and> conditionally_assert_hash_equal (\<not> is_priv_tx) (t_acc_ast_root accout) (t_acc_ast_root accin)
     \<and> conditional_assert_pk is_priv_tx (t_spend_auth accout) (t_spend_auth accin)
     \<and> conditional_assert_pk is_priv_tx (t_consume_pk accout) (t_consume_pk accin)
     \<and> conditional_assert_eq is_priv_tx (t_consume_config accout) (t_consume_config accin)"

definition assert_reject_pair :: "note_target \<Rightarrow> note_target \<Rightarrow> bool \<Rightarrow> bool \<Rightarrow> bool" where
  "assert_reject_pair inote onote active rjct \<longleftrightarrow>
     conditional_assert_eq rjct active True
     \<and> conditional_assert_eq rjct (fst (t_identifier inote)) (fst (t_identifier onote))
     \<and> conditional_assert_eq rjct (snd (t_identifier inote)) (snd (t_identifier onote))
     \<and> conditional_assert_limbs rjct (t_amount inote) (t_amount onote)
     \<and> conditional_assert_eq rjct (t_asset_id inote) (t_asset_id onote)
     \<and> conditional_assert_eq rjct (addr_subpool_id (t_sender inote)) (addr_subpool_id (t_recipient onote))
     \<and> conditionally_assert_hash_equal rjct (addr_public_id (t_sender inote)) (addr_public_id (t_recipient onote))
     \<and> conditional_assert_eq rjct (addr_subpool_id (t_sender inote)) (addr_subpool_id (t_sender onote))
     \<and> conditionally_assert_hash_equal rjct (addr_public_id (t_sender inote)) (addr_public_id (t_sender onote))"

definition assert_reject_note_pairs ::
  "note_target list \<Rightarrow> note_target list \<Rightarrow> bool list \<Rightarrow> bool list \<Rightarrow> bool" where
  "assert_reject_note_pairs inotes onotes inotes_isactive is_note_pair_rjct \<longleftrightarrow>
     list_all (\<lambda>i. assert_reject_pair (inotes ! i) (onotes ! i) (inotes_isactive ! i) (is_note_pair_rjct ! i))
       [0..<NOTE_BATCH]"

definition active_amounts :: "note_target list \<Rightarrow> bool list \<Rightarrow> felt list list" where
  "active_amounts ns active =
     map (\<lambda>i. map (\<lambda>j. select_felt (active ! i) (t_amount (ns ! i) ! j) 0) [0..<8]) [0..<NOTE_BATCH]"

definition assert_balance_invariant ::
  "felt list \<Rightarrow> felt list \<Rightarrow> note_target list \<Rightarrow> note_target list \<Rightarrow> bool list \<Rightarrow> bool list
     \<Rightarrow> limb_wires list \<Rightarrow> limb_wires list \<Rightarrow> bool" where
  "assert_balance_invariant accin_amt accout_amt inotes onotes inotes_isactive onotes_isactive lhs_w rhs_w \<longleftrightarrow>
     (case add_u8_range_check_lookup_table of Inl _ \<Rightarrow> False | Inr rng \<Rightarrow>
      (case u256_addition_chain accin_amt (active_amounts inotes inotes_isactive) rng lhs_w of (lhs, lhs_ok) \<Rightarrow>
       case u256_addition_chain accout_amt (active_amounts onotes onotes_isactive) rng rhs_w of (rhs, rhs_ok) \<Rightarrow>
         lhs_ok \<and> rhs_ok \<and> connect_u256 lhs rhs))"

definition assert_fresh_account :: "account_target \<Rightarrow> bool \<Rightarrow> bool" where
  "assert_fresh_account acc cond \<longleftrightarrow>
     conditionally_assert_hash_equal cond (t_acc_ast_root acc) AST_DEFAULT_ROOT
     \<and> conditional_assert_eq cond (t_nonce acc) 0
     \<and> conditional_assert_pk cond (t_spend_auth acc) DEFAULT_SPEND_AUTH_PK
     \<and> conditional_assert_eq cond (t_consume_config acc) False
     \<and> conditional_assert_pk cond (t_consume_pk acc) DEFAULT_ACC_COMM_CONSUME_PK_PLACEHOLDER"

text \<open>The signatures a private transaction needs: spend, consume and approval.\<close>

definition spend_required :: "bool list \<Rightarrow> bool list \<Rightarrow> bool" where
  "spend_required onotes_isactive is_note_pair_rjct =
     foldl (\<lambda>req i. (onotes_isactive ! i \<and> \<not> is_note_pair_rjct ! i) \<or> req)
       (onotes_isactive ! 0 \<and> \<not> is_note_pair_rjct ! 0) [1..<NOTE_BATCH]"

definition consume_required :: "bool list \<Rightarrow> bool list \<Rightarrow> bool list \<Rightarrow> bool" where
  "consume_required inotes_isactive onotes_isactive is_note_pair_rjct \<longleftrightarrow>
     foldl (\<lambda>has i. inotes_isactive ! i \<or> has) (inotes_isactive ! 0) [1..<NOTE_BATCH]
     \<and> \<not> spend_required onotes_isactive is_note_pair_rjct"

definition assert_tx_signatures ::
  "'s sig_gadget \<Rightarrow> hash_output \<Rightarrow> bool list \<Rightarrow> bool list \<Rightarrow> account_target \<Rightarrow> pubkey \<Rightarrow> bool list \<Rightarrow> bool
     \<Rightarrow> 's \<Rightarrow> 's \<Rightarrow> 's \<Rightarrow> bool" where
  "assert_tx_signatures S tx_hash inotes_isactive onotes_isactive accin key is_note_pair_rjct real
       spend consume approval \<longleftrightarrow>
     S (spend_required onotes_isactive is_note_pair_rjct) tx_hash (t_spend_auth accin) spend
     \<and> S (consume_required inotes_isactive onotes_isactive is_note_pair_rjct \<and> t_consume_config accin)
         tx_hash (t_consume_pk accin) consume
     \<and> S real tx_hash key approval"

subsection \<open>Setting the wires from native values\<close>

definition account_set_witness :: "hasher \<Rightarrow> account \<Rightarrow> account_target tree_result" where
  "account_set_witness P acc =
     bind_r (ast_root P (ast acc)) (\<lambda>r. Inr
       \<lparr>t_private_identifier = private_identifier acc, t_nonce = nonce acc, t_subpool_id = subpool_id acc,
        t_acc_ast_root = r, t_spend_auth = spend_pk_or_default acc,
        t_consume_config = consume_config acc, t_consume_pk = consume_pk_or_default acc\<rparr>)"

definition note_set_witness :: "standard_note \<Rightarrow> note_target" where
  "note_set_witness n =
     \<lparr>t_identifier = note_identifier n, t_amount = U256Target_set (amt n), t_asset_id = note_asset_id n,
      t_recipient = recipient n, t_sender = sender n\<rparr>"

text \<open>
  Padding notes: the asset wire is shared with the transaction, and the recipient wires of an
  input note with the account.
\<close>

definition set_dummy_inote :: "felt \<Rightarrow> account_address \<Rightarrow> note_target" where
  "set_dummy_inote asset owner =
     \<lparr>t_identifier = (0, 0), t_amount = U256Target_set 0, t_asset_id = asset,
      t_recipient = owner, t_sender = address_default\<rparr>"

definition set_dummy_onote :: "felt \<Rightarrow> note_target" where
  "set_dummy_onote asset =
     \<lparr>t_identifier = (0, 0), t_amount = U256Target_set 0, t_asset_id = asset,
      t_recipient = address_default, t_sender = address_default\<rparr>"

subsection \<open>Conditional equalities\<close>

named_theorems circuit_simps "constraints as implications between wire values"

lemma conditional_hash [circuit_simps]: "conditionally_assert_hash_equal c h0 h1 \<longleftrightarrow> (c \<longrightarrow> h0 = h1)"
proof -
  have "list_all (\<lambda>i. elems h0 ! i = elems h1 ! i) [0..<4] \<longleftrightarrow> elems h0 = elems h1"
    by (auto simp: list_eq_iff_nth_eq list_all_iff)
  then show ?thesis
    by (cases c) (simp_all add: conditionally_assert_hash_equal_def conditional_assert_eq_def list_all_iff)
qed

lemma pk_elems_inj [simp]: "pk_elems a = pk_elems b \<longleftrightarrow> a = b"
  by (cases a; cases b) simp

lemma length_pk_elems [simp]: "length (pk_elems k) = 5"
  by (cases k) simp

lemma conditional_pk [circuit_simps]: "conditional_assert_pk c k0 k1 \<longleftrightarrow> (c \<longrightarrow> k0 = k1)"
proof -
  have "list_all (\<lambda>i. pk_elems k0 ! i = pk_elems k1 ! i) [0..<5] \<longleftrightarrow> pk_elems k0 = pk_elems k1"
    by (auto simp: list_eq_iff_nth_eq list_all_iff)
  then show ?thesis
    by (cases c) (simp_all add: conditional_assert_pk_def conditional_assert_eq_def list_all_iff)
qed

lemma conditional_limbs [circuit_simps]:
  "length a = 8 \<Longrightarrow> length b = 8 \<Longrightarrow> conditional_assert_limbs c a b \<longleftrightarrow> (c \<longrightarrow> a = b)"
  by (cases c) (auto simp: conditional_assert_limbs_def conditional_assert_eq_def list_all_iff list_eq_iff_nth_eq)

lemma select_hash [circuit_simps]: "select_hash b x y = (if b then x else y)"
  by (cases b) (simp_all add: select_hash_def select_felt_def elems_by_index)

lemma merkle_root_circuit_fold:
  "merkle_root_circuit P lf sibs bits = fold_path (hash_output_hash P) lf bits sibs"
proof (induction bits arbitrary: lf sibs)
  case (Cons b bits)
  then show ?case
    by (cases sibs)
       (simp_all add: merkle_root_circuit_def fold_path_def hash_2_to_1_swapped_circuit_def hash_output_hash_def)
qed (simp add: merkle_root_circuit_def fold_path_def)

lemma conditional_merkle [circuit_simps]:
  "conditional_merkle_verify_gadget P lf rt c d w \<longleftrightarrow>
     length (mw_siblings w) = d \<and> length (mw_bits w) = d
     \<and> (c \<longrightarrow> fold_path (hash_output_hash P) lf (mw_bits w) (mw_siblings w) = rt)"
  by (simp add: conditional_merkle_verify_gadget_def compute_merkle_root_gadget_def conditional_hash
      merkle_root_circuit_fold)

lemma asset_in_ast [circuit_simps]:
  "length amount = 8 \<Longrightarrow>
   assert_asset_amt_or_default_in_ast P asset amount rt sel w \<longleftrightarrow>
     length (mw_siblings w) = ACC_AST_DEPTH \<and> length (mw_bits w) = ACC_AST_DEPTH
     \<and> fold_path (hash_output_hash P) (if sel then P ([DS_ACC_AST_LEAF, asset] @ amount) else ZERO_hash)
         (mw_bits w) (mw_siblings w) = rt
     \<and> (sel \<or> amount = replicate 8 0)"
  by (cases sel)
     (simp_all add: assert_asset_amt_or_default_in_ast_def compute_merkle_root_gadget_def
       merkle_root_circuit_fold ast_leaf_circuit_def select_hash AST_DEFAULT_LEAF_def ZERO_hash_def
       conditional_assert_eq_def list_all_iff list_eq_iff_nth_eq conj_ac atLeast0LessThan Ball_def)

lemma same_path:
  assumes "length (mw_siblings w) = d" "length (mw_bits w) = d" "length (mw_siblings v) = d" "length (mw_bits v) = d"
    and "list_all (\<lambda>i. mw_siblings w ! i = mw_siblings v ! i \<and> mw_bits w ! i = mw_bits v ! i) [0..<d]"
  shows "mw_siblings w = mw_siblings v" "mw_bits w = mw_bits v"
  using assms by (auto simp: list_eq_iff_nth_eq list_all_iff)

lemma ast_update [circuit_simps]:
  assumes "length in_amt = 8" "length out_amt = 8"
  shows "assert_ast_update P asset in_amt out_amt in_root out_root exists_in exists_out in_w out_w \<longleftrightarrow>
     assert_asset_amt_or_default_in_ast P asset in_amt in_root exists_in in_w
     \<and> assert_asset_amt_or_default_in_ast P asset out_amt out_root exists_out in_w
     \<and> mw_siblings out_w = mw_siblings in_w \<and> mw_bits out_w = mw_bits in_w"
  unfolding assert_ast_update_def
  using same_path [of in_w ACC_AST_DEPTH out_w]
  by (auto simp: asset_in_ast [OF assms(1)] asset_in_ast [OF assms(2)] list_all_iff)

subsection \<open>Circuit derivations are the native ones\<close>

lemma note_derivations:
  "derive_note_commitment P (note_set_witness n) = note_commitment P n"
  "derive_note_nullifier P c position key = P (note_nullifier_input c position key)"
  by (simp_all add: derive_note_commitment_def note_set_witness_def note_commitment_def note_input_def
      U256Target_set_limbs address_elems_def derive_note_nullifier_def note_nullifier_input_def)

lemma key_derivations:
  "derive_nullifier_key P (private_identifier acc) = nk P acc"
  "derive_public_identifier P (private_identifier acc) = public_id P acc"
  by (simp_all add: derive_nullifier_key_def derive_public_identifier_def nk_def public_id_def private_id_elems_def)

lemma tx_hash_derivation: "derive_tx_hash P nns ncs an ac = derive_priv_tx_hash P an ac nns ncs"
  by (simp add: derive_tx_hash_def derive_priv_tx_hash_def)

lemma account_derivation:
  assumes "consume_config acc \<longleftrightarrow> consume_pk acc \<noteq> None"
  shows "bind_r (account_set_witness P acc) (\<lambda>t. Inr (derive_account_commitment P t)) = account_commitment P acc"
  using assms
  by (cases "ast_root P (ast acc)"; cases "consume_pk acc")
     (simp_all add: account_set_witness_def derive_account_commitment_def account_commitment_def
       commitment_input_def private_id_elems_def bool_felt_def consume_pk_or_default_def)

subsection \<open>An update along one path is a leaf update of the tree\<close>

fun bits_index :: "bool list \<Rightarrow> nat" where
  "bits_index [] = 0"
| "bits_index (b # bs) = (if b then 1 else 0) + 2 * bits_index bs"

lemma bits_index_less: "bits_index bs < 2 ^ length bs"
  by (induction bs) auto

lemma path_bits_index: "path_bits (length bs) (bits_index bs) = bs"
proof (induction bs)
  case (Cons b bs)
  have "path_bits (length (b # bs)) (bits_index (b # bs)) =
      b # map (\<lambda>j. odd (bits_index (b # bs) div 2 ^ Suc j)) [0..<length bs]"
    by (simp add: path_bits_def upt_conv_Cons map_Suc_upt [symmetric] comp_def del: upt_Suc power_Suc bits_index.simps)
       (simp add: comp_def)
  also have "\<dots> = b # bs"
    using Cons by (simp add: path_bits_def div_mult2_eq)
  finally show ?case .
qed (simp add: path_bits_def)

definition honest_siblings :: "'d merkle_hash \<Rightarrow> (nat \<Rightarrow> 'd) \<Rightarrow> nat \<Rightarrow> nat \<Rightarrow> 'd list" where
  "honest_siblings H f d index = map (\<lambda>level. node H f level
     (let pos = index div 2 ^ level in if odd pos then pos - 1 else pos + 1)) [0..<d]"

lemma honest_siblings_update: "honest_siblings H (f(index := v)) d index = honest_siblings H f d index"
proof -
  have "node H (f(index := v)) level q = node H f level q"
    if "q = (let pos = index div 2 ^ level in if odd pos then pos - 1 else pos + 1)" for level q
  proof (rule node_cong)
    fix i assume i: "i div 2 ^ level = q"
    have "q \<noteq> index div 2 ^ level" using that by (auto simp: Let_def elim: oddE)
    with i have "i \<noteq> index" by auto
    then show "(f(index := v)) i = f i" by simp
  qed
  then show ?thesis by (simp add: honest_siblings_def)
qed

context merkle_hash_laws
begin

lemma fold_path_update:
  assumes "index < 2 ^ d"
  shows "fold_path H v (path_bits d index) (honest_siblings H f d index) = node H (f(index := v)) d 0"
proof -
  have "fold_path H v (path_bits d index) (honest_siblings H (f(index := v)) d index) = node H (f(index := v)) d 0"
    using fold_path_node [of "f(index := v)" 0 index d] assms by (simp add: path_bits_def honest_siblings_def)
  then show ?thesis by (simp only: honest_siblings_update)
qed

lemma same_openings:
  assumes "fold_path H a bits ss = fold_path H b bits ss'"
    and "length ss = length bits" and "length ss' = length bits"
    and "find_collision H a b (zip bits (zip ss ss')) = None"
  shows "a = b \<and> ss = ss'"
  using assms
proof (induction bits arbitrary: a b ss ss')
  case (Cons dir bits)
  obtain s ss1 s' ss1' where ss: "ss = s # ss1" "ss' = s' # ss1'"
    using Cons.prems(2,3) by (auto simp: length_Suc_conv)
  let ?h = "hash_2_to_1_swapped H a s dir" and ?h' = "hash_2_to_1_swapped H b s' dir"
  have none: "find_collision H ?h ?h' (zip bits (zip ss1 ss1')) = None"
    and no: "\<not> ((if dir then (s, a) else (a, s)) \<noteq> (if dir then (s', b) else (b, s')) \<and> ?h = ?h')"
    using Cons.prems(4) unfolding ss by (auto simp: Let_def split: if_splits)
  have "?h = ?h' \<and> ss1 = ss1'" using Cons.IH [OF _ _ _ none] Cons.prems(1-3) ss by simp
  with no show ?case by (auto simp: ss split: if_splits)
qed simp

lemma merkle_proof_honest:
  assumes "0 < d" and "length ls \<le> 2 ^ d" and "index < 2 ^ d"
  shows "\<exists>p. merkle_proof H (canonical_tree H d ls) index = Inr p
    \<and> proof_leaf p = leaf_at H ls index \<and> siblings p = honest_siblings H (leaf_at H ls) d index"
  using assms by (simp add: merkle_proof_def merkle_path_canonical root_canonical honest_siblings_def leaf_at_def)

lemma path_update:
  assumes "index < 2 ^ d" and "length ss = d"
    and "fold_path H lf (path_bits d index) ss = spec_root H d ls"
    and "find_collision H lf (leaf_at H ls index)
      (zip (path_bits d index) (zip ss (honest_siblings H (leaf_at H ls) d index))) = None"
  shows "lf = leaf_at H ls index"
    and "fold_path H new (path_bits d index) ss = node H ((leaf_at H ls)(index := new)) d 0"
proof -
  have "fold_path H (leaf_at H ls index) (path_bits d index) (honest_siblings H (leaf_at H ls) d index) = spec_root H d ls"
    using fold_path_update [OF assms(1), of "leaf_at H ls index" "leaf_at H ls"] by (simp add: spec_root_def)
  then have "lf = leaf_at H ls index \<and> ss = honest_siblings H (leaf_at H ls) d index"
    using assms by (intro same_openings [of _ "path_bits d index"]) (simp_all add: path_bits_def honest_siblings_def)
  then show "lf = leaf_at H ls index"
    "fold_path H new (path_bits d index) ss = node H ((leaf_at H ls)(index := new)) d 0"
    using fold_path_update [OF assms(1)] by simp_all
qed

end

lemma leaf_at_update: "i < length ls \<Longrightarrow> (leaf_at H ls)(i := v) = leaf_at H (ls[i := v])"
  by (auto simp: leaf_at_def fun_eq_iff)

lemma leaf_at_append: "(leaf_at H ls)(length ls := v) = leaf_at H (ls @ [v])"
  by (auto simp: leaf_at_def fun_eq_iff nth_append less_Suc_eq)

lemma ast_constraint_paths:
  assumes "assert_ast_update P asset in_amt out_amt in_root out_root exists_in exists_out in_w out_w"
  shows "length (mw_siblings in_w) = ACC_AST_DEPTH \<and> length (mw_bits in_w) = ACC_AST_DEPTH
    \<and> fold_path (hash_output_hash P) (ast_leaf_circuit P asset in_amt exists_in)
        (mw_bits in_w) (mw_siblings in_w) = in_root
    \<and> fold_path (hash_output_hash P) (ast_leaf_circuit P asset out_amt exists_out)
        (mw_bits in_w) (mw_siblings in_w) = out_root"
  using assms same_path [of in_w ACC_AST_DEPTH out_w]
  by (auto simp: assert_ast_update_def assert_asset_amt_or_default_in_ast_def compute_merkle_root_gadget_def
      merkle_root_circuit_fold)

lemma ast_update_complete:
  assumes "verify_proof (hash_output_hash P) p" "length (siblings p) = ACC_AST_DEPTH" "length (path p) = ACC_AST_DEPTH"
    and "proof_leaf p = ast_leaf_circuit P asset in_amt exists_in"
    and "length in_amt = 8" "length out_amt = 8"
    and "exists_in \<or> in_amt = replicate 8 0" "exists_out \<or> out_amt = replicate 8 0"
  shows "assert_ast_update P asset in_amt out_amt (proof_root p)
    (fold_path (hash_output_hash P) (ast_leaf_circuit P asset out_amt exists_out) (path p) (siblings p))
    exists_in exists_out (merkle_set_witness p) (merkle_set_witness p)"
  using assms
  by (cases exists_in) (simp_all add: ast_update asset_in_ast merkle_set_witness_def extract_siblings_bits_def comp_def
      verify_proof_def ast_leaf_circuit_def select_hash AST_DEFAULT_LEAF_def ZERO_hash_def)

subsection \<open>Properties\<close>

text \<open>
  The derivations of the circuits are the native ones: the commitment, the nullifier key,
  the public identifier, note commitments and nullifiers and the transaction hash computed from
  wires that were set from native values are what the client computes, for every account whose
  consume key is present exactly when consumption is not delegated.
\<close>

theorem circuit_derivations_native:
  assumes "consume_config acc \<longleftrightarrow> consume_pk acc \<noteq> None"
  shows "bind_r (account_set_witness P acc) (\<lambda>t.
        Inr (derive_account_nullifier P (derive_account_commitment P t)
          (derive_nullifier_key P (t_private_identifier t)))) = account_nullifier P acc
    \<and> bind_r (account_set_witness P acc) (\<lambda>t. Inr (derive_account_commitment P t)) = account_commitment P acc
    \<and> derive_public_identifier P (private_identifier acc) = addr_public_id (address_from_acc P acc)
    \<and> derive_note_commitment P (note_set_witness n) = note_commitment P n
    \<and> (position < unat GOLDILOCKS_PRIME \<longrightarrow>
        note_nullifier P n position (nk P acc) =
          Inr (derive_note_nullifier P (derive_note_commitment P (note_set_witness n)) (of_nat position) (nk P acc)))
    \<and> derive_tx_hash P nns ncs an ac = derive_priv_tx_hash P an ac nns ncs"
proof (intro conjI impI)
  show "bind_r (account_set_witness P acc) (\<lambda>t. Inr (derive_account_nullifier P (derive_account_commitment P t)
      (derive_nullifier_key P (t_private_identifier t)))) = account_nullifier P acc"
    unfolding account_nullifier_def account_derivation [OF assms, symmetric]
    by (cases "ast_root P (ast acc)")
       (simp_all add: account_set_witness_def derive_account_nullifier_def key_derivations)
qed (simp_all add: account_derivation [OF assms] key_derivations address_from_acc_def note_derivations
      note_nullifier_def from_canonical_u64_def tx_hash_derivation)

theorem circuit_derivations_native_witness:
  "\<exists>acc. new_with demo_hasher (7, 8) 1 = Inr acc
    \<and> bind_r (account_set_witness demo_hasher acc) (\<lambda>t. Inr (derive_account_commitment demo_hasher t))
      = account_commitment demo_hasher acc"
proof -
  obtain a where "ast_new demo_hasher = Inr a" using ast_new_rep by blast
  then have "new_with demo_hasher (7, 8) 1 = Inr \<lparr>private_identifier = (7, 8), subpool_id = 1, nonce = 0,
      spend_pk = None, consume_config = False, consume_pk = None, ast = a\<rparr>"
    by (simp add: new_with_def)
  then show ?thesis using circuit_derivations_native by fastforce
qed

text \<open>
  C25. The AST constraints prove a leaf update: against a well-formed tree of balances with the
  input root, satisfied constraints either contain a Poseidon collision, computed by walking the
  wires next to the tree's own path, or the tree holds the claimed input leaf at the position
  the path bits denote, and the output root is the root of the tree after the native
  \<^verbatim>\<open>update_leaf\<close> there (or, at the next free position, after the native \<^verbatim>\<open>insert\<close>).
\<close>

theorem ast_update_refines_leaf_update:
  assumes "tree_ok (hash_output_hash P) t" "depth t = ACC_AST_DEPTH" "root (hash_output_hash P) t = Inr in_root"
    and "assert_ast_update P asset in_amt out_amt in_root out_root exists_in exists_out in_w out_w"
    and "i = bits_index (mw_bits in_w)" "new = ast_leaf_circuit P asset out_amt exists_out"
  shows "\<exists>honest. merkle_proof (hash_output_hash P) t i = Inr honest
    \<and> ((\<exists>l r l' r'. find_collision (hash_output_hash P) (ast_leaf_circuit P asset in_amt exists_in) (proof_leaf honest)
            (zip (mw_bits in_w) (zip (mw_siblings in_w) (siblings honest))) = Some ((l, r), (l', r'))
          \<and> (l, r) \<noteq> (l', r') \<and> P (elems l @ elems r) = P (elems l' @ elems r'))
      \<or> proof_leaf honest = ast_leaf_circuit P asset in_amt exists_in
        \<and> (i < num_leaves t \<longrightarrow>
            (\<exists>t'. update_leaf (hash_output_hash P) i new t = Inr t' \<and> root (hash_output_hash P) t' = Inr out_root))
        \<and> (i = num_leaves t \<longrightarrow>
            (\<exists>t'. insert_tree (hash_output_hash P) new t = Inr (i, t') \<and> root (hash_output_hash P) t' = Inr out_root)))"
proof -
  let ?H = "hash_output_hash P" and ?d = ACC_AST_DEPTH
  define lf where "lf = ast_leaf_circuit P asset in_amt exists_in"
  note w = ast_constraint_paths [OF assms(4), folded lf_def assms(6)]
  obtain ls where t: "t = canonical_tree ?H ?d ls" and len: "length ls \<le> 2 ^ ?d"
    using assms(1,2) by (auto elim: tree_okE)
  have i: "i < 2 ^ ?d" and bits: "mw_bits in_w = path_bits ?d i"
    using w bits_index_less [of "mw_bits in_w"] path_bits_index [of "mw_bits in_w"] by (simp_all add: assms(5))
  have r: "in_root = spec_root ?H ?d ls"
    using assms(3) hash_output.root_canonical [of ?d ls P] len t by simp
  obtain honest where h: "merkle_proof ?H t i = Inr honest" "proof_leaf honest = leaf_at ?H ls i"
      "siblings honest = honest_siblings ?H (leaf_at ?H ls) ?d i"
    using hash_output.merkle_proof_honest [OF _ len i, of P] t by auto
  show ?thesis
  proof (cases "find_collision ?H lf (leaf_at ?H ls i)
      (zip (path_bits ?d i) (zip (mw_siblings in_w) (honest_siblings ?H (leaf_at ?H ls) ?d i)))")
    case (Some c)
    obtain l r l' r' where "c = ((l, r), (l', r'))" by (metis surj_pair)
    with Some hash_output.find_collision_ok [of P lf "leaf_at ?H ls i"] h bits show ?thesis
      by (fastforce simp: lf_def hash_output_hash_def)
  next
    case None
    have "lf = leaf_at ?H ls i" and out: "out_root = node ?H ((leaf_at ?H ls)(i := new)) ?d 0"
      using hash_output.path_update(1) [OF i _ _ None] hash_output.path_update(2) [OF i _ _ None, of new] w bits r
      by simp_all
    have "\<exists>t'. update_leaf ?H i new t = Inr t' \<and> root ?H t' = Inr out_root" if "i < num_leaves t"
      using that len hash_output.update_leaf_canonical [OF len, of P i new]
        hash_output.root_canonical [of ?d "ls[i := new]" P]
      by (simp add: t out leaf_at_update spec_root_def)
    moreover have "\<exists>t'. insert_tree ?H new t = Inr (i, t') \<and> root ?H t' = Inr out_root" if "i = num_leaves t"
      using that i hash_output.insert_canonical [of ?d P new ls] hash_output.root_canonical [of ?d "ls @ [new]" P]
      by (simp add: t out leaf_at_append spec_root_def)
    ultimately show ?thesis using h \<open>lf = leaf_at ?H ls i\<close> by (auto simp: lf_def)
  qed
qed

theorem ast_update_refines_leaf_update_witness:
  "\<exists>a r w r'. ast_new demo_hasher = Inr a \<and> ast_root demo_hasher a = Inr r
    \<and> assert_ast_update demo_hasher 5 (u256_limbs 0) (u256_limbs 100) r r' False True w w
    \<and> (\<exists>honest. merkle_proof (hash_output_hash demo_hasher) (tree a) 1 = Inr honest
        \<and> proof_leaf honest = ZERO_hash)"
proof -
  let ?H = "hash_output_hash demo_hasher"
  obtain a where a: "ast_new demo_hasher = Inr a" "ast_rep demo_hasher a [(0, 0)]"
    using ast_new_rep by blast
  let ?ls = "ast_leaves demo_hasher [(0, 0)]"
  have t: "tree a = canonical_tree ?H ACC_AST_DEPTH ?ls" using a(2) by (simp add: ast_rep_def)
  have len: "length ?ls \<le> 2 ^ ACC_AST_DEPTH" by simp
  obtain p where p: "merkle_proof ?H (tree a) 1 = Inr p" "verify_proof ?H p"
      "proof_leaf p = leaf_at ?H ?ls 1" "proof_root p = spec_root ?H ACC_AST_DEPTH ?ls"
      "path p = path_bits ACC_AST_DEPTH 1" "length (siblings p) = ACC_AST_DEPTH"
    using hash_output.merkle_proof_canonical [OF _ len, of 1 demo_hasher] t by (auto simp: ACC_AST_DEPTH_def)
  have z: "u256_limbs 0 = replicate 8 0"
    by (simp add: u256_limbs_def u256_words_def upt_04 into_limb_def lo32_def hi32_def numeral_eq_Suc)
  have lf: "proof_leaf p = ast_leaf_circuit demo_hasher 5 (u256_limbs 0) False"
    by (simp add: p(3) leaf_at_def ast_leaves_def ast_leaf_circuit_def select_hash AST_DEFAULT_LEAF_def
        hash_output_hash_def ZERO_hash_def)
  define w where "w = merkle_set_witness p"
  have ok: "assert_ast_update demo_hasher 5 (u256_limbs 0) (u256_limbs 100) (proof_root p)
      (fold_path ?H (ast_leaf_circuit demo_hasher 5 (u256_limbs 100) True) (path p) (siblings p)) False True w w"
    unfolding w_def by (rule ast_update_complete [OF p(2,6) _ lf]) (simp_all add: p(5) path_bits_def z)
  have "root ?H (tree a) = Inr (proof_root p)"
    using hash_output.root_canonical [OF _ len, of demo_hasher] by (simp add: t p(4))
  moreover have "tree_ok ?H (tree a)" "depth (tree a) = ACC_AST_DEPTH"
    using len by (simp_all add: t)
  ultimately have "\<exists>honest. merkle_proof ?H (tree a) (bits_index (mw_bits w)) = Inr honest"
    using ast_update_refines_leaf_update [OF _ _ _ ok refl refl] by blast
  moreover have "bits_index (mw_bits w) = 1"
    by (simp add: w_def merkle_set_witness_def extract_siblings_bits_def p(5) path_bits_def ACC_AST_DEPTH_def upt_conv_Cons)
  ultimately show ?thesis
    using a ok \<open>root ?H (tree a) = Inr (proof_root p)\<close> p(1) lf
    by (auto simp: ast_root_def ast_leaf_circuit_def select_hash AST_DEFAULT_LEAF_def ZERO_hash_def)
qed

end
