(* ===== verification/Tx_Batch.thy ===== *)
theory Tx_Batch
  imports Batch_Replay
begin

section \<open>Batches on the server\<close>

text \<open>
  The public inputs of the three proof kinds (\<^verbatim>\<open>PIHelper\<close> in \<^verbatim>\<open>doxa-client/src/lib.rs\<close> and its
  implementations), the native subtree root of \<^verbatim>\<open>subtree_root.rs\<close>, and the batches that
  \<^verbatim>\<open>doxa-server\<close> fills, pads, finalizes and encodes for the contract: the trait
  \<^verbatim>\<open>BatchHelper\<close> with \<^verbatim>\<open>PrivateTxBatch\<close> and \<^verbatim>\<open>BridgeTxBatch\<close>. A proof is its vector of public
  inputs; the proving of a padding transaction is a parameter of \<^verbatim>\<open>finalize\<close>, and so is the hash
  of \<^verbatim>\<open>pi_commitment\<close>. The last section connects the server to the sync service: what the server
  encodes is what the service decodes.
\<close>

subsection \<open>Public inputs\<close>

datatype batch_error =
    Batch_full | Batch_finalized | Batch_not_finalized | Batch_empty | Act_root_mismatch
  | Config_root_mismatch | Withdraw_half_full | Deposit_half_full | Leaf_count_mismatch
  | Proving_failed

record tx_proof =
  pis :: "felt list"

definition pi_hash :: "tx_proof \<Rightarrow> nat \<Rightarrow> (batch_error, hash_output) result" where
  "pi_hash p base = bind_r (slice_r (pis p) base 4) (\<lambda>es. Inr (hash_of es))"

definition act_root :: "tx_proof \<Rightarrow> (batch_error, hash_output) result" where
  "act_root p = pi_hash p 0"

definition mainpool_config_root :: "tx_proof \<Rightarrow> (batch_error, hash_output) result" where
  "mainpool_config_root p = pi_hash p 4"

definition not_fake_tx :: "tx_proof \<Rightarrow> (batch_error, felt) result" where
  "not_fake_tx p = vec_get (pis p) 8"

definition accin_nullifier :: "tx_proof \<Rightarrow> (batch_error, hash_output) result" where
  "accin_nullifier p = pi_hash p 9"

definition accout_commitment :: "tx_proof \<Rightarrow> (batch_error, hash_output) result" where
  "accout_commitment p = pi_hash p 13"

definition batch_common_pis :: "tx_proof \<Rightarrow> (batch_error, felt list) result" where
  "batch_common_pis p = slice_r (pis p) 0 8"

definition batch_unique_pis :: "tx_proof \<Rightarrow> (batch_error, felt list) result" where
  "batch_unique_pis p =
     (if 8 \<le> length (pis p) then Inr (drop 8 (pis p)) else Inl (Panic Index_out_of_bounds))"

text \<open>The private transaction, \<^verbatim>\<open>core::array::from_fn\<close> filling the array in order.\<close>

definition from_fn :: "nat \<Rightarrow> (nat \<Rightarrow> ('e, 'a) result) \<Rightarrow> ('e, 'a list) result" where
  "from_fn n f = for_each (\<lambda>i acc. bind_r (f i) (\<lambda>a. Inr (acc @ [a]))) [0..<n] []"

definition input_note_nullifiers :: "tx_proof \<Rightarrow> (batch_error, hash_output list) result" where
  "input_note_nullifiers p = from_fn NOTE_BATCH (\<lambda>i. pi_hash p (17 + i * 4))"

definition output_note_commitments :: "tx_proof \<Rightarrow> (batch_error, hash_output list) result" where
  "output_note_commitments p = from_fn NOTE_BATCH (\<lambda>i. pi_hash p (45 + i * 4))"

definition output_commitments_priv :: "tx_proof \<Rightarrow> (batch_error, hash_output list) result" where
  "output_commitments_priv p =
     bind_r (accout_commitment p) (\<lambda>c. bind_r (output_note_commitments p) (\<lambda>v. Inr (c # v)))"

text \<open>The bridge transactions: little-endian limbs of addresses and amounts.\<close>

definition pi_u32 :: "tx_proof \<Rightarrow> nat \<Rightarrow> (batch_error, u32) result" where
  "pi_u32 p k = bind_r (vec_get (pis p) k) (\<lambda>f. Inr (lo32 (to_canonical_u64 f)))"

definition pi_address :: "tx_proof \<Rightarrow> nat \<Rightarrow> (batch_error, bytes) result" where
  "pi_address p base = bind_r (from_fn 5 (\<lambda>i. pi_u32 p (base + i))) (\<lambda>ls. Inr (concat (map u32_to_le_bytes ls)))"

definition pi_amount :: "tx_proof \<Rightarrow> nat \<Rightarrow> (batch_error, u256) result" where
  "pi_amount p base = bind_r (from_fn 4 (\<lambda>i.
       bind_r (pi_u32 p (base + 2 * i)) (\<lambda>lo. bind_r (pi_u32 p (base + 2 * i + 1)) (\<lambda>hi. Inr (join32 lo hi)))))
     (\<lambda>ws. Inr (from_limbs (ws ! 0) (ws ! 1) (ws ! 2) (ws ! 3)))"

definition deposit_pi_note_commitment :: "tx_proof \<Rightarrow> (batch_error, hash_output) result" where
  "deposit_pi_note_commitment p = pi_hash p 17"

definition deposit_eth_address :: "tx_proof \<Rightarrow> (batch_error, bytes) result" where
  "deposit_eth_address p = pi_address p 21"

definition deposit_amount :: "tx_proof \<Rightarrow> (batch_error, u256) result" where
  "deposit_amount p = pi_amount p 26"

definition deposit_asset_id :: "tx_proof \<Rightarrow> (batch_error, felt) result" where
  "deposit_asset_id p = vec_get (pis p) 34"

definition withdraw_asset_ids :: "tx_proof \<Rightarrow> (batch_error, felt list) result" where
  "withdraw_asset_ids p = from_fn NOTE_BATCH (\<lambda>i. vec_get (pis p) (17 + i))"

definition withdraw_amts :: "tx_proof \<Rightarrow> (batch_error, u256 list) result" where
  "withdraw_amts p = from_fn NOTE_BATCH (\<lambda>i. pi_amount p (24 + i * 8))"

definition withdraw_address :: "tx_proof \<Rightarrow> (batch_error, bytes) result" where
  "withdraw_address p = pi_address p 80"

definition output_commitments_bridge :: "tx_proof \<Rightarrow> (batch_error, hash_output list) result" where
  "output_commitments_bridge p = bind_r (accout_commitment p) (\<lambda>c. Inr [c])"

subsection \<open>The subtree root\<close>

definition is_power_of_two :: "nat \<Rightarrow> bool" where
  "is_power_of_two n \<longleftrightarrow> n \<in> (^) 2 ` {..<64}"

definition hash_pairs :: "'d merkle_hash \<Rightarrow> nat \<Rightarrow> 'd list \<Rightarrow> (batch_error, 'd list) result" where
  "hash_pairs H parent_len ls = for_each (\<lambda>i ls.
     bind_r (vec_get ls (2 * i)) (\<lambda>left. bind_r (vec_get ls (2 * i + 1)) (\<lambda>right.
       Inr (ls[i := hash_2_to_1_swapped H left right False])))) [0..<parent_len] ls"

function root_loop :: "'d merkle_hash \<Rightarrow> 'd list \<Rightarrow> (batch_error, 'd) result" where
  "root_loop H ls =
     (if 1 < length ls then
        bind_r (hash_pairs H (length ls div 2) ls) (\<lambda>ls'. root_loop H (take (length ls div 2) ls'))
      else vec_get ls 0)"
  by auto
termination
  by (relation "measure (\<lambda>(H, ls). length ls)") (auto simp: min_def)

declare root_loop.simps [simp del]

definition compute_root_native :: "'d merkle_hash \<Rightarrow> 'd list \<Rightarrow> (batch_error, 'd) result" where
  "compute_root_native H ls =
     bind_r (assert_r (ls \<noteq> [])) (\<lambda>_.
     bind_r (assert_r (is_power_of_two (length ls))) (\<lambda>_. root_loop H ls))"

lemma hash_pairs_prefix:
  assumes "2 * m \<le> length ls" and "k \<le> m"
  shows "\<exists>ls'. hash_pairs H k ls = Inr ls' \<and> length ls' = length ls
    \<and> (\<forall>i < length ls. ls' ! i = (if i < k then hash_2_to_1_swapped H (ls ! (2 * i)) (ls ! (2 * i + 1)) False else ls ! i))"
  using assms(2)
proof (induction k)
  case (Suc k)
  then obtain ls' where ls': "hash_pairs H k ls = Inr ls'" "length ls' = length ls"
    "\<forall>i < length ls. ls' ! i = (if i < k then hash_2_to_1_swapped H (ls ! (2 * i)) (ls ! (2 * i + 1)) False else ls ! i)"
    by auto
  have "2 * k + 1 < length ls" using Suc.prems assms(1) by linarith
  with ls' show ?case
    by (auto simp: hash_pairs_def for_each_snoc nth_list_update less_Suc_eq)
qed (simp add: hash_pairs_def)

lemma node_next_level:
  "node H f (Suc k) p = node H (\<lambda>i. hash_2_to_1_swapped H (f (2 * i)) (f (2 * i + 1)) False) k p"
proof (induction k arbitrary: p)
  case (Suc k)
  show ?case
    unfolding node.simps(2) [of H f "Suc k"] Suc.IH by (simp only: node.simps(2))
qed simp

lemma root_loop_spec: "length ls = 2 ^ d \<Longrightarrow> root_loop H ls = Inr (spec_root H d ls)"
proof (induction d arbitrary: ls)
  case 0
  then show ?case by (simp add: root_loop.simps spec_root_def leaf_at_def)
next
  case (Suc d)
  let ?h = "\<lambda>i. hash_2_to_1_swapped H (ls ! (2 * i)) (ls ! (2 * i + 1)) False"
  have "1 \<le> (2::nat) ^ d" by simp
  then have len: "length ls div 2 = 2 ^ d" "1 < length ls" unfolding Suc.prems power_Suc by linarith+
  obtain ls' where ls': "hash_pairs H (2 ^ d) ls = Inr ls'" "length ls' = length ls"
    "\<forall>i < length ls. ls' ! i = (if i < 2 ^ d then ?h i else ls ! i)"
    using hash_pairs_prefix [of "2 ^ d" ls "2 ^ d" H] Suc.prems by auto
  have "take (2 ^ d) ls' = map ?h [0..<2 ^ d]"
    using ls' Suc.prems by (intro nth_equalityI) simp_all
  then have "root_loop H ls = root_loop H (map ?h [0..<2 ^ d])"
    using len ls'(1) by (simp add: root_loop.simps [of H ls])
  also have "\<dots> = Inr (spec_root H d (map ?h [0..<2 ^ d]))" by (rule Suc.IH) simp
  also have "spec_root H d (map ?h [0..<2 ^ d]) = spec_root H (Suc d) ls"
    unfolding spec_root_def node_next_level
    by (rule node_cong) (use Suc.prems in \<open>simp add: leaf_at_def div_eq_0_iff\<close>)
  finally show ?case .
qed

lemma compute_root_native_spec:
  assumes "length ls = 2 ^ d" and "d < 64"
  shows "compute_root_native H ls = Inr (spec_root H d ls)"
proof -
  have "ls \<noteq> []" using assms(1) by auto
  moreover have "is_power_of_two (length ls)" using assms by (auto simp: is_power_of_two_def)
  ultimately show ?thesis using root_loop_spec [OF assms(1)] by (simp add: compute_root_native_def)
qed

subsection \<open>Encoding a batch\<close>

text \<open>\<^verbatim>\<open>push_fields\<close>: every element as its low and its high 32-bit half.\<close>

definition push_fields :: "u32 list \<Rightarrow> felt list \<Rightarrow> u32 list" where
  "push_fields words fs =
     fold (\<lambda>f words. words @ [lo32 (to_canonical_u64 f), hi32 (to_canonical_u64 f)]) fs words"

definition pi_preimage_words ::
  "(batch_error, hash_output) result \<Rightarrow> tx_proof list \<Rightarrow> (batch_error, u32 list) result" where
  "pi_preimage_words subtree_root proofs =
     bind_r subtree_root (\<lambda>batch_poseidon_root.
     let words = push_fields [] (elems batch_poseidon_root) in
     bind_r (vec_get proofs 0) (\<lambda>p0.
     bind_r (batch_common_pis p0) (\<lambda>common.
     let words = push_fields words common in
     for_each (\<lambda>p words. bind_r (batch_unique_pis p) (\<lambda>u. Inr (push_fields words u))) proofs words)))"

definition pi_preimage_bytes ::
  "(batch_error, hash_output) result \<Rightarrow> tx_proof list \<Rightarrow> (batch_error, bytes) result" where
  "pi_preimage_bytes subtree_root proofs =
     bind_r (pi_preimage_words subtree_root proofs) (\<lambda>words. Inr (concat (map u32_to_be_bytes words)))"

definition pi_commitment ::
  "(u32 list \<Rightarrow> bytes) \<Rightarrow> (batch_error, hash_output) result \<Rightarrow> tx_proof list \<Rightarrow> (batch_error, bytes) result" where
  "pi_commitment pi_hash_fn subtree_root proofs =
     bind_r (pi_preimage_words subtree_root proofs) (\<lambda>words. Inr (pi_hash_fn words))"

definition SUBTREE_BATCHSIZE :: nat where "SUBTREE_BATCHSIZE = 512"

definition batch_poseidon_root ::
  "hasher \<Rightarrow> (tx_proof \<Rightarrow> (batch_error, hash_output list) result) \<Rightarrow> bool \<Rightarrow> tx_proof list \<Rightarrow>
     (batch_error, hash_output) result" where
  "batch_poseidon_root P output_commitments full proofs =
     bind_r (ensure full Batch_not_finalized) (\<lambda>_.
     bind_r (for_each (\<lambda>p acc. bind_r (output_commitments p) (\<lambda>cs. Inr (acc @ cs))) proofs []) (\<lambda>leaves.
     bind_r (ensure (length leaves = SUBTREE_BATCHSIZE) Leaf_count_mismatch) (\<lambda>_.
       compute_root_native (hash_output_hash P) leaves)))"

text \<open>Equality of field elements and digests compares the canonical representatives.\<close>

definition hash_eq :: "hash_output \<Rightarrow> hash_output \<Rightarrow> bool" where
  "hash_eq a b \<longleftrightarrow> map to_canonical_u64 (elems a) = map to_canonical_u64 (elems b)"

subsection \<open>The private transaction batch\<close>

record priv_batch =
  pb_proofs :: "tx_proof list"
  pb_root :: "hash_output option"

definition priv_batch_new :: priv_batch where
  "priv_batch_new = \<lparr>pb_proofs = [], pb_root = None\<rparr>"

definition pb_is_full :: "priv_batch \<Rightarrow> bool" where
  "pb_is_full b \<longleftrightarrow> length (pb_proofs b) = PRIV_TX_BATCH_SIZE"

definition pb_is_finalized :: "priv_batch \<Rightarrow> bool" where
  "pb_is_finalized b \<longleftrightarrow> pb_root b \<noteq> None"

definition pb_commitments_subtree_root :: "priv_batch \<Rightarrow> (batch_error, hash_output) result" where
  "pb_commitments_subtree_root b = ok_or (pb_root b) Batch_not_finalized"

definition pb_common_act_root :: "priv_batch \<Rightarrow> (batch_error, hash_output) result" where
  "pb_common_act_root b =
     bind_r (ensure (pb_proofs b \<noteq> []) Batch_empty) (\<lambda>_. bind_r (vec_get (pb_proofs b) 0) act_root)"

definition pb_common_main_config_root :: "priv_batch \<Rightarrow> (batch_error, hash_output) result" where
  "pb_common_main_config_root b =
     bind_r (ensure (pb_proofs b \<noteq> []) Batch_empty) (\<lambda>_. bind_r (vec_get (pb_proofs b) 0) mainpool_config_root)"

definition pb_same_roots :: "tx_proof \<Rightarrow> priv_batch \<Rightarrow> (batch_error, unit) result" where
  "pb_same_roots p b =
     bind_r (vec_get (pb_proofs b) 0) (\<lambda>p0.
     bind_r (act_root p) (\<lambda>r. bind_r (act_root p0) (\<lambda>r0.
     bind_r (ensure (hash_eq r r0) Act_root_mismatch) (\<lambda>_.
     bind_r (mainpool_config_root p) (\<lambda>c. bind_r (mainpool_config_root p0) (\<lambda>c0.
       ensure (hash_eq c c0) Config_root_mismatch))))))"

definition pb_add_proof :: "tx_proof \<Rightarrow> (priv_batch, batch_error, bool) op" where
  "pb_add_proof p =
     bind_s (get_s (\<lambda>b. b)) (\<lambda>b.
     bind_s (lift_s (ensure (\<not> pb_is_full b) Batch_full)) (\<lambda>_.
     bind_s (lift_s (ensure (\<not> pb_is_finalized b) Batch_finalized)) (\<lambda>_.
     bind_s (lift_s (if pb_proofs b \<noteq> [] then pb_same_roots p b else Inr ())) (\<lambda>_.
     bind_s (modify_s (\<lambda>b. b\<lparr>pb_proofs := pb_proofs b @ [p]\<rparr>)) (\<lambda>_.
       get_s pb_is_full)))))"

text \<open>
  \<^verbatim>\<open>finalize\<close>: \<open>fake act_root config_root\<close> builds and proves one padding transaction, which is
  cloned into all free slots. A failure after the padding leaves the padded batch behind.
\<close>

definition pb_finalize ::
  "hasher \<Rightarrow> (hash_output \<Rightarrow> hash_output \<Rightarrow> (batch_error, tx_proof) result) \<Rightarrow> (priv_batch, batch_error, unit) op" where
  "pb_finalize P fake =
     bind_s (get_s (\<lambda>b. b)) (\<lambda>b.
     bind_s (lift_s (ensure (pb_proofs b \<noteq> []) Batch_empty)) (\<lambda>_.
     bind_s (lift_s (ensure (\<not> pb_is_finalized b) Batch_finalized)) (\<lambda>_.
     bind_s (lift_s (sub_u64 PRIV_TX_BATCH_SIZE (length (pb_proofs b)))) (\<lambda>n_padding.
     bind_s (if 0 < n_padding
        then bind_s (lift_s (bind_r (vec_get (pb_proofs b) 0) act_root)) (\<lambda>ar.
          bind_s (lift_s (bind_r (vec_get (pb_proofs b) 0) mainpool_config_root)) (\<lambda>cr.
          bind_s (lift_s (fake ar cr)) (\<lambda>padding_proof.
            modify_s (\<lambda>b. b\<lparr>pb_proofs := pb_proofs b @ replicate n_padding padding_proof\<rparr>))))
        else lift_s (Inr ())) (\<lambda>_.
     bind_s (get_s (\<lambda>b. batch_poseidon_root P output_commitments_priv (pb_is_full b) (pb_proofs b))) (\<lambda>r.
     bind_s (lift_s r) (\<lambda>r. modify_s (\<lambda>b. b\<lparr>pb_root := Some r\<rparr>))))))))"

definition pb_pi_preimage_bytes :: "priv_batch \<Rightarrow> (batch_error, bytes) result" where
  "pb_pi_preimage_bytes b = pi_preimage_bytes (pb_commitments_subtree_root b) (pb_proofs b)"

subsection \<open>The bridge batch\<close>

datatype bridge_tx_proof = WithdrawTxProof tx_proof | DepositTxProof tx_proof

fun bridge_proof :: "bridge_tx_proof \<Rightarrow> tx_proof" where
  "bridge_proof (WithdrawTxProof p) = p"
| "bridge_proof (DepositTxProof p) = p"

record bridge_batch =
  withdraw_half :: "bridge_tx_proof list"
  deposit_half :: "bridge_tx_proof list"
  bb_act_root :: "hash_output option"
  bb_config_root :: "hash_output option"
  bb_root :: "hash_output option"
  finalized_proofs :: "bridge_tx_proof list"

definition BRIDGE_TX_BATCH_SIZE :: nat where "BRIDGE_TX_BATCH_SIZE = 512"

definition bridge_batch_new :: bridge_batch where
  "bridge_batch_new = \<lparr>withdraw_half = [], deposit_half = [], bb_act_root = None, bb_config_root = None,
     bb_root = None, finalized_proofs = []\<rparr>"

definition is_withdraw_full :: "bridge_batch \<Rightarrow> bool" where
  "is_withdraw_full b \<longleftrightarrow> length (withdraw_half b) = BRIDGE_TX_BATCH_SIZE div 2"

definition is_deposit_full :: "bridge_batch \<Rightarrow> bool" where
  "is_deposit_full b \<longleftrightarrow> length (deposit_half b) = BRIDGE_TX_BATCH_SIZE div 2"

definition bb_is_full :: "bridge_batch \<Rightarrow> bool" where
  "bb_is_full b \<longleftrightarrow> is_withdraw_full b \<and> is_deposit_full b"

definition bb_is_empty :: "bridge_batch \<Rightarrow> bool" where
  "bb_is_empty b \<longleftrightarrow> withdraw_half b = [] \<and> deposit_half b = []"

definition bb_is_finalized :: "bridge_batch \<Rightarrow> bool" where
  "bb_is_finalized b \<longleftrightarrow> bb_root b \<noteq> None"

definition bb_common_act_root :: "bridge_batch \<Rightarrow> (batch_error, hash_output) result" where
  "bb_common_act_root b = ok_or (bb_act_root b) Batch_empty"

definition bb_common_main_config_root :: "bridge_batch \<Rightarrow> (batch_error, hash_output) result" where
  "bb_common_main_config_root b = ok_or (bb_config_root b) Batch_empty"

definition bb_commitments_subtree_root :: "bridge_batch \<Rightarrow> (batch_error, hash_output) result" where
  "bb_commitments_subtree_root b = ok_or (bb_root b) Batch_not_finalized"

text \<open>The common roots are recorded before the half of the proof is checked for room.\<close>

definition bb_roots :: "bridge_tx_proof \<Rightarrow> (bridge_batch, batch_error, unit) op" where
  "bb_roots p =
     bind_s (get_s (\<lambda>b. b)) (\<lambda>b.
     bind_s (lift_s (act_root (bridge_proof p))) (\<lambda>ar.
     if bb_act_root b \<noteq> None then
       bind_s (lift_s (bb_common_act_root b)) (\<lambda>ar0.
       bind_s (lift_s (ensure (hash_eq ar ar0) Act_root_mismatch)) (\<lambda>_.
       bind_s (lift_s (mainpool_config_root (bridge_proof p))) (\<lambda>cr.
       bind_s (lift_s (bb_common_main_config_root b)) (\<lambda>cr0.
         lift_s (ensure (hash_eq cr cr0) Config_root_mismatch)))))
     else
       bind_s (modify_s (\<lambda>b. b\<lparr>bb_act_root := Some ar\<rparr>)) (\<lambda>_.
       bind_s (lift_s (mainpool_config_root (bridge_proof p))) (\<lambda>cr.
         modify_s (\<lambda>b. b\<lparr>bb_config_root := Some cr\<rparr>)))))"

definition bb_push :: "bridge_tx_proof \<Rightarrow> (bridge_batch, batch_error, unit) op" where
  "bb_push p =
     bind_s (get_s (\<lambda>b. b)) (\<lambda>b.
     case p of
       WithdrawTxProof _ \<Rightarrow>
         bind_s (lift_s (ensure (\<not> is_withdraw_full b) Withdraw_half_full)) (\<lambda>_.
           modify_s (\<lambda>b. b\<lparr>withdraw_half := withdraw_half b @ [p]\<rparr>))
     | DepositTxProof _ \<Rightarrow>
         bind_s (lift_s (ensure (\<not> is_deposit_full b) Deposit_half_full)) (\<lambda>_.
           modify_s (\<lambda>b. b\<lparr>deposit_half := deposit_half b @ [p]\<rparr>)))"

definition bb_add_proof :: "bridge_tx_proof \<Rightarrow> (bridge_batch, batch_error, bool) op" where
  "bb_add_proof p =
     bind_s (get_s (\<lambda>b. b)) (\<lambda>b.
     bind_s (lift_s (ensure (\<not> bb_is_full b) Batch_full)) (\<lambda>_.
     bind_s (lift_s (ensure (\<not> bb_is_finalized b) Batch_finalized)) (\<lambda>_.
     bind_s (bb_roots p) (\<lambda>_.
     bind_s (bb_push p) (\<lambda>_.
       get_s bb_is_full)))))"

definition bb_finalize ::
  "hasher \<Rightarrow> (hash_output \<Rightarrow> hash_output \<Rightarrow> (batch_error, tx_proof) result)
    \<Rightarrow> (hash_output \<Rightarrow> hash_output \<Rightarrow> (batch_error, tx_proof) result) \<Rightarrow> (bridge_batch, batch_error, unit) op" where
  "bb_finalize P fake_withdraw fake_deposit =
     bind_s (get_s (\<lambda>b. b)) (\<lambda>b.
     bind_s (lift_s (ensure (\<not> bb_is_empty b) Batch_empty)) (\<lambda>_.
     bind_s (lift_s (ensure (\<not> bb_is_finalized b) Batch_finalized)) (\<lambda>_.
     bind_s (lift_s (bb_common_act_root b)) (\<lambda>ar.
     bind_s (lift_s (bb_common_main_config_root b)) (\<lambda>cr.
     bind_s (lift_s (sub_u64 (BRIDGE_TX_BATCH_SIZE div 2) (length (withdraw_half b)))) (\<lambda>n_withdraw.
     bind_s (if 0 < n_withdraw
        then bind_s (lift_s (fake_withdraw ar cr)) (\<lambda>p.
          modify_s (\<lambda>b. b\<lparr>withdraw_half := withdraw_half b @ replicate n_withdraw (WithdrawTxProof p)\<rparr>))
        else lift_s (Inr ())) (\<lambda>_.
     bind_s (lift_s (sub_u64 (BRIDGE_TX_BATCH_SIZE div 2) (length (deposit_half b)))) (\<lambda>n_deposit.
     bind_s (if 0 < n_deposit
        then bind_s (lift_s (fake_deposit ar cr)) (\<lambda>p.
          modify_s (\<lambda>b. b\<lparr>deposit_half := deposit_half b @ replicate n_deposit (DepositTxProof p)\<rparr>))
        else lift_s (Inr ())) (\<lambda>_.
     bind_s (modify_s (\<lambda>b. b\<lparr>finalized_proofs := withdraw_half b @ deposit_half b\<rparr>)) (\<lambda>_.
     bind_s (get_s (\<lambda>b. batch_poseidon_root P output_commitments_bridge (bb_is_full b)
         (map bridge_proof (finalized_proofs b)))) (\<lambda>r.
     bind_s (lift_s r) (\<lambda>r. modify_s (\<lambda>b. b\<lparr>bb_root := Some r\<rparr>)))))))))))))"

definition bb_pi_preimage_bytes :: "bridge_batch \<Rightarrow> (batch_error, bytes) result" where
  "bb_pi_preimage_bytes b =
     pi_preimage_bytes (bb_commitments_subtree_root b) (map bridge_proof (finalized_proofs b))"

subsection \<open>Well-formed proofs\<close>

text \<open>A proof with \<open>n\<close> public inputs, all of them canonical.\<close>

definition proof_ok :: "nat \<Rightarrow> tx_proof \<Rightarrow> bool" where
  "proof_ok n p \<longleftrightarrow> length (pis p) = n \<and> list_all canonical (pis p)"

definition hash_at :: "tx_proof \<Rightarrow> nat \<Rightarrow> hash_output" where
  "hash_at p k = hash_of (slice_at (pis p) k 4)"

lemma pi_hash_ok [simp]: "k + 4 \<le> length (pis p) \<Longrightarrow> pi_hash p k = Inr (hash_at p k)"
  by (simp add: pi_hash_def hash_at_def)

lemma canonical_hash_at: "proof_ok n p \<Longrightarrow> k + 4 \<le> n \<Longrightarrow> canonical_hash (hash_at p k)"
  by (auto simp: proof_ok_def hash_at_def canonical_hash_def slice_at_def list_all_length)

lemma hash_eq_canonical: "canonical_hash a \<Longrightarrow> canonical_hash b \<Longrightarrow> hash_eq a b \<longleftrightarrow> a = b"
proof -
  have "map to_canonical_u64 (elems h) = elems h" if "canonical_hash h" for h
    using that by (intro map_idI) (auto simp: canonical_hash_def list_all_iff)
  then show "canonical_hash a \<Longrightarrow> canonical_hash b \<Longrightarrow> hash_eq a b \<longleftrightarrow> a = b"
    by (simp add: hash_eq_def)
qed

lemma from_fn_ok: "(\<And>i. i < n \<Longrightarrow> f i = Inr (g i)) \<Longrightarrow> from_fn n f = Inr (map g [0..<n])"
  unfolding from_fn_def by (induction n) (simp_all add: for_each_snoc)

definition priv_outputs :: "tx_proof \<Rightarrow> hash_output list" where
  "priv_outputs p = hash_at p 13 # map (\<lambda>j. hash_at p (45 + j * 4)) [0..<7]"

lemma output_commitments_priv_ok:
  assumes "proof_ok 73 p"
  shows "output_commitments_priv p = Inr (priv_outputs p)"
proof -
  have "output_note_commitments p = Inr (map (\<lambda>j. hash_at p (45 + j * 4)) [0..<NOTE_BATCH])"
    unfolding output_note_commitments_def
    by (rule from_fn_ok) (use assms in \<open>simp add: proof_ok_def NOTE_BATCH_def\<close>)
  with assms show ?thesis
    by (simp add: output_commitments_priv_def accout_commitment_def priv_outputs_def proof_ok_def NOTE_BATCH_def)
qed

lemma collect_outputs:
  assumes "\<And>p. p \<in> set ps \<Longrightarrow> oc p = Inr (outs p)"
  shows "for_each (\<lambda>p acc. bind_r (oc p) (\<lambda>cs. Inr (acc @ cs))) ps acc = Inr (acc @ concat (map outs ps))"
  using assms by (induction ps arbitrary: acc) auto

lemma batch_poseidon_root_ok:
  assumes "\<And>p. p \<in> set ps \<Longrightarrow> oc p = Inr (outs p)" and "length (concat (map outs ps)) = 512"
  shows "batch_poseidon_root P oc True ps
    = Inr (spec_root (hash_output_hash P) BATCH_SUBTREE_DEPTH (concat (map outs ps)))"
proof -
  have "length (concat (map outs ps)) = 2 ^ BATCH_SUBTREE_DEPTH"
    using assms(2) by (simp add: BATCH_SUBTREE_DEPTH_def)
  moreover have "for_each (\<lambda>p acc. bind_r (oc p) (\<lambda>cs. Inr (acc @ cs))) ps [] = Inr (concat (map outs ps))"
    using collect_outputs [of ps oc outs "[]"] assms(1) by simp
  ultimately show ?thesis
    using assms(2) by (simp add: batch_poseidon_root_def SUBTREE_BATCHSIZE_def compute_root_native_spec)
qed

subsection \<open>The life of a private batch\<close>

definition pb_ok :: "hasher \<Rightarrow> priv_batch \<Rightarrow> bool" where
  "pb_ok P b \<longleftrightarrow> length (pb_proofs b) \<le> 64
     \<and> (\<forall>p \<in> set (pb_proofs b). proof_ok 73 p \<and> hash_at p 0 = hash_at (hd (pb_proofs b)) 0
          \<and> hash_at p 4 = hash_at (hd (pb_proofs b)) 4)
     \<and> (\<forall>r. pb_root b = Some r \<longrightarrow> length (pb_proofs b) = 64
          \<and> r = spec_root (hash_output_hash P) BATCH_SUBTREE_DEPTH (concat (map priv_outputs (pb_proofs b))))"

text \<open>What is relied on of the prover of padding transactions: it answers with a proof for the given roots.\<close>

definition pads_ok :: "nat \<Rightarrow> (hash_output \<Rightarrow> hash_output \<Rightarrow> (batch_error, tx_proof) result) \<Rightarrow> bool" where
  "pads_ok n fake \<longleftrightarrow> (\<forall>ar cr p. canonical_hash ar \<longrightarrow> canonical_hash cr \<longrightarrow> fake ar cr = Inr p
     \<longrightarrow> proof_ok n p \<and> hash_at p 0 = ar \<and> hash_at p 4 = cr)"

inductive pb_reach :: "hasher \<Rightarrow> (hash_output \<Rightarrow> hash_output \<Rightarrow> (batch_error, tx_proof) result) \<Rightarrow> priv_batch \<Rightarrow> bool"
  for P fake where
  new: "pb_reach P fake priv_batch_new"
| add: "pb_reach P fake b \<Longrightarrow> proof_ok 73 p \<Longrightarrow> pb_add_proof p b = (r, b') \<Longrightarrow> pb_reach P fake b'"
| finalize: "pb_reach P fake b \<Longrightarrow> pb_finalize P fake b = (r, b') \<Longrightarrow> pb_reach P fake b'"

lemma pb_add_proof_cases:
  assumes "pb_ok P b" and "proof_ok 73 p"
  shows "pb_add_proof p b =
    (if pb_is_full b then (Inl (Err Batch_full), b)
     else if pb_is_finalized b then (Inl (Err Batch_finalized), b)
     else if pb_proofs b \<noteq> [] \<and> hash_at p 0 \<noteq> hash_at (hd (pb_proofs b)) 0 then (Inl (Err Act_root_mismatch), b)
     else if pb_proofs b \<noteq> [] \<and> hash_at p 4 \<noteq> hash_at (hd (pb_proofs b)) 4 then (Inl (Err Config_root_mismatch), b)
     else (Inr (length (pb_proofs b) = 63), b\<lparr>pb_proofs := pb_proofs b @ [p]\<rparr>))"
proof (cases "pb_proofs b")
  case Nil
  then show ?thesis
    by (auto simp: pb_add_proof_def bind_s_def pb_is_full_def pb_is_finalized_def PRIV_TX_BATCH_SIZE_def ensure_def)
next
  case (Cons p0 ps)
  have p0: "proof_ok 73 p0" using assms(1) Cons by (auto simp: pb_ok_def)
  have len: "length (pis p) = 73" "length (pis p0) = 73" using assms(2) p0 by (auto simp: proof_ok_def)
  have eq: "hash_eq (hash_at p k) (hash_at p0 k) \<longleftrightarrow> hash_at p k = hash_at p0 k" if "k + 4 \<le> 73" for k
    by (rule hash_eq_canonical) (use canonical_hash_at [OF assms(2) that] canonical_hash_at [OF p0 that] in auto)
  show ?thesis
    using Cons len eq [of 0] eq [of 4]
    by (auto simp: pb_add_proof_def bind_s_def pb_is_full_def pb_is_finalized_def PRIV_TX_BATCH_SIZE_def ensure_def
        pb_same_roots_def act_root_def mainpool_config_root_def)
qed

lemma length_priv_outputs [simp]: "length (priv_outputs p) = 8"
  by (simp add: priv_outputs_def)

lemma priv_root:
  assumes "\<forall>p \<in> set ps. proof_ok 73 p" and "length ps = 64"
  shows "batch_poseidon_root P output_commitments_priv True ps
    = Inr (spec_root (hash_output_hash P) BATCH_SUBTREE_DEPTH (concat (map priv_outputs ps)))"
  by (rule batch_poseidon_root_ok)
     (use assms in \<open>auto simp: output_commitments_priv_ok length_concat_map_const [where w = 8]\<close>)

definition pb_padding ::
  "(hash_output \<Rightarrow> hash_output \<Rightarrow> (batch_error, tx_proof) result) \<Rightarrow> tx_proof list \<Rightarrow> (batch_error, tx_proof list) result" where
  "pb_padding fake ps = (if length ps = 64 then Inr []
     else bind_r (fake (hash_at (hd ps) 0) (hash_at (hd ps) 4)) (\<lambda>p. Inr (replicate (64 - length ps) p)))"

lemma pb_padding_ok:
  assumes "pads_ok 73 fake" and "pb_padding fake ps = Inr pad" and "length ps \<le> 64" and "proof_ok 73 (hd ps)"
  shows "length (ps @ pad) = 64" and "\<forall>p \<in> set pad. proof_ok 73 p \<and> hash_at p 0 = hash_at (hd ps) 0 \<and> hash_at p 4 = hash_at (hd ps) 4"
proof -
  have canon: "canonical_hash (hash_at (hd ps) 0)" "canonical_hash (hash_at (hd ps) 4)"
    using canonical_hash_at [OF assms(4)] by simp_all
  have "pad = [] \<and> length ps = 64 \<or> (\<exists>q. fake (hash_at (hd ps) 0) (hash_at (hd ps) 4) = Inr q
      \<and> pad = replicate (64 - length ps) q)"
    using assms(2) by (auto simp: pb_padding_def bind_r_eq_Inr split: if_splits)
  then have pad: "set pad \<subseteq> {q. fake (hash_at (hd ps) 0) (hash_at (hd ps) 4) = Inr q}" and "length (ps @ pad) = 64"
    using assms(3) by auto
  then show "length (ps @ pad) = 64" by blast
  have "proof_ok 73 q \<and> hash_at q 0 = hash_at (hd ps) 0 \<and> hash_at q 4 = hash_at (hd ps) 4"
    if "fake (hash_at (hd ps) 0) (hash_at (hd ps) 4) = Inr q" for q
    using assms(1) canon that unfolding pads_ok_def by blast
  then show "\<forall>p \<in> set pad. proof_ok 73 p \<and> hash_at p 0 = hash_at (hd ps) 0 \<and> hash_at p 4 = hash_at (hd ps) 4"
    using pad by blast
qed

lemma pb_finalize_cases:
  assumes "pb_ok P b" and "pads_ok 73 fake"
  shows "pb_finalize P fake b =
    (if pb_proofs b = [] then (Inl (Err Batch_empty), b)
     else if pb_is_finalized b then (Inl (Err Batch_finalized), b)
     else case pb_padding fake (pb_proofs b) of
       Inl e \<Rightarrow> (Inl e, b)
     | Inr pad \<Rightarrow> (Inr (), \<lparr>pb_proofs = pb_proofs b @ pad, pb_root =
         Some (spec_root (hash_output_hash P) BATCH_SUBTREE_DEPTH (concat (map priv_outputs (pb_proofs b @ pad))))\<rparr>))"
proof (cases "pb_proofs b = [] \<or> pb_is_finalized b")
  case True
  then show ?thesis by (auto simp: pb_finalize_def bind_s_def)
next
  case False
  let ?ps = "pb_proofs b"
  have ne: "?ps \<noteq> []" "hd ?ps = ?ps ! 0" and fin: "\<not> pb_is_finalized b"
    using False by (simp_all add: hd_conv_nth)
  have len: "length ?ps \<le> 64" and ok: "\<forall>p \<in> set ?ps. proof_ok 73 p"
    using assms(1) by (auto simp: pb_ok_def)
  have "length (pis (?ps ! 0)) = 73" using ok ne by (auto simp: proof_ok_def)
  then have roots: "act_root (?ps ! 0) = Inr (hash_at (?ps ! 0) 0)" "mainpool_config_root (?ps ! 0) = Inr (hash_at (?ps ! 0) 4)"
    by (simp_all add: act_root_def mainpool_config_root_def)
  have sub: "sub_u64 PRIV_TX_BATCH_SIZE (length ?ps) = (Inr (64 - length ?ps) :: (batch_error, nat) result)"
    using len by (simp add: sub_u64_def PRIV_TX_BATCH_SIZE_def)
  have root: "batch_poseidon_root P output_commitments_priv
        (pb_is_full (b\<lparr>pb_proofs := ?ps @ pad\<rparr>)) (?ps @ pad)
      = Inr (spec_root (hash_output_hash P) BATCH_SUBTREE_DEPTH (concat (map priv_outputs (?ps @ pad))))"
    if "pb_padding fake ?ps = Inr pad" for pad
    using pb_padding_ok [OF assms(2) that len] ok ne priv_root [of "?ps @ pad" P]
    by (auto simp: pb_is_full_def PRIV_TX_BATCH_SIZE_def)
  have upd: "b\<lparr>pb_proofs := qs, pb_root := Some r\<rparr> = \<lparr>pb_proofs = qs, pb_root = Some r\<rparr>" for qs r by (cases b) simp
  have upd': "b\<lparr>pb_root := Some r\<rparr> = \<lparr>pb_proofs = ?ps, pb_root = Some r\<rparr>" for r by (cases b) simp
  show ?thesis
  proof (cases "length ?ps = 64")
    case True
    then have "pb_padding fake ?ps = Inr []" by (simp add: pb_padding_def)
    with root [OF this] True ne fin sub upd' show ?thesis
      by (simp add: pb_finalize_def bind_s_def)
  next
    case False
    then have n: "0 < 64 - length ?ps" using len by simp
    show ?thesis
    proof (cases "fake (hash_at (?ps ! 0) 0) (hash_at (?ps ! 0) 4)")
      case (Inl e)
      with False n ne fin sub roots show ?thesis
        by (simp add: pb_finalize_def bind_s_def pb_padding_def)
    next
      case (Inr q)
      then have pad: "pb_padding fake ?ps = Inr (replicate (64 - length ?ps) q)"
        using False ne by (simp add: pb_padding_def)
      from root [OF this] Inr n ne fin sub roots upd pad show ?thesis
        by (simp add: pb_finalize_def bind_s_def)
    qed
  qed
qed

lemma pb_reach_ok:
  assumes "pb_reach P fake b" and "pads_ok 73 fake"
  shows "pb_ok P b"
  using assms(1)
proof (induction rule: pb_reach.induct)
  case new
  then show ?case by (simp add: pb_ok_def priv_batch_new_def)
next
  case (add b p r b')
  have "b' = b \<or> (b' = b\<lparr>pb_proofs := pb_proofs b @ [p]\<rparr> \<and> \<not> pb_is_full b \<and> \<not> pb_is_finalized b
      \<and> (pb_proofs b \<noteq> [] \<longrightarrow> hash_at p 0 = hash_at (hd (pb_proofs b)) 0 \<and> hash_at p 4 = hash_at (hd (pb_proofs b)) 4))"
    using add.hyps(3) unfolding pb_add_proof_cases [OF add.IH add.hyps(2)] by (auto split: if_splits)
  then show ?case
    using add.IH add.hyps(2)
    by (cases "pb_proofs b") (auto simp: pb_ok_def pb_is_full_def pb_is_finalized_def PRIV_TX_BATCH_SIZE_def)
next
  case (finalize b r b')
  have "b' = b \<or> (\<exists>pad. pb_proofs b \<noteq> [] \<and> pb_padding fake (pb_proofs b) = Inr pad
      \<and> b' = \<lparr>pb_proofs = pb_proofs b @ pad, pb_root = Some (spec_root (hash_output_hash P) BATCH_SUBTREE_DEPTH
          (concat (map priv_outputs (pb_proofs b @ pad))))\<rparr>)"
    using finalize.hyps(2) unfolding pb_finalize_cases [OF finalize.IH assms(2)]
    by (auto split: if_splits sum.splits)
  then show ?case
  proof (elim disjE exE conjE)
    fix pad assume "pb_padding fake (pb_proofs b) = Inr pad" and ne: "pb_proofs b \<noteq> []"
      and b': "b' = \<lparr>pb_proofs = pb_proofs b @ pad, pb_root = Some (spec_root (hash_output_hash P) BATCH_SUBTREE_DEPTH
          (concat (map priv_outputs (pb_proofs b @ pad))))\<rparr>"
    note pad = pb_padding_ok [OF assms(2) this(1)]
    have "length (pb_proofs b) \<le> 64" using finalize.IH by (simp add: pb_ok_def)
    moreover have "proof_ok 73 (hd (pb_proofs b))" using finalize.IH ne by (simp add: pb_ok_def)
    ultimately have pad: "length (pb_proofs b @ pad) = 64"
      "\<forall>p \<in> set pad. proof_ok 73 p \<and> hash_at p 0 = hash_at (hd (pb_proofs b)) 0 \<and> hash_at p 4 = hash_at (hd (pb_proofs b)) 4"
      by (rule pad)+
    let ?ps = "pb_proofs b @ pad"
    have "\<forall>p \<in> set ?ps. proof_ok 73 p \<and> hash_at p 0 = hash_at (hd ?ps) 0 \<and> hash_at p 4 = hash_at (hd ?ps) 4"
      using finalize.IH pad(2) ne unfolding pb_ok_def set_append hd_append2 [OF ne] by blast
    then show ?thesis using pad(1) unfolding b' by (simp add: pb_ok_def)
  qed (use finalize.IH in simp)
qed

subsection \<open>What is encoded is what is decoded\<close>

definition encode_fields :: "felt list \<Rightarrow> bytes" where
  "encode_fields fs = concat (map (\<lambda>f. preimage_limb (to_canonical_u64 f)) fs)"

definition batch_fields :: "hash_output \<Rightarrow> tx_proof list \<Rightarrow> felt list" where
  "batch_fields r ps = elems r @ take 8 (pis (ps ! 0)) @ concat (map (\<lambda>p. drop 8 (pis p)) ps)"

lemma push_fields_eq:
  "push_fields words fs = words @ concat (map (\<lambda>f. [lo32 (to_canonical_u64 f), hi32 (to_canonical_u64 f)]) fs)"
  unfolding push_fields_def by (induction fs arbitrary: words) simp_all

lemma words_to_bytes:
  "concat (map u32_to_be_bytes (concat (map (\<lambda>f. [lo32 (to_canonical_u64 f), hi32 (to_canonical_u64 f)]) fs)))
    = encode_fields fs"
  unfolding encode_fields_def by (induction fs) (simp_all add: preimage_limb_def)

lemma pi_preimage_bytes_eq:
  assumes "ps \<noteq> []" and "\<forall>p \<in> set ps. 8 \<le> length (pis p)"
  shows "pi_preimage_bytes (Inr r) ps = Inr (encode_fields (batch_fields r ps))"
proof -
  let ?w = "\<lambda>fs. concat (map (\<lambda>f. [lo32 (to_canonical_u64 f), hi32 (to_canonical_u64 f)]) fs)"
  have loop: "for_each (\<lambda>p words. bind_r (batch_unique_pis p) (\<lambda>u. Inr (push_fields words u))) qs words
      = Inr (words @ ?w (concat (map (\<lambda>p. drop 8 (pis p)) qs)))" if "\<forall>p \<in> set qs. 8 \<le> length (pis p)" for qs words
    using that by (induction qs arbitrary: words) (simp_all add: batch_unique_pis_def push_fields_eq)
  have "batch_common_pis (ps ! 0) = Inr (take 8 (pis (ps ! 0)))"
    using assms by (simp add: batch_common_pis_def)
  then have "pi_preimage_words (Inr r) ps = Inr (?w (batch_fields r ps))"
    using assms(1) loop [OF assms(2)] by (simp add: pi_preimage_words_def Let_def push_fields_eq batch_fields_def)
  then show ?thesis by (simp only: pi_preimage_bytes_def bind_r_Inr words_to_bytes)
qed

lemma length_limb [simp]: "length (preimage_limb v) = 8"
  by (simp add: preimage_limb_def)

lemma length_encode_fields [simp]: "length (encode_fields fs) = length fs * 8"
  by (simp add: encode_fields_def length_concat_map_const)

lemma preimage_field_encoded:
  assumes "k < length fs"
  shows "preimage_field (encode_fields fs) k = to_canonical_u64 (fs ! k)"
proof -
  have "slice_at (encode_fields fs) (k * 8 + j) 4 = slice_at (preimage_limb (to_canonical_u64 (fs ! k))) j 4"
    if "j + 4 \<le> 8" for j
    unfolding encode_fields_def by (rule slice_block) (use assms that in simp_all)
  from this [of 0] this [of 4] show ?thesis
    by (simp add: preimage_field_def preimage_limb_def)
qed

lemma preimage_hash_encoded:
  assumes "k + 4 \<le> length fs"
  shows "preimage_hash (encode_fields fs) k = hash_of (map to_canonical_u64 (slice_at fs k 4))"
proof -
  have "map (\<lambda>i. preimage_field (encode_fields fs) (k + i)) [0..<4] = map to_canonical_u64 (slice_at fs k 4)"
    using assms by (intro nth_equalityI) (auto simp: preimage_field_encoded slice_at_def)
  then show ?thesis by (simp only: preimage_hash_def)
qed

text \<open>Position \<open>j\<close> of slot \<open>s\<close> in a batch whose proofs all have \<open>8 + w\<close> public inputs.\<close>

lemma batch_field_slice:
  assumes "s < length ps" and "\<forall>p \<in> set ps. length (pis p) = 8 + w" and "j + n \<le> w"
  shows "slice_at (batch_fields r ps) (12 + s * w + j) n = slice_at (pis (ps ! s)) (8 + j) n"
proof -
  have "ps ! 0 \<in> set ps" using assms(1) by (cases ps) auto
  then have "length (take 8 (pis (ps ! 0))) = 8" using assms(2) by simp
  then have "slice_at (batch_fields r ps) (12 + s * w + j) n
      = slice_at (concat (map (\<lambda>p. drop 8 (pis p)) ps)) (s * w + j) n"
    by (simp add: batch_fields_def)
  also have "\<dots> = slice_at (drop 8 (pis (ps ! s))) j n"
    by (rule slice_block) (use assms in auto)
  finally show ?thesis by (simp add: slice_at_def add.commute)
qed

lemma length_batch_fields:
  assumes "ps \<noteq> []" and "\<forall>p \<in> set ps. length (pis p) = 8 + w"
  shows "length (batch_fields r ps) = 12 + length ps * w"
  using assms by (simp add: batch_fields_def length_concat_map_const [where w = w])

lemma slot_hash:
  assumes "s < length ps" and "\<forall>p \<in> set ps. proof_ok (8 + w) p" and "j + 4 \<le> w"
  shows "preimage_hash (encode_fields (batch_fields r ps)) (12 + s * w + j) = hash_at (ps ! s) (8 + j)"
proof -
  have len: "\<forall>p \<in> set ps. length (pis p) = 8 + w" using assms(2) by (simp add: proof_ok_def)
  have ne: "ps \<noteq> []" using assms(1) by auto
  have "s * w + w \<le> length ps * w" using assms(1) mult_le_mono1 [of "Suc s" "length ps" w] by simp
  then have fit: "12 + s * w + j + 4 \<le> length (batch_fields r ps)"
    using assms(3) length_batch_fields [OF ne len, of r] by linarith
  have "list_all canonical (pis (ps ! s))" using assms(1,2) by (simp add: proof_ok_def)
  then have "map to_canonical_u64 (slice_at (pis (ps ! s)) (8 + j) 4) = slice_at (pis (ps ! s)) (8 + j) 4"
    by (intro map_idI) (auto simp: list_all_iff slice_at_def dest!: in_set_takeD in_set_dropD)
  then show ?thesis
    unfolding preimage_hash_encoded [OF fit] batch_field_slice [OF assms(1) len assms(3)] hash_at_def by simp
qed

lemma slot_flag:
  assumes "s < length ps" and "\<forall>p \<in> set ps. proof_ok (8 + w) p" and "0 < w"
  shows "preimage_field (encode_fields (batch_fields r ps)) (12 + s * w) = pis (ps ! s) ! 8"
proof -
  have len: "\<forall>p \<in> set ps. length (pis p) = 8 + w" using assms(2) by (simp add: proof_ok_def)
  have ne: "ps \<noteq> []" using assms(1) by auto
  have "s * w + w \<le> length ps * w" using assms(1) mult_le_mono1 [of "Suc s" "length ps" w] by simp
  then have fit: "12 + s * w < length (batch_fields r ps)"
    using assms(3) length_batch_fields [OF ne len, of r] by linarith
  have "slice_at (batch_fields r ps) (12 + s * w + 0) 1 = slice_at (pis (ps ! s)) (8 + 0) 1"
    by (rule batch_field_slice [OF assms(1) len]) (use assms(3) in simp)
  then have "batch_fields r ps ! (12 + s * w) = pis (ps ! s) ! 8"
    using fit assms(1,3) len by (simp add: slice_at_def take_Suc_conv_app_nth hd_drop_conv_nth take_Suc)
  moreover have "canonical (pis (ps ! s) ! 8)"
    using assms by (auto simp: proof_ok_def list_all_length)
  ultimately show ?thesis using preimage_field_encoded [OF fit] by simp
qed

text \<open>A full private batch, as the sync service reads it.\<close>

lemma priv_batch_decodes:
  assumes "length ps = 64" and "\<forall>p \<in> set ps. proof_ok 73 p" and "pre = encode_fields (batch_fields r ps)"
  shows "length pre = TX_PREIMAGE_LEN"
    and "map (tx_leaf pre) [0..<512] = concat (map priv_outputs ps)"
    and "s < 64 \<Longrightarrow> tx_real pre s \<longleftrightarrow> pis (ps ! s) ! 8 \<noteq> 0"
    and "s < 64 \<Longrightarrow> tx_nullifiers pre s = hash_at (ps ! s) 9 # map (\<lambda>j. hash_at (ps ! s) (17 + j * 4)) [0..<7]"
    and "tx_canonical pre"
    and "canonical_hash r \<Longrightarrow> extract_batch_root_from_preimage pre = Inr r"
proof -
  have ok: "\<forall>p \<in> set ps. proof_ok (8 + 65) p" using assms(2) by simp
  have slot: "preimage_hash pre (12 + s * 65 + j) = hash_at (ps ! s) (8 + j)" if "s < 64" "j + 4 \<le> 65" for s j
    unfolding assms(3) by (rule slot_hash [OF _ ok]) (use that assms(1) in simp_all)
  have ne: "ps \<noteq> []" using assms(1) by auto
  have flen: "length (batch_fields r ps) = 12 + 64 * 65"
    using length_batch_fields [OF ne, of 65 r] ok assms(1) by (simp add: proof_ok_def)
  show len: "length pre = TX_PREIMAGE_LEN"
    unfolding assms(3) length_encode_fields flen by (simp add: layout_defs)
  show "tx_real pre s \<longleftrightarrow> pis (ps ! s) ! 8 \<noteq> 0" if "s < 64"
    unfolding tx_real_def assms(3) using slot_flag [OF _ ok, of s r] that assms(1) by simp
  show nulls: "tx_nullifiers pre s = hash_at (ps ! s) 9 # map (\<lambda>j. hash_at (ps ! s) (17 + j * 4)) [0..<7]"
    if "s < 64" for s
    using slot [OF that, of 1] slot [OF that, of "9 + _ * 4"] that by (simp add: tx_nullifiers_def add.assoc)
  have leaf: "tx_leaf pre i = priv_outputs (ps ! (i div 8)) ! (i mod 8)" if "i < 512" for i
  proof -
    have s: "i div 8 < 64" and j: "i mod 8 < 8" using that by simp_all
    show ?thesis
    proof (cases "i mod 8")
      case 0
      then show ?thesis using slot [OF s, of 5] by (simp add: tx_leaf_def priv_outputs_def)
    next
      case (Suc k)
      with j have "k < 7" by simp
      then show ?thesis using slot [OF s, of "37 + k * 4"] Suc
        by (simp add: tx_leaf_def priv_outputs_def add.assoc)
    qed
  qed
  show leaves: "map (tx_leaf pre) [0..<512] = concat (map priv_outputs ps)"
  proof (rule nth_equalityI)
    fix i assume "i < length (map (tx_leaf pre) [0..<512])"
    then have i: "i < 512" by simp
    have "slice_at (concat (map priv_outputs ps)) (i div 8 * 8 + i mod 8) 1 = slice_at (priv_outputs (ps ! (i div 8))) (i mod 8) 1"
      by (rule slice_block [where w = 8]) (use i assms(1) in auto)
    moreover have "i < length (concat (map priv_outputs ps))"
      using i assms(1) by (simp add: length_concat_map_const [where w = 8])
    ultimately have "concat (map priv_outputs ps) ! i = priv_outputs (ps ! (i div 8)) ! (i mod 8)"
      by (simp add: slice_at_def take_Suc hd_drop_conv_nth)
    with leaf i show "map (tx_leaf pre) [0..<512] ! i = concat (map priv_outputs ps) ! i" by simp
  qed (simp add: length_concat_map_const [where w = 8] assms(1))
  have canon: "canonical_hash (hash_at (ps ! s) k)" if "s < 64" "k + 4 \<le> 73" for s k
    using canonical_hash_at [of 73 "ps ! s" k] that assms(1,2) by simp
  show "tx_canonical pre"
    unfolding tx_canonical_def
  proof (intro conjI allI impI ballI)
    fix i :: nat assume "i < 512"
    then have s: "i div 8 < 64" and j: "i mod 8 < 8" by simp_all
    have "canonical_hash (priv_outputs (ps ! (i div 8)) ! (i mod 8))"
      using canon [OF s] j by (cases "i mod 8") (auto simp: priv_outputs_def)
    then show "canonical_hash (tx_leaf pre i)" using leaf [OF \<open>i < 512\<close>] by simp
  next
    fix n assume "n \<in> set (tx_all_nullifiers pre)"
    then obtain s where "s < 64" "n \<in> set (tx_nullifiers pre s)" by (auto simp: tx_all_nullifiers_def)
    with nulls canon show "canonical_hash n" by auto
  qed
  show "extract_batch_root_from_preimage pre = Inr r" if "canonical_hash r"
  proof -
    have "slice_at (batch_fields r ps) 0 4 = elems r" by (simp add: batch_fields_def)
    moreover have "map to_canonical_u64 (elems r) = elems r"
      using that by (intro map_idI) (auto simp: canonical_hash_def list_all_iff)
    ultimately have "preimage_hash pre 0 = r"
      unfolding assms(3) by (subst preimage_hash_encoded) (simp_all add: flen)
    with that read_hash_aligned [of 0 pre] len show ?thesis
      by (simp add: extract_batch_root_from_preimage_def layout_defs)
  qed
qed

lemma decoded_commitment_confirmed:
  assumes "length ps = 64" and "\<forall>p \<in> set ps. proof_ok 73 p" and "pre = encode_fields (batch_fields r ps)"
    and "r = spec_root (hash_output_hash P) BATCH_SUBTREE_DEPTH (concat (map priv_outputs ps))"
    and "state_ok P s" and "num_leaves (state_tree s) < 2 ^ depth (state_tree s)"
    and "p \<in> set ps" and "c \<in> set (priv_outputs p)"
  shows "\<exists>x y. get_commitment_status P (snd (confirm_batch P pi r nr (tx_applied pre pi s))) c
      = Inr (Commitment_Confirmed x y)
    \<and> verify_proof (hash_output_hash P) x \<and> verify_proof (hash_output_hash P) y
    \<and> proof_leaf x = c \<and> proof_root x = r \<and> proof_leaf y = r
    \<and> root (hash_output_hash P) (state_tree (snd (confirm_batch P pi r nr (tx_applied pre pi s)))) = Inr (proof_root y)"
proof -
  note leaves = priv_batch_decodes(2) [OF assms(1-3)]
  have root: "r = spec_root (hash_output_hash P) BATCH_SUBTREE_DEPTH (map (tx_leaf pre) [0..<512])"
    unfolding leaves by (rule assms(4))
  have "c \<in> set (map (tx_leaf pre) [0..<512])" unfolding leaves using assms(7,8) by auto
  then obtain i where i: "i < 512" "c = tx_leaf pre i" by auto
  show ?thesis using tx_applied_confirm [OF assms(5,6) root i(1)] unfolding i(2) .
qed

lemma decoded_nullifiers:
  assumes "length ps = 64" and "\<forall>p \<in> set ps. proof_ok 73 p" and "pre = encode_fields (batch_fields r ps)"
    and "p \<in> set ps" and "pis p ! 8 \<noteq> 0"
  shows "\<exists>an nns. accin_nullifier p = Inr an \<and> input_note_nullifiers p = Inr nns
    \<and> set (an # nns) \<subseteq> set (tx_all_nullifiers pre)"
proof -
  obtain k where k: "k < 64" "p = ps ! k" using assms(1,4) by (auto simp: in_set_conv_nth)
  have len: "length (pis p) = 73" using assms(2,4) by (simp add: proof_ok_def)
  have "input_note_nullifiers p = Inr (map (\<lambda>j. hash_at p (17 + j * 4)) [0..<7])"
    unfolding input_note_nullifiers_def NOTE_BATCH_def by (rule from_fn_ok) (simp add: len)
  moreover have "accin_nullifier p = Inr (hash_at p 9)" using len by (simp add: accin_nullifier_def)
  moreover have "set (tx_nullifiers pre k) \<subseteq> set (tx_all_nullifiers pre)"
    using priv_batch_decodes(3) [OF assms(1-3) k(1)] assms(5) k by (auto simp: tx_all_nullifiers_def)
  ultimately show ?thesis
    using priv_batch_decodes(4) [OF assms(1-3) k(1)] k(2) by simp
qed

subsection \<open>Example proofs\<close>

definition demo_proof :: "nat \<Rightarrow> hash_output \<Rightarrow> hash_output \<Rightarrow> tx_proof" where
  "demo_proof n ar cr = \<lparr>pis = elems ar @ elems cr @ replicate (n - 8) 0\<rparr>"

definition demo_fake :: "nat \<Rightarrow> hash_output \<Rightarrow> hash_output \<Rightarrow> (batch_error, tx_proof) result" where
  "demo_fake n ar cr = Inr (demo_proof n ar cr)"

lemma demo_proof_ok:
  assumes "8 \<le> n" and "canonical_hash ar" and "canonical_hash cr"
  shows "proof_ok n (demo_proof n ar cr)" and "hash_at (demo_proof n ar cr) 0 = ar" and "hash_at (demo_proof n ar cr) 4 = cr"
proof -
  have "canonical 0" by (simp add: canonical_def GOLDILOCKS_PRIME_def)
  then show "proof_ok n (demo_proof n ar cr)"
    using assms by (auto simp: proof_ok_def demo_proof_def canonical_hash_def list_all_iff)
qed (simp_all add: hash_at_def demo_proof_def)

lemma demo_pads: "8 \<le> n \<Longrightarrow> pads_ok n (demo_fake n)"
  by (auto simp: pads_ok_def demo_fake_def demo_proof_ok)

lemma demo_pads_priv: "pads_ok 73 (demo_fake 73)"
  by (rule demo_pads) simp

lemma demo_zero_proof: "proof_ok 73 (demo_proof 73 ZERO_hash ZERO_hash)"
  by (rule demo_proof_ok) simp_all

subsection \<open>Properties\<close>

text \<open>
  C29. The server's in-place bottom-up computation of the subtree root and the sync service's tree,
  built leaf by leaf, agree: for the 512 output commitments of a batch both succeed, and the root of
  the service's subtree is the root that the server announces.
\<close>

theorem server_root_is_sync_root:
  assumes "length ls = 512"
  shows "\<exists>t r. compute_root_native (hash_output_hash P) ls = Inr r
    \<and> build_subtree P ls = Inr t \<and> root (hash_output_hash P) t = Inr r"
  using assms compute_root_native_spec [of ls BATCH_SUBTREE_DEPTH "hash_output_hash P"]
    build_subtree_ok [of ls P] hash_output.root_canonical [of BATCH_SUBTREE_DEPTH ls P]
  by (simp add: BATCH_SUBTREE_DEPTH_def)

theorem server_root_is_sync_root_witness:
  "\<exists>t r. compute_root_native (hash_output_hash demo_hasher) (replicate 512 ZERO_hash) = Inr r
    \<and> build_subtree demo_hasher (replicate 512 ZERO_hash) = Inr t \<and> root (hash_output_hash demo_hasher) t = Inr r"
  by (rule server_root_is_sync_root) simp

text \<open>
  C27. The invariant of a private batch, over every sequence of \<^verbatim>\<open>add_proof\<close> and \<^verbatim>\<open>finalize\<close> calls
  including those that fail: it never holds more than 64 proofs, all proofs share the state root and
  the configuration root of the first, and a finalized batch is full and carries the Merkle root of
  its 512 output commitments.
\<close>

theorem private_batch_invariant:
  assumes "pb_reach P fake b" and "pads_ok 73 fake"
  shows "length (pb_proofs b) \<le> PRIV_TX_BATCH_SIZE
    \<and> (\<forall>p \<in> set (pb_proofs b). \<forall>q \<in> set (pb_proofs b).
        act_root p = act_root q \<and> mainpool_config_root p = mainpool_config_root q)
    \<and> (\<forall>r. pb_root b = Some r \<longrightarrow> pb_is_full b
        \<and> (\<exists>ls. for_each (\<lambda>p acc. bind_r (output_commitments_priv p) (\<lambda>cs. Inr (acc @ cs))) (pb_proofs b) [] = Inr ls
            \<and> length ls = 512 \<and> r = spec_root (hash_output_hash P) BATCH_SUBTREE_DEPTH ls))"
proof -
  have ok: "pb_ok P b" by (rule pb_reach_ok [OF assms])
  have len: "proof_ok 73 p" if "p \<in> set (pb_proofs b)" for p using ok that by (simp add: pb_ok_def)
  have "act_root p = act_root q \<and> mainpool_config_root p = mainpool_config_root q"
    if "p \<in> set (pb_proofs b)" "q \<in> set (pb_proofs b)" for p q
  proof -
    have "hash_at p 0 = hash_at q 0 \<and> hash_at p 4 = hash_at q 4" using ok that unfolding pb_ok_def by metis
    with len [OF that(1)] len [OF that(2)] show ?thesis
      by (simp add: act_root_def mainpool_config_root_def proof_ok_def)
  qed
  moreover have "for_each (\<lambda>p acc. bind_r (output_commitments_priv p) (\<lambda>cs. Inr (acc @ cs))) (pb_proofs b) []
      = Inr (concat (map priv_outputs (pb_proofs b)))"
    using collect_outputs [of "pb_proofs b" output_commitments_priv priv_outputs "[]"] len
    by (simp add: output_commitments_priv_ok)
  moreover have "length (pb_proofs b) \<le> PRIV_TX_BATCH_SIZE"
    using ok by (simp add: pb_ok_def PRIV_TX_BATCH_SIZE_def)
  moreover have "pb_is_full b" "r = spec_root (hash_output_hash P) BATCH_SUBTREE_DEPTH (concat (map priv_outputs (pb_proofs b)))"
    "length (concat (map priv_outputs (pb_proofs b))) = 512" if "pb_root b = Some r" for r
  proof -
    have n: "length (pb_proofs b) = 64" using ok that by (simp add: pb_ok_def)
    then show "pb_is_full b" by (simp add: pb_is_full_def PRIV_TX_BATCH_SIZE_def)
    show "length (concat (map priv_outputs (pb_proofs b))) = 512"
      using length_concat_map_const [of "pb_proofs b" priv_outputs 8] n by simp
    show "r = spec_root (hash_output_hash P) BATCH_SUBTREE_DEPTH (concat (map priv_outputs (pb_proofs b)))"
      using ok that unfolding pb_ok_def by blast
  qed
  ultimately show ?thesis by blast
qed

theorem private_batch_invariant_witness:
  "length (pb_proofs (snd (pb_add_proof (demo_proof 73 ZERO_hash ZERO_hash) priv_batch_new))) \<le> PRIV_TX_BATCH_SIZE"
proof -
  have "pb_reach demo_hasher (demo_fake 73) (snd (pb_add_proof (demo_proof 73 ZERO_hash ZERO_hash) priv_batch_new))"
    by (rule pb_reach.add [OF pb_reach.new demo_zero_proof]) (rule prod.collapse [symmetric])
  from private_batch_invariant [OF this demo_pads] show ?thesis by simp
qed

text \<open>
  Adding a proof, on every branch, and its effect: a full or finalized batch and a mismatch of
  either common root are rejected without any change; otherwise the proof is appended and the call
  reports whether the batch is now full.
\<close>

theorem add_proof_all_branches:
  assumes "pb_reach P fake b" and "pads_ok 73 fake" and "proof_ok 73 p"
  shows "pb_add_proof p b =
    (if length (pb_proofs b) = 64 then (Inl (Err Batch_full), b)
     else if pb_root b \<noteq> None then (Inl (Err Batch_finalized), b)
     else if pb_proofs b \<noteq> [] \<and> act_root p \<noteq> act_root (hd (pb_proofs b)) then (Inl (Err Act_root_mismatch), b)
     else if pb_proofs b \<noteq> [] \<and> mainpool_config_root p \<noteq> mainpool_config_root (hd (pb_proofs b))
       then (Inl (Err Config_root_mismatch), b)
     else (Inr (length (pb_proofs b) = 63), b\<lparr>pb_proofs := pb_proofs b @ [p]\<rparr>))"
proof -
  have ok: "pb_ok P b" by (rule pb_reach_ok [OF assms(1,2)])
  have "length (pis (hd (pb_proofs b))) = 73" if "pb_proofs b \<noteq> []"
    using ok that by (simp add: pb_ok_def proof_ok_def)
  then show ?thesis
    using pb_add_proof_cases [OF ok assms(3)] assms(3)
    by (auto simp: pb_is_full_def pb_is_finalized_def PRIV_TX_BATCH_SIZE_def act_root_def
        mainpool_config_root_def proof_ok_def)
qed

theorem add_proof_all_branches_witness:
  "pb_add_proof (demo_proof 73 ZERO_hash ZERO_hash) priv_batch_new
    = (Inr False, priv_batch_new\<lparr>pb_proofs := [demo_proof 73 ZERO_hash ZERO_hash]\<rparr>)"
  using add_proof_all_branches [OF pb_reach.new demo_pads demo_zero_proof]
  by (simp add: priv_batch_new_def)

text \<open>
  Finalizing a non-empty batch succeeds whenever the padding transaction can be proved: the
  proofs already added stay in front, the batch is padded to 64 with copies of one proof that has
  the common roots, and the root is set. A second call is rejected and changes nothing.
\<close>

theorem finalize_completes:
  assumes "pb_reach P fake b" and "pads_ok 73 fake" and "pb_proofs b \<noteq> []" and "pb_root b = None"
    and "\<And>ar cr. \<exists>p. fake ar cr = Inr p"
  shows "\<exists>b' pad. pb_finalize P fake b = (Inr (), b') \<and> pb_proofs b' = pb_proofs b @ pad
    \<and> length (pb_proofs b') = 64 \<and> pb_root b' \<noteq> None \<and> (\<exists>q. set pad \<subseteq> {q})
    \<and> pb_finalize P fake b' = (Inl (Err Batch_finalized), b')"
proof -
  have ok: "pb_ok P b" by (rule pb_reach_ok [OF assms(1,2)])
  have hd: "proof_ok 73 (hd (pb_proofs b))" and len: "length (pb_proofs b) \<le> 64"
    using ok assms(3) by (simp_all add: pb_ok_def)
  obtain q where q: "fake (hash_at (hd (pb_proofs b)) 0) (hash_at (hd (pb_proofs b)) 4) = Inr q"
    using assms(5) by blast
  define pad where "pad = replicate (64 - length (pb_proofs b)) q"
  have pad: "pb_padding fake (pb_proofs b) = Inr pad" "set pad \<subseteq> {q}"
    using q by (auto simp: pb_padding_def pad_def)
  let ?b = "\<lparr>pb_proofs = pb_proofs b @ pad, pb_root = Some (spec_root (hash_output_hash P) BATCH_SUBTREE_DEPTH
    (concat (map priv_outputs (pb_proofs b @ pad))))\<rparr>"
  have run: "pb_finalize P fake b = (Inr (), ?b)"
    using pb_finalize_cases [OF ok assms(2)] assms(3,4) pad(1) by (simp add: pb_is_finalized_def)
  have ok': "pb_ok P ?b" by (rule pb_reach_ok [OF pb_reach.finalize [OF assms(1) run] assms(2)])
  have "pb_finalize P fake ?b = (Inl (Err Batch_finalized), ?b)"
    using pb_finalize_cases [OF ok' assms(2)] assms(3) by (simp add: pb_is_finalized_def)
  with run pad pb_padding_ok(1) [OF assms(2) pad(1) len hd] show ?thesis
    by (intro exI [of _ ?b] exI [of _ pad]) auto
qed

theorem finalize_completes_witness:
  "\<exists>b'. pb_finalize demo_hasher (demo_fake 73)
      (snd (pb_add_proof (demo_proof 73 ZERO_hash ZERO_hash) priv_batch_new)) = (Inr (), b')
    \<and> length (pb_proofs b') = 64"
proof -
  let ?b = "snd (pb_add_proof (demo_proof 73 ZERO_hash ZERO_hash) priv_batch_new)"
  have add: "pb_reach demo_hasher (demo_fake 73) ?b"
    by (rule pb_reach.add [OF pb_reach.new demo_zero_proof]) (rule prod.collapse [symmetric])
  have "pb_ok demo_hasher priv_batch_new" by (simp add: pb_ok_def priv_batch_new_def)
  from pb_add_proof_cases [OF this demo_zero_proof]
  have "pb_proofs ?b \<noteq> []" "pb_root ?b = None"
    by (simp_all add: priv_batch_new_def pb_is_full_def pb_is_finalized_def PRIV_TX_BATCH_SIZE_def)
  from finalize_completes [OF add demo_pads this] show ?thesis by (auto simp: demo_fake_def)
qed

text \<open>
  C1. From the server to the wallet: the preimage of a finalized batch is accepted by the sync
  service, and once the proof event of the batch is replayed, every output commitment of every
  proof in the batch has two verifying Merkle proofs that chain through the batch root to the root
  of the state tree, and the account nullifier and note nullifiers of every real transaction in the
  batch are confirmed. The only assumption on the hash is that node digests are canonical.
\<close>

theorem finalized_batch_syncs:
  assumes "pb_reach P fake b" and "pads_ok 73 fake" and "pb_root b = Some r"
    and "\<forall>es. length es = 8 \<longrightarrow> canonical_hash (P es)"
    and "state_ok P s" and "num_leaves (state_tree s) < 2 ^ depth (state_tree s)" and "pe_kind e = Transaction"
  shows "\<exists>pre s1 s2. pb_pi_preimage_bytes b = Inr pre \<and> apply_tx_preimage pre (pe_pi e) s = Inr s1
    \<and> replay_proven P rpc genesis search_to chunk e s1 = (Inr (), s2)
    \<and> leaves (state_tree s2) = leaves (state_tree s) @ [r]
    \<and> (\<forall>p \<in> set (pb_proofs b). \<exists>cs. output_commitments_priv p = Inr cs \<and> (\<forall>c \<in> set cs. \<exists>x y.
          get_commitment_status P s2 c = Inr (Commitment_Confirmed x y)
        \<and> verify_proof (hash_output_hash P) x \<and> verify_proof (hash_output_hash P) y
        \<and> proof_leaf x = c \<and> proof_root x = r \<and> proof_leaf y = r
        \<and> root (hash_output_hash P) (state_tree s2) = Inr (proof_root y)))
    \<and> (\<forall>p \<in> set (pb_proofs b). pis p ! 8 \<noteq> 0 \<longrightarrow> (\<exists>an nns. accin_nullifier p = Inr an
        \<and> input_note_nullifiers p = Inr nns \<and> (\<forall>n \<in> set (an # nns). get_nullifier_status s2 n = Nullifier_Confirmed)))"
proof -
  let ?ps = "pb_proofs b"
  have ok: "pb_ok P b" by (rule pb_reach_ok [OF assms(1,2)])
  have n: "length ?ps = 64" and pok: "\<forall>p \<in> set ?ps. proof_ok 73 p"
    and r: "r = spec_root (hash_output_hash P) BATCH_SUBTREE_DEPTH (concat (map priv_outputs ?ps))"
    using ok assms(3) unfolding pb_ok_def by blast+
  define pre where "pre = encode_fields (batch_fields r ?ps)"
  note dec = priv_batch_decodes [OF n pok pre_def]
  have enc: "pb_pi_preimage_bytes b = Inr pre"
  proof -
    have "?ps \<noteq> []" using n by auto
    moreover have "\<forall>p \<in> set ?ps. 8 \<le> length (pis p)" using pok by (auto simp: proof_ok_def)
    ultimately show ?thesis
      using pi_preimage_bytes_eq [of ?ps r] assms(3)
      by (simp add: pb_pi_preimage_bytes_def pb_commitments_subtree_root_def pre_def)
  qed
  have rc: "canonical_hash r" unfolding r by (rule subtree_root_canonical) (simp add: assms(4))
  have app: "apply_tx_preimage pre (pe_pi e) s = Inr (tx_applied pre (pe_pi e) s)"
    using dec(1,5) by (simp add: apply_tx_preimage_eq)
  have run: "replay_proven P rpc genesis search_to chunk e (tx_applied pre (pe_pi e) s)
      = confirm_batch P (pe_pi e) r (pe_new_tree_root e) (tx_applied pre (pe_pi e) s)"
    by (rule replay_pending) (use assms(7) dec(6) [OF rc] in simp_all)
  obtain s2 where s2: "confirm_batch P (pe_pi e) r (pe_new_tree_root e) (tx_applied pre (pe_pi e) s) = (Inr (), s2)"
    and st: "leaves (state_tree s2) = leaves (state_tree s) @ [r]"
      "\<forall>n \<in> set (tx_all_nullifiers pre). get_nullifier_status s2 n = Nullifier_Confirmed"
    using tx_applied_confirm_status [OF assms(5,6)] by blast
  have conf: "\<exists>cs. output_commitments_priv p = Inr cs \<and> (\<forall>c \<in> set cs. \<exists>x y.
          get_commitment_status P s2 c = Inr (Commitment_Confirmed x y)
        \<and> verify_proof (hash_output_hash P) x \<and> verify_proof (hash_output_hash P) y
        \<and> proof_leaf x = c \<and> proof_root x = r \<and> proof_leaf y = r
        \<and> root (hash_output_hash P) (state_tree s2) = Inr (proof_root y))" if "p \<in> set ?ps" for p
    using decoded_commitment_confirmed [OF n pok pre_def r assms(5,6) that, of _ "pe_pi e" "pe_new_tree_root e"]
      output_commitments_priv_ok [of p] pok that unfolding s2 snd_conv by blast
  have null: "\<exists>an nns. accin_nullifier p = Inr an \<and> input_note_nullifiers p = Inr nns
      \<and> (\<forall>n \<in> set (an # nns). get_nullifier_status s2 n = Nullifier_Confirmed)"
    if "p \<in> set ?ps" "pis p ! 8 \<noteq> 0" for p
    using decoded_nullifiers [OF n pok pre_def that] st(2) by (meson subsetD)
  show ?thesis
    by (intro exI [of _ pre] exI [of _ "tx_applied pre (pe_pi e) s"] exI [of _ s2] conjI ballI impI)
       (use enc app run s2 st(1) conf null in simp_all)
qed

theorem finalized_batch_syncs_witness:
  "\<exists>b r s pre s1 s2. sync_state_new demo_hasher 32 = Inr s \<and> pb_pi_preimage_bytes b = Inr pre
    \<and> apply_tx_preimage pre [1] s = Inr s1
    \<and> replay_proven demo_hasher demo_rpc 0 0 1
        \<lparr>pe_pi = [1], pe_new_tree_root = ZERO_hash, pe_leaf_index = 0, pe_kind = Transaction\<rparr> s1 = (Inr (), s2)
    \<and> leaves (state_tree s2) = [r]"
proof -
  let ?p = "demo_proof 73 ZERO_hash ZERO_hash"
  let ?e = "\<lparr>pe_pi = [1], pe_new_tree_root = ZERO_hash, pe_leaf_index = 0, pe_kind = Transaction\<rparr>"
  let ?b = "snd (pb_add_proof ?p priv_batch_new)"
  have add: "pb_reach demo_hasher (demo_fake 73) ?b"
    by (rule pb_reach.add [OF pb_reach.new demo_zero_proof]) (rule prod.collapse [symmetric])
  have "pb_ok demo_hasher priv_batch_new" by (simp add: pb_ok_def priv_batch_new_def)
  from pb_add_proof_cases [OF this demo_zero_proof] have b: "pb_proofs ?b = [?p]" "pb_root ?b = None"
    by (simp_all add: priv_batch_new_def pb_is_full_def pb_is_finalized_def PRIV_TX_BATCH_SIZE_def)
  have "pb_padding (demo_fake 73) (pb_proofs ?b) = Inr (replicate 63 ?p)"
    using demo_proof_ok [of 73 ZERO_hash ZERO_hash] by (simp add: b pb_padding_def demo_fake_def)
  then obtain b' r where fin: "pb_finalize demo_hasher (demo_fake 73) ?b = (Inr (), b')" "pb_root b' = Some r"
    using pb_finalize_cases [OF pb_reach_ok [OF add demo_pads_priv] demo_pads_priv] b by (simp add: pb_is_finalized_def)
  obtain s where s: "sync_state_new demo_hasher 32 = Inr s" "state_ok demo_hasher s"
    "state_tree s = canonical_tree (hash_output_hash demo_hasher) 32 []"
    by (rule sync_state_new_ok [of 32 demo_hasher]) auto
  have fits: "num_leaves (state_tree s) < 2 ^ depth (state_tree s)" using s(3) by (simp add: num_leaves_def)
  have kind: "pe_kind ?e = Transaction" by simp
  have canon: "\<forall>es. length es = 8 \<longrightarrow> canonical_hash (demo_hasher es)" by (simp add: demo_hasher_canonical)
  obtain pre s1 s2 where "pb_pi_preimage_bytes b' = Inr pre" "apply_tx_preimage pre (pe_pi ?e) s = Inr s1"
    "replay_proven demo_hasher demo_rpc 0 0 1 ?e s1 = (Inr (), s2)"
    "leaves (state_tree s2) = leaves (state_tree s) @ [r]"
    using finalized_batch_syncs [OF pb_reach.finalize [OF add fin(1)] demo_pads_priv fin(2)
        canon s(2) fits kind, of demo_rpc 0 0 1]
    by (elim exE conjE) simp
  moreover have "leaves (state_tree s) = []" using s(3) by simp
  ultimately show ?thesis using s(1) unfolding proven_batch_entry.select_convs by (metis append_Nil)
qed

end
