(* ===== verification/Priv_Tx_Circuit.thy ===== *)
theory Priv_Tx_Circuit
  imports Tx_Circuit_Builder Tx_Batch
begin

section \<open>The private transaction circuit\<close>

text \<open>
  \<^verbatim>\<open>doxa-client/src/plonky2_gadgets/priv_tx/circuit.rs\<close> with the public-input layout of
  \<^verbatim>\<open>targets.rs\<close>: one circuit for account creation, key updates and transfers, selected by flags.
  The wires the prover fills are the record \<open>tx_wires\<close>; \<open>priv_tx_circuit\<close> is the conjunction of the
  constraints in the order of the builder, and \<open>tx_public\<close> the values of the public targets.
  The theorems say what a satisfied circuit guarantees to a verifier that only sees the public
  inputs, that the server reads back what the circuit registered, and which checks the
  constraints leave out.
\<close>

record 's tx_wires =
  w_not_fake_tx :: bool
  w_is_fresh_acc :: bool
  w_is_update_auth :: bool
  w_is_priv_tx :: bool
  w_state_root :: hash_output
  w_mainpool_config_root :: hash_output
  w_approval_key :: pubkey
  w_asset_id :: felt
  w_accin_amt :: "felt list"
  w_asset_exists_in_accin :: bool
  w_accout_amt :: "felt list"
  w_asset_exists_in_accout :: bool
  w_accin :: account_target
  w_accout :: account_target
  w_accin_act_merkle :: merkle_wires
  w_accin_ast_merkle :: merkle_wires
  w_accout_ast_merkle :: merkle_wires
  w_inotes :: "note_target list"
  w_inotes_pos :: "felt list"
  w_inotes_isactive :: "bool list"
  w_onotes :: "note_target list"
  w_onotes_isactive :: "bool list"
  w_is_note_pair_rjct :: "bool list"
  w_dinotes :: "hash_output list"
  w_donotes :: "hash_output list"
  w_inotes_nct_merkle :: "merkle_wires list"
  w_lhs_sum :: "limb_wires list"
  w_rhs_sum :: "limb_wires list"
  w_main_pool_proof :: merkle_wires
  w_spend_sig :: 's
  w_consume_sig :: 's
  w_approval_sig :: 's

text \<open>The arities of the allocated arrays.\<close>

definition tx_arity :: "'s tx_wires \<Rightarrow> bool" where
  "tx_arity w \<longleftrightarrow>
     length (w_inotes w) = NOTE_BATCH \<and> length (w_inotes_pos w) = NOTE_BATCH
     \<and> length (w_inotes_isactive w) = NOTE_BATCH \<and> length (w_onotes w) = NOTE_BATCH
     \<and> length (w_onotes_isactive w) = NOTE_BATCH \<and> length (w_is_note_pair_rjct w) = NOTE_BATCH
     \<and> length (w_dinotes w) = NOTE_BATCH \<and> length (w_donotes w) = NOTE_BATCH
     \<and> length (w_accin_amt w) = 8 \<and> length (w_accout_amt w) = 8
     \<and> list_all (\<lambda>n. length (t_amount n) = 8) (w_inotes w @ w_onotes w)"

definition tx_nk :: "hasher \<Rightarrow> 's tx_wires \<Rightarrow> hash_output" where
  "tx_nk P w = derive_nullifier_key P (t_private_identifier (w_accin w))"

definition tx_accin_comm :: "hasher \<Rightarrow> 's tx_wires \<Rightarrow> hash_output" where
  "tx_accin_comm P w = derive_account_commitment P (w_accin w)"

definition tx_accin_null :: "hasher \<Rightarrow> 's tx_wires \<Rightarrow> hash_output" where
  "tx_accin_null P w = derive_account_nullifier P (tx_accin_comm P w) (tx_nk P w)"

definition tx_accout_comm :: "hasher \<Rightarrow> 's tx_wires \<Rightarrow> hash_output" where
  "tx_accout_comm P w = derive_account_commitment P (w_accout w)"

definition tx_inotes_null :: "hasher \<Rightarrow> 's tx_wires \<Rightarrow> hash_output list" where
  "tx_inotes_null P w =
     map (\<lambda>i. derive_note_nullifier P (derive_note_commitment P (w_inotes w ! i)) (w_inotes_pos w ! i) (tx_nk P w))
       [0..<NOTE_BATCH]"

definition effective_inotes_null :: "hasher \<Rightarrow> 's tx_wires \<Rightarrow> hash_output list" where
  "effective_inotes_null P w =
     map (\<lambda>i. select_hash (w_inotes_isactive w ! i) (tx_inotes_null P w ! i)
         (derive_dummy_note_nullifier P (w_dinotes w ! i))) [0..<NOTE_BATCH]"

definition derived_onotes_comm :: "hasher \<Rightarrow> 's tx_wires \<Rightarrow> hash_output list" where
  "derived_onotes_comm P w =
     map (\<lambda>i. select_hash (w_onotes_isactive w ! i) (derive_note_commitment P (w_onotes w ! i))
         (derive_dummy_note_commitment P (w_donotes w ! i))) [0..<NOTE_BATCH]"

definition circuit_tx_hash :: "hasher \<Rightarrow> 's tx_wires \<Rightarrow> hash_output" where
  "circuit_tx_hash P w =
     derive_tx_hash P (effective_inotes_null P w) (derived_onotes_comm P w) (tx_accin_null P w) (tx_accout_comm P w)"

definition priv_tx_circuit :: "hasher \<Rightarrow> 's sig_gadget \<Rightarrow> 's tx_wires \<Rightarrow> bool" where
  "priv_tx_circuit P S w \<longleftrightarrow>
     tx_arity w
     \<and> assert_fresh_account (w_accin w) (w_is_fresh_acc w)
     \<and> assert_account_invariants (w_accin w) (w_accout w) (w_is_fresh_acc w) (w_is_update_auth w) (w_is_priv_tx w)
     \<and> account_in_act P (tx_accin_comm P w) (w_state_root w)
         (\<not> w_is_fresh_acc w \<and> w_not_fake_tx w) (w_accin_act_merkle w)
     \<and> assert_ast_update P (w_asset_id w) (w_accin_amt w) (w_accout_amt w)
         (t_acc_ast_root (w_accin w)) (t_acc_ast_root (w_accout w))
         (w_asset_exists_in_accin w) (w_asset_exists_in_accout w) (w_accin_ast_merkle w) (w_accout_ast_merkle w)
     \<and> assert_reject_note_pairs (w_inotes w) (w_onotes w) (w_inotes_isactive w) (w_is_note_pair_rjct w)
     \<and> list_all (\<lambda>n. t_asset_id n = w_asset_id w) (w_inotes w @ w_onotes w)
     \<and> assert_inotes_valid P (w_inotes w) (w_inotes_isactive w) (map (derive_note_commitment P) (w_inotes w))
         (derive_public_identifier P (t_private_identifier (w_accin w))) (t_subpool_id (w_accin w))
         (w_state_root w) (w_inotes_nct_merkle w)
     \<and> assert_balance_invariant (w_accin_amt w) (w_accout_amt w) (w_inotes w) (w_onotes w)
         (w_inotes_isactive w) (w_onotes_isactive w) (w_lhs_sum w) (w_rhs_sum w)
     \<and> assert_subpool_full_proof P (t_subpool_id (w_accin w)) (w_approval_key w) (w_mainpool_config_root w)
         (w_not_fake_tx w) (w_main_pool_proof w)
     \<and> assert_tx_signatures S (circuit_tx_hash P w) (w_inotes_isactive w) (w_onotes_isactive w) (w_accin w)
         (w_approval_key w) (w_is_note_pair_rjct w) (w_not_fake_tx w)
         (w_spend_sig w) (w_consume_sig w) (w_approval_sig w)"

subsection \<open>Public inputs\<close>

record tx_public_targets =
  p_state_root :: hash_output
  p_mainpool_config_root :: hash_output
  p_not_fake_tx :: bool
  p_accin_null :: hash_output
  p_accout_comm :: hash_output
  p_inotes_null :: "hash_output list"
  p_onotes_comm :: "hash_output list"

definition tx_public :: "hasher \<Rightarrow> 's tx_wires \<Rightarrow> tx_public_targets" where
  "tx_public P w =
     \<lparr>p_state_root = w_state_root w, p_mainpool_config_root = w_mainpool_config_root w,
      p_not_fake_tx = w_not_fake_tx w, p_accin_null = tx_accin_null P w,
      p_accout_comm = tx_accout_comm P w, p_inotes_null = effective_inotes_null P w,
      p_onotes_comm = map (derive_dummy_note_commitment P) (w_donotes w)\<rparr>"

definition register_tx :: "tx_public_targets \<Rightarrow> felt list" where
  "register_tx t = elems (p_state_root t) @ elems (p_mainpool_config_root t) @ [bool_felt (p_not_fake_tx t)]
     @ elems (p_accin_null t) @ elems (p_accout_comm t)
     @ concat (map elems (p_inotes_null t)) @ concat (map elems (p_onotes_comm t))"

text \<open>Reading the public inputs of an inner proof back, in the aggregation circuit.\<close>

definition tx_from_pis :: "felt list \<Rightarrow> (unit, tx_public_targets) result" where
  "tx_from_pis ps =
     (if length ps < 17 + NOTE_BATCH * 4 + NOTE_BATCH * 4 then Inl (Panic Index_out_of_bounds)
      else Inr
       \<lparr>p_state_root = hash_of (slice_at ps 0 4), p_mainpool_config_root = hash_of (slice_at ps 4 4),
        p_not_fake_tx = (ps ! 8 = 1), p_accin_null = hash_of (slice_at ps 9 4),
        p_accout_comm = hash_of (slice_at ps 13 4),
        p_inotes_null = map (\<lambda>j. hash_of (slice_at (slice_at ps 17 (NOTE_BATCH * 4)) (j * 4) 4)) [0..<NOTE_BATCH],
        p_onotes_comm = map (\<lambda>j. hash_of (slice_at (slice_at ps 45 (NOTE_BATCH * 4)) (j * 4) 4)) [0..<NOTE_BATCH]\<rparr>)"

definition tx_output_commitments :: "tx_public_targets \<Rightarrow> hash_output list" where
  "tx_output_commitments t =
     map (\<lambda>j. if j = 0 then p_accout_comm t else p_onotes_comm t ! (j - 1)) [0..<1 + NOTE_BATCH]"

definition tx_unique_pi_targets :: "tx_public_targets \<Rightarrow> felt list" where
  "tx_unique_pi_targets t = [bool_felt (p_not_fake_tx t)] @ elems (p_accin_null t) @ elems (p_accout_comm t)
     @ concat (map elems (p_inotes_null t)) @ concat (map elems (p_onotes_comm t))"

subsection \<open>What the constraints say\<close>

lemma foldl_or: "foldl (\<lambda>req i. f i \<or> req) b xs \<longleftrightarrow> b \<or> (\<exists>i \<in> set xs. f i)"
  by (induction xs arbitrary: b) auto

lemma first_or_rest: "P 0 \<or> (\<exists>i \<in> set [1..<NOTE_BATCH]. P i) \<longleftrightarrow> (\<exists>i < NOTE_BATCH. P i)"
proof
  show "P 0 \<or> (\<exists>i \<in> set [1..<NOTE_BATCH]. P i) \<Longrightarrow> \<exists>i < NOTE_BATCH. P i"
    by (auto simp: NOTE_BATCH_def intro: exI [of _ 0])
  assume "\<exists>i < NOTE_BATCH. P i"
  then obtain i where "i < NOTE_BATCH" "P i" by blast
  then show "P 0 \<or> (\<exists>i \<in> set [1..<NOTE_BATCH]. P i)" by (cases "i = 0") auto
qed

lemma spend_required_iff:
  "spend_required oa rj \<longleftrightarrow> (\<exists>i < NOTE_BATCH. oa ! i \<and> \<not> rj ! i)"
  unfolding spend_required_def foldl_or first_or_rest [of "\<lambda>i. oa ! i \<and> \<not> rj ! i", symmetric] ..

lemma consume_required_iff:
  "consume_required ia oa rj \<longleftrightarrow> (\<exists>i < NOTE_BATCH. ia ! i) \<and> (\<forall>i < NOTE_BATCH. oa ! i \<longrightarrow> rj ! i)"
  unfolding consume_required_def foldl_or first_or_rest [of "\<lambda>i. ia ! i"] spend_required_iff by blast

lemma account_invariants [circuit_simps]:
  "assert_account_invariants a b fresh upd priv \<longleftrightarrow>
     t_private_identifier b = t_private_identifier a \<and> t_subpool_id b = t_subpool_id a
     \<and> t_nonce b = felt_add (t_nonce a) 1
     \<and> (\<not> priv \<longrightarrow> t_acc_ast_root b = t_acc_ast_root a)
     \<and> (priv \<longrightarrow> t_spend_auth b = t_spend_auth a \<and> t_consume_pk b = t_consume_pk a
          \<and> t_consume_config b = t_consume_config a)"
  by (auto simp: assert_account_invariants_def circuit_simps conditional_assert_eq_def)

lemma fresh_account [circuit_simps]:
  "assert_fresh_account acc c \<longleftrightarrow>
     (c \<longrightarrow> acc = \<lparr>t_private_identifier = t_private_identifier acc, t_nonce = 0, t_subpool_id = t_subpool_id acc,
        t_acc_ast_root = AST_DEFAULT_ROOT, t_spend_auth = DEFAULT_SPEND_AUTH_PK, t_consume_config = False,
        t_consume_pk = DEFAULT_ACC_COMM_CONSUME_PK_PLACEHOLDER\<rparr>)"
  by (cases acc) (auto simp: assert_fresh_account_def circuit_simps conditional_assert_eq_def)

lemma reject_pair [circuit_simps]:
  assumes "length (t_amount a) = 8" "length (t_amount b) = 8"
  shows "assert_reject_pair a b active rj \<longleftrightarrow>
     (rj \<longrightarrow> active \<and> b = a\<lparr>t_recipient := t_sender a\<rparr>)"
  using assms
  by (cases rj; cases a; cases b)
     (auto simp: assert_reject_pair_def circuit_simps conditional_assert_eq_def prod_eq_iff)

lemma circuit_parts:
  assumes "priv_tx_circuit P S w"
  shows "tx_arity w" "assert_fresh_account (w_accin w) (w_is_fresh_acc w)"
    "assert_account_invariants (w_accin w) (w_accout w) (w_is_fresh_acc w) (w_is_update_auth w) (w_is_priv_tx w)"
    "account_in_act P (tx_accin_comm P w) (w_state_root w)
         (\<not> w_is_fresh_acc w \<and> w_not_fake_tx w) (w_accin_act_merkle w)"
    "assert_ast_update P (w_asset_id w) (w_accin_amt w) (w_accout_amt w)
         (t_acc_ast_root (w_accin w)) (t_acc_ast_root (w_accout w))
         (w_asset_exists_in_accin w) (w_asset_exists_in_accout w) (w_accin_ast_merkle w) (w_accout_ast_merkle w)"
    "assert_reject_note_pairs (w_inotes w) (w_onotes w) (w_inotes_isactive w) (w_is_note_pair_rjct w)"
    "list_all (\<lambda>n. t_asset_id n = w_asset_id w) (w_inotes w @ w_onotes w)"
    "assert_inotes_valid P (w_inotes w) (w_inotes_isactive w) (map (derive_note_commitment P) (w_inotes w))
         (derive_public_identifier P (t_private_identifier (w_accin w))) (t_subpool_id (w_accin w))
         (w_state_root w) (w_inotes_nct_merkle w)"
    "assert_balance_invariant (w_accin_amt w) (w_accout_amt w) (w_inotes w) (w_onotes w)
         (w_inotes_isactive w) (w_onotes_isactive w) (w_lhs_sum w) (w_rhs_sum w)"
    "assert_subpool_full_proof P (t_subpool_id (w_accin w)) (w_approval_key w) (w_mainpool_config_root w)
         (w_not_fake_tx w) (w_main_pool_proof w)"
    "assert_tx_signatures S (circuit_tx_hash P w) (w_inotes_isactive w) (w_onotes_isactive w) (w_accin w)
         (w_approval_key w) (w_is_note_pair_rjct w) (w_not_fake_tx w)
         (w_spend_sig w) (w_consume_sig w) (w_approval_sig w)"
  using assms unfolding priv_tx_circuit_def by blast+

text \<open>A digest opens a root when some path of the given depth leads from one to the other.\<close>

definition opens :: "hasher \<Rightarrow> hash_output \<Rightarrow> hash_output \<Rightarrow> nat \<Rightarrow> bool" where
  "opens P lf rt d \<longleftrightarrow> (\<exists>bits sibs. length bits = d \<and> length sibs = d
     \<and> fold_path (hash_output_hash P) lf bits sibs = rt)"

lemma verify_opens: "conditional_merkle_verify_gadget P lf rt True d w \<Longrightarrow> opens P lf rt d"
  by (auto simp: conditional_merkle opens_def)

lemma inote_path:
  assumes "assert_inotes_valid P inotes active comms pid sid rt ws" and "i < NOTE_BATCH"
  shows "conditional_merkle_verify_gadget P (comms ! i) rt (active ! i) STATE_TREE_DEPTH (ws ! i)"
  using assms by (auto simp: assert_inotes_valid_def list_all_iff)

lemma effective_inotes_null_nth:
  assumes "i < NOTE_BATCH"
  shows "effective_inotes_null P w ! i =
    (if w_inotes_isactive w ! i
     then derive_note_nullifier P (derive_note_commitment P (w_inotes w ! i)) (w_inotes_pos w ! i) (tx_nk P w)
     else double_hash P (w_dinotes w ! i))"
  using assms by (simp add: effective_inotes_null_def tx_inotes_null_def select_hash derive_dummy_note_nullifier_def)

subsection \<open>Balance\<close>

definition active_total :: "note_target list \<Rightarrow> bool list \<Rightarrow> nat" where
  "active_total ns active = sum_list (map (\<lambda>i. if active ! i then limbs_value (t_amount (ns ! i)) else 0) [0..<NOTE_BATCH])"

lemma select_limbs: "length ls = 8 \<Longrightarrow> map (\<lambda>j. select_felt b (ls ! j) 0) [0..<8] = (if b then ls else replicate 8 0)"
  by (rule nth_equalityI) (auto simp: select_felt_def)

lemma zero_limbs: "u256_wire (replicate 8 0)" "limbs_value (replicate 8 0) = 0"
proof -
  have "dvalue b (map unat (replicate n (0 :: felt))) = 0" for b n by (induction n) simp_all
  then show "limbs_value (replicate 8 0) = 0" by (simp only: limbs_value_def)
qed (simp add: u256_wire_def list_all_iff)

lemma active_amounts_value:
  assumes "length ns = NOTE_BATCH" "list_all (\<lambda>n. u256_wire (t_amount n)) ns"
  shows "list_all u256_wire (active_amounts ns active)"
    "sum_list (map limbs_value (active_amounts ns active)) = active_total ns active"
    "length (active_amounts ns active) = NOTE_BATCH"
proof -
  have e: "active_amounts ns active ! i = (if active ! i then t_amount (ns ! i) else replicate 8 0)"
    if "i < NOTE_BATCH" for i
    using that assms u256_wireD(1) by (simp add: active_amounts_def select_limbs list_all_iff del: upt_Suc)
  show l: "length (active_amounts ns active) = NOTE_BATCH" by (simp add: active_amounts_def)
  show "list_all u256_wire (active_amounts ns active)"
    using e l assms zero_limbs(1) by (auto simp: list_all_length)
  have "map limbs_value (active_amounts ns active) =
      map (\<lambda>i. if active ! i then limbs_value (t_amount (ns ! i)) else 0) [0..<NOTE_BATCH]"
    using e l zero_limbs(2) by (intro nth_equalityI) (auto simp del: upt_Suc)
  then show "sum_list (map limbs_value (active_amounts ns active)) = active_total ns active"
    by (simp only: active_total_def)
qed

lemma balance_iff:
  "assert_balance_invariant accin accout inotes onotes ia oa lw rw \<longleftrightarrow>
     limb_steps byte_lut (columns accin (active_amounts inotes ia)) 0 lw
     \<and> limb_steps byte_lut (columns accout (active_amounts onotes oa)) 0 rw
     \<and> connect_u256 (map limb_result lw) (map limb_result rw)"
  by (simp add: assert_balance_invariant_def u8_table u256_addition_chain_def)

lemma connect_u256_eq: "length a = length b \<Longrightarrow> connect_u256 a b \<longleftrightarrow> a = b"
  by (auto simp: connect_u256_def list_all_iff list_eq_iff_nth_eq set_zip)

lemma balance_forge: "\<exists>lw rw. assert_balance_invariant accin accout inotes onotes ia oa lw rw"
proof -
  let ?z = "replicate 8 (0 :: felt)"
  have z: "length ?z = length (columns a b)" "list_all (\<lambda>l. unat l < 2 ^ 32) ?z" for a b
    by (simp_all add: list_all_iff)
  obtain lw where lw: "limb_steps byte_lut (columns accin (active_amounts inotes ia)) 0 lw" "map limb_result lw = ?z"
    using limb_steps_forge [OF z] by blast
  obtain rw where "limb_steps byte_lut (columns accout (active_amounts onotes oa)) 0 rw" "map limb_result rw = ?z"
    using limb_steps_forge [OF z] by blast
  with lw have "assert_balance_invariant accin accout inotes onotes ia oa lw rw"
    by (simp add: balance_iff connect_u256_eq)
  then show ?thesis by blast
qed

subsection \<open>A transaction that creates value\<close>

definition zero_path :: "nat \<Rightarrow> merkle_wires" where
  "zero_path d = merkle_set_dummy_witness d"

definition zero_path_root :: "hasher \<Rightarrow> hash_output \<Rightarrow> nat \<Rightarrow> hash_output" where
  "zero_path_root P lf d = fold_path (hash_output_hash P) lf (replicate d False) (replicate d ZERO_hash)"

definition mint_account :: "hasher \<Rightarrow> account_target" where
  "mint_account P =
     \<lparr>t_private_identifier = (1, 2), t_nonce = 1, t_subpool_id = 1,
      t_acc_ast_root = zero_path_root P ZERO_hash ACC_AST_DEPTH, t_spend_auth = DEFAULT_SPEND_AUTH_PK,
      t_consume_config = False, t_consume_pk = DEFAULT_ACC_COMM_CONSUME_PK_PLACEHOLDER\<rparr>"

definition mint_wires :: "hasher \<Rightarrow> u256 \<Rightarrow> limb_wires list \<Rightarrow> limb_wires list \<Rightarrow> unit tx_wires" where
  "mint_wires P v lw rw =
     (let acc = mint_account P;
          owner = \<lparr>addr_subpool_id = 1, addr_public_id = derive_public_identifier P (1, 2)\<rparr> in
      \<lparr>w_not_fake_tx = True, w_is_fresh_acc = False, w_is_update_auth = False, w_is_priv_tx = True,
       w_state_root = zero_path_root P (derive_account_commitment P acc) STATE_TREE_DEPTH,
       w_mainpool_config_root = zero_path_root P
         (P ([1, 0, 0, 0] @ elems (P (pk_elems DEFAULT_SPEND_AUTH_PK)))) MAIN_POOL_CONFIG_DEPTH,
       w_approval_key = DEFAULT_SPEND_AUTH_PK, w_asset_id = 5,
       w_accin_amt = replicate 8 0, w_asset_exists_in_accin = False,
       w_accout_amt = replicate 8 0, w_asset_exists_in_accout = False,
       w_accin = acc, w_accout = acc\<lparr>t_nonce := felt_add 1 1\<rparr>,
       w_accin_act_merkle = zero_path STATE_TREE_DEPTH,
       w_accin_ast_merkle = zero_path ACC_AST_DEPTH, w_accout_ast_merkle = zero_path ACC_AST_DEPTH,
       w_inotes = replicate NOTE_BATCH (set_dummy_inote 5 owner), w_inotes_pos = replicate NOTE_BATCH 0,
       w_inotes_isactive = replicate NOTE_BATCH False,
       w_onotes = replicate NOTE_BATCH ((set_dummy_onote 5)\<lparr>t_amount := u256_limbs v\<rparr>),
       w_onotes_isactive = True # replicate (NOTE_BATCH - 1) False,
       w_is_note_pair_rjct = replicate NOTE_BATCH False,
       w_dinotes = replicate NOTE_BATCH ZERO_hash, w_donotes = replicate NOTE_BATCH ZERO_hash,
       w_inotes_nct_merkle = replicate NOTE_BATCH (zero_path STATE_TREE_DEPTH),
       w_lhs_sum = lw, w_rhs_sum = rw, w_main_pool_proof = zero_path MAIN_POOL_CONFIG_DEPTH,
       w_spend_sig = (), w_consume_sig = (), w_approval_sig = ()\<rparr>)"

lemma zero_path_simps [simp]:
  "length (mw_siblings (zero_path d)) = d" "length (mw_bits (zero_path d)) = d"
  "fold_path (hash_output_hash P) lf (mw_bits (zero_path d)) (mw_siblings (zero_path d)) = zero_path_root P lf d"
  by (simp_all add: zero_path_def merkle_set_dummy_witness_def zero_path_root_def)

lemma mint_accepted:
  assumes "assert_balance_invariant (w_accin_amt w) (w_accout_amt w) (w_inotes w) (w_onotes w)
      (w_inotes_isactive w) (w_onotes_isactive w) lw rw" and w: "w = mint_wires P v lw rw"
  shows "priv_tx_circuit P (\<lambda>_ _ _ _. True) w"
proof -
  have acc: "w_accin w = mint_account P" "w_accout w = (mint_account P)\<lparr>t_nonce := felt_add 1 1\<rparr>"
    by (simp_all add: w mint_wires_def Let_def)
  have "tx_arity w"
    by (auto simp: w mint_wires_def Let_def tx_arity_def set_dummy_inote_def set_dummy_onote_def
        U256Target_set_limbs list_all_iff) (simp add: NOTE_BATCH_def)
  moreover have "assert_fresh_account (w_accin w) (w_is_fresh_acc w)"
    "assert_account_invariants (w_accin w) (w_accout w) (w_is_fresh_acc w) (w_is_update_auth w) (w_is_priv_tx w)"
    by (simp_all add: w mint_wires_def Let_def circuit_simps mint_account_def)
  moreover have "account_in_act P (tx_accin_comm P w) (w_state_root w)
      (\<not> w_is_fresh_acc w \<and> w_not_fake_tx w) (w_accin_act_merkle w)"
    by (simp add: w mint_wires_def Let_def account_in_act_def conditional_merkle tx_accin_comm_def)
  moreover have "assert_ast_update P (w_asset_id w) (w_accin_amt w) (w_accout_amt w)
      (t_acc_ast_root (w_accin w)) (t_acc_ast_root (w_accout w))
      (w_asset_exists_in_accin w) (w_asset_exists_in_accout w) (w_accin_ast_merkle w) (w_accout_ast_merkle w)"
    by (simp add: w mint_wires_def Let_def ast_update asset_in_ast mint_account_def)
  moreover have "assert_reject_note_pairs (w_inotes w) (w_onotes w) (w_inotes_isactive w) (w_is_note_pair_rjct w)"
    by (simp add: w mint_wires_def Let_def assert_reject_note_pairs_def list_all_iff reject_pair
        set_dummy_inote_def set_dummy_onote_def U256Target_set_limbs)
  moreover have "list_all (\<lambda>n. t_asset_id n = w_asset_id w) (w_inotes w @ w_onotes w)"
    by (auto simp: w mint_wires_def Let_def list_all_iff set_dummy_inote_def set_dummy_onote_def)
  moreover have "assert_inotes_valid P (w_inotes w) (w_inotes_isactive w) (map (derive_note_commitment P) (w_inotes w))
      (derive_public_identifier P (t_private_identifier (w_accin w))) (t_subpool_id (w_accin w))
      (w_state_root w) (w_inotes_nct_merkle w)"
    by (simp add: w mint_wires_def Let_def assert_inotes_valid_def list_all_iff conditional_merkle
        set_dummy_inote_def mint_account_def)
  moreover have "assert_subpool_full_proof P (t_subpool_id (w_accin w)) (w_approval_key w) (w_mainpool_config_root w)
      (w_not_fake_tx w) (w_main_pool_proof w)"
    by (simp add: w mint_wires_def Let_def assert_subpool_full_proof_def conditional_merkle mint_account_def)
  moreover have "w_lhs_sum w = lw" "w_rhs_sum w = rw" by (simp_all add: w mint_wires_def Let_def)
  ultimately show ?thesis using assms(1) by (simp add: priv_tx_circuit_def assert_tx_signatures_def)
qed

subsection \<open>Reading the public inputs back\<close>

lemma register_slices:
  assumes "length (p_inotes_null t) = NOTE_BATCH" "length (p_onotes_comm t) = NOTE_BATCH"
  defines "ps \<equiv> register_tx t"
  shows "length ps = 73" "slice_at ps 0 4 = elems (p_state_root t)" "slice_at ps 4 4 = elems (p_mainpool_config_root t)"
    "ps ! 8 = bool_felt (p_not_fake_tx t)" "slice_at ps 9 4 = elems (p_accin_null t)"
    "slice_at ps 13 4 = elems (p_accout_comm t)"
    "\<And>j. j < NOTE_BATCH \<Longrightarrow> slice_at ps (17 + j * 4) 4 = elems (p_inotes_null t ! j)"
    "\<And>j. j < NOTE_BATCH \<Longrightarrow> slice_at ps (45 + j * 4) 4 = elems (p_onotes_comm t ! j)"
proof -
  define h where "h = elems (p_state_root t) @ elems (p_mainpool_config_root t) @ [bool_felt (p_not_fake_tx t)]
     @ elems (p_accin_null t) @ elems (p_accout_comm t)"
  define x y where "x = concat (map elems (p_inotes_null t))" and "y = concat (map elems (p_onotes_comm t))"
  have ps: "ps = h @ x @ y" by (simp add: ps_def register_tx_def h_def x_def y_def)
  have l: "length h = 17" "length x = 28" "length y = 28"
    using length_concat_map_const [of "p_inotes_null t" elems 4] length_concat_map_const [of "p_onotes_comm t" elems 4]
      assms(1,2) by (simp_all add: h_def x_def y_def NOTE_BATCH_def)
  show "length ps = 73" by (simp add: ps l)
  show "slice_at ps 0 4 = elems (p_state_root t)" "slice_at ps 4 4 = elems (p_mainpool_config_root t)"
    "ps ! 8 = bool_felt (p_not_fake_tx t)" "slice_at ps 9 4 = elems (p_accin_null t)"
    "slice_at ps 13 4 = elems (p_accout_comm t)"
    unfolding ps by (simp_all add: l) (simp_all add: h_def nth_append slice_at_def drop_Cons')
  fix j assume j: "j < NOTE_BATCH"
  then have "j * 4 + 4 \<le> 28" by (simp add: NOTE_BATCH_def)
  then show "slice_at ps (17 + j * 4) 4 = elems (p_inotes_null t ! j)"
    using slice_concat_map [of j "p_inotes_null t" elems 4] j assms(1) by (simp add: ps l flip: x_def)
  have "slice_at ((h @ x) @ y) (45 + j * 4) 4 = slice_at y (45 + j * 4 - length (h @ x)) 4"
    by (rule slice_append_skip) (simp add: l)
  then show "slice_at ps (45 + j * 4) 4 = elems (p_onotes_comm t ! j)"
    using slice_concat_map [of j "p_onotes_comm t" elems 4] j assms(2) by (simp add: ps l flip: y_def)
qed

lemma from_fn_hashes:
  assumes "\<And>j. j < n \<Longrightarrow> slice_at (pis p) (b + j * 4) 4 = elems (hs ! j)" "b + n * 4 \<le> length (pis p)" "length hs = n"
  shows "from_fn n (\<lambda>i. pi_hash p (b + i * 4)) = Inr hs"
proof -
  have "from_fn n (\<lambda>i. pi_hash p (b + i * 4)) = Inr (map (\<lambda>i. hs ! i) [0..<n])"
  proof (rule from_fn_ok)
    fix i assume "i < n"
    with assms(1) [of i] assms(2) show "pi_hash p (b + i * 4) = Inr (hs ! i)" by (simp add: pi_hash_def)
  qed
  then show ?thesis using assms(3) map_nth [of hs] by simp
qed

subsection \<open>Properties\<close>

text \<open>
  C14. What a satisfied circuit proves about the account: the published nullifier and commitment
  are those of the input and output account; the output account keeps the private identifier
  and the subpool and counts the nonce up by one; a fresh input account is in the default state;
  the input account of any other real transaction has a commitment that opens the published
  state root; a transfer keeps both keys, everything else keeps the asset root; and both asset
  roots are reached along one path of siblings.
\<close>

theorem priv_tx_account_transition:
  assumes "priv_tx_circuit P S w"
  shows "p_accin_null (tx_public P w) = derive_account_nullifier P (derive_account_commitment P (w_accin w))
        (derive_nullifier_key P (t_private_identifier (w_accin w)))
    \<and> p_accout_comm (tx_public P w) = derive_account_commitment P (w_accout w)
    \<and> t_private_identifier (w_accout w) = t_private_identifier (w_accin w)
    \<and> t_subpool_id (w_accout w) = t_subpool_id (w_accin w)
    \<and> t_nonce (w_accout w) = felt_add (t_nonce (w_accin w)) 1
    \<and> (w_is_fresh_acc w \<longrightarrow> t_nonce (w_accin w) = 0 \<and> t_acc_ast_root (w_accin w) = AST_DEFAULT_ROOT
        \<and> t_spend_auth (w_accin w) = DEFAULT_SPEND_AUTH_PK \<and> \<not> t_consume_config (w_accin w)
        \<and> t_consume_pk (w_accin w) = DEFAULT_ACC_COMM_CONSUME_PK_PLACEHOLDER)
    \<and> (w_not_fake_tx w \<and> \<not> w_is_fresh_acc w \<longrightarrow>
        opens P (derive_account_commitment P (w_accin w)) (p_state_root (tx_public P w)) STATE_TREE_DEPTH)
    \<and> (if w_is_priv_tx w
       then t_spend_auth (w_accout w) = t_spend_auth (w_accin w) \<and> t_consume_pk (w_accout w) = t_consume_pk (w_accin w)
         \<and> t_consume_config (w_accout w) = t_consume_config (w_accin w)
       else t_acc_ast_root (w_accout w) = t_acc_ast_root (w_accin w))
    \<and> (\<exists>bits sibs. length bits = ACC_AST_DEPTH \<and> length sibs = ACC_AST_DEPTH
        \<and> fold_path (hash_output_hash P) (ast_leaf_circuit P (w_asset_id w) (w_accin_amt w) (w_asset_exists_in_accin w))
            bits sibs = t_acc_ast_root (w_accin w)
        \<and> fold_path (hash_output_hash P) (ast_leaf_circuit P (w_asset_id w) (w_accout_amt w) (w_asset_exists_in_accout w))
            bits sibs = t_acc_ast_root (w_accout w))"
proof -
  note c = circuit_parts [OF assms]
  have "w_not_fake_tx w \<and> \<not> w_is_fresh_acc w \<Longrightarrow>
      opens P (derive_account_commitment P (w_accin w)) (w_state_root w) STATE_TREE_DEPTH"
    using c(4) verify_opens by (simp add: account_in_act_def tx_accin_comm_def)
  moreover have "w_is_fresh_acc w \<Longrightarrow> t_nonce (w_accin w) = 0 \<and> t_acc_ast_root (w_accin w) = AST_DEFAULT_ROOT
      \<and> t_spend_auth (w_accin w) = DEFAULT_SPEND_AUTH_PK \<and> \<not> t_consume_config (w_accin w)
      \<and> t_consume_pk (w_accin w) = DEFAULT_ACC_COMM_CONSUME_PK_PLACEHOLDER"
    using c(2) by (simp add: assert_fresh_account_def circuit_simps conditional_assert_eq_def)
  moreover have "\<exists>bits sibs. length bits = ACC_AST_DEPTH \<and> length sibs = ACC_AST_DEPTH
      \<and> fold_path (hash_output_hash P) (ast_leaf_circuit P (w_asset_id w) (w_accin_amt w) (w_asset_exists_in_accin w))
          bits sibs = t_acc_ast_root (w_accin w)
      \<and> fold_path (hash_output_hash P) (ast_leaf_circuit P (w_asset_id w) (w_accout_amt w) (w_asset_exists_in_accout w))
          bits sibs = t_acc_ast_root (w_accout w)"
    using ast_constraint_paths [OF c(5)] by blast
  moreover note c(3) [unfolded account_invariants]
  ultimately show ?thesis
    by (simp add: tx_public_def tx_accin_null_def tx_accin_comm_def tx_nk_def tx_accout_comm_def)
qed

lemma mint_exists: "\<exists>lw rw. priv_tx_circuit P (\<lambda>_ _ _ _. True) (mint_wires P v lw rw)"
proof -
  define w where "w = mint_wires P v"
  obtain lw rw where "assert_balance_invariant (w_accin_amt (w [] [])) (w_accout_amt (w [] []))
      (w_inotes (w [] [])) (w_onotes (w [] [])) (w_inotes_isactive (w [] [])) (w_onotes_isactive (w [] [])) lw rw"
    using balance_forge by blast
  then have "priv_tx_circuit P (\<lambda>_ _ _ _. True) (w lw rw)"
    by (intro mint_accepted [of "w lw rw" lw rw P v]) (simp_all add: w_def mint_wires_def Let_def)
  then show ?thesis unfolding w_def by blast
qed

theorem priv_tx_account_transition_witness:
  "\<exists>lw rw. priv_tx_circuit demo_hasher (\<lambda>_ _ _ _. True) (mint_wires demo_hasher 1 lw rw)
    \<and> opens demo_hasher (derive_account_commitment demo_hasher (mint_account demo_hasher))
        (p_state_root (tx_public demo_hasher (mint_wires demo_hasher 1 lw rw))) STATE_TREE_DEPTH"
proof -
  obtain lw rw where ok: "priv_tx_circuit demo_hasher (\<lambda>_ _ _ _. True) (mint_wires demo_hasher 1 lw rw)"
    using mint_exists by blast
  have "w_not_fake_tx (mint_wires demo_hasher 1 lw rw)" "\<not> w_is_fresh_acc (mint_wires demo_hasher 1 lw rw)"
    "w_accin (mint_wires demo_hasher 1 lw rw) = mint_account demo_hasher"
    by (simp_all add: mint_wires_def Let_def)
  with priv_tx_account_transition [OF ok] ok show ?thesis by metis
qed

text \<open>
  C15. What a satisfied circuit proves about notes and authority: every active input note belongs
  to the account, has the transaction's asset and opens the published state root, and its
  published nullifier is bound to its commitment and the account's nullifier key; a rejected
  pair consumes an active note and returns exactly that note to its sender; a real transaction
  carries an approval over its hash by a key registered for the subpool under the published
  configuration root; an active output note that is not a rejection needs the spend signature
  of the input account, and a pure consumption by an account with its own consume key needs that
  key's signature.
\<close>

theorem priv_tx_notes_and_authority:
  assumes "priv_tx_circuit P S w"
  shows "(\<forall>i < NOTE_BATCH. w_inotes_isactive w ! i \<longrightarrow>
        opens P (derive_note_commitment P (w_inotes w ! i)) (p_state_root (tx_public P w)) STATE_TREE_DEPTH
        \<and> t_asset_id (w_inotes w ! i) = w_asset_id w
        \<and> t_recipient (w_inotes w ! i) = \<lparr>addr_subpool_id = t_subpool_id (w_accin w),
            addr_public_id = derive_public_identifier P (t_private_identifier (w_accin w))\<rparr>
        \<and> p_inotes_null (tx_public P w) ! i = derive_note_nullifier P (derive_note_commitment P (w_inotes w ! i))
            (w_inotes_pos w ! i) (derive_nullifier_key P (t_private_identifier (w_accin w))))
    \<and> (\<forall>i < NOTE_BATCH. w_is_note_pair_rjct w ! i \<longrightarrow> w_inotes_isactive w ! i
        \<and> w_onotes w ! i = (w_inotes w ! i)\<lparr>t_recipient := t_sender (w_inotes w ! i)\<rparr>)
    \<and> (w_not_fake_tx w \<longrightarrow> S True (circuit_tx_hash P w) (w_approval_key w) (w_approval_sig w)
        \<and> opens P (P ([t_subpool_id (w_accin w), 0, 0, 0] @ elems (P (pk_elems (w_approval_key w)))))
            (p_mainpool_config_root (tx_public P w)) MAIN_POOL_CONFIG_DEPTH)
    \<and> ((\<exists>i < NOTE_BATCH. w_onotes_isactive w ! i \<and> \<not> w_is_note_pair_rjct w ! i) \<longrightarrow>
        S True (circuit_tx_hash P w) (t_spend_auth (w_accin w)) (w_spend_sig w))
    \<and> ((\<exists>i < NOTE_BATCH. w_inotes_isactive w ! i) \<and> t_consume_config (w_accin w)
        \<and> (\<forall>i < NOTE_BATCH. w_onotes_isactive w ! i \<longrightarrow> w_is_note_pair_rjct w ! i) \<longrightarrow>
        S True (circuit_tx_hash P w) (t_consume_pk (w_accin w)) (w_consume_sig w))"
proof (intro conjI allI impI)
  note c = circuit_parts [OF assms]
  have len: "length (w_inotes w) = NOTE_BATCH" "length (w_onotes w) = NOTE_BATCH"
    "\<forall>n \<in> set (w_inotes w). length (t_amount n) = 8" "\<forall>n \<in> set (w_onotes w). length (t_amount n) = 8"
    using c(1) by (auto simp: tx_arity_def list_all_iff)
  fix i assume i: "i < NOTE_BATCH"
  show "opens P (derive_note_commitment P (w_inotes w ! i)) (p_state_root (tx_public P w)) STATE_TREE_DEPTH"
    if "w_inotes_isactive w ! i"
  proof -
    have "conditional_merkle_verify_gadget P (derive_note_commitment P (w_inotes w ! i)) (w_state_root w) True
        STATE_TREE_DEPTH (w_inotes_nct_merkle w ! i)"
      using inote_path [OF c(8) i] that i len(1) by simp
    then show ?thesis using verify_opens by (simp add: tx_public_def)
  qed
  have mem: "w_inotes w ! i \<in> set (w_inotes w)" "w_onotes w ! i \<in> set (w_onotes w)" using i len by simp_all
  show "t_asset_id (w_inotes w ! i) = w_asset_id w"
    using c(7) mem by (simp add: list_all_iff)
  show "t_recipient (w_inotes w ! i) = \<lparr>addr_subpool_id = t_subpool_id (w_accin w),
      addr_public_id = derive_public_identifier P (t_private_identifier (w_accin w))\<rparr>"
    using c(8) mem by (cases "t_recipient (w_inotes w ! i)") (force simp: assert_inotes_valid_def list_all_iff)
  show "p_inotes_null (tx_public P w) ! i = derive_note_nullifier P (derive_note_commitment P (w_inotes w ! i))
      (w_inotes_pos w ! i) (derive_nullifier_key P (t_private_identifier (w_accin w)))" if "w_inotes_isactive w ! i"
    using that effective_inotes_null_nth [OF i, of P w] by (simp add: tx_public_def tx_nk_def)
  have pair: "assert_reject_pair (w_inotes w ! i) (w_onotes w ! i) (w_inotes_isactive w ! i) (w_is_note_pair_rjct w ! i)"
    using c(6) i by (simp add: assert_reject_note_pairs_def list_all_iff)
  show "w_inotes_isactive w ! i" "w_onotes w ! i = (w_inotes w ! i)\<lparr>t_recipient := t_sender (w_inotes w ! i)\<rparr>"
    if "w_is_note_pair_rjct w ! i"
    using pair that mem len reject_pair [of "w_inotes w ! i" "w_onotes w ! i"] by simp_all
next
  note c = circuit_parts [OF assms]
  show "S True (circuit_tx_hash P w) (w_approval_key w) (w_approval_sig w)" if "w_not_fake_tx w"
    using c(11) that by (simp add: assert_tx_signatures_def)
  show "opens P (P ([t_subpool_id (w_accin w), 0, 0, 0] @ elems (P (pk_elems (w_approval_key w)))))
      (p_mainpool_config_root (tx_public P w)) MAIN_POOL_CONFIG_DEPTH" if "w_not_fake_tx w"
    using c(10) that verify_opens by (simp add: assert_subpool_full_proof_def tx_public_def)
  show "S True (circuit_tx_hash P w) (t_spend_auth (w_accin w)) (w_spend_sig w)"
    if "\<exists>i < NOTE_BATCH. w_onotes_isactive w ! i \<and> \<not> w_is_note_pair_rjct w ! i"
    using c(11) that by (simp add: assert_tx_signatures_def spend_required_iff)
  show "S True (circuit_tx_hash P w) (t_consume_pk (w_accin w)) (w_consume_sig w)"
    if "(\<exists>i < NOTE_BATCH. w_inotes_isactive w ! i) \<and> t_consume_config (w_accin w)
      \<and> (\<forall>i < NOTE_BATCH. w_onotes_isactive w ! i \<longrightarrow> w_is_note_pair_rjct w ! i)"
    using c(11) that by (simp add: assert_tx_signatures_def consume_required_iff)
qed

theorem priv_tx_notes_and_authority_witness:
  "\<exists>lw rw. priv_tx_circuit demo_hasher (\<lambda>_ _ _ _. True) (mint_wires demo_hasher 1 lw rw)
    \<and> opens demo_hasher (demo_hasher ([1, 0, 0, 0] @ elems (demo_hasher (pk_elems DEFAULT_SPEND_AUTH_PK))))
        (p_mainpool_config_root (tx_public demo_hasher (mint_wires demo_hasher 1 lw rw))) MAIN_POOL_CONFIG_DEPTH"
proof -
  obtain lw rw where ok: "priv_tx_circuit demo_hasher (\<lambda>_ _ _ _. True) (mint_wires demo_hasher 1 lw rw)"
    using mint_exists by blast
  have "w_not_fake_tx (mint_wires demo_hasher 1 lw rw)" "t_subpool_id (w_accin (mint_wires demo_hasher 1 lw rw)) = 1"
    "w_approval_key (mint_wires demo_hasher 1 lw rw) = DEFAULT_SPEND_AUTH_PK"
    by (simp_all add: mint_wires_def Let_def mint_account_def)
  with priv_tx_notes_and_authority [OF ok] ok show ?thesis by metis
qed

text \<open>
  Conservation under honest carries: when all amounts have 32-bit limbs and the carry wires
  of both sums stay below \<open>2 ^ 31\<close>, the balance constraint says that the input balance plus the
  active input notes equals the output balance plus the active output notes, modulo \<open>2 ^ 256\<close>.
\<close>

theorem balance_invariant_conserves:
  assumes "assert_balance_invariant accin accout inotes onotes ia oa lw rw"
    and "u256_wire accin" "u256_wire accout" "length inotes = NOTE_BATCH" "length onotes = NOTE_BATCH"
    and "list_all (\<lambda>n. u256_wire (t_amount n)) (inotes @ onotes)"
    and "list_all (\<lambda>x. unat (limb_carry x) < 2 ^ 31) (lw @ rw)"
  shows "(limbs_value accin + active_total inotes ia) mod 2 ^ 256
    = (limbs_value accout + active_total onotes oa) mod 2 ^ 256"
proof -
  have steps: "limb_steps byte_lut (columns accin (active_amounts inotes ia)) 0 lw"
    "limb_steps byte_lut (columns accout (active_amounts onotes oa)) 0 rw"
    and conn: "connect_u256 (map limb_result lw) (map limb_result rw)"
    using assms(1) by (simp_all add: balance_iff)
  have "length lw = 8" "length rw = 8" using steps limb_steps_results by fastforce+
  then have eq: "map limb_result lw = map limb_result rw" using conn by (simp add: connect_u256_eq)
  note l = active_amounts_value [of inotes ia] and r = active_amounts_value [of onotes oa]
  have "limbs_value (map limb_result lw) = (limbs_value accin + active_total inotes ia) mod 2 ^ 256"
    using chain_sound [OF assms(2) _ _ steps(1)] l assms(4,6,7) by (simp add: NOTE_BATCH_def)
  moreover have "limbs_value (map limb_result rw) = (limbs_value accout + active_total onotes oa) mod 2 ^ 256"
    using chain_sound [OF assms(3) _ _ steps(2)] r assms(5,6,7) by (simp add: NOTE_BATCH_def)
  ultimately show ?thesis by (simp only: eq)
qed

theorem balance_invariant_conserves_witness:
  "\<exists>ws. assert_balance_invariant (u256_limbs 5) (u256_limbs 5) (replicate NOTE_BATCH (set_dummy_onote 7))
      (replicate NOTE_BATCH (set_dummy_onote 7)) (replicate NOTE_BATCH True) (replicate NOTE_BATCH True) ws ws
    \<and> (limbs_value (u256_limbs 5) + active_total (replicate NOTE_BATCH (set_dummy_onote 7)) (replicate NOTE_BATCH True))
        mod 2 ^ 256
      = (limbs_value (u256_limbs 5) + active_total (replicate NOTE_BATCH (set_dummy_onote 7)) (replicate NOTE_BATCH True))
        mod 2 ^ 256"
proof -
  let ?ns = "replicate NOTE_BATCH (set_dummy_onote 7)" and ?on = "replicate NOTE_BATCH True"
  have n: "length ?ns = NOTE_BATCH" "list_all (\<lambda>n. u256_wire (t_amount n)) ?ns"
    by (auto simp: list_all_iff set_dummy_onote_def U256Target_set_limbs u256_limbs_value)
  note a = active_amounts_value [OF n, of ?on]
  have "list_all small_column (columns (u256_limbs 5) (active_amounts ?ns ?on))"
    using a by (intro columns_small) (simp_all add: u256_limbs_value NOTE_BATCH_def)
  then obtain ws where ws: "limb_steps byte_lut (columns (u256_limbs 5) (active_amounts ?ns ?on)) 0 ws"
      "list_all (\<lambda>x. unat (limb_carry x) < 2 ^ 31) ws"
    using generate_limbs_ok [of _ 0] by auto
  then have ok: "assert_balance_invariant (u256_limbs 5) (u256_limbs 5) ?ns ?ns ?on ?on ws ws"
    by (simp add: balance_iff connect_u256_eq)
  with balance_invariant_conserves [OF ok] n ws(2) show ?thesis by (auto simp: u256_limbs_value)
qed


text \<open>
  C34. The layout of the public inputs: what the circuit registers is read back field by field by
  the aggregation circuit, and the server's accessors find the roots, the flag, the nullifiers
  and the output commitments of the same registration, in the order of the Merkle leaves.
\<close>

theorem tx_public_inputs_read_back:
  assumes "tx_arity w" and "pis p = register_tx (tx_public P w)"
  shows "tx_from_pis (pis p) = Inr (tx_public P w)
    \<and> act_root p = Inr (w_state_root w) \<and> mainpool_config_root p = Inr (w_mainpool_config_root w)
    \<and> not_fake_tx p = Inr (bool_felt (w_not_fake_tx w))
    \<and> accin_nullifier p = Inr (tx_accin_null P w)
    \<and> input_note_nullifiers p = Inr (effective_inotes_null P w)
    \<and> output_commitments_priv p = Inr (tx_output_commitments (tx_public P w))
    \<and> batch_unique_pis p = Inr (tx_unique_pi_targets (tx_public P w))"
proof -
  let ?t = "tx_public P w"
  have l: "length (p_inotes_null ?t) = NOTE_BATCH" "length (p_onotes_comm ?t) = NOTE_BATCH"
    using assms(1) by (simp_all add: tx_public_def effective_inotes_null_def tx_arity_def)
  note r = register_slices [OF l, folded assms(2)]
  have inull: "from_fn NOTE_BATCH (\<lambda>i. pi_hash p (17 + i * 4)) = Inr (p_inotes_null ?t)"
    and ocomm: "from_fn NOTE_BATCH (\<lambda>i. pi_hash p (45 + i * 4)) = Inr (p_onotes_comm ?t)"
    using r l by (intro from_fn_hashes; simp add: NOTE_BATCH_def)+
  have hs: "map (\<lambda>j. hash_of (slice_at (slice_at (pis p) b (NOTE_BATCH * 4)) (j * 4) 4)) [0..<NOTE_BATCH] = hs"
    if "\<And>j. j < NOTE_BATCH \<Longrightarrow> slice_at (pis p) (b + j * 4) 4 = elems (hs ! j)" "length hs = NOTE_BATCH" for b hs
    using that by (intro nth_equalityI) (simp_all add: NOTE_BATCH_def)
  have "bool_felt b = 1 \<longleftrightarrow> b" for b by (simp add: bool_felt_def)
  then have "tx_from_pis (pis p) = Inr ?t"
    using hs [OF r(7) l(1)] hs [OF r(8) l(2)] r(1-6) by (simp add: tx_from_pis_def NOTE_BATCH_def)
  moreover have "act_root p = Inr (w_state_root w)" "mainpool_config_root p = Inr (w_mainpool_config_root w)"
    "not_fake_tx p = Inr (bool_felt (w_not_fake_tx w))" "accin_nullifier p = Inr (tx_accin_null P w)"
    using r(1-6) by (simp_all add: act_root_def mainpool_config_root_def not_fake_tx_def accin_nullifier_def
        pi_hash_def tx_public_def)
  moreover have "input_note_nullifiers p = Inr (effective_inotes_null P w)"
    using inull by (simp add: input_note_nullifiers_def tx_public_def)
  moreover have "output_commitments_priv p = Inr (tx_output_commitments ?t)"
  proof -
    have "tx_output_commitments ?t = p_accout_comm ?t # p_onotes_comm ?t"
      using l(2) by (intro nth_equalityI) (auto simp: tx_output_commitments_def nth_Cons' simp del: upt_Suc)
    moreover have "accout_commitment p = Inr (p_accout_comm ?t)"
      using r(1,6) by (simp add: accout_commitment_def pi_hash_def)
    ultimately show ?thesis using ocomm by (simp add: output_commitments_priv_def output_note_commitments_def)
  qed
  moreover have "batch_unique_pis p = Inr (tx_unique_pi_targets ?t)"
    using r(1) by (simp add: batch_unique_pis_def assms(2) register_tx_def tx_unique_pi_targets_def)
  ultimately show ?thesis by blast
qed

theorem tx_public_inputs_read_back_witness:
  "tx_from_pis (register_tx (tx_public demo_hasher (mint_wires demo_hasher 1 [] [])))
    = Inr (tx_public demo_hasher (mint_wires demo_hasher 1 [] []))"
proof -
  obtain lw rw where "priv_tx_circuit demo_hasher (\<lambda>_ _ _ _. True) (mint_wires demo_hasher 1 lw rw)"
    using mint_exists by blast
  then have "tx_arity (mint_wires demo_hasher 1 lw rw)" by (rule circuit_parts(1))
  then have "tx_arity (mint_wires demo_hasher 1 [] [])" by (simp add: tx_arity_def mint_wires_def Let_def)
  then show ?thesis
    using tx_public_inputs_read_back [of "mint_wires demo_hasher 1 [] []"
        "\<lparr>pis = register_tx (tx_public demo_hasher (mint_wires demo_hasher 1 [] []))\<rparr>" demo_hasher]
    by simp
qed

text \<open>
  The public inputs never carry an output note: whatever output notes the prover chooses and
  activates, the registered public inputs are the same, while the commitments that enter the
  signed transaction hash are those of the notes.
\<close>

theorem output_notes_not_published:
  "register_tx (tx_public P (w\<lparr>w_onotes := ns, w_onotes_isactive := active\<rparr>)) = register_tx (tx_public P w)
   \<and> (i < NOTE_BATCH \<and> active ! i \<longrightarrow>
       derived_onotes_comm P (w\<lparr>w_onotes := ns, w_onotes_isactive := active\<rparr>) ! i = derive_note_commitment P (ns ! i))"
  by (simp add: tx_public_def tx_accin_null_def tx_accin_comm_def tx_nk_def tx_accout_comm_def
      effective_inotes_null_def tx_inotes_null_def derived_onotes_comm_def select_hash)

theorem output_notes_not_published_witness:
  "derived_onotes_comm demo_hasher ((mint_wires demo_hasher 1 [] [])\<lparr>w_onotes := replicate NOTE_BATCH (set_dummy_onote 9),
      w_onotes_isactive := replicate NOTE_BATCH True\<rparr>) ! 0 = derive_note_commitment demo_hasher (set_dummy_onote 9)"
  using output_notes_not_published [where P = demo_hasher and w = "mint_wires demo_hasher 1 [] []"
      and ns = "replicate NOTE_BATCH (set_dummy_onote 9)" and active = "replicate NOTE_BATCH True" and i = 0]
  by (simp add: NOTE_BATCH_def)

end
