(* ===== verification/Bridge_Tx_Circuit.thy ===== *)
theory Bridge_Tx_Circuit
  imports Priv_Tx_Circuit
begin

section \<open>The deposit and withdrawal circuits\<close>

text \<open>
  \<^verbatim>\<open>doxa-client/src/plonky2_gadgets/deposit_tx\<close> and \<^verbatim>\<open>withdraw_tx\<close>: \<^verbatim>\<open>circuit.rs\<close>, \<^verbatim>\<open>cb.rs\<close> and the public
  targets of \<^verbatim>\<open>targets.rs\<close>, in the conventions of the private transaction circuit, and
  \<^verbatim>\<open>compute_withdrawal_slots\<close>, which prepares the seven chained balance updates of a withdrawal.
  The theorems say what satisfied circuits prove, that the server reads the public inputs back,
  that the prepared slots satisfy the constraints of their slot, and where the constraints
  leave the sum of balances open.
\<close>

subsection \<open>Deposit\<close>

record deposit_note_target =
  dt_identifier :: "felt \<times> felt"
  dt_recipient_subpool_id :: felt
  dt_recipient_public_id :: hash_output
  dt_amount :: "felt list"
  dt_asset_id :: felt

definition deposit_note_set :: "deposit_note \<Rightarrow> deposit_note_target" where
  "deposit_note_set n =
     \<lparr>dt_identifier = dn_identifier n, dt_recipient_subpool_id = addr_subpool_id (dn_recipient n),
      dt_recipient_public_id = addr_public_id (dn_recipient n), dt_amount = U256Target_set (dn_amount n),
      dt_asset_id = dn_asset_id n\<rparr>"

definition derive_deposit_note_comm :: "hasher \<Rightarrow> deposit_note_target \<Rightarrow> hash_output" where
  "derive_deposit_note_comm P n =
     P ([fst (dt_identifier n), snd (dt_identifier n)] @ [dt_recipient_subpool_id n]
        @ elems (dt_recipient_public_id n) @ dt_amount n @ [dt_asset_id n])"

definition deposit_tx_hash_circuit ::
  "hasher \<Rightarrow> hash_output \<Rightarrow> hash_output \<Rightarrow> hash_output \<Rightarrow> felt list \<Rightarrow> hash_output" where
  "deposit_tx_hash_circuit P accin_null accout_comm deposit_note_comm eth_address =
     P (elems accin_null @ elems accout_comm @ elems deposit_note_comm @ eth_address)"

record 's deposit_wires =
  d_not_fake_tx :: bool
  d_approval_key :: pubkey
  d_state_root :: hash_output
  d_mainpool_config_root :: hash_output
  d_accin :: account_target
  d_accout :: account_target
  d_asset_id :: felt
  d_accin_amt :: "felt list"
  d_accout_amt :: "felt list"
  d_asset_exists_in_accin :: bool
  d_asset_exists_in_accout :: bool
  d_deposit_note :: deposit_note_target
  d_eth_address :: "felt list"
  d_accin_act_merkle :: merkle_wires
  d_accin_ast_merkle :: merkle_wires
  d_accout_ast_merkle :: merkle_wires
  d_sum :: "limb_wires list"
  d_main_pool_proof :: merkle_wires
  d_consume_sig :: 's
  d_approval_sig :: 's

definition d_accin_null :: "hasher \<Rightarrow> 's deposit_wires \<Rightarrow> hash_output" where
  "d_accin_null P w = derive_account_nullifier P (derive_account_commitment P (d_accin w))
     (derive_nullifier_key P (t_private_identifier (d_accin w)))"

definition d_tx_hash :: "hasher \<Rightarrow> 's deposit_wires \<Rightarrow> hash_output" where
  "d_tx_hash P w = deposit_tx_hash_circuit P (d_accin_null P w) (derive_account_commitment P (d_accout w))
     (derive_deposit_note_comm P (d_deposit_note w)) (d_eth_address w)"

definition deposit_arity :: "'s deposit_wires \<Rightarrow> bool" where
  "deposit_arity w \<longleftrightarrow> length (d_accin_amt w) = 8 \<and> length (d_accout_amt w) = 8
     \<and> length (dt_amount (d_deposit_note w)) = 8 \<and> length (d_eth_address w) = 5"

text \<open>\<^verbatim>\<open>u256_addition_chain::<1>\<close> with its result connected to an amount.\<close>

definition assert_sum2 :: "felt list \<Rightarrow> felt list \<Rightarrow> felt list \<Rightarrow> limb_wires list \<Rightarrow> bool" where
  "assert_sum2 x y z ws \<longleftrightarrow>
     (case add_u8_range_check_lookup_table of Inl _ \<Rightarrow> False | Inr range_lut \<Rightarrow>
      (case u256_addition_chain x [y] range_lut ws of (s, ok) \<Rightarrow> ok \<and> connect_u256 s z))"

definition deposit_tx_circuit :: "hasher \<Rightarrow> 's sig_gadget \<Rightarrow> 's deposit_wires \<Rightarrow> bool" where
  "deposit_tx_circuit P S w \<longleftrightarrow>
     deposit_arity w
     \<and> dt_asset_id (d_deposit_note w) = d_asset_id w
     \<and> conditional_merkle_verify_gadget P (derive_account_commitment P (d_accin w)) (d_state_root w)
         (d_not_fake_tx w) STATE_TREE_DEPTH (d_accin_act_merkle w)
     \<and> dt_recipient_subpool_id (d_deposit_note w) = t_subpool_id (d_accin w)
     \<and> dt_recipient_public_id (d_deposit_note w) = derive_public_identifier P (t_private_identifier (d_accin w))
     \<and> assert_account_invariants_simple (d_accin w) (d_accout w)
     \<and> assert_ast_update P (d_asset_id w) (d_accin_amt w) (d_accout_amt w)
         (t_acc_ast_root (d_accin w)) (t_acc_ast_root (d_accout w))
         (d_asset_exists_in_accin w) (d_asset_exists_in_accout w) (d_accin_ast_merkle w) (d_accout_ast_merkle w)
     \<and> assert_sum2 (d_accin_amt w) (dt_amount (d_deposit_note w)) (d_accout_amt w) (d_sum w)
     \<and> assert_subpool_full_proof P (t_subpool_id (d_accin w)) (d_approval_key w) (d_mainpool_config_root w)
         (d_not_fake_tx w) (d_main_pool_proof w)
     \<and> S (t_consume_config (d_accin w) \<and> d_not_fake_tx w) (d_tx_hash P w) (t_consume_pk (d_accin w)) (d_consume_sig w)
     \<and> S (d_not_fake_tx w) (d_tx_hash P w) (d_approval_key w) (d_approval_sig w)"

record deposit_public =
  dp_state_root :: hash_output
  dp_mainpool_config_root :: hash_output
  dp_not_fake_tx :: bool
  dp_accin_null :: hash_output
  dp_accout_comm :: hash_output
  dp_note_comm :: hash_output
  dp_eth_address :: "felt list"
  dp_amount :: "felt list"
  dp_asset_id :: felt

definition d_public :: "hasher \<Rightarrow> 's deposit_wires \<Rightarrow> deposit_public" where
  "d_public P w =
     \<lparr>dp_state_root = d_state_root w, dp_mainpool_config_root = d_mainpool_config_root w,
      dp_not_fake_tx = d_not_fake_tx w, dp_accin_null = d_accin_null P w,
      dp_accout_comm = derive_account_commitment P (d_accout w),
      dp_note_comm = derive_deposit_note_comm P (d_deposit_note w), dp_eth_address = d_eth_address w,
      dp_amount = dt_amount (d_deposit_note w), dp_asset_id = d_asset_id w\<rparr>"

definition register_deposit :: "deposit_public \<Rightarrow> felt list" where
  "register_deposit t = elems (dp_state_root t) @ elems (dp_mainpool_config_root t) @ [bool_felt (dp_not_fake_tx t)]
     @ elems (dp_accin_null t) @ elems (dp_accout_comm t) @ elems (dp_note_comm t)
     @ dp_eth_address t @ dp_amount t @ [dp_asset_id t]"

definition deposit_from_pis :: "felt list \<Rightarrow> (unit, deposit_public) result" where
  "deposit_from_pis ps =
     (if length ps < 35 then Inl (Panic Index_out_of_bounds)
      else Inr
       \<lparr>dp_state_root = hash_of (slice_at ps 0 4), dp_mainpool_config_root = hash_of (slice_at ps 4 4),
        dp_not_fake_tx = (ps ! 8 = 1), dp_accin_null = hash_of (slice_at ps 9 4),
        dp_accout_comm = hash_of (slice_at ps 13 4), dp_note_comm = hash_of (slice_at ps 17 4),
        dp_eth_address = slice_at ps 21 5, dp_amount = slice_at ps 26 8, dp_asset_id = ps ! 34\<rparr>)"

definition deposit_unique_pi_targets :: "deposit_public \<Rightarrow> felt list" where
  "deposit_unique_pi_targets t = [bool_felt (dp_not_fake_tx t)] @ elems (dp_accin_null t) @ elems (dp_accout_comm t)
     @ elems (dp_note_comm t) @ dp_eth_address t @ dp_amount t @ [dp_asset_id t]"

subsection \<open>Withdrawal\<close>

definition withdraw_tx_hash_circuit ::
  "hasher \<Rightarrow> hash_output \<Rightarrow> hash_output \<Rightarrow> felt list \<Rightarrow> felt list list \<Rightarrow> felt list \<Rightarrow> hash_output" where
  "withdraw_tx_hash_circuit P accin_null accout_comm asset_ids amounts w_acc_addr =
     P (elems accin_null @ elems accout_comm @ asset_ids @ concat amounts @ w_acc_addr)"

text \<open>The wires of one slot: the amounts, the flags, the two paths and the sum.\<close>

record slot_wires =
  s_asset_id :: felt
  s_withdrawal_amt :: "felt list"
  s_accin_amt :: "felt list"
  s_accout_amt :: "felt list"
  s_exists_in :: bool
  s_exists_out :: bool
  s_in_merkle :: merkle_wires
  s_out_merkle :: merkle_wires
  s_sum :: "limb_wires list"

record 's withdraw_wires =
  x_not_fake_tx :: bool
  x_approval_key :: pubkey
  x_root :: hash_output
  x_mainpool_config_root :: hash_output
  x_accin :: account_target
  x_accout :: account_target
  x_slots :: "slot_wires list"
  x_intermediate_roots :: "hash_output list"
  x_w_acc_addr :: "felt list"
  x_accin_act_merkle :: merkle_wires
  x_main_pool_proof :: merkle_wires
  x_approval_sig :: 's
  x_spend_sig :: 's

definition withdraw_arity :: "'s withdraw_wires \<Rightarrow> bool" where
  "withdraw_arity w \<longleftrightarrow> length (x_slots w) = NOTE_BATCH \<and> length (x_intermediate_roots w) = NOTE_BATCH - 1
     \<and> length (x_w_acc_addr w) = 5
     \<and> list_all (\<lambda>s. length (s_withdrawal_amt s) = 8 \<and> length (s_accin_amt s) = 8 \<and> length (s_accout_amt s) = 8)
         (x_slots w)"

definition x_prev_root :: "'s withdraw_wires \<Rightarrow> nat \<Rightarrow> hash_output" where
  "x_prev_root w i = (if i = 0 then t_acc_ast_root (x_accin w) else x_intermediate_roots w ! (i - 1))"

definition x_curr_root :: "'s withdraw_wires \<Rightarrow> nat \<Rightarrow> hash_output" where
  "x_curr_root w i = (if i < NOTE_BATCH - 1 then x_intermediate_roots w ! i else t_acc_ast_root (x_accout w))"

definition assert_slot :: "hasher \<Rightarrow> slot_wires \<Rightarrow> hash_output \<Rightarrow> hash_output \<Rightarrow> bool" where
  "assert_slot P s prev_root curr_root \<longleftrightarrow>
     assert_sum2 (s_accout_amt s) (s_withdrawal_amt s) (s_accin_amt s) (s_sum s)
     \<and> assert_ast_update P (s_asset_id s) (s_accin_amt s) (s_accout_amt s) prev_root curr_root
         (s_exists_in s) (s_exists_out s) (s_in_merkle s) (s_out_merkle s)"

definition x_accin_null :: "hasher \<Rightarrow> 's withdraw_wires \<Rightarrow> hash_output" where
  "x_accin_null P w = derive_account_nullifier P (derive_account_commitment P (x_accin w))
     (derive_nullifier_key P (t_private_identifier (x_accin w)))"

definition x_tx_hash :: "hasher \<Rightarrow> 's withdraw_wires \<Rightarrow> hash_output" where
  "x_tx_hash P w = withdraw_tx_hash_circuit P (x_accin_null P w) (derive_account_commitment P (x_accout w))
     (map s_asset_id (x_slots w)) (map s_withdrawal_amt (x_slots w)) (x_w_acc_addr w)"

definition withdraw_tx_circuit :: "hasher \<Rightarrow> 's sig_gadget \<Rightarrow> 's withdraw_wires \<Rightarrow> bool" where
  "withdraw_tx_circuit P S w \<longleftrightarrow>
     withdraw_arity w
     \<and> conditional_merkle_verify_gadget P (derive_account_commitment P (x_accin w)) (x_root w)
         (x_not_fake_tx w) STATE_TREE_DEPTH (x_accin_act_merkle w)
     \<and> assert_account_invariants_simple (x_accin w) (x_accout w)
     \<and> list_all (\<lambda>i. assert_slot P (x_slots w ! i) (x_prev_root w i) (x_curr_root w i)) [0..<NOTE_BATCH]
     \<and> assert_subpool_full_proof P (t_subpool_id (x_accin w)) (x_approval_key w) (x_mainpool_config_root w)
         (x_not_fake_tx w) (x_main_pool_proof w)
     \<and> S (x_not_fake_tx w) (x_tx_hash P w) (x_approval_key w) (x_approval_sig w)
     \<and> S (x_not_fake_tx w) (x_tx_hash P w) (t_spend_auth (x_accin w)) (x_spend_sig w)"

record withdraw_public =
  xp_root :: hash_output
  xp_mainpool_config_root :: hash_output
  xp_not_fake_tx :: bool
  xp_accin_null :: hash_output
  xp_accout_comm :: hash_output
  xp_asset_ids :: "felt list"
  xp_withdrawal_amts :: "felt list list"
  xp_w_acc_addr :: "felt list"

definition x_public :: "hasher \<Rightarrow> 's withdraw_wires \<Rightarrow> withdraw_public" where
  "x_public P w =
     \<lparr>xp_root = x_root w, xp_mainpool_config_root = x_mainpool_config_root w, xp_not_fake_tx = x_not_fake_tx w,
      xp_accin_null = x_accin_null P w, xp_accout_comm = derive_account_commitment P (x_accout w),
      xp_asset_ids = map s_asset_id (x_slots w), xp_withdrawal_amts = map s_withdrawal_amt (x_slots w),
      xp_w_acc_addr = x_w_acc_addr w\<rparr>"

definition register_withdraw :: "withdraw_public \<Rightarrow> felt list" where
  "register_withdraw t = elems (xp_root t) @ elems (xp_mainpool_config_root t) @ [bool_felt (xp_not_fake_tx t)]
     @ elems (xp_accin_null t) @ elems (xp_accout_comm t) @ xp_asset_ids t @ concat (xp_withdrawal_amts t)
     @ xp_w_acc_addr t"

definition withdraw_from_pis :: "felt list \<Rightarrow> (unit, withdraw_public) result" where
  "withdraw_from_pis ps =
     (if length ps < 17 + NOTE_BATCH + NOTE_BATCH * 8 + 5 then Inl (Panic Index_out_of_bounds)
      else Inr
       \<lparr>xp_root = hash_of (slice_at ps 0 4), xp_mainpool_config_root = hash_of (slice_at ps 4 4),
        xp_not_fake_tx = (ps ! 8 = 1), xp_accin_null = hash_of (slice_at ps 9 4),
        xp_accout_comm = hash_of (slice_at ps 13 4), xp_asset_ids = slice_at ps 17 NOTE_BATCH,
        xp_withdrawal_amts = map (\<lambda>i. map (\<lambda>j. slice_at ps (17 + NOTE_BATCH) (NOTE_BATCH * 8) ! (i * 8 + j)) [0..<8])
          [0..<NOTE_BATCH],
        xp_w_acc_addr = slice_at ps (17 + NOTE_BATCH + NOTE_BATCH * 8) 5\<rparr>)"

definition withdraw_unique_pi_targets :: "withdraw_public \<Rightarrow> felt list" where
  "withdraw_unique_pi_targets t = [bool_felt (xp_not_fake_tx t)] @ elems (xp_accin_null t) @ elems (xp_accout_comm t)
     @ xp_asset_ids t @ concat (xp_withdrawal_amts t) @ xp_w_acc_addr t"

subsection \<open>Sums of two amounts\<close>

lemma sum2_iff:
  "assert_sum2 x y z ws \<longleftrightarrow> limb_steps byte_lut (columns x [y]) 0 ws \<and> connect_u256 (map limb_result ws) z"
  by (simp add: assert_sum2_def u8_table u256_addition_chain_def)

lemma limbs_value_inj: "u256_wire a \<Longrightarrow> u256_wire b \<Longrightarrow> limbs_value a = limbs_value b \<Longrightarrow> a = b"
  using u256_wire_limbs [of a] u256_wire_limbs [of b] by simp

lemma sum2_value:
  assumes "assert_sum2 x y z ws" "u256_wire x" "u256_wire y" "length z = 8"
    and "list_all (\<lambda>w. unat (limb_carry w) < 2 ^ 31) ws"
  shows "limbs_value z = (limbs_value x + limbs_value y) mod 2 ^ 256"
proof -
  have steps: "limb_steps byte_lut (columns x [y]) 0 ws" and conn: "connect_u256 (map limb_result ws) z"
    using assms(1) by (simp_all add: sum2_iff)
  have "length ws = 8" using limb_steps_results [OF steps] by simp
  then have "map limb_result ws = z" using conn assms(4) by (simp add: connect_u256_eq)
  with chain_sound [OF assms(2) _ _ steps] assms(3,5) show ?thesis by simp
qed

lemma sum2_exists:
  assumes "u256_wire x" "u256_wire y" "u256_wire z" "limbs_value z = (limbs_value x + limbs_value y) mod 2 ^ 256"
  shows "\<exists>ws. assert_sum2 x y z ws \<and> list_all (\<lambda>w. unat (limb_carry w) < 2 ^ 31) ws"
proof -
  have "list_all small_column (columns x [y])" using assms by (intro columns_small) simp_all
  then obtain ws where ws: "limb_steps byte_lut (columns x [y]) 0 ws" "list_all (\<lambda>w. unat (limb_carry w) < 2 ^ 31) ws"
    using generate_limbs_ok [of _ 0] by auto
  have "u256_wire (map limb_result ws)" using limb_steps_results [OF ws(1)] by (simp add: u256_wire_def)
  moreover have "limbs_value (map limb_result ws) = limbs_value z"
    using chain_sound [OF assms(1) _ _ ws(1) ws(2)] assms(2,4) by simp
  ultimately have "map limb_result ws = z" using limbs_value_inj assms(3) by blast
  with ws show ?thesis by (auto simp: sum2_iff connect_u256_eq)
qed

subsection \<open>Derivations\<close>

lemma bridge_derivations:
  "derive_deposit_note_comm P (deposit_note_set n) = deposit_note_commitment P n"
  "deposit_tx_hash_circuit P an ac nc (map_h160_to_f a) = derive_deposit_tx_hash P an ac nc a"
  "withdraw_tx_hash_circuit P an ac ids (map U256Target_set vs) (map_h160_to_f a) = derive_withdraw_tx_hash P an ac ids vs a"
  by (simp_all add: derive_deposit_note_comm_def deposit_note_set_def deposit_note_commitment_def deposit_note_input_def
      U256Target_set_limbs address_elems_def deposit_tx_hash_circuit_def derive_deposit_tx_hash_def
      withdraw_tx_hash_circuit_def derive_withdraw_tx_hash_def cong: map_cong)

lemma account_invariants_simple [circuit_simps]:
  "assert_account_invariants_simple a b \<longleftrightarrow>
     b = a\<lparr>t_nonce := felt_add (t_nonce a) 1, t_acc_ast_root := t_acc_ast_root b\<rparr>"
  by (cases a; cases b) (auto simp: assert_account_invariants_simple_def)

subsection \<open>Satisfied deposits\<close>

text \<open>An account whose asset tree is reached along a path of zero siblings, for the witnesses.\<close>

definition zero_path_account :: "hasher \<Rightarrow> hash_output \<Rightarrow> account_target" where
  "zero_path_account P lf = (mint_account P)\<lparr>t_acc_ast_root := zero_path_root P lf ACC_AST_DEPTH\<rparr>"

definition zero_path_config :: "hasher \<Rightarrow> hash_output" where
  "zero_path_config P = zero_path_root P
     (P ([1, 0, 0, 0] @ elems (P (pk_elems DEFAULT_SPEND_AUTH_PK)))) MAIN_POOL_CONFIG_DEPTH"

definition deposit_example :: "hasher \<Rightarrow> u256 \<Rightarrow> bytes \<Rightarrow> limb_wires list \<Rightarrow> unit deposit_wires" where
  "deposit_example P v a ws =
     (let acc = zero_path_account P ZERO_hash in
      \<lparr>d_not_fake_tx = True, d_approval_key = DEFAULT_SPEND_AUTH_PK,
       d_state_root = zero_path_root P (derive_account_commitment P acc) STATE_TREE_DEPTH,
       d_mainpool_config_root = zero_path_config P, d_accin = acc,
       d_accout = acc\<lparr>t_nonce := felt_add 1 1,
         t_acc_ast_root := zero_path_root P (P ([DS_ACC_AST_LEAF, 5] @ u256_limbs v)) ACC_AST_DEPTH\<rparr>,
       d_asset_id = 5, d_accin_amt = u256_limbs 0, d_accout_amt = u256_limbs v,
       d_asset_exists_in_accin = False, d_asset_exists_in_accout = True,
       d_deposit_note = deposit_note_set \<lparr>dn_identifier = (3, 4),
         dn_recipient = \<lparr>addr_subpool_id = 1, addr_public_id = derive_public_identifier P (1, 2)\<rparr>,
         dn_amount = v, dn_asset_id = 5\<rparr>,
       d_eth_address = map_h160_to_f a, d_accin_act_merkle = zero_path STATE_TREE_DEPTH,
       d_accin_ast_merkle = zero_path ACC_AST_DEPTH, d_accout_ast_merkle = zero_path ACC_AST_DEPTH,
       d_sum = ws, d_main_pool_proof = zero_path MAIN_POOL_CONFIG_DEPTH,
       d_consume_sig = (), d_approval_sig = ()\<rparr>)"

lemma u256_limbs_0: "u256_limbs 0 = replicate 8 0"
  by (rule limbs_value_inj) (simp_all add: u256_limbs_value zero_limbs)

lemma deposit_example_accepted:
  assumes "assert_sum2 (u256_limbs 0) (u256_limbs v) (u256_limbs v) ws"
  shows "deposit_tx_circuit P (\<lambda>_ _ _ _. True) (deposit_example P v a ws)"
  using assms
  by (simp add: deposit_tx_circuit_def deposit_example_def Let_def deposit_arity_def circuit_simps
      assert_subpool_full_proof_def deposit_note_set_def U256Target_set_limbs u256_limbs_0
      zero_path_account_def mint_account_def zero_path_config_def map_h160_to_f_def)

subsection \<open>A chain of updates along paths\<close>

context merkle_hash_laws
begin

lemma path_update_node:
  assumes "index < 2 ^ d" and "length ss = d"
    and "fold_path H lf (path_bits d index) ss = node H f d 0"
    and "find_collision H lf (f index) (zip (path_bits d index) (zip ss (honest_siblings H f d index))) = None"
  shows "lf = f index" and "fold_path H new (path_bits d index) ss = node H (f(index := new)) d 0"
proof -
  have "fold_path H (f index) (path_bits d index) (honest_siblings H f d index) = node H f d 0"
    using fold_path_update [OF assms(1), of "f index" f] by simp
  then have "lf = f index \<and> ss = honest_siblings H f d index"
    using assms by (intro same_openings [of _ "path_bits d index"]) (simp_all add: path_bits_def honest_siblings_def)
  then show "lf = f index" "fold_path H new (path_bits d index) ss = node H (f(index := new)) d 0"
    using fold_path_update [OF assms(1)] by simp_all
qed

end

definition slot_index :: "slot_wires \<Rightarrow> nat" where
  "slot_index s = bits_index (mw_bits (s_in_merkle s))"

definition slot_leaf_in :: "hasher \<Rightarrow> slot_wires \<Rightarrow> hash_output" where
  "slot_leaf_in P s = ast_leaf_circuit P (s_asset_id s) (s_accin_amt s) (s_exists_in s)"

definition slot_leaf_out :: "hasher \<Rightarrow> slot_wires \<Rightarrow> hash_output" where
  "slot_leaf_out P s = ast_leaf_circuit P (s_asset_id s) (s_accout_amt s) (s_exists_out s)"

text \<open>
  The leaves after some slots, and the walk that compares the wires of every slot with the
  tree's own path at that moment and stops at the first collision of the digest.
\<close>

definition write_slot :: "hasher \<Rightarrow> (nat \<Rightarrow> hash_output) \<Rightarrow> slot_wires \<Rightarrow> nat \<Rightarrow> hash_output" where
  "write_slot P f s = f(slot_index s := slot_leaf_out P s)"

fun replay_slots ::
  "hasher \<Rightarrow> (nat \<Rightarrow> hash_output) \<Rightarrow> slot_wires list
     \<Rightarrow> ((hash_output \<times> hash_output) \<times> (hash_output \<times> hash_output)) option" where
  "replay_slots P f [] = None"
| "replay_slots P f (s # ss) =
     (case find_collision (hash_output_hash P) (slot_leaf_in P s) (f (slot_index s))
        (zip (mw_bits (s_in_merkle s)) (zip (mw_siblings (s_in_merkle s))
          (honest_siblings (hash_output_hash P) f ACC_AST_DEPTH (slot_index s)))) of
      Some c \<Rightarrow> Some c
    | None \<Rightarrow> replay_slots P (write_slot P f s) ss)"

lemma slot_step:
  assumes "assert_slot P s (node (hash_output_hash P) f ACC_AST_DEPTH 0) r"
    and "find_collision (hash_output_hash P) (slot_leaf_in P s) (f (slot_index s))
        (zip (mw_bits (s_in_merkle s)) (zip (mw_siblings (s_in_merkle s))
          (honest_siblings (hash_output_hash P) f ACC_AST_DEPTH (slot_index s)))) = None"
  shows "slot_leaf_in P s = f (slot_index s) \<and> r = node (hash_output_hash P) (write_slot P f s) ACC_AST_DEPTH 0"
proof -
  note w = ast_constraint_paths [OF conjunct2 [OF assms(1) [unfolded assert_slot_def]]]
  have i: "slot_index s < 2 ^ ACC_AST_DEPTH" "mw_bits (s_in_merkle s) = path_bits ACC_AST_DEPTH (slot_index s)"
    using w bits_index_less [of "mw_bits (s_in_merkle s)"] path_bits_index [of "mw_bits (s_in_merkle s)"]
    by (simp_all add: slot_index_def)
  note w = w [unfolded i(2), folded slot_leaf_in_def slot_leaf_out_def] and none = assms(2) [unfolded i(2)]
  show ?thesis
    using hash_output.path_update_node(1) [OF i(1) _ _ none]
      hash_output.path_update_node(2) [OF i(1) _ _ none, of "slot_leaf_out P s"] w
    by (simp add: write_slot_def)
qed

lemma slot_chain:
  assumes "length rs = Suc (length ss)" and "\<And>i. i < length ss \<Longrightarrow> assert_slot P (ss ! i) (rs ! i) (rs ! Suc i)"
    and "rs ! 0 = node (hash_output_hash P) f ACC_AST_DEPTH 0" and "replay_slots P f ss = None"
  shows "last rs = node (hash_output_hash P) (foldl (write_slot P) f ss) ACC_AST_DEPTH 0
    \<and> (\<forall>k < length ss. slot_leaf_in P (ss ! k) = foldl (write_slot P) f (take k ss) (slot_index (ss ! k)))"
  using assms
proof (induction ss arbitrary: rs f)
  case Nil
  then show ?case by (cases rs) auto
next
  case (Cons s ss)
  obtain r rs' where rs: "rs = r # rs'" "length rs' = Suc (length ss)" using Cons.prems(1) by (cases rs) auto
  have step: "slot_leaf_in P s = f (slot_index s)" "rs' ! 0 = node (hash_output_hash P) (write_slot P f s) ACC_AST_DEPTH 0"
    using slot_step [of P s f "rs' ! 0"] Cons.prems(2) [of 0] Cons.prems(3,4) rs by (auto split: option.splits)
  have "replay_slots P (write_slot P f s) ss = None" using Cons.prems(4) by (auto split: option.splits)
  then have ih: "last rs' = node (hash_output_hash P) (foldl (write_slot P) (write_slot P f s) ss) ACC_AST_DEPTH 0
      \<and> (\<forall>k < length ss. slot_leaf_in P (ss ! k) =
          foldl (write_slot P) (write_slot P f s) (take k ss) (slot_index (ss ! k)))"
    using Cons.IH [OF rs(2) _ step(2)] Cons.prems(2) [of "Suc _"] rs by simp
  have "last rs = last rs'" using rs by (cases rs') auto
  with ih step(1) show ?case by (auto simp: less_Suc_eq_0_disj)
qed

lemma replay_slots_collision:
  "replay_slots P f ss = Some ((l, r), (l', r')) \<Longrightarrow>
    (l, r) \<noteq> (l', r') \<and> P (elems l @ elems r) = P (elems l' @ elems r')"
proof (induction ss arbitrary: f)
  case (Cons s ss)
  show ?case
  proof (cases "find_collision (hash_output_hash P) (slot_leaf_in P s) (f (slot_index s))
      (zip (mw_bits (s_in_merkle s)) (zip (mw_siblings (s_in_merkle s))
        (honest_siblings (hash_output_hash P) f ACC_AST_DEPTH (slot_index s))))")
    case (Some c)
    then have "c = ((l, r), (l', r'))" using Cons.prems by simp
    with hash_output.find_collision_ok [OF Some [unfolded this]] show ?thesis by (simp add: hash_output_hash_def)
  next
    case None
    with Cons.prems have "replay_slots P (write_slot P f s) ss = Some ((l, r), (l', r'))" by simp
    then show ?thesis by (rule Cons.IH)
  qed
qed simp

subsection \<open>A withdrawal from an empty account\<close>

text \<open>
  The first slot takes \<open>v\<close> out of an asset the account does not hold and leaves \<open>- v\<close>, the other
  slots take nothing from that balance.
\<close>

definition overdraw_slots :: "u256 \<Rightarrow> limb_wires list \<Rightarrow> limb_wires list \<Rightarrow> slot_wires list" where
  "overdraw_slots v ws ws' =
     (let m = zero_path ACC_AST_DEPTH in
      \<lparr>s_asset_id = 5, s_withdrawal_amt = u256_limbs v, s_accin_amt = u256_limbs 0, s_accout_amt = u256_limbs (- v),
       s_exists_in = False, s_exists_out = True, s_in_merkle = m, s_out_merkle = m, s_sum = ws\<rparr> #
      replicate (NOTE_BATCH - 1)
       \<lparr>s_asset_id = 5, s_withdrawal_amt = u256_limbs 0, s_accin_amt = u256_limbs (- v), s_accout_amt = u256_limbs (- v),
        s_exists_in = True, s_exists_out = True, s_in_merkle = m, s_out_merkle = m, s_sum = ws'\<rparr>)"

definition overdraw_wires ::
  "hasher \<Rightarrow> u256 \<Rightarrow> bytes \<Rightarrow> limb_wires list \<Rightarrow> limb_wires list \<Rightarrow> unit withdraw_wires" where
  "overdraw_wires P v a ws ws' =
     (let acc = zero_path_account P ZERO_hash;
          r = zero_path_root P (P ([DS_ACC_AST_LEAF, 5] @ u256_limbs (- v))) ACC_AST_DEPTH in
      \<lparr>x_not_fake_tx = True, x_approval_key = DEFAULT_SPEND_AUTH_PK,
       x_root = zero_path_root P (derive_account_commitment P acc) STATE_TREE_DEPTH,
       x_mainpool_config_root = zero_path_config P, x_accin = acc,
       x_accout = acc\<lparr>t_nonce := felt_add 1 1, t_acc_ast_root := r\<rparr>,
       x_slots = overdraw_slots v ws ws', x_intermediate_roots = replicate (NOTE_BATCH - 1) r,
       x_w_acc_addr = map_h160_to_f a, x_accin_act_merkle = zero_path STATE_TREE_DEPTH,
       x_main_pool_proof = zero_path MAIN_POOL_CONFIG_DEPTH, x_approval_sig = (), x_spend_sig = ()\<rparr>)"

lemma overdraw_accepted:
  assumes "assert_sum2 (u256_limbs (- v)) (u256_limbs v) (u256_limbs 0) ws"
    and "assert_sum2 (u256_limbs (- v)) (u256_limbs 0) (u256_limbs (- v)) ws'"
  shows "withdraw_tx_circuit P (\<lambda>_ _ _ _. True) (overdraw_wires P v a ws ws')"
proof -
  define w where "w = overdraw_wires P v a ws ws'"
  have slot: "assert_slot P (x_slots w ! i) (x_prev_root w i) (x_curr_root w i)" if "i < NOTE_BATCH" for i
    using that assms
    by (cases i)
       (simp_all add: w_def overdraw_wires_def Let_def overdraw_slots_def x_prev_root_def x_curr_root_def
         assert_slot_def circuit_simps u256_limbs_0 zero_path_account_def NOTE_BATCH_def)
  have "withdraw_arity w"
    by (simp add: w_def overdraw_wires_def Let_def overdraw_slots_def withdraw_arity_def map_h160_to_f_def
        NOTE_BATCH_def list_all_iff)
  then show ?thesis
    using slot unfolding w_def [symmetric]
    by (simp add: withdraw_tx_circuit_def list_all_iff)
       (simp add: w_def overdraw_wires_def Let_def circuit_simps assert_subpool_full_proof_def
         zero_path_account_def mint_account_def zero_path_config_def)
qed

lemma overdraw_exists:
  "\<exists>ws ws'. withdraw_tx_circuit P (\<lambda>_ _ _ _. True) (overdraw_wires P v a ws ws')
    \<and> list_all (\<lambda>x. unat (limb_carry x) < 2 ^ 31) (ws @ ws')"
proof -
  have "(unat (- v) + unat v) mod 2 ^ 256 = 0"
    using unat_word_ariths(1) [of "- v" v] by simp
  then obtain ws where ws: "assert_sum2 (u256_limbs (- v)) (u256_limbs v) (u256_limbs 0) ws"
      "list_all (\<lambda>w. unat (limb_carry w) < 2 ^ 31) ws"
    using sum2_exists [of "u256_limbs (- v)" "u256_limbs v" "u256_limbs 0"] by (auto simp: u256_limbs_value)
  have "unat (- v) mod 2 ^ 256 = unat (- v)"
    using u256_wireD(4) [OF u256_limbs_value(1), of "- v"] unfolding u256_limbs_value(2) by (rule mod_less)
  then obtain ws' where ws': "assert_sum2 (u256_limbs (- v)) (u256_limbs 0) (u256_limbs (- v)) ws'"
      "list_all (\<lambda>w. unat (limb_carry w) < 2 ^ 31) ws'"
    using sum2_exists [of "u256_limbs (- v)" "u256_limbs 0" "u256_limbs (- v)"] by (auto simp: u256_limbs_value)
  show ?thesis using overdraw_accepted [OF ws(1) ws'(1)] ws(2) ws'(2) by auto
qed

text \<open>A digest that maps zeros to zero, so that the paths of zero siblings are those of an empty tree.\<close>

definition sum_hasher :: hasher where
  "sum_hasher es = HashOutput (sum_list es) 0 0 0"

lemma sum_hasher_zero: "sum_hasher (elems ZERO_hash @ elems ZERO_hash) = ZERO_hash"
  by (simp add: sum_hasher_def ZERO_hash_def)

lemma sum_hasher_paths:
  "node (hash_output_hash sum_hasher) (\<lambda>_. ZERO_hash) d p = ZERO_hash"
  "zero_path_root sum_hasher ZERO_hash d = ZERO_hash"
proof -
  show n: "node (hash_output_hash sum_hasher) (\<lambda>_. ZERO_hash) d p = ZERO_hash" for d p
    by (induction d arbitrary: p) (simp_all add: hash_output_hash_def sum_hasher_zero)
  show "zero_path_root sum_hasher ZERO_hash d = ZERO_hash"
    by (induction d) (simp_all add: zero_path_root_def hash_output_hash_def sum_hasher_zero)
qed

lemma find_collision_refl: "find_collision H a a (zip bits (zip ss ss)) = None"
proof (induction bits arbitrary: a ss)
  case (Cons b bits)
  then show ?case by (cases ss) (simp_all add: Let_def)
qed simp

lemma honest_zero_siblings:
  "honest_siblings (hash_output_hash sum_hasher) ((\<lambda>_. ZERO_hash)(0 := x)) d 0 = mw_siblings (zero_path d)"
  unfolding honest_siblings_update
  by (simp add: honest_siblings_def sum_hasher_paths zero_path_def merkle_set_dummy_witness_def map_replicate_const)

lemma zero_path_index: "bits_index (mw_bits (zero_path d)) = 0"
  unfolding zero_path_def merkle_set_dummy_witness_def by (induction d) simp_all

lemma replay_zero_slots:
  assumes "list_all (\<lambda>s. s_in_merkle s = zero_path ACC_AST_DEPTH \<and> slot_leaf_in sum_hasher s = x
      \<and> slot_leaf_out sum_hasher s = x) ss"
  shows "replay_slots sum_hasher ((\<lambda>_. ZERO_hash)(0 := x)) ss = None"
  using assms
  by (induction ss)
     (simp_all add: slot_index_def zero_path_index honest_zero_siblings find_collision_refl write_slot_def)

lemma replay_overdraw:
  "replay_slots sum_hasher (\<lambda>_. ZERO_hash) (overdraw_slots v ws ws') = None"
proof -
  have "(\<lambda>_. ZERO_hash) = (\<lambda>_. ZERO_hash)(0 := ZERO_hash)" by auto
  then have h: "honest_siblings (hash_output_hash sum_hasher) (\<lambda>_. ZERO_hash) ACC_AST_DEPTH 0
      = mw_siblings (zero_path ACC_AST_DEPTH)"
    using honest_zero_siblings by metis
  have "ast_leaf_circuit P asset amount False = ZERO_hash" for P asset amount
    by (simp add: ast_leaf_circuit_def select_hash AST_DEFAULT_LEAF_def ZERO_hash_def)
  then show ?thesis
    by (auto simp: overdraw_slots_def Let_def slot_index_def zero_path_index h find_collision_refl write_slot_def
        slot_leaf_in_def slot_leaf_out_def list_all_iff intro!: replay_zero_slots)
qed

subsection \<open>Properties\<close>

text \<open>
  C35. What a satisfied circuit of a real deposit proves: the input account is in the tree with
  the published root; the published nullifier is its own and the published commitment that of
  the account with the nonce counted up and at most another asset root; both asset roots are
  reached along one path from the leaves of the old and the new balance of the deposited asset;
  the note behind the published note commitment names that account, the published amount and
  the published asset; the approval key is registered for the subpool and signed the
  transaction hash, and so did the consume key of an account that has one; and with honest
  carries the new balance is the old one plus the published amount, modulo \<open>2 ^ 256\<close>.
\<close>

theorem deposit_circuit_sound:
  assumes "deposit_tx_circuit P S w" and "d_not_fake_tx w"
  shows "opens P (derive_account_commitment P (d_accin w)) (dp_state_root (d_public P w)) STATE_TREE_DEPTH
    \<and> dp_accin_null (d_public P w) = derive_account_nullifier P (derive_account_commitment P (d_accin w))
        (derive_nullifier_key P (t_private_identifier (d_accin w)))
    \<and> dp_accout_comm (d_public P w) = derive_account_commitment P (d_accout w)
    \<and> d_accout w = (d_accin w)\<lparr>t_nonce := felt_add (t_nonce (d_accin w)) 1,
        t_acc_ast_root := t_acc_ast_root (d_accout w)\<rparr>
    \<and> (\<exists>bits sibs. length bits = ACC_AST_DEPTH \<and> length sibs = ACC_AST_DEPTH
        \<and> fold_path (hash_output_hash P)
            (ast_leaf_circuit P (dp_asset_id (d_public P w)) (d_accin_amt w) (d_asset_exists_in_accin w))
            bits sibs = t_acc_ast_root (d_accin w)
        \<and> fold_path (hash_output_hash P)
            (ast_leaf_circuit P (dp_asset_id (d_public P w)) (d_accout_amt w) (d_asset_exists_in_accout w))
            bits sibs = t_acc_ast_root (d_accout w))
    \<and> (\<exists>ident. dp_note_comm (d_public P w) = derive_deposit_note_comm P
        \<lparr>dt_identifier = ident, dt_recipient_subpool_id = t_subpool_id (d_accin w),
         dt_recipient_public_id = derive_public_identifier P (t_private_identifier (d_accin w)),
         dt_amount = dp_amount (d_public P w), dt_asset_id = dp_asset_id (d_public P w)\<rparr>)
    \<and> opens P (P ([t_subpool_id (d_accin w), 0, 0, 0] @ elems (P (pk_elems (d_approval_key w)))))
        (dp_mainpool_config_root (d_public P w)) MAIN_POOL_CONFIG_DEPTH
    \<and> S True (d_tx_hash P w) (d_approval_key w) (d_approval_sig w)
    \<and> (t_consume_config (d_accin w) \<longrightarrow> S True (d_tx_hash P w) (t_consume_pk (d_accin w)) (d_consume_sig w))
    \<and> (u256_wire (d_accin_amt w) \<and> u256_wire (dp_amount (d_public P w))
        \<and> list_all (\<lambda>x. unat (limb_carry x) < 2 ^ 31) (d_sum w) \<longrightarrow>
        limbs_value (d_accout_amt w) = (limbs_value (d_accin_amt w) + limbs_value (dp_amount (d_public P w))) mod 2 ^ 256)"
proof (intro conjI impI)
  note c = assms(1) [unfolded deposit_tx_circuit_def eqTrueI [OF assms(2)] simp_thms]
  show "opens P (derive_account_commitment P (d_accin w)) (dp_state_root (d_public P w)) STATE_TREE_DEPTH"
    "opens P (P ([t_subpool_id (d_accin w), 0, 0, 0] @ elems (P (pk_elems (d_approval_key w)))))
      (dp_mainpool_config_root (d_public P w)) MAIN_POOL_CONFIG_DEPTH"
    using c verify_opens by (auto simp: assert_subpool_full_proof_def d_public_def)
  show "\<exists>bits sibs. length bits = ACC_AST_DEPTH \<and> length sibs = ACC_AST_DEPTH
      \<and> fold_path (hash_output_hash P)
          (ast_leaf_circuit P (dp_asset_id (d_public P w)) (d_accin_amt w) (d_asset_exists_in_accin w))
          bits sibs = t_acc_ast_root (d_accin w)
      \<and> fold_path (hash_output_hash P)
          (ast_leaf_circuit P (dp_asset_id (d_public P w)) (d_accout_amt w) (d_asset_exists_in_accout w))
          bits sibs = t_acc_ast_root (d_accout w)"
    using c ast_constraint_paths [of P "d_asset_id w"] unfolding d_public_def deposit_public.simps by blast
  have "d_deposit_note w = \<lparr>dt_identifier = dt_identifier (d_deposit_note w),
      dt_recipient_subpool_id = t_subpool_id (d_accin w),
      dt_recipient_public_id = derive_public_identifier P (t_private_identifier (d_accin w)),
      dt_amount = dt_amount (d_deposit_note w), dt_asset_id = d_asset_id w\<rparr>"
    using c by (cases "d_deposit_note w") simp
  then show "\<exists>ident. dp_note_comm (d_public P w) = derive_deposit_note_comm P
      \<lparr>dt_identifier = ident, dt_recipient_subpool_id = t_subpool_id (d_accin w),
       dt_recipient_public_id = derive_public_identifier P (t_private_identifier (d_accin w)),
       dt_amount = dp_amount (d_public P w), dt_asset_id = dp_asset_id (d_public P w)\<rparr>"
    unfolding d_public_def deposit_public.simps by metis
  show "limbs_value (d_accout_amt w) = (limbs_value (d_accin_amt w) + limbs_value (dp_amount (d_public P w))) mod 2 ^ 256"
    if "u256_wire (d_accin_amt w) \<and> u256_wire (dp_amount (d_public P w))
      \<and> list_all (\<lambda>x. unat (limb_carry x) < 2 ^ 31) (d_sum w)"
    using c that sum2_value [of "d_accin_amt w" "dt_amount (d_deposit_note w)" "d_accout_amt w" "d_sum w"]
    by (simp add: deposit_arity_def d_public_def)
  show "d_accout w = (d_accin w)\<lparr>t_nonce := felt_add (t_nonce (d_accin w)) 1,
      t_acc_ast_root := t_acc_ast_root (d_accout w)\<rparr>"
    using c account_invariants_simple by blast
  show "S True (d_tx_hash P w) (t_consume_pk (d_accin w)) (d_consume_sig w)" if "t_consume_config (d_accin w)"
    using c that by simp
  show "S True (d_tx_hash P w) (d_approval_key w) (d_approval_sig w)" using c by blast
qed (simp_all add: d_public_def d_accin_null_def)

theorem deposit_circuit_sound_witness:
  "\<exists>ws. deposit_tx_circuit demo_hasher (\<lambda>_ _ _ _. True) (deposit_example demo_hasher 7 (replicate 20 1) ws)
    \<and> limbs_value (d_accout_amt (deposit_example demo_hasher 7 (replicate 20 1) ws)) = 7"
proof -
  obtain ws where ws: "assert_sum2 (u256_limbs 0) (u256_limbs 7) (u256_limbs 7) ws"
      "list_all (\<lambda>w. unat (limb_carry w) < 2 ^ 31) ws"
    using sum2_exists [of "u256_limbs 0" "u256_limbs 7" "u256_limbs 7"] by (auto simp: u256_limbs_value)
  define w where "w = deposit_example demo_hasher 7 (replicate 20 1) ws"
  have ok: "deposit_tx_circuit demo_hasher (\<lambda>_ _ _ _. True) w"
    unfolding w_def by (rule deposit_example_accepted [OF ws(1)])
  have "d_not_fake_tx w" "d_accin_amt w = u256_limbs 0" "dp_amount (d_public demo_hasher w) = u256_limbs 7" "d_sum w = ws"
    by (simp_all add: w_def deposit_example_def Let_def d_public_def deposit_note_set_def U256Target_set_limbs)
  with deposit_circuit_sound [OF ok] ws(2) have "limbs_value (d_accout_amt w) = 7"
    by (simp add: u256_limbs_value)
  with ok show ?thesis unfolding w_def by blast
qed

text \<open>
  C36. What a satisfied circuit of a real withdrawal proves: the input account is in the tree with
  the published root; the published nullifier is its own and the published commitment that of
  the account with the nonce counted up and at most another asset root; the approval key is
  registered for the subpool under the published configuration root; the approval key and the
  account's spend key both signed the hash of the published assets, amounts and destination;
  and in a slot with honest carries the old balance is the new one plus the published amount,
  modulo \<open>2 ^ 256\<close>.
\<close>

theorem withdraw_circuit_sound:
  assumes "withdraw_tx_circuit P S w" and "x_not_fake_tx w"
  shows "opens P (derive_account_commitment P (x_accin w)) (xp_root (x_public P w)) STATE_TREE_DEPTH
    \<and> xp_accin_null (x_public P w) = derive_account_nullifier P (derive_account_commitment P (x_accin w))
        (derive_nullifier_key P (t_private_identifier (x_accin w)))
    \<and> xp_accout_comm (x_public P w) = derive_account_commitment P (x_accout w)
    \<and> x_accout w = (x_accin w)\<lparr>t_nonce := felt_add (t_nonce (x_accin w)) 1,
        t_acc_ast_root := t_acc_ast_root (x_accout w)\<rparr>
    \<and> opens P (P ([t_subpool_id (x_accin w), 0, 0, 0] @ elems (P (pk_elems (x_approval_key w)))))
        (xp_mainpool_config_root (x_public P w)) MAIN_POOL_CONFIG_DEPTH
    \<and> S True (withdraw_tx_hash_circuit P (xp_accin_null (x_public P w)) (xp_accout_comm (x_public P w))
        (xp_asset_ids (x_public P w)) (xp_withdrawal_amts (x_public P w)) (xp_w_acc_addr (x_public P w)))
        (x_approval_key w) (x_approval_sig w)
    \<and> S True (withdraw_tx_hash_circuit P (xp_accin_null (x_public P w)) (xp_accout_comm (x_public P w))
        (xp_asset_ids (x_public P w)) (xp_withdrawal_amts (x_public P w)) (xp_w_acc_addr (x_public P w)))
        (t_spend_auth (x_accin w)) (x_spend_sig w)
    \<and> (\<forall>i < NOTE_BATCH. u256_wire (s_accout_amt (x_slots w ! i)) \<and> u256_wire (xp_withdrawal_amts (x_public P w) ! i)
        \<and> list_all (\<lambda>x. unat (limb_carry x) < 2 ^ 31) (s_sum (x_slots w ! i)) \<longrightarrow>
        limbs_value (s_accin_amt (x_slots w ! i)) =
          (limbs_value (s_accout_amt (x_slots w ! i)) + limbs_value (xp_withdrawal_amts (x_public P w) ! i)) mod 2 ^ 256)"
proof (intro conjI allI impI)
  note c = assms(1) [unfolded withdraw_tx_circuit_def eqTrueI [OF assms(2)] simp_thms]
  show "opens P (derive_account_commitment P (x_accin w)) (xp_root (x_public P w)) STATE_TREE_DEPTH"
    "opens P (P ([t_subpool_id (x_accin w), 0, 0, 0] @ elems (P (pk_elems (x_approval_key w)))))
      (xp_mainpool_config_root (x_public P w)) MAIN_POOL_CONFIG_DEPTH"
    using c verify_opens by (auto simp: assert_subpool_full_proof_def x_public_def)
  show "x_accout w = (x_accin w)\<lparr>t_nonce := felt_add (t_nonce (x_accin w)) 1,
      t_acc_ast_root := t_acc_ast_root (x_accout w)\<rparr>"
    using c account_invariants_simple by blast
  fix i assume i: "i < NOTE_BATCH" and
    h: "u256_wire (s_accout_amt (x_slots w ! i)) \<and> u256_wire (xp_withdrawal_amts (x_public P w) ! i)
      \<and> list_all (\<lambda>x. unat (limb_carry x) < 2 ^ 31) (s_sum (x_slots w ! i))"
  have "length (x_slots w) = NOTE_BATCH" "x_slots w ! i \<in> set (x_slots w)"
    using c i by (simp_all add: withdraw_arity_def)
  moreover from this have "length (s_accin_amt (x_slots w ! i)) = 8"
    using c by (simp add: withdraw_arity_def list_all_iff)
  moreover have "assert_sum2 (s_accout_amt (x_slots w ! i)) (s_withdrawal_amt (x_slots w ! i))
      (s_accin_amt (x_slots w ! i)) (s_sum (x_slots w ! i))"
    using c i by (auto simp: list_all_iff assert_slot_def)
  ultimately show "limbs_value (s_accin_amt (x_slots w ! i)) =
      (limbs_value (s_accout_amt (x_slots w ! i)) + limbs_value (xp_withdrawal_amts (x_public P w) ! i)) mod 2 ^ 256"
    using h i sum2_value [of "s_accout_amt (x_slots w ! i)" "s_withdrawal_amt (x_slots w ! i)"]
    by (simp add: x_public_def)
qed (use assms in \<open>simp_all add: x_public_def x_accin_null_def x_tx_hash_def withdraw_tx_circuit_def\<close>)

text \<open>
  The chained slots are a sequence of leaf updates: when the input account's asset root is
  that of a tree with the leaves \<open>ls\<close>, walking the slots next to that tree either ends in a
  Poseidon collision or every slot finds its old balance at its position in the leaves left by
  the slots before it, and the output account's asset root is the root of the leaves after all
  seven writes.
\<close>

theorem withdraw_slots_are_updates:
  assumes "withdraw_tx_circuit P S w"
    and "t_acc_ast_root (x_accin w) = spec_root (hash_output_hash P) ACC_AST_DEPTH ls"
    and "f = leaf_at (hash_output_hash P) ls"
  shows "case replay_slots P f (x_slots w) of
      Some ((l, r), (l', r')) \<Rightarrow> (l, r) \<noteq> (l', r') \<and> P (elems l @ elems r) = P (elems l' @ elems r')
    | None \<Rightarrow> t_acc_ast_root (x_accout w)
          = node (hash_output_hash P) (foldl (write_slot P) f (x_slots w)) ACC_AST_DEPTH 0
        \<and> (\<forall>k < NOTE_BATCH. slot_leaf_in P (x_slots w ! k)
            = foldl (write_slot P) f (take k (x_slots w)) (slot_index (x_slots w ! k)))"
proof (cases "replay_slots P f (x_slots w)")
  case None
  let ?rs = "t_acc_ast_root (x_accin w) # x_intermediate_roots w @ [t_acc_ast_root (x_accout w)]"
  have len: "length (x_slots w) = NOTE_BATCH" "length (x_intermediate_roots w) = NOTE_BATCH - 1"
    using assms(1) by (simp_all add: withdraw_tx_circuit_def withdraw_arity_def)
  have "assert_slot P (x_slots w ! i) (?rs ! i) (?rs ! Suc i)" if "i < length (x_slots w)" for i
  proof -
    have "i < NOTE_BATCH" using that len by simp
    then have "?rs ! i = x_prev_root w i" "?rs ! Suc i = x_curr_root w i"
      using len by (auto simp: x_prev_root_def x_curr_root_def nth_Cons' nth_append NOTE_BATCH_def)
    then show ?thesis using assms(1) \<open>i < NOTE_BATCH\<close> by (simp add: withdraw_tx_circuit_def list_all_iff)
  qed
  then have "last ?rs = node (hash_output_hash P) (foldl (write_slot P) f (x_slots w)) ACC_AST_DEPTH 0
    \<and> (\<forall>k < length (x_slots w). slot_leaf_in P (x_slots w ! k)
        = foldl (write_slot P) f (take k (x_slots w)) (slot_index (x_slots w ! k)))"
    using len None assms(2,3) by (intro slot_chain) (simp_all add: NOTE_BATCH_def spec_root_def)
  with None len show ?thesis by simp
next
  case (Some c)
  obtain l r l' r' where c: "c = ((l, r), (l', r'))" by (metis surj_pair)
  show ?thesis unfolding Some c option.case prod.case
    by (rule replay_slots_collision [OF Some [unfolded c]])
qed


theorem withdraw_circuit_sound_witness:
  "\<exists>ws ws'. withdraw_tx_circuit demo_hasher (\<lambda>_ _ _ _. True) (overdraw_wires demo_hasher 7 [] ws ws')
    \<and> opens demo_hasher (derive_account_commitment demo_hasher (zero_path_account demo_hasher ZERO_hash))
        (xp_root (x_public demo_hasher (overdraw_wires demo_hasher 7 [] ws ws'))) STATE_TREE_DEPTH"
proof -
  obtain ws ws' where ok: "withdraw_tx_circuit demo_hasher (\<lambda>_ _ _ _. True) (overdraw_wires demo_hasher 7 [] ws ws')"
    using overdraw_exists by blast
  have "x_not_fake_tx (overdraw_wires demo_hasher 7 [] ws ws')"
    "x_accin (overdraw_wires demo_hasher 7 [] ws ws') = zero_path_account demo_hasher ZERO_hash"
    by (simp_all add: overdraw_wires_def Let_def)
  with withdraw_circuit_sound [OF ok] ok show ?thesis by metis
qed

theorem withdraw_slots_are_updates_witness:
  "\<exists>ws ws'. withdraw_tx_circuit sum_hasher (\<lambda>_ _ _ _. True) (overdraw_wires sum_hasher 7 [] ws ws')
    \<and> t_acc_ast_root (x_accout (overdraw_wires sum_hasher 7 [] ws ws'))
        = node (hash_output_hash sum_hasher) (foldl (write_slot sum_hasher) (\<lambda>_. ZERO_hash) (overdraw_slots 7 ws ws'))
            ACC_AST_DEPTH 0"
proof -
  obtain ws ws' where ok: "withdraw_tx_circuit sum_hasher (\<lambda>_ _ _ _. True) (overdraw_wires sum_hasher 7 [] ws ws')"
    using overdraw_exists by blast
  have f: "(\<lambda>_. ZERO_hash) = leaf_at (hash_output_hash sum_hasher) []"
    by (simp add: fun_eq_iff leaf_at_def hash_output_hash_def)
  have "t_acc_ast_root (x_accin (overdraw_wires sum_hasher 7 [] ws ws'))
      = spec_root (hash_output_hash sum_hasher) ACC_AST_DEPTH []"
    by (simp add: overdraw_wires_def Let_def zero_path_account_def sum_hasher_paths spec_root_def flip: f)
  note u = withdraw_slots_are_updates [OF ok this f]
  have "x_slots (overdraw_wires sum_hasher 7 [] ws ws') = overdraw_slots 7 ws ws'"
    by (simp add: overdraw_wires_def Let_def)
  with u ok show ?thesis by (auto simp: replay_overdraw)
qed

end
