(* ===== verification/Bridge_Public_Inputs.thy ===== *)
theory Bridge_Public_Inputs
  imports Bridge_Tx_Circuit
begin

section \<open>The public inputs of bridge transactions\<close>

text \<open>
  What the deposit and withdrawal circuits register as public inputs, read back in the
  aggregation circuit (\<^verbatim>\<open>from_pis\<close>) and by the server's accessors (\<^verbatim>\<open>DepositProof\<close>, \<^verbatim>\<open>WithdrawProof\<close>),
  including the address and the amounts that were split into 32-bit limbs.
\<close>

lemma u32_le_roundtrip_bytes: "length bs = 4 \<Longrightarrow> u32_to_le_bytes (u32_from_le_bytes bs) = bs"
  using u32_be_roundtrip_bytes [of "rev bs"]
  by (simp add: u32_to_be_bytes_def u32_from_be_bytes_def u32_to_le_bytes_def u32_from_le_bytes_def rev_swap)

lemma to_canonical_ucast32: "to_canonical_u64 (ucast (x :: u32)) = (ucast x :: felt)"
proof -
  have "unat (ucast x :: felt) < 2 ^ 32" using unsigned_less [where 'a = nat, of x] by (simp add: unat_ucast_u32)
  then show ?thesis by (simp add: canonical_lt)
qed

lemma lo32_ucast: "lo32 (ucast (x :: u32)) = x"
  unfolding lo32_def by (rule bit_word_eqI) (simp add: bit_ucast_iff)

lemma pi_u32_ok:
  assumes "k < length (pis p)" "pis p ! k = ucast (x :: u32)"
  shows "pi_u32 p k = Inr x"
  using assms by (simp add: pi_u32_def to_canonical_ucast32 lo32_ucast)

lemma slice_nth: "slice_at xs b n = ys \<Longrightarrow> b + n \<le> length xs \<Longrightarrow> i < n \<Longrightarrow> xs ! (b + i) = ys ! i"
  by (auto simp: slice_at_def)

lemma pi_address_ok:
  assumes "slice_at (pis p) b 5 = map_h160_to_f a" "b + 5 \<le> length (pis p)" "length a = 20"
  shows "pi_address p b = Inr a"
proof -
  have "from_fn 5 (\<lambda>i. pi_u32 p (b + i)) = (Inr (map (\<lambda>i. u32_from_le_bytes (slice_at a (4 * i) 4)) [0..<5])
      :: (batch_error, u32 list) result)"
  proof (rule from_fn_ok)
    fix i :: nat assume "i < 5"
    with slice_nth [OF assms(1,2), of i] assms(2)
    show "pi_u32 p (b + i) = Inr (u32_from_le_bytes (slice_at a (4 * i) 4))"
      by (intro pi_u32_ok) (simp_all add: map_h160_to_f_def)
  qed
  moreover have "concat (map u32_to_le_bytes (map (\<lambda>i. u32_from_le_bytes (slice_at a (4 * i) 4)) [0..<5]))
      = concat (map (\<lambda>i. slice_at a (i * 4) 4) [0..<5])"
    using assms(3) by (intro arg_cong [of _ _ concat]) (simp add: u32_le_roundtrip_bytes mult.commute del: upt_Suc)
  ultimately show ?thesis using concat_slices [of a 4 5] assms(3) by (simp add: pi_address_def)
qed

lemma u256_limbs_nth:
  "i < 4 \<Longrightarrow> u256_limbs v ! (2 * i) = ucast (lo32 (into_limb v i)) \<and> u256_limbs v ! (2 * i + 1) = ucast (hi32 (into_limb v i))"
  by (auto simp: less_4_cases u256_limbs_def u256_words_def upt_04)

lemma pi_amount_ok:
  assumes "slice_at (pis p) b 8 = u256_limbs v" "b + 8 \<le> length (pis p)"
  shows "pi_amount p b = Inr v"
proof -
  have "from_fn 4 (\<lambda>i. bind_r (pi_u32 p (b + 2 * i)) (\<lambda>lo. bind_r (pi_u32 p (b + 2 * i + 1)) (\<lambda>hi. Inr (join32 lo hi))))
    = (Inr (map (into_limb v) [0..<4]) :: (batch_error, u64 list) result)"
  proof (rule from_fn_ok)
    fix i :: nat assume i: "i < 4"
    have "pi_u32 p (b + 2 * i) = Inr (lo32 (into_limb v i))" "pi_u32 p (b + (2 * i + 1)) = Inr (hi32 (into_limb v i))"
      using i assms(2) slice_nth [OF assms, of "2 * i"] slice_nth [OF assms, of "2 * i + 1"] u256_limbs_nth [OF i, of v]
      by (auto intro!: pi_u32_ok)
    then show "bind_r (pi_u32 p (b + 2 * i)) (\<lambda>lo. bind_r (pi_u32 p (b + 2 * i + 1)) (\<lambda>hi. Inr (join32 lo hi)))
        = Inr (into_limb v i)"
      by (simp add: add.assoc)
  qed
  then show ?thesis using from_limbs_into_limb [of v] by (simp add: pi_amount_def upt_04)
qed

subsection \<open>Layouts\<close>

lemma deposit_slices:
  assumes "length (dp_eth_address t) = 5" "length (dp_amount t) = 8"
  defines "ps \<equiv> register_deposit t"
  shows "length ps = 35" "slice_at ps 0 4 = elems (dp_state_root t)" "slice_at ps 4 4 = elems (dp_mainpool_config_root t)"
    "ps ! 8 = bool_felt (dp_not_fake_tx t)" "slice_at ps 9 4 = elems (dp_accin_null t)"
    "slice_at ps 13 4 = elems (dp_accout_comm t)" "slice_at ps 17 4 = elems (dp_note_comm t)"
    "slice_at ps 21 5 = dp_eth_address t" "slice_at ps 26 8 = dp_amount t" "ps ! 34 = dp_asset_id t"
  unfolding ps_def register_deposit_def
  using assms(1,2) by (simp_all add: slice_at_def nth_append drop_Cons')

lemma withdraw_slices:
  assumes "length (xp_asset_ids t) = NOTE_BATCH" "length (xp_withdrawal_amts t) = NOTE_BATCH"
    and "list_all (\<lambda>a. length a = 8) (xp_withdrawal_amts t)" "length (xp_w_acc_addr t) = 5"
  defines "ps \<equiv> register_withdraw t"
  shows "length ps = 85" "slice_at ps 0 4 = elems (xp_root t)" "slice_at ps 4 4 = elems (xp_mainpool_config_root t)"
    "ps ! 8 = bool_felt (xp_not_fake_tx t)" "slice_at ps 9 4 = elems (xp_accin_null t)"
    "slice_at ps 13 4 = elems (xp_accout_comm t)" "slice_at ps 17 7 = xp_asset_ids t"
    "\<And>i. i < NOTE_BATCH \<Longrightarrow> slice_at ps (24 + i * 8) 8 = xp_withdrawal_amts t ! i"
    "slice_at ps 80 5 = xp_w_acc_addr t"
proof -
  define h where "h = elems (xp_root t) @ elems (xp_mainpool_config_root t) @ [bool_felt (xp_not_fake_tx t)]
     @ elems (xp_accin_null t) @ elems (xp_accout_comm t)"
  define x where "x = concat (xp_withdrawal_amts t)"
  have ps: "ps = h @ xp_asset_ids t @ x @ xp_w_acc_addr t" by (simp add: ps_def register_withdraw_def h_def x_def)
  have m: "map id (xp_withdrawal_amts t) = xp_withdrawal_amts t" by simp
  have l: "length h = 17" "length x = 56" "length (xp_asset_ids t) = 7"
    using length_concat_map_const [of "xp_withdrawal_amts t" id 8] assms
    by (simp_all add: h_def x_def NOTE_BATCH_def list_all_iff)
  show "length ps = 85" using l assms(4) by (simp add: ps)
  show "slice_at ps 0 4 = elems (xp_root t)" "slice_at ps 4 4 = elems (xp_mainpool_config_root t)"
    "ps ! 8 = bool_felt (xp_not_fake_tx t)" "slice_at ps 9 4 = elems (xp_accin_null t)"
    "slice_at ps 13 4 = elems (xp_accout_comm t)"
    unfolding ps by (simp_all add: l) (simp_all add: h_def nth_append slice_at_def drop_Cons')
  show "slice_at ps 17 7 = xp_asset_ids t" by (simp add: ps l)
  show "slice_at ps 80 5 = xp_w_acc_addr t" using assms(4) by (simp add: ps l)
  fix i assume i: "i < NOTE_BATCH"
  then have "i * 8 + 8 \<le> 56" by (simp add: NOTE_BATCH_def)
  then show "slice_at ps (24 + i * 8) 8 = xp_withdrawal_amts t ! i"
    using slice_concat_map [of i "xp_withdrawal_amts t" id 8] i assms(2,3) m
    by (simp add: ps l list_all_iff flip: x_def)
qed

subsection \<open>Properties\<close>

text \<open>
  The public inputs of a deposit: what the circuit registers is read back field by field in
  the aggregation circuit, the unique part is what the batch preimage takes, and the server's
  accessors return the commitment, the note commitment, the asset, the amount and the Ethereum
  address that were split into limbs.
\<close>

theorem deposit_public_inputs_read_back:
  assumes "pis p = register_deposit t" "dp_eth_address t = map_h160_to_f a" "length a = 20"
    and "dp_amount t = u256_limbs v"
  shows "deposit_from_pis (pis p) = Inr t
    \<and> batch_unique_pis p = Inr (deposit_unique_pi_targets t)
    \<and> act_root p = Inr (dp_state_root t) \<and> mainpool_config_root p = Inr (dp_mainpool_config_root t)
    \<and> not_fake_tx p = Inr (bool_felt (dp_not_fake_tx t))
    \<and> accin_nullifier p = Inr (dp_accin_null t) \<and> output_commitments_bridge p = Inr [dp_accout_comm t]
    \<and> deposit_pi_note_commitment p = Inr (dp_note_comm t) \<and> deposit_asset_id p = Inr (dp_asset_id t)
    \<and> deposit_amount p = Inr v \<and> deposit_eth_address p = Inr a"
proof -
  have l: "length (dp_eth_address t) = 5" "length (dp_amount t) = 8" by (simp_all add: assms(2,4) map_h160_to_f_def)
  note r = deposit_slices [OF l, folded assms(1)]
  have "bool_felt b = 1 \<longleftrightarrow> b" for b by (simp add: bool_felt_def)
  with r have "deposit_from_pis (pis p) = Inr t" by (simp add: deposit_from_pis_def)
  moreover have "batch_unique_pis p = Inr (deposit_unique_pi_targets t)"
    by (simp add: batch_unique_pis_def assms(1) register_deposit_def deposit_unique_pi_targets_def)
  moreover have "act_root p = Inr (dp_state_root t)" "mainpool_config_root p = Inr (dp_mainpool_config_root t)"
    "not_fake_tx p = Inr (bool_felt (dp_not_fake_tx t))" "accin_nullifier p = Inr (dp_accin_null t)"
    "output_commitments_bridge p = Inr [dp_accout_comm t]" "deposit_pi_note_commitment p = Inr (dp_note_comm t)"
    "deposit_asset_id p = Inr (dp_asset_id t)"
    using r by (simp_all add: act_root_def mainpool_config_root_def not_fake_tx_def accin_nullifier_def
        output_commitments_bridge_def accout_commitment_def deposit_pi_note_commitment_def deposit_asset_id_def pi_hash_def)
  moreover have "deposit_amount p = Inr v" "deposit_eth_address p = Inr a"
    unfolding deposit_amount_def deposit_eth_address_def
    using r assms(2-4) by (simp_all add: pi_amount_ok pi_address_ok)
  ultimately show ?thesis by blast
qed

theorem deposit_public_inputs_read_back_witness:
  "deposit_amount \<lparr>pis = register_deposit (d_public demo_hasher (deposit_example demo_hasher 7 (replicate 20 1) []))\<rparr> = Inr 7"
  using deposit_public_inputs_read_back
    [of "\<lparr>pis = register_deposit (d_public demo_hasher (deposit_example demo_hasher 7 (replicate 20 1) []))\<rparr>"
      "d_public demo_hasher (deposit_example demo_hasher 7 (replicate 20 1) [])" "replicate 20 1" 7]
  by (simp add: d_public_def deposit_example_def Let_def deposit_note_set_def U256Target_set_limbs)

text \<open>
  The public inputs of a withdrawal: what the circuit registers is read back field by field
  in the aggregation circuit, the unique part is what the batch preimage takes, and the
  server's accessors return the commitment, the seven assets and amounts and the Ethereum
  address that were split into limbs.
\<close>

theorem withdraw_public_inputs_read_back:
  assumes "pis p = register_withdraw t" "xp_w_acc_addr t = map_h160_to_f a" "length a = 20"
    and "xp_withdrawal_amts t = map u256_limbs vs" "length vs = NOTE_BATCH" "length (xp_asset_ids t) = NOTE_BATCH"
  shows "withdraw_from_pis (pis p) = Inr t
    \<and> batch_unique_pis p = Inr (withdraw_unique_pi_targets t)
    \<and> act_root p = Inr (xp_root t) \<and> mainpool_config_root p = Inr (xp_mainpool_config_root t)
    \<and> not_fake_tx p = Inr (bool_felt (xp_not_fake_tx t))
    \<and> accin_nullifier p = Inr (xp_accin_null t) \<and> output_commitments_bridge p = Inr [xp_accout_comm t]
    \<and> withdraw_asset_ids p = Inr (xp_asset_ids t) \<and> withdraw_amts p = Inr vs \<and> withdraw_address p = Inr a"
proof -
  have l: "length (xp_asset_ids t) = NOTE_BATCH" "length (xp_withdrawal_amts t) = NOTE_BATCH"
    "list_all (\<lambda>a. length a = 8) (xp_withdrawal_amts t)" "length (xp_w_acc_addr t) = 5"
    using assms by (simp_all add: list_all_iff map_h160_to_f_def)
  note r = withdraw_slices [OF l, folded assms(1)]
  have amt: "pis p ! (24 + (i * 8 + j)) = xp_withdrawal_amts t ! i ! j" if "i < NOTE_BATCH" "j < 8" for i j
    using slice_nth [OF r(8) [OF that(1)], of j] that r(1) by (simp add: NOTE_BATCH_def add.assoc)
  have "map (\<lambda>j. slice_at (pis p) 24 56 ! (i * 8 + j)) [0..<8] = xp_withdrawal_amts t ! i" if "i < NOTE_BATCH" for i
    using that l r(1) amt by (intro nth_equalityI) (auto simp: slice_at_def list_all_length NOTE_BATCH_def)
  then have amts: "map (\<lambda>i. map (\<lambda>j. slice_at (pis p) 24 56 ! (i * 8 + j)) [0..<8]) [0..<NOTE_BATCH] = xp_withdrawal_amts t"
    using l(2) by (intro nth_equalityI) (simp_all del: upt_Suc)
  have "bool_felt b = 1 \<longleftrightarrow> b" for b by (simp add: bool_felt_def)
  with r(1-7,9) amts have "withdraw_from_pis (pis p) = Inr t" by (simp add: withdraw_from_pis_def NOTE_BATCH_def del: upt_Suc)
  moreover have "batch_unique_pis p = Inr (withdraw_unique_pi_targets t)"
    by (simp add: batch_unique_pis_def assms(1) register_withdraw_def withdraw_unique_pi_targets_def)
  moreover have "act_root p = Inr (xp_root t)" "mainpool_config_root p = Inr (xp_mainpool_config_root t)"
    "not_fake_tx p = Inr (bool_felt (xp_not_fake_tx t))" "accin_nullifier p = Inr (xp_accin_null t)"
    "output_commitments_bridge p = Inr [xp_accout_comm t]"
    using r by (simp_all add: act_root_def mainpool_config_root_def not_fake_tx_def accin_nullifier_def
        output_commitments_bridge_def accout_commitment_def pi_hash_def)
  moreover have "withdraw_address p = Inr a"
    unfolding withdraw_address_def using r assms(2,3) by (simp add: pi_address_ok)
  moreover have "withdraw_amts p = Inr vs"
  proof -
    have "withdraw_amts p = Inr (map (\<lambda>i. vs ! i) [0..<NOTE_BATCH])"
      unfolding withdraw_amts_def using r(1,8) assms(4,5)
      by (intro from_fn_ok pi_amount_ok) (simp_all add: NOTE_BATCH_def)
    then show ?thesis using map_nth [of vs] assms(5) by simp
  qed
  moreover have "withdraw_asset_ids p = Inr (xp_asset_ids t)"
  proof -
    have "withdraw_asset_ids p = Inr (map (\<lambda>i. xp_asset_ids t ! i) [0..<NOTE_BATCH])"
      unfolding withdraw_asset_ids_def using r(1) slice_nth [OF r(7)]
      by (intro from_fn_ok) (simp_all add: NOTE_BATCH_def)
    then show ?thesis using map_nth [of "xp_asset_ids t"] l(1) by simp
  qed
  ultimately show ?thesis by blast
qed

theorem withdraw_public_inputs_read_back_witness:
  "withdraw_amts \<lparr>pis = register_withdraw (x_public demo_hasher (overdraw_wires demo_hasher 7 (replicate 20 1) [] []))\<rparr>
    = Inr (7 # replicate 6 0)"
  using withdraw_public_inputs_read_back
    [of "\<lparr>pis = register_withdraw (x_public demo_hasher (overdraw_wires demo_hasher 7 (replicate 20 1) [] []))\<rparr>"
      "x_public demo_hasher (overdraw_wires demo_hasher 7 (replicate 20 1) [] [])" "replicate 20 1" "7 # replicate 6 0"]
  by (simp add: x_public_def overdraw_wires_def Let_def overdraw_slots_def NOTE_BATCH_def)

end
