(* ===== verification/Spend_Builder.thy ===== *)
theory Spend_Builder
  imports Priv_Tx_Circuit
begin

section \<open>The builders of private transactions\<close>

text \<open>
  \<^verbatim>\<open>doxa-client/src/plonky2_gadgets/priv_tx/builder\<close>: the spend, fresh-account and fake builders and
  their conversion to \<^verbatim>\<open>BuiltPrivTx\<close>. A builder is a record, a chained method a function to a result.
  Random draws are arguments: the identifier of a created note, the stream of dummy seeds. Key
  derivation and signing are arguments \<open>pk_of\<close> and \<open>sign\<close>, of a type \<open>'k\<close> of private keys and a
  type \<open>'g\<close> of signatures; \<open>k\<close> is the sampled nonce. The arithmetic of \<^verbatim>\<open>U256\<close> panics on overflow.
\<close>

datatype spend_error =
    AccountNotInitialized | NoteBatchLimitReached string nat | AssetMismatch asset_id asset_id
  | RecipientMismatch | NoActiveNotes | InsufficientBalance u256 u256 u256
  | DummyNotesNotFilled string | AccountPathNotSet | NotePathsNotSet | SubpoolProofNotSet

datatype sign_error =
    ConsumeNotRequired bool bool | ConsumeDelegated | ConsumeKeyNotSet | SpendNotRequired
  | SpendKeyNotSet | KeyMismatch string pubkey pubkey

datatype fresh_error =
    AccountAlreadyInitialized | FreshSpendKeyNotSet | FreshConsumeKeyNotSet | FreshDummyNotesNotFilled string
  | StateRootNotSet | FreshSubpoolProofNotSet | ApprovalSigNotSet

subsection \<open>Collecting results\<close>

fun collect_r :: "('i \<Rightarrow> 'x + 'a) \<Rightarrow> 'i list \<Rightarrow> 'x + 'a list" where
  "collect_r f [] = Inr []"
| "collect_r f (i # is) = bind_r (f i) (\<lambda>a. bind_r (collect_r f is) (\<lambda>as. Inr (a # as)))"

lemma collect_r_Inr: "collect_r f is = Inr as \<longleftrightarrow> length as = length is \<and> (\<forall>i < length is. f (is ! i) = Inr (as ! i))"
proof (induction "is" arbitrary: as)
  case (Cons i "is")
  then show ?case
    by (cases as) (auto simp: result_simps nth_Cons split: nat.splits)
qed auto

lemma collect_r_all: "(\<And>i. i \<in> set is \<Longrightarrow> f i = Inr (g i)) \<Longrightarrow> collect_r f is = Inr (map g is)"
  by (induction "is") simp_all

text \<open>A sum of amounts with the panicking addition.\<close>

definition u256_add :: "u256 \<Rightarrow> u256 \<Rightarrow> ('e, u256) result" where
  "u256_add a b = (if unat a + unat b < 2 ^ 256 then Inr (a + b) else Inl (Panic Arith_overflow))"

definition u256_sum :: "u256 list \<Rightarrow> ('e, u256) result" where
  "u256_sum xs = for_each (\<lambda>b a. u256_add a b) xs 0"

definition u256_checked_add :: "u256 \<Rightarrow> u256 \<Rightarrow> u256 option" where
  "u256_checked_add a b = (if unat a + unat b < 2 ^ 256 then Some (a + b) else None)"

definition u256_checked_sub :: "u256 \<Rightarrow> u256 \<Rightarrow> u256 option" where
  "u256_checked_sub a b = (if b \<le> a then Some (a - b) else None)"

definition double_hash_native :: "hasher \<Rightarrow> hash_output \<Rightarrow> hash_output" where
  "double_hash_native P seed = P (elems (P (elems seed)))"

subsection \<open>The spend builder\<close>

record spend_builder =
  sb_accin :: account
  sb_asset_id :: asset_id
  input_notes :: "(standard_note \<times> nat) list"
  output_notes :: "standard_note list"
  rejected_notes :: "(standard_note \<times> nat) list"
  sb_dinotes :: "hash_output list option"
  sb_donotes :: "hash_output list option"

definition spend_new :: "account \<Rightarrow> asset_id \<Rightarrow> (spend_error, spend_builder) result" where
  "spend_new accin asset =
     (if nonce accin = 0 then Inl (Err AccountNotInitialized)
      else Inr \<lparr>sb_accin = accin, sb_asset_id = asset, input_notes = [], output_notes = [],
             rejected_notes = [], sb_dinotes = None, sb_donotes = None\<rparr>)"

definition add_input_note ::
  "hasher \<Rightarrow> standard_note \<Rightarrow> nat \<Rightarrow> spend_builder \<Rightarrow> (spend_error, spend_builder) result" where
  "add_input_note P n position b =
     (if length (rejected_notes b) + length (input_notes b) + 1 > NOTE_BATCH
      then Inl (Err (NoteBatchLimitReached ''input'' NOTE_BATCH))
      else if note_asset_id n \<noteq> sb_asset_id b
      then Inl (Err (AssetMismatch (sb_asset_id b) (note_asset_id n)))
      else if recipient n \<noteq> address_from_acc P (sb_accin b) then Inl (Err RecipientMismatch)
      else Inr (b\<lparr>input_notes := input_notes b @ [(n, position)]\<rparr>))"

definition note_create ::
  "felt \<times> felt \<Rightarrow> account_address \<Rightarrow> account_address \<Rightarrow> u256 \<Rightarrow> asset_id \<Rightarrow> bytes \<Rightarrow> standard_note" where
  "note_create ident rcpt sndr amount asset mm =
     \<lparr>note_identifier = ident, note_asset_id = asset, amt = amount, recipient = rcpt, sender = sndr, memo = mm\<rparr>"

definition add_output_note ::
  "hasher \<Rightarrow> account_address \<Rightarrow> u256 \<Rightarrow> bytes \<Rightarrow> felt \<times> felt \<Rightarrow> spend_builder \<Rightarrow> (spend_error, spend_builder) result" where
  "add_output_note P rcpt amount mm ident b =
     (if length (rejected_notes b) + length (output_notes b) + 1 > NOTE_BATCH
      then Inl (Err (NoteBatchLimitReached ''output'' NOTE_BATCH))
      else Inr (b\<lparr>output_notes := output_notes b
             @ [note_create ident rcpt (address_from_acc P (sb_accin b)) amount (sb_asset_id b) mm]\<rparr>))"

definition add_rejected_note ::
  "hasher \<Rightarrow> standard_note \<Rightarrow> nat \<Rightarrow> spend_builder \<Rightarrow> (spend_error, spend_builder) result" where
  "add_rejected_note P n position b =
     (if length (rejected_notes b) + 1 + max (length (input_notes b)) (length (output_notes b)) > NOTE_BATCH
      then Inl (Err (NoteBatchLimitReached ''rejected'' NOTE_BATCH))
      else if note_asset_id n \<noteq> sb_asset_id b
      then Inl (Err (AssetMismatch (sb_asset_id b) (note_asset_id n)))
      else if recipient n \<noteq> address_from_acc P (sb_accin b) then Inl (Err RecipientMismatch)
      else Inr (b\<lparr>rejected_notes := rejected_notes b @ [(n, position)]\<rparr>))"

text \<open>The number of dummy seeds; \<^verbatim>\<open>usize\<close> subtraction underflows with a panic.\<close>

definition dummy_count :: "nat \<Rightarrow> nat \<Rightarrow> ('e, nat) result" where
  "dummy_count a b = (if a + b \<le> NOTE_BATCH then Inr (NOTE_BATCH - a - b) else Inl (Panic Arith_overflow))"

definition fill_dinotes :: "(nat \<Rightarrow> hash_output) \<Rightarrow> spend_builder \<Rightarrow> (spend_error, spend_builder) result" where
  "fill_dinotes rng b =
     bind_r (dummy_count (length (input_notes b)) (length (rejected_notes b))) (\<lambda>count.
       Inr (b\<lparr>sb_dinotes := Some (map rng [0..<count])\<rparr>))"

definition fill_donotes :: "(nat \<Rightarrow> hash_output) \<Rightarrow> spend_builder \<Rightarrow> (spend_error, spend_builder) result" where
  "fill_donotes rng b =
     bind_r (dummy_count (length (output_notes b)) (length (rejected_notes b))) (\<lambda>count.
       Inr (b\<lparr>sb_donotes := Some (map rng [0..<count])\<rparr>))"

record 'g built_spend =
  bs_accin :: account
  bs_accout :: account
  bs_rejected :: "(standard_note \<times> nat) list"
  bs_inotes :: "(standard_note \<times> nat) list"
  bs_onotes :: "standard_note list"
  bs_dinotes :: "hash_output list"
  bs_donotes :: "hash_output list"
  bs_tx_hash :: hash_output
  bs_subpool_id :: felt
  bs_accin_proof :: "hash_output merkle_proof option"
  bs_inotes_nct_proofs :: "hash_output merkle_proof list option"
  bs_rejected_nct_proofs :: "hash_output merkle_proof list option"
  bs_subpool_proof :: "subpool_full_proof option"
  bs_spend_sig :: "'g option"
  bs_consume_sig :: "'g option"
  bs_approval_sig :: "'g option"

text \<open>The note returned to its sender.\<close>

definition rejected_onote :: "standard_note \<Rightarrow> standard_note" where
  "rejected_onote n = n\<lparr>recipient := sender n\<rparr>"

definition tx_inote_null ::
  "hasher \<Rightarrow> hash_output \<Rightarrow> (standard_note \<times> nat) list \<Rightarrow> (standard_note \<times> nat) list \<Rightarrow> hash_output list \<Rightarrow> nat
     \<Rightarrow> (spend_error, hash_output) result" where
  "tx_inote_null P key rejected inputs dinotes i =
     (let n_rjct = length rejected; n_in = length inputs in
      if i < n_rjct then case rejected ! i of (n, position) \<Rightarrow> unwrap_r (note_nullifier P n position key)
      else let j = i - n_rjct in
        if j < n_in then case inputs ! j of (n, position) \<Rightarrow> unwrap_r (note_nullifier P n position key)
        else bind_r (vec_get dinotes (j - n_in)) (\<lambda>seed. Inr (double_hash_native P seed)))"

definition tx_onote_comm ::
  "hasher \<Rightarrow> (standard_note \<times> nat) list \<Rightarrow> standard_note list \<Rightarrow> hash_output list \<Rightarrow> nat
     \<Rightarrow> (spend_error, hash_output) result" where
  "tx_onote_comm P rejected outputs donotes i =
     (let n_rjct = length rejected; n_out = length outputs in
      if i < n_rjct then Inr (note_commitment P (rejected_onote (fst (rejected ! i))))
      else let j = i - n_rjct in
        if j < n_out then Inr (note_commitment P (outputs ! j))
        else bind_r (vec_get donotes (j - n_out)) (\<lambda>seed. Inr (double_hash_native P seed)))"

text \<open>\<^verbatim>\<open>build\<close>: the new balance, then the output account and the transaction hash.\<close>

definition spend_balance :: "spend_builder \<Rightarrow> (spend_error, u256) result" where
  "spend_balance b =
     bind_r (u256_sum (map (\<lambda>(n, _). amt n) (input_notes b))) (\<lambda>delta_in.
     bind_r (u256_sum (map amt (output_notes b))) (\<lambda>delta_out.
     let old_bal = (case amount_for (ast (sb_accin b)) (sb_asset_id b) of Some (_, v) \<Rightarrow> v | None \<Rightarrow> 0) in
     ok_or (case u256_checked_add old_bal delta_in of None \<Rightarrow> None | Some s \<Rightarrow> u256_checked_sub s delta_out)
       (InsufficientBalance old_bal delta_in delta_out)))"

definition spend_finish :: "hasher \<Rightarrow> spend_builder \<Rightarrow> u256 \<Rightarrow> (spend_error, 'g built_spend) result" where
  "spend_finish P b new_bal =
     (let accout = clone_with_incremented_nonce (sb_accin b) in
      bind_r (unwrap_r (insert_or_update_asset P (sb_asset_id b) new_bal (ast accout))) (\<lambda>(_, out_ast).
      let accout = accout\<lparr>ast := out_ast\<rparr> in
      bind_r (ok_or (sb_dinotes b) (DummyNotesNotFilled ''input'')) (\<lambda>dinotes.
      bind_r (ok_or (sb_donotes b) (DummyNotesNotFilled ''output'')) (\<lambda>donotes.
      bind_r (collect_r (tx_inote_null P (nk P (sb_accin b)) (rejected_notes b) (input_notes b) dinotes)
          [0..<NOTE_BATCH]) (\<lambda>nulls.
      bind_r (collect_r (tx_onote_comm P (rejected_notes b) (output_notes b) donotes) [0..<NOTE_BATCH]) (\<lambda>comms.
      bind_r (unwrap_r (account_nullifier P (sb_accin b))) (\<lambda>accin_null.
      bind_r (unwrap_r (account_commitment P accout)) (\<lambda>accout_comm.
      Inr \<lparr>bs_accin = sb_accin b, bs_accout = accout, bs_rejected = rejected_notes b,
           bs_inotes = input_notes b, bs_onotes = output_notes b, bs_dinotes = dinotes, bs_donotes = donotes,
           bs_tx_hash = derive_priv_tx_hash P accin_null accout_comm nulls comms,
           bs_subpool_id = subpool_id (sb_accin b), bs_accin_proof = None, bs_inotes_nct_proofs = None,
           bs_rejected_nct_proofs = None, bs_subpool_proof = None, bs_spend_sig = None,
           bs_consume_sig = None, bs_approval_sig = None\<rparr>))))))))"

definition spend_build :: "hasher \<Rightarrow> spend_builder \<Rightarrow> (spend_error, 'g built_spend) result" where
  "spend_build P b =
     (if input_notes b = [] \<and> output_notes b = [] \<and> rejected_notes b = [] then Inl (Err NoActiveNotes)
      else bind_r (spend_balance b) (spend_finish P b))"

subsection \<open>Signing and proofs\<close>

definition consume_sign ::
  "('k \<Rightarrow> pubkey) \<Rightarrow> ('k \<Rightarrow> felt list \<Rightarrow> 'c \<Rightarrow> 'g) \<Rightarrow> 'k \<Rightarrow> 'c \<Rightarrow> 'g built_spend \<Rightarrow> (sign_error, 'g built_spend) result" where
  "consume_sign pk_of sign sk k tx =
     (let no_input_notes = bs_inotes tx = [] \<and> bs_rejected tx = []; has_output_notes = bs_onotes tx \<noteq> [] in
      if no_input_notes \<or> has_output_notes
      then Inl (Err (ConsumeNotRequired (\<not> no_input_notes) has_output_notes))
      else if \<not> consume_config (bs_accin tx) then Inl (Err ConsumeDelegated)
      else bind_r (ok_or (consume_pk (bs_accin tx)) ConsumeKeyNotSet) (\<lambda>expected_pk.
        if expected_pk \<noteq> pk_of sk then Inl (Err (KeyMismatch ''consume'' expected_pk (pk_of sk)))
        else Inr (tx\<lparr>bs_consume_sig := Some (sign sk (elems (bs_tx_hash tx)) k)\<rparr>)))"

definition spend_sign ::
  "('k \<Rightarrow> pubkey) \<Rightarrow> ('k \<Rightarrow> felt list \<Rightarrow> 'c \<Rightarrow> 'g) \<Rightarrow> 'k \<Rightarrow> 'c \<Rightarrow> 'g built_spend \<Rightarrow> (sign_error, 'g built_spend) result" where
  "spend_sign pk_of sign sk k tx =
     (if bs_onotes tx = [] then Inl (Err SpendNotRequired)
      else bind_r (ok_or (spend_pk (bs_accin tx)) SpendKeyNotSet) (\<lambda>expected_pk.
        if expected_pk \<noteq> pk_of sk then Inl (Err (KeyMismatch ''spend'' expected_pk (pk_of sk)))
        else Inr (tx\<lparr>bs_spend_sig := Some (sign sk (elems (bs_tx_hash tx)) k)\<rparr>)))"

definition approval_sign ::
  "('k \<Rightarrow> felt list \<Rightarrow> 'c \<Rightarrow> 'g) \<Rightarrow> 'k \<Rightarrow> 'c \<Rightarrow> 'g built_spend \<Rightarrow> (sign_error, 'g built_spend) result" where
  "approval_sign sign sk k tx = Inr (tx\<lparr>bs_approval_sig := Some (sign sk (elems (bs_tx_hash tx)) k)\<rparr>)"

definition with_account_path :: "hash_output merkle_proof \<Rightarrow> 'g built_spend \<Rightarrow> 'g built_spend" where
  "with_account_path p tx = tx\<lparr>bs_accin_proof := Some p\<rparr>"

definition with_input_notes_path :: "hash_output merkle_proof list \<Rightarrow> 'g built_spend \<Rightarrow> 'g built_spend" where
  "with_input_notes_path ps tx = tx\<lparr>bs_inotes_nct_proofs := Some ps\<rparr>"

definition with_rejected_notes_path :: "hash_output merkle_proof list \<Rightarrow> 'g built_spend \<Rightarrow> 'g built_spend" where
  "with_rejected_notes_path ps tx = tx\<lparr>bs_rejected_nct_proofs := Some ps\<rparr>"

definition with_subpool_proof :: "subpool_full_proof \<Rightarrow> 'g built_spend \<Rightarrow> 'g built_spend" where
  "with_subpool_proof p tx = tx\<lparr>bs_subpool_proof := Some p\<rparr>"

record required_signatures =
  rs_spend :: bool
  rs_consume :: bool
  rs_approval :: bool

definition required_sigs :: "'g built_spend \<Rightarrow> required_signatures" where
  "required_sigs tx =
     \<lparr>rs_spend = (bs_onotes tx \<noteq> []),
      rs_consume = (bs_inotes tx \<noteq> [] \<and> bs_onotes tx = [] \<and> consume_config (bs_accin tx)),
      rs_approval = True\<rparr>"

subsection \<open>The unified transaction\<close>

record tx_kind_flags =
  f_is_fresh_acc :: bool
  f_is_update_auth :: bool
  f_is_priv_tx :: bool
  f_not_fake_tx :: bool

definition FLAGS_FAKE :: tx_kind_flags where
  "FLAGS_FAKE = \<lparr>f_is_fresh_acc = False, f_is_update_auth = False, f_is_priv_tx = False, f_not_fake_tx = False\<rparr>"

definition FLAGS_FRESH_ACC :: tx_kind_flags where
  "FLAGS_FRESH_ACC = \<lparr>f_is_fresh_acc = True, f_is_update_auth = False, f_is_priv_tx = False, f_not_fake_tx = True\<rparr>"

definition FLAGS_SPEND :: tx_kind_flags where
  "FLAGS_SPEND = \<lparr>f_is_fresh_acc = False, f_is_update_auth = False, f_is_priv_tx = True, f_not_fake_tx = True\<rparr>"

record 'g built_priv_tx =
  bt_flags :: tx_kind_flags
  bt_accin :: account
  bt_accout :: account
  bt_accin_merkle_proof :: "hash_output merkle_proof"
  bt_rejected_inotes :: "standard_note list"
  bt_rejected_nct_proofs :: "hash_output merkle_proof list"
  bt_inotes :: "standard_note list"
  bt_inotes_nct_proofs :: "hash_output merkle_proof list"
  bt_onotes :: "standard_note list"
  bt_dinotes :: "hash_output list"
  bt_donotes :: "hash_output list"
  bt_tx_hash :: hash_output
  bt_state_root :: hash_output
  bt_subpool_id :: felt
  bt_mainpool_config_root :: hash_output
  bt_subpool_proof :: subpool_full_proof
  bt_approval_key :: pubkey
  bt_spend_sig :: "'g option"
  bt_consume_sig :: "'g option"
  bt_approval_sig :: "'g option"

definition spend_into_priv_tx :: "'g built_spend \<Rightarrow> (spend_error, 'g built_priv_tx) result" where
  "spend_into_priv_tx tx =
     bind_r (ok_or (bs_accin_proof tx) AccountPathNotSet) (\<lambda>accin_proof.
     bind_r (ok_or (bs_inotes_nct_proofs tx) NotePathsNotSet) (\<lambda>inote_proofs.
     bind_r (ok_or (bs_rejected_nct_proofs tx) NotePathsNotSet) (\<lambda>rejected_proofs.
     bind_r (ok_or (bs_subpool_proof tx) SubpoolProofNotSet) (\<lambda>sp.
     Inr \<lparr>bt_flags = FLAGS_SPEND, bt_accin = bs_accin tx, bt_accout = bs_accout tx,
          bt_accin_merkle_proof = accin_proof, bt_rejected_inotes = map fst (bs_rejected tx),
          bt_rejected_nct_proofs = rejected_proofs, bt_inotes = map fst (bs_inotes tx),
          bt_inotes_nct_proofs = inote_proofs, bt_onotes = bs_onotes tx, bt_dinotes = bs_dinotes tx,
          bt_donotes = bs_donotes tx, bt_tx_hash = bs_tx_hash tx, bt_state_root = proof_root accin_proof,
          bt_subpool_id = bs_subpool_id tx, bt_mainpool_config_root = proof_root (main_pool_proof sp),
          bt_subpool_proof = sp, bt_approval_key = approval_key (sp_config sp),
          bt_spend_sig = bs_spend_sig tx, bt_consume_sig = bs_consume_sig tx,
          bt_approval_sig = bs_approval_sig tx\<rparr>))))"

definition dummy_merkle_proof :: "hash_output merkle_proof" where
  "dummy_merkle_proof =
     \<lparr>proof_leaf = ZERO_hash, siblings = replicate STATE_TREE_DEPTH ZERO_hash,
      path = replicate STATE_TREE_DEPTH False, pos = 0, proof_num_leaves = 0, proof_root = ZERO_hash\<rparr>"

subsection \<open>Fresh accounts\<close>

record fresh_builder =
  fb_accin :: account
  fb_new_spend_pk :: "pubkey option"
  fb_new_consume_auth :: "(bool \<times> pubkey option) option"
  fb_dinotes :: "hash_output list option"
  fb_donotes :: "hash_output list option"

definition fresh_new :: "account \<Rightarrow> (fresh_error, fresh_builder) result" where
  "fresh_new accin =
     (if nonce accin \<noteq> 0 then Inl (Err AccountAlreadyInitialized)
      else Inr \<lparr>fb_accin = accin, fb_new_spend_pk = None, fb_new_consume_auth = None, fb_dinotes = None, fb_donotes = None\<rparr>)"

definition with_new_spend_key :: "pubkey \<Rightarrow> fresh_builder \<Rightarrow> fresh_builder" where
  "with_new_spend_key pk b = b\<lparr>fb_new_spend_pk := Some pk\<rparr>"

definition with_new_consume_key :: "pubkey \<Rightarrow> fresh_builder \<Rightarrow> fresh_builder" where
  "with_new_consume_key pk b = b\<lparr>fb_new_consume_auth := Some (True, Some pk)\<rparr>"

definition with_delegated_consume :: "fresh_builder \<Rightarrow> fresh_builder" where
  "with_delegated_consume b = b\<lparr>fb_new_consume_auth := Some (False, None)\<rparr>"

definition fresh_fill_dinotes :: "(nat \<Rightarrow> hash_output) \<Rightarrow> fresh_builder \<Rightarrow> fresh_builder" where
  "fresh_fill_dinotes rng b = b\<lparr>fb_dinotes := Some (map rng [0..<NOTE_BATCH])\<rparr>"

definition fresh_fill_donotes :: "(nat \<Rightarrow> hash_output) \<Rightarrow> fresh_builder \<Rightarrow> fresh_builder" where
  "fresh_fill_donotes rng b = b\<lparr>fb_donotes := Some (map rng [0..<NOTE_BATCH])\<rparr>"

record 'g built_fresh =
  bf_accin :: account
  bf_accout :: account
  bf_dinotes :: "hash_output list"
  bf_donotes :: "hash_output list"
  bf_tx_hash :: hash_output
  bf_subpool_id :: felt
  bf_state_root :: "hash_output option"
  bf_subpool_proof :: "subpool_full_proof option"
  bf_approval_sig :: "'g option"

definition dummy_digests :: "hasher \<Rightarrow> hash_output list \<Rightarrow> ('e, hash_output list) result" where
  "dummy_digests P seeds =
     collect_r (\<lambda>i. bind_r (vec_get seeds i) (\<lambda>seed. Inr (double_hash_native P seed))) [0..<NOTE_BATCH]"

definition fresh_build :: "hasher \<Rightarrow> fresh_builder \<Rightarrow> (fresh_error, 'g built_fresh) result" where
  "fresh_build P b =
     bind_r (ok_or (fb_new_spend_pk b) FreshSpendKeyNotSet) (\<lambda>spend.
     bind_r (ok_or (fb_new_consume_auth b) FreshConsumeKeyNotSet) (\<lambda>(config, consume).
     let accout = (clone_with_incremented_nonce (fb_accin b))
           \<lparr>spend_pk := Some spend, consume_config := config, consume_pk := consume\<rparr> in
     bind_r (ok_or (fb_dinotes b) (FreshDummyNotesNotFilled ''input'')) (\<lambda>dinotes.
     bind_r (ok_or (fb_donotes b) (FreshDummyNotesNotFilled ''output'')) (\<lambda>donotes.
     bind_r (dummy_digests P dinotes) (\<lambda>nulls.
     bind_r (dummy_digests P donotes) (\<lambda>comms.
     bind_r (unwrap_r (account_nullifier P (fb_accin b))) (\<lambda>accin_null.
     bind_r (unwrap_r (account_commitment P accout)) (\<lambda>accout_comm.
     Inr \<lparr>bf_accin = fb_accin b, bf_accout = accout, bf_dinotes = dinotes, bf_donotes = donotes,
          bf_tx_hash = derive_priv_tx_hash P accin_null accout_comm nulls comms,
          bf_subpool_id = subpool_id (fb_accin b), bf_state_root = None, bf_subpool_proof = None,
          bf_approval_sig = None\<rparr>))))))))"

definition fresh_approval_sign ::
  "('k \<Rightarrow> felt list \<Rightarrow> 'c \<Rightarrow> 'g) \<Rightarrow> 'k \<Rightarrow> 'c \<Rightarrow> 'g built_fresh \<Rightarrow> (sign_error, 'g built_fresh) result" where
  "fresh_approval_sign sign sk k tx = Inr (tx\<lparr>bf_approval_sig := Some (sign sk (elems (bf_tx_hash tx)) k)\<rparr>)"

definition with_state_root :: "hash_output \<Rightarrow> 'g built_fresh \<Rightarrow> 'g built_fresh" where
  "with_state_root r tx = tx\<lparr>bf_state_root := Some r\<rparr>"

definition fresh_with_subpool_proof :: "subpool_full_proof \<Rightarrow> 'g built_fresh \<Rightarrow> 'g built_fresh" where
  "fresh_with_subpool_proof p tx = tx\<lparr>bf_subpool_proof := Some p\<rparr>"

definition fresh_into_priv_tx :: "'g built_fresh \<Rightarrow> (fresh_error, 'g built_priv_tx) result" where
  "fresh_into_priv_tx tx =
     bind_r (ok_or (bf_approval_sig tx) ApprovalSigNotSet) (\<lambda>approval.
     bind_r (ok_or (bf_state_root tx) StateRootNotSet) (\<lambda>r.
     bind_r (ok_or (bf_subpool_proof tx) FreshSubpoolProofNotSet) (\<lambda>sp.
     Inr \<lparr>bt_flags = FLAGS_FRESH_ACC, bt_accin = bf_accin tx, bt_accout = bf_accout tx,
          bt_accin_merkle_proof = dummy_merkle_proof, bt_rejected_inotes = [], bt_rejected_nct_proofs = [],
          bt_inotes = [], bt_inotes_nct_proofs = [], bt_onotes = [], bt_dinotes = bf_dinotes tx,
          bt_donotes = bf_donotes tx, bt_tx_hash = bf_tx_hash tx, bt_state_root = r,
          bt_subpool_id = bf_subpool_id tx, bt_mainpool_config_root = proof_root (main_pool_proof sp),
          bt_subpool_proof = sp, bt_approval_key = approval_key (sp_config sp),
          bt_spend_sig = None, bt_consume_sig = None, bt_approval_sig = Some approval\<rparr>)))"

subsection \<open>Fake transactions\<close>

text \<open>The fake builder and its built form both hold the two roots.\<close>

record fake_tx =
  fk_state_root :: hash_output
  fk_mainpool_config_root :: hash_output

definition fake_new :: "hash_output \<Rightarrow> hash_output \<Rightarrow> fake_tx" where
  "fake_new r c = \<lparr>fk_state_root = r, fk_mainpool_config_root = c\<rparr>"

definition fake_build :: "fake_tx \<Rightarrow> fake_tx" where
  "fake_build b = \<lparr>fk_state_root = fk_state_root b, fk_mainpool_config_root = fk_mainpool_config_root b\<rparr>"

definition account_fake :: "hasher \<Rightarrow> (ast_error, account) result" where
  "account_fake P = new_with P (2, 2) 0"

definition fake_into_priv_tx :: "hasher \<Rightarrow> fake_tx \<Rightarrow> (ast_error, 'g built_priv_tx) result" where
  "fake_into_priv_tx P b =
     bind_r (account_fake P) (\<lambda>accin.
     let sp = subpool_full_proof_default in
     Inr \<lparr>bt_flags = FLAGS_FAKE, bt_accin = accin, bt_accout = clone_with_incremented_nonce accin,
          bt_accin_merkle_proof = dummy_merkle_proof, bt_rejected_inotes = [], bt_rejected_nct_proofs = [],
          bt_inotes = [], bt_inotes_nct_proofs = [], bt_onotes = [],
          bt_dinotes = replicate NOTE_BATCH ZERO_hash, bt_donotes = replicate NOTE_BATCH ZERO_hash,
          bt_tx_hash = ZERO_hash, bt_state_root = fk_state_root b, bt_subpool_id = 0,
          bt_mainpool_config_root = fk_mainpool_config_root b, bt_subpool_proof = sp,
          bt_approval_key = approval_key (sp_config sp),
          bt_spend_sig = None, bt_consume_sig = None, bt_approval_sig = None\<rparr>)"

subsection \<open>Builders reached through the interface\<close>

inductive spend_builds :: "hasher \<Rightarrow> account \<Rightarrow> asset_id \<Rightarrow> spend_builder \<Rightarrow> bool"
  for P accin asset where
  start: "spend_new accin asset = Inr b \<Longrightarrow> spend_builds P accin asset b"
| input: "spend_builds P accin asset b \<Longrightarrow> add_input_note P n position b = Inr b' \<Longrightarrow> spend_builds P accin asset b'"
| outpt: "spend_builds P accin asset b \<Longrightarrow> add_output_note P rcpt amount mm ident b = Inr b' \<Longrightarrow> spend_builds P accin asset b'"
| reject: "spend_builds P accin asset b \<Longrightarrow> add_rejected_note P n position b = Inr b' \<Longrightarrow> spend_builds P accin asset b'"
| dinotes: "spend_builds P accin asset b \<Longrightarrow> fill_dinotes rng b = Inr b' \<Longrightarrow> spend_builds P accin asset b'"
| donotes: "spend_builds P accin asset b \<Longrightarrow> fill_donotes rng b = Inr b' \<Longrightarrow> spend_builds P accin asset b'"

definition builder_inv :: "hasher \<Rightarrow> account \<Rightarrow> asset_id \<Rightarrow> spend_builder \<Rightarrow> bool" where
  "builder_inv P accin asset b \<longleftrightarrow>
     sb_accin b = accin \<and> sb_asset_id b = asset \<and> nonce accin \<noteq> 0
     \<and> length (rejected_notes b) + length (input_notes b) \<le> NOTE_BATCH
     \<and> length (rejected_notes b) + length (output_notes b) \<le> NOTE_BATCH
     \<and> list_all (\<lambda>(n, _). note_asset_id n = asset \<and> recipient n = address_from_acc P accin)
         (rejected_notes b @ input_notes b)
     \<and> list_all (\<lambda>n. note_asset_id n = asset \<and> sender n = address_from_acc P accin) (output_notes b)
     \<and> (\<forall>ds. sb_dinotes b = Some ds \<longrightarrow> NOTE_BATCH \<le> length ds + length (rejected_notes b) + length (input_notes b))
     \<and> (\<forall>ds. sb_donotes b = Some ds \<longrightarrow> NOTE_BATCH \<le> length ds + length (rejected_notes b) + length (output_notes b))"

lemma builder_invariant: "spend_builds P accin asset b \<Longrightarrow> builder_inv P accin asset b"
proof (induction rule: spend_builds.induct)
  case (start b)
  then show ?case by (auto simp: spend_new_def builder_inv_def split: if_splits)
next
  case (input b n position b')
  then show ?case by (auto simp: add_input_note_def builder_inv_def split: if_splits)
next
  case (outpt b rcpt amount mm ident b')
  then show ?case by (auto simp: add_output_note_def note_create_def builder_inv_def split: if_splits)
next
  case (reject b n position b')
  then show ?case by (auto simp: add_rejected_note_def builder_inv_def split: if_splits)
next
  case (dinotes b rng b')
  then show ?case by (auto simp: fill_dinotes_def dummy_count_def builder_inv_def split: if_splits)
next
  case (donotes b rng b')
  then show ?case by (auto simp: fill_donotes_def dummy_count_def builder_inv_def split: if_splits)
qed

subsection \<open>Building\<close>

lemma u256_add_sum:
  "for_each (\<lambda>b a. u256_add a b) xs acc =
     (if unat acc + sum_list (map unat xs) < 2 ^ 256 then Inr (acc + sum_list xs) else Inl (Panic Arith_overflow))"
proof (induction xs arbitrary: acc)
  case (Cons x xs)
  show ?case
  proof (cases "unat acc + unat x < 2 ^ 256")
    case True
    then have "unat (acc + x) = unat acc + unat x" by (simp add: unat_word_ariths)
    then show ?thesis using True Cons by (simp add: u256_add_def algebra_simps)
  next
    case False
    then show ?thesis by (simp add: u256_add_def)
  qed
next
  case Nil
  then show ?case using unsigned_less [where 'a = nat, of acc] by simp
qed

lemma u256_sum_value:
  "u256_sum xs = (if sum_list (map unat xs) < 2 ^ 256 then Inr (sum_list xs) else Inl (Panic Arith_overflow))"
  by (simp add: u256_sum_def u256_add_sum)

lemma unat_sum_list: "sum_list (map unat xs) < 2 ^ 256 \<Longrightarrow> unat (sum_list xs :: u256) = sum_list (map unat xs)"
proof (induction xs)
  case (Cons x xs)
  then show ?case by (simp add: unat_word_ariths)
qed simp

lemma checked_balance:
  fixes old din dout :: u256
  shows "(case u256_checked_add old din of None \<Rightarrow> None | Some s \<Rightarrow> u256_checked_sub s dout) =
    (if unat old + unat din < 2 ^ 256 \<and> unat dout \<le> unat old + unat din then Some (old + din - dout) else None)"
proof (cases "unat old + unat din < 2 ^ 256")
  case True
  then have "unat (old + din) = unat old + unat din" by (simp add: unat_word_ariths)
  then show ?thesis using True by (simp add: u256_checked_add_def u256_checked_sub_def word_le_nat_alt)
qed (simp add: u256_checked_add_def)

definition total_of :: "standard_note list \<Rightarrow> nat" where
  "total_of ns = sum_list (map (\<lambda>n. unat (amt n)) ns)"

definition builder_balance :: "spend_builder \<Rightarrow> u256" where
  "builder_balance b = (case amount_for (ast (sb_accin b)) (sb_asset_id b) of Some (_, v) \<Rightarrow> v | None \<Rightarrow> 0)"

lemma amounts_total: "sum_list (map unat (map (\<lambda>(n, _). amt n) ns)) = total_of (map fst ns)"
  "sum_list (map unat (map amt ms)) = total_of ms"
  by (simp_all add: total_of_def comp_def case_prod_beta)

text \<open>The digests that enter the transaction hash, slot by slot.\<close>

definition native_null :: "hasher \<Rightarrow> hash_output \<Rightarrow> (standard_note \<times> nat) list \<Rightarrow> hash_output list \<Rightarrow> nat \<Rightarrow> hash_output" where
  "native_null P key ins dinotes i =
     (if i < length ins
      then P (note_nullifier_input (note_commitment P (fst (ins ! i))) (from_canonical_u64 (of_nat (snd (ins ! i)))) key)
      else double_hash_native P (dinotes ! (i - length ins)))"

definition native_comm :: "hasher \<Rightarrow> standard_note list \<Rightarrow> hash_output list \<Rightarrow> nat \<Rightarrow> hash_output" where
  "native_comm P outs donotes i =
     (if i < length outs then note_commitment P (outs ! i) else double_hash_native P (donotes ! (i - length outs)))"

lemma tx_inote_null_joined:
  "tx_inote_null P key rj ins ds i =
     (if i < length (rj @ ins) then unwrap_r (note_nullifier P (fst ((rj @ ins) ! i)) (snd ((rj @ ins) ! i)) key)
      else bind_r (vec_get ds (i - length (rj @ ins))) (\<lambda>seed. Inr (double_hash_native P seed)))"
  by (auto simp: tx_inote_null_def Let_def nth_append case_prod_beta diff_diff_left)

lemma nullifier_result:
  "unwrap_r (note_nullifier P n position key) =
     (if position < unat GOLDILOCKS_PRIME
      then Inr (P (note_nullifier_input (note_commitment P n) (from_canonical_u64 (of_nat position)) key))
      else Inl (Panic Unwrap_failed))"
  by (simp add: note_nullifier_def ensure_def)

lemma tx_inote_null_value:
  assumes "list_all (\<lambda>(_, position). position < unat GOLDILOCKS_PRIME) ins"
    and "NOTE_BATCH \<le> length ds + length ins" "i < NOTE_BATCH" "ins = rj @ ns"
  shows "tx_inote_null P key rj ns ds i = Inr (native_null P key ins ds i)"
  using assms(1-3) unfolding tx_inote_null_joined nullifier_result assms(4) [symmetric] native_null_def
  by (auto simp: list_all_length case_prod_beta)

lemma collect_r_panic:
  assumes "\<forall>i \<in> set is. (\<exists>a. f i = Inr a) \<or> f i = Inl e" "\<exists>i \<in> set is. f i = Inl e"
  shows "collect_r f is = Inl e"
  using assms
proof (induction "is")
  case (Cons j "is")
  show ?case
  proof (cases "f j = Inl e")
    case False
    with Cons have "\<exists>i \<in> set is. f i = Inl e" "\<forall>i \<in> set is. (\<exists>a. f i = Inr a) \<or> f i = Inl e" by auto
    with Cons.IH have "collect_r f is = Inl e" by simp
    with Cons.prems(1) show ?thesis by (cases "f j") auto
  qed simp
qed simp

lemma tx_inote_nulls_panic:
  assumes "\<not> list_all (\<lambda>(_, position). position < unat GOLDILOCKS_PRIME) ins"
    and "NOTE_BATCH \<le> length ds + length ins" "length ins \<le> NOTE_BATCH" "ins = rj @ ns"
  shows "collect_r (tx_inote_null P key rj ns ds) [0..<NOTE_BATCH] = Inl (Panic Unwrap_failed)"
proof (rule collect_r_panic)
  obtain i where i: "i < length ins" "\<not> snd (ins ! i) < unat GOLDILOCKS_PRIME"
    using assms(1) by (auto simp: list_all_length case_prod_beta)
  then have "tx_inote_null P key rj ns ds i = Inl (Panic Unwrap_failed)"
    unfolding tx_inote_null_joined nullifier_result assms(4) [symmetric] by simp
  with i(1) assms(3) show "\<exists>i \<in> set [0..<NOTE_BATCH]. tx_inote_null P key rj ns ds i = Inl (Panic Unwrap_failed)"
    by (auto simp del: upt_Suc intro!: bexI [of _ i])
  show "\<forall>i \<in> set [0..<NOTE_BATCH]. (\<exists>a. tx_inote_null P key rj ns ds i = Inr a)
      \<or> tx_inote_null P key rj ns ds i = Inl (Panic Unwrap_failed)"
    using assms(2) unfolding tx_inote_null_joined nullifier_result assms(4) [symmetric] by auto
qed

lemma tx_onote_comm_value:
  assumes "NOTE_BATCH \<le> length ds + length rj + length outs" "i < NOTE_BATCH"
  shows "tx_onote_comm P rj outs ds i = Inr (native_comm P (map (rejected_onote \<circ> fst) rj @ outs) ds i)"
  using assms by (auto simp: tx_onote_comm_def native_comm_def Let_def nth_append diff_diff_left)

lemma account_digests:
  assumes "ast_rep P (ast acc) es" "consume_config acc \<longrightarrow> consume_pk acc \<noteq> None"
  obtains r c where "ast_root P (ast acc) = Inr r" "account_commitment P acc = Inr c"
    "account_nullifier P acc = Inr (P (elems c @ elems (nk P acc)))"
proof -
  have "tree (ast acc) = canonical_tree (hash_output_hash P) ACC_AST_DEPTH (ast_leaves P es)" "length (ast_leaves P es) \<le> 2 ^ ACC_AST_DEPTH"
    using assms(1) by (simp_all add: ast_rep_def)
  then obtain r where r: "ast_root P (ast acc) = Inr r" by (simp add: ast_root_def hash_output.root_canonical)
  then obtain c where c: "account_commitment P acc = Inr c"
    using assms(2) by (cases "consume_pk acc"; cases "consume_config acc") (auto simp: account_commitment_def)
  with r show thesis by (intro that) (simp_all add: account_nullifier_def)
qed

lemma put_outcome:
  assumes "ast_rep P a ((0, 0) # es)"
  shows "if x = 0 \<or> amount_for a x = None \<and> 2 ^ ACC_AST_DEPTH \<le> ast_size a
    then insert_or_update_asset P x v a = Inl (Panic Unwrap_failed)
    else \<exists>a' es'. insert_or_update_asset P x v a = Inr (map_option snd (amount_for a x), a') \<and> ast_rep P a' ((0, 0) # es')
      \<and> amount_for a' = (amount_for a)(x \<mapsto> (case amount_for a x of Some (i, _) \<Rightarrow> i | None \<Rightarrow> ast_size a, v))"
proof (cases "x = 0")
  case True
  then show ?thesis
    using update_asset_rep [OF assms, of 0 v] assms
    by (auto simp: insert_or_update_asset_def ast_rep_def)
next
  case False
  note sel = ast_rep_sel [OF assms]
  have get: "assets a = lookup_from 0 ((0, 0) # es)" using assms by (simp add: ast_rep_def)
  show ?thesis
  proof (cases "amount_for a x = None \<and> 2 ^ ACC_AST_DEPTH \<le> ast_size a")
    case True
    then have "x \<notin> fst ` set ((0, 0) # es)" using sel(4) lookup_from_None by metis
    then have "insert_asset P x v a = Inl (Err (Tree_error FullTree))"
      using insert_asset_rep [OF assms, of x v] False True sel by (auto split: if_splits)
    then show ?thesis using True by (simp add: insert_or_update_asset_def amount_for_def)
  next
    case room: False
    then have "amount_for a x \<noteq> None \<or> ast_size a < 2 ^ ACC_AST_DEPTH" by auto
    with ast_store.put_law [of P a x v] assms False
    obtain a' where "insert_or_update_asset P x v a = Inr (map_option snd (amount_for a x), a')" "ast_ok P a'"
        "amount_for a' = (amount_for a)(x \<mapsto> (case amount_for a x of Some (i, _) \<Rightarrow> i | None \<Rightarrow> ast_size a, v))"
      by (auto simp: ast_ok_def)
    with False room show ?thesis by (auto simp: ast_ok_def)
  qed
qed

text \<open>The new balance, on every branch.\<close>

lemma spend_balance_outcome:
  fixes b :: spend_builder
  defines "din \<equiv> total_of (map fst (input_notes b))" and "dout \<equiv> total_of (output_notes b)"
    and "old \<equiv> unat (builder_balance b)"
  shows "spend_balance b =
    (if 2 ^ 256 \<le> din \<or> 2 ^ 256 \<le> dout then Inl (Panic Arith_overflow)
     else if 2 ^ 256 \<le> old + din \<or> old + din < dout
       then Inl (Err (InsufficientBalance (of_nat old) (of_nat din) (of_nat dout)))
     else Inr (of_nat (old + din - dout)))"
proof (cases "2 ^ 256 \<le> din \<or> 2 ^ 256 \<le> dout")
  case True
  moreover have "u256_sum (map (\<lambda>(n, _). amt n) (input_notes b)) =
      (if din < 2 ^ 256 then Inr (sum_list (map (\<lambda>(n, _). amt n) (input_notes b))) else Inl (Panic Arith_overflow) :: (spend_error, u256) result)"
    "u256_sum (map amt (output_notes b)) =
      (if dout < 2 ^ 256 then Inr (sum_list (map amt (output_notes b))) else Inl (Panic Arith_overflow) :: (spend_error, u256) result)"
    unfolding u256_sum_value amounts_total din_def dout_def by (rule refl)+
  ultimately show ?thesis by (auto simp: spend_balance_def)
next
  case fits: False
  define wi wo where "wi = sum_list (map (\<lambda>(n, _). amt n) (input_notes b))" and "wo = sum_list (map amt (output_notes b))"
  have w: "unat wi = din" "unat wo = dout"
    using fits unat_sum_list [of "map (\<lambda>(n, _). amt n) (input_notes b)"] unat_sum_list [of "map amt (output_notes b)"]
    unfolding amounts_total wi_def wo_def din_def dout_def not_le de_Morgan_disj by blast+
  have wnat: "of_nat din = wi" "of_nat dout = wo" "of_nat old = builder_balance b"
    by (simp_all add: old_def flip: w)
  have sums: "u256_sum (map (\<lambda>(n, _). amt n) (input_notes b)) = (Inr wi :: (spend_error, u256) result)"
    "u256_sum (map amt (output_notes b)) = (Inr wo :: (spend_error, u256) result)"
    using fits unfolding u256_sum_value amounts_total wi_def wo_def din_def dout_def by simp_all
  have new: "of_nat (old + din - dout) = builder_balance b + wi - wo" if "dout \<le> old + din"
    using that by (simp add: of_nat_diff wnat)
  have check: "(case u256_checked_add (builder_balance b) wi of None \<Rightarrow> None | Some s \<Rightarrow> u256_checked_sub s wo) =
      (if 2 ^ 256 \<le> old + din \<or> old + din < dout then None else Some (builder_balance b + wi - wo))"
    unfolding checked_balance by (auto simp: w old_def)
  show ?thesis
    unfolding spend_balance_def Let_def sums bind_r_Inr builder_balance_def [symmetric] check wnat
    using fits new by auto
qed

lemma spend_finish_outcome:
  assumes b: "builder_inv P accin asset b" and rep: "ast_rep P (ast accin) ((0, 0) # es)"
    and consume: "consume_config accin \<longrightarrow> consume_pk accin \<noteq> None"
  shows "let res = spend_finish P b v :: (spend_error, 'g built_spend) result in
    if asset = 0 \<or> amount_for (ast accin) asset = None \<and> 2 ^ ACC_AST_DEPTH \<le> ast_size (ast accin)
      then res = Inl (Panic Unwrap_failed)
    else if sb_dinotes b = None then res = Inl (Err (DummyNotesNotFilled ''input''))
    else if sb_donotes b = None then res = Inl (Err (DummyNotesNotFilled ''output''))
    else if \<not> list_all (\<lambda>(_, position). position < unat GOLDILOCKS_PRIME) (rejected_notes b @ input_notes b)
      then res = Inl (Panic Unwrap_failed)
    else \<exists>tx out_ast an ac. res = Inr tx
      \<and> insert_or_update_asset P asset v (ast accin) = Inr (map_option snd (amount_for (ast accin) asset), out_ast)
      \<and> bs_accin tx = accin \<and> bs_accout tx = (clone_with_incremented_nonce accin)\<lparr>ast := out_ast\<rparr>
      \<and> account_nullifier P accin = Inr an \<and> account_commitment P (bs_accout tx) = Inr ac
      \<and> bs_tx_hash tx = derive_priv_tx_hash P an ac
          (map (native_null P (nk P accin) (rejected_notes b @ input_notes b) (the (sb_dinotes b))) [0..<NOTE_BATCH])
          (map (native_comm P (map (rejected_onote \<circ> fst) (rejected_notes b) @ output_notes b) (the (sb_donotes b))) [0..<NOTE_BATCH])
      \<and> bs_rejected tx = rejected_notes b \<and> bs_inotes tx = input_notes b \<and> bs_onotes tx = output_notes b
      \<and> bs_dinotes tx = the (sb_dinotes b) \<and> bs_donotes tx = the (sb_donotes b)"
proof (cases "asset = 0 \<or> amount_for (ast accin) asset = None \<and> 2 ^ ACC_AST_DEPTH \<le> ast_size (ast accin)")
  case True
  then have "insert_or_update_asset P asset v (ast accin) = Inl (Panic Unwrap_failed)"
    using put_outcome [OF rep, of asset v] by argo
  with True b show ?thesis
    by (simp add: spend_finish_def builder_inv_def Let_def clone_with_incremented_nonce_def)
next
  case room: False
  then obtain out_ast es' where put: "insert_or_update_asset P asset v (ast accin)
      = Inr (map_option snd (amount_for (ast accin) asset), out_ast)" "ast_rep P out_ast ((0, 0) # es')"
    using put_outcome [OF rep, of asset v] unfolding if_not_P [OF room] by blast
  have acc: "sb_accin b = accin" "sb_asset_id b = asset" using b by (simp_all add: builder_inv_def)
  define accout where "accout = (clone_with_incremented_nonce accin)\<lparr>ast := out_ast\<rparr>"
  have outp: "ast_rep P (ast accout) ((0, 0) # es')" "consume_config accout \<longrightarrow> consume_pk accout \<noteq> None"
    using put(2) consume by (simp_all add: accout_def clone_with_incremented_nonce_def)
  obtain an where an: "account_nullifier P accin = Inr an" using account_digests [OF rep consume] by blast
  obtain ac where ac: "account_commitment P accout = Inr ac" using account_digests [OF outp] by blast
  have step: "(spend_finish P b v :: (spend_error, 'g built_spend) result) = bind_r (ok_or (sb_dinotes b) (DummyNotesNotFilled ''input'')) (\<lambda>dinotes.
      bind_r (ok_or (sb_donotes b) (DummyNotesNotFilled ''output'')) (\<lambda>donotes.
      bind_r (collect_r (tx_inote_null P (nk P accin) (rejected_notes b) (input_notes b) dinotes) [0..<NOTE_BATCH]) (\<lambda>nulls.
      bind_r (collect_r (tx_onote_comm P (rejected_notes b) (output_notes b) donotes) [0..<NOTE_BATCH]) (\<lambda>comms.
      Inr \<lparr>bs_accin = accin, bs_accout = accout, bs_rejected = rejected_notes b,
           bs_inotes = input_notes b, bs_onotes = output_notes b, bs_dinotes = dinotes, bs_donotes = donotes,
           bs_tx_hash = derive_priv_tx_hash P an ac nulls comms,
           bs_subpool_id = subpool_id accin, bs_accin_proof = None, bs_inotes_nct_proofs = None,
           bs_rejected_nct_proofs = None, bs_subpool_proof = None, bs_spend_sig = None,
           bs_consume_sig = None, bs_approval_sig = None\<rparr>))))"
    using put(1) an ac
    by (simp add: spend_finish_def Let_def acc clone_with_incremented_nonce_def accout_def)
  show ?thesis
  proof (cases "sb_dinotes b = None \<or> sb_donotes b = None")
    case True
    with room step show ?thesis by (cases "sb_dinotes b") (auto simp: Let_def)
  next
    case False
    then obtain di dn where seeds: "sb_dinotes b = Some di" "sb_donotes b = Some dn" by auto
    let ?ins = "rejected_notes b @ input_notes b" and ?outs = "map (rejected_onote \<circ> fst) (rejected_notes b) @ output_notes b"
    have len: "NOTE_BATCH \<le> length di + length ?ins" "length ?ins \<le> NOTE_BATCH"
      "NOTE_BATCH \<le> length dn + length (rejected_notes b) + length (output_notes b)"
      using b seeds by (auto simp: builder_inv_def)
    have comms: "collect_r (tx_onote_comm P (rejected_notes b) (output_notes b) dn) [0..<NOTE_BATCH] =
        Inr (map (native_comm P ?outs dn) [0..<NOTE_BATCH])"
      using len(3) by (intro collect_r_all tx_onote_comm_value) auto
    show ?thesis
    proof (cases "list_all (\<lambda>(_, position). position < unat GOLDILOCKS_PRIME) ?ins")
      case True
      have nulls: "collect_r (tx_inote_null P (nk P accin) (rejected_notes b) (input_notes b) di) [0..<NOTE_BATCH] =
          Inr (map (native_null P (nk P accin) ?ins di) [0..<NOTE_BATCH])"
        using True len(1) by (intro collect_r_all tx_inote_null_value) auto
      show ?thesis
        unfolding Let_def step seeds ok_or_simps bind_r_Inr nulls comms
        using room True put(1) an ac by (simp add: accout_def)
    next
      case False
      with tx_inote_nulls_panic [OF False len(1,2) refl] room seeds step show ?thesis by (simp add: Let_def)
    qed
  qed
qed

lemma spend_build_success:
  assumes b: "builder_inv P accin asset b" and rep: "ast_rep P (ast accin) ((0, 0) # es)"
    and consume: "consume_config accin \<longrightarrow> consume_pk accin \<noteq> None"
    and run: "spend_build P b = (Inr tx :: (spend_error, 'g built_spend) result)"
  obtains v out_ast an ac where "unat v + total_of (output_notes b) = unat (builder_balance b) + total_of (map fst (input_notes b))"
    "insert_or_update_asset P asset v (ast accin) = Inr (map_option snd (amount_for (ast accin) asset), out_ast)"
    "bs_accin tx = accin" "bs_accout tx = (clone_with_incremented_nonce accin)\<lparr>ast := out_ast\<rparr>"
    "account_nullifier P accin = Inr an" "account_commitment P (bs_accout tx) = Inr ac"
    "bs_tx_hash tx = derive_priv_tx_hash P an ac
       (map (native_null P (nk P accin) (rejected_notes b @ input_notes b) (the (sb_dinotes b))) [0..<NOTE_BATCH])
       (map (native_comm P (map (rejected_onote \<circ> fst) (rejected_notes b) @ output_notes b) (the (sb_donotes b))) [0..<NOTE_BATCH])"
    "bs_rejected tx = rejected_notes b" "bs_inotes tx = input_notes b" "bs_onotes tx = output_notes b"
    "bs_dinotes tx = the (sb_dinotes b)" "bs_donotes tx = the (sb_donotes b)"
    "input_notes b \<noteq> [] \<or> output_notes b \<noteq> [] \<or> rejected_notes b \<noteq> []"
proof -
  let ?din = "total_of (map fst (input_notes b))" and ?dout = "total_of (output_notes b)" and ?old = "unat (builder_balance b)"
  define v :: u256 where "v = of_nat (?old + ?din - ?dout)"
  have some: "input_notes b \<noteq> [] \<or> output_notes b \<noteq> [] \<or> rejected_notes b \<noteq> []"
    and bal: "?dout \<le> ?old + ?din" "?old + ?din < 2 ^ 256" and fin: "spend_finish P b v = (Inr tx :: (spend_error, 'g built_spend) result)"
    using run unfolding spend_build_def spend_balance_outcome v_def by (auto split: if_splits)
  have "unat v = ?old + ?din - ?dout" unfolding v_def using bal(2) by (simp add: unat_of_nat)
  then have uv: "unat v + ?dout = ?old + ?din" using bal(1) by simp
  note out = spend_finish_outcome [OF b rep consume, of v, where 'g = 'g, unfolded Let_def fin]
  have "\<exists>out_ast an ac. insert_or_update_asset P asset v (ast accin) = Inr (map_option snd (amount_for (ast accin) asset), out_ast)
      \<and> bs_accin tx = accin \<and> bs_accout tx = (clone_with_incremented_nonce accin)\<lparr>ast := out_ast\<rparr>
      \<and> account_nullifier P accin = Inr an \<and> account_commitment P (bs_accout tx) = Inr ac
      \<and> bs_tx_hash tx = derive_priv_tx_hash P an ac
       (map (native_null P (nk P accin) (rejected_notes b @ input_notes b) (the (sb_dinotes b))) [0..<NOTE_BATCH])
       (map (native_comm P (map (rejected_onote \<circ> fst) (rejected_notes b) @ output_notes b) (the (sb_donotes b))) [0..<NOTE_BATCH])
      \<and> bs_rejected tx = rejected_notes b \<and> bs_inotes tx = input_notes b \<and> bs_onotes tx = output_notes b
      \<and> bs_dinotes tx = the (sb_dinotes b) \<and> bs_donotes tx = the (sb_donotes b)"
    using out by (simp split: if_splits)
  then show thesis using that [OF uv] some by blast
qed

lemma if_cascade: "(if a then x else y) \<Longrightarrow> (\<not> a \<Longrightarrow> y \<Longrightarrow> y') \<Longrightarrow> (if a then x else y')"
  by simp

subsection \<open>Properties\<close>

text \<open>
  C7. The spend builder on every branch. Whatever notes were added through its interface, for an
  account with a well-formed balance tree: without notes it reports that; amounts whose sum
  overflows panic; a balance that overflows or does not cover the outputs is refused with the
  three amounts; the reserved asset and a full balance tree panic; missing dummy seeds are
  reported; a note position outside the field panics; otherwise the output account has the next
  nonce, the balance old plus inputs minus outputs, every other balance unchanged, and the
  transaction hash is the native one over the account digests and the seven slots of each kind.
\<close>

theorem spend_build_outcome:
  assumes b: "spend_builds P accin asset b" and acc: "ast_ok P (ast accin)"
    and consume: "consume_config accin \<longrightarrow> consume_pk accin \<noteq> None"
  shows "let res = spend_build P b :: (spend_error, 'g built_spend) result;
      din = total_of (map fst (input_notes b)); dout = total_of (output_notes b); old = unat (builder_balance b) in
    if input_notes b = [] \<and> output_notes b = [] \<and> rejected_notes b = [] then res = Inl (Err NoActiveNotes)
    else if 2 ^ 256 \<le> din \<or> 2 ^ 256 \<le> dout then res = Inl (Panic Arith_overflow)
    else if 2 ^ 256 \<le> old + din \<or> old + din < dout
      then res = Inl (Err (InsufficientBalance (of_nat old) (of_nat din) (of_nat dout)))
    else if asset = 0 \<or> amount_for (ast accin) asset = None \<and> 2 ^ ACC_AST_DEPTH \<le> ast_size (ast accin)
      then res = Inl (Panic Unwrap_failed)
    else if sb_dinotes b = None then res = Inl (Err (DummyNotesNotFilled ''input''))
    else if sb_donotes b = None then res = Inl (Err (DummyNotesNotFilled ''output''))
    else if \<not> list_all (\<lambda>(_, position). position < unat GOLDILOCKS_PRIME) (rejected_notes b @ input_notes b)
      then res = Inl (Panic Unwrap_failed)
    else \<exists>tx an ac. res = Inr tx \<and> bs_accin tx = accin
      \<and> bs_accout tx = (clone_with_incremented_nonce accin)\<lparr>ast := ast (bs_accout tx)\<rparr>
      \<and> ast_ok P (ast (bs_accout tx))
      \<and> map_option snd (amount_for (ast (bs_accout tx)) asset) = Some (of_nat (old + din - dout))
      \<and> (\<forall>x. x \<noteq> asset \<longrightarrow> amount_for (ast (bs_accout tx)) x = amount_for (ast accin) x)
      \<and> account_nullifier P accin = Inr an \<and> account_commitment P (bs_accout tx) = Inr ac
      \<and> bs_tx_hash tx = derive_priv_tx_hash P an ac
          (map (native_null P (nk P accin) (rejected_notes b @ input_notes b) (the (sb_dinotes b))) [0..<NOTE_BATCH])
          (map (native_comm P (map (rejected_onote \<circ> fst) (rejected_notes b) @ output_notes b) (the (sb_donotes b)))
            [0..<NOTE_BATCH])"
proof -
  have inv: "builder_inv P accin asset b" using b by (rule builder_invariant)
  obtain es where rep: "ast_rep P (ast accin) ((0, 0) # es)" using acc by (auto simp: ast_ok_def)
  let ?din = "total_of (map fst (input_notes b))" and ?dout = "total_of (output_notes b)" and ?old = "unat (builder_balance b)"
  let ?v = "of_nat (?old + ?din - ?dout) :: u256"
  let ?stuck = "asset = 0 \<or> amount_for (ast accin) asset = None \<and> 2 ^ ACC_AST_DEPTH \<le> ast_size (ast accin)"
  have put: "(insert_or_update_asset P asset ?v (ast accin) = Inr (prev, a) \<Longrightarrow>
      ast_ok P a \<and> map_option snd (amount_for a asset) = Some ?v \<and> (\<forall>x. x \<noteq> asset \<longrightarrow> amount_for a x = amount_for (ast accin) x))"
    if "\<not> ?stuck" for prev a
    using put_outcome [OF rep, of asset ?v] unfolding if_not_P [OF that] by (auto simp: ast_ok_def)
  show ?thesis
  proof (cases "(input_notes b = [] \<and> output_notes b = [] \<and> rejected_notes b = [])
      \<or> 2 ^ 256 \<le> ?din \<or> 2 ^ 256 \<le> ?dout \<or> 2 ^ 256 \<le> ?old + ?din \<or> ?old + ?din < ?dout")
    case True
    then show ?thesis unfolding Let_def spend_build_def spend_balance_outcome by auto
  next
    case False
    then have "(spend_build P b :: (spend_error, 'g built_spend) result) = spend_finish P b ?v"
      unfolding spend_build_def spend_balance_outcome by auto
    note res = this
    note fin = spend_finish_outcome [OF inv rep consume, of ?v, where 'g = 'g, unfolded Let_def, folded res]
    from False have n: "\<not> (input_notes b = [] \<and> output_notes b = [] \<and> rejected_notes b = [])"
      "\<not> (2 ^ 256 \<le> ?din \<or> 2 ^ 256 \<le> ?dout)" "\<not> (2 ^ 256 \<le> ?old + ?din \<or> ?old + ?din < ?dout)" by auto
    show ?thesis
      unfolding Let_def if_not_P [OF n(1)] if_not_P [OF n(2)] if_not_P [OF n(3)]
    proof (rule if_cascade [OF fin], elim if_cascade, elim exE conjE)
      fix tx an ac out_ast
      assume late: "\<not> ?stuck" and tx: "spend_build P b = (Inr tx :: (spend_error, 'g built_spend) result)"
          "insert_or_update_asset P asset ?v (ast accin) = Inr (map_option snd (amount_for (ast accin) asset), out_ast)"
          "bs_accin tx = accin" "bs_accout tx = (clone_with_incremented_nonce accin)\<lparr>ast := out_ast\<rparr>"
          "account_nullifier P accin = Inr an" "account_commitment P (bs_accout tx) = Inr ac"
          "bs_tx_hash tx = derive_priv_tx_hash P an ac
            (map (native_null P (nk P accin) (rejected_notes b @ input_notes b) (the (sb_dinotes b))) [0..<NOTE_BATCH])
            (map (native_comm P (map (rejected_onote \<circ> fst) (rejected_notes b) @ output_notes b) (the (sb_donotes b)))
              [0..<NOTE_BATCH])"
      have a: "ast (bs_accout tx) = out_ast" by (simp add: tx(4))
      note p = put [OF late tx(2), folded a]
      have "bs_accout tx = (clone_with_incremented_nonce accin)\<lparr>ast := ast (bs_accout tx)\<rparr>" unfolding a by (rule tx(4))
      then show "\<exists>tx an ac. spend_build P b = (Inr tx :: (spend_error, 'g built_spend) result) \<and> bs_accin tx = accin
        \<and> bs_accout tx = (clone_with_incremented_nonce accin)\<lparr>ast := ast (bs_accout tx)\<rparr>
        \<and> ast_ok P (ast (bs_accout tx))
        \<and> map_option snd (amount_for (ast (bs_accout tx)) asset) = Some ?v
        \<and> (\<forall>x. x \<noteq> asset \<longrightarrow> amount_for (ast (bs_accout tx)) x = amount_for (ast accin) x)
        \<and> account_nullifier P accin = Inr an \<and> account_commitment P (bs_accout tx) = Inr ac
        \<and> bs_tx_hash tx = derive_priv_tx_hash P an ac
            (map (native_null P (nk P accin) (rejected_notes b @ input_notes b) (the (sb_dinotes b))) [0..<NOTE_BATCH])
            (map (native_comm P (map (rejected_onote \<circ> fst) (rejected_notes b) @ output_notes b) (the (sb_donotes b)))
              [0..<NOTE_BATCH])"
        using tx(1,3,5-7) p by blast
    qed
  qed
qed

text \<open>A transaction of asset 5 that consumes a note of 30 and sends 10.\<close>

definition demo_note :: "hasher \<Rightarrow> account \<Rightarrow> standard_note" where
  "demo_note P acc = note_create (1, 2) (address_from_acc P acc) address_default 30 5 []"

definition demo_builder :: "hasher \<Rightarrow> account \<Rightarrow> spend_builder" where
  "demo_builder P acc =
     \<lparr>sb_accin = acc, sb_asset_id = 5, input_notes = [(demo_note P acc, 3)],
      output_notes = [note_create (3, 4) address_default (address_from_acc P acc) 10 5 []], rejected_notes = [],
      sb_dinotes = Some (replicate 6 ZERO_hash), sb_donotes = Some (replicate 6 ZERO_hash)\<rparr>"

lemma demo_builds: "nonce acc \<noteq> 0 \<Longrightarrow> spend_builds P acc 5 (demo_builder P acc)"
proof -
  let ?b0 = "\<lparr>sb_accin = acc, sb_asset_id = 5, input_notes = [], output_notes = [], rejected_notes = [],
    sb_dinotes = None, sb_donotes = None\<rparr>"
  let ?b1 = "?b0\<lparr>input_notes := [(demo_note P acc, 3)]\<rparr>"
  let ?b2 = "?b1\<lparr>output_notes := [note_create (3, 4) address_default (address_from_acc P acc) 10 5 []]\<rparr>"
  let ?b3 = "?b2\<lparr>sb_dinotes := Some (replicate 6 ZERO_hash)\<rparr>"
  assume "nonce acc \<noteq> 0"
  then have "spend_builds P acc 5 ?b0" by (intro spend_builds.start) (simp add: spend_new_def)
  moreover have "add_input_note P (demo_note P acc) 3 ?b0 = Inr ?b1"
    by (simp add: add_input_note_def demo_note_def note_create_def NOTE_BATCH_def)
  ultimately have "spend_builds P acc 5 ?b1" by (rule spend_builds.input)
  moreover have "add_output_note P address_default 10 [] (3, 4) ?b1 = Inr ?b2"
    by (simp add: add_output_note_def NOTE_BATCH_def)
  ultimately have "spend_builds P acc 5 ?b2" by (rule spend_builds.outpt)
  moreover have six: "map (\<lambda>_. ZERO_hash) [0..<6] = replicate 6 ZERO_hash" by (simp add: map_replicate_const)
  then have "fill_dinotes (\<lambda>_. ZERO_hash) ?b2 = Inr ?b3"
    by (simp add: fill_dinotes_def dummy_count_def NOTE_BATCH_def)
  ultimately have "spend_builds P acc 5 ?b3" by (rule spend_builds.dinotes)
  moreover have "fill_donotes (\<lambda>_. ZERO_hash) ?b3 = Inr (demo_builder P acc)"
    using six by (simp add: fill_donotes_def dummy_count_def NOTE_BATCH_def demo_builder_def)
  ultimately show ?thesis by (rule spend_builds.donotes)
qed

theorem spend_build_outcome_witness:
  "\<exists>acc tx. new_with demo_hasher (7, 8) 1 = Inr acc
    \<and> spend_build demo_hasher (demo_builder demo_hasher (acc\<lparr>nonce := 1\<rparr>)) = (Inr tx :: (spend_error, unit built_spend) result)
    \<and> map_option snd (amount_for (ast (bs_accout tx)) 5) = Some 20"
proof -
  obtain a where a: "ast_new demo_hasher = Inr a" "ast_rep demo_hasher a [(0, 0)]" using ast_new_rep by blast
  let ?acc = "\<lparr>private_identifier = (7, 8), subpool_id = 1, nonce = 1, spend_pk = None,
    consume_config = False, consume_pk = None, ast = a\<rparr>"
  let ?b = "demo_builder demo_hasher ?acc"
  have b: "spend_builds demo_hasher ?acc 5 ?b" by (rule demo_builds) simp
  have ok: "ast_ok demo_hasher (ast ?acc)" using a(2) by (auto simp: ast_ok_def)
  have bal: "amount_for a 5 = None" "ast_size a = 1" using ast_rep_sel [OF a(2)] by simp_all
  let ?din = "total_of (map fst (input_notes ?b))" and ?dout = "total_of (output_notes ?b)" and ?old = "unat (builder_balance ?b)"
  have v: "?din = 30" "?dout = 10" "?old = 0"
    using bal by (simp_all add: demo_builder_def demo_note_def note_create_def total_of_def builder_balance_def)
  have n: "\<not> (input_notes ?b = [] \<and> output_notes ?b = [] \<and> rejected_notes ?b = [])"
    "\<not> (2 ^ 256 \<le> ?din \<or> 2 ^ 256 \<le> ?dout)" "\<not> (2 ^ 256 \<le> ?old + ?din \<or> ?old + ?din < ?dout)"
    "\<not> ((5 :: asset_id) = 0 \<or> amount_for (ast ?acc) 5 = None \<and> 2 ^ ACC_AST_DEPTH \<le> ast_size (ast ?acc))"
    "sb_dinotes ?b \<noteq> None" "sb_donotes ?b \<noteq> None"
    "\<not> \<not> list_all (\<lambda>(_, position). position < unat GOLDILOCKS_PRIME) (rejected_notes ?b @ input_notes ?b)"
    using bal unfolding v by (simp_all add: demo_builder_def ACC_AST_DEPTH_def unat_PRIME)
  obtain tx where "spend_build demo_hasher ?b = (Inr tx :: (spend_error, unit built_spend) result)"
      "map_option snd (amount_for (ast (bs_accout tx)) 5) = Some (of_nat (?old + ?din - ?dout))"
    using spend_build_outcome [OF b ok, where 'g = unit] unfolding Let_def if_not_P [OF n(1)] if_not_P [OF n(2)]
      if_not_P [OF n(3)] if_not_P [OF n(4)] if_not_P [OF n(5)] if_not_P [OF n(6)] if_not_P [OF n(7)] by auto
  moreover have "?old + ?din - ?dout = 20" unfolding v by simp
  moreover have "new_with demo_hasher (7, 8) 1 = Inr (?acc\<lparr>nonce := 0\<rparr>)" using a(1) by (simp add: new_with_def)
  ultimately show ?thesis by (intro exI [of _ "?acc\<lparr>nonce := 0\<rparr>"] exI [of _ tx]) simp
qed

end
