(* ===== verification/Priv_Tx_Witness.thy ===== *)
theory Priv_Tx_Witness
  imports Spend_Builder
begin

section \<open>Witnesses of built private transactions\<close>

text \<open>
  \<^verbatim>\<open>BuiltPrivTx\<close> of \<^verbatim>\<open>priv_tx/builder/built_priv_tx.rs\<close>: how the wires of the private transaction circuit
  are filled from a built transaction, and \<^verbatim>\<open>prove\<close>. The result of \<open>set_witness\<close> is the record of
  wire values, with the wires connected by copy constraints and those of the witness generators
  included. Filling the wires of a signature is an argument: \<open>set_sig\<close> for a given signature,
  \<open>set_dummy\<close> without one. \<^verbatim>\<open>CircuitData::prove\<close> succeeds on satisfied constraints and returns the
  registered public inputs. The theorems say that what the builders build satisfies every
  constraint except, at most, those of the signatures.
\<close>

datatype proof_failure =
    Different_ast_indices asset_id nat nat | Note_batch_overflow nat nat nat
  | Dinotes_mismatch nat nat | Donotes_mismatch nat nat | Unsatisfied_constraints

datatype prove_error = ProofGenerationFailed proof_failure

record slot_fill =
  s_inote :: note_target
  s_pos :: felt
  s_inote_active :: bool
  s_dinote :: hash_output
  s_path :: merkle_wires
  s_onote :: note_target
  s_onote_active :: bool
  s_donote :: hash_output
  s_rjct :: bool

definition rejected_slot :: "'g built_priv_tx \<Rightarrow> nat \<Rightarrow> (prove_error, slot_fill) result" where
  "rejected_slot bt i =
     bind_r (vec_get (bt_rejected_inotes bt) i) (\<lambda>inote.
     bind_r (vec_get (bt_rejected_nct_proofs bt) i) (\<lambda>p.
     Inr \<lparr>s_inote = note_set_witness inote, s_pos = from_canonical_u64 (of_nat (pos p)), s_inote_active = True,
          s_dinote = ZERO_hash, s_path = merkle_set_witness p,
          s_onote = note_set_witness (rejected_onote inote), s_onote_active = True,
          s_donote = ZERO_hash, s_rjct = True\<rparr>))"

text \<open>The two halves of a regular slot; the recipient of a dummy input note is the account.\<close>

definition regular_input ::
  "'g built_priv_tx \<Rightarrow> asset_id \<Rightarrow> account_address \<Rightarrow> nat
     \<Rightarrow> (prove_error, note_target \<times> felt \<times> bool \<times> hash_output \<times> merkle_wires) result" where
  "regular_input bt asset owner j =
     (if j < length (bt_inotes bt)
      then bind_r (vec_get (bt_inotes_nct_proofs bt) j) (\<lambda>p.
        Inr (note_set_witness (bt_inotes bt ! j), from_canonical_u64 (of_nat (pos p)), True, ZERO_hash,
             merkle_set_witness p))
      else bind_r (vec_get (bt_dinotes bt) (j - length (bt_inotes bt))) (\<lambda>seed.
        Inr (set_dummy_inote asset owner, 0, False, seed, merkle_set_dummy_witness STATE_TREE_DEPTH)))"

definition regular_output ::
  "'g built_priv_tx \<Rightarrow> asset_id \<Rightarrow> nat \<Rightarrow> (prove_error, note_target \<times> bool \<times> hash_output) result" where
  "regular_output bt asset j =
     (if j < length (bt_onotes bt) then Inr (note_set_witness (bt_onotes bt ! j), True, ZERO_hash)
      else bind_r (vec_get (bt_donotes bt) (j - length (bt_onotes bt))) (\<lambda>seed.
        Inr (set_dummy_onote asset, False, seed)))"

definition regular_slot ::
  "'g built_priv_tx \<Rightarrow> asset_id \<Rightarrow> account_address \<Rightarrow> nat \<Rightarrow> (prove_error, slot_fill) result" where
  "regular_slot bt asset owner slot =
     (let j = slot - length (bt_rejected_inotes bt) in
      bind_r (regular_input bt asset owner j) (\<lambda>(inote, position, iactive, dinote, ipath).
      bind_r (regular_output bt asset j) (\<lambda>(onote, oactive, donote).
      Inr \<lparr>s_inote = inote, s_pos = position, s_inote_active = iactive, s_dinote = dinote, s_path = ipath,
           s_onote = onote, s_onote_active = oactive, s_donote = donote, s_rjct = False\<rparr>)))"

definition set_notes_witness ::
  "'g built_priv_tx \<Rightarrow> asset_id \<Rightarrow> account_address \<Rightarrow> (prove_error, slot_fill list) result" where
  "set_notes_witness bt asset owner =
     (let n_rjct = length (bt_rejected_inotes bt); n_in = length (bt_inotes bt); n_out = length (bt_onotes bt) in
      if n_rjct + max n_in n_out \<ge> NOTE_BATCH
      then Inl (Err (ProofGenerationFailed (Note_batch_overflow n_rjct n_in n_out)))
      else if length (bt_dinotes bt) \<noteq> NOTE_BATCH - n_in - n_rjct
      then Inl (Err (ProofGenerationFailed (Dinotes_mismatch (NOTE_BATCH - n_in - n_rjct) (length (bt_dinotes bt)))))
      else if length (bt_donotes bt) \<noteq> NOTE_BATCH - n_out - n_rjct
      then Inl (Err (ProofGenerationFailed (Donotes_mismatch (NOTE_BATCH - n_out - n_rjct) (length (bt_donotes bt)))))
      else bind_r (collect_r (rejected_slot bt) [0..<n_rjct]) (\<lambda>rs.
           bind_r (collect_r (regular_slot bt asset owner) [n_rjct..<NOTE_BATCH]) (\<lambda>fs. Inr (rs @ fs))))"

definition bt_asset_id :: "'g built_priv_tx \<Rightarrow> asset_id" where
  "bt_asset_id bt =
     (case bt_rejected_inotes bt of n # _ \<Rightarrow> note_asset_id n | [] \<Rightarrow>
      case bt_inotes bt of n # _ \<Rightarrow> note_asset_id n | [] \<Rightarrow>
      case bt_onotes bt of n # _ \<Rightarrow> note_asset_id n | [] \<Rightarrow> 0)"

definition ast_entry :: "account_state_tree \<Rightarrow> asset_id \<Rightarrow> nat \<times> u256 \<times> bool" where
  "ast_entry a asset =
     (case amount_for a asset of Some (i, v) \<Rightarrow> (i, v, True) | None \<Rightarrow> (next_index a, 0, False))"

definition sig_fill ::
  "(pubkey \<Rightarrow> hash_output \<Rightarrow> 'g \<Rightarrow> (prove_error, 's) result) \<Rightarrow> (pubkey \<Rightarrow> (prove_error, 's) result)
     \<Rightarrow> pubkey \<Rightarrow> hash_output \<Rightarrow> 'g option \<Rightarrow> (prove_error, 's) result" where
  "sig_fill set_sig set_dummy pk h sig =
     (case sig of Some g \<Rightarrow> set_sig pk h g | None \<Rightarrow> set_dummy pk)"

definition set_witness ::
  "hasher \<Rightarrow> (pubkey \<Rightarrow> hash_output \<Rightarrow> 'g \<Rightarrow> (prove_error, 's) result) \<Rightarrow> (pubkey \<Rightarrow> (prove_error, 's) result)
     \<Rightarrow> 'g built_priv_tx \<Rightarrow> (prove_error, 's tx_wires) result" where
  "set_witness P set_sig set_dummy bt =
     bind_r (unwrap_r (account_set_witness P (bt_accin bt))) (\<lambda>accin.
     bind_r (unwrap_r (account_set_witness P (bt_accout bt))) (\<lambda>accout.
     bind_r (sig_fill set_sig set_dummy (spend_pk_or_default (bt_accin bt)) (bt_tx_hash bt) (bt_spend_sig bt)) (\<lambda>spend.
     bind_r (sig_fill set_sig set_dummy (consume_pk_or_default (bt_accin bt)) (bt_tx_hash bt) (bt_consume_sig bt)) (\<lambda>consume.
     bind_r (sig_fill set_sig set_dummy (bt_approval_key bt) (bt_tx_hash bt) (bt_approval_sig bt)) (\<lambda>approval.
     let asset = bt_asset_id bt;
         (ast_index, accin_amt, exists_in) = ast_entry (ast (bt_accin bt)) asset;
         (accout_index, accout_amt, exists_out) = ast_entry (ast (bt_accout bt)) asset;
         owner = \<lparr>addr_subpool_id = t_subpool_id accin,
                  addr_public_id = derive_public_identifier P (t_private_identifier accin)\<rparr> in
     if ast_index \<noteq> accout_index
     then Inl (Err (ProofGenerationFailed (Different_ast_indices asset ast_index accout_index)))
     else
     bind_r (unwrap_r (merkle_proof_at P (ast (bt_accin bt)) ast_index)) (\<lambda>ast_proof.
     bind_r (set_notes_witness bt asset owner) (\<lambda>fs.
     let inotes = map s_inote fs; onotes = map s_onote fs;
         iactive = map s_inote_active fs; oactive = map s_onote_active fs in
     bind_r (unwrap_r (generate_limbs (columns (U256Target_set accin_amt) (active_amounts inotes iactive)) 0)) (\<lambda>lhs.
     bind_r (unwrap_r (generate_limbs (columns (U256Target_set accout_amt) (active_amounts onotes oactive)) 0)) (\<lambda>rhs.
     Inr \<lparr>w_not_fake_tx = f_not_fake_tx (bt_flags bt), w_is_fresh_acc = f_is_fresh_acc (bt_flags bt),
          w_is_update_auth = f_is_update_auth (bt_flags bt), w_is_priv_tx = f_is_priv_tx (bt_flags bt),
          w_state_root = bt_state_root bt, w_mainpool_config_root = bt_mainpool_config_root bt,
          w_approval_key = bt_approval_key bt, w_asset_id = asset,
          w_accin_amt = U256Target_set accin_amt, w_asset_exists_in_accin = exists_in,
          w_accout_amt = U256Target_set accout_amt, w_asset_exists_in_accout = exists_out,
          w_accin = accin, w_accout = accout,
          w_accin_act_merkle = merkle_set_witness (bt_accin_merkle_proof bt),
          w_accin_ast_merkle = merkle_set_witness ast_proof, w_accout_ast_merkle = merkle_set_witness ast_proof,
          w_inotes = inotes, w_inotes_pos = map s_pos fs, w_inotes_isactive = iactive,
          w_onotes = onotes, w_onotes_isactive = oactive, w_is_note_pair_rjct = map s_rjct fs,
          w_dinotes = map s_dinote fs, w_donotes = map s_donote fs,
          w_inotes_nct_merkle = map s_path fs, w_lhs_sum = lhs, w_rhs_sum = rhs,
          w_main_pool_proof = merkle_set_witness (main_pool_proof (bt_subpool_proof bt)),
          w_spend_sig = spend, w_consume_sig = consume, w_approval_sig = approval\<rparr>)))))))))"

definition built_prove ::
  "hasher \<Rightarrow> 's sig_gadget \<Rightarrow> (pubkey \<Rightarrow> hash_output \<Rightarrow> 'g \<Rightarrow> (prove_error, 's) result)
     \<Rightarrow> (pubkey \<Rightarrow> (prove_error, 's) result) \<Rightarrow> 'g built_priv_tx \<Rightarrow> (prove_error, felt list) result" where
  "built_prove P S set_sig set_dummy bt =
     bind_r (set_witness P set_sig set_dummy bt) (\<lambda>w.
       if priv_tx_circuit P S w then Inr (register_tx (tx_public P w))
       else Inl (Err (ProofGenerationFailed Unsatisfied_constraints)))"

subsection \<open>The slots of a transaction\<close>

text \<open>
  With the rejected notes in front, the active input notes of a transaction are one list and
  so are its output notes; the dummy seeds fill the rest of the slots.
\<close>

definition slot_at ::
  "asset_id \<Rightarrow> account_address \<Rightarrow> standard_note list \<Rightarrow> hash_output merkle_proof list \<Rightarrow> standard_note list
     \<Rightarrow> hash_output list \<Rightarrow> hash_output list \<Rightarrow> nat \<Rightarrow> nat \<Rightarrow> slot_fill" where
  "slot_at asset owner ins ps outs dinotes donotes r i =
     \<lparr>s_inote = (if i < length ins then note_set_witness (ins ! i) else set_dummy_inote asset owner),
      s_pos = (if i < length ins then from_canonical_u64 (of_nat (pos (ps ! i))) else 0),
      s_inote_active = (i < length ins),
      s_dinote = (if i < length ins then ZERO_hash else dinotes ! (i - length ins)),
      s_path = (if i < length ins then merkle_set_witness (ps ! i) else merkle_set_dummy_witness STATE_TREE_DEPTH),
      s_onote = (if i < length outs then note_set_witness (outs ! i) else set_dummy_onote asset),
      s_onote_active = (i < length outs),
      s_donote = (if i < length outs then ZERO_hash else donotes ! (i - length outs)),
      s_rjct = (i < r)\<rparr>"

definition bt_ins :: "'g built_priv_tx \<Rightarrow> standard_note list" where
  "bt_ins bt = bt_rejected_inotes bt @ bt_inotes bt"

definition bt_paths :: "'g built_priv_tx \<Rightarrow> hash_output merkle_proof list" where
  "bt_paths bt = bt_rejected_nct_proofs bt @ bt_inotes_nct_proofs bt"

definition bt_outs :: "'g built_priv_tx \<Rightarrow> standard_note list" where
  "bt_outs bt = map rejected_onote (bt_rejected_inotes bt) @ bt_onotes bt"

definition bt_slot :: "'g built_priv_tx \<Rightarrow> asset_id \<Rightarrow> account_address \<Rightarrow> nat \<Rightarrow> slot_fill" where
  "bt_slot bt asset owner =
     slot_at asset owner (bt_ins bt) (bt_paths bt) (bt_outs bt) (bt_dinotes bt) (bt_donotes bt)
       (length (bt_rejected_inotes bt))"

text \<open>The shape a built transaction has when its notes fit and are accompanied by their paths.\<close>

definition bt_shape :: "'g built_priv_tx \<Rightarrow> bool" where
  "bt_shape bt \<longleftrightarrow>
     length (bt_ins bt) < NOTE_BATCH \<and> length (bt_outs bt) < NOTE_BATCH
     \<and> length (bt_dinotes bt) = NOTE_BATCH - length (bt_ins bt)
     \<and> length (bt_donotes bt) = NOTE_BATCH - length (bt_outs bt)
     \<and> length (bt_rejected_nct_proofs bt) = length (bt_rejected_inotes bt)
     \<and> length (bt_inotes_nct_proofs bt) = length (bt_inotes bt)"

lemma rejected_slot_at:
  assumes "bt_shape bt" "i < length (bt_rejected_inotes bt)"
  shows "rejected_slot bt i = Inr (bt_slot bt asset owner i)"
  using assms
  by (simp add: rejected_slot_def bt_slot_def slot_at_def bt_shape_def bt_ins_def bt_paths_def bt_outs_def nth_append)

lemma regular_slot_at:
  assumes shape: "bt_shape bt" and i: "length (bt_rejected_inotes bt) \<le> i" "i < NOTE_BATCH"
  shows "regular_slot bt asset owner i = Inr (bt_slot bt asset owner i)"
proof -
  let ?r = "length (bt_rejected_inotes bt)"
  have ins: "i < length (bt_ins bt) \<longleftrightarrow> i - ?r < length (bt_inotes bt)"
    "i < length (bt_outs bt) \<longleftrightarrow> i - ?r < length (bt_onotes bt)"
    using i by (auto simp: bt_ins_def bt_outs_def)
  have input: "regular_input bt asset owner (i - ?r) = Inr
      (let s = bt_slot bt asset owner i in (s_inote s, s_pos s, s_inote_active s, s_dinote s, s_path s))"
  proof (cases "i - ?r < length (bt_inotes bt)")
    case True
    with shape i ins show ?thesis
      by (simp add: regular_input_def bt_slot_def slot_at_def bt_shape_def)
         (simp add: bt_ins_def bt_paths_def nth_append)
  next
    case False
    moreover have "i - length (bt_ins bt) < length (bt_dinotes bt)"
      using shape False i ins by (auto simp: bt_shape_def)
    moreover have "i - ?r - length (bt_inotes bt) = i - length (bt_ins bt)" by (simp add: bt_ins_def)
    ultimately show ?thesis using ins by (simp add: regular_input_def bt_slot_def slot_at_def)
  qed
  have outp: "regular_output bt asset (i - ?r) = Inr
      (let s = bt_slot bt asset owner i in (s_onote s, s_onote_active s, s_donote s))"
  proof (cases "i - ?r < length (bt_onotes bt)")
    case True
    with i ins show ?thesis
      by (simp add: regular_output_def bt_slot_def slot_at_def) (simp add: bt_outs_def nth_append)
  next
    case False
    moreover have "i - length (bt_outs bt) < length (bt_donotes bt)"
      using shape False i ins by (auto simp: bt_shape_def)
    moreover have "i - ?r - length (bt_onotes bt) = i - length (bt_outs bt)" by (simp add: bt_outs_def)
    ultimately show ?thesis using ins by (simp add: regular_output_def bt_slot_def slot_at_def)
  qed
  show ?thesis
    unfolding regular_slot_def Let_def input outp using i by (simp add: Let_def bt_slot_def slot_at_def)
qed

lemma set_notes_ok:
  assumes "bt_shape bt"
  shows "set_notes_witness bt asset owner = Inr (map (bt_slot bt asset owner) [0..<NOTE_BATCH])"
proof -
  let ?r = "length (bt_rejected_inotes bt)"
  have r: "?r < NOTE_BATCH" using assms by (simp add: bt_shape_def bt_ins_def)
  have "collect_r (rejected_slot bt) [0..<?r] = Inr (map (bt_slot bt asset owner) [0..<?r])"
    using assms by (intro collect_r_all rejected_slot_at) simp_all
  moreover have "collect_r (regular_slot bt asset owner) [?r..<NOTE_BATCH] = Inr (map (bt_slot bt asset owner) [?r..<NOTE_BATCH])"
    using assms by (intro collect_r_all regular_slot_at) simp_all
  moreover have "[0..<?r] @ [?r..<NOTE_BATCH] = [0..<NOTE_BATCH]"
    using upt_add_eq_append [of 0 ?r "NOTE_BATCH - ?r"] r by simp
  then have "map (bt_slot bt asset owner) [0..<?r] @ map (bt_slot bt asset owner) [?r..<NOTE_BATCH]
      = map (bt_slot bt asset owner) [0..<NOTE_BATCH]"
    by (simp only: map_append [symmetric])
  ultimately show ?thesis
    using assms by (auto simp: set_notes_witness_def Let_def bt_shape_def bt_ins_def bt_outs_def)
qed

subsection \<open>The balance tree\<close>

lemma limbs_0: "U256Target_set 0 = replicate 8 0"
proof -
  have "u256_wire (replicate 8 0)" "limbs_value (replicate 8 0) = 0" by (rule zero_limbs)+
  then show ?thesis using u256_wire_limbs [of "replicate 8 0"] by (simp add: U256Target_set_limbs)
qed

lemma length_U256Target_set [simp]: "length (U256Target_set v) = 8"
  by (simp add: U256Target_set_limbs)

lemma ast_leaf_wire: "ast_leaf_circuit P x (U256Target_set v) True = ast_leaf_commitment P x v"
  by (simp add: ast_leaf_circuit_def select_hash ast_leaf_commitment_def U256Target_set_limbs)

lemma ast_replace_witness:
  assumes "ast_rep P a es" "ast_rep P a' es'" "i < 2 ^ ACC_AST_DEPTH"
    and old: "leaf_at (hash_output_hash P) (ast_leaves P es) i = ast_leaf_circuit P x (U256Target_set old) ex" "ex \<or> old = 0"
    and new: "leaf_at (hash_output_hash P) (ast_leaves P es') =
      (leaf_at (hash_output_hash P) (ast_leaves P es))(i := ast_leaf_circuit P x (U256Target_set v) True)"
  shows "\<exists>p r'. merkle_proof_at P a i = Inr p \<and> ast_root P a = Inr (proof_root p) \<and> ast_root P a' = Inr r'
    \<and> assert_ast_update P x (U256Target_set old) (U256Target_set v) (proof_root p) r' ex True
        (merkle_set_witness p) (merkle_set_witness p)"
proof -
  let ?H = "hash_output_hash P" and ?d = ACC_AST_DEPTH
  have tree: "tree a = canonical_tree ?H ?d (ast_leaves P es)" "length (ast_leaves P es) \<le> 2 ^ ?d"
    "tree a' = canonical_tree ?H ?d (ast_leaves P es')" "length (ast_leaves P es') \<le> 2 ^ ?d"
    using assms(1,2) by (simp_all add: ast_rep_def)
  obtain p where p: "merkle_proof ?H (tree a) i = Inr p" "verify_proof ?H p" "proof_leaf p = leaf_at ?H (ast_leaves P es) i"
      "proof_root p = spec_root ?H ?d (ast_leaves P es)" "path p = path_bits ?d i" "length (siblings p) = ?d"
    using hash_output.merkle_proof_canonical [OF _ tree(2) assms(3)] tree(1) by auto
  have sib: "siblings p = honest_siblings ?H (leaf_at ?H (ast_leaves P es)) ?d i"
    using hash_output.merkle_proof_honest [OF _ tree(2) assms(3), where poseidon = P] tree(1) p(1) by auto
  let ?leaf = "ast_leaf_circuit P x (U256Target_set v) True"
  have r': "fold_path ?H ?leaf (path p) (siblings p) = spec_root ?H ?d (ast_leaves P es')"
    unfolding p(5) sib spec_root_def new by (rule hash_output.fold_path_update [OF assms(3)])
  have "assert_ast_update P x (U256Target_set old) (U256Target_set v) (proof_root p)
      (fold_path ?H ?leaf (path p) (siblings p)) ex True (merkle_set_witness p) (merkle_set_witness p)"
    using p old limbs_0 by (intro ast_update_complete) (auto simp: path_bits_def)
  moreover have "merkle_proof_at P a i = Inr p" using p(1) by (simp add: merkle_proof_at_def)
  moreover have "ast_root P a = Inr (proof_root p)" "ast_root P a' = Inr (spec_root ?H ?d (ast_leaves P es'))"
    using tree p(4) by (simp_all add: ast_root_def hash_output.root_canonical)
  ultimately show ?thesis unfolding r' by blast
qed

lemma put_needs_asset: "insert_or_update_asset P x v a = Inr r \<Longrightarrow> x \<noteq> 0"
  by (auto simp: insert_or_update_asset_def result_simps update_asset_def insert_asset_def split: if_splits)

lemma ast_put_witness:
  assumes "ast_rep P a es" "insert_or_update_asset P x v a = Inr (prev, a')"
  obtains p i old ex r' es' where "ast_rep P a' es'" "ast_entry a x = (i, old, ex)" "ast_entry a' x = (i, v, True)"
    "merkle_proof_at P a i = Inr p"
    "ast_root P a = Inr (proof_root p)" "ast_root P a' = Inr r'"
    "assert_ast_update P x (U256Target_set old) (U256Target_set v) (proof_root p) r' ex True
       (merkle_set_witness p) (merkle_set_witness p)"
    "old = (case amount_for a x of Some (_, u) \<Rightarrow> u | None \<Rightarrow> 0)"
proof -
  let ?H = "hash_output_hash P" and ?cap = "2 ^ ACC_AST_DEPTH :: nat"
  have x: "x \<noteq> 0" using assms(2) by (rule put_needs_asset)
  note sel = ast_rep_sel [OF assms(1)]
  have get: "assets a x = lookup_from 0 es x" using sel(4) by (simp add: amount_for_def fun_eq_iff)
  have bound: "length es \<le> ?cap" "distinct (map fst es)" using assms(1) by (simp_all add: ast_rep_def)
  show thesis
  proof (cases "lookup_from 0 es x")
    case None
    have "x \<notin> fst ` set es" using None by (simp add: lookup_from_None)
    have "assets a x = None" using get None by simp
    then have ins: "insert_asset P x v a = Inr a'"
      using assms(2) by (auto simp: insert_or_update_asset_def result_simps)
    then have len: "length es < ?cap" and rep: "ast_rep P a' (es @ [(x, v)])"
      using insert_asset_rep [OF assms(1), of x v] x \<open>x \<notin> _\<close> by (auto split: if_splits)
    have e: "ast_entry a x = (length es, 0, False)" using sel None by (simp add: ast_entry_def)
    have e': "ast_entry a' x = (length es, v, True)"
      using ast_rep_sel(4) [OF rep] None by (simp add: ast_entry_def lookup_from_append)
    have l: "leaf_at ?H (ast_leaves P es) (length es) = ast_leaf_circuit P x (U256Target_set 0) False"
      by (simp add: leaf_at_def ast_leaf_circuit_def select_hash AST_DEFAULT_LEAF_def ZERO_hash_def hash_output_hash_def)
    have l': "leaf_at ?H (ast_leaves P (es @ [(x, v)])) =
        (leaf_at ?H (ast_leaves P es))(length es := ast_leaf_circuit P x (U256Target_set v) True)"
      using leaf_at_append [of ?H "ast_leaves P es"] by (simp add: ast_leaf_wire ast_leaves_def)
    have o: "0 = (case amount_for a x of Some (_, u) \<Rightarrow> u | None \<Rightarrow> 0)" using sel(4) None by simp
    obtain p r' where "merkle_proof_at P a (length es) = Inr p" "ast_root P a = Inr (proof_root p)" "ast_root P a' = Inr r'"
      "assert_ast_update P x (U256Target_set 0) (U256Target_set v) (proof_root p) r' False True
        (merkle_set_witness p) (merkle_set_witness p)"
      using ast_replace_witness [OF assms(1) rep len l _ l'] by auto
    from that [OF rep e e' this o] show thesis .
  next
    case (Some e)
    obtain j u where e: "e = (j, u)" by (cases e)
    have j: "j < length es" "es ! j = (x, u)"
      using Some e lookup_from_Some [OF bound(2), of 0 x j u] by simp_all
    have "assets a x \<noteq> None" using get Some by simp
    then have "update_asset P x v a = Inr (the prev, a')"
      using assms(2) by (auto simp: insert_or_update_asset_def result_simps)
    then have rep: "ast_rep P a' (es[j := (x, v)])"
      using update_asset_rep [OF assms(1), of x v] x Some e by auto
    have en: "ast_entry a x = (j, u, True)" using sel Some e by (simp add: ast_entry_def)
    have en': "ast_entry a' x = (j, v, True)"
      using ast_rep_sel(4) [OF rep] lookup_from_update [OF bound(2) j(1), of x 0 v] j(2) by (simp add: ast_entry_def)
    have l: "leaf_at ?H (ast_leaves P es) j = ast_leaf_circuit P x (U256Target_set u) True"
      using j by (simp add: leaf_at_def ast_leaf_wire ast_leaves_def)
    have l': "leaf_at ?H (ast_leaves P (es[j := (x, v)])) =
        (leaf_at ?H (ast_leaves P es))(j := ast_leaf_circuit P x (U256Target_set v) True)"
      using leaf_at_update [of j "ast_leaves P es" ?H] j(1) by (simp add: ast_leaf_wire ast_leaves_def map_update)
    have "j < ?cap" using j(1) bound(1) by simp
    have o: "u = (case amount_for a x of Some (_, u) \<Rightarrow> u | None \<Rightarrow> 0)" using sel(4) Some e by simp
    obtain p r' where "merkle_proof_at P a j = Inr p" "ast_root P a = Inr (proof_root p)" "ast_root P a' = Inr r'"
      "assert_ast_update P x (U256Target_set u) (U256Target_set v) (proof_root p) r' True True
        (merkle_set_witness p) (merkle_set_witness p)"
      using ast_replace_witness [OF assms(1) rep \<open>j < ?cap\<close> l _ l'] by auto
    from that [OF rep en en' this o] show thesis .
  qed
qed

subsection \<open>Honest paths and sums\<close>

definition path_ok :: "hasher \<Rightarrow> nat \<Rightarrow> hash_output \<Rightarrow> hash_output \<Rightarrow> hash_output merkle_proof \<Rightarrow> bool" where
  "path_ok P d lf rt p \<longleftrightarrow> verify_proof (hash_output_hash P) p \<and> proof_leaf p = lf \<and> proof_root p = rt
     \<and> length (siblings p) = d \<and> length (path p) = d"

lemma merkle_wires_of: "mw_siblings (merkle_set_witness p) = siblings p" "mw_bits (merkle_set_witness p) = path p"
  by (simp_all add: merkle_set_witness_def extract_siblings_bits_def comp_def)

lemma path_ok_gadget: "path_ok P d lf rt p \<Longrightarrow> conditional_merkle_verify_gadget P lf rt c d (merkle_set_witness p)"
  by (auto simp: path_ok_def conditional_merkle merkle_wires_of verify_proof_def)

lemma dummy_path_gadget: "conditional_merkle_verify_gadget P lf rt False d (merkle_set_dummy_witness d)"
  by (simp add: conditional_merkle merkle_set_dummy_witness_def)

lemma sum_prefix:
  fixes f :: "'a \<Rightarrow> nat"
  assumes "length xs \<le> n"
  shows "sum_list (map (\<lambda>i. if i < length xs then f (xs ! i) else 0) [0..<n]) = sum_list (map f xs)"
proof -
  have "[0..<n] = [0..<length xs] @ [length xs..<n]" using assms upt_add_eq_append [of 0 "length xs" "n - length xs"] by simp
  moreover have "map (\<lambda>i. if i < length xs then f (xs ! i) else 0) [0..<length xs] = map f xs"
    by (rule nth_equalityI) simp_all
  moreover have "sum_list (map (\<lambda>i. if i < length xs then f (xs ! i) else 0) [length xs..<n]) = 0"
    by (simp add: sum_list_eq_0_iff)
  ultimately show ?thesis by simp
qed

lemma amount_wires: "u256_wire (t_amount (note_set_witness n))" "limbs_value (t_amount (note_set_witness n)) = unat (amt n)"
  "u256_wire (t_amount (set_dummy_inote a ad))" "u256_wire (t_amount (set_dummy_onote a))"
  by (simp_all add: note_set_witness_def set_dummy_inote_def set_dummy_onote_def U256Target_set_limbs u256_limbs_value)

lemma slots_total:
  assumes "length ins \<le> NOTE_BATCH" "length outs \<le> NOTE_BATCH"
    and slots_def: "slots = map (slot_at asset owner ins ps outs di dn r) [0..<NOTE_BATCH]"
  shows "active_total (map s_inote slots) (map s_inote_active slots) = total_of ins"
    and "active_total (map s_onote slots) (map s_onote_active slots) = total_of outs"
    and "list_all (\<lambda>n. u256_wire (t_amount n)) (map s_inote slots)" "list_all (\<lambda>n. u256_wire (t_amount n)) (map s_onote slots)"
proof -
  have "active_total (map s_inote slots) (map s_inote_active slots) =
      sum_list (map (\<lambda>i. if i < length ins then unat (amt (ins ! i)) else 0) [0..<NOTE_BATCH])"
    unfolding active_total_def by (intro arg_cong [of _ _ sum_list] map_cong)
      (auto simp: slots_def slot_at_def amount_wires simp del: upt_Suc)
  then show "active_total (map s_inote slots) (map s_inote_active slots) = total_of ins"
    using sum_prefix [OF assms(1), of "\<lambda>n. unat (amt n)"] by (simp only: total_of_def)
  have "active_total (map s_onote slots) (map s_onote_active slots) =
      sum_list (map (\<lambda>i. if i < length outs then unat (amt (outs ! i)) else 0) [0..<NOTE_BATCH])"
    unfolding active_total_def by (intro arg_cong [of _ _ sum_list] map_cong)
      (auto simp: slots_def slot_at_def amount_wires simp del: upt_Suc)
  then show "active_total (map s_onote slots) (map s_onote_active slots) = total_of outs"
    using sum_prefix [OF assms(2), of "\<lambda>n. unat (amt n)"] by (simp only: total_of_def)
  show "list_all (\<lambda>n. u256_wire (t_amount n)) (map s_inote slots)" "list_all (\<lambda>n. u256_wire (t_amount n)) (map s_onote slots)"
    by (auto simp: slots_def slot_at_def amount_wires list_all_iff)
qed

lemma honest_balance:
  assumes "length ns = NOTE_BATCH" "list_all (\<lambda>n. u256_wire (t_amount n)) ns"
    and "length ms = NOTE_BATCH" "list_all (\<lambda>n. u256_wire (t_amount n)) ms"
    and sums: "(unat x + active_total ns ia) mod 2 ^ 256 = (unat y + active_total ms oa) mod 2 ^ 256"
  obtains lw rw where "generate_limbs (columns (U256Target_set x) (active_amounts ns ia)) 0 = Inr lw"
    "generate_limbs (columns (U256Target_set y) (active_amounts ms oa)) 0 = Inr rw"
    "assert_balance_invariant (U256Target_set x) (U256Target_set y) ns ms ia oa lw rw"
proof -
  have ux: "u256_wire (U256Target_set v)" "limbs_value (U256Target_set v) = unat v" for v
    by (simp_all add: U256Target_set_limbs u256_limbs_value)
  note an = active_amounts_value [OF assms(1,2), of ia] and am = active_amounts_value [OF assms(3,4), of oa]
  have short: "length (active_amounts ns ia) < 2 ^ 30" "length (active_amounts ms oa) < 2 ^ 30"
    unfolding an(3) am(3) by (simp_all add: NOTE_BATCH_def)
  obtain lw where lw: "generate_limbs (columns (U256Target_set x) (active_amounts ns ia)) 0 = Inr lw"
      "limb_steps byte_lut (columns (U256Target_set x) (active_amounts ns ia)) 0 lw" "list_all (\<lambda>w. unat (limb_carry w) < 2 ^ 31) lw"
    using generate_limbs_ok [OF columns_small [OF ux(1) an(1) short(1)], of 0] by auto
  obtain rw where rw: "generate_limbs (columns (U256Target_set y) (active_amounts ms oa)) 0 = Inr rw"
      "limb_steps byte_lut (columns (U256Target_set y) (active_amounts ms oa)) 0 rw" "list_all (\<lambda>w. unat (limb_carry w) < 2 ^ 31) rw"
    using generate_limbs_ok [OF columns_small [OF ux(1) am(1) short(2)], of 0] by auto
  have v: "limbs_value (map limb_result lw) = limbs_value (map limb_result rw)"
    using chain_sound [OF ux(1) an(1) short(1) lw(2,3)] chain_sound [OF ux(1) am(1) short(2) rw(2,3)] sums
    by (simp only: an(2) am(2) ux(2))
  have "u256_wire (map limb_result lw)" "u256_wire (map limb_result rw)"
    using limb_steps_results [OF lw(2)] limb_steps_results [OF rw(2)] by (simp_all add: u256_wire_def columns_def)
  then have "map limb_result lw = map limb_result rw" using v u256_wire_limbs by metis
  then have "assert_balance_invariant (U256Target_set x) (U256Target_set y) ns ms ia oa lw rw"
    using lw(2) rw(2) by (simp add: balance_iff connect_u256_eq)
  with that lw(1) rw(1) show thesis by blast
qed

subsection \<open>The note constraints\<close>

definition notes_ready :: "hasher \<Rightarrow> asset_id \<Rightarrow> account_address \<Rightarrow> hash_output \<Rightarrow> 'g built_priv_tx \<Rightarrow> bool" where
  "notes_ready P asset owner rt bt \<longleftrightarrow> bt_shape bt
     \<and> list_all (\<lambda>n. note_asset_id n = asset \<and> recipient n = owner) (bt_ins bt)
     \<and> list_all (\<lambda>n. note_asset_id n = asset) (bt_onotes bt)
     \<and> (\<forall>i < length (bt_ins bt). path_ok P STATE_TREE_DEPTH (note_commitment P (bt_ins bt ! i)) rt (bt_paths bt ! i))"

lemma bt_slot_sel:
  "s_inote_active (bt_slot bt asset owner i) \<longleftrightarrow> i < length (bt_ins bt)"
  "s_onote_active (bt_slot bt asset owner i) \<longleftrightarrow> i < length (bt_outs bt)"
  "s_rjct (bt_slot bt asset owner i) \<longleftrightarrow> i < length (bt_rejected_inotes bt)"
  "s_inote (bt_slot bt asset owner i) = (if i < length (bt_ins bt) then note_set_witness (bt_ins bt ! i) else set_dummy_inote asset owner)"
  "s_onote (bt_slot bt asset owner i) = (if i < length (bt_outs bt) then note_set_witness (bt_outs bt ! i) else set_dummy_onote asset)"
  "s_path (bt_slot bt asset owner i) =
     (if i < length (bt_ins bt) then merkle_set_witness (bt_paths bt ! i) else merkle_set_dummy_witness STATE_TREE_DEPTH)"
  by (simp_all add: bt_slot_def slot_at_def)

lemma bt_outs_asset:
  assumes "notes_ready P asset owner rt bt"
  shows "list_all (\<lambda>n. note_asset_id n = asset) (bt_outs bt)"
  using assms by (auto simp: notes_ready_def bt_outs_def bt_ins_def list_all_iff rejected_onote_def)

lemma slot_note_assets:
  assumes "notes_ready P asset owner rt bt"
  shows "t_asset_id (s_inote (bt_slot bt asset owner i)) = asset" "t_asset_id (s_onote (bt_slot bt asset owner i)) = asset"
    "t_recipient (s_inote (bt_slot bt asset owner i)) = owner"
    "length (t_amount (s_inote (bt_slot bt asset owner i))) = 8" "length (t_amount (s_onote (bt_slot bt asset owner i))) = 8"
  using assms bt_outs_asset [OF assms]
  by (simp_all add: bt_slot_sel note_set_witness_def set_dummy_inote_def set_dummy_onote_def notes_ready_def list_all_length)

lemma slot_reject_pair:
  assumes "notes_ready P asset owner rt bt"
  shows "assert_reject_pair (s_inote (bt_slot bt asset owner i)) (s_onote (bt_slot bt asset owner i))
    (s_inote_active (bt_slot bt asset owner i)) (s_rjct (bt_slot bt asset owner i))"
  unfolding reject_pair [OF slot_note_assets(4,5) [OF assms]]
  by (simp add: bt_slot_sel bt_ins_def bt_outs_def nth_append note_set_witness_def rejected_onote_def)

lemma slots_constraints:
  assumes ready: "notes_ready P asset owner rt bt"
  defines "slots \<equiv> map (bt_slot bt asset owner) [0..<NOTE_BATCH]"
  shows "assert_reject_note_pairs (map s_inote slots) (map s_onote slots) (map s_inote_active slots) (map s_rjct slots)"
    and "list_all (\<lambda>n. t_asset_id n = asset) (map s_inote slots @ map s_onote slots)"
    and "assert_inotes_valid P (map s_inote slots) (map s_inote_active slots) (map (derive_note_commitment P) (map s_inote slots))
      (addr_public_id owner) (addr_subpool_id owner) rt (map s_path slots)"
    and "list_all (\<lambda>n. length (t_amount n) = 8) (map s_inote slots @ map s_onote slots)"
proof -
  note s = slot_note_assets [OF ready]
  show "assert_reject_note_pairs (map s_inote slots) (map s_onote slots) (map s_inote_active slots) (map s_rjct slots)"
    using slot_reject_pair [OF ready] by (simp add: assert_reject_note_pairs_def slots_def list_all_iff del: upt_Suc)
  show "list_all (\<lambda>n. t_asset_id n = asset) (map s_inote slots @ map s_onote slots)"
    "list_all (\<lambda>n. length (t_amount n) = 8) (map s_inote slots @ map s_onote slots)"
    using s by (auto simp: slots_def list_all_iff)
  have "conditional_merkle_verify_gadget P (derive_note_commitment P (s_inote (bt_slot bt asset owner i))) rt
      (s_inote_active (bt_slot bt asset owner i)) STATE_TREE_DEPTH (s_path (bt_slot bt asset owner i))" for i
    using ready path_ok_gadget dummy_path_gadget
    by (auto simp: bt_slot_sel notes_ready_def note_derivations)
  then show "assert_inotes_valid P (map s_inote slots) (map s_inote_active slots) (map (derive_note_commitment P) (map s_inote slots))
      (addr_public_id owner) (addr_subpool_id owner) rt (map s_path slots)"
    using s by (simp add: assert_inotes_valid_def slots_def list_all_iff del: upt_Suc)
qed

lemma slots_required:
  assumes "bt_shape bt" and slots_def: "slots = map (bt_slot bt asset owner) [0..<NOTE_BATCH]"
  shows "spend_required (map s_onote_active slots) (map s_rjct slots) \<longleftrightarrow> bt_onotes bt \<noteq> []"
    and "consume_required (map s_inote_active slots) (map s_onote_active slots) (map s_rjct slots)
      \<longleftrightarrow> bt_ins bt \<noteq> [] \<and> bt_onotes bt = []"
proof -
  let ?r = "length (bt_rejected_inotes bt)"
  have lens: "length (bt_outs bt) = ?r + length (bt_onotes bt)" "length (bt_outs bt) < NOTE_BATCH" "length (bt_ins bt) < NOTE_BATCH"
    using assms(1) by (simp_all add: bt_outs_def bt_shape_def)
  show spend: "spend_required (map s_onote_active slots) (map s_rjct slots) \<longleftrightarrow> bt_onotes bt \<noteq> []"
    unfolding spend_required_iff
  proof
    assume "\<exists>i < NOTE_BATCH. map s_onote_active slots ! i \<and> \<not> map s_rjct slots ! i"
    then show "bt_onotes bt \<noteq> []" using lens(1) by (auto simp: slots_def bt_slot_sel simp del: upt_Suc)
  next
    assume "bt_onotes bt \<noteq> []"
    with lens show "\<exists>i < NOTE_BATCH. map s_onote_active slots ! i \<and> \<not> map s_rjct slots ! i"
      by (intro exI [of _ ?r]) (simp add: slots_def bt_slot_sel del: upt_Suc)
  qed
  have "(\<exists>i < NOTE_BATCH. map s_inote_active slots ! i) \<longleftrightarrow> bt_ins bt \<noteq> []"
    using lens(3) by (auto simp: slots_def bt_slot_sel NOTE_BATCH_def simp del: upt_Suc intro!: exI [of _ 0])
  then show "consume_required (map s_inote_active slots) (map s_onote_active slots) (map s_rjct slots)
      \<longleftrightarrow> bt_ins bt \<noteq> [] \<and> bt_onotes bt = []"
    using spend unfolding consume_required_iff spend_required_iff by blast
qed

subsection \<open>Assembling the witness\<close>

text \<open>The wires of a transaction whose parts all succeed.\<close>

definition filled_wires ::
  "'g built_priv_tx \<Rightarrow> account_target \<Rightarrow> account_target \<Rightarrow> u256 \<times> bool \<Rightarrow> u256 \<times> bool \<Rightarrow> hash_output merkle_proof
     \<Rightarrow> slot_fill list \<Rightarrow> limb_wires list \<Rightarrow> limb_wires list \<Rightarrow> 's \<Rightarrow> 's \<Rightarrow> 's \<Rightarrow> 's tx_wires" where
  "filled_wires bt accin accout bin bout ast_proof fs lhs rhs spend consume approval =
     \<lparr>w_not_fake_tx = f_not_fake_tx (bt_flags bt), w_is_fresh_acc = f_is_fresh_acc (bt_flags bt),
      w_is_update_auth = f_is_update_auth (bt_flags bt), w_is_priv_tx = f_is_priv_tx (bt_flags bt),
      w_state_root = bt_state_root bt, w_mainpool_config_root = bt_mainpool_config_root bt,
      w_approval_key = bt_approval_key bt, w_asset_id = bt_asset_id bt,
      w_accin_amt = U256Target_set (fst bin), w_asset_exists_in_accin = snd bin,
      w_accout_amt = U256Target_set (fst bout), w_asset_exists_in_accout = snd bout,
      w_accin = accin, w_accout = accout,
      w_accin_act_merkle = merkle_set_witness (bt_accin_merkle_proof bt),
      w_accin_ast_merkle = merkle_set_witness ast_proof, w_accout_ast_merkle = merkle_set_witness ast_proof,
      w_inotes = map s_inote fs, w_inotes_pos = map s_pos fs, w_inotes_isactive = map s_inote_active fs,
      w_onotes = map s_onote fs, w_onotes_isactive = map s_onote_active fs, w_is_note_pair_rjct = map s_rjct fs,
      w_dinotes = map s_dinote fs, w_donotes = map s_donote fs,
      w_inotes_nct_merkle = map s_path fs, w_lhs_sum = lhs, w_rhs_sum = rhs,
      w_main_pool_proof = merkle_set_witness (main_pool_proof (bt_subpool_proof bt)),
      w_spend_sig = spend, w_consume_sig = consume, w_approval_sig = approval\<rparr>"

lemma set_witness_filled:
  assumes "account_set_witness P (bt_accin bt) = Inr accin" "account_set_witness P (bt_accout bt) = Inr accout"
    and "sig_fill set_sig set_dummy (spend_pk_or_default (bt_accin bt)) (bt_tx_hash bt) (bt_spend_sig bt) = Inr s1"
    and "sig_fill set_sig set_dummy (consume_pk_or_default (bt_accin bt)) (bt_tx_hash bt) (bt_consume_sig bt) = Inr s2"
    and "sig_fill set_sig set_dummy (bt_approval_key bt) (bt_tx_hash bt) (bt_approval_sig bt) = Inr s3"
    and "ast_entry (ast (bt_accin bt)) (bt_asset_id bt) = (i, x, ei)" "ast_entry (ast (bt_accout bt)) (bt_asset_id bt) = (i, y, eo)"
    and "merkle_proof_at P (ast (bt_accin bt)) i = Inr p"
    and "set_notes_witness bt (bt_asset_id bt) \<lparr>addr_subpool_id = t_subpool_id accin,
        addr_public_id = derive_public_identifier P (t_private_identifier accin)\<rparr> = Inr fs"
    and "generate_limbs (columns (U256Target_set x) (active_amounts (map s_inote fs) (map s_inote_active fs))) 0 = Inr lw"
    and "generate_limbs (columns (U256Target_set y) (active_amounts (map s_onote fs) (map s_onote_active fs))) 0 = Inr rw"
  shows "set_witness P set_sig set_dummy bt = Inr (filled_wires bt accin accout (x, ei) (y, eo) p fs lw rw s1 s2 s3)"
  using assms by (simp add: set_witness_def filled_wires_def Let_def)

lemma account_wires:
  assumes "ast_root P (ast acc) = Inr r"
  obtains t where "account_set_witness P acc = Inr t" "t_acc_ast_root t = r" "t_private_identifier t = private_identifier acc"
    "t_subpool_id t = subpool_id acc" "t_nonce t = nonce acc" "t_spend_auth t = spend_pk_or_default acc"
    "t_consume_config t = consume_config acc" "t_consume_pk t = consume_pk_or_default acc"
  using that [of "\<lparr>t_private_identifier = private_identifier acc, t_nonce = nonce acc, t_subpool_id = subpool_id acc,
      t_acc_ast_root = r, t_spend_auth = spend_pk_or_default acc, t_consume_config = consume_config acc,
      t_consume_pk = consume_pk_or_default acc\<rparr>"] assms
  by (simp add: account_set_witness_def)

lemma nonce_wire:
  assumes "unat n + 1 < unat GOLDILOCKS_PRIME"
  shows "nonce_incremented n = felt_add n 1"
proof -
  have n: "unat n + 1 < gp" using assms by (simp only: gp_eq)
  then have "canonical n" by (simp add: canonical_lt)
  then have "to_canonical_u64 n = n" by simp
  have "unat (n + 1) = unat n + 1" using n by (simp add: unat_word_ariths)
  then have "unat (n + 1) = unat (felt_add n 1)" using n by (simp add: felt_simps)
  then have "n + 1 = felt_add n 1" by (simp only: word_unat_eq_iff)
  then show ?thesis
    using \<open>to_canonical_u64 n = n\<close> by (simp add: nonce_incremented_def from_canonical_u64_def)
qed

text \<open>The digests of the wires are those the builder hashed.\<close>

lemma effective_null_slots:
  assumes "length (bt_ins bt) \<le> NOTE_BATCH" "bt_ins bt = map fst ins" "length (bt_paths bt) = length ins"
    and "\<forall>i < length ins. pos (bt_paths bt ! i) = snd (ins ! i)"
    and "slots = map (bt_slot bt asset owner) [0..<NOTE_BATCH]" "w_inotes w = map s_inote slots" "w_inotes_pos w = map s_pos slots"
    and "w_inotes_isactive w = map s_inote_active slots" "w_dinotes w = map s_dinote slots" "tx_nk P w = key"
  shows "effective_inotes_null P w = map (native_null P key ins (bt_dinotes bt)) [0..<NOTE_BATCH]"
proof (rule nth_equalityI)
  fix i assume "i < length (effective_inotes_null P w)"
  then have i: "i < NOTE_BATCH" by (simp add: effective_inotes_null_def)
  then have sel: "w_inotes w ! i = s_inote (bt_slot bt asset owner i)" "w_inotes_pos w ! i = s_pos (bt_slot bt asset owner i)"
    "w_inotes_isactive w ! i = s_inote_active (bt_slot bt asset owner i)" "w_dinotes w ! i = s_dinote (bt_slot bt asset owner i)"
    using assms(5-9) by (simp_all del: upt_Suc)
  show "effective_inotes_null P w ! i = map (native_null P key ins (bt_dinotes bt)) [0..<NOTE_BATCH] ! i"
    unfolding effective_inotes_null_nth [OF i] sel assms(10)
    using i assms(2,4) by (auto simp: bt_slot_def slot_at_def native_null_def note_derivations double_hash_def
        double_hash_native_def simp del: upt_Suc)
qed (simp add: effective_inotes_null_def)

lemma derived_comm_slots:
  assumes "slots = map (bt_slot bt asset owner) [0..<NOTE_BATCH]" "w_onotes w = map s_onote slots"
    and "w_onotes_isactive w = map s_onote_active slots" "w_donotes w = map s_donote slots"
  shows "derived_onotes_comm P w = map (native_comm P (bt_outs bt) (bt_donotes bt)) [0..<NOTE_BATCH]"
  unfolding derived_onotes_comm_def
  by (intro map_cong) (auto simp: assms select_hash bt_slot_def slot_at_def native_comm_def note_derivations
      derive_dummy_note_commitment_def double_hash_def double_hash_native_def simp del: upt_Suc)

subsection \<open>Spending\<close>

definition note_path_ok :: "hasher \<Rightarrow> hash_output \<Rightarrow> standard_note \<times> nat \<Rightarrow> hash_output merkle_proof \<Rightarrow> bool" where
  "note_path_ok P rt e p \<longleftrightarrow> path_ok P STATE_TREE_DEPTH (note_commitment P (fst e)) rt p \<and> pos p = snd e"

definition subpool_path_ok :: "hasher \<Rightarrow> felt \<Rightarrow> subpool_full_proof \<Rightarrow> bool" where
  "subpool_path_ok P sid sp \<longleftrightarrow>
     path_ok P MAIN_POOL_CONFIG_DEPTH (P ([sid, 0, 0, 0] @ elems (subpool_commitment P (sp_config sp))))
       (proof_root (main_pool_proof sp)) (main_pool_proof sp)"

text \<open>The paths handed to a built transaction lead from its commitments to one state root.\<close>

definition spend_paths_ok ::
  "hasher \<Rightarrow> spend_builder \<Rightarrow> hash_output merkle_proof \<Rightarrow> hash_output merkle_proof list \<Rightarrow> hash_output merkle_proof list
     \<Rightarrow> subpool_full_proof \<Rightarrow> bool" where
  "spend_paths_ok P b ap ips rps sp \<longleftrightarrow>
     (case account_commitment P (sb_accin b) of Inr c \<Rightarrow> path_ok P STATE_TREE_DEPTH c (proof_root ap) ap | Inl _ \<Rightarrow> False)
     \<and> list_all2 (note_path_ok P (proof_root ap)) (rejected_notes b) rps
     \<and> list_all2 (note_path_ok P (proof_root ap)) (input_notes b) ips
     \<and> subpool_path_ok P (subpool_id (sb_accin b)) sp"

text \<open>Fewer than seven notes on either side, and dummy seeds drawn after the notes were added.\<close>

definition notes_fit :: "spend_builder \<Rightarrow> bool" where
  "notes_fit b \<longleftrightarrow>
     length (rejected_notes b) + length (input_notes b) < NOTE_BATCH
     \<and> length (rejected_notes b) + length (output_notes b) < NOTE_BATCH
     \<and> length (the (sb_dinotes b)) = NOTE_BATCH - length (rejected_notes b) - length (input_notes b)
     \<and> length (the (sb_donotes b)) = NOTE_BATCH - length (rejected_notes b) - length (output_notes b)"

definition attach ::
  "hash_output merkle_proof \<Rightarrow> hash_output merkle_proof list \<Rightarrow> hash_output merkle_proof list \<Rightarrow> subpool_full_proof
     \<Rightarrow> 'g option \<Rightarrow> 'g option \<Rightarrow> 'g option \<Rightarrow> 'g built_spend \<Rightarrow> 'g built_spend" where
  "attach ap ips rps sp g1 g2 g3 tx =
     (with_subpool_proof sp (with_rejected_notes_path rps (with_input_notes_path ips (with_account_path ap tx))))
       \<lparr>bs_spend_sig := g1, bs_consume_sig := g2, bs_approval_sig := g3\<rparr>"

lemma attached_tx:
  assumes "bs_accin tx = accin" "bs_rejected tx = rejected_notes b" "bs_inotes tx = input_notes b" "bs_onotes tx = output_notes b"
    and "bs_dinotes tx = the (sb_dinotes b)" "bs_donotes tx = the (sb_donotes b)"
  obtains bt where "spend_into_priv_tx (attach ap ips rps sp g1 g2 g3 tx) = Inr bt" "bt_flags bt = FLAGS_SPEND"
    "bt_accin bt = accin" "bt_accout bt = bs_accout tx" "bt_accin_merkle_proof bt = ap" "bt_state_root bt = proof_root ap"
    "bt_ins bt = map fst (rejected_notes b @ input_notes b)" "bt_paths bt = rps @ ips"
    "bt_outs bt = map (rejected_onote \<circ> fst) (rejected_notes b) @ output_notes b" "bt_onotes bt = output_notes b"
    "bt_rejected_inotes bt = map fst (rejected_notes b)" "bt_inotes bt = map fst (input_notes b)"
    "bt_rejected_nct_proofs bt = rps" "bt_inotes_nct_proofs bt = ips"
    "bt_dinotes bt = the (sb_dinotes b)" "bt_donotes bt = the (sb_donotes b)" "bt_tx_hash bt = bs_tx_hash tx"
    "bt_mainpool_config_root bt = proof_root (main_pool_proof sp)" "bt_subpool_proof bt = sp"
    "bt_approval_key bt = approval_key (sp_config sp)" "bt_spend_sig bt = g1" "bt_consume_sig bt = g2" "bt_approval_sig bt = g3"
proof -
  let ?tx = "attach ap ips rps sp g1 g2 g3 tx"
  have "bs_accin_proof ?tx = Some ap" "bs_inotes_nct_proofs ?tx = Some ips" "bs_rejected_nct_proofs ?tx = Some rps"
    "bs_subpool_proof ?tx = Some sp"
    by (simp_all add: attach_def with_subpool_proof_def with_rejected_notes_path_def with_input_notes_path_def with_account_path_def)
  then obtain bt where bt: "spend_into_priv_tx ?tx = Inr bt" by (simp add: spend_into_priv_tx_def)
  show thesis
    by (rule that [OF bt]; insert bt assms)
       (auto simp: spend_into_priv_tx_def attach_def with_subpool_proof_def with_rejected_notes_path_def
          with_input_notes_path_def with_account_path_def bt_ins_def bt_outs_def bt_paths_def)
qed

lemma attached_notes_ready:
  assumes inv: "builder_inv P accin asset b" and fit: "notes_fit b"
    and paths: "list_all2 (note_path_ok P rt) (rejected_notes b) rps" "list_all2 (note_path_ok P rt) (input_notes b) ips"
    and bt: "bt_ins bt = map fst (rejected_notes b @ input_notes b)" "bt_paths bt = rps @ ips"
      "bt_outs bt = map (rejected_onote \<circ> fst) (rejected_notes b) @ output_notes b" "bt_onotes bt = output_notes b"
      "bt_rejected_inotes bt = map fst (rejected_notes b)" "bt_inotes bt = map fst (input_notes b)"
      "bt_rejected_nct_proofs bt = rps" "bt_inotes_nct_proofs bt = ips"
      "bt_dinotes bt = the (sb_dinotes b)" "bt_donotes bt = the (sb_donotes b)"
  shows "notes_ready P asset (address_from_acc P accin) rt bt"
    and "\<forall>i < length (rejected_notes b @ input_notes b). pos (bt_paths bt ! i) = snd ((rejected_notes b @ input_notes b) ! i)"
proof -
  have all: "list_all2 (note_path_ok P rt) (rejected_notes b @ input_notes b) (bt_paths bt)"
    unfolding bt(2) by (intro list_all2_appendI paths)
  have "bt_shape bt"
    using fit list_all2_lengthD [OF paths(1)] list_all2_lengthD [OF paths(2)] by (simp add: bt_shape_def bt notes_fit_def)
  moreover have "list_all (\<lambda>n. note_asset_id n = asset \<and> recipient n = address_from_acc P accin) (bt_ins bt)"
    "list_all (\<lambda>n. note_asset_id n = asset) (bt_onotes bt)"
    using inv by (auto simp: bt builder_inv_def list_all_iff)
  moreover have "\<forall>i < length (bt_ins bt). path_ok P STATE_TREE_DEPTH (note_commitment P (bt_ins bt ! i)) rt (bt_paths bt ! i)"
    using all unfolding bt(1) by (simp add: list_all2_conv_all_nth note_path_ok_def del: map_append)
  ultimately show "notes_ready P asset (address_from_acc P accin) rt bt" by (simp add: notes_ready_def)
  show "\<forall>i < length (rejected_notes b @ input_notes b). pos (bt_paths bt ! i) = snd ((rejected_notes b @ input_notes b) ! i)"
    using all by (simp add: list_all2_conv_all_nth note_path_ok_def)
qed

lemma attached_asset:
  assumes "notes_ready P asset owner rt bt" "bt_ins bt \<noteq> [] \<or> bt_onotes bt \<noteq> []"
  shows "bt_asset_id bt = asset"
  using assms
  by (auto simp: notes_ready_def bt_ins_def bt_asset_id_def split: list.splits)

text \<open>All constraints of a filled witness but those of the signatures.\<close>

lemma filled_circuit:
  assumes ready: "notes_ready P (bt_asset_id bt) owner (bt_state_root bt) bt"
    and slots: "fs = map (bt_slot bt (bt_asset_id bt) owner) [0..<NOTE_BATCH]"
    and owner: "derive_public_identifier P (t_private_identifier accin) = addr_public_id owner" "t_subpool_id accin = addr_subpool_id owner"
    and fresh: "assert_fresh_account accin (f_is_fresh_acc (bt_flags bt))"
    and inv: "assert_account_invariants accin accout (f_is_fresh_acc (bt_flags bt)) (f_is_update_auth (bt_flags bt)) (f_is_priv_tx (bt_flags bt))"
    and act: "account_in_act P (derive_account_commitment P accin) (bt_state_root bt)
      (\<not> f_is_fresh_acc (bt_flags bt) \<and> f_not_fake_tx (bt_flags bt)) (merkle_set_witness (bt_accin_merkle_proof bt))"
    and upd: "assert_ast_update P (bt_asset_id bt) (U256Target_set x) (U256Target_set y) (t_acc_ast_root accin) (t_acc_ast_root accout)
      ei eo (merkle_set_witness p) (merkle_set_witness p)"
    and bal: "assert_balance_invariant (U256Target_set x) (U256Target_set y) (map s_inote fs) (map s_onote fs)
      (map s_inote_active fs) (map s_onote_active fs) lw rw"
    and sub: "assert_subpool_full_proof P (t_subpool_id accin) (bt_approval_key bt) (bt_mainpool_config_root bt)
      (f_not_fake_tx (bt_flags bt)) (merkle_set_witness (main_pool_proof (bt_subpool_proof bt)))"
    and w: "w = filled_wires bt accin accout (x, ei) (y, eo) p fs lw rw s1 s2 s3"
  shows "priv_tx_circuit P S w \<longleftrightarrow>
    S (bt_onotes bt \<noteq> []) (circuit_tx_hash P w) (t_spend_auth accin) s1
    \<and> S ((bt_ins bt \<noteq> [] \<and> bt_onotes bt = []) \<and> t_consume_config accin) (circuit_tx_hash P w) (t_consume_pk accin) s2
    \<and> S (f_not_fake_tx (bt_flags bt)) (circuit_tx_hash P w) (bt_approval_key bt) s3"
proof -
  note c = slots_constraints [OF ready, folded slots]
  have shape: "bt_shape bt" using ready by (simp add: notes_ready_def)
  note req = slots_required [OF shape slots]
  have len: "length fs = NOTE_BATCH" by (simp add: slots)
  have arity: "tx_arity w" using c(4) by (simp add: tx_arity_def w filled_wires_def len)
  have sig: "assert_tx_signatures S (circuit_tx_hash P w) (w_inotes_isactive w) (w_onotes_isactive w) (w_accin w)
      (w_approval_key w) (w_is_note_pair_rjct w) (w_not_fake_tx w) (w_spend_sig w) (w_consume_sig w) (w_approval_sig w) \<longleftrightarrow>
    S (bt_onotes bt \<noteq> []) (circuit_tx_hash P w) (t_spend_auth accin) s1
    \<and> S ((bt_ins bt \<noteq> [] \<and> bt_onotes bt = []) \<and> t_consume_config accin) (circuit_tx_hash P w) (t_consume_pk accin) s2
    \<and> S (f_not_fake_tx (bt_flags bt)) (circuit_tx_hash P w) (bt_approval_key bt) s3"
    unfolding assert_tx_signatures_def w filled_wires_def tx_wires.simps req by (rule refl)
  have rest: "assert_fresh_account (w_accin w) (w_is_fresh_acc w)"
    "assert_account_invariants (w_accin w) (w_accout w) (w_is_fresh_acc w) (w_is_update_auth w) (w_is_priv_tx w)"
    "account_in_act P (tx_accin_comm P w) (w_state_root w) (\<not> w_is_fresh_acc w \<and> w_not_fake_tx w) (w_accin_act_merkle w)"
    "assert_ast_update P (w_asset_id w) (w_accin_amt w) (w_accout_amt w) (t_acc_ast_root (w_accin w)) (t_acc_ast_root (w_accout w))
         (w_asset_exists_in_accin w) (w_asset_exists_in_accout w) (w_accin_ast_merkle w) (w_accout_ast_merkle w)"
    "assert_reject_note_pairs (w_inotes w) (w_onotes w) (w_inotes_isactive w) (w_is_note_pair_rjct w)"
    "list_all (\<lambda>n. t_asset_id n = w_asset_id w) (w_inotes w @ w_onotes w)"
    "assert_inotes_valid P (w_inotes w) (w_inotes_isactive w) (map (derive_note_commitment P) (w_inotes w))
         (derive_public_identifier P (t_private_identifier (w_accin w))) (t_subpool_id (w_accin w))
         (w_state_root w) (w_inotes_nct_merkle w)"
    "assert_balance_invariant (w_accin_amt w) (w_accout_amt w) (w_inotes w) (w_onotes w)
         (w_inotes_isactive w) (w_onotes_isactive w) (w_lhs_sum w) (w_rhs_sum w)"
    "assert_subpool_full_proof P (t_subpool_id (w_accin w)) (w_approval_key w) (w_mainpool_config_root w)
         (w_not_fake_tx w) (w_main_pool_proof w)"
    using fresh inv act upd c bal sub
    unfolding w filled_wires_def tx_wires.simps tx_accin_comm_def fst_conv snd_conv owner by blast+
  show ?thesis unfolding priv_tx_circuit_def sig using arity rest by blast
qed

lemma commitment_wire:
  assumes "account_set_witness P acc = Inr t" "consume_config acc \<longleftrightarrow> consume_pk acc \<noteq> None"
  shows "account_commitment P acc = Inr (derive_account_commitment P t)"
  using account_derivation [OF assms(2), of P] assms(1) by simp

lemma slots_balance:
  assumes "bt_shape bt" "fs = map (bt_slot bt asset owner) [0..<NOTE_BATCH]"
    and "(unat x + total_of (bt_ins bt)) mod 2 ^ 256 = (unat y + total_of (bt_outs bt)) mod 2 ^ 256"
  obtains lw rw where "generate_limbs (columns (U256Target_set x) (active_amounts (map s_inote fs) (map s_inote_active fs))) 0 = Inr lw"
    "generate_limbs (columns (U256Target_set y) (active_amounts (map s_onote fs) (map s_onote_active fs))) 0 = Inr rw"
    "assert_balance_invariant (U256Target_set x) (U256Target_set y) (map s_inote fs) (map s_onote fs)
      (map s_inote_active fs) (map s_onote_active fs) lw rw"
proof -
  have len: "length (bt_ins bt) \<le> NOTE_BATCH" "length (bt_outs bt) \<le> NOTE_BATCH" using assms(1) by (simp_all add: bt_shape_def)
  note tot = slots_total [OF len assms(2) [unfolded bt_slot_def]]
  have l: "length (map s_inote fs) = NOTE_BATCH" "length (map s_onote fs) = NOTE_BATCH" by (simp_all add: assms(2))
  show thesis
    using assms(3) that unfolding tot(1,2) [symmetric] by (rule honest_balance [OF l(1) tot(3) l(2) tot(4)])
qed

text \<open>The public inputs of filled wires.\<close>

lemma filled_public:
  assumes "bt_shape bt" "bt_ins bt = map fst ins" "length (bt_paths bt) = length ins"
    and "\<forall>i < length ins. pos (bt_paths bt ! i) = snd (ins ! i)"
    and fs: "fs = map (bt_slot bt asset owner) [0..<NOTE_BATCH]" and w: "w = filled_wires bt accin accout bin bout p fs lw rw s1 s2 s3"
    and "t_private_identifier accin = private_identifier acc"
    and "account_nullifier P acc = Inr an" "account_commitment P acc = Inr (derive_account_commitment P accin)"
    and "ac = derive_account_commitment P accout"
  shows "tx_public P w = \<lparr>p_state_root = bt_state_root bt, p_mainpool_config_root = bt_mainpool_config_root bt,
      p_not_fake_tx = f_not_fake_tx (bt_flags bt), p_accin_null = an, p_accout_comm = ac,
      p_inotes_null = map (native_null P (nk P acc) ins (bt_dinotes bt)) [0..<NOTE_BATCH],
      p_onotes_comm = map (\<lambda>i. double_hash_native P
        (if i < length (bt_outs bt) then ZERO_hash else bt_donotes bt ! (i - length (bt_outs bt)))) [0..<NOTE_BATCH]\<rparr>"
    and "circuit_tx_hash P w = derive_priv_tx_hash P an ac
      (map (native_null P (nk P acc) ins (bt_dinotes bt)) [0..<NOTE_BATCH])
      (map (native_comm P (bt_outs bt) (bt_donotes bt)) [0..<NOTE_BATCH])"
proof -
  have nk: "tx_nk P w = nk P acc" by (simp add: tx_nk_def w filled_wires_def assms(7) key_derivations)
  have len: "length (bt_ins bt) \<le> NOTE_BATCH" using assms(1) by (simp add: bt_shape_def)
  have nulls: "effective_inotes_null P w = map (native_null P (nk P acc) ins (bt_dinotes bt)) [0..<NOTE_BATCH]"
    by (rule effective_null_slots [OF len assms(2-4) fs _ _ _ _ nk]) (simp_all add: w filled_wires_def)
  have comms: "derived_onotes_comm P w = map (native_comm P (bt_outs bt) (bt_donotes bt)) [0..<NOTE_BATCH]"
    by (rule derived_comm_slots [OF fs]) (simp_all add: w filled_wires_def)
  have "tx_accin_comm P w = derive_account_commitment P accin" by (simp add: tx_accin_comm_def w filled_wires_def)
  then have an: "tx_accin_null P w = an"
    using assms(8,9) nk by (simp add: tx_accin_null_def derive_account_nullifier_def account_nullifier_def)
  have ac: "tx_accout_comm P w = ac" by (simp add: tx_accout_comm_def w filled_wires_def assms(10))
  have "map (derive_dummy_note_commitment P) (w_donotes w) = map (\<lambda>i. double_hash_native P
      (if i < length (bt_outs bt) then ZERO_hash else bt_donotes bt ! (i - length (bt_outs bt)))) [0..<NOTE_BATCH]"
    by (simp add: w filled_wires_def fs bt_slot_def slot_at_def derive_dummy_note_commitment_def double_hash_def
        double_hash_native_def del: upt_Suc)
  then show "tx_public P w = \<lparr>p_state_root = bt_state_root bt, p_mainpool_config_root = bt_mainpool_config_root bt,
      p_not_fake_tx = f_not_fake_tx (bt_flags bt), p_accin_null = an, p_accout_comm = ac,
      p_inotes_null = map (native_null P (nk P acc) ins (bt_dinotes bt)) [0..<NOTE_BATCH],
      p_onotes_comm = map (\<lambda>i. double_hash_native P
        (if i < length (bt_outs bt) then ZERO_hash else bt_donotes bt ! (i - length (bt_outs bt)))) [0..<NOTE_BATCH]\<rparr>"
    by (simp add: tx_public_def an ac nulls) (simp add: w filled_wires_def)
  show "circuit_tx_hash P w = derive_priv_tx_hash P an ac
      (map (native_null P (nk P acc) ins (bt_dinotes bt)) [0..<NOTE_BATCH])
      (map (native_comm P (bt_outs bt) (bt_donotes bt)) [0..<NOTE_BATCH])"
    by (simp only: circuit_tx_hash_def nulls comms an ac tx_hash_derivation)
qed

text \<open>
  What proving amounts to once the notes, the balance trees, the accounts and the paths of a
  built transaction are in order: the three signature constraints.
\<close>

definition native_tx_hash :: "hasher \<Rightarrow> hash_output \<Rightarrow> hash_output \<Rightarrow> account \<Rightarrow> (standard_note \<times> nat) list \<Rightarrow> 'g built_priv_tx \<Rightarrow> hash_output" where
  "native_tx_hash P an ac acc ins bt =
     derive_priv_tx_hash P an ac (map (native_null P (nk P acc) ins (bt_dinotes bt)) [0..<NOTE_BATCH])
       (map (native_comm P (bt_outs bt) (bt_donotes bt)) [0..<NOTE_BATCH])"

definition native_public :: "hasher \<Rightarrow> hash_output \<Rightarrow> hash_output \<Rightarrow> account \<Rightarrow> (standard_note \<times> nat) list \<Rightarrow> 'g built_priv_tx \<Rightarrow> tx_public_targets" where
  "native_public P an ac acc ins bt =
     \<lparr>p_state_root = bt_state_root bt, p_mainpool_config_root = bt_mainpool_config_root bt,
      p_not_fake_tx = f_not_fake_tx (bt_flags bt), p_accin_null = an, p_accout_comm = ac,
      p_inotes_null = map (native_null P (nk P acc) ins (bt_dinotes bt)) [0..<NOTE_BATCH],
      p_onotes_comm = map (\<lambda>i. double_hash_native P
        (if i < length (bt_outs bt) then ZERO_hash else bt_donotes bt ! (i - length (bt_outs bt)))) [0..<NOTE_BATCH]\<rparr>"

lemma built_prove_filled:
  assumes ready: "notes_ready P (bt_asset_id bt) (address_from_acc P acc) (bt_state_root bt) bt"
    and ins: "bt_ins bt = map fst ins" "length (bt_paths bt) = length ins" "\<forall>i < length ins. pos (bt_paths bt ! i) = snd (ins ! i)"
    and accs: "bt_accin bt = acc" "consume_config acc \<longleftrightarrow> consume_pk acc \<noteq> None"
      "consume_config (bt_accout bt) \<longleftrightarrow> consume_pk (bt_accout bt) \<noteq> None"
    and entry: "ast_entry (ast acc) (bt_asset_id bt) = (i, x, ei)" "ast_entry (ast (bt_accout bt)) (bt_asset_id bt) = (i, y, eo)"
      "merkle_proof_at P (ast acc) i = Inr p" "ast_root P (ast acc) = Inr r" "ast_root P (ast (bt_accout bt)) = Inr r'"
    and upd: "assert_ast_update P (bt_asset_id bt) (U256Target_set x) (U256Target_set y) r r' ei eo
       (merkle_set_witness p) (merkle_set_witness p)"
    and sums: "unat x + total_of (bt_ins bt) = unat y + total_of (bt_outs bt)"
    and invs: "\<And>tin tout. account_set_witness P acc = Inr tin \<Longrightarrow> account_set_witness P (bt_accout bt) = Inr tout \<Longrightarrow>
      assert_fresh_account tin (f_is_fresh_acc (bt_flags bt))
      \<and> assert_account_invariants tin tout (f_is_fresh_acc (bt_flags bt)) (f_is_update_auth (bt_flags bt)) (f_is_priv_tx (bt_flags bt))"
    and act: "\<And>c. account_commitment P acc = Inr c \<Longrightarrow> account_in_act P c (bt_state_root bt)
      (\<not> f_is_fresh_acc (bt_flags bt) \<and> f_not_fake_tx (bt_flags bt)) (merkle_set_witness (bt_accin_merkle_proof bt))"
    and sub: "assert_subpool_full_proof P (subpool_id acc) (bt_approval_key bt) (bt_mainpool_config_root bt)
      (f_not_fake_tx (bt_flags bt)) (merkle_set_witness (main_pool_proof (bt_subpool_proof bt)))"
    and sigs: "sig_fill set_sig set_dummy (spend_pk_or_default acc) (bt_tx_hash bt) (bt_spend_sig bt) = Inr s1"
      "sig_fill set_sig set_dummy (consume_pk_or_default acc) (bt_tx_hash bt) (bt_consume_sig bt) = Inr s2"
      "sig_fill set_sig set_dummy (bt_approval_key bt) (bt_tx_hash bt) (bt_approval_sig bt) = Inr s3"
    and dig: "account_nullifier P acc = Inr an" "account_commitment P (bt_accout bt) = Inr ac"
    and h: "h = native_tx_hash P an ac acc ins bt"
  shows "built_prove P S set_sig set_dummy bt =
    (if S (bt_onotes bt \<noteq> []) h (spend_pk_or_default acc) s1
        \<and> S ((bt_ins bt \<noteq> [] \<and> bt_onotes bt = []) \<and> consume_config acc) h (consume_pk_or_default acc) s2
        \<and> S (f_not_fake_tx (bt_flags bt)) h (bt_approval_key bt) s3
     then Inr (register_tx (native_public P an ac acc ins bt))
     else Inl (Err (ProofGenerationFailed Unsatisfied_constraints)))"
proof -
  let ?owner = "address_from_acc P acc"
  have shape: "bt_shape bt" using ready by (simp add: notes_ready_def)
  obtain tin where tin: "account_set_witness P acc = Inr tin" "t_acc_ast_root tin = r"
      "t_private_identifier tin = private_identifier acc" "t_subpool_id tin = subpool_id acc" "t_nonce tin = nonce acc"
      "t_spend_auth tin = spend_pk_or_default acc" "t_consume_config tin = consume_config acc" "t_consume_pk tin = consume_pk_or_default acc"
    using entry(4) by (rule account_wires)
  obtain tout where tout: "account_set_witness P (bt_accout bt) = Inr tout" "t_acc_ast_root tout = r'"
    using account_wires [OF entry(5)] by metis
  define fs where "fs = map (bt_slot bt (bt_asset_id bt) ?owner) [0..<NOTE_BATCH]"
  have "(unat x + total_of (bt_ins bt)) mod 2 ^ 256 = (unat y + total_of (bt_outs bt)) mod 2 ^ 256" by (simp only: sums)
  then obtain lw rw where gen: "generate_limbs (columns (U256Target_set x) (active_amounts (map s_inote fs) (map s_inote_active fs))) 0 = Inr lw"
      "generate_limbs (columns (U256Target_set y) (active_amounts (map s_onote fs) (map s_onote_active fs))) 0 = Inr rw"
    and balance: "assert_balance_invariant (U256Target_set x) (U256Target_set y) (map s_inote fs) (map s_onote fs)
      (map s_inote_active fs) (map s_onote_active fs) lw rw"
    by (rule slots_balance [OF shape fs_def])
  define w where "w = filled_wires bt tin tout (x, ei) (y, eo) p fs lw rw s1 s2 s3"
  have owner: "derive_public_identifier P (t_private_identifier tin) = addr_public_id ?owner" "t_subpool_id tin = addr_subpool_id ?owner"
    by (simp_all add: tin address_from_acc_def key_derivations)
  then have adr: "\<lparr>addr_subpool_id = t_subpool_id tin, addr_public_id = derive_public_identifier P (t_private_identifier tin)\<rparr> = ?owner"
    by (simp add: address_from_acc_def)
  have wit: "set_witness P set_sig set_dummy bt = Inr w"
    unfolding w_def using tin(1) tout(1) sigs entry(1-3) gen set_notes_ok [OF shape]
    by (intro set_witness_filled) (simp_all add: accs(1) adr fs_def)
  have commit: "account_commitment P acc = Inr (derive_account_commitment P tin)"
    using tin(1) accs(2) by (rule commitment_wire)
  have ac: "ac = derive_account_commitment P tout" using commitment_wire [OF tout(1) accs(3)] dig(2) by simp
  note pub = filled_public [OF shape ins fs_def w_def tin(3) dig(1) commit ac]
  have hash: "circuit_tx_hash P w = h" unfolding pub(2) h native_tx_hash_def by (rule refl)
  note inv = invs [OF tin(1) tout(1)]
  have "priv_tx_circuit P S w \<longleftrightarrow> S (bt_onotes bt \<noteq> []) (circuit_tx_hash P w) (t_spend_auth tin) s1
    \<and> S ((bt_ins bt \<noteq> [] \<and> bt_onotes bt = []) \<and> t_consume_config tin) (circuit_tx_hash P w) (t_consume_pk tin) s2
    \<and> S (f_not_fake_tx (bt_flags bt)) (circuit_tx_hash P w) (bt_approval_key bt) s3"
    using inv upd sub
    by (intro filled_circuit [OF ready fs_def owner _ _ act [OF commit] _ balance _ w_def]) (simp_all add: tin tout)
  then show ?thesis
    unfolding built_prove_def wit bind_r_Inr hash pub(1) native_public_def tin by simp
qed


lemma demo_builds_tx:
  assumes "ast_rep P (ast acc) [(0, 0)]" "nonce acc \<noteq> 0" "\<not> consume_config acc"
  obtains tx where "spend_build P (demo_builder P acc) = (Inr tx :: (spend_error, 'g built_spend) result)"
proof -
  let ?b = "demo_builder P acc"
  have bal: "amount_for (ast acc) 5 = None" "ast_size (ast acc) = 1" using ast_rep_sel [OF assms(1)] by simp_all
  have inv: "builder_inv P acc 5 ?b" using demo_builds [OF assms(2)] by (rule builder_invariant)
  have v: "total_of (map fst (input_notes ?b)) = 30" "total_of (output_notes ?b) = 10" "unat (builder_balance ?b) = 0"
    using bal by (simp_all add: demo_builder_def demo_note_def note_create_def total_of_def builder_balance_def)
  have run: "(spend_build P ?b :: (spend_error, 'g built_spend) result) = spend_finish P ?b 20"
    unfolding spend_build_def spend_balance_outcome v by (simp add: demo_builder_def)
  have n: "\<not> ((5 :: asset_id) = 0 \<or> amount_for (ast acc) 5 = None \<and> 2 ^ ACC_AST_DEPTH \<le> ast_size (ast acc))"
    "sb_dinotes ?b \<noteq> None" "sb_donotes ?b \<noteq> None"
    "\<not> \<not> list_all (\<lambda>(_, position). position < unat GOLDILOCKS_PRIME) (rejected_notes ?b @ input_notes ?b)"
    using bal by (simp_all add: demo_builder_def ACC_AST_DEPTH_def unat_PRIME)
  have "consume_config acc \<longrightarrow> consume_pk acc \<noteq> None" using assms(3) by simp
  from spend_finish_outcome [OF inv assms(1) this, of 20, where 'g = 'g]
  show thesis
    unfolding Let_def run [symmetric] if_not_P [OF n(1)] if_not_P [OF n(2)] if_not_P [OF n(3)] if_not_P [OF n(4)]
    using that by blast
qed

text \<open>A state tree that holds the account's commitment at leaf 2 and the note's at leaf 3.\<close>

definition demo_path :: "hasher \<Rightarrow> nat \<Rightarrow> hash_output \<Rightarrow> hash_output \<Rightarrow> bool \<Rightarrow> nat \<Rightarrow> hash_output merkle_proof" where
  "demo_path P d lf sib right position =
     (let sibs = sib # replicate (d - 1) ZERO_hash; bits = right # True # replicate (d - 2) False in
      \<lparr>proof_leaf = lf, siblings = sibs, path = bits, pos = position, proof_num_leaves = 4,
       proof_root = fold_path (hash_output_hash P) lf bits sibs\<rparr>)"

lemma demo_path_ok: "2 \<le> d \<Longrightarrow> path_ok P d lf (proof_root (demo_path P d lf sib right position)) (demo_path P d lf sib right position)"
  by (simp add: demo_path_def path_ok_def verify_proof_def Let_def)

lemma demo_path_sibling:
  "proof_root (demo_path P d l r False i) = proof_root (demo_path P d r l True j)"
  by (simp add: demo_path_def Let_def fold_path_def hash_output_hash_def)


end
