(* ===== verification/Fresh_Fake_Tx.thy ===== *)
theory Fresh_Fake_Tx
  imports Priv_Tx_Witness
begin

section \<open>Transactions without notes\<close>

text \<open>
  The two kinds of private transaction that move no notes: the fresh-account transaction, which
  registers the keys of a new account, and the fake transaction, which pads an aggregation batch.
  Both leave the balance tree unchanged and carry seven dummy notes of each kind. The theorems
  follow a transaction from its builder to the result of \<^verbatim>\<open>prove\<close>. A third group is about the other
  end of the range: transactions with exactly seven notes.
\<close>

subsection \<open>Proving without notes\<close>

lemma ast_keep_witness:
  assumes "ast_rep P a ((0, 0) # es)"
  obtains p where "ast_entry a 0 = (0, 0, True)" "merkle_proof_at P a 0 = Inr p" "ast_root P a = Inr (proof_root p)"
    "assert_ast_update P 0 (U256Target_set 0) (U256Target_set 0) (proof_root p) (proof_root p) True True
       (merkle_set_witness p) (merkle_set_witness p)"
proof -
  let ?H = "hash_output_hash P"
  have e: "ast_entry a 0 = (0, 0, True)" using ast_rep_sel(4) [OF assms] by (simp add: ast_entry_def)
  have l: "leaf_at ?H (ast_leaves P ((0, 0) # es)) 0 = ast_leaf_circuit P 0 (U256Target_set 0) True"
    by (simp add: leaf_at_def ast_leaves_def ast_leaf_wire)
  then have "leaf_at ?H (ast_leaves P ((0, 0) # es)) =
      (leaf_at ?H (ast_leaves P ((0, 0) # es)))(0 := ast_leaf_circuit P 0 (U256Target_set 0) True)"
    by (simp add: fun_upd_idem)
  from ast_replace_witness [OF assms assms _ l _ this] e that show thesis by auto
qed

lemma open_path_gadget:
  "length (siblings p) = d \<Longrightarrow> length (path p) = d \<Longrightarrow> conditional_merkle_verify_gadget P lf rt False d (merkle_set_witness p)"
  by (simp add: conditional_merkle merkle_wires_of)

lemma map_seeds: "length ds = n \<Longrightarrow> map (\<lambda>i. f (ds ! i)) [0..<n] = map f ds"
  by (intro nth_equalityI) simp_all

text \<open>What proving a transaction without notes amounts to: the approval, if it is not fake.\<close>

lemma noteless_prove:
  assumes none: "bt_rejected_inotes bt = []" "bt_rejected_nct_proofs bt = []" "bt_inotes bt = []" "bt_inotes_nct_proofs bt = []"
      "bt_onotes bt = []" "length (bt_dinotes bt) = NOTE_BATCH" "length (bt_donotes bt) = NOTE_BATCH"
    and accs: "bt_accin bt = acc" "ast (bt_accout bt) = ast acc" "ast_rep P (ast acc) ((0, 0) # es)"
      "consume_config acc \<longleftrightarrow> consume_pk acc \<noteq> None" "consume_config (bt_accout bt) \<longleftrightarrow> consume_pk (bt_accout bt) \<noteq> None"
    and invs: "\<And>tin tout. account_set_witness P acc = Inr tin \<Longrightarrow> account_set_witness P (bt_accout bt) = Inr tout \<Longrightarrow>
      assert_fresh_account tin (f_is_fresh_acc (bt_flags bt))
      \<and> assert_account_invariants tin tout (f_is_fresh_acc (bt_flags bt)) (f_is_update_auth (bt_flags bt)) (f_is_priv_tx (bt_flags bt))"
    and open_path: "bt_accin_merkle_proof bt = dummy_merkle_proof" "f_is_fresh_acc (bt_flags bt) \<or> \<not> f_not_fake_tx (bt_flags bt)"
    and sub: "assert_subpool_full_proof P (subpool_id acc) (bt_approval_key bt) (bt_mainpool_config_root bt)
      (f_not_fake_tx (bt_flags bt)) (merkle_set_witness (main_pool_proof (bt_subpool_proof bt)))"
    and sigs: "sig_fill set_sig set_dummy (spend_pk_or_default acc) (bt_tx_hash bt) (bt_spend_sig bt) = Inr s1"
      "sig_fill set_sig set_dummy (consume_pk_or_default acc) (bt_tx_hash bt) (bt_consume_sig bt) = Inr s2"
      "sig_fill set_sig set_dummy (bt_approval_key bt) (bt_tx_hash bt) (bt_approval_sig bt) = Inr s3"
    and dig: "account_nullifier P acc = Inr an" "account_commitment P (bt_accout bt) = Inr ac"
    and h: "h = derive_priv_tx_hash P an ac (map (double_hash_native P) (bt_dinotes bt)) (map (double_hash_native P) (bt_donotes bt))"
  shows "built_prove P S set_sig set_dummy bt =
    (if S False h (spend_pk_or_default acc) s1 \<and> S False h (consume_pk_or_default acc) s2
        \<and> S (f_not_fake_tx (bt_flags bt)) h (bt_approval_key bt) s3
     then Inr (register_tx
       \<lparr>p_state_root = bt_state_root bt, p_mainpool_config_root = bt_mainpool_config_root bt,
        p_not_fake_tx = f_not_fake_tx (bt_flags bt), p_accin_null = an, p_accout_comm = ac,
        p_inotes_null = map (double_hash_native P) (bt_dinotes bt), p_onotes_comm = map (double_hash_native P) (bt_donotes bt)\<rparr>)
     else Inl (Err (ProofGenerationFailed Unsatisfied_constraints)))"
proof -
  have nt: "bt_ins bt = []" "bt_outs bt = []" "bt_paths bt = []" "bt_asset_id bt = 0"
    using none by (simp_all add: bt_ins_def bt_outs_def bt_paths_def bt_asset_id_def)
  have ready: "notes_ready P (bt_asset_id bt) (address_from_acc P acc) (bt_state_root bt) bt"
    using none by (simp add: notes_ready_def bt_shape_def nt NOTE_BATCH_def)
  obtain p where p: "ast_entry (ast acc) 0 = (0, 0, True)" "merkle_proof_at P (ast acc) 0 = Inr p" "ast_root P (ast acc) = Inr (proof_root p)"
    "assert_ast_update P 0 (U256Target_set 0) (U256Target_set 0) (proof_root p) (proof_root p) True True
       (merkle_set_witness p) (merkle_set_witness p)"
    using ast_keep_witness [OF accs(3)] .
  have act: "account_in_act P c (bt_state_root bt) (\<not> f_is_fresh_acc (bt_flags bt) \<and> f_not_fake_tx (bt_flags bt))
      (merkle_set_witness (bt_accin_merkle_proof bt))" for c
    using open_path by (auto simp: account_in_act_def dummy_merkle_proof_def intro!: open_path_gadget)
  have slots: "map (native_null P (nk P acc) [] (bt_dinotes bt)) [0..<NOTE_BATCH] = map (double_hash_native P) (bt_dinotes bt)"
    "map (native_comm P [] (bt_donotes bt)) [0..<NOTE_BATCH] = map (double_hash_native P) (bt_donotes bt)"
    by (simp_all add: native_null_def native_comm_def map_seeds [OF none(6)] map_seeds [OF none(7)] cong: map_cong del: upt_Suc)
  have "built_prove P S set_sig set_dummy bt =
    (if S (bt_onotes bt \<noteq> []) h (spend_pk_or_default acc) s1
        \<and> S ((bt_ins bt \<noteq> [] \<and> bt_onotes bt = []) \<and> consume_config acc) h (consume_pk_or_default acc) s2
        \<and> S (f_not_fake_tx (bt_flags bt)) h (bt_approval_key bt) s3
     then Inr (register_tx (native_public P an ac acc [] bt))
     else Inl (Err (ProofGenerationFailed Unsatisfied_constraints)))"
    using p sigs dig
    by (intro built_prove_filled [OF ready _ _ _ accs(1,4,5) _ _ _ _ _ _ _ invs act sub])
       (simp_all add: nt accs(2) native_tx_hash_def slots h)
  then show ?thesis
    by (simp add: nt none(5) native_public_def slots map_seeds [OF none(7)] del: upt_Suc)
qed

subsection \<open>Fresh accounts\<close>

text \<open>Builders reached through the interface of \<^verbatim>\<open>FreshAccTxBuilder\<close>.\<close>

inductive fresh_builds :: "account \<Rightarrow> fresh_builder \<Rightarrow> bool" for accin where
  start: "fresh_new accin = Inr b \<Longrightarrow> fresh_builds accin b"
| spend_key: "fresh_builds accin b \<Longrightarrow> fresh_builds accin (with_new_spend_key pk b)"
| consume_key: "fresh_builds accin b \<Longrightarrow> fresh_builds accin (with_new_consume_key pk b)"
| delegated: "fresh_builds accin b \<Longrightarrow> fresh_builds accin (with_delegated_consume b)"
| dinotes: "fresh_builds accin b \<Longrightarrow> fresh_builds accin (fresh_fill_dinotes rng b)"
| donotes: "fresh_builds accin b \<Longrightarrow> fresh_builds accin (fresh_fill_donotes rng b)"

lemma fresh_invariant:
  "fresh_builds accin b \<Longrightarrow> fb_accin b = accin \<and> nonce accin = 0
    \<and> (\<forall>cfg pk. fb_new_consume_auth b = Some (cfg, pk) \<longrightarrow> (cfg \<longleftrightarrow> pk \<noteq> None))
    \<and> (\<forall>ds. fb_dinotes b = Some ds \<or> fb_donotes b = Some ds \<longrightarrow> length ds = NOTE_BATCH)"
  by (induction rule: fresh_builds.induct)
     (auto simp: fresh_new_def with_new_spend_key_def with_new_consume_key_def with_delegated_consume_def
        fresh_fill_dinotes_def fresh_fill_donotes_def split: if_splits)

lemma dummy_digests_all: "length ds = NOTE_BATCH \<Longrightarrow> dummy_digests P ds = Inr (map (double_hash_native P) ds)"
proof -
  assume len: "length ds = NOTE_BATCH"
  then have "dummy_digests P ds = Inr (map (\<lambda>i. double_hash_native P (ds ! i)) [0..<NOTE_BATCH])"
    unfolding dummy_digests_def by (intro collect_r_all) auto
  then show ?thesis by (simp add: map_seeds len)
qed

lemma fresh_build_outcome:
  assumes b: "fresh_builds accin b" and rep: "ast_rep P (ast accin) es"
    and consume: "consume_config accin \<longrightarrow> consume_pk accin \<noteq> None"
    and set_all: "fb_new_spend_pk b = Some spk" "fb_new_consume_auth b = Some (cfg, cpk)" "fb_dinotes b = Some di" "fb_donotes b = Some dn"
  obtains tx an ac where "fresh_build P b = (Inr tx :: (fresh_error, 'g built_fresh) result)"
    "account_nullifier P accin = Inr an" "account_commitment P (bf_accout tx) = Inr ac"
    "bf_accin tx = accin" "bf_dinotes tx = di" "bf_donotes tx = dn"
    "bf_accout tx = accin\<lparr>nonce := nonce_incremented (nonce accin), spend_pk := Some spk, consume_config := cfg, consume_pk := cpk\<rparr>"
    "bf_tx_hash tx = derive_priv_tx_hash P an ac (map (double_hash_native P) di) (map (double_hash_native P) dn)"
proof -
  note inv = fresh_invariant [OF b]
  let ?out = "accin\<lparr>nonce := nonce_incremented (nonce accin), spend_pk := Some spk, consume_config := cfg, consume_pk := cpk\<rparr>"
  obtain an where an: "account_nullifier P accin = Inr an" using account_digests [OF rep consume] by blast
  have "ast_rep P (ast ?out) es" "consume_config ?out \<longrightarrow> consume_pk ?out \<noteq> None" using rep inv set_all(2) by auto
  then obtain ac where ac: "account_commitment P ?out = Inr ac" using account_digests by blast
  have len: "length di = NOTE_BATCH" "length dn = NOTE_BATCH" using inv set_all by auto
  show thesis
    using that [of "\<lparr>bf_accin = accin, bf_accout = ?out, bf_dinotes = di, bf_donotes = dn,
          bf_tx_hash = derive_priv_tx_hash P an ac (map (double_hash_native P) di) (map (double_hash_native P) dn),
          bf_subpool_id = subpool_id accin, bf_state_root = None, bf_subpool_proof = None, bf_approval_sig = None\<rparr>" an ac]
      an ac inv set_all
    by (simp add: fresh_build_def clone_with_incremented_nonce_def dummy_digests_all len)
qed

definition fresh_attach ::
  "hash_output \<Rightarrow> subpool_full_proof \<Rightarrow> 'g \<Rightarrow> 'g built_fresh \<Rightarrow> 'g built_fresh" where
  "fresh_attach r sp g tx = (fresh_with_subpool_proof sp (with_state_root r tx))\<lparr>bf_approval_sig := Some g\<rparr>"

text \<open>
  C9. Registering a new account works: for a newly created account, whose balance tree has the
  default root, and a builder used through its interface, \<^verbatim>\<open>build\<close> reports the first missing part or
  succeeds with an output account that carries the new keys and nonce one and is otherwise the
  same; with an honest subpool path \<^verbatim>\<open>prove\<close> then succeeds if and only if the signature gadgets
  accept, where only the approval signature is enforced.
\<close>

theorem fresh_tx_proves:
  assumes new: "new_with P pid sid = Inr acc" and default_root: "ast_root P (ast acc) = Inr AST_DEFAULT_ROOT"
    and b: "fresh_builds acc b" and sub: "subpool_path_ok P sid sp"
    and sigs: "set_dummy DEFAULT_SPEND_AUTH_PK = Inr s1" "set_dummy DEFAULT_ACC_COMM_CONSUME_PK_PLACEHOLDER = Inr s2"
      "\<And>h. set_sig (approval_key (sp_config sp)) h g = Inr (s3 h)"
  shows "let res = fresh_build P b :: (fresh_error, 'g built_fresh) result in
    if fb_new_spend_pk b = None then res = Inl (Err FreshSpendKeyNotSet)
    else if fb_new_consume_auth b = None then res = Inl (Err FreshConsumeKeyNotSet)
    else if fb_dinotes b = None then res = Inl (Err (FreshDummyNotesNotFilled ''input''))
    else if fb_donotes b = None then res = Inl (Err (FreshDummyNotesNotFilled ''output''))
    else \<exists>tx bt an ac. res = Inr tx
      \<and> bf_accout tx = acc\<lparr>nonce := 1, spend_pk := fb_new_spend_pk b,
          consume_config := fst (the (fb_new_consume_auth b)), consume_pk := snd (the (fb_new_consume_auth b))\<rparr>
      \<and> account_nullifier P acc = Inr an \<and> account_commitment P (bf_accout tx) = Inr ac
      \<and> fresh_into_priv_tx (fresh_attach r sp g tx) = Inr bt
      \<and> built_prove P S set_sig set_dummy bt =
        (if S False (bf_tx_hash tx) DEFAULT_SPEND_AUTH_PK s1 \<and> S False (bf_tx_hash tx) DEFAULT_ACC_COMM_CONSUME_PK_PLACEHOLDER s2
            \<and> S True (bf_tx_hash tx) (approval_key (sp_config sp)) (s3 (bf_tx_hash tx))
         then Inr (register_tx
           \<lparr>p_state_root = r, p_mainpool_config_root = proof_root (main_pool_proof sp), p_not_fake_tx = True,
            p_accin_null = an, p_accout_comm = ac,
            p_inotes_null = map (double_hash_native P) (the (fb_dinotes b)),
            p_onotes_comm = map (double_hash_native P) (the (fb_donotes b))\<rparr>)
         else Inl (Err (ProofGenerationFailed Unsatisfied_constraints)))"
proof (cases "fb_new_spend_pk b = None \<or> fb_new_consume_auth b = None \<or> fb_dinotes b = None \<or> fb_donotes b = None")
  case True
  then show ?thesis by (auto simp: fresh_build_def Let_def ok_or_def split: option.splits)
next
  case False
  then obtain spk cfg cpk di dn where parts: "fb_new_spend_pk b = Some spk" "fb_new_consume_auth b = Some (cfg, cpk)"
    "fb_dinotes b = Some di" "fb_donotes b = Some dn" by auto
  note inv = fresh_invariant [OF b]
  obtain a where a: "ast_new P = Inr a" "ast_rep P a [(0, 0)]" using ast_new_rep by blast
  have acc: "acc = \<lparr>private_identifier = pid, subpool_id = sid, nonce = 0, spend_pk = None,
      consume_config = False, consume_pk = None, ast = a\<rparr>"
    using new a(1) by (simp add: new_with_def)
  have rep: "ast_rep P (ast acc) [(0, 0)]" using a(2) by (simp add: acc)
  obtain tx an ac where tx: "fresh_build P b = (Inr tx :: (fresh_error, 'g built_fresh) result)"
    "account_nullifier P acc = Inr an" "account_commitment P (bf_accout tx) = Inr ac"
    "bf_accin tx = acc" "bf_dinotes tx = di" "bf_donotes tx = dn"
    "bf_accout tx = acc\<lparr>nonce := nonce_incremented (nonce acc), spend_pk := Some spk, consume_config := cfg, consume_pk := cpk\<rparr>"
    "bf_tx_hash tx = derive_priv_tx_hash P an ac (map (double_hash_native P) di) (map (double_hash_native P) dn)"
    by (rule fresh_build_outcome [OF b rep _ parts, where 'g = 'g]) (auto simp: acc)
  obtain bt where bt: "fresh_into_priv_tx (fresh_attach r sp g tx) = Inr bt"
    by (simp add: fresh_into_priv_tx_def fresh_attach_def fresh_with_subpool_proof_def with_state_root_def)
  note into = bt [unfolded fresh_into_priv_tx_def fresh_attach_def fresh_with_subpool_proof_def with_state_root_def]
  have sel: "bt_flags bt = FLAGS_FRESH_ACC" "bt_accin bt = acc" "bt_accout bt = bf_accout tx"
    "bt_accin_merkle_proof bt = dummy_merkle_proof" "bt_rejected_inotes bt = []" "bt_rejected_nct_proofs bt = []"
    "bt_inotes bt = []" "bt_inotes_nct_proofs bt = []" "bt_onotes bt = []" "bt_dinotes bt = di" "bt_donotes bt = dn"
    "bt_tx_hash bt = bf_tx_hash tx" "bt_state_root bt = r" "bt_mainpool_config_root bt = proof_root (main_pool_proof sp)"
    "bt_subpool_proof bt = sp" "bt_approval_key bt = approval_key (sp_config sp)"
    "bt_spend_sig bt = None" "bt_consume_sig bt = None" "bt_approval_sig bt = Some g"
    using into tx(4-6) by auto
  have one: "nonce_incremented 0 = 1" "felt_add 0 1 = 1" using nonce_wire [of 0]
    by (simp_all add: unat_PRIME nonce_incremented_def from_canonical_u64_def)
  have spk: "spend_pk_or_default acc = DEFAULT_SPEND_AUTH_PK" "consume_pk_or_default acc = DEFAULT_ACC_COMM_CONSUME_PK_PLACEHOLDER"
    by (simp_all add: acc spend_pk_or_default_def consume_pk_or_default_def)
  have invs: "assert_fresh_account tin True \<and> assert_account_invariants tin tout True False False"
    if "account_set_witness P acc = Inr tin" "account_set_witness P (bf_accout tx) = Inr tout" for tin tout
    using that default_root spk one
    by (auto simp: fresh_account account_invariants account_set_witness_def tx(7) acc result_simps)
  have "cfg \<longleftrightarrow> cpk \<noteq> None" "length di = NOTE_BATCH" "length dn = NOTE_BATCH" using inv parts by auto
  note shape = this
  have "assert_subpool_full_proof P (subpool_id acc) (bt_approval_key bt) (bt_mainpool_config_root bt)
      (f_not_fake_tx (bt_flags bt)) (merkle_set_witness (main_pool_proof (bt_subpool_proof bt)))"
    unfolding assert_subpool_full_proof_def using sub
    by (intro path_ok_gadget) (simp add: sel acc subpool_path_ok_def subpool_commitment_def pubkey_commit_def)
  note sp = this
  have "built_prove P S set_sig set_dummy bt =
    (if S False (bf_tx_hash tx) (spend_pk_or_default acc) s1 \<and> S False (bf_tx_hash tx) (consume_pk_or_default acc) s2
        \<and> S (f_not_fake_tx (bt_flags bt)) (bf_tx_hash tx) (bt_approval_key bt) (s3 (bf_tx_hash tx))
     then Inr (register_tx
       \<lparr>p_state_root = bt_state_root bt, p_mainpool_config_root = bt_mainpool_config_root bt,
        p_not_fake_tx = f_not_fake_tx (bt_flags bt), p_accin_null = an, p_accout_comm = ac,
        p_inotes_null = map (double_hash_native P) (bt_dinotes bt), p_onotes_comm = map (double_hash_native P) (bt_donotes bt)\<rparr>)
     else Inl (Err (ProofGenerationFailed Unsatisfied_constraints)))"
    using rep sp shape invs sigs tx(2,3,8)
    by (intro noteless_prove) (simp_all add: sel FLAGS_FRESH_ACC_def acc tx(7) sig_fill_def spk [unfolded acc])
  then show ?thesis
    using tx bt parts one inv by (simp add: Let_def sel spk FLAGS_FRESH_ACC_def)
qed

text \<open>A hash under which every balance tree has the default root, for the instance below.\<close>

definition default_hasher :: hasher where
  "default_hasher es = AST_DEFAULT_ROOT"

lemma default_hasher_root: "ast_new default_hasher = Inr a \<Longrightarrow> ast_root default_hasher a = Inr AST_DEFAULT_ROOT"
proof -
  assume "ast_new default_hasher = Inr a"
  then have "ast_rep default_hasher a [(0, 0)]" using ast_new_rep [of default_hasher] by auto
  then obtain p where p: "ast_root default_hasher a = Inr (proof_root p)"
    "assert_ast_update default_hasher 0 (U256Target_set 0) (U256Target_set 0) (proof_root p) (proof_root p) True True
       (merkle_set_witness p) (merkle_set_witness p)"
    by (rule ast_keep_witness)
  have "fold_path (hash_output_hash default_hasher) l bits sibs = AST_DEFAULT_ROOT" if "bits \<noteq> []" "length sibs = length bits" for l bits sibs
    using that
  proof (induction bits arbitrary: l sibs)
    case (Cons c bs)
    then obtain x xs where "sibs = x # xs" by (cases sibs) auto
    with Cons show ?case
      by (cases "bs = []") (auto simp: hash_output_hash_def default_hasher_def)
  qed simp
  moreover obtain bits sibs where "length bits = ACC_AST_DEPTH" "length sibs = ACC_AST_DEPTH"
    "fold_path (hash_output_hash default_hasher) (ast_leaf_circuit default_hasher 0 (U256Target_set 0) True) bits sibs = proof_root p"
    using ast_constraint_paths [OF p(2)] by blast
  ultimately show ?thesis using p(1) by (metis ACC_AST_DEPTH_def list.size(3) zero_neq_numeral)
qed

theorem fresh_tx_proves_witness:
  "\<exists>acc b sp tx bt pub. new_with default_hasher (7, 8) 1 = Inr acc \<and> fresh_builds acc b
    \<and> fresh_build default_hasher b = (Inr tx :: (fresh_error, unit built_fresh) result) \<and> nonce (bf_accout tx) = 1
    \<and> fresh_into_priv_tx (fresh_attach ZERO_hash sp () tx) = Inr bt
    \<and> built_prove default_hasher (\<lambda>c h pk s. c \<longrightarrow> s) (\<lambda>pk h g. Inr True) (\<lambda>pk. Inr False) bt = Inr pub"
proof -
  let ?P = default_hasher
  obtain a where a: "ast_new ?P = Inr a" using ast_new_rep by blast
  let ?acc = "\<lparr>private_identifier = (7, 8), subpool_id = 1, nonce = 0, spend_pk = None,
    consume_config = False, consume_pk = None, ast = a\<rparr>"
  have new: "new_with ?P (7, 8) 1 = Inr ?acc" using a by (simp add: new_with_def)
  let ?pk = "CompressedPublicKey 9 0 0 0 0"
  define b where "b = fresh_fill_donotes (\<lambda>_. ZERO_hash) (fresh_fill_dinotes (\<lambda>_. ZERO_hash)
    (with_new_consume_key ?pk (with_new_spend_key ?pk
      \<lparr>fb_accin = ?acc, fb_new_spend_pk = None, fb_new_consume_auth = None, fb_dinotes = None, fb_donotes = None\<rparr>)))"
  have b: "fresh_builds ?acc b" unfolding b_def
    by (intro fresh_builds.donotes fresh_builds.dinotes fresh_builds.consume_key fresh_builds.spend_key fresh_builds.start)
       (simp add: fresh_new_def)
  let ?cfg = "\<lparr>approval_key = ?pk\<rparr>"
  let ?sp = "\<lparr>main_pool_proof = demo_path ?P MAIN_POOL_CONFIG_DEPTH (?P ([1, 0, 0, 0] @ elems (subpool_commitment ?P ?cfg)))
      ZERO_hash False 0, sp_config = ?cfg, sp_id = 1\<rparr>"
  have sp: "subpool_path_ok ?P 1 ?sp" by (simp add: subpool_path_ok_def demo_path_ok MAIN_POOL_CONFIG_DEPTH_def)
  have some: "fb_new_spend_pk b \<noteq> None" "fb_new_consume_auth b \<noteq> None" "fb_dinotes b \<noteq> None" "fb_donotes b \<noteq> None"
    by (simp_all add: b_def fresh_fill_donotes_def fresh_fill_dinotes_def with_new_consume_key_def with_new_spend_key_def)
  have root: "ast_root ?P (ast ?acc) = Inr AST_DEFAULT_ROOT" using default_hasher_root [OF a] by simp
  obtain tx bt pub where "fresh_build ?P b = (Inr tx :: (fresh_error, unit built_fresh) result)" "nonce (bf_accout tx) = 1"
      "fresh_into_priv_tx (fresh_attach ZERO_hash ?sp () tx) = Inr bt"
      "built_prove ?P (\<lambda>c h pk s. c \<longrightarrow> s) (\<lambda>pk h g. Inr True) (\<lambda>pk. Inr False) bt = Inr pub"
    using fresh_tx_proves [OF new root b sp, of "\<lambda>pk. Inr False" False False "\<lambda>pk h g. Inr True" "()" "\<lambda>_. True"
        ZERO_hash "\<lambda>c h pk s. c \<longrightarrow> s", simplified Let_def, simplified] some by auto
  then show ?thesis using new b by blast
qed

subsection \<open>Fake transactions\<close>

text \<open>
  A fake transaction always proves once its dummy signature wires are filled, whatever roots
  it is given: it carries these roots, the not-fake flag cleared and the digests of the fake
  account and of zero seeds, and no signature is enforced.
\<close>

theorem fake_tx_proves:
  assumes sigs: "set_dummy DEFAULT_SPEND_AUTH_PK = Inr s1" "set_dummy DEFAULT_ACC_COMM_CONSUME_PK_PLACEHOLDER = Inr s2"
  shows "\<exists>acc bt an ac. account_fake P = Inr acc \<and> account_nullifier P acc = Inr an
    \<and> account_commitment P (clone_with_incremented_nonce acc) = Inr ac
    \<and> fake_into_priv_tx P (fake_build (fake_new r c)) = (Inr bt :: (ast_error, 'g built_priv_tx) result)
    \<and> (let zeros = replicate NOTE_BATCH (double_hash_native P ZERO_hash); h = derive_priv_tx_hash P an ac zeros zeros in
       built_prove P S set_sig set_dummy bt =
        (if S False h DEFAULT_SPEND_AUTH_PK s1 \<and> S False h DEFAULT_ACC_COMM_CONSUME_PK_PLACEHOLDER s2
         then Inr (register_tx \<lparr>p_state_root = r, p_mainpool_config_root = c, p_not_fake_tx = False,
           p_accin_null = an, p_accout_comm = ac, p_inotes_null = zeros, p_onotes_comm = zeros\<rparr>)
         else Inl (Err (ProofGenerationFailed Unsatisfied_constraints))))"
proof -
  obtain a where a: "ast_new P = Inr a" "ast_rep P a [(0, 0)]" using ast_new_rep by blast
  define acc where "acc = \<lparr>private_identifier = (2, 2), subpool_id = 0, nonce = 0, spend_pk = None,
      consume_config = False, consume_pk = None, ast = a\<rparr>"
  have acc: "account_fake P = Inr acc" using a(1) by (simp add: account_fake_def new_with_def acc_def)
  define out where "out = clone_with_incremented_nonce acc"
  have rep: "ast_rep P (ast acc) [(0, 0)]" "ast_rep P (ast out) [(0, 0)]" and keep: "ast out = ast acc"
    using a(2) by (simp_all add: acc_def out_def clone_with_incremented_nonce_def)
  have auth: "consume_config acc \<longleftrightarrow> consume_pk acc \<noteq> None" "consume_config out \<longleftrightarrow> consume_pk out \<noteq> None"
    by (simp_all add: acc_def out_def clone_with_incremented_nonce_def)
  obtain an where an: "account_nullifier P acc = Inr an" using account_digests [OF rep(1)] auth(1) by blast
  obtain ac where ac: "account_commitment P out = Inr ac" using account_digests [OF rep(2)] auth(2) by blast
  obtain bt where bt: "fake_into_priv_tx P (fake_build (fake_new r c)) = (Inr bt :: (ast_error, 'g built_priv_tx) result)"
    by (simp add: fake_into_priv_tx_def acc)
  have sel: "bt_flags bt = FLAGS_FAKE" "bt_accin bt = acc" "bt_accout bt = out"
    "bt_accin_merkle_proof bt = dummy_merkle_proof" "bt_rejected_inotes bt = []" "bt_rejected_nct_proofs bt = []"
    "bt_inotes bt = []" "bt_inotes_nct_proofs bt = []" "bt_onotes bt = []"
    "bt_dinotes bt = replicate NOTE_BATCH ZERO_hash" "bt_donotes bt = replicate NOTE_BATCH ZERO_hash"
    "bt_state_root bt = r" "bt_mainpool_config_root bt = c" "bt_subpool_proof bt = subpool_full_proof_default"
    "bt_approval_key bt = DEFAULT_SPEND_AUTH_PK" "bt_spend_sig bt = None" "bt_consume_sig bt = None" "bt_approval_sig bt = None"
    using bt by (auto simp: fake_into_priv_tx_def acc out_def fake_build_def fake_new_def subpool_full_proof_default_def)
  have spk: "spend_pk_or_default acc = DEFAULT_SPEND_AUTH_PK" "consume_pk_or_default acc = DEFAULT_ACC_COMM_CONSUME_PK_PLACEHOLDER"
    by (simp_all add: acc_def spend_pk_or_default_def consume_pk_or_default_def)
  have one: "nonce_incremented 0 = felt_add 0 1" by (rule nonce_wire) (simp add: unat_PRIME)
  have invs: "assert_fresh_account tin False \<and> assert_account_invariants tin tout False False False"
    if "account_set_witness P acc = Inr tin" "account_set_witness P out = Inr tout" for tin tout
    using that one
    by (auto simp: fresh_account account_invariants account_set_witness_def acc_def out_def
        clone_with_incremented_nonce_def result_simps)
  have sub: "assert_subpool_full_proof P (subpool_id acc) DEFAULT_SPEND_AUTH_PK c False
      (merkle_set_witness (main_pool_proof subpool_full_proof_default))"
    unfolding assert_subpool_full_proof_def by (intro open_path_gadget) (simp_all add: subpool_full_proof_default_def)
  let ?zeros = "replicate NOTE_BATCH (double_hash_native P ZERO_hash)"
  let ?h = "derive_priv_tx_hash P an ac ?zeros ?zeros"
  have "built_prove P S set_sig set_dummy bt =
    (if S False ?h (spend_pk_or_default acc) s1 \<and> S False ?h (consume_pk_or_default acc) s2
        \<and> S (f_not_fake_tx (bt_flags bt)) ?h (bt_approval_key bt) s1
     then Inr (register_tx
       \<lparr>p_state_root = bt_state_root bt, p_mainpool_config_root = bt_mainpool_config_root bt,
        p_not_fake_tx = f_not_fake_tx (bt_flags bt), p_accin_null = an, p_accout_comm = ac,
        p_inotes_null = map (double_hash_native P) (bt_dinotes bt), p_onotes_comm = map (double_hash_native P) (bt_donotes bt)\<rparr>)
     else Inl (Err (ProofGenerationFailed Unsatisfied_constraints)))"
    using rep(1) auth keep an ac sub invs sigs
    by (intro noteless_prove) (simp_all add: sel FLAGS_FAKE_def sig_fill_def spk)
  then show ?thesis
    using acc an ac bt by (auto simp: Let_def sel spk FLAGS_FAKE_def out_def)
qed

theorem fake_tx_proves_witness:
  "\<exists>bt pub. fake_into_priv_tx demo_hasher (fake_build (fake_new ZERO_hash ZERO_hash)) = (Inr bt :: (ast_error, unit built_priv_tx) result)
    \<and> built_prove demo_hasher (\<lambda>c h pk s. c \<longrightarrow> s) (\<lambda>pk h g. Inr True) (\<lambda>pk. Inr False) bt = Inr pub"
  using fake_tx_proves [of "\<lambda>pk. Inr False" False False demo_hasher ZERO_hash ZERO_hash "\<lambda>c h pk s. c \<longrightarrow> s" "\<lambda>pk h (g :: unit). Inr True"]
  by (auto simp: Let_def)

subsection \<open>Full batches\<close>

lemma full_batch_refused:
  assumes "NOTE_BATCH \<le> length (bt_rejected_inotes bt) + max (length (bt_inotes bt)) (length (bt_onotes bt))"
  shows "built_prove P S set_sig set_dummy bt \<noteq> Inr pub"
proof -
  have "set_notes_witness bt asset owner =
      Inl (Err (ProofGenerationFailed (Note_batch_overflow (length (bt_rejected_inotes bt)) (length (bt_inotes bt)) (length (bt_onotes bt)))))"
    for asset owner
    using assms by (simp add: set_notes_witness_def Let_def)
  then show ?thesis by (auto simp: built_prove_def set_witness_def result_simps Let_def split: prod.splits if_splits)
qed

text \<open>
  The builder and the prover disagree on a full batch. A builder that was given seven notes on
  one side, which its interface allows, builds a transaction, but this transaction can never be
  proved, whatever paths and signatures are attached: the witness is refused because the check
  for the capacity of a batch uses greater-or-equal.
\<close>

theorem full_batch_never_proves:
  assumes b: "spend_builds P accin asset b" and acc: "ast_ok P (ast accin)"
    and consume: "consume_config accin \<longrightarrow> consume_pk accin \<noteq> None"
    and run: "spend_build P b = (Inr tx :: (spend_error, 'g built_spend) result)"
    and full: "length (rejected_notes b) + max (length (input_notes b)) (length (output_notes b)) = NOTE_BATCH"
  shows "\<exists>bt. spend_into_priv_tx (attach ap ips rps sp g1 g2 g3 tx) = Inr bt
    \<and> (\<forall>pub. built_prove P S set_sig set_dummy bt \<noteq> Inr pub)"
proof -
  have inv: "builder_inv P accin asset b" using b by (rule builder_invariant)
  obtain es where rep: "ast_rep P (ast accin) ((0, 0) # es)" using acc by (auto simp: ast_ok_def)
  have tx: "bs_accin tx = accin" "bs_rejected tx = rejected_notes b" "bs_inotes tx = input_notes b" "bs_onotes tx = output_notes b"
      "bs_dinotes tx = the (sb_dinotes b)" "bs_donotes tx = the (sb_donotes b)"
    by (rule spend_build_success [OF inv rep consume run], assumption)+
  obtain bt where bt: "spend_into_priv_tx (attach ap ips rps sp g1 g2 g3 tx) = Inr bt"
    "bt_onotes bt = output_notes b" "bt_rejected_inotes bt = map fst (rejected_notes b)" "bt_inotes bt = map fst (input_notes b)"
    by (rule attached_tx [OF tx])
  then have "NOTE_BATCH \<le> length (bt_rejected_inotes bt) + max (length (bt_inotes bt)) (length (bt_onotes bt))"
    using full by simp
  then show ?thesis using bt(1) full_batch_refused by blast
qed

definition seven_builder :: "hasher \<Rightarrow> account \<Rightarrow> nat \<Rightarrow> spend_builder" where
  "seven_builder P acc n =
     \<lparr>sb_accin = acc, sb_asset_id = 5, input_notes = replicate n (demo_note P acc, 3), output_notes = [], rejected_notes = [],
      sb_dinotes = None, sb_donotes = None\<rparr>"

lemma seven_builds: "nonce acc \<noteq> 0 \<Longrightarrow> n \<le> NOTE_BATCH \<Longrightarrow> spend_builds P acc 5 (seven_builder P acc n)"
proof (induction n)
  case 0
  then show ?case by (intro spend_builds.start) (simp add: spend_new_def seven_builder_def)
next
  case (Suc n)
  then have "spend_builds P acc 5 (seven_builder P acc n)" by simp
  moreover have "add_input_note P (demo_note P acc) 3 (seven_builder P acc n) = Inr (seven_builder P acc (Suc n))"
    using Suc.prems by (simp add: add_input_note_def seven_builder_def demo_note_def note_create_def replicate_append_same)
  ultimately show ?case by (rule spend_builds.input)
qed

theorem full_batch_never_proves_witness:
  "\<exists>acc b tx. spend_builds demo_hasher acc 5 b \<and> length (input_notes b) = 7
    \<and> spend_build demo_hasher b = (Inr tx :: (spend_error, unit built_spend) result)
    \<and> (\<exists>bt. spend_into_priv_tx (attach dummy_merkle_proof [] [] subpool_full_proof_default None None None tx) = Inr bt
         \<and> (\<forall>pub. built_prove demo_hasher (\<lambda>_ _ _ _. True) (\<lambda>pk h g. Inr True) (\<lambda>pk. Inr False) bt \<noteq> Inr pub))"
proof -
  let ?P = demo_hasher
  obtain a where a: "ast_rep ?P a [(0, 0)]" using ast_new_rep by blast
  let ?acc = "\<lparr>private_identifier = (7, 8), subpool_id = 1, nonce = 1, spend_pk = None,
    consume_config = False, consume_pk = None, ast = a\<rparr>"
  let ?c = "seven_builder ?P ?acc NOTE_BATCH"
  let ?b = "?c\<lparr>sb_dinotes := Some [], sb_donotes := Some (map (\<lambda>_. ZERO_hash) [0..<7])\<rparr>"
  have "spend_builds ?P ?acc 5 ?c" by (rule seven_builds) simp_all
  moreover have "fill_dinotes (\<lambda>_. ZERO_hash) ?c = Inr (?c\<lparr>sb_dinotes := Some []\<rparr>)"
    by (simp add: fill_dinotes_def dummy_count_def seven_builder_def)
  ultimately have "spend_builds ?P ?acc 5 (?c\<lparr>sb_dinotes := Some []\<rparr>)" by (rule spend_builds.dinotes)
  moreover have "fill_donotes (\<lambda>_. ZERO_hash) (?c\<lparr>sb_dinotes := Some []\<rparr>) = Inr ?b"
    by (simp add: fill_donotes_def dummy_count_def seven_builder_def NOTE_BATCH_def)
  ultimately have b: "spend_builds ?P ?acc 5 ?b" by (rule spend_builds.donotes)
  have bal: "amount_for a 5 = None" "ast_size a = 1" using ast_rep_sel [OF a] by simp_all
  have v: "total_of (map fst (input_notes ?b)) = 210" "total_of (output_notes ?b) = 0" "unat (builder_balance ?b) = 0"
    using bal by (simp_all add: seven_builder_def demo_note_def note_create_def total_of_def builder_balance_def NOTE_BATCH_def
        sum_list_replicate)
  have run: "(spend_build ?P ?b :: (spend_error, unit built_spend) result) = spend_finish ?P ?b 210"
    unfolding spend_build_def spend_balance_outcome v by (simp add: seven_builder_def NOTE_BATCH_def)
  have n: "\<not> ((5 :: asset_id) = 0 \<or> amount_for (ast ?acc) 5 = None \<and> 2 ^ ACC_AST_DEPTH \<le> ast_size (ast ?acc))"
    "sb_dinotes ?b \<noteq> None" "sb_donotes ?b \<noteq> None"
    "\<not> \<not> list_all (\<lambda>(_, position). position < unat GOLDILOCKS_PRIME) (rejected_notes ?b @ input_notes ?b)"
    using bal by (simp_all add: seven_builder_def ACC_AST_DEPTH_def unat_PRIME list_all_iff)
  have rep: "ast_rep ?P (ast ?acc) [(0, 0)]" using a by simp
  have "consume_config ?acc \<longrightarrow> consume_pk ?acc \<noteq> None" by simp
  from spend_finish_outcome [OF builder_invariant [OF b] rep this, of 210, where 'g = unit]
  obtain tx where tx: "spend_build ?P ?b = (Inr tx :: (spend_error, unit built_spend) result)"
    unfolding Let_def run [symmetric] if_not_P [OF n(1)] if_not_P [OF n(2)] if_not_P [OF n(3)] if_not_P [OF n(4)] by blast
  have ok: "ast_ok ?P (ast ?acc)" using a by (auto simp: ast_ok_def)
  have full: "length (rejected_notes ?b) + max (length (input_notes ?b)) (length (output_notes ?b)) = NOTE_BATCH"
    "length (input_notes ?b) = 7" by (simp_all add: seven_builder_def NOTE_BATCH_def)
  show ?thesis
    using full_batch_never_proves [OF b ok _ tx full(1), of dummy_merkle_proof "[]" "[]" subpool_full_proof_default None None None
        "\<lambda>_ _ _ _. True" "\<lambda>pk h g. Inr True" "\<lambda>pk. Inr False"] b tx full(2)
    by (intro exI [of _ ?acc] exI [of _ ?b] exI [of _ tx] conjI) (simp_all only: account.simps simp_thms)
qed

end
