(* ===== verification/Deposit_Builder.thy ===== *)
theory Deposit_Builder
  imports Fresh_Fake_Tx Bridge_Tx_Circuit
begin

section \<open>Building and proving deposits\<close>

text \<open>
  \<^verbatim>\<open>deposit_tx/builder.rs\<close>: the builder of a deposit, the signing and path methods of the built
  transaction, the fake deposit and \<^verbatim>\<open>prove\<close>, which fills the wires of the deposit circuit. As for
  private transactions, key derivation, signing and the filling of signature wires are arguments,
  and \<^verbatim>\<open>CircuitData::prove\<close> succeeds on satisfied constraints. \<^verbatim>\<open>prove\<close> also sets the two account
  digests, which the circuit derives: it fails if they differ.
\<close>

datatype deposit_error =
    DepositAccountNotInitialized | DepositRecipientMismatch | DepositApprovalSignRequired
  | DepositConsumeSignRequired | DepositAccountPathNotSet | DepositSubpoolProofNotSet

datatype deposit_sign_error =
    DepositConsumeDelegated | DepositConsumeKeyNotSet | DepositKeyMismatch string pubkey pubkey

record deposit_builder =
  db_accin :: account
  db_note :: deposit_note
  db_eth_address :: bytes

definition deposit_new :: "hasher \<Rightarrow> account \<Rightarrow> deposit_note \<Rightarrow> bytes \<Rightarrow> (deposit_error, deposit_builder) result" where
  "deposit_new P accin n eth_address =
     (if nonce accin = 0 then Inl (Err DepositAccountNotInitialized)
      else if dn_recipient n \<noteq> address_from_acc P accin then Inl (Err DepositRecipientMismatch)
      else Inr \<lparr>db_accin = accin, db_note = n, db_eth_address = eth_address\<rparr>)"

record 'g built_real_deposit =
  rd_accin :: account
  rd_accout :: account
  rd_note :: deposit_note
  rd_eth_address :: bytes
  rd_tx_hash :: hash_output
  rd_consume_sig :: "'g option"
  rd_approval_sig :: "'g option"
  rd_accin_proof :: "hash_output merkle_proof option"
  rd_subpool_proof :: "subpool_full_proof option"

definition deposit_build :: "hasher \<Rightarrow> deposit_builder \<Rightarrow> (deposit_error, 'g built_real_deposit) result" where
  "deposit_build P b =
     (let asset = dn_asset_id (db_note b);
          accin_amt = (case amount_for (ast (db_accin b)) asset of Some (_, v) \<Rightarrow> v | None \<Rightarrow> 0) in
      bind_r (u256_add accin_amt (dn_amount (db_note b))) (\<lambda>accout_amt.
      let accout = clone_with_incremented_nonce (db_accin b) in
      bind_r (unwrap_r (insert_or_update_asset P asset accout_amt (ast accout))) (\<lambda>(_, a).
      let accout = accout\<lparr>ast := a\<rparr> in
      bind_r (unwrap_r (account_nullifier P (db_accin b))) (\<lambda>accin_null.
      bind_r (unwrap_r (account_commitment P accout)) (\<lambda>accout_comm.
      Inr \<lparr>rd_accin = db_accin b, rd_accout = accout, rd_note = db_note b, rd_eth_address = db_eth_address b,
           rd_tx_hash = derive_deposit_tx_hash P accin_null accout_comm (deposit_note_commitment P (db_note b)) (db_eth_address b),
           rd_consume_sig = None, rd_approval_sig = None, rd_accin_proof = None, rd_subpool_proof = None\<rparr>)))))"

definition deposit_consume_sign ::
  "('k \<Rightarrow> pubkey) \<Rightarrow> ('k \<Rightarrow> felt list \<Rightarrow> 'c \<Rightarrow> 'g) \<Rightarrow> 'k \<Rightarrow> 'c \<Rightarrow> 'g built_real_deposit
     \<Rightarrow> (deposit_sign_error, 'g built_real_deposit) result" where
  "deposit_consume_sign pk_of sign sk k tx =
     (if \<not> consume_config (rd_accin tx) then Inl (Err DepositConsumeDelegated)
      else bind_r (ok_or (consume_pk (rd_accin tx)) DepositConsumeKeyNotSet) (\<lambda>expected_pk.
        if expected_pk \<noteq> pk_of sk then Inl (Err (DepositKeyMismatch ''consume'' expected_pk (pk_of sk)))
        else Inr (tx\<lparr>rd_consume_sig := Some (sign sk (elems (rd_tx_hash tx)) k)\<rparr>)))"

definition deposit_approval_sign ::
  "('k \<Rightarrow> felt list \<Rightarrow> 'c \<Rightarrow> 'g) \<Rightarrow> 'k \<Rightarrow> 'c \<Rightarrow> 'g built_real_deposit \<Rightarrow> 'g built_real_deposit" where
  "deposit_approval_sign sign sk k tx = tx\<lparr>rd_approval_sig := Some (sign sk (elems (rd_tx_hash tx)) k)\<rparr>"

definition deposit_account_path :: "hash_output merkle_proof \<Rightarrow> 'g built_real_deposit \<Rightarrow> 'g built_real_deposit" where
  "deposit_account_path p tx = tx\<lparr>rd_accin_proof := Some p\<rparr>"

definition deposit_subpool_proof :: "subpool_full_proof \<Rightarrow> 'g built_real_deposit \<Rightarrow> 'g built_real_deposit" where
  "deposit_subpool_proof p tx = tx\<lparr>rd_subpool_proof := Some p\<rparr>"

record 'g built_deposit =
  bd_not_fake_tx :: bool
  bd_accin :: account
  bd_accout :: account
  bd_note :: deposit_note
  bd_eth_address :: bytes
  bd_tx_hash :: hash_output
  bd_approval_key :: pubkey
  bd_state_root :: hash_output
  bd_main_pool_root :: hash_output
  bd_accin_act_merkle_proof :: "hash_output merkle_proof"
  bd_subpool_proof :: subpool_full_proof
  bd_consume_sig :: "'g option"
  bd_approval_sig :: "'g option"

definition into_deposit_tx :: "'g built_real_deposit \<Rightarrow> (deposit_error, 'g built_deposit) result" where
  "into_deposit_tx tx =
     bind_r (ok_or (rd_approval_sig tx) DepositApprovalSignRequired) (\<lambda>approval.
     if consume_config (rd_accin tx) \<and> rd_consume_sig tx = None then Inl (Err DepositConsumeSignRequired)
     else
     bind_r (ok_or (rd_accin_proof tx) DepositAccountPathNotSet) (\<lambda>p.
     bind_r (ok_or (rd_subpool_proof tx) DepositSubpoolProofNotSet) (\<lambda>sp.
     Inr \<lparr>bd_not_fake_tx = True, bd_accin = rd_accin tx, bd_accout = rd_accout tx, bd_note = rd_note tx,
          bd_eth_address = rd_eth_address tx, bd_tx_hash = rd_tx_hash tx,
          bd_approval_key = approval_key (sp_config sp), bd_state_root = proof_root p,
          bd_main_pool_root = proof_root (main_pool_proof sp), bd_accin_act_merkle_proof = p, bd_subpool_proof = sp,
          bd_consume_sig = rd_consume_sig tx, bd_approval_sig = Some approval\<rparr>)))"

text \<open>The fake deposit holds the two roots, as the fake private transaction does.\<close>

definition fake_into_deposit_tx :: "hasher \<Rightarrow> fake_tx \<Rightarrow> (ast_error, 'g built_deposit) result" where
  "fake_into_deposit_tx P b =
     bind_r (account_fake P) (\<lambda>accin.
     let sp = subpool_full_proof_default in
     Inr \<lparr>bd_not_fake_tx = False, bd_accin = accin, bd_accout = clone_with_incremented_nonce accin,
          bd_note = deposit_note_default_for (address_from_acc P accin), bd_eth_address = replicate 20 0,
          bd_tx_hash = ZERO_hash, bd_approval_key = approval_key (sp_config sp), bd_state_root = fk_state_root b,
          bd_main_pool_root = fk_mainpool_config_root b, bd_accin_act_merkle_proof = dummy_merkle_proof,
          bd_subpool_proof = sp, bd_consume_sig = None, bd_approval_sig = None\<rparr>)"

definition deposit_prove ::
  "hasher \<Rightarrow> 's sig_gadget \<Rightarrow> (pubkey \<Rightarrow> hash_output \<Rightarrow> 'g \<Rightarrow> (prove_error, 's) result)
     \<Rightarrow> (pubkey \<Rightarrow> (prove_error, 's) result) \<Rightarrow> 'g built_deposit \<Rightarrow> (prove_error, felt list) result" where
  "deposit_prove P S set_sig set_dummy bt =
     bind_r (unwrap_r (account_nullifier P (bd_accin bt))) (\<lambda>accin_null.
     bind_r (unwrap_r (account_commitment P (bd_accout bt))) (\<lambda>accout_comm.
     let asset = dn_asset_id (bd_note bt);
         (ast_index, accin_amt, exists_in) = ast_entry (ast (bd_accin bt)) asset in
     bind_r (u256_add accin_amt (dn_amount (bd_note bt))) (\<lambda>accout_amt.
     let exists_out = amount_for (ast (bd_accout bt)) asset \<noteq> None in
     bind_r (unwrap_r (merkle_proof_at P (ast (bd_accin bt)) ast_index)) (\<lambda>ast_proof.
     bind_r (unwrap_r (account_set_witness P (bd_accin bt))) (\<lambda>accin.
     bind_r (unwrap_r (account_set_witness P (bd_accout bt))) (\<lambda>accout.
     bind_r (sig_fill set_sig set_dummy (consume_pk_or_default (bd_accin bt)) (bd_tx_hash bt) (bd_consume_sig bt)) (\<lambda>consume.
     bind_r (sig_fill set_sig set_dummy (bd_approval_key bt) (bd_tx_hash bt) (bd_approval_sig bt)) (\<lambda>approval.
     bind_r (unwrap_r (generate_limbs (columns (U256Target_set accin_amt) [U256Target_set (dn_amount (bd_note bt))]) 0)) (\<lambda>sum.
     let w = \<lparr>d_not_fake_tx = bd_not_fake_tx bt, d_approval_key = bd_approval_key bt, d_state_root = bd_state_root bt,
          d_mainpool_config_root = bd_main_pool_root bt, d_accin = accin, d_accout = accout, d_asset_id = asset,
          d_accin_amt = U256Target_set accin_amt, d_accout_amt = U256Target_set accout_amt,
          d_asset_exists_in_accin = exists_in, d_asset_exists_in_accout = exists_out,
          d_deposit_note = deposit_note_set (bd_note bt), d_eth_address = map_h160_to_f (bd_eth_address bt),
          d_accin_act_merkle = merkle_set_witness (bd_accin_act_merkle_proof bt),
          d_accin_ast_merkle = merkle_set_witness ast_proof, d_accout_ast_merkle = merkle_set_witness ast_proof,
          d_sum = sum, d_main_pool_proof = merkle_set_witness (main_pool_proof (bd_subpool_proof bt)),
          d_consume_sig = consume, d_approval_sig = approval\<rparr> in
     if d_accin_null P w = accin_null \<and> derive_account_commitment P accout = accout_comm \<and> deposit_tx_circuit P S w
     then Inr (register_deposit (d_public P w))
     else Inl (Err (ProofGenerationFailed Unsatisfied_constraints)))))))))))"

subsection \<open>Honest sums and wires\<close>

lemma sum2_generated:
  assumes "unat z = (unat x + unat y) mod 2 ^ 256"
  obtains ws where "generate_limbs (columns (U256Target_set x) [U256Target_set y]) 0 = Inr ws"
    "assert_sum2 (U256Target_set x) (U256Target_set y) (U256Target_set z) ws"
proof -
  have wires: "u256_wire (U256Target_set v)" "limbs_value (U256Target_set v) = unat v" for v
    by (simp_all add: U256Target_set_limbs u256_limbs_value)
  have "list_all small_column (columns (U256Target_set x) [U256Target_set y])" by (intro columns_small) (simp_all add: wires)
  then obtain ws where ws: "generate_limbs (columns (U256Target_set x) [U256Target_set y]) 0 = Inr ws"
      "limb_steps byte_lut (columns (U256Target_set x) [U256Target_set y]) 0 ws" "list_all (\<lambda>w. unat (limb_carry w) < 2 ^ 31) ws"
    using generate_limbs_ok [of _ 0] by auto
  have "u256_wire (map limb_result ws)" using limb_steps_results [OF ws(2)] by (simp add: u256_wire_def)
  moreover have "limbs_value (map limb_result ws) = limbs_value (U256Target_set z)"
    using chain_sound [OF wires(1) _ _ ws(2,3)] assms by (simp add: wires)
  ultimately have "map limb_result ws = U256Target_set z" using limbs_value_inj wires(1) by blast
  with ws that show thesis by (auto simp: sum2_iff connect_u256_eq)
qed

lemma length_h160 [simp]: "length (map_h160_to_f a) = 5"
  by (simp add: map_h160_to_f_def)

definition native_deposit_hash :: "hasher \<Rightarrow> hash_output \<Rightarrow> hash_output \<Rightarrow> 'g built_deposit \<Rightarrow> hash_output" where
  "native_deposit_hash P an ac bt = derive_deposit_tx_hash P an ac (deposit_note_commitment P (bd_note bt)) (bd_eth_address bt)"

text \<open>What proving amounts to once trees, accounts and paths are in order: the two signatures.\<close>

lemma deposit_prove_filled:
  assumes accs: "bd_accin bt = acc" "bd_accout bt = (clone_with_incremented_nonce acc)\<lparr>ast := ast (bd_accout bt)\<rparr>"
      "consume_config acc \<longleftrightarrow> consume_pk acc \<noteq> None" "unat (nonce acc) + 1 < unat GOLDILOCKS_PRIME"
    and rcpt: "dn_recipient (bd_note bt) = address_from_acc P acc" and asset: "dn_asset_id (bd_note bt) = asset"
    and entry: "ast_entry (ast acc) asset = (i, x, ei)" "merkle_proof_at P (ast acc) i = Inr p"
      "ast_root P (ast acc) = Inr r" "ast_root P (ast (bd_accout bt)) = Inr r'"
    and sum: "unat x + unat (dn_amount (bd_note bt)) < 2 ^ 256"
    and upd: "assert_ast_update P asset (U256Target_set x) (U256Target_set (x + dn_amount (bd_note bt))) r r' ei
       (amount_for (ast (bd_accout bt)) asset \<noteq> None) (merkle_set_witness p) (merkle_set_witness p)"
    and act: "\<And>c. account_commitment P acc = Inr c \<Longrightarrow> conditional_merkle_verify_gadget P c (bd_state_root bt)
       (bd_not_fake_tx bt) STATE_TREE_DEPTH (merkle_set_witness (bd_accin_act_merkle_proof bt))"
    and sub: "assert_subpool_full_proof P (subpool_id acc) (bd_approval_key bt) (bd_main_pool_root bt)
      (bd_not_fake_tx bt) (merkle_set_witness (main_pool_proof (bd_subpool_proof bt)))"
    and sigs: "sig_fill set_sig set_dummy (consume_pk_or_default acc) (bd_tx_hash bt) (bd_consume_sig bt) = Inr s1"
      "sig_fill set_sig set_dummy (bd_approval_key bt) (bd_tx_hash bt) (bd_approval_sig bt) = Inr s2"
    and dig: "account_nullifier P acc = Inr an" "account_commitment P (bd_accout bt) = Inr ac"
    and h: "h = native_deposit_hash P an ac bt"
  shows "deposit_prove P S set_sig set_dummy bt =
    (if S (consume_config acc \<and> bd_not_fake_tx bt) h (consume_pk_or_default acc) s1 \<and> S (bd_not_fake_tx bt) h (bd_approval_key bt) s2
     then Inr (register_deposit
       \<lparr>dp_state_root = bd_state_root bt, dp_mainpool_config_root = bd_main_pool_root bt, dp_not_fake_tx = bd_not_fake_tx bt,
        dp_accin_null = an, dp_accout_comm = ac, dp_note_comm = deposit_note_commitment P (bd_note bt),
        dp_eth_address = map_h160_to_f (bd_eth_address bt), dp_amount = u256_limbs (dn_amount (bd_note bt)), dp_asset_id = asset\<rparr>)
     else Inl (Err (ProofGenerationFailed Unsatisfied_constraints)))"
proof -
  let ?v = "dn_amount (bd_note bt)"
  obtain tin where tin: "account_set_witness P acc = Inr tin" "t_acc_ast_root tin = r"
      "t_private_identifier tin = private_identifier acc" "t_subpool_id tin = subpool_id acc" "t_nonce tin = nonce acc"
      "t_spend_auth tin = spend_pk_or_default acc" "t_consume_config tin = consume_config acc" "t_consume_pk tin = consume_pk_or_default acc"
    using entry(3) by (rule account_wires)
  obtain tout where tout: "account_set_witness P (bd_accout bt) = Inr tout" "t_acc_ast_root tout = r'"
    using account_wires [OF entry(4)] by metis
  have auth: "consume_config (bd_accout bt) \<longleftrightarrow> consume_pk (bd_accout bt) \<noteq> None"
    using accs(3) by (subst (1 2) accs(2)) (simp add: clone_with_incremented_nonce_def)
  have commit: "account_commitment P acc = Inr (derive_account_commitment P tin)" using tin(1) accs(3) by (rule commitment_wire)
  have ac: "derive_account_commitment P tout = ac" using commitment_wire [OF tout(1) auth] dig(2) by simp
  have inv: "assert_account_invariants_simple tin tout"
    using tin(1) tout(1) entry(3,4) nonce_wire [OF accs(4)]
    by (subst (asm) accs(2)) (auto simp: assert_account_invariants_simple_def account_set_witness_def result_simps
        clone_with_incremented_nonce_def spend_pk_or_default_def consume_pk_or_default_def)
  have an: "derive_account_nullifier P (derive_account_commitment P tin) (derive_nullifier_key P (t_private_identifier tin)) = an"
    using dig(1) commit by (simp add: tin key_derivations derive_account_nullifier_def account_nullifier_def)
  have "unat (x + ?v) = (unat x + unat ?v) mod 2 ^ 256" by (simp add: unat_word_ariths)
  then obtain ws where ws: "generate_limbs (columns (U256Target_set x) [U256Target_set ?v]) 0 = Inr ws"
      "assert_sum2 (U256Target_set x) (U256Target_set ?v) (U256Target_set (x + ?v)) ws"
    by (rule sum2_generated)
  have add: "u256_add x ?v = Inr (x + ?v)" using sum by (simp add: u256_add_def)
  have owner: "dt_recipient_subpool_id (deposit_note_set (bd_note bt)) = t_subpool_id tin"
    "dt_recipient_public_id (deposit_note_set (bd_note bt)) = derive_public_identifier P (t_private_identifier tin)"
    by (simp_all add: deposit_note_set_def rcpt address_from_acc_def tin key_derivations)
  have am: "dt_amount (deposit_note_set (bd_note bt)) = U256Target_set ?v" "dt_asset_id (deposit_note_set (bd_note bt)) = asset"
    by (simp_all add: deposit_note_set_def asset)
  define w where "w = \<lparr>d_not_fake_tx = bd_not_fake_tx bt, d_approval_key = bd_approval_key bt, d_state_root = bd_state_root bt,
          d_mainpool_config_root = bd_main_pool_root bt, d_accin = tin, d_accout = tout, d_asset_id = asset,
          d_accin_amt = U256Target_set x, d_accout_amt = U256Target_set (x + ?v),
          d_asset_exists_in_accin = ei, d_asset_exists_in_accout = (amount_for (ast (bd_accout bt)) asset \<noteq> None),
          d_deposit_note = deposit_note_set (bd_note bt), d_eth_address = map_h160_to_f (bd_eth_address bt),
          d_accin_act_merkle = merkle_set_witness (bd_accin_act_merkle_proof bt),
          d_accin_ast_merkle = merkle_set_witness p, d_accout_ast_merkle = merkle_set_witness p,
          d_sum = ws, d_main_pool_proof = merkle_set_witness (main_pool_proof (bd_subpool_proof bt)),
          d_consume_sig = s1, d_approval_sig = s2\<rparr>"
  have wn: "d_accin_null P w = an" by (simp add: d_accin_null_def w_def an)
  have hash: "d_tx_hash P w = h"
    unfolding d_tx_hash_def wn by (simp add: w_def ac bridge_derivations h native_deposit_hash_def)
  have circuit: "deposit_tx_circuit P S w \<longleftrightarrow>
      S (consume_config acc \<and> bd_not_fake_tx bt) h (consume_pk_or_default acc) s1 \<and> S (bd_not_fake_tx bt) h (bd_approval_key bt) s2"
    unfolding deposit_tx_circuit_def deposit_arity_def hash
    using act [OF commit] sub upd inv ws(2) owner
    by (simp add: w_def am tin tout length_U256Target_set)
  have pub: "d_public P w = \<lparr>dp_state_root = bd_state_root bt, dp_mainpool_config_root = bd_main_pool_root bt, dp_not_fake_tx = bd_not_fake_tx bt,
        dp_accin_null = an, dp_accout_comm = ac, dp_note_comm = deposit_note_commitment P (bd_note bt),
        dp_eth_address = map_h160_to_f (bd_eth_address bt), dp_amount = u256_limbs ?v, dp_asset_id = asset\<rparr>"
    unfolding d_public_def wn by (simp add: w_def ac bridge_derivations am U256Target_set_limbs)
  have "deposit_prove P S set_sig set_dummy bt =
    (if d_accin_null P w = an \<and> derive_account_commitment P tout = ac \<and> deposit_tx_circuit P S w
     then Inr (register_deposit (d_public P w)) else Inl (Err (ProofGenerationFailed Unsatisfied_constraints)))"
    by (simp add: deposit_prove_def accs(1) dig asset entry add tin(1) tout(1) sigs ws(1) Let_def w_def)
  then show ?thesis unfolding circuit pub wn ac by simp
qed

subsection \<open>Real deposits\<close>

definition deposit_attach ::
  "hash_output merkle_proof \<Rightarrow> subpool_full_proof \<Rightarrow> 'g option \<Rightarrow> 'g \<Rightarrow> 'g built_real_deposit \<Rightarrow> 'g built_real_deposit" where
  "deposit_attach ap sp g1 g2 tx =
     (deposit_subpool_proof sp (deposit_account_path ap tx))\<lparr>rd_consume_sig := g1, rd_approval_sig := Some g2\<rparr>"

definition account_path_ok :: "hasher \<Rightarrow> account \<Rightarrow> hash_output merkle_proof \<Rightarrow> bool" where
  "account_path_ok P acc ap \<longleftrightarrow>
     (case account_commitment P acc of Inr c \<Rightarrow> path_ok P STATE_TREE_DEPTH c (proof_root ap) ap | Inl _ \<Rightarrow> False)"

lemma honest_subpool:
  assumes "subpool_path_ok P sid sp"
  shows "assert_subpool_full_proof P sid (approval_key (sp_config sp)) (proof_root (main_pool_proof sp)) c
    (merkle_set_witness (main_pool_proof sp))"
  unfolding assert_subpool_full_proof_def using assms
  by (intro path_ok_gadget) (simp add: subpool_path_ok_def subpool_commitment_def pubkey_commit_def)

lemma deposit_build_success:
  assumes new: "deposit_new P accin n eth = Inr b" and rep: "ast_rep P (ast accin) ((0, 0) # es)"
    and consume: "consume_config accin \<longrightarrow> consume_pk accin \<noteq> None"
    and old: "old = (case amount_for (ast accin) (dn_asset_id n) of Some (_, v) \<Rightarrow> v | None \<Rightarrow> 0)"
  shows "let res = deposit_build P b :: (deposit_error, 'g built_real_deposit) result in
    if 2 ^ 256 \<le> unat old + unat (dn_amount n) then res = Inl (Panic Arith_overflow)
    else if dn_asset_id n = 0 \<or> amount_for (ast accin) (dn_asset_id n) = None \<and> 2 ^ ACC_AST_DEPTH \<le> ast_size (ast accin)
      then res = Inl (Panic Unwrap_failed)
    else \<exists>tx an ac a es'. res = Inr tx \<and> rd_accin tx = accin \<and> rd_note tx = n \<and> rd_eth_address tx = eth
      \<and> insert_or_update_asset P (dn_asset_id n) (old + dn_amount n) (ast accin) = Inr (map_option snd (amount_for (ast accin) (dn_asset_id n)), a)
      \<and> rd_accout tx = (clone_with_incremented_nonce accin)\<lparr>ast := a\<rparr> \<and> ast_rep P a ((0, 0) # es')
      \<and> account_nullifier P accin = Inr an \<and> account_commitment P (rd_accout tx) = Inr ac
      \<and> rd_tx_hash tx = derive_deposit_tx_hash P an ac (deposit_note_commitment P n) eth"
proof (cases "2 ^ 256 \<le> unat old + unat (dn_amount n)")
  case True
  then show ?thesis using new by (auto simp: deposit_build_def deposit_new_def u256_add_def Let_def old split: if_splits)
next
  case fits: False
  have b: "db_accin b = accin" "db_note b = n" "db_eth_address b = eth" using new by (auto simp: deposit_new_def split: if_splits)
  have add: "u256_add old (dn_amount n) = Inr (old + dn_amount n)" using fits by (simp add: u256_add_def)
  note run = deposit_build_def [of P b, unfolded b Let_def, folded old, unfolded add bind_r_Inr]
  show ?thesis
  proof (cases "dn_asset_id n = 0 \<or> amount_for (ast accin) (dn_asset_id n) = None \<and> 2 ^ ACC_AST_DEPTH \<le> ast_size (ast accin)")
    case True
    then have "insert_or_update_asset P (dn_asset_id n) (old + dn_amount n) (ast accin) = Inl (Panic Unwrap_failed)"
      using put_outcome [OF rep, of "dn_asset_id n" "old + dn_amount n"] by (simp split: if_splits)
    then show ?thesis using fits True by (simp add: run Let_def clone_with_incremented_nonce_def)
  next
    case room: False
    then obtain a es' where put: "insert_or_update_asset P (dn_asset_id n) (old + dn_amount n) (ast accin)
        = Inr (map_option snd (amount_for (ast accin) (dn_asset_id n)), a)" "ast_rep P a ((0, 0) # es')"
      using put_outcome [OF rep, of "dn_asset_id n" "old + dn_amount n"] unfolding if_not_P [OF room] by blast
    define accout where "accout = (clone_with_incremented_nonce accin)\<lparr>ast := a\<rparr>"
    have outp: "ast_rep P (ast accout) ((0, 0) # es')" "consume_config accout \<longrightarrow> consume_pk accout \<noteq> None"
      using put(2) consume by (simp_all add: accout_def clone_with_incremented_nonce_def)
    obtain an where an: "account_nullifier P accin = Inr an" using account_digests [OF rep consume] by blast
    obtain ac where ac: "account_commitment P accout = Inr ac" using account_digests [OF outp] by blast
    show ?thesis
      using fits room put an ac by (auto simp: run Let_def clone_with_incremented_nonce_def accout_def)
  qed
qed

lemma attached_deposit_proves:
  assumes rcpt: "dn_recipient n = address_from_acc P accin" and rep: "ast_rep P (ast accin) es"
    and consume: "consume_config accin \<longleftrightarrow> consume_pk accin \<noteq> None" and nonce: "unat (nonce accin) + 1 < unat GOLDILOCKS_PRIME"
    and old: "old = (case amount_for (ast accin) (dn_asset_id n) of Some (_, v) \<Rightarrow> v | None \<Rightarrow> 0)"
    and fits: "unat old + unat (dn_amount n) < 2 ^ 256"
    and put: "insert_or_update_asset P (dn_asset_id n) (old + dn_amount n) (ast accin) = Inr (prev, a)"
    and paths: "account_path_ok P accin ap" "subpool_path_ok P (subpool_id accin) sp" and given: "consume_config accin \<longrightarrow> g1 \<noteq> None"
    and sigs: "\<And>h. sig_fill set_sig set_dummy (consume_pk_or_default accin) h g1 = Inr (s1 h)"
      "\<And>h. set_sig (approval_key (sp_config sp)) h g2 = Inr (s2 h)"
    and tx: "rd_accin tx = accin" "rd_note tx = n" "rd_eth_address tx = eth" "rd_accout tx = (clone_with_incremented_nonce accin)\<lparr>ast := a\<rparr>"
      "rd_tx_hash tx = derive_deposit_tx_hash P an ac (deposit_note_commitment P n) eth"
    and dig: "account_nullifier P accin = Inr an" "account_commitment P (rd_accout tx) = Inr ac"
  shows "\<exists>bt. into_deposit_tx (deposit_attach ap sp g1 g2 tx) = Inr bt
    \<and> deposit_prove P S set_sig set_dummy bt =
      (if S (consume_config accin) (rd_tx_hash tx) (consume_pk_or_default accin) (s1 (rd_tx_hash tx))
          \<and> S True (rd_tx_hash tx) (approval_key (sp_config sp)) (s2 (rd_tx_hash tx))
       then Inr (register_deposit
         \<lparr>dp_state_root = proof_root ap, dp_mainpool_config_root = proof_root (main_pool_proof sp), dp_not_fake_tx = True,
          dp_accin_null = an, dp_accout_comm = ac, dp_note_comm = deposit_note_commitment P n,
          dp_eth_address = map_h160_to_f eth, dp_amount = u256_limbs (dn_amount n), dp_asset_id = dn_asset_id n\<rparr>)
       else Inl (Err (ProofGenerationFailed Unsatisfied_constraints)))"
proof -
  let ?y = "old + dn_amount n" and ?x = "dn_asset_id n"
  obtain p i o0 ex r' es' where entry: "ast_entry (ast accin) ?x = (i, o0, ex)" "ast_entry a ?x = (i, ?y, True)"
      "merkle_proof_at P (ast accin) i = Inr p" "ast_root P (ast accin) = Inr (proof_root p)" "ast_root P a = Inr r'"
    and upd: "assert_ast_update P ?x (U256Target_set o0) (U256Target_set ?y) (proof_root p) r' ex True
       (merkle_set_witness p) (merkle_set_witness p)"
    and o0: "o0 = (case amount_for (ast accin) ?x of Some (_, u) \<Rightarrow> u | None \<Rightarrow> 0)"
    using ast_put_witness [OF rep put] by metis
  have o0: "o0 = old" by (simp add: o0 old)
  obtain bt where bt: "into_deposit_tx (deposit_attach ap sp g1 g2 tx) = Inr bt"
    using given by (auto simp: into_deposit_tx_def deposit_attach_def deposit_subpool_proof_def deposit_account_path_def tx)
  have sel: "bd_not_fake_tx bt" "bd_accin bt = accin" "bd_accout bt = rd_accout tx" "bd_note bt = n" "bd_eth_address bt = eth"
    "bd_tx_hash bt = rd_tx_hash tx" "bd_approval_key bt = approval_key (sp_config sp)" "bd_state_root bt = proof_root ap"
    "bd_main_pool_root bt = proof_root (main_pool_proof sp)" "bd_accin_act_merkle_proof bt = ap" "bd_subpool_proof bt = sp"
    "bd_consume_sig bt = g1" "bd_approval_sig bt = Some g2"
    using bt tx(1-3) by (auto simp: into_deposit_tx_def deposit_attach_def deposit_subpool_proof_def deposit_account_path_def split: if_splits)
  have act: "conditional_merkle_verify_gadget P c (proof_root ap) True STATE_TREE_DEPTH (merkle_set_witness ap)"
    if "account_commitment P accin = Inr c" for c
    using paths(1) that by (intro path_ok_gadget) (simp add: account_path_ok_def)
  have some: "amount_for a ?x \<noteq> None" using entry(2) by (auto simp: ast_entry_def split: option.splits)
  have "deposit_prove P S set_sig set_dummy bt =
    (if S (consume_config accin \<and> bd_not_fake_tx bt) (rd_tx_hash tx) (consume_pk_or_default accin) (s1 (rd_tx_hash tx))
        \<and> S (bd_not_fake_tx bt) (rd_tx_hash tx) (bd_approval_key bt) (s2 (rd_tx_hash tx))
     then Inr (register_deposit
       \<lparr>dp_state_root = bd_state_root bt, dp_mainpool_config_root = bd_main_pool_root bt, dp_not_fake_tx = bd_not_fake_tx bt,
        dp_accin_null = an, dp_accout_comm = ac, dp_note_comm = deposit_note_commitment P (bd_note bt),
        dp_eth_address = map_h160_to_f (bd_eth_address bt), dp_amount = u256_limbs (dn_amount (bd_note bt)), dp_asset_id = ?x\<rparr>)
     else Inl (Err (ProofGenerationFailed Unsatisfied_constraints)))"
    using entry upd dig fits rcpt sigs act honest_subpool [OF paths(2)] some
    by (intro deposit_prove_filled [OF sel(2) _ consume nonce])
       (simp_all add: sel o0 tx(4) native_deposit_hash_def tx(5) sig_fill_def)
  then show ?thesis using bt by (simp add: sel)
qed

text \<open>
  C12. Deposits from the builder to the proof. For an account with a well-formed balance tree,
  building panics if the balance would overflow, or for the reserved asset or a full tree;
  otherwise the output account has the next nonce and the deposited amount added to that asset
  only, and with honest paths \<^verbatim>\<open>prove\<close> succeeds if and only if the approval gadget accepts and, for
  an account that does not delegate consumption, the consume gadget does. The public inputs are
  the native digests, the address and the amount.
\<close>

theorem deposit_tx_proves:
  assumes new: "deposit_new P accin n eth = Inr b" and acc: "ast_ok P (ast accin)"
    and consume: "consume_config accin \<longleftrightarrow> consume_pk accin \<noteq> None" and nonce: "unat (nonce accin) + 1 < unat GOLDILOCKS_PRIME"
    and old: "old = (case amount_for (ast accin) (dn_asset_id n) of Some (_, v) \<Rightarrow> v | None \<Rightarrow> 0)"
    and paths: "account_path_ok P accin ap" "subpool_path_ok P (subpool_id accin) sp"
    and given: "consume_config accin \<longrightarrow> g1 \<noteq> None"
    and sigs: "\<And>h. sig_fill set_sig set_dummy (consume_pk_or_default accin) h g1 = Inr (s1 h)"
      "\<And>h. set_sig (approval_key (sp_config sp)) h g2 = Inr (s2 h)"
  shows "let res = deposit_build P b :: (deposit_error, 'g built_real_deposit) result; key = approval_key (sp_config sp) in
    if 2 ^ 256 \<le> unat old + unat (dn_amount n) then res = Inl (Panic Arith_overflow)
    else if dn_asset_id n = 0 \<or> amount_for (ast accin) (dn_asset_id n) = None \<and> 2 ^ ACC_AST_DEPTH \<le> ast_size (ast accin)
      then res = Inl (Panic Unwrap_failed)
    else \<exists>tx bt an ac. res = Inr tx \<and> rd_accout tx = (clone_with_incremented_nonce accin)\<lparr>ast := ast (rd_accout tx)\<rparr>
      \<and> ast_ok P (ast (rd_accout tx))
      \<and> map_option snd (amount_for (ast (rd_accout tx)) (dn_asset_id n)) = Some (old + dn_amount n)
      \<and> (\<forall>x. x \<noteq> dn_asset_id n \<longrightarrow> amount_for (ast (rd_accout tx)) x = amount_for (ast accin) x)
      \<and> account_nullifier P accin = Inr an \<and> account_commitment P (rd_accout tx) = Inr ac
      \<and> into_deposit_tx (deposit_attach ap sp g1 g2 tx) = Inr bt
      \<and> deposit_prove P S set_sig set_dummy bt =
        (if S (consume_config accin) (rd_tx_hash tx) (consume_pk_or_default accin) (s1 (rd_tx_hash tx))
            \<and> S True (rd_tx_hash tx) key (s2 (rd_tx_hash tx))
         then Inr (register_deposit
           \<lparr>dp_state_root = proof_root ap, dp_mainpool_config_root = proof_root (main_pool_proof sp), dp_not_fake_tx = True,
            dp_accin_null = an, dp_accout_comm = ac, dp_note_comm = deposit_note_commitment P n,
            dp_eth_address = map_h160_to_f eth, dp_amount = u256_limbs (dn_amount n), dp_asset_id = dn_asset_id n\<rparr>)
         else Inl (Err (ProofGenerationFailed Unsatisfied_constraints)))"
proof -
  obtain es where rep: "ast_rep P (ast accin) ((0, 0) # es)" using acc by (auto simp: ast_ok_def)
  have auth: "consume_config accin \<longrightarrow> consume_pk accin \<noteq> None" using consume by simp
  let ?y = "old + dn_amount n" and ?x = "dn_asset_id n"
  let ?stuck = "?x = 0 \<or> amount_for (ast accin) ?x = None \<and> 2 ^ ACC_AST_DEPTH \<le> ast_size (ast accin)"
  note built = deposit_build_success [OF new rep auth old, where 'g = 'g, unfolded Let_def]
  show ?thesis
  proof (cases "2 ^ 256 \<le> unat old + unat (dn_amount n) \<or> ?stuck")
    case True
    with built show ?thesis unfolding Let_def by (auto split: if_splits)
  next
    case False
    then have n: "\<not> 2 ^ 256 \<le> unat old + unat (dn_amount n)" "\<not> ?stuck" by auto
    from built obtain tx an ac a es' where res: "deposit_build P b = (Inr tx :: (deposit_error, 'g built_real_deposit) result)"
      and tx: "rd_accin tx = accin" "rd_note tx = n" "rd_eth_address tx = eth" "rd_accout tx = (clone_with_incremented_nonce accin)\<lparr>ast := a\<rparr>"
        "rd_tx_hash tx = derive_deposit_tx_hash P an ac (deposit_note_commitment P n) eth"
      and put: "insert_or_update_asset P ?x ?y (ast accin) = Inr (map_option snd (amount_for (ast accin) ?x), a)"
      and rep': "ast_rep P a ((0, 0) # es')"
      and dig: "account_nullifier P accin = Inr an" "account_commitment P (rd_accout tx) = Inr ac"
      unfolding if_not_P [OF n(1)] if_not_P [OF n(2)] by blast
    have rcpt: "dn_recipient n = address_from_acc P accin" using new by (auto simp: deposit_new_def split: if_splits)
    have fits: "unat old + unat (dn_amount n) < 2 ^ 256" using n(1) by simp
    have a: "ast (rd_accout tx) = a" by (simp add: tx(4))
    have bal: "map_option snd (amount_for a ?x) = Some ?y" "\<forall>x. x \<noteq> ?x \<longrightarrow> amount_for a x = amount_for (ast accin) x"
      using put_outcome [OF rep, of ?x ?y] put unfolding if_not_P [OF n(2)] by auto
    have ok: "ast_ok P a" using rep' by (auto simp: ast_ok_def)
    show ?thesis
      using attached_deposit_proves [OF rcpt rep consume nonce old fits put paths given sigs tx dig, where S = S]
        res dig bal [folded a] ok [folded a] tx(4) [folded a]
      unfolding Let_def if_not_P [OF n(1)] if_not_P [OF n(2)] by blast
  qed
qed

theorem deposit_tx_proves_witness:
  "\<exists>acc b tx bt ap sp pub. deposit_new demo_hasher acc
      \<lparr>dn_identifier = (1, 2), dn_recipient = address_from_acc demo_hasher acc, dn_amount = 40, dn_asset_id = 5\<rparr> (replicate 20 7) = Inr b
    \<and> deposit_build demo_hasher b = (Inr tx :: (deposit_error, unit built_real_deposit) result)
    \<and> map_option snd (amount_for (ast (rd_accout tx)) 5) = Some 40
    \<and> into_deposit_tx (deposit_attach ap sp None () tx) = Inr bt
    \<and> deposit_prove demo_hasher (\<lambda>c h pk s. c \<longrightarrow> s) (\<lambda>pk h g. Inr True) (\<lambda>pk. Inr False) bt = Inr pub"
proof -
  let ?P = demo_hasher
  obtain a where a: "ast_rep ?P a [(0, 0)]" using ast_new_rep by blast
  let ?acc = "\<lparr>private_identifier = (7, 8), subpool_id = 1, nonce = 1, spend_pk = None,
    consume_config = False, consume_pk = None, ast = a\<rparr>"
  let ?n = "\<lparr>dn_identifier = (1, 2), dn_recipient = address_from_acc ?P ?acc, dn_amount = 40, dn_asset_id = 5\<rparr>"
  let ?b = "\<lparr>db_accin = ?acc, db_note = ?n, db_eth_address = replicate 20 7\<rparr>"
  have new: "deposit_new ?P ?acc ?n (replicate 20 7) = Inr ?b" by (simp add: deposit_new_def)
  have bal: "amount_for a 5 = None" "ast_size a = 1" using ast_rep_sel [OF a] by simp_all
  obtain c where c: "account_commitment ?P ?acc = Inr c" using account_digests [of ?P ?acc] a by auto
  let ?ap = "demo_path ?P STATE_TREE_DEPTH c ZERO_hash False 2"
  let ?cfg = "\<lparr>approval_key = CompressedPublicKey 9 0 0 0 0\<rparr>"
  let ?sp = "\<lparr>main_pool_proof = demo_path ?P MAIN_POOL_CONFIG_DEPTH (?P ([1, 0, 0, 0] @ elems (subpool_commitment ?P ?cfg)))
      ZERO_hash False 0, sp_config = ?cfg, sp_id = 1\<rparr>"
  have paths: "account_path_ok ?P ?acc ?ap" "subpool_path_ok ?P (subpool_id ?acc) ?sp"
    using c by (simp_all add: account_path_ok_def subpool_path_ok_def demo_path_ok STATE_TREE_DEPTH_def MAIN_POOL_CONFIG_DEPTH_def)
  have ok: "ast_ok ?P (ast ?acc)" using a by (auto simp: ast_ok_def)
  have old: "(0 :: u256) = (case amount_for (ast ?acc) (dn_asset_id ?n) of Some (_, v) \<Rightarrow> v | None \<Rightarrow> 0)" using bal by simp
  have n: "\<not> 2 ^ 256 \<le> unat (0 :: u256) + unat (dn_amount ?n)"
    "\<not> (dn_asset_id ?n = 0 \<or> amount_for (ast ?acc) (dn_asset_id ?n) = None \<and> 2 ^ ACC_AST_DEPTH \<le> ast_size (ast ?acc))"
    using bal by (simp_all add: ACC_AST_DEPTH_def)
  have sig: "sig_fill (\<lambda>pk h (g :: unit). Inr True) (\<lambda>pk. Inr False) (consume_pk_or_default ?acc) h None = Inr False" for h
    by (simp add: sig_fill_def)
  obtain tx bt pub where "deposit_build ?P ?b = (Inr tx :: (deposit_error, unit built_real_deposit) result)"
    "map_option snd (amount_for (ast (rd_accout tx)) 5) = Some 40"
    "into_deposit_tx (deposit_attach ?ap ?sp None () tx) = Inr bt"
    "deposit_prove ?P (\<lambda>c h pk s. c \<longrightarrow> s) (\<lambda>pk h g. Inr True) (\<lambda>pk. Inr False) bt = Inr pub"
    using deposit_tx_proves [OF new ok _ _ old paths _ sig refl, of "()" "\<lambda>c h pk s. c \<longrightarrow> s"]
    unfolding Let_def if_not_P [OF n(1)] if_not_P [OF n(2)] by (auto simp: unat_PRIME)
  with new show ?thesis by blast
qed

subsection \<open>Fake deposits\<close>

text \<open>
  A fake deposit proves whatever roots it is given, with the not-fake flag cleared and no
  signature enforced.
\<close>

theorem fake_deposit_proves:
  assumes sigs: "set_dummy DEFAULT_ACC_COMM_CONSUME_PK_PLACEHOLDER = Inr s1" "set_dummy DEFAULT_SPEND_AUTH_PK = Inr s2"
  shows "\<exists>acc bt an ac. account_fake P = Inr acc \<and> account_nullifier P acc = Inr an
    \<and> account_commitment P (clone_with_incremented_nonce acc) = Inr ac
    \<and> fake_into_deposit_tx P (fake_build (fake_new r c)) = (Inr bt :: (ast_error, 'g built_deposit) result)
    \<and> (let h = native_deposit_hash P an ac bt in
       deposit_prove P S set_sig set_dummy bt =
        (if S False h DEFAULT_ACC_COMM_CONSUME_PK_PLACEHOLDER s1 \<and> S False h DEFAULT_SPEND_AUTH_PK s2
         then Inr (register_deposit
           \<lparr>dp_state_root = r, dp_mainpool_config_root = c, dp_not_fake_tx = False, dp_accin_null = an, dp_accout_comm = ac,
            dp_note_comm = deposit_note_commitment P (deposit_note_default_for (address_from_acc P acc)),
            dp_eth_address = map_h160_to_f (replicate 20 0), dp_amount = u256_limbs 0, dp_asset_id = 0\<rparr>)
         else Inl (Err (ProofGenerationFailed Unsatisfied_constraints))))"
proof -
  obtain a where a: "ast_new P = Inr a" "ast_rep P a [(0, 0)]" using ast_new_rep by blast
  define acc where "acc = \<lparr>private_identifier = (2, 2), subpool_id = 0, nonce = 0, spend_pk = None,
      consume_config = False, consume_pk = None, ast = a\<rparr>"
  have acc: "account_fake P = Inr acc" using a(1) by (simp add: account_fake_def new_with_def acc_def)
  define out where "out = clone_with_incremented_nonce acc"
  have sel_acc: "ast acc = a" "ast out = a" "\<not> consume_config acc" "consume_pk acc = None" "nonce acc = 0"
      "\<not> consume_config out" "consume_pk_or_default acc = DEFAULT_ACC_COMM_CONSUME_PK_PLACEHOLDER"
    by (simp_all add: acc_def out_def clone_with_incremented_nonce_def consume_pk_or_default_def)
  have keep: "out = (clone_with_incremented_nonce acc)\<lparr>ast := a\<rparr>" by (simp add: out_def acc_def clone_with_incremented_nonce_def)
  obtain an where an: "account_nullifier P acc = Inr an" using account_digests [of P acc] a(2) sel_acc by auto
  obtain ac where ac: "account_commitment P out = Inr ac" using account_digests [of P out] a(2) sel_acc by auto
  obtain bt where bt: "fake_into_deposit_tx P (fake_build (fake_new r c)) = (Inr bt :: (ast_error, 'g built_deposit) result)"
    by (simp add: fake_into_deposit_tx_def acc)
  have sel: "\<not> bd_not_fake_tx bt" "bd_accin bt = acc" "bd_accout bt = out" "bd_note bt = deposit_note_default_for (address_from_acc P acc)"
    "bd_eth_address bt = replicate 20 0" "bd_approval_key bt = DEFAULT_SPEND_AUTH_PK" "bd_state_root bt = r" "bd_main_pool_root bt = c"
    "bd_accin_act_merkle_proof bt = dummy_merkle_proof" "bd_subpool_proof bt = subpool_full_proof_default"
    "bd_consume_sig bt = None" "bd_approval_sig bt = None"
    using bt by (auto simp: fake_into_deposit_tx_def acc out_def fake_build_def fake_new_def subpool_full_proof_default_def)
  have n: "dn_recipient (bd_note bt) = address_from_acc P acc" "dn_asset_id (bd_note bt) = 0" "dn_amount (bd_note bt) = 0"
    by (simp_all add: sel deposit_note_default_for_def)
  obtain p where p: "ast_entry a 0 = (0, 0, True)" "merkle_proof_at P a 0 = Inr p" "ast_root P a = Inr (proof_root p)"
    "assert_ast_update P 0 (U256Target_set 0) (U256Target_set 0) (proof_root p) (proof_root p) True True
       (merkle_set_witness p) (merkle_set_witness p)"
    using ast_keep_witness [OF a(2)] .
  have some: "amount_for a 0 \<noteq> None" using p(1) by (auto simp: ast_entry_def split: option.splits)
  have sub: "assert_subpool_full_proof P (subpool_id acc) DEFAULT_SPEND_AUTH_PK c False
      (merkle_set_witness (main_pool_proof subpool_full_proof_default))"
    unfolding assert_subpool_full_proof_def by (intro open_path_gadget) (simp_all add: subpool_full_proof_default_def)
  have act: "conditional_merkle_verify_gadget P x r False STATE_TREE_DEPTH (merkle_set_witness dummy_merkle_proof)" for x
    by (intro open_path_gadget) (simp_all add: dummy_merkle_proof_def)
  let ?h = "native_deposit_hash P an ac bt"
  have "deposit_prove P S set_sig set_dummy bt =
    (if S (consume_config acc \<and> bd_not_fake_tx bt) ?h (consume_pk_or_default acc) s1 \<and> S (bd_not_fake_tx bt) ?h (bd_approval_key bt) s2
     then Inr (register_deposit
       \<lparr>dp_state_root = bd_state_root bt, dp_mainpool_config_root = bd_main_pool_root bt, dp_not_fake_tx = bd_not_fake_tx bt,
        dp_accin_null = an, dp_accout_comm = ac, dp_note_comm = deposit_note_commitment P (bd_note bt),
        dp_eth_address = map_h160_to_f (bd_eth_address bt), dp_amount = u256_limbs (dn_amount (bd_note bt)), dp_asset_id = 0\<rparr>)
     else Inl (Err (ProofGenerationFailed Unsatisfied_constraints)))"
    using p some sub act an ac sigs keep
    by (intro deposit_prove_filled [OF sel(2) _ _ _ n(1,2)])
       (simp_all add: sel sel_acc deposit_note_default_for_def sig_fill_def unat_PRIME)
  then show ?thesis
    using acc an ac bt by (auto simp: Let_def sel sel_acc out_def deposit_note_default_for_def)
qed

theorem fake_deposit_proves_witness:
  "\<exists>bt pub. fake_into_deposit_tx demo_hasher (fake_build (fake_new ZERO_hash ZERO_hash)) = (Inr bt :: (ast_error, unit built_deposit) result)
    \<and> deposit_prove demo_hasher (\<lambda>c h pk s. c \<longrightarrow> s) (\<lambda>pk h g. Inr True) (\<lambda>pk. Inr False) bt = Inr pub"
  using fake_deposit_proves [of "\<lambda>pk. Inr False" False False demo_hasher ZERO_hash ZERO_hash "\<lambda>c h pk s. c \<longrightarrow> s" "\<lambda>pk h (g :: unit). Inr True"]
  by (auto simp: Let_def)

end
