(* ===== verification/Withdraw_Builder.thy ===== *)
theory Withdraw_Builder
  imports Deposit_Builder
begin

section \<open>Building and proving withdrawals\<close>

text \<open>
  \<^verbatim>\<open>withdraw_tx/builder.rs\<close> and \<^verbatim>\<open>compute_withdrawal_slots\<close> of \<^verbatim>\<open>withdraw_tx/targets.rs\<close>: up to seven withdrawals
  from one account, applied to its balance tree one after the other, with a path for every slot;
  the slots that are left open at the next free leaf. The conventions are those of the deposits.
\<close>

datatype withdraw_error =
    WithdrawAccountNotInitialized | TooManyWithdrawals nat | NoWithdrawals
  | WithdrawInsufficientBalance asset_id u256 u256 | WithdrawApprovalSignRequired | SpendSignRequired
  | WithdrawAccountPathNotSet | WithdrawSubpoolProofNotSet

record withdraw_builder =
  wb_accin :: account
  wb_addr :: bytes
  wb_withdrawals :: "(asset_id \<times> u256) list"

definition withdraw_new :: "account \<Rightarrow> bytes \<Rightarrow> (withdraw_error, withdraw_builder) result" where
  "withdraw_new accin addr =
     (if nonce accin = 0 then Inl (Err WithdrawAccountNotInitialized)
      else Inr \<lparr>wb_accin = accin, wb_addr = addr, wb_withdrawals = []\<rparr>)"

definition add_withdrawal :: "asset_id \<Rightarrow> u256 \<Rightarrow> withdraw_builder \<Rightarrow> (withdraw_error, withdraw_builder) result" where
  "add_withdrawal asset amount b =
     (if length (wb_withdrawals b) = NOTE_BATCH then Inl (Err (TooManyWithdrawals NOTE_BATCH))
      else Inr (b\<lparr>wb_withdrawals := wb_withdrawals b @ [(asset, amount)]\<rparr>))"

subsection \<open>Slots\<close>

record slot_data =
  sl_asset_id :: asset_id
  sl_withdrawal_amt :: u256
  sl_accin_amt :: u256
  sl_accout_amt :: u256
  sl_exists_in :: bool
  sl_exists_out :: bool
  sl_proof :: "hash_output merkle_proof"

definition u256_sub :: "u256 \<Rightarrow> u256 \<Rightarrow> ('e, u256) result" where
  "u256_sub a b = (if b \<le> a then Inr (a - b) else Inl (Panic Arith_overflow))"

definition withdrawal_slot ::
  "hasher \<Rightarrow> (asset_id \<times> u256) list \<Rightarrow> nat \<Rightarrow> account_state_tree \<Rightarrow> ('e, slot_data \<times> account_state_tree) result" where
  "withdrawal_slot P withdrawals i current_ast =
     (if i < length withdrawals
      then case withdrawals ! i of (asset, withdrawal_amt) \<Rightarrow>
        case amount_for current_ast asset of
          None \<Rightarrow> Inl (Panic Unwrap_failed)
        | Some (ast_index, old_bal) \<Rightarrow>
            bind_r (unwrap_r (merkle_proof_at P current_ast ast_index)) (\<lambda>p.
            bind_r (u256_sub old_bal withdrawal_amt) (\<lambda>new_bal.
            bind_r (unwrap_r (insert_or_update_asset P asset new_bal current_ast)) (\<lambda>(prev, next_ast).
            case prev of
              None \<Rightarrow> Inl (Panic Unwrap_failed)
            | Some _ \<Rightarrow> Inr (\<lparr>sl_asset_id = asset, sl_withdrawal_amt = withdrawal_amt, sl_accin_amt = old_bal,
                sl_accout_amt = new_bal, sl_exists_in = True, sl_exists_out = (0 < new_bal), sl_proof = p\<rparr>, next_ast))))
      else bind_r (unwrap_r (merkle_proof_at P current_ast (next_index current_ast))) (\<lambda>p.
        Inr (\<lparr>sl_asset_id = 0, sl_withdrawal_amt = 0, sl_accin_amt = 0, sl_accout_amt = 0, sl_exists_in = False,
              sl_exists_out = False, sl_proof = p\<rparr>, current_ast)))"

primrec withdrawal_slots ::
  "hasher \<Rightarrow> (asset_id \<times> u256) list \<Rightarrow> nat list \<Rightarrow> account_state_tree \<Rightarrow> ('e, slot_data list \<times> account_state_tree) result" where
  "withdrawal_slots P withdrawals [] current_ast = Inr ([], current_ast)"
| "withdrawal_slots P withdrawals (i # is) current_ast =
     bind_r (withdrawal_slot P withdrawals i current_ast) (\<lambda>(s, current_ast).
     bind_r (withdrawal_slots P withdrawals is current_ast) (\<lambda>(ss, final_ast). Inr (s # ss, final_ast)))"

definition compute_withdrawal_slots ::
  "hasher \<Rightarrow> account \<Rightarrow> (asset_id \<times> u256) list \<Rightarrow> ('e, slot_data list \<times> account) result" where
  "compute_withdrawal_slots P accin withdrawals =
     bind_r (withdrawal_slots P withdrawals [0..<NOTE_BATCH] (ast accin)) (\<lambda>(ss, final_ast).
       Inr (ss, (clone_with_incremented_nonce accin)\<lparr>ast := final_ast\<rparr>))"

subsection \<open>Building\<close>

definition balance_of :: "account_state_tree \<Rightarrow> asset_id \<Rightarrow> u256" where
  "balance_of a asset = (case amount_for a asset of Some (_, v) \<Rightarrow> v | None \<Rightarrow> 0)"

primrec check_balances :: "account_state_tree \<Rightarrow> (asset_id \<times> u256) list \<Rightarrow> (withdraw_error, unit) result" where
  "check_balances a [] = Inr ()"
| "check_balances a (w # ws) =
     (if balance_of a (fst w) < snd w
      then Inl (Err (WithdrawInsufficientBalance (fst w) (balance_of a (fst w)) (snd w)))
      else check_balances a ws)"

record 'g built_real_withdraw =
  rw_accin :: account
  rw_accout :: account
  rw_withdrawals :: "(asset_id \<times> u256) list"
  rw_addr :: bytes
  rw_tx_hash :: hash_output
  rw_approval_sig :: "'g option"
  rw_spend_sig :: "'g option"
  rw_accin_proof :: "hash_output merkle_proof option"
  rw_subpool_proof :: "subpool_full_proof option"

definition withdraw_build :: "hasher \<Rightarrow> withdraw_builder \<Rightarrow> (withdraw_error, 'g built_real_withdraw) result" where
  "withdraw_build P b =
     (if wb_withdrawals b = [] then Inl (Err NoWithdrawals)
      else bind_r (check_balances (ast (wb_accin b)) (wb_withdrawals b)) (\<lambda>_.
      bind_r (compute_withdrawal_slots P (wb_accin b) (wb_withdrawals b)) (\<lambda>(ss, accout).
      bind_r (unwrap_r (account_nullifier P (wb_accin b))) (\<lambda>accin_null.
      bind_r (unwrap_r (account_commitment P accout)) (\<lambda>accout_comm.
      Inr \<lparr>rw_accin = wb_accin b, rw_accout = accout, rw_withdrawals = wb_withdrawals b, rw_addr = wb_addr b,
           rw_tx_hash = derive_withdraw_tx_hash P accin_null accout_comm (map sl_asset_id ss) (map sl_withdrawal_amt ss) (wb_addr b),
           rw_approval_sig = None, rw_spend_sig = None, rw_accin_proof = None, rw_subpool_proof = None\<rparr>)))))"

definition withdraw_approval_sign ::
  "('k \<Rightarrow> felt list \<Rightarrow> 'c \<Rightarrow> 'g) \<Rightarrow> 'k \<Rightarrow> 'c \<Rightarrow> 'g built_real_withdraw \<Rightarrow> 'g built_real_withdraw" where
  "withdraw_approval_sign sign sk k tx = tx\<lparr>rw_approval_sig := Some (sign sk (elems (rw_tx_hash tx)) k)\<rparr>"

definition withdraw_spend_sign ::
  "('k \<Rightarrow> felt list \<Rightarrow> 'c \<Rightarrow> 'g) \<Rightarrow> 'k \<Rightarrow> 'c \<Rightarrow> 'g built_real_withdraw \<Rightarrow> 'g built_real_withdraw" where
  "withdraw_spend_sign sign sk k tx = tx\<lparr>rw_spend_sig := Some (sign sk (elems (rw_tx_hash tx)) k)\<rparr>"

definition withdraw_account_path :: "hash_output merkle_proof \<Rightarrow> 'g built_real_withdraw \<Rightarrow> 'g built_real_withdraw" where
  "withdraw_account_path p tx = tx\<lparr>rw_accin_proof := Some p\<rparr>"

definition withdraw_subpool_proof :: "subpool_full_proof \<Rightarrow> 'g built_real_withdraw \<Rightarrow> 'g built_real_withdraw" where
  "withdraw_subpool_proof p tx = tx\<lparr>rw_subpool_proof := Some p\<rparr>"

record 'g built_withdraw =
  bw_not_fake_tx :: bool
  bw_accin :: account
  bw_withdrawals :: "(asset_id \<times> u256) list"
  bw_addr :: bytes
  bw_approval_key :: pubkey
  bw_state_root :: hash_output
  bw_main_pool_root :: hash_output
  bw_accin_act_merkle_proof :: "hash_output merkle_proof"
  bw_subpool_proof :: subpool_full_proof
  bw_approval_sig :: "'g option"
  bw_spend_sig :: "'g option"

definition into_withdraw_tx :: "'g built_real_withdraw \<Rightarrow> (withdraw_error, 'g built_withdraw) result" where
  "into_withdraw_tx tx =
     bind_r (ok_or (rw_approval_sig tx) WithdrawApprovalSignRequired) (\<lambda>approval.
     bind_r (ok_or (rw_spend_sig tx) SpendSignRequired) (\<lambda>spend.
     bind_r (ok_or (rw_accin_proof tx) WithdrawAccountPathNotSet) (\<lambda>p.
     bind_r (ok_or (rw_subpool_proof tx) WithdrawSubpoolProofNotSet) (\<lambda>sp.
     Inr \<lparr>bw_not_fake_tx = True, bw_accin = rw_accin tx, bw_withdrawals = rw_withdrawals tx, bw_addr = rw_addr tx,
          bw_approval_key = approval_key (sp_config sp), bw_state_root = proof_root p,
          bw_main_pool_root = proof_root (main_pool_proof sp), bw_accin_act_merkle_proof = p, bw_subpool_proof = sp,
          bw_approval_sig = Some approval, bw_spend_sig = Some spend\<rparr>))))"

definition fake_into_withdraw_tx :: "hasher \<Rightarrow> fake_tx \<Rightarrow> (ast_error, 'g built_withdraw) result" where
  "fake_into_withdraw_tx P b =
     bind_r (account_fake P) (\<lambda>accin.
     let sp = subpool_full_proof_default in
     Inr \<lparr>bw_not_fake_tx = False, bw_accin = accin, bw_withdrawals = [], bw_addr = replicate 20 0,
          bw_approval_key = approval_key (sp_config sp), bw_state_root = fk_state_root b,
          bw_main_pool_root = fk_mainpool_config_root b, bw_accin_act_merkle_proof = dummy_merkle_proof,
          bw_subpool_proof = sp, bw_approval_sig = None, bw_spend_sig = None\<rparr>)"

subsection \<open>Proving\<close>

text \<open>
  The wires of a slot. The circuit computes the root after the slot from the new leaf; this is
  the value of the intermediate root that the next slot starts from.
\<close>

definition slot_out_root :: "hasher \<Rightarrow> slot_data \<Rightarrow> hash_output" where
  "slot_out_root P s = fold_path (hash_output_hash P)
     (ast_leaf_circuit P (sl_asset_id s) (U256Target_set (sl_accout_amt s)) (sl_exists_out s)) (path (sl_proof s)) (siblings (sl_proof s))"

definition slot_fill_wires :: "slot_data \<Rightarrow> (prove_error, slot_wires) result" where
  "slot_fill_wires s =
     bind_r (unwrap_r (generate_limbs (columns (U256Target_set (sl_accout_amt s)) [U256Target_set (sl_withdrawal_amt s)]) 0)) (\<lambda>sum.
     Inr \<lparr>s_asset_id = sl_asset_id s, s_withdrawal_amt = U256Target_set (sl_withdrawal_amt s),
          s_accin_amt = U256Target_set (sl_accin_amt s), s_accout_amt = U256Target_set (sl_accout_amt s),
          s_exists_in = sl_exists_in s, s_exists_out = sl_exists_out s, s_in_merkle = merkle_set_witness (sl_proof s),
          s_out_merkle = merkle_set_witness (sl_proof s), s_sum = sum\<rparr>)"

definition withdraw_prove ::
  "hasher \<Rightarrow> 's sig_gadget \<Rightarrow> (pubkey \<Rightarrow> hash_output \<Rightarrow> 'g \<Rightarrow> (prove_error, 's) result)
     \<Rightarrow> (pubkey \<Rightarrow> (prove_error, 's) result) \<Rightarrow> 'g built_withdraw \<Rightarrow> (prove_error, felt list) result" where
  "withdraw_prove P S set_sig set_dummy bt =
     bind_r (compute_withdrawal_slots P (bw_accin bt) (bw_withdrawals bt)) (\<lambda>(ss, accout_native).
     bind_r (unwrap_r (account_set_witness P (bw_accin bt))) (\<lambda>accin.
     bind_r (unwrap_r (account_set_witness P accout_native)) (\<lambda>accout.
     bind_r (collect_r slot_fill_wires ss) (\<lambda>slots.
     bind_r (unwrap_r (account_nullifier P (bw_accin bt))) (\<lambda>accin_null.
     bind_r (unwrap_r (account_commitment P accout_native)) (\<lambda>accout_comm.
     let tx_hash = derive_withdraw_tx_hash P accin_null accout_comm (map sl_asset_id ss) (map sl_withdrawal_amt ss) (bw_addr bt) in
     bind_r (sig_fill set_sig set_dummy (bw_approval_key bt) tx_hash (bw_approval_sig bt)) (\<lambda>approval.
     bind_r (sig_fill set_sig set_dummy (spend_pk_or_default (bw_accin bt)) tx_hash (bw_spend_sig bt)) (\<lambda>spend.
     let w = \<lparr>x_not_fake_tx = bw_not_fake_tx bt, x_approval_key = bw_approval_key bt, x_root = bw_state_root bt,
          x_mainpool_config_root = bw_main_pool_root bt, x_accin = accin, x_accout = accout, x_slots = slots,
          x_intermediate_roots = map (slot_out_root P) (take (NOTE_BATCH - 1) ss), x_w_acc_addr = map_h160_to_f (bw_addr bt),
          x_accin_act_merkle = merkle_set_witness (bw_accin_act_merkle_proof bt),
          x_main_pool_proof = merkle_set_witness (main_pool_proof (bw_subpool_proof bt)),
          x_approval_sig = approval, x_spend_sig = spend\<rparr> in
     if withdraw_tx_circuit P S w then Inr (register_withdraw (x_public P w))
     else Inl (Err (ProofGenerationFailed Unsatisfied_constraints))))))))))"

subsection \<open>Slots along the balance tree\<close>

text \<open>
  What a slot says about the tree: its path leads from the old balance to the root \<open>r\<close> before the
  slot, and from the new balance to \<open>slot_after\<close>. The leaf of a real slot is never reset.
\<close>

definition slot_after :: "hasher \<Rightarrow> slot_data \<Rightarrow> hash_output" where
  "slot_after P s = fold_path (hash_output_hash P)
     (ast_leaf_circuit P (sl_asset_id s) (U256Target_set (sl_accout_amt s)) (sl_exists_in s)) (path (sl_proof s)) (siblings (sl_proof s))"

definition slot_ok :: "hasher \<Rightarrow> hash_output \<Rightarrow> slot_data \<Rightarrow> bool" where
  "slot_ok P r s \<longleftrightarrow>
     assert_ast_update P (sl_asset_id s) (U256Target_set (sl_accin_amt s)) (U256Target_set (sl_accout_amt s)) r (slot_after P s)
       (sl_exists_in s) (sl_exists_in s) (merkle_set_witness (sl_proof s)) (merkle_set_witness (sl_proof s))
     \<and> unat (sl_accin_amt s) = unat (sl_accout_amt s) + unat (sl_withdrawal_amt s)
     \<and> (sl_exists_out s \<longleftrightarrow> sl_accout_amt s \<noteq> 0) \<and> (sl_exists_in s \<or> sl_accout_amt s = 0)"

primrec slots_ok :: "hasher \<Rightarrow> hash_output \<Rightarrow> slot_data list \<Rightarrow> hash_output \<Rightarrow> bool" where
  "slots_ok P r [] r' \<longleftrightarrow> r = r'"
| "slots_ok P r (s # ss) r' \<longleftrightarrow> slot_ok P r s \<and> slots_ok P (slot_after P s) ss r'"

lemma ast_update_root:
  assumes "assert_ast_update P x (U256Target_set old) (U256Target_set v) r r' ei eo (merkle_set_witness p) (merkle_set_witness p)"
  shows "fold_path (hash_output_hash P) (ast_leaf_circuit P x (U256Target_set v) eo) (path p) (siblings p) = r'"
  using assms
  by (cases eo) (simp_all add: ast_update asset_in_ast merkle_wires_of ast_leaf_circuit_def select_hash AST_DEFAULT_LEAF_def ZERO_hash_def)

lemma ast_pad_witness:
  assumes "ast_rep P a es" "length es < 2 ^ ACC_AST_DEPTH"
  obtains p where "merkle_proof_at P a (next_index a) = Inr p" "ast_root P a = Inr (proof_root p)"
    "assert_ast_update P 0 (U256Target_set 0) (U256Target_set 0) (proof_root p) (proof_root p) False False
       (merkle_set_witness p) (merkle_set_witness p)"
proof -
  let ?H = "hash_output_hash P" and ?d = ACC_AST_DEPTH and ?n = "length es"
  have tree: "tree a = canonical_tree ?H ?d (ast_leaves P es)" "length (ast_leaves P es) \<le> 2 ^ ?d"
    using assms(1) by (simp_all add: ast_rep_def)
  obtain p where p: "merkle_proof ?H (tree a) ?n = Inr p" "verify_proof ?H p" "proof_leaf p = leaf_at ?H (ast_leaves P es) ?n"
      "proof_root p = spec_root ?H ?d (ast_leaves P es)" "path p = path_bits ?d ?n" "length (siblings p) = ?d"
    using hash_output.merkle_proof_canonical [OF _ tree(2) assms(2)] tree(1) by auto
  have lf: "proof_leaf p = ast_leaf_circuit P 0 (U256Target_set 0) False"
    by (simp add: p(3) leaf_at_def ast_leaf_circuit_def select_hash AST_DEFAULT_LEAF_def ZERO_hash_def hash_output_hash_def)
  have "assert_ast_update P 0 (U256Target_set 0) (U256Target_set 0) (proof_root p)
      (fold_path ?H (ast_leaf_circuit P 0 (U256Target_set 0) False) (path p) (siblings p)) False False (merkle_set_witness p) (merkle_set_witness p)"
    using p lf limbs_0 by (intro ast_update_complete) (auto simp: path_bits_def)
  moreover have "fold_path ?H (ast_leaf_circuit P 0 (U256Target_set 0) False) (path p) (siblings p) = proof_root p"
    using p(2) lf by (simp add: verify_proof_def)
  ultimately show thesis
    using that p(1,4) tree ast_rep_sel(3) [OF assms(1)] by (simp add: merkle_proof_at_def ast_root_def hash_output.root_canonical)
qed

lemma pad_slot:
  assumes "ast_rep P a es" "length es < 2 ^ ACC_AST_DEPTH" "length ws \<le> i"
  obtains s r where "withdrawal_slot P ws i a = Inr (s, a)" "ast_root P a = Inr r" "slot_ok P r s" "slot_after P s = r"
    "sl_asset_id s = 0" "sl_withdrawal_amt s = 0" "\<not> sl_exists_in s"
proof -
  obtain p where p: "merkle_proof_at P a (next_index a) = Inr p" "ast_root P a = Inr (proof_root p)"
    "assert_ast_update P 0 (U256Target_set 0) (U256Target_set 0) (proof_root p) (proof_root p) False False
       (merkle_set_witness p) (merkle_set_witness p)"
    using ast_pad_witness [OF assms(1,2)] .
  note root = ast_update_root [OF p(3)]
  show thesis
    using p root assms(3)
    by (intro that [of "\<lparr>sl_asset_id = 0, sl_withdrawal_amt = 0, sl_accin_amt = 0, sl_accout_amt = 0, sl_exists_in = False,
              sl_exists_out = False, sl_proof = p\<rparr>" "proof_root p"]) (simp_all add: withdrawal_slot_def slot_after_def slot_ok_def)
qed

lemma tracked_update:
  assumes "ast_rep P a ((0, 0) # es)" "x \<noteq> 0" "amount_for a x = Some (j, u)"
  obtains a' es' where "insert_or_update_asset P x v a = Inr (Some u, a')" "ast_rep P a' ((0, 0) # es')" "length es' = length es"
    "amount_for a' = (amount_for a)(x \<mapsto> (j, v))"
proof -
  let ?es = "(0, 0) # es"
  have get: "lookup_from 0 ?es x = Some (j, u)" using assms(3) ast_rep_sel(4) [OF assms(1)] by (simp only:)
  have dist: "distinct (map fst ?es)" using assms(1) by (simp add: ast_rep_def)
  have j: "j < length ?es" "?es ! j = (x, u)" using get lookup_from_Some [OF dist, of 0 x j u] by simp_all
  have "0 < j" using get assms(2) by (rule lookup_from_0_hd)
  then have upd: "?es[j := (x, v)] = (0, 0) # es[j - 1 := (x, v)]" by (cases j) simp_all
  obtain a' where a': "update_asset P x v a = Inr (u, a')" "ast_rep P a' (?es[j := (x, v)])"
    using update_asset_rep [OF assms(1), of x v] assms(2) get by auto
  have "assets a x \<noteq> None" using assms(3) by (simp add: amount_for_def)
  then have "insert_or_update_asset P x v a = Inr (Some u, a')" using a'(1) by (auto simp: insert_or_update_asset_def)
  moreover have "amount_for a' = (amount_for a)(x \<mapsto> (j, v))"
    unfolding ast_rep_sel(4) [OF assms(1)] ast_rep_sel(4) [OF a'(2)] using lookup_from_update [OF dist j(1), of x 0 v] j(2) by simp
  ultimately show thesis using that a'(2) unfolding upd by simp
qed

lemma real_slot:
  assumes rep: "ast_rep P a ((0, 0) # es)" and i: "i < length ws" "ws ! i = (x, v)"
    and x: "x \<noteq> 0" "amount_for a x = Some (j, u)" "v \<le> u"
  obtains s a' es' r where "withdrawal_slot P ws i a = Inr (s, a')" "ast_rep P a' ((0, 0) # es')" "length es' = length es"
    "amount_for a' = (amount_for a)(x \<mapsto> (j, u - v))" "ast_root P a = Inr r" "slot_ok P r s" "ast_root P a' = Inr (slot_after P s)"
    "sl_asset_id s = x" "sl_withdrawal_amt s = v" "sl_accout_amt s = u - v" "sl_exists_in s"
proof -
  obtain a' es' where put: "insert_or_update_asset P x (u - v) a = Inr (Some u, a')" "ast_rep P a' ((0, 0) # es')" "length es' = length es"
    "amount_for a' = (amount_for a)(x \<mapsto> (j, u - v))"
    using tracked_update [OF rep x(1,2)] .
  obtain p i' o0 ex r' es'' where w: "ast_entry a x = (i', o0, ex)" "merkle_proof_at P a i' = Inr p"
    "ast_root P a = Inr (proof_root p)" "ast_root P a' = Inr r'"
    "assert_ast_update P x (U256Target_set o0) (U256Target_set (u - v)) (proof_root p) r' ex True (merkle_set_witness p) (merkle_set_witness p)"
    using ast_put_witness [OF rep put(1)] by metis
  have e: "i' = j" "o0 = u" ex using w(1) x(2) by (simp_all add: ast_entry_def)
  note root = ast_update_root [OF w(5)]
  have "unat u = unat (u - v) + unat v" using x(3) by (simp add: unat_sub word_le_nat_alt)
  then show thesis
    using put w e root x i
    by (intro that [of "\<lparr>sl_asset_id = x, sl_withdrawal_amt = v, sl_accin_amt = u, sl_accout_amt = u - v, sl_exists_in = True,
          sl_exists_out = (0 < u - v), sl_proof = p\<rparr>" a' es' "proof_root p"])
       (simp_all add: withdrawal_slot_def u256_sub_def slot_after_def slot_ok_def word_gt_0)
qed

lemma pads_run:
  assumes "ast_rep P a es" "length es < 2 ^ ACC_AST_DEPTH" "length ws \<le> k" "ast_root P a = Inr r"
  shows "\<exists>ss. withdrawal_slots P ws [k..<n] a = (Inr (ss, a) :: ('e, slot_data list \<times> account_state_tree) result) \<and> slots_ok P r ss r \<and> list_all (\<lambda>s. \<not> sl_exists_in s) ss
    \<and> map sl_asset_id ss = replicate (n - k) 0 \<and> map sl_withdrawal_amt ss = replicate (n - k) 0"
  using assms(3)
proof (induction "n - k" arbitrary: k)
  case (Suc m)
  then have k: "[k..<n] = k # [Suc k..<n]" "n - k = Suc (n - Suc k)" and m: "m = n - Suc k"
    by (simp_all add: upt_conv_Cons Suc_diff_Suc)
  obtain s where s: "withdrawal_slot P ws k a = (Inr (s, a) :: ('e, slot_data \<times> account_state_tree) result)" "slot_ok P r s" "slot_after P s = r"
      "sl_asset_id s = 0" "sl_withdrawal_amt s = 0" "\<not> sl_exists_in s"
    using pad_slot [OF assms(1,2) Suc.prems] assms(4) by (metis Inr_inject)
  obtain ss where ss: "withdrawal_slots P ws [Suc k..<n] a = (Inr (ss, a) :: ('e, slot_data list \<times> account_state_tree) result)" "slots_ok P r ss r" "list_all (\<lambda>s. \<not> sl_exists_in s) ss"
      "map sl_asset_id ss = replicate (n - Suc k) 0" "map sl_withdrawal_amt ss = replicate (n - Suc k) 0"
    using Suc.hyps(1) [of "Suc k"] Suc.prems m by auto
  show ?case unfolding k using s ss by (intro exI [of _ "s # ss"]) simp
qed simp

subsection \<open>The outcome of all slots\<close>

definition total_for :: "asset_id \<Rightarrow> (asset_id \<times> u256) list \<Rightarrow> nat" where
  "total_for x ws = sum_list (map (\<lambda>w. if fst w = x then unat (snd w) else 0) ws)"

text \<open>Every withdrawn asset is tracked and covers the sum of its withdrawals; \<open>covered_strictly\<close> leaves a rest.\<close>

definition covered :: "account_state_tree \<Rightarrow> (asset_id \<times> u256) list \<Rightarrow> bool" where
  "covered a ws \<longleftrightarrow> list_all (\<lambda>w. fst w \<noteq> 0 \<and> amount_for a (fst w) \<noteq> None \<and> total_for (fst w) ws \<le> unat (balance_of a (fst w))) ws"

definition leaves_rest :: "account_state_tree \<Rightarrow> (asset_id \<times> u256) list \<Rightarrow> bool" where
  "leaves_rest a ws \<longleftrightarrow> list_all (\<lambda>w. total_for (fst w) ws < unat (balance_of a (fst w))) ws"

definition reduced :: "account_state_tree \<Rightarrow> (asset_id \<times> u256) list \<Rightarrow> asset_id \<Rightarrow> (nat \<times> u256) option" where
  "reduced a ws x = map_option (\<lambda>(i, b). (i, of_nat (unat b - total_for x ws))) (amount_for a x)"

lemma total_for_simps [simp]:
  "total_for x [] = 0" "total_for x (w # ws) = (if fst w = x then unat (snd w) else 0) + total_for x ws"
  by (simp_all add: total_for_def)

lemma total_for_absent: "x \<notin> fst ` set ws \<Longrightarrow> total_for x ws = 0"
  by (induction ws) auto

lemma withdraw_one:
  assumes "amount_for a x = Some (j, u)" "v \<le> u" "amount_for a' = (amount_for a)(x \<mapsto> (j, u - v))"
  shows "covered a ((x, v) # ws) \<longleftrightarrow> x \<noteq> 0 \<and> covered a' ws"
    and "leaves_rest a ((x, v) # ws) \<longleftrightarrow> u \<noteq> v \<and> leaves_rest a' ws"
    and "covered a ((x, v) # ws) \<Longrightarrow> reduced a ((x, v) # ws) = reduced a' ws"
proof -
  have sub: "unat (u - v) = unat u - unat v" and le: "unat v \<le> unat u" using assms(2) by (simp_all add: unat_sub word_le_nat_alt)
  have bal: "balance_of a x = u" "balance_of a' y = (if y = x then u - v else balance_of a y)" for y
    using assms(1,3) by (simp_all add: balance_of_def)
  have same: "amount_for a' y = None \<longleftrightarrow> amount_for a y = None" for y using assms(1,3) by auto
  have rest: "total_for y ((x, v) # ws) \<le> unat (balance_of a y) \<longleftrightarrow> total_for y ws \<le> unat (balance_of a' y)"
    "total_for y ((x, v) # ws) < unat (balance_of a y) \<longleftrightarrow> total_for y ws < unat (balance_of a' y)" for y
    using le sub by (auto simp: bal)
  have all: "covered b vs \<longleftrightarrow> (\<forall>y \<in> fst ` set vs. y \<noteq> 0 \<and> amount_for b y \<noteq> None \<and> total_for y vs \<le> unat (balance_of b y))"
    "leaves_rest b vs \<longleftrightarrow> (\<forall>y \<in> fst ` set vs. total_for y vs < unat (balance_of b y))" for b vs
    by (auto simp: covered_def leaves_rest_def list_all_iff)
  have x: "x \<notin> fst ` set ws \<Longrightarrow> total_for x ws \<le> unat (balance_of a' x)" "amount_for a' x \<noteq> None"
    using total_for_absent [of x ws] assms(3) by simp_all
  have head: "fst ` set ((x, v) # ws) = insert x (fst ` set ws)" by simp
  show "covered a ((x, v) # ws) \<longleftrightarrow> x \<noteq> 0 \<and> covered a' ws"
    unfolding all rest same [symmetric] head using x by blast
  have "u \<noteq> v \<longleftrightarrow> unat v < unat u" using le by (auto simp: word_unat_eq_iff)
  then have "x \<notin> fst ` set ws \<Longrightarrow> (total_for x ws < unat (balance_of a' x)) \<longleftrightarrow> u \<noteq> v"
    "total_for x ws < unat (balance_of a' x) \<Longrightarrow> u \<noteq> v"
    using total_for_absent [of x ws] sub le by (auto simp: bal)
  then show "leaves_rest a ((x, v) # ws) \<longleftrightarrow> u \<noteq> v \<and> leaves_rest a' ws"
    unfolding all rest head by blast
  show "reduced a ((x, v) # ws) = reduced a' ws"
    using assms sub by (auto simp: reduced_def fun_eq_iff)
qed

lemma uncovered_slot_panics:
  assumes rep: "ast_rep P a ((0, 0) # es)" and i: "i < length ws" "ws ! i = (x, v)"
    and bad: "x = 0 \<or> amount_for a x = None \<or> balance_of a x < v"
  shows "\<exists>q. withdrawal_slot P ws i a = Inl (Panic q)"
proof (cases "amount_for a x")
  case None
  then show ?thesis using i by (simp add: withdrawal_slot_def)
next
  case (Some e)
  obtain j u where e: "e = (j, u)" by (cases e)
  show ?thesis
  proof (cases "x = 0")
    case True
    have "insert_or_update_asset P 0 z a = Inl (Panic Unwrap_failed)" for z using put_outcome [OF rep, of 0 z] by simp
    then show ?thesis
      using i Some e True by (cases "merkle_proof_at P a j" rule: unwrap_r.cases) (auto simp: withdrawal_slot_def u256_sub_def)
  next
    case False
    then have "\<not> v \<le> u" using bad Some e by (auto simp: balance_of_def)
    then show ?thesis using i Some e by (cases "merkle_proof_at P a j" rule: unwrap_r.cases) (auto simp: withdrawal_slot_def u256_sub_def)
  qed
qed

definition slots_summary ::
  "hasher \<Rightarrow> account_state_tree \<Rightarrow> (asset_id \<times> u256) list \<Rightarrow> nat \<Rightarrow> slot_data list \<Rightarrow> account_state_tree \<Rightarrow> bool" where
  "slots_summary P a ws n ss a' \<longleftrightarrow>
     ast_ok P a' \<and> (case (ast_root P a, ast_root P a') of (Inr r, Inr r') \<Rightarrow> slots_ok P r ss r' | _ \<Rightarrow> False)
     \<and> map sl_asset_id ss = map fst ws @ replicate n 0 \<and> map sl_withdrawal_amt ss = map snd ws @ replicate n 0
     \<and> (list_all (\<lambda>s. sl_exists_in s \<longrightarrow> sl_accout_amt s \<noteq> 0) ss \<longleftrightarrow> leaves_rest a ws)
     \<and> amount_for a' = reduced a ws"

lemma slots_run:
  assumes "ast_rep P a ((0, 0) # es)" "Suc (length es) < 2 ^ ACC_AST_DEPTH" "k \<le> length ws" "length ws \<le> n"
  shows "let res = withdrawal_slots P ws [k..<n] a :: ('e, slot_data list \<times> account_state_tree) result in
    if covered a (drop k ws) then \<exists>ss a'. res = Inr (ss, a') \<and> slots_summary P a (drop k ws) (n - length ws) ss a'
    else \<exists>q. res = Inl (Panic q)"
  using assms
proof (induction "length ws - k" arbitrary: k a es)
  case 0
  then have k: "drop k ws = []" "k = length ws" by simp_all
  obtain r where r: "ast_root P a = Inr r" using pad_slot [OF 0(2), of "[]" 0] 0(3) by auto
  have "amount_for a = reduced a []" by (auto simp: reduced_def fun_eq_iff split: option.splits simp: option.map_ident_strong)
  then show ?case
    using pads_run [OF 0(2) _ _ r, of ws k n, where 'e = 'e] 0(2,3) r k
    by (auto simp: covered_def leaves_rest_def slots_summary_def ast_ok_def list_all_iff)
next
  case (Suc m)
  obtain x v where w: "ws ! k = (x, v)" by (cases "ws ! k")
  have k: "k < length ws" "drop k ws = (x, v) # drop (Suc k) ws" "[k..<n] = k # [Suc k..<n]"
    using Suc.hyps(2) Suc.prems(4) w by (simp_all add: Cons_nth_drop_Suc [symmetric] upt_conv_Cons)
  show ?case
  proof (cases "x = 0 \<or> amount_for a x = None \<or> balance_of a x < v")
    case True
    then have "\<not> covered a (drop k ws)" by (auto simp: k(2) covered_def word_less_nat_alt)
    moreover obtain q where "(withdrawal_slot P ws k a :: ('e, slot_data \<times> account_state_tree) result) = Inl (Panic q)"
      using uncovered_slot_panics [OF Suc.prems(1) k(1) w True] by blast
    ultimately show ?thesis by (simp add: k(3) Let_def)
  next
    case False
    then obtain j u where e: "x \<noteq> 0" "amount_for a x = Some (j, u)" "v \<le> u" by (auto simp: balance_of_def)
    obtain s a' es' r where s: "withdrawal_slot P ws k a = (Inr (s, a') :: ('e, slot_data \<times> account_state_tree) result)"
        "ast_rep P a' ((0, 0) # es')" "length es' = length es" "amount_for a' = (amount_for a)(x \<mapsto> (j, u - v))"
        "ast_root P a = Inr r" "slot_ok P r s" "ast_root P a' = Inr (slot_after P s)"
        "sl_asset_id s = x" "sl_withdrawal_amt s = v" "sl_accout_amt s = u - v" "sl_exists_in s"
      using real_slot [OF Suc.prems(1) k(1) w e] by metis
    note one = withdraw_one [OF e(2,3) s(4)]
    have "m = length ws - Suc k" using Suc.hyps(2) by simp
    note IH = Suc.hyps(1) [OF this s(2) _ _ Suc.prems(4)]
    have nx: "Suc (length es') < 2 ^ ACC_AST_DEPTH" "Suc k \<le> length ws" using s(3) Suc.prems(2) k(1) by simp_all
    show ?thesis
    proof (cases "covered a' (drop (Suc k) ws)")
      case True
      then obtain ss a2 where run: "withdrawal_slots P ws [Suc k..<n] a' = (Inr (ss, a2) :: ('e, slot_data list \<times> account_state_tree) result)"
          and sum: "slots_summary P a' (drop (Suc k) ws) (n - length ws) ss a2"
        using IH [OF nx] unfolding Let_def by auto
      have cov: "covered a (drop k ws)" using True e(1) by (simp add: k(2) one(1))
      then have "slots_summary P a (drop k ws) (n - length ws) (s # ss) a2"
        using sum s(5-11) one(2,3) unfolding k(2) slots_summary_def by (auto split: sum.splits)
      then show ?thesis using cov run s(1) by (simp add: k(3) Let_def)
    next
      case False
      then show ?thesis using IH [OF nx] s(1) e(1) by (auto simp: k(2,3) one(1) Let_def)
    qed
  qed
qed

subsection \<open>Wires of honest slots\<close>

lemma slots_ok_nth:
  "slots_ok P r ss r' \<Longrightarrow> i < length ss \<Longrightarrow> slot_ok P (if i = 0 then r else slot_after P (ss ! (i - 1))) (ss ! i)"
proof (induction ss arbitrary: r i)
  case (Cons s ss)
  show ?case
  proof (cases i)
    case (Suc j)
    have "slot_ok P (if j = 0 then slot_after P s else slot_after P (ss ! (j - 1))) (ss ! j)"
      using Cons.prems Suc by (intro Cons.IH) auto
    then show ?thesis using Suc by (cases j) auto
  qed (use Cons.prems in simp)
qed simp

lemma slots_ok_last: "slots_ok P r ss r' \<Longrightarrow> ss \<noteq> [] \<Longrightarrow> slot_after P (last ss) = r'"
  by (induction ss arbitrary: r) auto

lemma slot_filled:
  assumes "slot_ok P r s"
  obtains w where "slot_fill_wires s = Inr w" "s_asset_id w = sl_asset_id s" "s_withdrawal_amt w = U256Target_set (sl_withdrawal_amt s)"
    "length (s_withdrawal_amt w) = 8" "length (s_accin_amt w) = 8" "length (s_accout_amt w) = 8"
    "\<And>pr cr. assert_slot P w pr cr \<longleftrightarrow> pr = r \<and> cr = slot_out_root P s"
proof -
  let ?x = "sl_asset_id s" and ?in = "U256Target_set (sl_accin_amt s)" and ?out = "U256Target_set (sl_accout_amt s)"
    and ?p = "merkle_set_witness (sl_proof s)"
  have ok: "assert_ast_update P ?x ?in ?out r (slot_after P s) (sl_exists_in s) (sl_exists_in s) ?p ?p"
    "unat (sl_accin_amt s) = unat (sl_accout_amt s) + unat (sl_withdrawal_amt s)"
    "sl_exists_out s \<longleftrightarrow> sl_accout_amt s \<noteq> 0"
    using assms by (simp_all add: slot_ok_def)
  have "unat (sl_accin_amt s) < 2 ^ 256" using unsigned_less [where 'a = nat, of "sl_accin_amt s"] by simp
  then have "unat (sl_accin_amt s) = (unat (sl_accout_amt s) + unat (sl_withdrawal_amt s)) mod 2 ^ 256" by (simp add: ok(2))
  then obtain ws where ws: "generate_limbs (columns ?out [U256Target_set (sl_withdrawal_amt s)]) 0 = Inr ws"
      "assert_sum2 ?out (U256Target_set (sl_withdrawal_amt s)) ?in ws"
    by (rule sum2_generated)
  have "assert_ast_update P ?x ?in ?out pr cr (sl_exists_in s) (sl_exists_out s) ?p ?p \<longleftrightarrow> pr = r \<and> cr = slot_out_root P s" for pr cr
    using ok(1,3) limbs_0
    by (cases "sl_exists_out s")
       (auto simp: ast_update asset_in_ast merkle_wires_of slot_out_root_def ast_leaf_circuit_def select_hash AST_DEFAULT_LEAF_def ZERO_hash_def)
  then show thesis
    using ws
    by (intro that [of "\<lparr>s_asset_id = ?x, s_withdrawal_amt = U256Target_set (sl_withdrawal_amt s), s_accin_amt = ?in, s_accout_amt = ?out,
          s_exists_in = sl_exists_in s, s_exists_out = sl_exists_out s, s_in_merkle = ?p, s_out_merkle = ?p, s_sum = ws\<rparr>"])
       (simp_all add: slot_fill_wires_def assert_slot_def)
qed

lemma slots_filled:
  assumes "slots_ok P r ss r'"
  obtains slots where "collect_r slot_fill_wires ss = Inr slots" "length slots = length ss"
    "map s_asset_id slots = map sl_asset_id ss" "map s_withdrawal_amt slots = map (U256Target_set \<circ> sl_withdrawal_amt) ss"
    "list_all (\<lambda>s. length (s_withdrawal_amt s) = 8 \<and> length (s_accin_amt s) = 8 \<and> length (s_accout_amt s) = 8) slots"
    "\<And>i pr cr. i < length ss \<Longrightarrow> assert_slot P (slots ! i) pr cr \<longleftrightarrow>
       pr = (if i = 0 then r else slot_after P (ss ! (i - 1))) \<and> cr = slot_out_root P (ss ! i)"
proof -
  define f where "f i = projr (slot_fill_wires (ss ! i))" for i
  have f: "slot_fill_wires (ss ! i) = Inr (f i)" "s_asset_id (f i) = sl_asset_id (ss ! i)"
      "s_withdrawal_amt (f i) = U256Target_set (sl_withdrawal_amt (ss ! i))"
      "length (s_withdrawal_amt (f i)) = 8" "length (s_accin_amt (f i)) = 8" "length (s_accout_amt (f i)) = 8"
      "assert_slot P (f i) pr cr \<longleftrightarrow> pr = (if i = 0 then r else slot_after P (ss ! (i - 1))) \<and> cr = slot_out_root P (ss ! i)"
    if "i < length ss" for i pr cr
    by (rule slot_filled [OF slots_ok_nth [OF assms that]]; simp add: f_def)+
  let ?ws = "map f [0..<length ss]"
  have n: "?ws ! i = f i" if "i < length ss" for i using that by simp
  show thesis
  proof (rule that [of ?ws])
    show "collect_r slot_fill_wires ss = Inr ?ws" using f(1) by (simp add: collect_r_Inr)
    show "map s_asset_id ?ws = map sl_asset_id ss" "map s_withdrawal_amt ?ws = map (U256Target_set \<circ> sl_withdrawal_amt) ss"
      using f(2,3) by (auto intro!: nth_equalityI)
    show "list_all (\<lambda>s. length (s_withdrawal_amt s) = 8 \<and> length (s_accin_amt s) = 8 \<and> length (s_accout_amt s) = 8) ?ws"
      using f(4-6) by (auto simp: list_all_iff)
    show "assert_slot P (?ws ! i) pr cr \<longleftrightarrow> pr = (if i = 0 then r else slot_after P (ss ! (i - 1))) \<and> cr = slot_out_root P (ss ! i)"
      if "i < length ss" for i pr cr
      unfolding n [OF that] by (rule f(7) [OF that])
  qed simp
qed

definition chained :: "hasher \<Rightarrow> slot_data list \<Rightarrow> bool" where
  "chained P ss \<longleftrightarrow> list_all (\<lambda>s. slot_out_root P s = slot_after P s) ss"

lemma kept_chained: "slots_ok P r ss r' \<Longrightarrow> list_all (\<lambda>s. sl_exists_in s \<longrightarrow> sl_accout_amt s \<noteq> 0) ss \<Longrightarrow> chained P ss"
proof (induction ss arbitrary: r)
  case (Cons s ss)
  then have "sl_exists_out s \<longleftrightarrow> sl_exists_in s" by (auto simp: slot_ok_def)
  then have "slot_out_root P s = slot_after P s" by (simp add: slot_out_root_def slot_after_def)
  moreover have "chained P ss" using Cons by auto
  ultimately show ?case by (simp add: chained_def)
qed (simp add: chained_def)

lemma chained_slots:
  assumes ok: "slots_ok P r ss r'" and len: "length ss = NOTE_BATCH"
    and before: "\<And>i. before i = (if i = 0 then r else map (slot_out_root P) (take (NOTE_BATCH - 1) ss) ! (i - 1))"
    and after: "\<And>i. after i = (if i < NOTE_BATCH - 1 then map (slot_out_root P) (take (NOTE_BATCH - 1) ss) ! i else r')"
    and slots: "\<And>i pr cr. i < length ss \<Longrightarrow> assert_slot P (slots ! i) pr cr \<longleftrightarrow>
       pr = (if i = 0 then r else slot_after P (ss ! (i - 1))) \<and> cr = slot_out_root P (ss ! i)"
  shows "list_all (\<lambda>i. assert_slot P (slots ! i) (before i) (after i)) [0..<NOTE_BATCH] \<longleftrightarrow> chained P ss"
proof -
  let ?e = "\<lambda>i. slot_out_root P (ss ! i) = slot_after P (ss ! i)"
  have last: "slot_after P (ss ! (NOTE_BATCH - 1)) = r'"
    using slots_ok_last [OF ok] len by (cases "ss = []") (auto simp: last_conv_nth NOTE_BATCH_def)
  have each: "assert_slot P (slots ! i) (before i) (after i) \<longleftrightarrow> (0 < i \<longrightarrow> ?e (i - 1)) \<and> (i = NOTE_BATCH - 1 \<longrightarrow> ?e i)"
    if "i < NOTE_BATCH" for i
  proof (cases "i < NOTE_BATCH - 1")
    case False
    then have "i = NOTE_BATCH - 1" using that by simp
    then show ?thesis unfolding slots [OF that [folded len]] before after using len last by (auto simp: nth_take NOTE_BATCH_def)
  qed (use that len in \<open>auto simp: slots before after nth_take\<close>)
  have "list_all (\<lambda>i. assert_slot P (slots ! i) (before i) (after i)) [0..<NOTE_BATCH] \<longleftrightarrow>
      (\<forall>i < NOTE_BATCH. (0 < i \<longrightarrow> ?e (i - 1)) \<and> (i = NOTE_BATCH - 1 \<longrightarrow> ?e i))"
    using each by (auto simp: list_all_iff)
  also have "\<dots> \<longleftrightarrow> (\<forall>i < NOTE_BATCH. ?e i)"
  proof (intro iffI allI impI)
    fix i assume all: "\<forall>i < NOTE_BATCH. (0 < i \<longrightarrow> ?e (i - 1)) \<and> (i = NOTE_BATCH - 1 \<longrightarrow> ?e i)" and i: "i < NOTE_BATCH"
    show "?e i"
      using all i spec [OF all, of "Suc i"] by (cases "i = NOTE_BATCH - 1") auto
  qed (auto simp: NOTE_BATCH_def)
  also have "\<dots> \<longleftrightarrow> chained P ss" by (simp add: chained_def list_all_length len)
  finally show ?thesis .
qed

lemma withdraw_prove_filled:
  assumes accs: "bw_accin bt = acc" "consume_config acc \<longleftrightarrow> consume_pk acc \<noteq> None" "unat (nonce acc) + 1 < unat GOLDILOCKS_PRIME"
    and run: "compute_withdrawal_slots P acc (bw_withdrawals bt) = (Inr (ss, out) :: (prove_error, slot_data list \<times> account) result)"
    and out: "out = (clone_with_incremented_nonce acc)\<lparr>ast := a'\<rparr>"
    and roots: "ast_root P (ast acc) = Inr r" "ast_root P a' = Inr r'" and ok: "slots_ok P r ss r'" and len: "length ss = NOTE_BATCH"
    and act: "\<And>c. account_commitment P acc = Inr c \<Longrightarrow> conditional_merkle_verify_gadget P c (bw_state_root bt)
       (bw_not_fake_tx bt) STATE_TREE_DEPTH (merkle_set_witness (bw_accin_act_merkle_proof bt))"
    and sub: "assert_subpool_full_proof P (subpool_id acc) (bw_approval_key bt) (bw_main_pool_root bt)
      (bw_not_fake_tx bt) (merkle_set_witness (main_pool_proof (bw_subpool_proof bt)))"
    and dig: "account_nullifier P acc = Inr an" "account_commitment P out = Inr ac"
    and h: "h = derive_withdraw_tx_hash P an ac (map sl_asset_id ss) (map sl_withdrawal_amt ss) (bw_addr bt)"
    and sigs: "sig_fill set_sig set_dummy (bw_approval_key bt) h (bw_approval_sig bt) = Inr s1"
      "sig_fill set_sig set_dummy (spend_pk_or_default acc) h (bw_spend_sig bt) = Inr s2"
  shows "withdraw_prove P S set_sig set_dummy bt =
    (if chained P ss \<and> S (bw_not_fake_tx bt) h (bw_approval_key bt) s1 \<and> S (bw_not_fake_tx bt) h (spend_pk_or_default acc) s2
     then Inr (register_withdraw
       \<lparr>xp_root = bw_state_root bt, xp_mainpool_config_root = bw_main_pool_root bt, xp_not_fake_tx = bw_not_fake_tx bt,
        xp_accin_null = an, xp_accout_comm = ac, xp_asset_ids = map sl_asset_id ss,
        xp_withdrawal_amts = map (u256_limbs \<circ> sl_withdrawal_amt) ss, xp_w_acc_addr = map_h160_to_f (bw_addr bt)\<rparr>)
     else Inl (Err (ProofGenerationFailed Unsatisfied_constraints)))"
proof -
  obtain tin where tin: "account_set_witness P acc = Inr tin" "t_acc_ast_root tin = r"
      "t_private_identifier tin = private_identifier acc" "t_subpool_id tin = subpool_id acc" "t_nonce tin = nonce acc"
      "t_spend_auth tin = spend_pk_or_default acc" "t_consume_config tin = consume_config acc" "t_consume_pk tin = consume_pk_or_default acc"
    using roots(1) by (rule account_wires)
  have ast_out: "ast_root P (ast out) = Inr r'" using roots(2) by (simp add: out)
  obtain tout where tout: "account_set_witness P out = Inr tout" "t_acc_ast_root tout = r'" using account_wires [OF ast_out] by metis
  have auth: "consume_config out \<longleftrightarrow> consume_pk out \<noteq> None" using accs(2) by (simp add: out clone_with_incremented_nonce_def)
  have commit: "account_commitment P acc = Inr (derive_account_commitment P tin)" using tin(1) accs(2) by (rule commitment_wire)
  have ac: "derive_account_commitment P tout = ac" using commitment_wire [OF tout(1) auth] dig(2) by simp
  have inv: "assert_account_invariants_simple tin tout"
    using tin(1) tout(1) roots nonce_wire [OF accs(3)]
    by (auto simp: out assert_account_invariants_simple_def account_set_witness_def result_simps
        clone_with_incremented_nonce_def spend_pk_or_default_def consume_pk_or_default_def)
  have an: "derive_account_nullifier P (derive_account_commitment P tin) (derive_nullifier_key P (t_private_identifier tin)) = an"
    using dig(1) commit by (simp add: tin key_derivations derive_account_nullifier_def account_nullifier_def)
  obtain slots where sl: "collect_r slot_fill_wires ss = Inr slots" "length slots = length ss"
    "map s_asset_id slots = map sl_asset_id ss" "map s_withdrawal_amt slots = map (U256Target_set \<circ> sl_withdrawal_amt) ss"
    "list_all (\<lambda>s. length (s_withdrawal_amt s) = 8 \<and> length (s_accin_amt s) = 8 \<and> length (s_accout_amt s) = 8) slots"
    and each: "\<And>i pr cr. i < length ss \<Longrightarrow> assert_slot P (slots ! i) pr cr \<longleftrightarrow>
       pr = (if i = 0 then r else slot_after P (ss ! (i - 1))) \<and> cr = slot_out_root P (ss ! i)"
    using slots_filled [OF ok] by blast
  define w where "w = \<lparr>x_not_fake_tx = bw_not_fake_tx bt, x_approval_key = bw_approval_key bt, x_root = bw_state_root bt,
          x_mainpool_config_root = bw_main_pool_root bt, x_accin = tin, x_accout = tout, x_slots = slots,
          x_intermediate_roots = map (slot_out_root P) (take (NOTE_BATCH - 1) ss), x_w_acc_addr = map_h160_to_f (bw_addr bt),
          x_accin_act_merkle = merkle_set_witness (bw_accin_act_merkle_proof bt),
          x_main_pool_proof = merkle_set_witness (main_pool_proof (bw_subpool_proof bt)),
          x_approval_sig = s1, x_spend_sig = s2\<rparr>"
  have wn: "x_accin_null P w = an" by (simp add: x_accin_null_def w_def an)
  have hash: "x_tx_hash P w = h"
    unfolding x_tx_hash_def wn by (simp add: w_def ac sl(3,4) map_map [symmetric] bridge_derivations h del: map_map)
  have chain: "list_all (\<lambda>i. assert_slot P (slots ! i) (x_prev_root w i) (x_curr_root w i)) [0..<NOTE_BATCH] \<longleftrightarrow> chained P ss"
    by (rule chained_slots [OF ok len _ _ each]) (simp_all add: x_prev_root_def x_curr_root_def w_def tin tout)
  have arity: "withdraw_arity w" using sl(2,5) len by (simp add: withdraw_arity_def w_def)
  have circuit: "withdraw_tx_circuit P S w \<longleftrightarrow>
      chained P ss \<and> S (bw_not_fake_tx bt) h (bw_approval_key bt) s1 \<and> S (bw_not_fake_tx bt) h (spend_pk_or_default acc) s2"
    using arity act [OF commit] sub inv chain unfolding withdraw_tx_circuit_def hash by (simp add: w_def tin)
  have pub: "x_public P w = \<lparr>xp_root = bw_state_root bt, xp_mainpool_config_root = bw_main_pool_root bt, xp_not_fake_tx = bw_not_fake_tx bt,
        xp_accin_null = an, xp_accout_comm = ac, xp_asset_ids = map sl_asset_id ss,
        xp_withdrawal_amts = map (u256_limbs \<circ> sl_withdrawal_amt) ss, xp_w_acc_addr = map_h160_to_f (bw_addr bt)\<rparr>"
    unfolding x_public_def wn by (simp add: w_def ac sl(3,4) U256Target_set_limbs comp_def)
  have "withdraw_prove P S set_sig set_dummy bt =
    (if withdraw_tx_circuit P S w then Inr (register_withdraw (x_public P w)) else Inl (Err (ProofGenerationFailed Unsatisfied_constraints)))"
    by (simp add: withdraw_prove_def accs(1) run tin(1) tout(1) sl(1) dig h [symmetric] sigs Let_def w_def)
  then show ?thesis unfolding circuit pub .
qed

end
