(* ===== verification/Withdraw_Tx.thy ===== *)
theory Withdraw_Tx
  imports Withdraw_Builder
begin

section \<open>Withdrawals from the builder to the proof\<close>

text \<open>
  The theorems about withdrawals: the outcome of building for every list of withdrawals, the
  proof of a withdrawal that leaves a rest of every asset, and why a withdrawal of a whole balance
  cannot be proved. The balance tree is assumed to have a free leaf, at which the unused slots open.
\<close>

inductive withdraw_builds :: "account \<Rightarrow> bytes \<Rightarrow> withdraw_builder \<Rightarrow> bool" for accin addr where
  start: "withdraw_new accin addr = Inr b \<Longrightarrow> withdraw_builds accin addr b"
| add: "withdraw_builds accin addr b \<Longrightarrow> add_withdrawal asset amount b = Inr b' \<Longrightarrow> withdraw_builds accin addr b'"

lemma withdraw_invariant:
  "withdraw_builds accin addr b \<Longrightarrow>
    wb_accin b = accin \<and> wb_addr b = addr \<and> nonce accin \<noteq> 0 \<and> length (wb_withdrawals b) \<le> NOTE_BATCH"
  by (induction rule: withdraw_builds.induct)
     (auto simp: withdraw_new_def add_withdrawal_def split: if_splits)

lemma check_balances_find:
  "check_balances a ws = (case find (\<lambda>w. balance_of a (fst w) < snd w) ws of
     Some w \<Rightarrow> Inl (Err (WithdrawInsufficientBalance (fst w) (balance_of a (fst w)) (snd w))) | None \<Rightarrow> Inr ())"
  by (induction ws) auto

lemma compute_outcome:
  assumes "ast_ok P (ast acc)" "ast_size (ast acc) < 2 ^ ACC_AST_DEPTH" "length ws \<le> NOTE_BATCH"
  shows "let res = compute_withdrawal_slots P acc ws :: ('e, slot_data list \<times> account) result in
    if covered (ast acc) ws
    then \<exists>ss a'. res = Inr (ss, (clone_with_incremented_nonce acc)\<lparr>ast := a'\<rparr>)
      \<and> slots_summary P (ast acc) ws (NOTE_BATCH - length ws) ss a'
    else \<exists>q. res = Inl (Panic q)"
proof -
  obtain es where rep: "ast_rep P (ast acc) ((0, 0) # es)" using assms(1) by (auto simp: ast_ok_def)
  have room: "Suc (length es) < 2 ^ ACC_AST_DEPTH" using assms(2) ast_rep_sel(2) [OF rep] by simp
  show ?thesis
    using slots_run [OF rep room _ assms(3), of 0, where 'e = 'e]
    by (auto simp: compute_withdrawal_slots_def Let_def clone_with_incremented_nonce_def split: if_splits)
qed

lemma summary_length: "slots_summary P a ws n ss a' \<Longrightarrow> length ss = length ws + n"
proof -
  assume "slots_summary P a ws n ss a'"
  then have "map sl_asset_id ss = map fst ws @ replicate n 0" by (simp add: slots_summary_def)
  then have "length (map sl_asset_id ss) = length (map fst ws @ replicate n 0)" by (rule arg_cong)
  then show ?thesis by simp
qed

definition withdraw_attach ::
  "hash_output merkle_proof \<Rightarrow> subpool_full_proof \<Rightarrow> 'g \<Rightarrow> 'g \<Rightarrow> 'g built_real_withdraw \<Rightarrow> 'g built_real_withdraw" where
  "withdraw_attach ap sp g1 g2 tx =
     (withdraw_subpool_proof sp (withdraw_account_path ap tx))\<lparr>rw_approval_sig := Some g1, rw_spend_sig := Some g2\<rparr>"

lemma withdraw_attached:
  assumes "rw_accin tx = accin" "rw_withdrawals tx = ws" "rw_addr tx = addr"
  obtains bt where "into_withdraw_tx (withdraw_attach ap sp g1 g2 tx) = Inr bt" "bw_not_fake_tx bt" "bw_accin bt = accin"
    "bw_withdrawals bt = ws" "bw_addr bt = addr" "bw_approval_key bt = approval_key (sp_config sp)" "bw_state_root bt = proof_root ap"
    "bw_main_pool_root bt = proof_root (main_pool_proof sp)" "bw_accin_act_merkle_proof bt = ap" "bw_subpool_proof bt = sp"
    "bw_approval_sig bt = Some g1" "bw_spend_sig bt = Some g2"
proof -
  obtain bt where "into_withdraw_tx (withdraw_attach ap sp g1 g2 tx) = Inr bt"
    by (simp add: into_withdraw_tx_def withdraw_attach_def withdraw_subpool_proof_def withdraw_account_path_def)
  moreover from this have "bw_not_fake_tx bt" "bw_accin bt = accin"
    "bw_withdrawals bt = ws" "bw_addr bt = addr" "bw_approval_key bt = approval_key (sp_config sp)" "bw_state_root bt = proof_root ap"
    "bw_main_pool_root bt = proof_root (main_pool_proof sp)" "bw_accin_act_merkle_proof bt = ap" "bw_subpool_proof bt = sp"
    "bw_approval_sig bt = Some g1" "bw_spend_sig bt = Some g2"
    using assms
    by (auto simp: into_withdraw_tx_def withdraw_attach_def withdraw_subpool_proof_def withdraw_account_path_def)
  ultimately show thesis by (rule that)
qed

text \<open>The slots do not depend on the error type of the caller.\<close>

lemma slot_any: "(withdrawal_slot P ws i a :: ('e, _) result) = Inr x \<Longrightarrow> (withdrawal_slot P ws i a :: ('f, _) result) = Inr x"
  by (auto simp: withdrawal_slot_def u256_sub_def result_simps split: if_splits prod.splits option.splits)

lemma slots_any: "(withdrawal_slots P ws is a :: ('e, _) result) = Inr x \<Longrightarrow> (withdrawal_slots P ws is a :: ('f, _) result) = Inr x"
proof (induction "is" arbitrary: a x)
  case (Cons i "is")
  from Cons.prems obtain s a1 ss where "(withdrawal_slot P ws i a :: ('e, _) result) = Inr (s, a1)" "x = (s # fst ss, snd ss)"
    "(withdrawal_slots P ws is a1 :: ('e, _) result) = Inr ss"
    by (auto simp: result_simps)
  with Cons.IH [of a1 ss] slot_any [of P ws i a "(s, a1)", where 'e = 'e and 'f = 'f] show ?case by (cases ss) simp
qed simp

lemma compute_any:
  "(compute_withdrawal_slots P acc ws :: ('e, _) result) = Inr x \<Longrightarrow> (compute_withdrawal_slots P acc ws :: ('f, _) result) = Inr x"
  by (auto simp: compute_withdrawal_slots_def result_simps slots_any [where 'e = 'e and 'f = 'f])

lemma withdraw_build_success:
  assumes b: "withdraw_builds accin addr b" and acc: "ast_ok P (ast accin)" "ast_size (ast accin) < 2 ^ ACC_AST_DEPTH"
    and run: "withdraw_build P b = (Inr tx :: (withdraw_error, 'g built_real_withdraw) result)" and ws: "ws = wb_withdrawals b"
  obtains ss a' an ac where
    "compute_withdrawal_slots P accin ws = (Inr (ss, rw_accout tx) :: (prove_error, slot_data list \<times> account) result)"
    "slots_summary P (ast accin) ws (NOTE_BATCH - length ws) ss a'" "length ss = NOTE_BATCH"
    "rw_accout tx = (clone_with_incremented_nonce accin)\<lparr>ast := a'\<rparr>" "rw_accin tx = accin" "rw_withdrawals tx = ws" "rw_addr tx = addr"
    "account_nullifier P accin = Inr an" "account_commitment P (rw_accout tx) = Inr ac"
    "rw_tx_hash tx = derive_withdraw_tx_hash P an ac (map sl_asset_id ss) (map sl_withdrawal_amt ss) addr"
proof -
  note inv = withdraw_invariant [OF b]
  have len: "length ws \<le> NOTE_BATCH" using inv ws by simp
  obtain ss accout an ac where
    res: "compute_withdrawal_slots P accin ws = (Inr (ss, accout) :: (withdraw_error, slot_data list \<times> account) result)"
    and dig: "account_nullifier P accin = Inr an" "account_commitment P accout = Inr ac"
    and tx: "tx = \<lparr>rw_accin = accin, rw_accout = accout, rw_withdrawals = ws, rw_addr = addr,
           rw_tx_hash = derive_withdraw_tx_hash P an ac (map sl_asset_id ss) (map sl_withdrawal_amt ss) addr,
           rw_approval_sig = None, rw_spend_sig = None, rw_accin_proof = None, rw_subpool_proof = None\<rparr>"
    using run inv by (auto simp: withdraw_build_def ws result_simps split: if_splits)
  obtain a' where "accout = (clone_with_incremented_nonce accin)\<lparr>ast := a'\<rparr>" "slots_summary P (ast accin) ws (NOTE_BATCH - length ws) ss a'"
    using compute_outcome [OF acc len, where 'e = withdraw_error] res by (auto simp: Let_def split: if_splits)
  then show thesis
    using that [of ss a' an ac] compute_any [OF res, where 'f = prove_error] dig tx summary_length len by fastforce
qed

text \<open>Proving an attached withdrawal: the two signatures, and slots whose roots are chained.\<close>

lemma attached_withdraw_proves:
  assumes b: "withdraw_builds accin addr b" and acc: "ast_ok P (ast accin)" "ast_size (ast accin) < 2 ^ ACC_AST_DEPTH"
    and run: "withdraw_build P b = (Inr tx :: (withdraw_error, 'g built_real_withdraw) result)" and ws: "ws = wb_withdrawals b"
    and consume: "consume_config accin \<longleftrightarrow> consume_pk accin \<noteq> None" and nonce: "unat (nonce accin) + 1 < unat GOLDILOCKS_PRIME"
    and paths: "account_path_ok P accin ap" "subpool_path_ok P (subpool_id accin) sp"
    and sigs: "set_sig (approval_key (sp_config sp)) (rw_tx_hash tx) g1 = Inr s1" "set_sig (spend_pk_or_default accin) (rw_tx_hash tx) g2 = Inr s2"
  shows "\<exists>ss an ac bt r r'. compute_withdrawal_slots P accin ws = (Inr (ss, rw_accout tx) :: (prove_error, slot_data list \<times> account) result)
    \<and> slots_ok P r ss r'
    \<and> (list_all (\<lambda>s. sl_exists_in s \<longrightarrow> sl_accout_amt s \<noteq> 0) ss \<longleftrightarrow> leaves_rest (ast accin) ws)
    \<and> account_nullifier P accin = Inr an
    \<and> account_commitment P (rw_accout tx) = Inr ac
    \<and> into_withdraw_tx (withdraw_attach ap sp g1 g2 tx) = Inr bt
    \<and> withdraw_prove P S set_sig set_dummy bt =
      (if chained P ss \<and> S True (rw_tx_hash tx) (approval_key (sp_config sp)) s1 \<and> S True (rw_tx_hash tx) (spend_pk_or_default accin) s2
       then Inr (register_withdraw
         \<lparr>xp_root = proof_root ap, xp_mainpool_config_root = proof_root (main_pool_proof sp), xp_not_fake_tx = True,
          xp_accin_null = an, xp_accout_comm = ac, xp_asset_ids = map fst ws @ replicate (NOTE_BATCH - length ws) 0,
          xp_withdrawal_amts = map u256_limbs (map snd ws @ replicate (NOTE_BATCH - length ws) 0), xp_w_acc_addr = map_h160_to_f addr\<rparr>)
       else Inl (Err (ProofGenerationFailed Unsatisfied_constraints)))"
proof -
  obtain ss a' an ac where
    comp: "compute_withdrawal_slots P accin ws = (Inr (ss, rw_accout tx) :: (prove_error, slot_data list \<times> account) result)"
    and sum: "slots_summary P (ast accin) ws (NOTE_BATCH - length ws) ss a'" and len: "length ss = NOTE_BATCH"
    and out: "rw_accout tx = (clone_with_incremented_nonce accin)\<lparr>ast := a'\<rparr>" and tx: "rw_accin tx = accin" "rw_withdrawals tx = ws" "rw_addr tx = addr"
    and dig: "account_nullifier P accin = Inr an" "account_commitment P (rw_accout tx) = Inr ac"
    and h: "rw_tx_hash tx = derive_withdraw_tx_hash P an ac (map sl_asset_id ss) (map sl_withdrawal_amt ss) addr"
    by (rule withdraw_build_success [OF b acc run ws])
  obtain bt where bt: "into_withdraw_tx (withdraw_attach ap sp g1 g2 tx) = Inr bt" "bw_not_fake_tx bt" "bw_accin bt = accin"
    "bw_withdrawals bt = ws" "bw_addr bt = addr" "bw_approval_key bt = approval_key (sp_config sp)" "bw_state_root bt = proof_root ap"
    "bw_main_pool_root bt = proof_root (main_pool_proof sp)" "bw_accin_act_merkle_proof bt = ap" "bw_subpool_proof bt = sp"
    "bw_approval_sig bt = Some g1" "bw_spend_sig bt = Some g2"
    using tx by (rule withdraw_attached)
  obtain r r' where roots: "ast_root P (ast accin) = Inr r" "ast_root P a' = Inr r'" and ok: "slots_ok P r ss r'"
    using sum by (auto simp: slots_summary_def split: sum.splits)
  have maps: "map sl_asset_id ss = map fst ws @ replicate (NOTE_BATCH - length ws) 0"
    "map (u256_limbs \<circ> sl_withdrawal_amt) ss = map u256_limbs (map snd ws @ replicate (NOTE_BATCH - length ws) 0)"
    using sum by (simp_all add: slots_summary_def flip: map_map)
  have act: "conditional_merkle_verify_gadget P c (proof_root ap) True STATE_TREE_DEPTH (merkle_set_witness ap)"
    if "account_commitment P accin = Inr c" for c
    using paths(1) that by (intro path_ok_gadget) (simp add: account_path_ok_def)
  have "withdraw_prove P S set_sig set_dummy bt =
    (if chained P ss \<and> S (bw_not_fake_tx bt) (rw_tx_hash tx) (bw_approval_key bt) s1 \<and> S (bw_not_fake_tx bt) (rw_tx_hash tx) (spend_pk_or_default accin) s2
     then Inr (register_withdraw
       \<lparr>xp_root = bw_state_root bt, xp_mainpool_config_root = bw_main_pool_root bt, xp_not_fake_tx = bw_not_fake_tx bt,
        xp_accin_null = an, xp_accout_comm = ac, xp_asset_ids = map sl_asset_id ss,
        xp_withdrawal_amts = map (u256_limbs \<circ> sl_withdrawal_amt) ss, xp_w_acc_addr = map_h160_to_f (bw_addr bt)\<rparr>)
     else Inl (Err (ProofGenerationFailed Unsatisfied_constraints)))"
    by (rule withdraw_prove_filled [OF bt(3) consume nonce _ out roots ok len _ _ dig])
       (use comp act honest_subpool [OF paths(2)] h sigs in \<open>simp_all add: bt sig_fill_def\<close>)
  note prove = this [unfolded maps bt(5-8) eqTrueI [OF bt(2)]]
  have rest: "list_all (\<lambda>s. sl_exists_in s \<longrightarrow> sl_accout_amt s \<noteq> 0) ss \<longleftrightarrow> leaves_rest (ast accin) ws"
    using sum by (simp add: slots_summary_def)
  show ?thesis by (intro exI conjI) (rule comp ok rest dig bt(1) prove)+
qed

subsection \<open>Properties\<close>

lemma slots_ok_member: "slots_ok P r ss r' \<Longrightarrow> s \<in> set ss \<Longrightarrow> \<exists>r. slot_ok P r s"
  by (induction ss arbitrary: r) auto

lemma emptied_slot:
  assumes "\<exists>r. slot_ok P r s" "sl_exists_in s" "sl_accout_amt s = 0" "slot_out_root P s = slot_after P s"
  shows "let leaf0 = P ([DS_ACC_AST_LEAF, sl_asset_id s] @ u256_limbs 0);
           hit = find_collision (hash_output_hash P) ZERO_hash leaf0 (zip (path (sl_proof s)) (zip (siblings (sl_proof s)) (siblings (sl_proof s)))) in
       leaf0 = ZERO_hash \<or> (\<exists>l r l' r'. hit = Some ((l, r), (l', r')) \<and> (l, r) \<noteq> (l', r') \<and> P (elems l @ elems r) = P (elems l' @ elems r'))"
proof -
  let ?leaf = "P ([DS_ACC_AST_LEAF, sl_asset_id s] @ u256_limbs 0)" and ?p = "sl_proof s"
  let ?hit = "find_collision (hash_output_hash P) ZERO_hash ?leaf (zip (path ?p) (zip (siblings ?p) (siblings ?p)))"
  obtain r where ok: "slot_ok P r s" using assms(1) by blast
  have len: "length (siblings ?p) = length (path ?p)"
    using ok by (auto simp: slot_ok_def ast_update asset_in_ast merkle_wires_of)
  have "\<not> sl_exists_out s" using ok assms(3) by (simp add: slot_ok_def)
  then have same: "fold_path (hash_output_hash P) ZERO_hash (path ?p) (siblings ?p) = fold_path (hash_output_hash P) ?leaf (path ?p) (siblings ?p)"
    using assms(2-4)
    by (simp add: slot_out_root_def slot_after_def ast_leaf_circuit_def select_hash AST_DEFAULT_LEAF_def ZERO_hash_def U256Target_set_limbs)
  have "ZERO_hash = ?leaf" if "?hit = None" by (rule hash_output.collision_or_equal [OF same len len that])
  moreover have "(l, r) \<noteq> (l', r') \<and> P (elems l @ elems r) = P (elems l' @ elems r')" if "?hit = Some ((l, r), (l', r'))" for l r l' r'
    using hash_output.find_collision_ok [OF that] by (simp add: hash_output_hash_def)
  ultimately show ?thesis by (cases ?hit) (auto simp: Let_def)
qed

lemma withdraw_build_covered:
  assumes b: "withdraw_builds accin addr b" and acc: "ast_ok P (ast accin)" "ast_size (ast accin) < 2 ^ ACC_AST_DEPTH"
    and consume: "consume_config accin \<longrightarrow> consume_pk accin \<noteq> None" and ws: "ws = wb_withdrawals b" "ws \<noteq> []"
    and fine: "find (\<lambda>w. balance_of (ast accin) (fst w) < snd w) ws = None" "covered (ast accin) ws"
  shows "\<exists>tx an ac. withdraw_build P b = (Inr tx :: (withdraw_error, 'g built_real_withdraw) result)
    \<and> rw_accin tx = accin \<and> rw_withdrawals tx = ws \<and> rw_addr tx = addr
    \<and> rw_accout tx = (clone_with_incremented_nonce accin)\<lparr>ast := ast (rw_accout tx)\<rparr> \<and> ast_ok P (ast (rw_accout tx))
    \<and> amount_for (ast (rw_accout tx)) = reduced (ast accin) ws
    \<and> account_nullifier P accin = Inr an \<and> account_commitment P (rw_accout tx) = Inr ac
    \<and> rw_tx_hash tx = derive_withdraw_tx_hash P an ac (map fst ws @ replicate (NOTE_BATCH - length ws) 0)
        (map snd ws @ replicate (NOTE_BATCH - length ws) 0) addr"
proof -
  note inv = withdraw_invariant [OF b]
  obtain es where rep: "ast_rep P (ast accin) ((0, 0) # es)" using acc(1) by (auto simp: ast_ok_def)
  have len: "length ws \<le> NOTE_BATCH" using inv ws by simp
  have check: "check_balances (ast accin) ws = Inr ()" using fine(1) by (simp add: check_balances_find)
  obtain ss a' where run: "compute_withdrawal_slots P accin ws =
      (Inr (ss, (clone_with_incremented_nonce accin)\<lparr>ast := a'\<rparr>) :: (withdraw_error, slot_data list \<times> account) result)"
    and sum: "slots_summary P (ast accin) ws (NOTE_BATCH - length ws) ss a'"
    using compute_outcome [OF acc len, where 'e = withdraw_error, unfolded Let_def] fine(2) by auto
  let ?out = "(clone_with_incremented_nonce accin)\<lparr>ast := a'\<rparr>"
  obtain es' where rep': "ast_rep P (ast ?out) ((0, 0) # es')" using sum by (auto simp: slots_summary_def ast_ok_def)
  obtain an where an: "account_nullifier P accin = Inr an" using account_digests [OF rep consume] by blast
  have "consume_config ?out \<longrightarrow> consume_pk ?out \<noteq> None" using consume by (simp add: clone_with_incremented_nonce_def)
  then obtain ac where ac: "account_commitment P ?out = Inr ac" using account_digests [OF rep'] by blast
  from ws check run an ac inv have "(withdraw_build P b :: (withdraw_error, 'g built_real_withdraw) result) =
    Inr \<lparr>rw_accin = accin, rw_accout = ?out, rw_withdrawals = ws, rw_addr = addr,
       rw_tx_hash = derive_withdraw_tx_hash P an ac (map sl_asset_id ss) (map sl_withdrawal_amt ss) addr,
       rw_approval_sig = None, rw_spend_sig = None, rw_accin_proof = None, rw_subpool_proof = None\<rparr>"
    by (simp add: withdraw_build_def)
  then show ?thesis using an ac sum by (simp add: slots_summary_def)
qed

text \<open>
  C10. Every outcome of building a withdrawal. Without withdrawals, or when one of them exceeds the
  balance it names, the builder reports it, the first one in order. Otherwise it succeeds exactly
  when every withdrawn asset is tracked, not the reserved one, and its balance covers the sum of
  the withdrawals that name it: the output account has the next nonce and the balances reduced
  by these sums, and the transaction hash is over the padded slots. In every other case, such as
  two withdrawals of an asset that are each but not together covered, building panics.
\<close>

theorem withdraw_build_outcome:
  assumes b: "withdraw_builds accin addr b" and acc: "ast_ok P (ast accin)" "ast_size (ast accin) < 2 ^ ACC_AST_DEPTH"
    and consume: "consume_config accin \<longrightarrow> consume_pk accin \<noteq> None" and ws: "ws = wb_withdrawals b"
  shows "let res = withdraw_build P b :: (withdraw_error, 'g built_real_withdraw) result; pad = replicate (NOTE_BATCH - length ws) 0 in
    if ws = [] then res = Inl (Err NoWithdrawals)
    else case find (\<lambda>w. balance_of (ast accin) (fst w) < snd w) ws of
        Some w \<Rightarrow> res = Inl (Err (WithdrawInsufficientBalance (fst w) (balance_of (ast accin) (fst w)) (snd w)))
      | None \<Rightarrow>
        if covered (ast accin) ws
        then \<exists>tx an ac. res = Inr tx \<and> rw_accin tx = accin \<and> rw_withdrawals tx = ws \<and> rw_addr tx = addr
          \<and> rw_accout tx = (clone_with_incremented_nonce accin)\<lparr>ast := ast (rw_accout tx)\<rparr> \<and> ast_ok P (ast (rw_accout tx))
          \<and> amount_for (ast (rw_accout tx)) = reduced (ast accin) ws
          \<and> account_nullifier P accin = Inr an \<and> account_commitment P (rw_accout tx) = Inr ac
          \<and> rw_tx_hash tx = derive_withdraw_tx_hash P an ac (map fst ws @ pad) (map snd ws @ replicate (NOTE_BATCH - length ws) 0) addr
        else \<exists>q. res = Inl (Panic q)"
proof -
  note inv = withdraw_invariant [OF b]
  have len: "length ws \<le> NOTE_BATCH" using inv ws by simp
  note comp = compute_outcome [OF acc len, where 'e = withdraw_error, unfolded Let_def]
  show ?thesis
  proof (cases "ws = [] \<or> find (\<lambda>w. balance_of (ast accin) (fst w) < snd w) ws \<noteq> None")
    case True
    then show ?thesis using inv by (auto simp: withdraw_build_def ws check_balances_find Let_def)
  next
    case False
    then have ok: "ws \<noteq> []" "find (\<lambda>w. balance_of (ast accin) (fst w) < snd w) ws = None" by blast+
    then have check: "check_balances (ast accin) ws = Inr ()" by (simp add: check_balances_find)
    show ?thesis
    proof (cases "covered (ast accin) ws")
      case True
      with withdraw_build_covered [OF b acc consume ws ok True, where 'g = 'g] show ?thesis
        unfolding Let_def if_not_P [OF ok(1)] if_P [OF True] ok(2) option.case by blast
    next
      case False
      then show ?thesis using comp ok check inv by (auto simp: withdraw_build_def ws Let_def)
    qed
  qed
qed

text \<open>A witness account with a balance of asset 5, for any hasher.\<close>

definition funded :: "account_state_tree \<Rightarrow> account" where
  "funded a = \<lparr>private_identifier = (7, 8), subpool_id = 1, nonce = 1, spend_pk = None, consume_config = False, consume_pk = None, ast = a\<rparr>"

definition demo_withdraw :: "account_state_tree \<Rightarrow> (asset_id \<times> u256) list \<Rightarrow> withdraw_builder" where
  "demo_withdraw a ws = \<lparr>wb_accin = funded a, wb_addr = replicate 20 7, wb_withdrawals = ws\<rparr>"

lemma funded_sel [simp]: "ast (funded a) = a" "nonce (funded a) = 1" "\<not> consume_config (funded a)" "consume_pk (funded a) = None"
  "subpool_id (funded a) = 1" "wb_withdrawals (demo_withdraw a ws) = ws"
  by (simp_all add: funded_def demo_withdraw_def)

lemma demo_withdraw_builds: "length ws \<le> NOTE_BATCH \<Longrightarrow> withdraw_builds (funded a) (replicate 20 7) (demo_withdraw a ws)"
proof (induction ws rule: rev_induct)
  case Nil
  show ?case by (intro withdraw_builds.start) (simp add: withdraw_new_def demo_withdraw_def)
next
  case (snoc w ws)
  then have "withdraw_builds (funded a) (replicate 20 7) (demo_withdraw a ws)" by simp
  moreover have "add_withdrawal (fst w) (snd w) (demo_withdraw a ws) = Inr (demo_withdraw a (ws @ [w]))"
    using snoc.prems by (simp add: add_withdrawal_def demo_withdraw_def)
  ultimately show ?case by (rule withdraw_builds.add)
qed

lemma funded_balance:
  obtains a i where "ast_ok P a" "ast_size a < 2 ^ ACC_AST_DEPTH" "amount_for a 5 = Some (i, 100)"
proof -
  obtain a0 where a0: "ast_rep P a0 [(0, 0)]" using ast_new_rep by blast
  obtain a where a: "ast_rep P a ([(0, 0)] @ [(5, 100)])"
    using insert_asset_rep [OF a0, of 5 100] by (auto simp: ACC_AST_DEPTH_def)
  show thesis
    using that [of a] a ast_rep_sel [OF a] by (auto simp: ast_ok_def ACC_AST_DEPTH_def)
qed

theorem withdraw_build_outcome_witness:
  "\<exists>a i tx. amount_for a 5 = Some (i, 100)
    \<and> withdraw_build demo_hasher (demo_withdraw a [(5, 60), (5, 30)]) = (Inr tx :: (withdraw_error, unit built_real_withdraw) result)
    \<and> amount_for (ast (rw_accout tx)) 5 = Some (i, 10)
    \<and> (\<exists>q. withdraw_build demo_hasher (demo_withdraw a [(5, 60), (5, 50)]) = (Inl (Panic q) :: (withdraw_error, unit built_real_withdraw) result))"
proof -
  let ?P = demo_hasher
  obtain a i where a: "ast_ok ?P a" "ast_size a < 2 ^ ACC_AST_DEPTH" "amount_for a 5 = Some (i, 100)" by (rule funded_balance)
  have bal: "balance_of a 5 = 100" using a(3) by (simp add: balance_of_def)
  have out: "let res = withdraw_build ?P (demo_withdraw a ws) :: (withdraw_error, unit built_real_withdraw) result in
      if covered a ws then \<exists>tx. res = Inr tx \<and> amount_for (ast (rw_accout tx)) = reduced a ws else \<exists>q. res = Inl (Panic q)"
    if "ws \<noteq> []" "length ws \<le> NOTE_BATCH" "find (\<lambda>w. balance_of a (fst w) < snd w) ws = None" for ws
    using withdraw_build_outcome [OF demo_withdraw_builds [OF that(2), of a], of ?P ws, where 'g = unit] a that(1,3)
    by (simp add: Let_def split: if_splits) blast
  have "covered a [(5, 60), (5, 30)]" "\<not> covered a [(5, 60), (5, 50)]" "reduced a [(5, 60), (5, 30)] 5 = Some (i, 10)"
    using a(3) bal by (simp_all add: covered_def reduced_def)
  moreover from this obtain tx q where "withdraw_build ?P (demo_withdraw a [(5, 60), (5, 30)]) = (Inr tx :: (withdraw_error, unit built_real_withdraw) result)"
    "amount_for (ast (rw_accout tx)) = reduced a [(5, 60), (5, 30)]"
    "withdraw_build ?P (demo_withdraw a [(5, 60), (5, 50)]) = (Inl (Panic q) :: (withdraw_error, unit built_real_withdraw) result)"
    using out [of "[(5, 60), (5, 30)]"] out [of "[(5, 60), (5, 50)]"] bal by (auto simp: NOTE_BATCH_def Let_def)
  ultimately show ?thesis using a(3) by metis
qed

text \<open>
  C11. Withdrawals from the builder to the proof. A built withdrawal that leaves a rest of every
  asset it names, with honest paths for the account and the subpool and signatures attached, is
  proved if and only if the signature gadget accepts the approval and the spend signature over the
  transaction hash of the builder. The public inputs are the nullifier of the spent account, the
  commitment of its successor, the padded assets and amounts and the address.
\<close>

theorem withdraw_tx_proves:
  assumes b: "withdraw_builds accin addr b" and acc: "ast_ok P (ast accin)" "ast_size (ast accin) < 2 ^ ACC_AST_DEPTH"
    and run: "withdraw_build P b = (Inr tx :: (withdraw_error, 'g built_real_withdraw) result)" and ws: "ws = wb_withdrawals b"
    and rest: "leaves_rest (ast accin) ws"
    and consume: "consume_config accin \<longleftrightarrow> consume_pk accin \<noteq> None" and nonce: "unat (nonce accin) + 1 < unat GOLDILOCKS_PRIME"
    and paths: "account_path_ok P accin ap" "subpool_path_ok P (subpool_id accin) sp"
    and sigs: "set_sig (approval_key (sp_config sp)) (rw_tx_hash tx) g1 = Inr s1" "set_sig (spend_pk_or_default accin) (rw_tx_hash tx) g2 = Inr s2"
  shows "\<exists>bt an ac. into_withdraw_tx (withdraw_attach ap sp g1 g2 tx) = Inr bt
    \<and> account_nullifier P accin = Inr an \<and> account_commitment P (rw_accout tx) = Inr ac
    \<and> withdraw_prove P S set_sig set_dummy bt =
      (if S True (rw_tx_hash tx) (approval_key (sp_config sp)) s1 \<and> S True (rw_tx_hash tx) (spend_pk_or_default accin) s2
       then Inr (register_withdraw
         \<lparr>xp_root = proof_root ap, xp_mainpool_config_root = proof_root (main_pool_proof sp), xp_not_fake_tx = True,
          xp_accin_null = an, xp_accout_comm = ac, xp_asset_ids = map fst ws @ replicate (NOTE_BATCH - length ws) 0,
          xp_withdrawal_amts = map u256_limbs (map snd ws @ replicate (NOTE_BATCH - length ws) 0), xp_w_acc_addr = map_h160_to_f addr\<rparr>)
       else Inl (Err (ProofGenerationFailed Unsatisfied_constraints)))"
proof -
  obtain ss an ac bt r r' where "slots_ok P r ss r'" and keep: "list_all (\<lambda>s. sl_exists_in s \<longrightarrow> sl_accout_amt s \<noteq> 0) ss \<longleftrightarrow> leaves_rest (ast accin) ws"
    and dig: "account_nullifier P accin = Inr an" "account_commitment P (rw_accout tx) = Inr ac"
    and bt: "into_withdraw_tx (withdraw_attach ap sp g1 g2 tx) = Inr bt"
    and prove: "withdraw_prove P S set_sig set_dummy bt =
      (if chained P ss \<and> S True (rw_tx_hash tx) (approval_key (sp_config sp)) s1 \<and> S True (rw_tx_hash tx) (spend_pk_or_default accin) s2
       then Inr (register_withdraw
         \<lparr>xp_root = proof_root ap, xp_mainpool_config_root = proof_root (main_pool_proof sp), xp_not_fake_tx = True,
          xp_accin_null = an, xp_accout_comm = ac, xp_asset_ids = map fst ws @ replicate (NOTE_BATCH - length ws) 0,
          xp_withdrawal_amts = map u256_limbs (map snd ws @ replicate (NOTE_BATCH - length ws) 0), xp_w_acc_addr = map_h160_to_f addr\<rparr>)
       else Inl (Err (ProofGenerationFailed Unsatisfied_constraints)))"
    using attached_withdraw_proves [OF b acc run ws consume nonce paths, of set_sig g1 s1 g2 s2 S set_dummy, OF sigs] by blast
  then have "chained P ss" using rest kept_chained by blast
  with dig bt prove show ?thesis by auto
qed

lemma demo_build:
  assumes "ast_ok P a" "ast_size a < 2 ^ ACC_AST_DEPTH" "amount_for a 5 = Some (i, 100)" "v \<le> 100"
  shows "\<exists>tx. withdraw_build P (demo_withdraw a [(5, v)]) = (Inr tx :: (withdraw_error, 'g built_real_withdraw) result)"
proof -
  have b: "withdraw_builds (funded a) (replicate 20 7) (demo_withdraw a [(5, v)])" by (rule demo_withdraw_builds) (simp add: NOTE_BATCH_def)
  have bal: "balance_of a 5 = 100" using assms(3) by (simp add: balance_of_def)
  have "find (\<lambda>w. balance_of (ast (funded a)) (fst w) < snd w) [(5, v)] = None" using assms(4) bal by (simp add: not_less)
  moreover have "covered (ast (funded a)) [(5, v)]" using assms(3,4) bal by (simp add: covered_def word_le_nat_alt)
  ultimately show ?thesis
    using withdraw_build_covered [OF b, of P "[(5, v)]", where 'g = 'g] assms(1,2) by simp blast
qed

text \<open>The paths of the witnesses: a proof of depth 1 for the account, and one for the subpool.\<close>

lemma demo_paths:
  assumes "ast_ok P a"
  obtains ap sp where "account_path_ok P (funded a) ap" "subpool_path_ok P (subpool_id (funded a)) sp"
proof -
  obtain es where a: "ast_rep P (ast (funded a)) ((0, 0) # es)" using assms by (auto simp: ast_ok_def)
  obtain c where c: "account_commitment P (funded a) = Inr c" using account_digests [OF a] by auto
  let ?ap = "demo_path P STATE_TREE_DEPTH c ZERO_hash False 2"
  let ?cfg = "\<lparr>approval_key = CompressedPublicKey 9 0 0 0 0\<rparr>"
  let ?sp = "\<lparr>main_pool_proof = demo_path P MAIN_POOL_CONFIG_DEPTH (P ([1, 0, 0, 0] @ elems (subpool_commitment P ?cfg)))
      ZERO_hash False 0, sp_config = ?cfg, sp_id = 1\<rparr>"
  show thesis
    using c by (intro that [of ?ap ?sp])
      (simp_all add: account_path_ok_def subpool_path_ok_def demo_path_ok STATE_TREE_DEPTH_def MAIN_POOL_CONFIG_DEPTH_def)
qed

theorem withdraw_tx_proves_witness:
  "\<exists>a i tx bt ap sp pub. amount_for a 5 = Some (i, 100)
    \<and> withdraw_build demo_hasher (demo_withdraw a [(5, 60)]) = (Inr tx :: (withdraw_error, unit built_real_withdraw) result)
    \<and> into_withdraw_tx (withdraw_attach ap sp () () tx) = Inr bt
    \<and> withdraw_prove demo_hasher (\<lambda>c h pk s. c \<longrightarrow> s) (\<lambda>pk h g. Inr True) (\<lambda>pk. Inr False) bt = Inr pub"
proof -
  let ?P = demo_hasher and ?ws = "[(5, 60)] :: (asset_id \<times> u256) list"
  obtain a i where a: "ast_ok ?P a" "ast_size a < 2 ^ ACC_AST_DEPTH" "amount_for a 5 = Some (i, 100)" by (rule funded_balance)
  obtain ap sp where paths: "account_path_ok ?P (funded a) ap" "subpool_path_ok ?P (subpool_id (funded a)) sp" using a(1) by (rule demo_paths)
  have b: "withdraw_builds (funded a) (replicate 20 7) (demo_withdraw a ?ws)" by (rule demo_withdraw_builds) (simp add: NOTE_BATCH_def)
  obtain tx where tx: "withdraw_build ?P (demo_withdraw a ?ws) = (Inr tx :: (withdraw_error, unit built_real_withdraw) result)"
    using demo_build [OF a, of 60, where 'g = unit] by auto
  have rest: "leaves_rest (ast (funded a)) ?ws" using a(3) by (simp add: leaves_rest_def balance_of_def)
  obtain bt pub where "into_withdraw_tx (withdraw_attach ap sp () () tx) = Inr bt"
    "withdraw_prove ?P (\<lambda>c h pk s. c \<longrightarrow> s) (\<lambda>pk h g. Inr True) (\<lambda>pk. Inr False) bt = Inr pub"
    using withdraw_tx_proves [OF b _ _ tx _ rest _ _ paths, of "\<lambda>pk h g. Inr True" "()" True "()" True "\<lambda>c h pk s. c \<longrightarrow> s" "\<lambda>pk. Inr False"] a tx
    by (auto simp: unat_PRIME)
  with a(3) tx show ?thesis by blast
qed

text \<open>
  C13. A withdrawal of a whole balance is never proved. When building succeeds but some asset is
  withdrawn to the last unit, a proof exists only if hashing is broken: for some slot with a new
  balance of zero, either the leaf of a zero balance is the default leaf, or \<open>find_collision\<close> gives
  two different pairs of digests with the same hash. The builder keeps the emptied leaf in the
  tree while the slot announces that it was reset.
\<close>

theorem emptying_withdraw_never_proves:
  assumes b: "withdraw_builds accin addr b" and acc: "ast_ok P (ast accin)" "ast_size (ast accin) < 2 ^ ACC_AST_DEPTH"
    and run: "withdraw_build P b = (Inr tx :: (withdraw_error, 'g built_real_withdraw) result)" and ws: "ws = wb_withdrawals b"
    and empties: "\<not> leaves_rest (ast accin) ws"
    and consume: "consume_config accin \<longleftrightarrow> consume_pk accin \<noteq> None" and nonce: "unat (nonce accin) + 1 < unat GOLDILOCKS_PRIME"
    and paths: "account_path_ok P accin ap" "subpool_path_ok P (subpool_id accin) sp"
    and sigs: "set_sig (approval_key (sp_config sp)) (rw_tx_hash tx) g1 = Inr s1" "set_sig (spend_pk_or_default accin) (rw_tx_hash tx) g2 = Inr s2"
    and proves: "into_withdraw_tx (withdraw_attach ap sp g1 g2 tx) = Inr bt" "withdraw_prove P S set_sig set_dummy bt = Inr pub"
  shows "\<exists>ss out s. compute_withdrawal_slots P accin ws = (Inr (ss, out) :: (prove_error, slot_data list \<times> account) result)
    \<and> s \<in> set ss \<and> sl_accout_amt s = 0
    \<and> (let leaf0 = P ([DS_ACC_AST_LEAF, sl_asset_id s] @ u256_limbs 0);
           hit = find_collision (hash_output_hash P) ZERO_hash leaf0 (zip (path (sl_proof s)) (zip (siblings (sl_proof s)) (siblings (sl_proof s)))) in
       leaf0 = ZERO_hash \<or> (\<exists>l r l' r'. hit = Some ((l, r), (l', r')) \<and> (l, r) \<noteq> (l', r') \<and> P (elems l @ elems r) = P (elems l' @ elems r')))"
proof -
  obtain ss r r' where ss: "compute_withdrawal_slots P accin ws = (Inr (ss, rw_accout tx) :: (prove_error, slot_data list \<times> account) result)"
    "slots_ok P r ss r'" "list_all (\<lambda>s. sl_exists_in s \<longrightarrow> sl_accout_amt s \<noteq> 0) ss \<longleftrightarrow> leaves_rest (ast accin) ws" "chained P ss"
    using attached_withdraw_proves [OF b acc run ws consume nonce paths, of set_sig g1 s1 g2 s2 S set_dummy, OF sigs] proves
    by (auto split: if_splits)
  obtain s where s: "s \<in> set ss" "sl_exists_in s" "sl_accout_amt s = 0" using ss(3) empties by (auto simp: list_all_iff)
  have "slot_out_root P s = slot_after P s" using ss(4) s(1) by (simp add: chained_def list_all_iff)
  with emptied_slot [OF slots_ok_member [OF ss(2) s(1)] s(2,3)] s ss(1) show ?thesis by blast
qed

lemma flat_chained: "chained (\<lambda>_. ZERO_hash) ss"
  by (simp add: chained_def list_all_iff slot_out_root_def slot_after_def ast_leaf_circuit_def select_hash AST_DEFAULT_LEAF_def ZERO_hash_def)

text \<open>The hypotheses are met when hashing is broken in the extreme, by a constant hash.\<close>

theorem emptying_withdraw_never_proves_witness:
  "\<exists>a i tx bt ap sp pub s ss out. amount_for a 5 = Some (i, 100)
    \<and> withdraw_build (\<lambda>_. ZERO_hash) (demo_withdraw a [(5, 100)]) = (Inr tx :: (withdraw_error, unit built_real_withdraw) result)
    \<and> into_withdraw_tx (withdraw_attach ap sp () () tx) = Inr bt
    \<and> withdraw_prove (\<lambda>_. ZERO_hash) (\<lambda>c h pk s. c \<longrightarrow> s) (\<lambda>pk h g. Inr True) (\<lambda>pk. Inr False) bt = Inr pub
    \<and> compute_withdrawal_slots (\<lambda>_. ZERO_hash) (funded a) [(5, 100)] = (Inr (ss, out) :: (prove_error, slot_data list \<times> account) result)
    \<and> s \<in> set ss \<and> sl_accout_amt s = 0"
proof -
  let ?P = "\<lambda>_ :: felt list. ZERO_hash" and ?ws = "[(5, 100)] :: (asset_id \<times> u256) list"
  obtain a i where a: "ast_ok ?P a" "ast_size a < 2 ^ ACC_AST_DEPTH" "amount_for a 5 = Some (i, 100)" by (rule funded_balance)
  obtain ap sp where paths: "account_path_ok ?P (funded a) ap" "subpool_path_ok ?P (subpool_id (funded a)) sp" using a(1) by (rule demo_paths)
  have b: "withdraw_builds (funded a) (replicate 20 7) (demo_withdraw a ?ws)" by (rule demo_withdraw_builds) (simp add: NOTE_BATCH_def)
  have acc: "ast_ok ?P (ast (funded a))" "ast_size (ast (funded a)) < 2 ^ ACC_AST_DEPTH" using a by simp_all
  obtain tx where tx: "withdraw_build ?P (demo_withdraw a ?ws) = (Inr tx :: (withdraw_error, unit built_real_withdraw) result)"
    using demo_build [OF a, of 100, where 'g = unit] by auto
  have ws: "?ws = wb_withdrawals (demo_withdraw a ?ws)" by simp
  have auth: "consume_config (funded a) \<longleftrightarrow> consume_pk (funded a) \<noteq> None" "unat (nonce (funded a)) + 1 < unat GOLDILOCKS_PRIME"
    by (simp_all add: unat_PRIME)
  have empties: "\<not> leaves_rest (ast (funded a)) ?ws" using a(3) by (simp add: leaves_rest_def balance_of_def)
  obtain bt pub where bt: "into_withdraw_tx (withdraw_attach ap sp () () tx) = Inr bt"
    "withdraw_prove ?P (\<lambda>c h pk s. c \<longrightarrow> s) (\<lambda>pk h g. Inr True) (\<lambda>pk. Inr False) bt = Inr pub"
    using attached_withdraw_proves [OF b acc tx ws auth paths, of "\<lambda>pk h g. Inr True" "()" True "()" True "\<lambda>c h pk s. c \<longrightarrow> s" "\<lambda>pk. Inr False", OF refl refl]
    unfolding eqTrueI [OF flat_chained] simp_thms if_True by blast
  obtain ss out s where "compute_withdrawal_slots ?P (funded a) ?ws = (Inr (ss, out) :: (prove_error, slot_data list \<times> account) result)"
    "s \<in> set ss" "sl_accout_amt s = 0"
    using emptying_withdraw_never_proves [OF b acc tx ws empties auth paths, of "\<lambda>pk h g. Inr True" "()" True "()" True, OF refl refl bt]
    by (elim exE conjE)
  with a(3) tx bt show ?thesis by blast
qed

end
