(* ===== verification/Gl_Field.thy ===== *)
theory Gl_Field
  imports Goldilocks Complex_Main
begin

section \<open>The Goldilocks field as a type\<close>

text \<open>
  The gates of the signature gadget are polynomials over the field of the wires, and the curve
  lives over an extension of degree five. This theory makes the Goldilocks field an instance of
  the library's class of fields, so that its algebra is available to gates and curve. Frobenius'
  and Fermat's theorems are proved for every ring of this characteristic: they are used again
  for the extension.
\<close>

abbreviation gpi :: int where "gpi \<equiv> 18446744069414584321"

typedef gl = "{x :: int. 0 \<le> x \<and> x < gpi}"
  morphisms gl_int Abs_gl
  by (rule exI [of _ 0]) simp

setup_lifting type_definition_gl

instantiation gl :: "{zero, one, plus, minus, uminus, times}"
begin

lift_definition zero_gl :: gl is 0 by simp
lift_definition one_gl :: gl is 1 by simp
lift_definition plus_gl :: "gl \<Rightarrow> gl \<Rightarrow> gl" is "\<lambda>x y. (x + y) mod gpi" by simp
lift_definition minus_gl :: "gl \<Rightarrow> gl \<Rightarrow> gl" is "\<lambda>x y. (x - y) mod gpi" by simp
lift_definition uminus_gl :: "gl \<Rightarrow> gl" is "\<lambda>x. (- x) mod gpi" by simp
lift_definition times_gl :: "gl \<Rightarrow> gl \<Rightarrow> gl" is "\<lambda>x y. (x * y) mod gpi" by simp

instance ..

end

instance gl :: comm_ring_1
proof
  fix a b c :: gl
  show "a + b + c = a + (b + c)" by transfer (simp add: mod_simps ac_simps)
  show "a + b = b + a" by transfer (simp add: ac_simps)
  show "0 + a = a" by transfer simp
  show "- a + a = 0" by transfer (simp add: mod_simps)
  show "a - b = a + - b" by transfer (simp add: mod_simps)
  show "a * b * c = a * (b * c)" by transfer (simp add: mod_simps ac_simps)
  show "a * b = b * a" by transfer (simp add: ac_simps)
  show "1 * a = a" by transfer simp
  show "(a + b) * c = a * c + b * c" by transfer (simp add: mod_simps algebra_simps)
  show "(0 :: gl) \<noteq> 1" by transfer simp
qed

lemma gl_of_int: "gl_int (of_int i) = i mod gpi"
proof -
  have nat: "gl_int (of_nat n) = int n mod gpi" for n
    by (induction n) (simp_all add: zero_gl.rep_eq one_gl.rep_eq plus_gl.rep_eq mod_simps ac_simps)
  show ?thesis
    by (cases i rule: int_cases2) (simp_all add: nat uminus_gl.rep_eq mod_simps)
qed

lemma gl_of_int_eq: "(of_int i :: gl) = of_int j \<longleftrightarrow> i mod gpi = j mod gpi"
  by (simp add: gl_of_int flip: gl_int_inject)

lemma gl_int_of: "(of_int (gl_int x) :: gl) = x"
  using gl_int [of x] by (simp add: gl_of_int flip: gl_int_inject)

lemma gl_cases: obtains n where "x = (of_nat n :: gl)" "n < gp"
proof
  have *: "0 \<le> gl_int x" "gl_int x < gpi" using gl_int [of x] by simp_all
  then show "x = of_nat (nat (gl_int x))" by (simp add: gl_int_of of_nat_nat)
  show "nat (gl_int x) < gp" using * by simp
qed

lemma gl_char: "(of_nat gp :: gl) = 0"
proof -
  have "(of_int gpi :: gl) = of_int 0" unfolding gl_of_int_eq by simp
  then show ?thesis by simp
qed

subsection \<open>Rings of this characteristic\<close>

lemma gp_choose:
  assumes k: "0 < k" "k < p" and p: "p = gp"
  shows "p dvd p choose k"
proof -
  have "p dvd k * (p choose k)"
    using Suc_times_binomial_eq [of "p - 1" "k - 1"] k by (simp add: mult.commute) (metis dvd_triv_left)
  then have "p dvd k \<or> p dvd p choose k" unfolding p by (rule gp_euclid)
  then show ?thesis using k by (auto dest: dvd_imp_le)
qed

lemma frobenius_add:
  assumes "of_nat gp = (0 :: 'a :: comm_ring_1)"
  shows "(x + y :: 'a) ^ gp = x ^ gp + y ^ gp"
proof -
  have *: "(x + y) ^ p = x ^ p + y ^ p" if p: "p = gp" for p
  proof -
    have mid: "of_nat (p choose k) * x ^ k * y ^ (p - k) = 0" if k: "k \<in> {0<..<p}" for k
    proof -
      obtain m where "p choose k = p * m" using gp_choose [OF _ _ p, of k] k by (auto elim: dvdE)
      then show ?thesis using assms p by simp
    qed
    have set: "{..p} = insert 0 (insert p {0<..<p})" using p by auto
    have "(x + y) ^ p = (\<Sum>k\<le>p. of_nat (p choose k) * x ^ k * y ^ (p - k))" by (rule binomial_ring)
    also have "\<dots> = y ^ p + (x ^ p + (\<Sum>k\<in>{0<..<p}. of_nat (p choose k) * x ^ k * y ^ (p - k)))"
      unfolding set using p by simp
    also have "\<dots> = x ^ p + y ^ p" using mid by (simp add: sum.neutral)
    finally show ?thesis .
  qed
  show ?thesis by (rule *) (rule refl)
qed

lemma fermat_of_nat:
  assumes "of_nat gp = (0 :: 'a :: comm_ring_1)"
  shows "(of_nat n :: 'a) ^ gp = of_nat n"
proof (induction n)
  case (Suc n)
  then show ?case using frobenius_add [OF assms, of 1 "of_nat n"] by (simp only: of_nat_Suc power_one)
next
  case 0
  have "0 < p \<Longrightarrow> (0 :: 'a) ^ p = 0" for p :: nat by (rule zero_power)
  from this [of gp] show ?case by simp
qed

subsection \<open>Inverses\<close>

lemma gl_mult_eq_0: "(x :: gl) * y = 0 \<longleftrightarrow> x = 0 \<or> y = 0"
proof
  assume *: "x * y = 0"
  obtain m n where m: "x = of_nat m" "m < gp" and n: "y = of_nat n" "n < gp" using gl_cases by metis
  have "(of_int (int (m * n)) :: gl) = of_int 0" using * m n by simp
  then have "int (m * n) mod int gp = 0" unfolding gl_of_int_eq by simp
  then have "gp dvd m * n" by (simp only: of_nat_eq_0_iff dvd_eq_mod_eq_0 flip: of_nat_mod)
  then have "gp dvd m \<or> gp dvd n" by (rule gp_euclid)
  then show "x = 0 \<or> y = 0" using m n by (auto dest: dvd_imp_le)
qed auto

lemma gl_fermat: "(x :: gl) ^ gp = x"
  by (cases x rule: gl_cases) (simp only: fermat_of_nat [OF gl_char])

lemma gl_power_one: "(x :: gl) \<noteq> 0 \<Longrightarrow> x ^ (gp - 1) = 1"
proof -
  have *: "p \<noteq> 0 \<Longrightarrow> x ^ p = x \<Longrightarrow> x * (x ^ (p - 1) - 1) = 0" for p
    by (cases p) (simp_all add: algebra_simps)
  assume "x \<noteq> 0"
  with * [OF _ gl_fermat] show ?thesis by (simp only: gl_mult_eq_0) (simp del: One_nat_def)
qed

instantiation gl :: field
begin

definition inverse_gl :: "gl \<Rightarrow> gl" where "inverse_gl x = x ^ (gp - 2)"
definition divide_gl :: "gl \<Rightarrow> gl \<Rightarrow> gl" where "divide_gl x y = x * inverse y"

instance
proof
  fix a b :: gl
  have *: "2 \<le> p \<Longrightarrow> x ^ (p - 2) * x = x ^ (p - 1)" for p and x :: gl
    by (metis Suc_diff_le Suc_1 diff_Suc_Suc power_Suc2)
  show "a \<noteq> 0 \<Longrightarrow> inverse a * a = 1"
    unfolding inverse_gl_def using * [of gp a] gl_power_one [of a] by simp
  show "a div b = a * inverse b" by (rule divide_gl_def)
  have "2 < p \<Longrightarrow> (0 :: gl) ^ (p - 2) = 0" for p by (rule zero_power) simp
  from this [of gp] show "inverse 0 = (0 :: gl)" unfolding inverse_gl_def by simp
qed

end

instantiation gl :: equal
begin

definition equal_gl :: "gl \<Rightarrow> gl \<Rightarrow> bool" where "equal_gl x y \<longleftrightarrow> gl_int x = gl_int y"

instance by standard (simp add: equal_gl_def gl_int_inject)

end

text \<open>The element a wire carries.\<close>

definition gl_of :: "felt \<Rightarrow> gl" where "gl_of w = of_int (uint w)"

lemma gl_of_inj: "canonical a \<Longrightarrow> canonical b \<Longrightarrow> gl_of a = gl_of b \<longleftrightarrow> a = b"
  unfolding gl_of_def gl_of_int_eq by (simp only: uint_mod_canonical [simplified] word_uint_eq_iff)

lemma gl_of_ops: "gl_of (felt_add a b) = gl_of a + gl_of b" "gl_of (felt_sub a b) = gl_of a - gl_of b"
  "gl_of (felt_mul a b) = gl_of a * gl_of b" "gl_of 0 = 0" "gl_of 1 = 1"
proof -
  have m: "(of_int (i mod gpi) :: gl) = of_int i" for i by (simp add: gl_of_int_eq)
  show "gl_of (felt_add a b) = gl_of a + gl_of b" "gl_of (felt_sub a b) = gl_of a - gl_of b"
    "gl_of (felt_mul a b) = gl_of a * gl_of b"
    by (simp_all only: gl_of_def uint_felt_ops of_nat_numeral m of_int_add of_int_diff of_int_mult)
qed (simp_all add: gl_of_def)

text \<open>The canonical word of a field element.\<close>

definition gl_word :: "gl \<Rightarrow> u64" where "gl_word x = word_of_int (gl_int x)"

lemma gl_word_value: "unat (gl_word x) = nat (gl_int x)" "of_nat (unat (gl_word x)) = x" "unat (gl_word x) < gp"
proof -
  have x: "0 \<le> gl_int x" "gl_int x < gpi" using gl_int [of x] by simp_all
  then have "uint (gl_word x) = gl_int x" by (simp add: gl_word_def uint_word_of_int_eq take_bit_int_eq_self)
  then show v: "unat (gl_word x) = nat (gl_int x)" by (simp add: unat_eq_nat_uint)
  show "of_nat (unat (gl_word x)) = x" using x gl_int_of [of x] by (simp only: v of_nat_nat)
  show "unat (gl_word x) < gp" using x by (simp add: v)
qed

end
