(* ===== verification/Quintic.thy ===== *)
theory Quintic
  imports Gl_Field
begin

section \<open>The quintic extension\<close>

text \<open>
  \<^verbatim>\<open>LocalQuinticExtension\<close> of \<^verbatim>\<open>plonky2_gadgets/signature.rs\<close>: five coefficients over any field of the
  gates, multiplied modulo \<open>z ^ 5 - 3\<close>. The code states that this polynomial is irreducible over the
  Goldilocks field; here this is proved, so that the quintic extension is again an
  instance of the library's class of fields, \<open>gfp5\<close>. The curve is modelled over any field with the
  coefficients of \<^verbatim>\<open>plonky2_field\<close>'s \<^verbatim>\<open>QuinticExtension\<close> (locale \<open>quintic_ext\<close>), and \<open>gfp5\<close> is the instance.
\<close>

datatype 'a lqe = LQE 'a 'a 'a 'a 'a

fun lqe_list :: "'a lqe \<Rightarrow> 'a list" where
  "lqe_list (LQE a0 a1 a2 a3 a4) = [a0, a1, a2, a3, a4]"

definition lqe_w :: "'a :: comm_ring_1" where "lqe_w = 3"

definition lqe_ZERO :: "'a :: comm_ring_1 lqe" where "lqe_ZERO = LQE 0 0 0 0 0"

definition lqe_ONE :: "'a :: comm_ring_1 lqe" where "lqe_ONE = LQE 1 0 0 0 0"

fun lqe_square :: "'a :: comm_ring_1 lqe \<Rightarrow> 'a lqe" where
  "lqe_square (LQE a0 a1 a2 a3 a4) =
     (let w = lqe_w; double_w = w + w;
          c0 = a0 * a0 + double_w * (a1 * a4 + a2 * a3);
          double_a0 = a0 + a0;
          c1 = double_a0 * a1 + double_w * a2 * a4 + w * a3 * a3;
          c2 = double_a0 * a2 + a1 * a1 + double_w * a4 * a3;
          double_a1 = a1 + a1;
          c3 = double_a0 * a3 + double_a1 * a2 + w * a4 * a4;
          c4 = double_a0 * a4 + double_a1 * a3 + a2 * a2
      in LQE c0 c1 c2 c3 c4)"

fun lqe_double :: "'a :: comm_ring_1 lqe \<Rightarrow> 'a lqe" where
  "lqe_double (LQE a0 a1 a2 a3 a4) = LQE (a0 + a0) (a1 + a1) (a2 + a2) (a3 + a3) (a4 + a4)"

fun lqe_add :: "'a :: comm_ring_1 lqe \<Rightarrow> 'a lqe \<Rightarrow> 'a lqe" where
  "lqe_add (LQE a0 a1 a2 a3 a4) (LQE b0 b1 b2 b3 b4) = LQE (a0 + b0) (a1 + b1) (a2 + b2) (a3 + b3) (a4 + b4)"

fun lqe_sub :: "'a :: comm_ring_1 lqe \<Rightarrow> 'a lqe \<Rightarrow> 'a lqe" where
  "lqe_sub (LQE a0 a1 a2 a3 a4) (LQE b0 b1 b2 b3 b4) = LQE (a0 - b0) (a1 - b1) (a2 - b2) (a3 - b3) (a4 - b4)"

fun lqe_mul :: "'a :: comm_ring_1 lqe \<Rightarrow> 'a lqe \<Rightarrow> 'a lqe" where
  "lqe_mul (LQE a0 a1 a2 a3 a4) (LQE b0 b1 b2 b3 b4) =
     (let w = lqe_w in LQE
       (a0 * b0 + w * (a1 * b4 + a2 * b3 + a3 * b2 + a4 * b1))
       (a0 * b1 + a1 * b0 + w * (a2 * b4 + a3 * b3 + a4 * b2))
       (a0 * b2 + a1 * b1 + a2 * b0 + w * (a3 * b4 + a4 * b3))
       (a0 * b3 + a1 * b2 + a2 * b1 + a3 * b0 + w * a4 * b4)
       (a0 * b4 + a1 * b3 + a2 * b2 + a3 * b1 + a4 * b0))"

fun lqe_mul_base :: "'a :: comm_ring_1 lqe \<Rightarrow> 'a \<Rightarrow> 'a lqe" where
  "lqe_mul_base (LQE a0 a1 a2 a3 a4) r = LQE (a0 * r) (a1 * r) (a2 * r) (a3 * r) (a4 * r)"

fun lqe_neg :: "'a :: comm_ring_1 lqe \<Rightarrow> 'a lqe" where
  "lqe_neg (LQE a0 a1 a2 a3 a4) = LQE (- a0) (- a1) (- a2) (- a3) (- a4)"

instantiation lqe :: (comm_ring_1) comm_ring_1
begin

definition zero_lqe :: "'a lqe" where "zero_lqe = lqe_ZERO"
definition one_lqe :: "'a lqe" where "one_lqe = lqe_ONE"
definition plus_lqe :: "'a lqe \<Rightarrow> 'a lqe \<Rightarrow> 'a lqe" where "plus_lqe = lqe_add"
definition minus_lqe :: "'a lqe \<Rightarrow> 'a lqe \<Rightarrow> 'a lqe" where "minus_lqe = lqe_sub"
definition uminus_lqe :: "'a lqe \<Rightarrow> 'a lqe" where "uminus_lqe = lqe_neg"
definition times_lqe :: "'a lqe \<Rightarrow> 'a lqe \<Rightarrow> 'a lqe" where "times_lqe = lqe_mul"

lemmas lqe_ops = zero_lqe_def one_lqe_def plus_lqe_def minus_lqe_def uminus_lqe_def times_lqe_def lqe_ZERO_def lqe_ONE_def

instance
proof
  fix a b c :: "'a lqe"
  show "a + b + c = a + (b + c)" by (cases a; cases b; cases c) (simp add: lqe_ops)
  show "a + b = b + a" by (cases a; cases b) (simp add: lqe_ops)
  show "0 + a = a" by (cases a) (simp add: lqe_ops)
  show "- a + a = 0" by (cases a) (simp add: lqe_ops)
  show "a - b = a + - b" by (cases a; cases b) (simp add: lqe_ops)
  show "a * b * c = a * (b * c)" by (cases a; cases b; cases c) (simp add: lqe_ops algebra_simps Let_def)
  show "a * b = b * a" by (cases a; cases b) (simp add: lqe_ops algebra_simps Let_def)
  show "1 * a = a" by (cases a) (simp add: lqe_ops)
  show "(a + b) * c = a * c + b * c" by (cases a; cases b; cases c) (simp add: lqe_ops algebra_simps Let_def)
  show "(0 :: 'a lqe) \<noteq> 1" by (simp add: lqe_ops)
qed

end

text \<open>The special cases of the code agree with the ring.\<close>

lemma lqe_square_mult: "lqe_square x = x * x"
  by (cases x) (simp add: lqe_ops lqe_w_def algebra_simps Let_def)

lemma lqe_double_add: "lqe_double x = x + x"
  by (cases x) (simp add: lqe_ops)

definition lqe_const :: "'a :: comm_ring_1 \<Rightarrow> 'a lqe" where "lqe_const a = LQE a 0 0 0 0"

lemma lqe_mul_base_const: "lqe_mul_base x r = x * lqe_const r"
  by (cases x) (simp add: lqe_ops lqe_const_def Let_def)

lemma lqe_const_hom [simp]: "lqe_const a * lqe_const b = lqe_const (a * b)" "lqe_const a + lqe_const b = lqe_const (a + b)"
  "lqe_const a - lqe_const b = lqe_const (a - b)" "- lqe_const a = lqe_const (- a)" "lqe_const a ^ n = lqe_const (a ^ n)"
  "lqe_const a = lqe_const b \<longleftrightarrow> a = b"
proof -
  show m: "lqe_const a * lqe_const b = lqe_const (a * b)" for a b :: 'a by (simp add: lqe_const_def lqe_ops Let_def)
  have "lqe_const 1 = (1 :: 'a lqe)" by (simp add: lqe_const_def lqe_ops)
  then show "lqe_const a ^ n = lqe_const (a ^ n)" by (induction n) (simp_all add: m)
qed (simp_all add: lqe_const_def lqe_ops)

lemma lqe_const_0_1: "lqe_const 0 = 0" "lqe_const 1 = 1"
  by (simp_all add: lqe_const_def lqe_ops)

lemma lqe_of_nat: "(of_nat n :: 'a :: comm_ring_1 lqe) = lqe_const (of_nat n)"
  by (induction n) (simp_all add: lqe_const_0_1 flip: lqe_const_hom(2))

lemma lqe_of_int: "(of_int i :: 'a :: comm_ring_1 lqe) = lqe_const (of_int i)"
  by (cases i rule: int_cases2) (simp_all add: lqe_of_nat)

definition lqe_z :: "'a :: comm_ring_1 lqe" where "lqe_z = LQE 0 1 0 0 0"

lemma lqe_basis:
  "LQE a0 a1 a2 a3 a4 = lqe_const a0 + lqe_const a1 * lqe_z + lqe_const a2 * lqe_z ^ 2 + lqe_const a3 * lqe_z ^ 3 + lqe_const a4 * lqe_z ^ 4"
  by (simp add: lqe_const_def lqe_z_def lqe_ops Let_def eval_nat_numeral)

lemma lqe_z_pow5: "(lqe_z :: 'a :: comm_ring_1 lqe) ^ 5 = lqe_const 3"
  by (simp add: lqe_const_def lqe_z_def lqe_ops Let_def eval_nat_numeral lqe_w_def)

subsection \<open>The Frobenius automorphism\<close>

text \<open>A fifth root of unity, by square and multiply.\<close>

fun power_chain :: "nat \<Rightarrow> nat \<Rightarrow> nat \<Rightarrow> (bool \<times> nat \<times> nat) list \<Rightarrow> nat \<Rightarrow> bool" where
  "power_chain n b a [] v \<longleftrightarrow> a = v"
| "power_chain n b a ((x, q, r) # cs) v \<longleftrightarrow> (if x then a * a * b else a * a) = q * n + r \<and> power_chain n b r cs v"

fun chain_exp :: "nat \<Rightarrow> (bool \<times> nat \<times> nat) list \<Rightarrow> nat" where
  "chain_exp e [] = e"
| "chain_exp e ((x, q, r) # cs) = chain_exp (if x then 2 * e + 1 else 2 * e) cs"

lemma power_chain_mod: "power_chain n b a cs v \<Longrightarrow> b ^ e mod n = a mod n \<Longrightarrow> b ^ chain_exp e cs mod n = v mod n"
proof (induction n b a cs v arbitrary: e rule: power_chain.induct)
  case (2 n b a x q r cs v)
  have sq: "b ^ e * b ^ e mod n = a * a mod n" using 2(3) by (metis mod_mult_eq)
  then have "b ^ e * b ^ e * b mod n = a * a * b mod n" by (metis mod_mult_left_eq)
  moreover have "b ^ (2 * e) = b ^ e * b ^ e" by (simp only: mult_2 power_add)
  ultimately have "b ^ (if x then 2 * e + 1 else 2 * e) mod n = (if x then a * a * b else a * a) mod n"
    using sq by (simp add: mult.commute)
  also have "\<dots> = r mod n" using 2(2) by simp
  finally show ?case using 2(1) 2(2) by simp
qed simp

definition fifth_certificate :: "(bool \<times> nat \<times> nat) list" where
  "fifth_certificate =
    [(True, 0, 3),
     (True, 0, 27),
     (False, 0, 729),
     (False, 0, 531441),
     (True, 0, 847288609443),
     (True, 116751, 18146227335632249676),
     (False, 17850606333418768993, 10669354104183346223),
     (False, 6171014059288492245, 15611696015981275084),
     (True, 39637084719928085469, 2066550087442289619),
     (True, 694533829033049278, 1476312435746325245),
     (False, 118150845468330664, 13535948909986390881),
     (False, 9932479802630903678, 7935231631159923523),
     (True, 10240490268073518365, 12557367903191639422),
     (True, 25644767672181165663, 7718127497810112429),
     (False, 3229268636692429133, 6068713978674856348),
     (False, 1996519776952291113, 8169699920958457831),
     (True, 10854597951923574783, 3010927439112896340),
     (True, 1474355150614497732, 18034960527778926828),
     (False, 17632369160356991513, 11325333874358273911),
     (False, 6953161321208566041, 2997605542811592760),
     (True, 1461337397507452969, 13419778601660953751),
     (True, 29288169832018351597, 3577033139501399366),
     (False, 693627343283095591, 14981225196852373245),
     (False, 12166760028450215364, 12702452853804122181),
     (True, 26240778518304191258, 11288353797776524465),
     (True, 20723483393753123235, 9469574911218810240),
     (False, 4861174886025864717, 694256215993555443),
     (False, 26128822063772825, 9200844907964049424),
     (True, 13767559202076774753, 6056283875901747615),
     (True, 5965048506254606319, 14063892808589640276),
     (False, 10722384404923142194, 12205548321395415902),
     (False, 8075973150889291659, 7216866819936995065),
     (False, 2823434124782130104, 17549074363733854841),
     (False, 16695087754509859595, 15423748610660725286),
     (False, 12896152313366391453, 13595635941797573383),
     (False, 10020267856828568885, 9842549597680612604),
     (False, 5251646698098153066, 1337294358501982630),
     (False, 96946983952923868, 5325329911042243272),
     (False, 1537351987685552391, 5221367999496604473),
     (False, 1477913049781492787, 15412305368138815102),
     (False, 12877023493517734284, 16191345338952709240),
     (False, 14211703859430483069, 2298967105118016451),
     (False, 286513963143114321, 6447197367109474360),
     (False, 2253316560041723674, 8164661628442494246),
     (False, 3613737972192551855, 5380222146680643061),
     (False, 1569208649434659089, 1609244475207906152),
     (False, 140386171740786423, 18332326853853973321),
     (False, 18218619319046094680, 2510387608370256761),
     (False, 341634595272993120, 14373156502773339601),
     (False, 11199137748961662103, 6996469297471152138),
     (False, 2653616402236448754, 1900197295013585010),
     (False, 195739136748999965, 362112569578151335),
     (False, 7108328307319158, 3118209301712560507),
     (False, 527097313905288286, 2921070153775533243),
     (False, 462555929174822932, 6356985805439647877),
     (False, 2190699257196537792, 5797675593703447897),
     (False, 1822166674148006000, 14236101464779796609),
     (False, 10986577585338461594, 15587202262274831207),
     (False, 13170935393845689536, 10296967901281711793),
     (False, 5747764893416810550, 17073700798457888299),
     (False, 15802857016843340024, 211587555138949697),
     (False, 2426948263672574, 1041288259238279555)]"

definition fifth_exp :: nat where "fifth_exp = 3689348813882916864"

definition zeta :: gl where "zeta = of_nat 1041288259238279555"

lemma zeta_power: "(3 :: gl) ^ fifth_exp = zeta"
proof -
  have chain: "power_chain gp 3 1 fifth_certificate 1041288259238279555"
    unfolding fifth_certificate_def power_chain.simps by simp
  have exp: "chain_exp 0 fifth_certificate = fifth_exp" by (simp add: fifth_certificate_def fifth_exp_def)
  have "3 ^ fifth_exp mod gp = 1041288259238279555 mod gp" using power_chain_mod [OF chain, of 0] unfolding exp by simp
  then have "3 ^ fifth_exp mod gp = 1041288259238279555" by (simp only: mod_less numeral_less_iff) simp
  then have "(of_nat (3 ^ fifth_exp mod gp) :: gl) = zeta" by (simp only: zeta_def)
  moreover have "(of_nat (m mod gp) :: gl) = of_nat m" for m
  proof -
    have "(of_int (int m mod gpi) :: gl) = of_int (int m)" unfolding gl_of_int_eq by simp
    moreover have "int (m mod gp) = int m mod gpi" by (simp add: of_nat_mod)
    ultimately show ?thesis by (metis of_int_of_nat_eq)
  qed
  ultimately show ?thesis by (simp only: of_nat_power of_nat_numeral)
qed

lemma zeta_pow5: "zeta ^ 5 = 1"
proof -
  have three: "(3 :: gl) \<noteq> 0"
  proof
    assume "(3 :: gl) = 0"
    then have "(of_int 3 :: gl) = of_int 0" by simp
    then show False unfolding gl_of_int_eq by simp
  qed
  have "zeta ^ 5 = (3 :: gl) ^ (fifth_exp * 5)" by (simp only: power_mult flip: zeta_power)
  also have "fifth_exp * 5 = gp - 1" by (simp add: fifth_exp_def)
  finally show ?thesis unfolding gl_power_one [OF three] .
qed

lemma gl_of_nat_inj: "m < gp \<Longrightarrow> n < gp \<Longrightarrow> (of_nat m :: gl) = of_nat n \<longleftrightarrow> m = n"
proof
  assume mn: "m < gp" "n < gp" and "(of_nat m :: gl) = of_nat n"
  then have "(of_int (int m) :: gl) = of_int (int n)" by simp
  then have "int m mod gpi = int n mod gpi" unfolding gl_of_int_eq .
  with mn show "m = n" by simp
qed simp

lemma gl_of_nat_eq: "m mod gp = n mod gp \<Longrightarrow> (of_nat m :: gl) = of_nat n"
proof -
  assume "m mod gp = n mod gp"
  then have "int m mod int gp = int n mod int gp" by (simp only: flip: of_nat_mod)
  then have "(of_int (int m) :: gl) = of_int (int n)" unfolding gl_of_int_eq by simp
  then show ?thesis by simp
qed

lemma gl_of_nat_ne_1: "2 \<le> n mod gp \<Longrightarrow> (of_nat n :: gl) \<noteq> 1"
proof
  assume n: "2 \<le> n mod gp" and "(of_nat n :: gl) = 1"
  then have "(of_int (int n) :: gl) = of_int 1" by simp
  then have "int n mod int gp = 1 mod int gp" unfolding gl_of_int_eq by simp
  then have "int (n mod gp) = 1" by (simp add: of_nat_mod)
  with n show False by simp
qed

lemma zeta_ne_1: "zeta \<noteq> 1" "zeta ^ 2 \<noteq> 1" "zeta ^ 3 \<noteq> 1" "zeta ^ 4 \<noteq> 1"
  unfolding zeta_def of_nat_power [symmetric] by (rule gl_of_nat_ne_1; simp)+

text \<open>\<^verbatim>\<open>frobenius\<close>, coefficient by coefficient, is the power with the order of the base field.\<close>

fun frob :: "gl lqe \<Rightarrow> gl lqe" where
  "frob (LQE a0 a1 a2 a3 a4) = LQE a0 (zeta * a1) (zeta ^ 2 * a2) (zeta ^ 3 * a3) (zeta ^ 4 * a4)"

lemma lqe_char: "(of_nat gp :: gl lqe) = 0"
  by (simp only: lqe_of_nat gl_char lqe_const_0_1)

lemma z_frob: "(lqe_z :: gl lqe) ^ gp = lqe_const zeta * lqe_z"
proof -
  have "gp = Suc (5 * fifth_exp)" by (simp add: fifth_exp_def)
  then have "(lqe_z :: gl lqe) ^ gp = (lqe_z ^ 5) ^ fifth_exp * lqe_z" by (simp only: power_Suc2 power_mult)
  then show ?thesis by (simp only: lqe_z_pow5 lqe_const_hom zeta_power)
qed

lemma const_frob: "(lqe_const a :: gl lqe) ^ gp = lqe_const a"
  by (simp only: lqe_const_hom gl_fermat)

lemma power_commuting: "((x :: 'a :: comm_ring_1) ^ i) ^ j = (x ^ j) ^ i"
  by (simp only: mult.commute flip: power_mult)

lemma power_gp_frob: "(x :: gl lqe) ^ gp = frob x"
proof (cases x)
  case (LQE a0 a1 a2 a3 a4)
  have zi: "((lqe_z :: gl lqe) ^ i) ^ gp = lqe_const (zeta ^ i) * lqe_z ^ i" for i
  proof -
    have "((lqe_z :: gl lqe) ^ i) ^ gp = (lqe_z ^ gp) ^ i" by (rule power_commuting)
    then show ?thesis by (simp only: z_frob power_mult_distrib lqe_const_hom)
  qed
  have "x ^ gp = lqe_const a0 + lqe_const a1 * (lqe_const zeta * lqe_z) + lqe_const a2 * (lqe_const (zeta ^ 2) * lqe_z ^ 2)
      + lqe_const a3 * (lqe_const (zeta ^ 3) * lqe_z ^ 3) + lqe_const a4 * (lqe_const (zeta ^ 4) * lqe_z ^ 4)"
    unfolding LQE lqe_basis by (simp only: frobenius_add [OF lqe_char] power_mult_distrib const_frob zi z_frob)
  also have "\<dots> = LQE a0 (zeta * a1) (zeta ^ 2 * a2) (zeta ^ 3 * a3) (zeta ^ 4 * a4)" unfolding lqe_basis
    by (simp only: lqe_const_hom(1) flip: mult.assoc) (simp only: mult.commute)
  also have "\<dots> = frob x" by (simp only: LQE frob.simps)
  finally show ?thesis .
qed

lemma frob_frob5: "frob (frob (frob (frob (frob x)))) = x"
proof (cases x)
  case (LQE a0 a1 a2 a3 a4)
  have five: "c * (c * (c * (c * (c * a)))) = c ^ 5 * a" for c a :: gl by (simp add: eval_nat_numeral ac_simps)
  have "(zeta ^ i) ^ 5 = 1" for i using power_commuting [of zeta i 5] by (simp add: zeta_pow5)
  then show ?thesis by (simp only: LQE frob.simps five zeta_pow5 mult_1)
qed

lemma frob_hom: "frob (x * y) = frob x * frob y"
  by (simp only: power_mult_distrib flip: power_gp_frob)

lemma frob_fixed:
  assumes "frob x = x"
  shows "\<exists>a. x = lqe_const a"
proof (cases x)
  case (LQE a0 a1 a2 a3 a4)
  have "a = 0" if "c * a = a" "c \<noteq> 1" for c a :: gl
  proof -
    have "(c - 1) * a = 0" using that(1) by (simp add: left_diff_distrib)
    then show ?thesis using that(2) by simp
  qed
  note this [OF _ zeta_ne_1(1)] this [OF _ zeta_ne_1(2)] this [OF _ zeta_ne_1(3)] this [OF _ zeta_ne_1(4)]
  then have "a1 = 0 \<and> a2 = 0 \<and> a3 = 0 \<and> a4 = 0" using assms unfolding LQE frob.simps lqe.inject by blast
  then show ?thesis by (auto simp: LQE lqe_const_def)
qed

subsection \<open>No zero divisors\<close>

text \<open>
  A power of \<open>x\<close> is an idempotent that the automorphism fixes, hence 0 or 1, and it is 0 only for
  \<open>x = 0\<close>. So every other element is a unit.
\<close>

lemma power_gp5: "(x :: gl lqe) ^ (gp ^ 5) = x"
proof -
  have "x ^ (p ^ 5) = ((((x ^ p) ^ p) ^ p) ^ p) ^ p" for p :: nat
    by (simp only: power_mult [symmetric]) (simp add: eval_nat_numeral mult.assoc)
  from this [of gp] show ?thesis by (simp only: power_gp_frob frob_frob5)
qed

lemma idem_power: "(e :: 'a :: comm_ring_1) * e = e \<Longrightarrow> 0 < n \<Longrightarrow> e ^ n = e"
proof (induction n)
  case (Suc n)
  then show ?case by (cases n) simp_all
qed simp

lemma idempotent:
  assumes "(x :: 'a :: comm_ring_1) ^ q = x" "2 \<le> q"
  shows "x ^ (q - 1) * x ^ (q - 1) = x ^ (q - 1)" "x * x ^ (q - 1) = x"
proof -
  obtain m where q: "q = Suc (Suc m)" using assms(2) by (cases q; cases "q - 1") simp_all
  have "x ^ (q - 1) * x ^ (q - 1) = x ^ q * x ^ m" by (simp add: q flip: power_add)
  then show "x ^ (q - 1) * x ^ (q - 1) = x ^ (q - 1)" by (simp add: assms(1)) (simp add: q)
  show "x * x ^ (q - 1) = x" using assms(1) by (simp add: q)
qed

lemma lqe_unit:
  assumes "(x :: gl lqe) \<noteq> 0"
  obtains y where "x * y = 1"
proof -
  define q where "q = gp ^ 5"
  have q: "x ^ q = x" "2 \<le> q" unfolding q_def by (rule power_gp5) simp
  define e where "e = x ^ (q - 1)"
  note e = idempotent [OF q, folded e_def]
  have "e ^ gp = e" by (rule idem_power [OF e(1)]) simp
  then have "frob e = e" by (simp only: power_gp_frob)
  then obtain a where a: "e = lqe_const a" using frob_fixed by blast
  have "a * a = a" using e(1) by (simp add: a)
  then have "a * (a - 1) = 0" by (simp add: algebra_simps)
  moreover have "a \<noteq> 0" using e(2) assms by (auto simp: a lqe_const_0_1)
  ultimately have "e = 1" by (simp add: a lqe_const_0_1)
  moreover have "e = x * x ^ (q - 2)" unfolding e_def using q(2) by (metis Suc_1 Suc_diff_le diff_Suc_Suc power_Suc)
  ultimately show thesis using that by metis
qed

lemma lqe_mult_eq_0: "(x :: gl lqe) * y = 0 \<longleftrightarrow> x = 0 \<or> y = 0"
proof
  assume *: "x * y = 0"
  show "x = 0 \<or> y = 0"
  proof (cases "x = 0")
    case False
    then obtain u where "x * u = 1" by (rule lqe_unit)
    then have "y = u * (x * y)" by (metis mult.assoc mult.commute mult_1)
    with * show ?thesis by simp
  qed simp
qed auto

subsection \<open>The field\<close>

fun lqe_head :: "'a lqe \<Rightarrow> 'a" where "lqe_head (LQE a0 a1 a2 a3 a4) = a0"

definition lqe_conj :: "gl lqe \<Rightarrow> gl lqe" where
  "lqe_conj x = frob x * frob (frob x) * frob (frob (frob x)) * frob (frob (frob (frob x)))"

lemma lqe_head_const [simp]: "lqe_head (lqe_const a) = a"
  by (simp add: lqe_const_def)

lemma norm_const: "x * lqe_conj x = lqe_const (lqe_head (x * lqe_conj x))"
proof -
  have "frob (x * lqe_conj x) = x * lqe_conj x"
    by (simp only: lqe_conj_def frob_hom frob_frob5) (simp only: ac_simps)
  from frob_fixed [OF this] show ?thesis by auto
qed

lemma frob_eq_0: "frob x = 0 \<Longrightarrow> x = 0"
proof -
  assume "frob x = 0"
  then have "x ^ gp = 0" by (simp only: power_gp_frob)
  moreover have "x ^ n \<noteq> 0" if "x \<noteq> 0" for n using that by (induction n) (simp_all add: lqe_mult_eq_0)
  ultimately show ?thesis by blast
qed

datatype gfp5 = GFp5 (coeffs: "gl lqe")

instantiation gfp5 :: field
begin

definition zero_gfp5 :: gfp5 where "zero_gfp5 = GFp5 0"
definition one_gfp5 :: gfp5 where "one_gfp5 = GFp5 1"
definition plus_gfp5 :: "gfp5 \<Rightarrow> gfp5 \<Rightarrow> gfp5" where "plus_gfp5 x y = GFp5 (coeffs x + coeffs y)"
definition minus_gfp5 :: "gfp5 \<Rightarrow> gfp5 \<Rightarrow> gfp5" where "minus_gfp5 x y = GFp5 (coeffs x - coeffs y)"
definition uminus_gfp5 :: "gfp5 \<Rightarrow> gfp5" where "uminus_gfp5 x = GFp5 (- coeffs x)"
definition times_gfp5 :: "gfp5 \<Rightarrow> gfp5 \<Rightarrow> gfp5" where "times_gfp5 x y = GFp5 (coeffs x * coeffs y)"
definition inverse_gfp5 :: "gfp5 \<Rightarrow> gfp5" where
  "inverse_gfp5 x = GFp5 (lqe_conj (coeffs x) * lqe_const (inverse (lqe_head (coeffs x * lqe_conj (coeffs x)))))"
definition divide_gfp5 :: "gfp5 \<Rightarrow> gfp5 \<Rightarrow> gfp5" where "divide_gfp5 x y = x * inverse y"

lemmas gfp5_ops = zero_gfp5_def one_gfp5_def plus_gfp5_def minus_gfp5_def uminus_gfp5_def times_gfp5_def

instance
proof
  fix a b c :: gfp5
  show "a + b + c = a + (b + c)" "a + b = b + a" "0 + a = a" "- a + a = 0" "a - b = a + - b"
    "a * b * c = a * (b * c)" "a * b = b * a" "1 * a = a" "(a + b) * c = a * c + b * c" "(0 :: gfp5) \<noteq> 1"
    by (simp_all add: gfp5_ops algebra_simps)
  show "a div b = a * inverse b" by (rule divide_gfp5_def)
  show "inverse 0 = (0 :: gfp5)"
    by (simp add: inverse_gfp5_def gfp5_ops lqe_conj_def lqe_ops lqe_const_def Let_def)
  assume "a \<noteq> 0"
  then have x: "coeffs a \<noteq> 0" by (cases a) (simp add: gfp5_ops)
  let ?x = "coeffs a" and ?n = "lqe_head (coeffs a * lqe_conj (coeffs a))"
  have "?x * lqe_conj ?x \<noteq> 0" using x frob_eq_0 unfolding lqe_conj_def lqe_mult_eq_0 by blast
  then have "?n \<noteq> 0" using norm_const [of ?x] lqe_const_0_1(1) by metis
  then have "?x * (lqe_conj ?x * lqe_const (inverse ?n)) = 1"
    by (subst mult.assoc [symmetric], subst norm_const) (simp add: lqe_const_0_1)
  then show "inverse a * a = 1" by (simp add: inverse_gfp5_def gfp5_ops mult.commute)
qed

end

lemma coeffs_ops: "coeffs (x + y) = coeffs x + coeffs y" "coeffs (x - y) = coeffs x - coeffs y" "coeffs (x * y) = coeffs x * coeffs y"
  "coeffs (- x) = - coeffs x" "coeffs 0 = 0" "coeffs 1 = 1"
  by (simp_all add: gfp5_ops)

subsection \<open>The interface of \<^verbatim>\<open>plonky2_field\<close>\<close>

text \<open>
  What the curve uses of \<^verbatim>\<open>QuinticExtension<GoldilocksField>\<close>: conversion from and to the array of
  coefficients, \<^verbatim>\<open>frobenius\<close>, and the square root of the base field. The laws are the documented
  ones: a field of arrays multiplied modulo \<open>z ^ 5 - 3\<close>, the power with the order of the base field,
  and a root of every square.
\<close>

record 'k ext =
  of5 :: "gl lqe \<Rightarrow> 'k"
  to5 :: "'k \<Rightarrow> gl lqe"
  frobenius :: "'k \<Rightarrow> 'k"
  base_sqrt :: "gl \<Rightarrow> gl option"

locale quintic_ext =
  fixes K :: "'k :: field ext"
  assumes of5_to5: "of5 K (to5 K x) = x"
    and to5_of5: "to5 K (of5 K v) = v"
    and to5_add: "to5 K (x + y) = to5 K x + to5 K y"
    and to5_mul: "to5 K (x * y) = to5 K x * to5 K y"
    and frobenius: "frobenius K x = x ^ gp"
    and base_root: "base_sqrt K a = Some r \<Longrightarrow> r * r = a"
    and base_total: "base_sqrt K (r * r) \<noteq> None"
begin

lemma of5_add: "of5 K (u + v) = of5 K u + of5 K v"
  by (metis of5_to5 to5_of5 to5_add)

lemma of5_mul: "of5 K (u * v) = of5 K u * of5 K v"
  by (metis of5_to5 to5_of5 to5_mul)

lemma of5_inj: "of5 K u = of5 K v \<longleftrightarrow> u = v"
  by (metis to5_of5)

lemma of5_0: "of5 K 0 = 0"
  using of5_add [of 0 0] by (metis add_0 add_right_cancel)

lemma of5_1: "of5 K 1 = 1"
proof -
  have "of5 K 1 * of5 K 1 = of5 K 1" by (simp flip: of5_mul)
  moreover have "of5 K 1 \<noteq> 0" by (metis of5_0 of5_inj zero_neq_one)
  ultimately show ?thesis by simp
qed

lemma of5_sub: "of5 K (u - v) = of5 K u - of5 K v"
  using of5_add [of "u - v" v] by simp

lemma of5_neg: "of5 K (- u) = - of5 K u"
  using of5_sub [of 0 u] by (simp add: of5_0)

lemma of5_of_nat: "of5 K (of_nat n) = of_nat n"
  by (induction n) (simp_all add: of5_0 of5_1 of5_add)

lemma of5_power: "of5 K (u ^ n) = of5 K u ^ n"
  by (induction n) (simp_all add: of5_1 of5_mul)

lemma to5_0: "to5 K 0 = 0" and to5_1: "to5 K 1 = 1"
  by (metis of5_0 to5_of5, metis of5_1 to5_of5)

lemma to5_sub: "to5 K (x - y) = to5 K x - to5 K y"
  by (metis of5_to5 to5_of5 of5_sub)

lemma to5_power: "to5 K (x ^ n) = to5 K x ^ n"
  by (metis of5_to5 to5_of5 of5_power)

lemma to5_inj: "to5 K x = to5 K y \<longleftrightarrow> x = y"
  by (metis of5_to5)

lemma char_k: "(of_nat gp :: 'k) = 0"
  by (metis of5_of_nat lqe_char of5_0)

lemmas of5_hom = of5_add of5_mul of5_sub of5_neg of5_0 of5_1 of5_power

text \<open>Elements of the base field are those that the automorphism fixes.\<close>

lemma fixed_const: "x ^ gp = x \<Longrightarrow> \<exists>a. x = of5 K (lqe_const a)"
proof -
  assume "x ^ gp = x"
  then have "to5 K x ^ gp = to5 K x" by (simp only: flip: to5_power)
  then have "frob (to5 K x) = to5 K x" by (simp only: power_gp_frob)
  then obtain a where "to5 K x = lqe_const a" using frob_fixed by blast
  then show ?thesis by (metis of5_to5)
qed

lemma power_gp5_k: "(x :: 'k) ^ (gp ^ 5) = x"
proof -
  have "to5 K (x ^ (gp ^ 5)) = to5 K x" by (simp only: to5_power power_gp5)
  then show ?thesis by (simp only: to5_inj)
qed

lemma two_ne_0: "(2 :: 'k) \<noteq> 0"
proof
  assume "(2 :: 'k) = 0"
  then have "of5 K (of_nat 2) = of5 K 0" by (simp only: of5_of_nat of5_0) simp
  then have "(of_nat 2 :: gl lqe) = 0" by (simp only: of5_inj)
  then have "(of_nat 2 :: gl) = of_nat 0" by (simp only: lqe_of_nat lqe_const_0_1(1) [symmetric] lqe_const_hom(6)) simp
  then have "(of_int 2 :: gl) = of_int 0" by simp
  then show False unfolding gl_of_int_eq by simp
qed

end

definition gl_sqrt :: "gl \<Rightarrow> gl option" where
  "gl_sqrt a = find (\<lambda>r. r * r = a) (map of_nat [0..<gp])"

definition gfp5_ext :: "gfp5 ext" where
  "gfp5_ext = \<lparr>of5 = GFp5, to5 = coeffs, frobenius = GFp5 \<circ> frob \<circ> coeffs, base_sqrt = gl_sqrt\<rparr>"

lemma coeffs_power: "coeffs (x ^ n) = coeffs x ^ n"
  by (induction n) (simp_all add: coeffs_ops)

interpretation gfp5: quintic_ext gfp5_ext
proof
  fix x y :: gfp5 and v :: "gl lqe" and a r :: gl
  show "of5 gfp5_ext (to5 gfp5_ext x) = x" "to5 gfp5_ext (of5 gfp5_ext v) = v"
    "to5 gfp5_ext (x + y) = to5 gfp5_ext x + to5 gfp5_ext y" "to5 gfp5_ext (x * y) = to5 gfp5_ext x * to5 gfp5_ext y"
    by (simp_all add: gfp5_ext_def coeffs_ops)
  have "coeffs (x ^ gp) = frob (coeffs x)" by (simp only: coeffs_power power_gp_frob)
  then have "x ^ gp = GFp5 (frob (coeffs x))" by (metis gfp5.collapse)
  then show "frobenius gfp5_ext x = x ^ gp" by (simp only: gfp5_ext_def ext.simps o_apply)
  show "base_sqrt gfp5_ext a = Some r \<Longrightarrow> r * r = a"
    unfolding gfp5_ext_def ext.simps gl_sqrt_def by (auto simp only: find_Some_iff nth_map length_map)
  obtain n where "r = of_nat n" "n < gp" using gl_cases .
  then have "r \<in> of_nat ` {0..<gp}" by (simp only: atLeastLessThan_iff image_iff) auto
  then show "base_sqrt gfp5_ext (r * r) \<noteq> None"
    unfolding gfp5_ext_def ext.simps gl_sqrt_def find_None_iff set_map set_upt by blast
qed

end
