(* ===== verification/Scalar_Arith.thy ===== *)
theory Scalar_Arith
  imports Doxa_Prelude
begin

unbundle bit_operations_syntax

section \<open>Scalars of the signature curve\<close>

text \<open>
  The type \<^verbatim>\<open>Scalar\<close> of \<^verbatim>\<open>doxa-client/src/schnorr.rs\<close>: integers modulo the group order in five
  64-bit limbs, little-endian. The inner loops are recursions over the limbs with the carries
  as arguments; 128-bit intermediates are \<open>128 word\<close>, so that \<^verbatim>\<open>wrapping_add\<close> and the casts are
  those of the code. The theorems relate every operation to arithmetic modulo the order.
\<close>

type_synonym u128 = "128 word"
type_synonym scalar = "u64 list"

definition SCALAR_BITS :: nat where "SCALAR_BITS = 319"

definition SCALAR_N :: scalar where
  "SCALAR_N = [0xE80FD996948BFFE1, 0xE8885C39D724A09C, 0x7FFFFFE6CFB80639, 0x7FFFFFF100000016, 0x7FFFFFFD80000007]"

definition SCALAR_N0I :: u64 where "SCALAR_N0I = 0xD78BEF72057B7BDF"

definition SCALAR_ONE :: scalar where "SCALAR_ONE = [1, 0, 0, 0, 0]"

definition SCALAR_ZERO :: scalar where "SCALAR_ZERO = [0, 0, 0, 0, 0]"

definition SCALAR_R2 :: scalar where
  "SCALAR_R2 = [0xA01001DCE33DC739, 0x6C3228D33F62ACCF, 0xD1D796CC91CF8525, 0xAADFFF5D1574C1D8, 0x4ACA13B28CA251F5]"

definition SCALAR_T632 :: scalar where
  "SCALAR_T632 = [0x2B0266F317CA91B3, 0xEC1D26528E984773, 0x8651D7865E12DB94, 0xDA2ADFF5941574D0, 0x53CACA12110CA256]"

definition to_bit_arr :: "scalar \<Rightarrow> bool list" where
  "to_bit_arr s = map (\<lambda>i. (drop_bit (i mod 64) (s ! (i div 64))) AND 1 = 1) [0..<SCALAR_BITS]"

subsection \<open>Limb loops\<close>

fun add_carry :: "u64 list \<Rightarrow> u64 list \<Rightarrow> u64 \<Rightarrow> u64 list" where
  "add_carry (x # xs) (y # ys) c =
     (let z = ucast x + ucast y + (ucast c :: u128) in
      ucast z # add_carry xs ys (ucast (drop_bit 64 z)))"
| "add_carry _ _ c = []"

definition add_inner :: "scalar \<Rightarrow> scalar \<Rightarrow> scalar" where
  "add_inner s a = add_carry s a 0"

fun sub_borrow :: "u64 list \<Rightarrow> u64 list \<Rightarrow> u64 \<Rightarrow> u64 list \<times> u64" where
  "sub_borrow (x # xs) (y # ys) c =
     (let z = ucast x - ucast y - (ucast c :: u128);
          (r, c') = sub_borrow xs ys (ucast (drop_bit 64 z) AND 1) in
      (ucast z # r, c'))"
| "sub_borrow _ _ c = ([], c)"

definition sub_inner :: "scalar \<Rightarrow> scalar \<Rightarrow> scalar \<times> u64" where
  "sub_inner s a = sub_borrow s a 0"

definition add_mod :: "scalar \<Rightarrow> scalar \<Rightarrow> scalar" where
  "add_mod s a = (let t = add_inner s a; (w, cc) = sub_inner t SCALAR_N in if cc = 0 then w else t)"

definition sub_mod :: "scalar \<Rightarrow> scalar \<Rightarrow> scalar" where
  "sub_mod s a = (case sub_inner s a of (t, cc) \<Rightarrow> if cc = 0 then t else add_inner t SCALAR_N)"

definition neg_mod :: "scalar \<Rightarrow> scalar" where
  "neg_mod s = sub_mod SCALAR_ZERO s"

text \<open>
  One row of the Montgomery product: for every \<open>j\<close> the low word of the accumulated sum, and the
  two final carries. The code stores the word of \<open>j\<close> at position \<open>j - 1\<close> and drops the first.
\<close>

fun monty_row :: "u64 \<Rightarrow> u64 \<Rightarrow> u64 list \<Rightarrow> u64 list \<Rightarrow> u64 list \<Rightarrow> u64 \<Rightarrow> u64 \<Rightarrow> u64 list \<times> u64 \<times> u64" where
  "monty_row m f (a # as) (n # ns) (r # rs) cc1 cc2 =
     (let z = ucast a * ucast m + ucast r + (ucast cc1 :: u128);
          cc1' = ucast (drop_bit 64 z);
          z' = ucast f * ucast n + ucast (ucast z :: u64) + (ucast cc2 :: u128);
          cc2' = ucast (drop_bit 64 z');
          (out, c) = monty_row m f as ns rs cc1' cc2' in
      (ucast z' # out, c))"
| "monty_row m f _ _ _ cc1 cc2 = ([], cc1, cc2)"

definition monty_step :: "scalar \<Rightarrow> u64 \<Rightarrow> scalar \<Rightarrow> scalar" where
  "monty_step a m r =
     (let f = (a ! 0 * m + r ! 0) * SCALAR_N0I;
          (out, cc1, cc2) = monty_row m f a SCALAR_N r 0 0 in
      tl out @ [cc1 + cc2])"

definition montymul :: "scalar \<Rightarrow> scalar \<Rightarrow> scalar" where
  "montymul a rhs =
     (let r = fold (monty_step a) rhs SCALAR_ZERO; (r2, cc) = sub_inner r SCALAR_N in
      if cc = 0 then r2 else r)"

definition mul_mod :: "scalar \<Rightarrow> scalar \<Rightarrow> scalar" where
  "mul_mod a rhs = montymul (montymul a SCALAR_R2) rhs"

subsection \<open>Decoding\<close>

text \<open>
  The loop of \<^verbatim>\<open>decode\<close> over the bytes with their index: the first forty are shifted into the
  limbs, the others are collected in \<^verbatim>\<open>extra\<close>.
\<close>

fun decode_loop :: "bytes \<Rightarrow> nat \<Rightarrow> scalar \<Rightarrow> u8 \<Rightarrow> scalar \<times> u8" where
  "decode_loop [] i r extra = (r, extra)"
| "decode_loop (b # bs) i r extra =
     (if i < 40
      then decode_loop bs (Suc i) (r[i div 8 := r ! (i div 8) OR push_bit (8 * (i mod 8)) (ucast b)]) extra
      else decode_loop bs (Suc i) r (extra OR b))"

definition scalar_decode :: "bytes \<Rightarrow> scalar option" where
  "scalar_decode buf =
     (let n = length buf; (r, extra) = decode_loop buf 0 SCALAR_ZERO 0 in
      if n \<le> 39 then Some r
      else let (_, c) = sub_inner r SCALAR_N;
               valid = c AND (drop_bit 8 (ucast extra + 0xFF) - 1) in
           if valid \<noteq> 0 then Some r else None)"

text \<open>The loop of \<^verbatim>\<open>decode_reduce\<close>: \<open>k\<close> counts the chunks of 39 bytes still to be read.\<close>

fun reduce_loop :: "bytes \<Rightarrow> nat \<Rightarrow> scalar \<Rightarrow> (unit, scalar) result" where
  "reduce_loop buf 0 acc = Inr acc"
| "reduce_loop buf (Suc k) acc =
     bind_r (unwrap (scalar_decode (slice_at buf (39 * k) 39)))
       (\<lambda>b. reduce_loop buf k (add_mod (montymul acc SCALAR_T632) b))"

definition decode_reduce :: "bytes \<Rightarrow> (unit, scalar) result" where
  "decode_reduce buf =
     (let n = length buf in
      if n \<le> 39 then unwrap (scalar_decode buf)
      else let k = (n - 1) div 39 in
           bind_r (unwrap (scalar_decode (drop (39 * k) buf))) (reduce_loop buf k))"

text \<open>\<^verbatim>\<open>from_hash\<close>: the canonical words of five field elements with the two top bits cleared.\<close>

definition from_hash_words :: "u64 list \<Rightarrow> scalar" where
  "from_hash_words h = h[4 := drop_bit 2 (push_bit 2 (h ! 4))]"

subsection \<open>Values\<close>

definition sval :: "u64 list \<Rightarrow> nat" where
  "sval s = dvalue (2 ^ 64) (map unat s)"

definition GROUP_ORDER :: nat where
  "GROUP_ORDER = 1067993516717146951041484916571792702745057740581727230159139685185762082554198619328292418486241"

lemma sval_simps [simp]: "sval [] = 0" "sval (x # xs) = unat x + 2 ^ 64 * sval xs"
  by (simp_all add: sval_def)

lemma sval_append: "sval (xs @ ys) = sval xs + (2 ^ 64) ^ length xs * sval ys"
  by (simp add: sval_def dvalue_append)

lemma u64_less: "unat (x :: u64) < 2 ^ 64"
  using unsigned_less [where 'a = nat, of x] by simp

lemma sval_less: "sval s < (2 ^ 64) ^ length s"
  using dvalue_less [of "map unat s" "2 ^ 64"] u64_less by (auto simp: sval_def)

lemma sval_inj: "length a = length b \<Longrightarrow> sval a = sval b \<Longrightarrow> a = b"
  using dvalue_inj [of "map unat a" "map unat b" "2 ^ 64"] u64_less
  by (auto simp: sval_def dest!: map_injective intro: injI)

lemma sval_consts:
  "sval SCALAR_N = GROUP_ORDER" "sval SCALAR_ZERO = 0" "sval SCALAR_ONE = 1"
  "sval SCALAR_R2 = 2 ^ 640 mod GROUP_ORDER" "sval SCALAR_T632 = 2 ^ 632 mod GROUP_ORDER"
  by (simp_all add: SCALAR_N_def SCALAR_ZERO_def SCALAR_ONE_def SCALAR_R2_def SCALAR_T632_def GROUP_ORDER_def)

lemma length_consts [simp]:
  "length SCALAR_N = 5" "length SCALAR_ZERO = 5" "length SCALAR_R2 = 5" "length SCALAR_T632 = 5" "length SCALAR_ONE = 5"
  by (simp_all add: SCALAR_N_def SCALAR_ZERO_def SCALAR_R2_def SCALAR_T632_def SCALAR_ONE_def)

lemma order_bounds: "0 < GROUP_ORDER" "GROUP_ORDER < 2 ^ 319" "2 ^ 318 < GROUP_ORDER"
  by (simp_all add: GROUP_ORDER_def)

subsection \<open>Words of double width\<close>

lemma unat_wide: "unat (ucast (x :: u64) :: u128) = unat x"
  using u64_less [of x] by (simp add: unsigned_ucast_eq take_bit_eq_mod)

lemma uint_wide: "uint (ucast (x :: u64) :: u128) = int (unat x)"
  using unat_wide [of x] by (simp only: uint_nat)

lemma unat_low: "unat (ucast (z :: u128) :: u64) = unat z mod 2 ^ 64"
  by (simp add: unsigned_ucast_eq take_bit_eq_mod)

lemma unat_high: "unat (ucast (drop_bit 64 (z :: u128)) :: u64) = unat z div 2 ^ 64"
proof -
  have "unat z div 2 ^ 64 < 2 ^ 64"
    using unsigned_less [where 'a = nat, of z] by (simp add: less_mult_imp_div_less)
  then show ?thesis
    unfolding unat_low unat_drop_bit_eq drop_bit_eq_div [where 'a = nat] by (rule mod_less)
qed

lemma low_high: "unat (ucast (z :: u128) :: u64) + 2 ^ 64 * unat (ucast (drop_bit 64 z) :: u64) = unat z"
  by (simp only: unat_high unat_low [of z] mod_mult_div_eq)

lemma unat_add3: "unat (ucast (x :: u64) + ucast (y :: u64) + (ucast (c :: u64) :: u128)) = unat x + unat y + unat c"
  using u64_less [of x] u64_less [of y] u64_less [of c] by (simp add: unat_word_ariths unat_wide)

lemma unat_mul_add:
  "unat (ucast (x :: u64) * ucast (y :: u64) + ucast (r :: u64) + (ucast (c :: u64) :: u128))
    = unat x * unat y + unat r + unat c"
proof -
  have "unat x * unat y \<le> (2 ^ 64 - 1) * (2 ^ 64 - 1)"
    using u64_less [of x] u64_less [of y] by (intro mult_le_mono) simp_all
  then show ?thesis
    using u64_less [of r] u64_less [of c] by (simp add: unat_word_ariths unat_wide)
qed

subsection \<open>Addition and subtraction\<close>

lemma mod_digit: "l < b \<Longrightarrow> (l + b * s) mod (b * m) = l + b * (s mod m)" for l b :: nat
  by (simp add: mod_mult2_eq)

lemma digit_div_mod: "l < b \<Longrightarrow> (l + b * s) div b = s" "l < b \<Longrightarrow> (l + b * s) mod b = l" for l b :: nat
  by simp_all

lemma length_add_carry [simp]: "length (add_carry xs ys c) = min (length xs) (length ys)"
  by (induction xs ys c rule: add_carry.induct) (simp_all add: Let_def)

lemma add_carry_value:
  assumes "length xs = length ys"
  shows "sval (add_carry xs ys c) = (sval xs + sval ys + unat c) mod (2 ^ 64) ^ length xs"
  using assms
proof (induction xs ys c rule: add_carry.induct)
  case (1 x xs y ys c)
  define z where "z = ucast x + ucast y + (ucast c :: u128)"
  define l h where "l = unat (ucast z :: u64)" and "h = unat (ucast (drop_bit 64 z) :: u64)"
  have z: "l + 2 ^ 64 * h = unat x + unat y + unat c"
    unfolding l_def h_def low_high by (simp add: z_def unat_add3)
  have "l < 2 ^ 64" unfolding l_def by (rule u64_less)
  let ?M = "(2 ^ 64) ^ length xs" and ?S = "sval xs + sval ys + h"
  have "sval (x # xs) + sval (y # ys) + unat c = l + 2 ^ 64 * ?S"
    using z by (simp add: algebra_simps)
  then have "(sval (x # xs) + sval (y # ys) + unat c) mod (2 ^ 64 * ?M) = (l + 2 ^ 64 * ?S) mod (2 ^ 64 * ?M)"
    by (simp only:)
  also have "\<dots> = l + 2 ^ 64 * (?S mod ?M)"
    using \<open>l < 2 ^ 64\<close> by (rule mod_digit)
  also have "?S mod ?M = sval (add_carry xs ys (ucast (drop_bit 64 z)))"
    using 1 by (simp add: z_def h_def)
  finally show ?case using 1 by (simp add: Let_def l_def flip: z_def)
qed simp_all

lemma length_sub_borrow [simp]: "length (fst (sub_borrow xs ys c)) = min (length xs) (length ys)"
  by (induction xs ys c rule: sub_borrow.induct) (simp_all add: Let_def case_prod_beta)

lemma sub_digit_nat:
  fixes x y c z :: nat
  assumes "x < 2 ^ 64" "y < 2 ^ 64" "c \<le> 1" "int z = (int x - int y - int c) mod 2 ^ 128"
  shows "x + 2 ^ 64 * (z div 2 ^ 64 mod 2) = z mod 2 ^ 64 + y + c"
proof (cases "y + c \<le> x")
  case True
  then have "int z = int x - int y - int c" using assms by (subst assms(4), subst mod_pos_pos_trivial) auto
  then show ?thesis using assms(1) True by auto
next
  case False
  have "(int x - int y - int c) mod 2 ^ 128 = (int x - int y - int c + 2 ^ 128) mod 2 ^ 128" by simp
  also have "\<dots> = int x - int y - int c + 2 ^ 128"
    using False assms(1-3) by (subst mod_pos_pos_trivial) auto
  finally have "int (z + y + c) = int (x + 2 ^ 128)" using assms(4) by simp
  then have z: "z + y + c = x + 2 ^ 128" by (simp only: of_nat_eq_iff)
  define q where "q = x + 2 ^ 64 - y - c"
  have "z = q + 2 ^ 64 * (2 ^ 64 - 1)" "q < 2 ^ 64" using z False assms(2,3) by (simp_all add: q_def)
  then have "z div 2 ^ 64 = 2 ^ 64 - 1" "z mod 2 ^ 64 = q" by (simp_all only: digit_div_mod)
  then show ?thesis using assms(2,3) by (simp add: q_def)
qed

lemma sub_digit:
  fixes x y c :: u64
  defines "z \<equiv> ucast x - ucast y - (ucast c :: u128)"
  assumes "unat c \<le> 1"
  shows "unat x + 2 ^ 64 * unat (ucast (drop_bit 64 z) AND (1 :: u64)) = unat (ucast z :: u64) + unat y + unat c"
    and "unat (ucast (drop_bit 64 z) AND (1 :: u64)) \<le> 1"
proof -
  have "int (unat z) = (int (unat x) - int (unat y) - int (unat c)) mod 2 ^ 128"
    unfolding z_def uint_nat [symmetric] uint_word_ariths uint_wide by (simp add: mod_diff_left_eq)
  then have "unat x + 2 ^ 64 * (unat z div 2 ^ 64 mod 2) = unat z mod 2 ^ 64 + unat y + unat c"
    by (intro sub_digit_nat u64_less assms(2))
  moreover have "unat (ucast (drop_bit 64 z) AND (1 :: u64)) = unat z div 2 ^ 64 mod 2"
    unfolding unat_high [symmetric] by (simp only: and_one_eq unat_mod) simp
  ultimately show "unat x + 2 ^ 64 * unat (ucast (drop_bit 64 z) AND (1 :: u64)) = unat (ucast z :: u64) + unat y + unat c"
    "unat (ucast (drop_bit 64 z) AND (1 :: u64)) \<le> 1"
    by (simp_all only: unat_low)
qed

lemma sub_borrow_value:
  assumes "length xs = length ys" "unat c \<le> 1" "sub_borrow xs ys c = (r, c')"
  shows "sval xs + (2 ^ 64) ^ length xs * unat c' = sval r + sval ys + unat c \<and> unat c' \<le> 1"
  using assms
proof (induction xs ys c arbitrary: r rule: sub_borrow.induct)
  case (1 x xs y ys c)
  define z where "z = ucast x - ucast y - (ucast c :: u128)"
  define d where "d = ucast (drop_bit 64 z) AND (1 :: u64)"
  obtain r' where r': "sub_borrow xs ys d = (r', c')" "r = ucast z # r'"
    using 1(4) by (auto simp: Let_def d_def z_def split: prod.splits)
  have dig: "unat x + 2 ^ 64 * unat d = unat (ucast z :: u64) + unat y + unat c" "unat d \<le> 1"
    using sub_digit [OF 1(3), of x y] by (simp_all add: d_def z_def)
  have "sval xs + (2 ^ 64) ^ length xs * unat c' = sval r' + sval ys + unat d \<and> unat c' \<le> 1"
    using 1(1) [OF z_def _ _ r'(1) [unfolded d_def]] 1(2) dig(2) by (simp add: d_def)
  with dig(1) r'(2) show ?case by (simp add: algebra_simps)
qed simp_all

text \<open>The results of the modular operations on reduced scalars.\<close>

definition reduced :: "scalar \<Rightarrow> bool" where
  "reduced s \<longleftrightarrow> length s = 5 \<and> sval s < GROUP_ORDER"

lemma reducedD: "reduced s \<Longrightarrow> length s = 5" "reduced s \<Longrightarrow> sval s < GROUP_ORDER"
  by (simp_all add: reduced_def)

lemma limbs5: "(2 ^ 64) ^ 5 = (2 :: nat) ^ 320" by simp

lemma add_inner_value:
  assumes "length a = 5" "length b = 5" "sval a + sval b < 2 ^ 320"
  shows "length (add_inner a b) = 5 \<and> sval (add_inner a b) = sval a + sval b"
  using add_carry_value [of a b 0] assms by (simp add: add_inner_def)

lemma sub_inner_value:
  assumes "length a = 5" "length b = 5" "sub_inner a b = (r, c)"
  shows "length r = 5" and "c = 0 \<longleftrightarrow> sval b \<le> sval a" and "c = 0 \<or> c = 1"
    and "sval r = (if sval b \<le> sval a then sval a - sval b else sval a + 2 ^ 320 - sval b)"
proof -
  have v: "sval a + 2 ^ 320 * unat c = sval r + sval b" "unat c \<le> 1"
    using sub_borrow_value [of a b 0 r c] assms by (simp_all add: sub_inner_def)
  show l: "length r = 5"
    using length_sub_borrow [of a b 0] unfolding assms(3) [unfolded sub_inner_def] by (simp add: assms(1,2))
  have c: "c = 0 \<longleftrightarrow> unat c = 0" "c = 1 \<longleftrightarrow> unat c = 1"
    by (simp_all only: word_unat_eq_iff unat_0 unat_1)
  show "c = 0 \<or> c = 1" using v(2) c by linarith
  have b: "sval b < 2 ^ 320" "sval r < 2 ^ 320"
    using sval_less [of b] sval_less [of r] assms l by simp_all
  show "c = 0 \<longleftrightarrow> sval b \<le> sval a"
    using v b c(1) by (cases "unat c = 0") auto
  then show "sval r = (if sval b \<le> sval a then sval a - sval b else sval a + 2 ^ 320 - sval b)"
    using v b c by (cases "unat c = 0") auto
qed

lemma cond_sub_value:
  assumes "length a = 5" "sval a < 2 * GROUP_ORDER" "sub_inner a SCALAR_N = (w, cc)"
  shows "reduced (if cc = 0 then w else a)" "sval (if cc = 0 then w else a) = sval a mod GROUP_ORDER"
proof -
  note s = sub_inner_value [OF assms(1) _ assms(3), unfolded sval_consts]
  show "sval (if cc = 0 then w else a) = sval a mod GROUP_ORDER"
    using s(2,4) assms(2) by (auto simp: mod_if le_mod_geq)
  then show "reduced (if cc = 0 then w else a)"
    using s(1) assms(1) order_bounds(1) by (auto simp: reduced_def)
qed

lemma add_mod_value:
  assumes "reduced a" "reduced b"
  shows "reduced (add_mod a b)" "sval (add_mod a b) = (sval a + sval b) mod GROUP_ORDER"
proof -
  obtain w cc where w: "sub_inner (add_inner a b) SCALAR_N = (w, cc)" by (cases "sub_inner (add_inner a b) SCALAR_N")
  have "sval a + sval b < 2 * GROUP_ORDER" using reducedD(2) [OF assms(1)] reducedD(2) [OF assms(2)] by simp
  moreover have "2 * GROUP_ORDER < 2 ^ 320" by (simp add: GROUP_ORDER_def)
  ultimately have t: "length (add_inner a b) = 5" "sval (add_inner a b) = sval a + sval b" "sval (add_inner a b) < 2 * GROUP_ORDER"
    using add_inner_value [of a b] assms by (simp_all add: reduced_def)
  show "reduced (add_mod a b)" "sval (add_mod a b) = (sval a + sval b) mod GROUP_ORDER"
    using cond_sub_value [OF t(1,3) w] t(2) by (simp_all add: add_mod_def Let_def w)
qed

lemma sub_mod_value:
  assumes "reduced a" "reduced b"
  shows "reduced (sub_mod a b)" "int (sval (sub_mod a b)) = (int (sval a) - int (sval b)) mod int GROUP_ORDER"
proof -
  obtain t cc where t: "sub_inner a b = (t, cc)" by (cases "sub_inner a b")
  note s = sub_inner_value [OF reducedD(1) [OF assms(1)] reducedD(1) [OF assms(2)] t]
  note r = reducedD(2) [OF assms(1)] reducedD(2) [OF assms(2)]
  have "length (sub_mod a b) = 5 \<and> sval (sub_mod a b) =
      (if sval b \<le> sval a then sval a - sval b else sval a + GROUP_ORDER - sval b)"
  proof (cases "sval b \<le> sval a")
    case True
    then show ?thesis using s t by (simp add: sub_mod_def)
  next
    case False
    have "sval (add_carry t SCALAR_N 0) = (sval t + GROUP_ORDER) mod 2 ^ 320"
      using add_carry_value [of t SCALAR_N 0] s(1) by (simp add: sval_consts)
    also have "sval t + GROUP_ORDER = sval a + GROUP_ORDER - sval b + 2 ^ 320"
      using s(4) False r order_bounds(2) by auto
    also have "\<dots> mod 2 ^ 320 = (sval a + GROUP_ORDER - sval b) mod 2 ^ 320" by (rule mod_add_self2)
    also have "\<dots> = sval a + GROUP_ORDER - sval b"
      using False order_bounds(2) by (intro mod_less) simp
    finally show ?thesis using False s t by (simp add: sub_mod_def add_inner_def)
  qed
  then show "reduced (sub_mod a b)" using r by (auto simp: reduced_def)
  have "(int (sval a) - int (sval b)) mod int GROUP_ORDER =
      int (if sval b \<le> sval a then sval a - sval b else sval a + GROUP_ORDER - sval b)"
  proof (cases "sval b \<le> sval a")
    case True
    then show ?thesis using r by (simp add: of_nat_diff flip: of_nat_mod)
  next
    case False
    have "(int (sval a) - int (sval b)) mod int GROUP_ORDER = int (sval a + GROUP_ORDER - sval b) mod int GROUP_ORDER"
      using r by (simp add: of_nat_diff) (metis add_diff_eq diff_add_eq mod_add_self2)
    also have "\<dots> = int (sval a + GROUP_ORDER - sval b)"
      using False r by (simp flip: of_nat_mod)
    finally show ?thesis using False by simp
  qed
  then show "int (sval (sub_mod a b)) = (int (sval a) - int (sval b)) mod int GROUP_ORDER"
    using \<open>length (sub_mod a b) = 5 \<and> _\<close> by simp
qed

subsection \<open>Montgomery multiplication\<close>

lemma monty_row_value:
  assumes "length as = length ns" "length rs = length ns" "monty_row m f as ns rs cc1 cc2 = (out, c1, c2)"
  shows "length out = length ns \<and> sval out + (2 ^ 64) ^ length ns * (unat c1 + unat c2)
    = unat m * sval as + unat f * sval ns + sval rs + unat cc1 + unat cc2"
  using assms
proof (induction m f as ns rs cc1 cc2 arbitrary: out rule: monty_row.induct)
  case (1 m f a as n ns r rs cc1 cc2)
  define z where "z = ucast a * ucast m + ucast r + (ucast cc1 :: u128)"
  define d1 :: u64 where "d1 = ucast (drop_bit 64 z)"
  define z' where "z' = ucast f * ucast n + ucast (ucast z :: u64) + (ucast cc2 :: u128)"
  define d2 :: u64 where "d2 = ucast (drop_bit 64 z')"
  obtain out' where row: "monty_row m f as ns rs d1 d2 = (out', c1, c2)" "out = ucast z' # out'"
    using 1(4) by (auto simp: Let_def z_def z'_def d1_def d2_def split: prod.splits)
  have "unat (ucast z :: u64) + 2 ^ 64 * unat d1 = unat a * unat m + unat r + unat cc1"
    unfolding d1_def low_high by (simp add: z_def unat_mul_add)
  moreover have "unat (ucast z' :: u64) + 2 ^ 64 * unat d2 = unat f * unat n + unat (ucast z :: u64) + unat cc2"
    unfolding d2_def low_high by (simp add: z'_def unat_mul_add)
  ultimately have "unat (ucast z' :: u64) + 2 ^ 64 * (unat d1 + unat d2)
      = unat m * unat a + unat f * unat n + unat r + unat cc1 + unat cc2"
    by (simp add: mult.commute)
  moreover have "length out' = length ns \<and> sval out' + (2 ^ 64) ^ length ns * (unat c1 + unat c2)
      = unat m * sval as + unat f * sval ns + sval rs + unat d1 + unat d2"
    using 1(1) [OF z_def d1_def z'_def d2_def _ _ row(1)] 1(2,3) by simp
  ultimately show ?case using row(2) by (simp add: algebra_simps)
qed simp_all

lemma monty_factor: "(x :: u64) + x * SCALAR_N0I * 0xE80FD996948BFFE1 = 0"
proof -
  have "SCALAR_N0I * 0xE80FD996948BFFE1 = (- 1 :: u64)" by (simp add: SCALAR_N0I_def)
  then show ?thesis by (simp add: mult.assoc)
qed

lemma monty_step_value:
  assumes "length a = 5" "length r = 5" "sval a < GROUP_ORDER" "sval r < sval a + GROUP_ORDER"
  shows "length (monty_step a m r) = 5" "sval (monty_step a m r) < sval a + GROUP_ORDER"
    "\<exists>q. 2 ^ 64 * sval (monty_step a m r) = unat m * sval a + q * GROUP_ORDER + sval r"
proof -
  let ?B = "(2 :: nat) ^ 64"
  define f where "f = (a ! 0 * m + r ! 0) * SCALAR_N0I"
  obtain out c1 c2 where row: "monty_row m f a SCALAR_N r 0 0 = (out, c1, c2)" by (metis prod_cases3)
  note v = monty_row_value [OF _ _ row, unfolded sval_consts, simplified, OF assms(1,2)]
  obtain o0 out' where out: "out = o0 # out'" "length out' = 4" using v by (cases out) auto
  obtain a0 a' r0 r' where ar: "a = a0 # a'" "r = r0 # r'" using assms(1,2) by (cases a; cases r) auto
  obtain nh where nh: "GROUP_ORDER = 0xE80FD996948BFFE1 + ?B * nh"
  proof
    show "GROUP_ORDER = 0xE80FD996948BFFE1 + ?B * (GROUP_ORDER div ?B)" by (simp add: GROUP_ORDER_def)
  qed
  have "unat o0 = (unat o0 + ?B * (sval out' + ?B ^ 4 * (unat c1 + unat c2))) mod ?B"
    by (rule digit_div_mod(2) [OF u64_less, symmetric])
  also have "unat o0 + ?B * (sval out' + ?B ^ 4 * (unat c1 + unat c2)) = unat m * sval a + unat f * GROUP_ORDER + sval r"
    using v by (simp add: out algebra_simps)
  also have "\<dots> = unat m * unat a0 + unat f * 0xE80FD996948BFFE1 + unat r0
      + ?B * (unat m * sval a' + unat f * nh + sval r')"
    by (simp add: ar nh algebra_simps)
  also have "\<dots> mod ?B = (unat m * unat a0 + unat f * 0xE80FD996948BFFE1 + unat r0) mod ?B"
    by (rule mod_mult_self2)
  also have "\<dots> = unat (m * a0 + f * 0xE80FD996948BFFE1 + r0)"
    by (simp add: unat_word_ariths mod_simps)
  also have "m * a0 + f * 0xE80FD996948BFFE1 + r0 = 0"
    using monty_factor [of "a0 * m + r0"] by (simp add: f_def ar algebra_simps)
  finally have "unat o0 = 0" by simp
  define s where "s = sval out' + ?B ^ 4 * (unat c1 + unat c2)"
  have s: "?B * s = unat m * sval a + unat f * GROUP_ORDER + sval r"
    using v \<open>unat o0 = 0\<close> by (simp add: s_def out algebra_simps)
  have "?B * s \<le> (?B - 1) * sval a + (?B - 1) * GROUP_ORDER + sval r"
    unfolding s using u64_less [of m] u64_less [of f] by (intro add_mono mult_le_mono) simp_all
  also have "\<dots> < ?B * (sval a + GROUP_ORDER)" using assms(4) by (simp add: algebra_simps)
  finally have less: "s < sval a + GROUP_ORDER" by simp
  have "2 * GROUP_ORDER < ?B ^ 5" by (simp add: GROUP_ORDER_def)
  with less assms(3) have "s < ?B ^ 4 * ?B" by simp
  then have "?B ^ 4 * (unat c1 + unat c2) < ?B ^ 4 * ?B" by (simp add: s_def)
  then have "unat c1 + unat c2 < ?B" by (simp only: mult_less_cancel1)
  then have "unat (c1 + c2) = unat c1 + unat c2" by (simp add: unat_word_ariths)
  moreover have step: "monty_step a m r = out' @ [c1 + c2]" using row by (simp add: monty_step_def Let_def f_def out)
  ultimately have val: "sval (monty_step a m r) = s" by (simp add: sval_append out s_def)
  show "length (monty_step a m r) = 5" by (simp add: step out)
  show "sval (monty_step a m r) < sval a + GROUP_ORDER" using less val by simp
  show "\<exists>q. 2 ^ 64 * sval (monty_step a m r) = unat m * sval a + q * GROUP_ORDER + sval r"
    using s val by auto
qed

lemma monty_fold_value:
  assumes "length a = 5" "length r = 5" "sval a < GROUP_ORDER" "sval r < sval a + GROUP_ORDER"
  shows "length (fold (monty_step a) ms r) = 5 \<and> sval (fold (monty_step a) ms r) < sval a + GROUP_ORDER
    \<and> (\<exists>q. (2 ^ 64) ^ length ms * sval (fold (monty_step a) ms r) = sval ms * sval a + q * GROUP_ORDER + sval r)"
  using assms(2,4)
proof (induction ms arbitrary: r)
  case Nil
  then show ?case by (auto intro: exI [of _ 0])
next
  case (Cons m ms)
  let ?B = "(2 :: nat) ^ 64"
  note st = monty_step_value [OF assms(1) Cons.prems(1) assms(3) Cons.prems(2), of m]
  define res where "res = fold (monty_step a) ms (monty_step a m r)"
  obtain q0 where q0: "?B * sval (monty_step a m r) = unat m * sval a + q0 * GROUP_ORDER + sval r" using st(3) by blast
  obtain q where ih: "length res = 5" "sval res < sval a + GROUP_ORDER"
      "?B ^ length ms * sval res = sval ms * sval a + q * GROUP_ORDER + sval (monty_step a m r)"
    using Cons.IH [OF st(1,2)] unfolding res_def by blast
  have "?B ^ length (m # ms) * sval res = ?B * (?B ^ length ms * sval res)"
    by (simp add: mult.assoc)
  also have "\<dots> = sval (m # ms) * sval a + (?B * q + q0) * GROUP_ORDER + sval r"
    unfolding ih(3) using q0 by (simp add: algebra_simps)
  finally show ?case using ih(1,2) unfolding res_def by auto
qed

lemma montymul_value:
  assumes "reduced a" "length b = 5"
  shows "reduced (montymul a b)" "2 ^ 320 * sval (montymul a b) mod GROUP_ORDER = sval a * sval b mod GROUP_ORDER"
proof -
  define r where "r = fold (monty_step a) b SCALAR_ZERO"
  have "length SCALAR_ZERO = 5" "sval SCALAR_ZERO < sval a + GROUP_ORDER" using order_bounds(1) by (simp_all add: sval_consts)
  then obtain q where r: "length r = 5" "sval r < sval a + GROUP_ORDER"
      "2 ^ 320 * sval r = sval b * sval a + q * GROUP_ORDER"
    using monty_fold_value [OF reducedD(1) [OF assms(1)] _ reducedD(2) [OF assms(1)], of SCALAR_ZERO b] assms(2)
    unfolding r_def by (auto simp: sval_consts)
  obtain w cc where w: "sub_inner r SCALAR_N = (w, cc)" by (cases "sub_inner r SCALAR_N")
  have "sval r < 2 * GROUP_ORDER" using r(2) reducedD(2) [OF assms(1)] by simp
  note c = cond_sub_value [OF r(1) this w]
  have m: "montymul a b = (if cc = 0 then w else r)" by (simp add: montymul_def Let_def w flip: r_def)
  show "reduced (montymul a b)" using c(1) m by simp
  have "2 ^ 320 * sval (montymul a b) mod GROUP_ORDER = 2 ^ 320 * sval r mod GROUP_ORDER"
    unfolding m c(2) by (rule mod_mult_right_eq)
  then show "2 ^ 320 * sval (montymul a b) mod GROUP_ORDER = sval a * sval b mod GROUP_ORDER"
    unfolding r(3) by (simp only: mod_mult_self1 mult.commute [of "sval b"])
qed

text \<open>The inverse of \<open>2 ^ 320\<close> modulo the order.\<close>

definition R_INV :: nat where
  "R_INV = 519679583025372136018720917052386563050428570135014399121072568572014882575672595950654573385832"

lemma cancel_R: "2 ^ 320 * x mod GROUP_ORDER = 2 ^ 320 * y mod GROUP_ORDER \<Longrightarrow> x mod GROUP_ORDER = y mod GROUP_ORDER"
proof -
  assume e: "2 ^ 320 * x mod GROUP_ORDER = 2 ^ 320 * y mod GROUP_ORDER"
  have inv: "R_INV * 2 ^ 320 mod GROUP_ORDER = 1" by (simp add: R_INV_def GROUP_ORDER_def)
  have "z mod GROUP_ORDER = R_INV * (2 ^ 320 * z mod GROUP_ORDER) mod GROUP_ORDER" for z
  proof -
    have "R_INV * (2 ^ 320 * z mod GROUP_ORDER) mod GROUP_ORDER = (R_INV * 2 ^ 320) * z mod GROUP_ORDER"
      by (simp only: mod_mult_right_eq mult.assoc)
    also have "\<dots> = (R_INV * 2 ^ 320 mod GROUP_ORDER) * z mod GROUP_ORDER" by (simp only: mod_mult_left_eq)
    finally show ?thesis unfolding inv by simp
  qed
  then show ?thesis using e by metis
qed

lemma mul_mod_value:
  assumes "reduced a" "length b = 5"
  shows "reduced (mul_mod a b)" "sval (mul_mod a b) = sval a * sval b mod GROUP_ORDER"
proof -
  note m1 = montymul_value [OF assms(1) length_consts(3), unfolded sval_consts]
  note m2 = montymul_value [OF m1(1) assms(2)]
  show r: "reduced (mul_mod a b)" using m2(1) by (simp add: mul_mod_def)
  have "2 ^ 320 * sval (montymul a SCALAR_R2) mod GROUP_ORDER = 2 ^ 320 * (2 ^ 320 * sval a) mod GROUP_ORDER"
  proof -
    have "2 ^ 640 = (2 ^ 320 * 2 ^ 320 :: nat)" by (simp only: power_add [symmetric]) simp
    then show ?thesis unfolding m1(2) mod_mult_right_eq by (simp only: ac_simps)
  qed
  then have c: "sval (montymul a SCALAR_R2) mod GROUP_ORDER = 2 ^ 320 * sval a mod GROUP_ORDER" by (rule cancel_R)
  have "2 ^ 320 * sval (mul_mod a b) mod GROUP_ORDER = (sval (montymul a SCALAR_R2) mod GROUP_ORDER) * sval b mod GROUP_ORDER"
    using m2(2) by (simp only: mul_mod_def mod_mult_left_eq)
  also have "\<dots> = 2 ^ 320 * (sval a * sval b) mod GROUP_ORDER"
    unfolding c by (simp only: mod_mult_left_eq mult.assoc)
  finally have "sval (mul_mod a b) mod GROUP_ORDER = sval a * sval b mod GROUP_ORDER" by (rule cancel_R)
  then show "sval (mul_mod a b) = sval a * sval b mod GROUP_ORDER" using reducedD(2) [OF r] by simp
qed

subsection \<open>Decoding bytes\<close>

lemma sval_update: "j < length s \<Longrightarrow> sval (s[j := v]) + (2 ^ 64) ^ j * unat (s ! j) = sval s + (2 ^ 64) ^ j * unat v"
proof (induction s arbitrary: j)
  case (Cons x s)
  show ?case
  proof (cases j)
    case (Suc i)
    then have "2 ^ 64 * (sval (s[i := v]) + (2 ^ 64) ^ i * unat (s ! i)) = 2 ^ 64 * (sval s + (2 ^ 64) ^ i * unat v)"
      using Cons by simp
    then show ?thesis using Suc by (simp add: algebra_simps)
  qed simp
qed simp

lemma sval_split: "j < length s \<Longrightarrow> sval s = sval (take j s) + (2 ^ 64) ^ j * (unat (s ! j) + 2 ^ 64 * sval (drop (Suc j) s))"
  by (subst id_take_nth_drop [of j s], assumption, subst sval_append) simp

lemma or_shifted_byte:
  fixes x :: u64 and b :: u8
  assumes "k < 8" "unat x < 256 ^ k"
  shows "unat (x OR push_bit (8 * k) (ucast b)) = unat x + 256 ^ k * unat b"
proof -
  have e: "(256 :: nat) ^ k = 2 ^ (8 * k)" by (simp add: power_mult)
  have "\<not> bit x n" if "8 * k \<le> n" for n
  proof -
    have "unat x < 2 ^ n"
      using assms(2) unfolding e by (rule less_le_trans) (use that in \<open>simp add: power_increasing\<close>)
    then have "unat x div 2 ^ n = 0" by (rule div_less)
    show ?thesis
    proof
      assume "bit x n"
      then have "bit (unat x) n" by (simp add: bit_unsigned_iff)
      with \<open>unat x div 2 ^ n = 0\<close> show False by (simp add: bit_iff_odd)
    qed
  qed
  then have "x OR push_bit (8 * k) (ucast b) = x + push_bit (8 * k) (ucast b)"
    by (intro disjunctive_add [symmetric]) (auto simp: bit_push_bit_iff)
  moreover have "unat (push_bit (8 * k) (ucast b :: u64)) = 2 ^ (8 * k) * unat b \<and> unat x + 2 ^ (8 * k) * unat b < 2 ^ 64"
  proof
    have b: "unat b < 2 ^ 8" using unsigned_less [where 'a = nat, of b] by simp
    have "2 ^ (8 * k) * unat b \<le> 2 ^ (8 * k) * (255 :: nat)" using b by (intro mult_le_mono) simp_all
    moreover have "(2 :: nat) ^ (8 * k) * 2 ^ 8 = 2 ^ (8 * k) * 255 + 2 ^ (8 * k)" by simp
    ultimately have "unat x + 2 ^ (8 * k) * unat b < 2 ^ (8 * k) * 2 ^ 8"
      using assms(2) unfolding e by linarith
    also have "\<dots> = 2 ^ (8 * k + 8)" by (simp add: power_add)
    also have "\<dots> \<le> (2 :: nat) ^ 64" using assms(1) by (intro power_increasing) simp_all
    finally show "unat x + 2 ^ (8 * k) * unat b < 2 ^ 64" .
    then have "2 ^ (8 * k) * unat b < 2 ^ 64" by simp
    moreover have "unat (ucast b :: u64) = unat b" using b by (simp add: unsigned_ucast_eq take_bit_eq_mod)
    ultimately show "unat (push_bit (8 * k) (ucast b :: u64)) = 2 ^ (8 * k) * unat b"
      unfolding unsigned_push_bit_eq push_bit_eq_mult [where 'a = nat] take_bit_eq_mod by (simp add: mult.commute)
  qed
  ultimately show ?thesis unfolding e by (simp add: unat_word_ariths)
qed

lemma byte_position: "(256 :: nat) ^ i = (2 ^ 64) ^ (i div 8) * 256 ^ (i mod 8)"
proof -
  have "(256 :: nat) ^ (8 * (i div 8) + i mod 8) = (256 ^ 8) ^ (i div 8) * 256 ^ (i mod 8)"
    by (simp only: power_add power_mult)
  then show ?thesis by simp
qed

lemma decode_limb:
  assumes "length r = 5" "i < 40" "sval r < 256 ^ i"
  shows "unat (r ! (i div 8)) < 256 ^ (i mod 8)"
proof -
  let ?j = "i div 8" and ?k = "i mod 8"
  have "(2 ^ 64) ^ ?j * (unat (r ! ?j) + 2 ^ 64 * sval (drop (Suc ?j) r)) < (2 ^ 64) ^ ?j * 256 ^ ?k"
    using assms sval_split [of ?j r] byte_position [of i] by linarith
  then have "unat (r ! ?j) + 2 ^ 64 * sval (drop (Suc ?j) r) < 256 ^ ?k" by (simp only: mult_less_cancel1)
  then show ?thesis by simp
qed

lemma le_value_bound: "le_value (map unat (bs :: bytes)) < 256 ^ length bs"
  using le_value_lt [OF byte_digits_lt, of bs] by simp

lemma decode_loop_value:
  assumes "length r = 5" "i + length bs \<le> 40" "sval r < 256 ^ i"
  shows "\<exists>r'. decode_loop bs i r extra = (r', extra) \<and> length r' = 5
    \<and> sval r' = sval r + 256 ^ i * le_value (map unat bs)"
  using assms
proof (induction bs arbitrary: i r)
  case (Cons b bs)
  let ?j = "i div 8" and ?k = "i mod 8"
  define v where "v = r ! ?j OR push_bit (8 * ?k) (ucast b)"
  have i: "i < 40" "?j < length r" using Cons.prems by simp_all
  have "unat v = unat (r ! ?j) + 256 ^ ?k * unat b"
    unfolding v_def using decode_limb [OF Cons.prems(1) i(1) Cons.prems(3)] by (intro or_shifted_byte) simp_all
  then have "sval (r[?j := v]) = sval r + (2 ^ 64) ^ ?j * (256 ^ ?k * unat b)"
    using sval_update [OF i(2), of v] by (simp add: algebra_simps)
  also have "(2 ^ 64) ^ ?j * (256 ^ ?k * unat b) = 256 ^ i * unat b" unfolding byte_position [of i] by (rule mult.assoc [symmetric])
  finally have u: "sval (r[?j := v]) = sval r + 256 ^ i * unat b" .
  have "unat b \<le> 255" using unsigned_less [where 'a = nat, of b] by simp
  then have "256 ^ i * unat b \<le> 256 ^ i * (255 :: nat)" by (rule mult_le_mono2)
  then have "sval (r[?j := v]) < 256 ^ Suc i"
    unfolding u power_Suc using Cons.prems(3) by linarith
  then obtain r' where "decode_loop bs (Suc i) (r[?j := v]) extra = (r', extra)" "length r' = 5"
      "sval r' = sval (r[?j := v]) + 256 ^ Suc i * le_value (map unat bs)"
    using Cons.IH [of "r[?j := v]" "Suc i"] Cons.prems by auto
  then show ?case using i u by (auto simp: v_def algebra_simps)
qed simp

lemma decode_loop_extra:
  "40 \<le> i \<Longrightarrow> decode_loop bs i r extra = (r, foldr (OR) bs extra)"
proof (induction bs arbitrary: i extra)
  case (Cons b bs)
  have "foldr (OR) bs (extra OR b) = b OR foldr (OR) bs extra"
    by (induction bs) (simp_all add: or.left_commute or.commute)
  with Cons show ?case by simp
qed simp

lemma foldr_or_zero: "foldr (OR) bs (0 :: u8) = 0 \<longleftrightarrow> (\<forall>b \<in> set bs. b = 0)"
  by (induction bs) (simp_all add: or_eq_0_iff)

lemma decode_loop_append:
  "decode_loop (xs @ ys) i r extra = (case decode_loop xs i r extra of (r', e') \<Rightarrow> decode_loop ys (i + length xs) r' e')"
  by (induction xs arbitrary: i r extra) simp_all

lemma le_value_append: "le_value (xs @ ys) = le_value xs + 256 ^ length xs * le_value ys"
  by (induction xs) simp_all

lemma le_value_zero: "\<forall>b \<in> set bs. b = 0 \<Longrightarrow> le_value (map unat (bs :: bytes)) = 0"
  by (induction bs) simp_all

lemma le_value_pos: "\<exists>b \<in> set bs. b \<noteq> 0 \<Longrightarrow> 0 < le_value (map unat (bs :: bytes))"
proof (induction bs)
  case (Cons b bs)
  then have "0 < unat b \<or> 0 < le_value (map unat bs)" unfolding unat_gt_0 by auto
  then show ?case by auto
qed simp

lemma extra_mask: "drop_bit 8 (ucast (e :: u8) + (0xFF :: u64)) - 1 = (if e = 0 then - 1 else 0)"
proof -
  have e: "unat (ucast e :: u64) = unat e" "unat e < 256"
    using unsigned_less [where 'a = nat, of e] by (simp_all add: unsigned_ucast_eq take_bit_eq_mod)
  then have "unat (ucast e + (0xFF :: u64)) = unat e + 255" by (simp add: unat_word_ariths)
  then have u: "unat (drop_bit 8 (ucast e + (0xFF :: u64))) = (unat e + 255) div 256"
    by (simp add: unat_drop_bit_eq drop_bit_eq_div [where 'a = nat])
  show ?thesis
  proof (cases "e = 0")
    case False
    then have "0 < unat e" by (simp add: unat_gt_0)
    with e(2) have "(unat e + 255) div 256 = 1" by (intro div_nat_eqI) simp_all
    with u have "drop_bit 8 (ucast e + (0xFF :: u64)) = 1" by (simp add: word_unat_eq_iff)
    with False show ?thesis by simp
  qed simp
qed

lemma scalar_decode_short:
  assumes "length buf \<le> 39"
  shows "\<exists>s. scalar_decode buf = Some s \<and> length s = 5 \<and> sval s = le_value (map unat buf)"
proof -
  obtain r where "decode_loop buf 0 SCALAR_ZERO 0 = (r, 0)" "length r = 5" "sval r = le_value (map unat buf)"
    using decode_loop_value [of SCALAR_ZERO 0 buf 0] assms by (auto simp: sval_consts)
  then show ?thesis using assms by (simp add: scalar_decode_def)
qed

lemma scalar_decode_long:
  assumes "40 \<le> length buf"
  shows "if le_value (map unat buf) < GROUP_ORDER
    then \<exists>s. scalar_decode buf = Some s \<and> length s = 5 \<and> sval s = le_value (map unat buf)
    else scalar_decode buf = None"
proof -
  define hd tl where "hd = take 40 buf" and "tl = drop 40 buf"
  have buf: "buf = hd @ tl" "length hd = 40" using assms by (simp_all add: hd_def tl_def)
  define e where "e = foldr (OR) tl 0"
  obtain r where "decode_loop hd 0 SCALAR_ZERO 0 = (r, 0)" and r: "length r = 5" "sval r = le_value (map unat hd)"
    using decode_loop_value [of SCALAR_ZERO 0 hd 0] buf(2) by (auto simp: sval_consts)
  then have loop: "decode_loop buf 0 SCALAR_ZERO 0 = (r, e)"
    by (simp add: buf decode_loop_append decode_loop_extra e_def)
  obtain w c where w: "sub_inner r SCALAR_N = (w, c)" by (cases "sub_inner r SCALAR_N")
  note s = sub_inner_value [OF r(1) _ w, unfolded sval_consts, simplified]
  have "c AND (if e = 0 then - 1 else 0) \<noteq> 0 \<longleftrightarrow> e = 0 \<and> sval r < GROUP_ORDER"
    using s(2) by auto
  then have dec: "scalar_decode buf = (if e = 0 \<and> sval r < GROUP_ORDER then Some r else None)"
    using assms loop w by (simp add: scalar_decode_def Let_def extra_mask)
  have val: "le_value (map unat buf) = sval r + 2 ^ 320 * le_value (map unat tl)"
    using buf r(2) by (simp add: le_value_append)
  show ?thesis
  proof (cases "e = 0")
    case True
    then have "le_value (map unat tl) = 0" unfolding e_def foldr_or_zero by (rule le_value_zero)
    with dec val r True show ?thesis by auto
  next
    case False
    then have "0 < le_value (map unat tl)" unfolding e_def foldr_or_zero by (intro le_value_pos) blast
    then have "2 ^ 320 * 1 \<le> 2 ^ 320 * le_value (map unat tl)" by (intro mult_le_mono2) simp
    then have "\<not> le_value (map unat buf) < GROUP_ORDER"
      unfolding val using order_bounds(2) by simp
    with dec False show ?thesis by simp
  qed
qed

lemma scalar_decode_chunk:
  assumes "length buf \<le> 39"
  shows "\<exists>s. scalar_decode buf = Some s \<and> reduced s \<and> sval s = le_value (map unat buf)"
proof -
  have "le_value (map unat buf) < 256 ^ length buf" by (rule le_value_bound)
  also have "\<dots> \<le> 256 ^ 39" using assms by (intro power_increasing) simp_all
  also have "\<dots> < GROUP_ORDER" by (simp add: GROUP_ORDER_def)
  finally show ?thesis using scalar_decode_short [OF assms] by (auto simp: reduced_def)
qed

lemma montymul_T632:
  assumes "reduced a"
  shows "sval (montymul a SCALAR_T632) = 256 ^ 39 * sval a mod GROUP_ORDER"
proof -
  note m = montymul_value [OF assms length_consts(4), unfolded sval_consts]
  have "(2 :: nat) ^ 632 = 2 ^ 320 * 256 ^ 39" by simp
  then have "2 ^ 320 * sval (montymul a SCALAR_T632) mod GROUP_ORDER = 2 ^ 320 * (256 ^ 39 * sval a) mod GROUP_ORDER"
    unfolding m(2) mod_mult_right_eq by (simp only: ac_simps)
  then have "sval (montymul a SCALAR_T632) mod GROUP_ORDER = 256 ^ 39 * sval a mod GROUP_ORDER" by (rule cancel_R)
  then show ?thesis using reducedD(2) [OF m(1)] by simp
qed

lemma chunk_value:
  assumes "39 * Suc k \<le> length buf"
  shows "le_value (map unat (drop (39 * k) buf)) =
    le_value (map unat (slice_at buf (39 * k) 39)) + 256 ^ 39 * le_value (map unat (drop (39 * Suc k) buf))"
proof -
  have "drop (39 * k) buf = slice_at buf (39 * k) 39 @ drop (39 * Suc k) buf"
    using append_take_drop_id [of 39 "drop (39 * k) buf"] by (simp add: slice_at_def add.commute)
  moreover have "length (slice_at buf (39 * k) 39) = 39" using assms by (simp add: slice_at_def)
  ultimately show ?thesis by (simp add: le_value_append)
qed

lemma reduce_loop_value:
  assumes "39 * k \<le> length buf" "reduced acc" "sval acc = le_value (map unat (drop (39 * k) buf)) mod GROUP_ORDER"
  shows "\<exists>s. reduce_loop buf k acc = Inr s \<and> reduced s \<and> sval s = le_value (map unat buf) mod GROUP_ORDER"
  using assms
proof (induction k arbitrary: acc)
  case (Suc k)
  have "length (slice_at buf (39 * k) 39) \<le> 39" by (simp add: slice_at_def)
  then obtain b where b: "scalar_decode (slice_at buf (39 * k) 39) = Some b" "reduced b"
      "sval b = le_value (map unat (slice_at buf (39 * k) 39))"
    using scalar_decode_chunk by blast
  have m: "reduced (montymul acc SCALAR_T632)" by (rule montymul_value(1) [OF Suc.prems(2) length_consts(4)])
  let ?H = "le_value (map unat (drop (39 * Suc k) buf))"
  define a where "a = add_mod (montymul acc SCALAR_T632) b"
  have "sval a = (256 ^ 39 * sval acc mod GROUP_ORDER + sval b) mod GROUP_ORDER"
    using add_mod_value [OF m b(2)] by (simp only: a_def montymul_T632 [OF Suc.prems(2)])
  also have "\<dots> = (256 ^ 39 * ?H + sval b) mod GROUP_ORDER"
    unfolding Suc.prems(3) by (simp only: mod_mult_right_eq mod_add_left_eq)
  also have "256 ^ 39 * ?H + sval b = le_value (map unat (drop (39 * k) buf))"
    unfolding b(3) chunk_value [OF Suc.prems(1)] by (rule add.commute)
  finally have "sval a = le_value (map unat (drop (39 * k) buf)) mod GROUP_ORDER" .
  moreover have "reduced a" using add_mod_value [OF m b(2)] by (simp add: a_def)
  ultimately show ?case using Suc.IH [of a] Suc.prems(1) by (simp add: b(1) unwrap_def a_def)
qed simp

subsection \<open>Bits\<close>

lemma limb_bit: "(drop_bit i (x :: u64)) AND 1 = 1 \<longleftrightarrow> odd (unat x div 2 ^ i)"
proof -
  have "(drop_bit i x) AND 1 = 1 \<longleftrightarrow> bit x i" by (simp add: and_one_eq bit_iff_odd_drop_bit odd_iff_mod_2_eq_one)
  also have "\<dots> \<longleftrightarrow> bit (unat x) i" by (simp add: bit_unsigned_iff)
  finally show ?thesis by (simp add: bit_iff_odd)
qed

lemma odd_high_part:
  fixes u t :: nat
  assumes "k < 64"
  shows "odd ((u + 2 ^ 64 * t) div 2 ^ k) \<longleftrightarrow> odd (u div 2 ^ k)"
proof -
  have "(2 :: nat) ^ 64 = 2 ^ k * 2 ^ (64 - k)" using assms by (simp flip: power_add)
  then have "u + 2 ^ 64 * t = u + 2 ^ k * (2 ^ (64 - k) * t)" by (simp only: mult.assoc)
  then have "(u + 2 ^ 64 * t) div 2 ^ k = u div 2 ^ k + 2 ^ (64 - k) * t" by (simp only: div_mult_self2) simp
  then show ?thesis using assms by simp
qed

lemma sval_bit:
  assumes "i < 64 * length s"
  shows "odd (unat (s ! (i div 64)) div 2 ^ (i mod 64)) \<longleftrightarrow> odd (sval s div 2 ^ i)"
proof -
  let ?j = "i div 64" and ?k = "i mod 64"
  have j: "?j < length s" using assms by (simp add: less_mult_imp_div_less mult.commute)
  define h where "h = unat (s ! ?j) + 2 ^ 64 * sval (drop (Suc ?j) s)"
  have "sval (take ?j s) < (2 ^ 64) ^ ?j" using sval_less [of "take ?j s"] j by simp
  then have "sval s div (2 ^ 64) ^ ?j = h" unfolding sval_split [OF j] h_def by (rule digit_div_mod(1))
  moreover have "(2 :: nat) ^ i = (2 ^ 64) ^ ?j * 2 ^ ?k"
    by (simp only: power_mult [symmetric] power_add [symmetric] mult_div_mod_eq)
  ultimately have "sval s div 2 ^ i = h div 2 ^ ?k" by (simp only: div_mult2_eq)
  then show ?thesis by (simp only: h_def odd_high_part [of ?k] mod_less_divisor)
qed

lemma neg_mod_value:
  assumes "reduced a"
  shows "reduced (neg_mod a)" "int (sval (neg_mod a)) = (- int (sval a)) mod int GROUP_ORDER"
proof -
  have "reduced SCALAR_ZERO" using order_bounds(1) by (simp add: reduced_def sval_consts)
  note s = sub_mod_value [OF this assms]
  show "reduced (neg_mod a)" "int (sval (neg_mod a)) = (- int (sval a)) mod int GROUP_ORDER"
    using s by (simp_all add: neg_mod_def sval_consts)
qed

subsection \<open>Correctness of the scalar type\<close>

text \<open>
  C38. The operations of \<^verbatim>\<open>Scalar\<close> are arithmetic modulo the group order: on reduced operands
  \<^verbatim>\<open>add_mod\<close>, \<^verbatim>\<open>sub_mod\<close>, \<^verbatim>\<open>neg_mod\<close> and \<^verbatim>\<open>mul_mod\<close> return reduced limbs whose value is the
  sum, difference, opposite and product of the operands' values modulo the order. The 64-bit
  carries, the 128-bit intermediates and the Montgomery reduction never lose a bit.
\<close>

theorem scalar_operations_exact:
  assumes "reduced a" "reduced b"
  shows "(reduced (add_mod a b) \<and> sval (add_mod a b) = (sval a + sval b) mod GROUP_ORDER)
    \<and> (reduced (sub_mod a b) \<and> int (sval (sub_mod a b)) = (int (sval a) - int (sval b)) mod int GROUP_ORDER)
    \<and> (reduced (neg_mod a) \<and> int (sval (neg_mod a)) = (- int (sval a)) mod int GROUP_ORDER)
    \<and> (reduced (mul_mod a b) \<and> sval (mul_mod a b) = sval a * sval b mod GROUP_ORDER)"
  using assms
  by (intro conjI add_mod_value sub_mod_value neg_mod_value mul_mod_value reducedD(1))

theorem scalar_operations_exact_witness:
  "reduced SCALAR_R2 \<and> reduced SCALAR_T632
    \<and> sval (mul_mod SCALAR_R2 SCALAR_T632) = sval SCALAR_R2 * sval SCALAR_T632 mod GROUP_ORDER"
proof -
  have "reduced SCALAR_R2" "reduced SCALAR_T632" using order_bounds(1) by (simp_all add: reduced_def sval_consts)
  with scalar_operations_exact [OF this] show ?thesis by simp
qed

text \<open>
  \<^verbatim>\<open>Scalar::decode\<close> accepts exactly the little-endian encodings, of any length, of integers
  below the group order, and returns their value; everything else is \<^verbatim>\<open>None\<close>.
\<close>

theorem scalar_decode_exact:
  "if le_value (map unat buf) < GROUP_ORDER
   then \<exists>s. scalar_decode buf = Some s \<and> reduced s \<and> sval s = le_value (map unat buf)
   else scalar_decode buf = None"
proof (cases "length buf \<le> 39")
  case True
  with scalar_decode_chunk [OF this] show ?thesis by (auto simp: reduced_def)
next
  case False
  with scalar_decode_long [of buf] show ?thesis by (auto simp: reduced_def split: if_splits)
qed

text \<open>
  \<^verbatim>\<open>Scalar::decode_reduce\<close> is total: on every byte string it returns, without panicking in
  any of its \<^verbatim>\<open>unwrap\<close>s, the reduced scalar congruent to the little-endian value of the string.
\<close>

theorem decode_reduce_exact:
  "\<exists>s. decode_reduce buf = Inr s \<and> reduced s \<and> sval s = le_value (map unat buf) mod GROUP_ORDER"
proof (cases "length buf \<le> 39")
  case True
  from scalar_decode_chunk [OF True] obtain s
    where s: "scalar_decode buf = Some s" "reduced s" "sval s = le_value (map unat buf)" by blast
  with reducedD(2) [OF s(2)] True show ?thesis by (simp add: decode_reduce_def unwrap_def)
next
  case False
  define k where "k = (length buf - 1) div 39"
  have k: "39 * k \<le> length buf" "length (drop (39 * k) buf) \<le> 39"
    unfolding k_def using False by simp_all
  from scalar_decode_chunk [OF k(2)] obtain s where s: "scalar_decode (drop (39 * k) buf) = Some s" "reduced s"
      "sval s = le_value (map unat (drop (39 * k) buf))" by blast
  with reducedD(2) [OF s(2)] have "sval s = le_value (map unat (drop (39 * k) buf)) mod GROUP_ORDER" by simp
  from reduce_loop_value [OF k(1) s(2) this] show ?thesis
    using False s(1) by (simp add: decode_reduce_def Let_def unwrap_def k_def)
qed

text \<open>
  \<^verbatim>\<open>to_bit_arr\<close> returns the 319 binary digits of a reduced scalar, least significant first:
  their value is the scalar.
\<close>

theorem to_bit_arr_value:
  assumes "reduced s"
  shows "length (to_bit_arr s) = SCALAR_BITS \<and> dvalue 2 (map of_bool (to_bit_arr s)) = sval s"
proof -
  have bits: "to_bit_arr s = map (\<lambda>i. odd (sval s div 2 ^ i)) [0..<SCALAR_BITS]"
    unfolding to_bit_arr_def using reducedD(1) [OF assms]
    by (intro map_cong refl) (simp add: limb_bit sval_bit SCALAR_BITS_def del: upt_Suc)
  have digits: "dvalue 2 (map (\<lambda>i. of_bool (odd (v div 2 ^ i))) [0..<n]) = v mod 2 ^ n" for v n :: nat
  proof (induction n)
    case (Suc n)
    have "v mod 2 ^ Suc n = v mod 2 ^ n + 2 ^ n * (v div 2 ^ n mod 2)"
      by (metis power_Suc2 mod_mult2_eq add.commute)
    with Suc show ?case by (simp add: dvalue_append mod2_eq_if)
  qed simp
  have "sval s < 2 ^ SCALAR_BITS" using reducedD(2) [OF assms] order_bounds(2) by (simp add: SCALAR_BITS_def)
  then show ?thesis using digits [of "sval s" SCALAR_BITS] unfolding bits by (simp add: comp_def)
qed

theorem to_bit_arr_value_witness:
  "reduced SCALAR_R2 \<and> dvalue 2 (map of_bool (to_bit_arr SCALAR_R2)) = 2 ^ 640 mod GROUP_ORDER"
proof -
  have "reduced SCALAR_R2" using order_bounds(1) by (simp add: reduced_def sval_consts)
  with to_bit_arr_value [OF this] show ?thesis by (simp only: sval_consts)
qed

lemma from_hash_words_value:
  assumes "length h = 5"
  shows "reduced (from_hash_words h) \<and> sval (from_hash_words h) = sval h mod 2 ^ 318"
proof -
  define t where "t = drop_bit 2 (push_bit 2 (h ! 4))"
  have t: "unat t = unat (h ! 4) mod 2 ^ 62"
    using mod_mult_mult2 [of "unat (h ! 4)" 4 "2 ^ 62"]
    by (simp add: t_def unat_drop_bit_eq unsigned_push_bit_eq drop_bit_eq_div [where 'a = nat]
        push_bit_eq_mult [where 'a = nat] take_bit_eq_mod [where 'a = nat])
  obtain a b c d e where h: "h = [a, b, c, d, e]"
    using assms by (auto simp: numeral_eq_Suc length_Suc_conv)
  have lo: "sval [a, b, c, d] < 2 ^ 256" using sval_less [of "[a, b, c, d]"] by simp
  have v: "sval h = sval [a, b, c, d] + 2 ^ 256 * unat e" "sval (from_hash_words h) = sval [a, b, c, d] + 2 ^ 256 * (unat e mod 2 ^ 62)"
    using t by (simp_all add: h from_hash_words_def t_def)
  have "sval h mod (2 ^ 256 * 2 ^ 62) = sval (from_hash_words h)" unfolding v by (rule mod_digit [OF lo])
  then have m: "sval (from_hash_words h) = sval h mod 2 ^ 318" by simp
  also have "\<dots> < 2 ^ 318" by (rule mod_less_divisor) simp
  also have "\<dots> < GROUP_ORDER" by (rule order_bounds(3))
  finally show ?thesis using m assms by (simp add: reduced_def from_hash_words_def)
qed

end
