(* ===== verification/Ecgfp5.thy ===== *)
theory Ecgfp5
  imports Quintic Scalar_Arith
begin

section \<open>The curve of the signatures\<close>

text \<open>
  \<^verbatim>\<open>doxa-client/src/ecgfp5.rs\<close>: points of a short Weierstrass curve over the quintic extension, their
  addition and doubling, multiplication by a scalar, the compressed encoding, and the square root
  and Legendre symbol it needs. The extension field is a parameter \<open>K\<close>; a division by zero is the
  panic of \<^verbatim>\<open>inverse\<close>. The theorems show that every operation stays on the curve and when it panics,
  that decoding inverts encoding, and what the addition chains compute.
\<close>

definition arr5 :: "'k ext \<Rightarrow> nat list \<Rightarrow> 'k" where
  "arr5 K v = of5 K (LQE (of_nat (v ! 0)) (of_nat (v ! 1)) (of_nat (v ! 2)) (of_nat (v ! 3)) (of_nat (v ! 4)))"

definition GENERATOR :: "nat list list" where
  "GENERATOR =
     [[11712523173042564207, 14090224426659529053, 13197813503519687414, 16280770174934269299, 15998333998318935536],
      [14639054205878357578, 17426078571020221072, 2548978194165003307, 8663895577921260088, 9793640284382595140]]"

definition ECGFP5_A :: "nat list" where "ECGFP5_A = [2, 0, 0, 0, 0]"

definition ECGFP5_A_DIV_3 :: "nat list" where "ECGFP5_A_DIV_3 = [6148914689804861441, 0, 0, 0, 0]"

definition ECGFP5_B :: "nat list" where "ECGFP5_B = [0, 263, 0, 0, 0]"

definition ECGFP5_4BZ :: "nat list" where "ECGFP5_4BZ = [0, 263 * 4, 0, 0, 0]"

definition ECGFP5_CAP_A :: "nat list" where "ECGFP5_CAP_A = [6148914689804861439, 263, 0, 0, 0]"

definition ECGFP5_CAP_B :: "nat list" where "ECGFP5_CAP_B = [15713893096167979237, 6148914689804861265, 0, 0, 0]"

record 'k point_ew =
  px :: 'k
  py :: 'k
  at_inf :: bool

definition NEUTRAL :: "'k :: field point_ew" where "NEUTRAL = \<lparr>px = 0, py = 0, at_inf = True\<rparr>"

definition curve_a :: "'k ext \<Rightarrow> 'k" where "curve_a K = arr5 K ECGFP5_A"
definition adiv3 :: "'k ext \<Rightarrow> 'k" where "adiv3 K = arr5 K ECGFP5_A_DIV_3"
definition curve_b :: "'k ext \<Rightarrow> 'k" where "curve_b K = arr5 K ECGFP5_B"
definition b4mul :: "'k ext \<Rightarrow> 'k" where "b4mul K = arr5 K ECGFP5_4BZ"
definition cap_a :: "'k ext \<Rightarrow> 'k" where "cap_a K = arr5 K ECGFP5_CAP_A"
definition cap_b :: "'k ext \<Rightarrow> 'k" where "cap_b K = arr5 K ECGFP5_CAP_B"

definition scalar_const :: "'k ext \<Rightarrow> nat \<Rightarrow> 'k" where "scalar_const K c = arr5 K [c, 0, 0, 0, 0]"

definition generator :: "'k ext \<Rightarrow> 'k point_ew" where
  "generator K = \<lparr>px = arr5 K (GENERATOR ! 0), py = arr5 K (GENERATOR ! 1), at_inf = False\<rparr>"

definition is_on_curve :: "'k :: field ext \<Rightarrow> 'k point_ew \<Rightarrow> bool" where
  "is_on_curve K p \<longleftrightarrow> py p * py p = px p * px p * px p + cap_a K * px p + cap_b K"

definition point_from :: "'k :: field ext \<Rightarrow> nat list list \<Rightarrow> ('e, 'k point_ew) result" where
  "point_from K v =
     (let p = \<lparr>px = arr5 K (v ! 0), py = arr5 K (v ! 1), at_inf = False\<rparr> in
      bind_r (assert_r (is_on_curve K p)) (\<lambda>_. Inr p))"

text \<open>\<^verbatim>\<open>Div\<close> of the extension multiplies with \<^verbatim>\<open>inverse\<close>, which panics on zero.\<close>

definition qdiv :: "'k :: field \<Rightarrow> 'k \<Rightarrow> ('e, 'k) result" where
  "qdiv a b = (if b = 0 then Inl (Panic Unwrap_failed) else Inr (a / b))"

definition add_incomplete :: "'k :: field point_ew \<Rightarrow> 'k point_ew \<Rightarrow> ('e, 'k point_ew) result" where
  "add_incomplete p q =
     bind_r (qdiv (py q - py p) (px q - px p)) (\<lambda>lambda.
     let x3 = lambda * lambda - px p - px q; y3 = lambda * (px p - x3) - py p in
     Inr \<lparr>px = x3, py = y3, at_inf = False\<rparr>)"

definition point_double :: "'k :: field ext \<Rightarrow> 'k point_ew \<Rightarrow> ('e, 'k point_ew) result" where
  "point_double K p =
     (let x_sq = px p * px p; num = x_sq * scalar_const K 3 + cap_a K; den = py p * scalar_const K 2 in
      bind_r (qdiv num den) (\<lambda>lambda.
      let x3 = lambda * lambda - px p - px p; w3 = lambda * (px p - x3) - py p in
      Inr \<lparr>px = x3, py = w3, at_inf = False\<rparr>))"

definition point_add :: "'k :: field ext \<Rightarrow> 'k point_ew \<Rightarrow> 'k point_ew \<Rightarrow> ('e, 'k point_ew) result" where
  "point_add K p q =
     (if at_inf p then Inr q
      else if at_inf q then Inr p
      else if px p = px q
        then if py p = py q then point_double K p
             else Inr \<lparr>px = scalar_const K 0, py = scalar_const K 0, at_inf = True\<rparr>
      else add_incomplete p q)"

definition tangent :: "'k :: field point_ew \<Rightarrow> 'k point_ew \<Rightarrow> ('e, 'k) result" where
  "tangent p q = bind_r (assert_r (px p \<noteq> px q)) (\<lambda>_. qdiv (py q - py p) (px q - px p))"

definition point_neg :: "'k :: field point_ew \<Rightarrow> 'k point_ew" where
  "point_neg p = \<lparr>px = px p, py = - py p, at_inf = False\<rparr>"

text \<open>The number of bits up to the highest one that is set.\<close>

primrec strip_top :: "bool list \<Rightarrow> nat \<Rightarrow> nat" where
  "strip_top bits 0 = 0"
| "strip_top bits (Suc n) = (if bits ! n then Suc n else strip_top bits n)"

definition scalar_mul :: "'k :: field ext \<Rightarrow> 'k point_ew \<Rightarrow> scalar \<Rightarrow> ('e, 'k point_ew) result" where
  "scalar_mul K p s =
     (if at_inf p then Inr NEUTRAL
      else let bits = to_bit_arr s; top = strip_top bits SCALAR_BITS in
        if top = 0 then Inr NEUTRAL
        else for_each (\<lambda>i acc. bind_r (point_double K acc) (\<lambda>acc. if bits ! i then point_add K acc p else Inr acc))
               (rev [0..<top - 1]) p)"

subsection \<open>Square roots and Legendre symbols\<close>

definition repeated_square :: "'a :: times \<Rightarrow> nat \<Rightarrow> 'a" where
  "repeated_square v n = fold (\<lambda>_ x1. x1 * x1) [1..<n] (v * v)"

definition ext_sqrt :: "'k :: field ext \<Rightarrow> 'k \<Rightarrow> ('e, 'k option) result" where
  "ext_sqrt K x =
     (let t = x; y = t;
          t = t * (y * y); y = t;
          y = repeated_square y 2; t = t * y;
          y = t; y = repeated_square y 4; t = t * y;
          y = t; y = repeated_square y 8; t = t * y;
          y = t; y = repeated_square y 16; t = t * y;
          t = repeated_square t 31; t = t * x;
          y = t; y = frobenius K (frobenius K y); t = t * y; t = frobenius K t;
          y = t * t; y = x * y;
          a = lqe_head (to5 K y) in
      case base_sqrt K a of
        None \<Rightarrow> Inr None
      | Some sqrta \<Rightarrow>
          if t = 0 then Inl (Panic Unwrap_failed)
          else Inr (Some (of5 K (lqe_mul_base (to5 K (inverse t)) sqrta))))"

datatype legendre_symbol = LegendreZERO | LegendreONE | LegendreNEGONE

definition symbol_from :: "gl \<Rightarrow> legendre_symbol" where
  "symbol_from v = (if v = 0 then LegendreZERO else if v = 1 then LegendreONE else LegendreNEGONE)"

definition gl_legendre :: "gl \<Rightarrow> legendre_symbol" where
  "gl_legendre x =
     (let x2 = x * (x * x);
          x4 = x2 * repeated_square x2 2;
          x8 = x4 * repeated_square x4 4;
          x16 = x8 * repeated_square x8 8;
          x32 = x16 * repeated_square x16 16
      in symbol_from (repeated_square x32 31))"

definition ext_legendre :: "'k :: field ext \<Rightarrow> 'k \<Rightarrow> ('e, legendre_symbol) result" where
  "ext_legendre K x =
     (let x0 = frobenius K x; x1 = frobenius K x0; x2 = x0 * x1; x3 = frobenius K (frobenius K x2);
          x4 = x2 * x3; v = to5 K (x * x4) in
      bind_r (assert_r (tl (lqe_list v) = [0, 0, 0, 0])) (\<lambda>_. Inr (gl_legendre (lqe_head v))))"

subsection \<open>Compressed points\<close>

definition point_encode :: "'k :: field ext \<Rightarrow> 'k point_ew \<Rightarrow> ('e, 'k) result" where
  "point_encode K p = (if at_inf p then Inr 0 else qdiv (py p) (adiv3 K - px p))"

definition point_decode :: "'k :: field ext \<Rightarrow> 'k \<Rightarrow> ('e, 'k point_ew option) result" where
  "point_decode K w =
     (if w = 0 then Inr (Some \<lparr>px = 0, py = 0, at_inf = True\<rparr>)
      else let e = w * w - curve_a K; delta = e * e - b4mul K in
        bind_r (ext_sqrt K delta) (\<lambda>root. case root of
          None \<Rightarrow> Inr None
        | Some r \<Rightarrow>
            let half = of_nat ((gp + 1) div 2);
                x1 = of5 K (lqe_mul_base (to5 K (e + r)) half);
                x2 = of5 K (lqe_mul_base (to5 K (e - r)) half) in
            bind_r (ext_legendre K x1) (\<lambda>symbol.
            let x = (if symbol = LegendreONE then x1 else x2); y = - w * x in
            Inr (Some \<lparr>px = x + adiv3 K, py = y, at_inf = False\<rparr>))))"

subsection \<open>Chords and tangents\<close>

text \<open>
  A line through a point of the curve meets it in two further points \<open>x2\<close> and \<open>x3\<close>; the second one
  is given by the sum of the three. The premise says that \<open>x2\<close> is on the line and the curve,
  with multiplicity.
\<close>

lemma third_point:
  fixes x1 :: "'k :: field"
  assumes c: "y1 * y1 = x1 * x1 * x1 + A * x1 + B"
    and g: "x2 * x2 + x2 * x1 + x1 * x1 + A - l * l * (x2 - x1) - 2 * l * y1 = 0"
    and x3: "x3 = l * l - x1 - x2" and y3: "y3 = l * (x1 - x3) - y1"
  shows "y3 * y3 = x3 * x3 * x3 + A * x3 + B"
proof -
  have "x3 * x3 + x3 * x1 + x1 * x1 + A - l * l * (x3 - x1) - 2 * l * y1 =
      (x2 * x2 + x2 * x1 + x1 * x1 + A - l * l * (x2 - x1) - 2 * l * y1) + (x3 - x2) * (x3 + x2 + x1 - l * l)"
    by (simp add: algebra_simps)
  also have "\<dots> = 0" using g x3 by simp
  finally have g3: "x3 * x3 + x3 * x1 + x1 * x1 + A - l * l * (x3 - x1) - 2 * l * y1 = 0" .
  have "x3 * x3 * x3 + A * x3 + B - y3 * y3 =
      (x1 * x1 * x1 + A * x1 + B - y1 * y1)
      + (x3 - x1) * (x3 * x3 + x3 * x1 + x1 * x1 + A - l * l * (x3 - x1) - 2 * l * y1)"
    unfolding y3 by (simp add: algebra_simps)
  then show ?thesis using c g3 by simp
qed

lemma chord_point:
  fixes x1 :: "'k :: field"
  assumes c: "y1 * y1 = x1 * x1 * x1 + A * x1 + B" "y2 * y2 = x2 * x2 * x2 + A * x2 + B"
    and ne: "x1 \<noteq> x2" and l: "l * (x2 - x1) = y2 - y1"
    and x3: "x3 = l * l - x1 - x2" and y3: "y3 = l * (x1 - x3) - y1"
  shows "y3 * y3 = x3 * x3 * x3 + A * x3 + B"
proof (rule third_point [OF c(1) _ x3 y3])
  have y2: "y2 = l * (x2 - x1) + y1" using l by simp
  have "(x2 - x1) * (x2 * x2 + x2 * x1 + x1 * x1 + A - l * l * (x2 - x1) - 2 * l * y1) =
      (x2 * x2 * x2 + A * x2 + B - (l * (x2 - x1) + y1) * (l * (x2 - x1) + y1)) - (x1 * x1 * x1 + A * x1 + B - y1 * y1)"
    by (simp add: algebra_simps)
  also have "\<dots> = 0" using c unfolding y2 by simp
  finally show "x2 * x2 + x2 * x1 + x1 * x1 + A - l * l * (x2 - x1) - 2 * l * y1 = 0" using ne by simp
qed

lemma tangent_point:
  fixes x1 :: "'k :: field"
  assumes c: "y1 * y1 = x1 * x1 * x1 + A * x1 + B" and l: "l * (y1 * 2) = x1 * x1 * 3 + A"
    and x3: "x3 = l * l - x1 - x1" and y3: "y3 = l * (x1 - x3) - y1"
  shows "y3 * y3 = x3 * x3 * x3 + A * x3 + B"
proof (rule third_point [OF c _ x3 y3])
  have "x1 * x1 + x1 * x1 + x1 * x1 + A - l * l * (x1 - x1) - 2 * l * y1 = x1 * x1 * 3 + A - l * (y1 * 2)"
    by (simp add: algebra_simps)
  then show "x1 * x1 + x1 * x1 + x1 * x1 + A - l * l * (x1 - x1) - 2 * l * y1 = 0" using l by simp
qed

lemma qdiv_Inr [simp]: "qdiv a b = Inr c \<longleftrightarrow> b \<noteq> 0 \<and> c * b = a"
  by (auto simp: qdiv_def field_simps)

lemma qdiv_0 [simp]: "qdiv a 0 = Inl (Panic Unwrap_failed)"
  by (simp add: qdiv_def)

subsection \<open>Addition chains\<close>

lemma repeated_square_power: "0 < n \<Longrightarrow> repeated_square (v :: 'a :: comm_ring_1) n = v ^ (2 ^ n)"
proof (induction n)
  case (Suc n)
  show ?case
  proof (cases "n = 0")
    case True
    then show ?thesis by (simp add: repeated_square_def power2_eq_square)
  next
    case False
    then have "repeated_square v (Suc n) = repeated_square v n * repeated_square v n" by (simp add: repeated_square_def)
    then show ?thesis using Suc False by (simp flip: power_add) (simp add: mult_2)
  qed
qed simp

text \<open>The chain up to \<open>2 ^ 32 - 1\<close> that both functions share.\<close>

lemma chain32:
  fixes x :: "'a :: comm_ring_1"
  assumes "x2 = x * (x * x)" "x4 = x2 * repeated_square x2 2" "x8 = x4 * repeated_square x4 4"
    "x16 = x8 * repeated_square x8 8" "x32 = x16 * repeated_square x16 16"
  shows "repeated_square x32 31 = x ^ (2 ^ 63 - 2 ^ 31)"
proof -
  have step: "x ^ i * repeated_square (x ^ i) n = x ^ (i + i * 2 ^ n)" if "0 < n" for i n
    using that by (simp only: repeated_square_power power_add power_mult)
  have "x2 = x ^ 3" by (simp add: assms(1) eval_nat_numeral)
  then have "x4 = x ^ 15" using step [of 2 3] by (simp add: assms(2))
  then have "x8 = x ^ 255" using step [of 4 15] by (simp add: assms(3))
  then have "x16 = x ^ 65535" using step [of 8 255] by (simp add: assms(4))
  then have "x32 = x ^ 4294967295" using step [of 16 65535] by (simp add: assms(5))
  then have "repeated_square x32 31 = (x ^ 4294967295) ^ (2 ^ 31)" by (simp only: repeated_square_power zero_less_numeral)
  also have "\<dots> = x ^ (4294967295 * 2 ^ 31)" by (simp only: power_mult)
  also have "4294967295 * 2 ^ 31 = (2 ^ 63 - 2 ^ 31 :: nat)" by simp
  finally show ?thesis .
qed

definition half_gp :: nat where "half_gp = 2 ^ 63 - 2 ^ 31"

lemma half_gp: "2 * half_gp + 1 = gp"
  by (simp add: half_gp_def)

lemma gl_legendre_power: "gl_legendre x = symbol_from (x ^ half_gp)"
  unfolding gl_legendre_def half_gp_def Let_def by (subst chain32 [OF refl refl refl refl refl]) (rule refl)

lemma gl_half_power: "(x :: gl) ^ half_gp = 0 \<and> x = 0 \<or> (x \<noteq> 0 \<and> (x ^ half_gp = 1 \<or> x ^ half_gp = - 1))"
proof (cases "x = 0")
  case True
  have "0 < half_gp" using half_gp by (cases half_gp) simp_all
  with True show ?thesis by (simp add: zero_power)
next
  case False
  have "2 * half_gp = gp - 1" using half_gp by simp
  then have "x ^ (2 * half_gp) = 1" by (simp only: gl_power_one [OF False])
  then have "x ^ half_gp * x ^ half_gp = 1" by (simp only: mult_2 power_add)
  then have "(x ^ half_gp - 1) * (x ^ half_gp + 1) = 0" by (simp add: algebra_simps)
  with False show ?thesis by (auto simp: eq_neg_iff_add_eq_0)
qed

text \<open>The norm of \<open>4 b\<close> is not a square.\<close>

definition nonsquare_certificate :: "(bool \<times> nat \<times> nat) list" where
  "nonsquare_certificate =
    [(True, 0, 3865449054852096),
     (True, 3130978886742482917836049161, 1046686005165176055),
     (True, 229568906867666484157596647046040, 12469613656453011560),
     (True, 32582636809505040156931420606388395, 10537489569612670805),
     (True, 23267758467107486438372579934831016, 2180257926586610264),
     (True, 996084035500269147230051020899874, 7874441301748087262),
     (True, 12993307943005727800561631157013787, 635939552364692197),
     (True, 84744574820624542961698246176268, 4658978955990107636),
     (True, 4548432237867487165194400656029173, 11534136352867011083),
     (True, 27877279784323654113656459245108363, 1222583268685608821),
     (True, 313211087596336527249277864763699, 7307699354362532557),
     (True, 11190296013550031589832923488766066, 9224059191229688718),
     (True, 17828893624528792904896324101449525, 3652179723762968779),
     (True, 2795017384434922872299585031114384, 16610551239326639472),
     (True, 57816037296844489291215479348876224, 5210576616910007360),
     (True, 5689207891863641960965120072427687, 6267610668862986073),
     (True, 8231599909379618651953905481918280, 530085654355307704),
     (True, 58880614480250457540907085367288, 18084438811597895688),
     (True, 68531510526275537116996296744058139, 4854434967546610405),
     (True, 4938074141866910802840354084840469, 14068482458074959851),
     (True, 41473886823416292295181169816477680, 2341614834181248016),
     (True, 1148976517602142470077416307858145, 18136577759682848031),
     (True, 68927244313478686070867126103548192, 10152468043889062624),
     (True, 21598495175483086302271606223520692, 11044708479883557964),
     (True, 25561641883106900627129325398796885, 5707774315142780331),
     (True, 6826747139977308463838528591297841, 12003118434805298895),
     (True, 30190368501564927638075158627282198, 13853320328199300842),
     (True, 40214991786407029726309952875682278, 16515990921560225306),
     (True, 57159642303537373988372193446637073, 14526300409226928623),
     (True, 44217101855843454613120470732753010, 2447065548837260174),
     (True, 1254791121393806532882388730659582, 1887324317758524674),
     (True, 746402873819954489130267677859491, 6122963597454913885),
     (False, 2032374009997733130, 6231371961525538495),
     (False, 2104978329876017221, 17179493236974273084),
     (False, 15999299755483138133, 111001663387858363),
     (False, 667942766946104, 3950191059978604385),
     (False, 845895045305417428, 9284608718332281837),
     (False, 4673125985168370063, 15846030030954512346),
     (False, 13611977636651893367, 7068394330744324909),
     (False, 2708456203809851282, 17240460245298908759),
     (False, 16113058670475984240, 3642997123259819041),
     (False, 719445555819460765, 17996912495222494116),
     (False, 17558050252223957764, 12982612486134003212),
     (False, 9137017694335663711, 9729650180117041713),
     (False, 5131859165564704073, 5953452985911334936),
     (False, 1921401539593290850, 3868391532371361246),
     (False, 811224625408778278, 12080536047206493278),
     (False, 7911388082291908536, 16314067597667521228),
     (False, 14427955447300336433, 11809855681683760991),
     (False, 7560829743035755105, 6174303580884593376),
     (False, 2066599100929258569, 16038533207000780727),
     (False, 13944712761455371661, 13339764746656321348),
     (False, 9646652158587794116, 16418549981370881868),
     (False, 14613353038151012376, 14568119870644612728),
     (False, 11505017675035463622, 8187602034452531322),
     (False, 3634073678385384224, 2341058142559915780),
     (False, 297101385817622544, 17592454475776),
     (False, 16777727, 18446744069414583809),
     (False, 18446744069414583297, 262144),
     (False, 0, 68719476736),
     (False, 256, 1099511627520),
     (False, 65535, 18446462594437873665),
     (False, 18446181123756130305, 18446744069414584320)]"

lemma norm_nonsquare: "c * c \<noteq> (of_nat 3865449054852096 :: gl)"
proof
  assume sq: "c * c = (of_nat 3865449054852096 :: gl)"
  have chain: "power_chain gp 3865449054852096 1 nonsquare_certificate 18446744069414584320"
    unfolding nonsquare_certificate_def power_chain.simps by simp
  have exp: "chain_exp 0 nonsquare_certificate = half_gp" by (simp add: nonsquare_certificate_def half_gp_def)
  have "3865449054852096 ^ half_gp mod gp = 18446744069414584320 mod gp" using power_chain_mod [OF chain, of 0] unfolding exp by simp
  then have "(of_nat (3865449054852096 ^ half_gp) :: gl) = of_nat 18446744069414584320"
    by (rule gl_of_nat_eq)
  then have "(c * c) ^ half_gp = of_nat 18446744069414584320" unfolding sq by (simp only: of_nat_power)
  moreover have "(c * c) ^ half_gp = c ^ (2 * half_gp)" by (simp only: power_mult power2_eq_square)
  moreover have "2 * half_gp = gp - 1" using half_gp by simp
  moreover have ne: "c \<noteq> 0"
  proof
    assume "c = 0"
    then have "(of_nat 3865449054852096 :: gl) = of_nat 0" using sq by simp
    then show False using gl_of_nat_inj [of 3865449054852096 0] by simp
  qed
  ultimately have "(of_nat 18446744069414584320 :: gl) = of_nat 1" using gl_power_one [OF ne] by (simp only: of_nat_1)
  then show False using gl_of_nat_inj [of 18446744069414584320 1] by simp
qed

text \<open>The power with \<open>1 + p + p ^ 2 + p ^ 3 + p ^ 4\<close> is the norm into the base field.\<close>

definition norm_exp :: nat where "norm_exp = 1 + gp + gp ^ 2 + gp ^ 3 + gp ^ 4"

definition root_exp :: nat where "root_exp = (half_gp + 1) * (1 + gp ^ 2) * gp"

definition on_curve :: "'k :: field ext \<Rightarrow> 'k point_ew \<Rightarrow> bool" where
  "on_curve K p \<longleftrightarrow> at_inf p \<or> is_on_curve K p"

context quintic_ext
begin

lemma arr5_const: "arr5 K [c, 0, 0, 0, 0] = of_nat c"
  by (simp add: arr5_def lqe_const_def lqe_of_nat flip: of5_of_nat)

lemma small_scalars [simp]: "scalar_const K 0 = 0" "scalar_const K 2 = 2" "scalar_const K 3 = 3"
  using arr5_const [of 0] arr5_const [of 2] arr5_const [of 3] by (simp_all add: scalar_const_def)

lemma point_double_eq:
  "point_double K p = (if py p = 0 then Inl (Panic Unwrap_failed)
     else let l = (px p * px p * 3 + cap_a K) / (py p * 2); x3 = l * l - px p - px p in
       Inr \<lparr>px = x3, py = l * (px p - x3) - py p, at_inf = False\<rparr>)"
  using two_ne_0 by (simp add: point_double_def qdiv_def Let_def)

lemma double_on_curve:
  assumes "is_on_curve K p" "point_double K p = Inr q"
  shows "is_on_curve K q \<and> \<not> at_inf q"
proof -
  define l where "l = (px p * px p * 3 + cap_a K) / (py p * 2)"
  have y: "py p \<noteq> 0" and q: "px q = l * l - px p - px p" "py q = l * (px p - px q) - py p" "\<not> at_inf q"
    using assms(2) by (auto simp: point_double_eq Let_def l_def split: if_splits)
  have "l * (py p * 2) = px p * px p * 3 + cap_a K" using y two_ne_0 by (simp add: l_def)
  then show ?thesis using tangent_point [OF assms(1) [unfolded is_on_curve_def] _ q(1,2)] q(3) by (simp add: is_on_curve_def)
qed

lemma add_incomplete_eq:
  "add_incomplete p q = (if px p = px q then Inl (Panic Unwrap_failed)
     else let l = (py q - py p) / (px q - px p); x3 = l * l - px p - px q in
       Inr \<lparr>px = x3, py = l * (px p - x3) - py p, at_inf = False\<rparr>)"
  by (simp add: add_incomplete_def qdiv_def Let_def)

lemma add_incomplete_on_curve:
  assumes "is_on_curve K p" "is_on_curve K q" "add_incomplete p q = Inr r"
  shows "is_on_curve K r \<and> \<not> at_inf r"
proof -
  define l where "l = (py q - py p) / (px q - px p)"
  have x: "px p \<noteq> px q" and r: "px r = l * l - px p - px q" "py r = l * (px p - px r) - py p" "\<not> at_inf r"
    using assms(3) by (auto simp: add_incomplete_eq Let_def l_def split: if_splits)
  have "l * (px q - px p) = py q - py p" using x by (simp add: l_def)
  then show ?thesis
    using chord_point [OF assms(1,2) [unfolded is_on_curve_def] x _ r(1,2)] r(3) by (simp add: is_on_curve_def)
qed

text \<open>Two points with the same abscissa are equal or opposite.\<close>

lemma same_px:
  assumes "is_on_curve K p" "is_on_curve K q" "px p = px q"
  shows "py q = py p \<or> py q = - py p"
proof -
  have "(py q - py p) * (py q + py p) = 0" using assms by (simp add: is_on_curve_def algebra_simps)
  then show ?thesis by (auto simp: eq_neg_iff_add_eq_0)
qed

lemma of_nat_mod_k: "(of_nat (n mod gp) :: 'k) = of_nat n"
proof -
  have "(of_nat n :: 'k) = of_nat (n mod gp + gp * (n div gp))" by (simp only: mod_mult_div_eq)
  also have "\<dots> = of_nat (n mod gp)" by (simp only: of_nat_add of_nat_mult char_k mult_zero_left add_0_right)
  finally show ?thesis ..
qed

lemma of_nat_eq_k: "m mod gp = n mod gp \<Longrightarrow> (of_nat m :: 'k) = of_nat n"
  by (metis of_nat_mod_k)

abbreviation zk :: 'k where "zk \<equiv> of5 K lqe_z"

lemma arr5_linear: "arr5 K [c, d, 0, 0, 0] = of_nat c + of_nat d * zk"
proof -
  have "arr5 K [c, d, 0, 0, 0] = of5 K (lqe_const (of_nat c) + lqe_const (of_nat d) * lqe_z)"
    by (simp add: arr5_def lqe_const_def lqe_z_def lqe_ops Let_def)
  then show ?thesis by (simp add: of5_hom of5_of_nat flip: lqe_of_nat)
qed

text \<open>The constants of the curve, in terms of \<open>a / 3\<close> and \<open>b\<close>.\<close>

lemma curve_consts:
  "curve_a K = 2" "3 * adiv3 K = 2" "b4mul K = 4 * curve_b K" "cap_a K = curve_b K - 2 * adiv3 K"
  "cap_b K = 2 * adiv3 K * adiv3 K * adiv3 K - adiv3 K * curve_b K"
proof -
  let ?t = "6148914689804861441 :: nat"
  have t: "adiv3 K = of_nat ?t" by (simp only: adiv3_def ECGFP5_A_DIV_3_def arr5_const)
  have b: "curve_b K = of_nat 263 * zk" by (simp only: curve_b_def ECGFP5_B_def arr5_linear) simp
  show "curve_a K = 2" by (simp only: curve_a_def ECGFP5_A_def arr5_const) simp
  show "b4mul K = 4 * curve_b K" by (simp only: b4mul_def ECGFP5_4BZ_def arr5_linear b) simp
  have "(of_nat (3 * ?t) :: 'k) = of_nat 2" by (rule of_nat_eq_k) simp
  then show "3 * adiv3 K = 2" unfolding t by (simp only: of_nat_mult) simp
  have "(of_nat (6148914689804861439 + 2 * ?t) :: 'k) = of_nat 0" by (rule of_nat_eq_k) simp
  then have "of_nat 6148914689804861439 + 2 * adiv3 K = 0" unfolding t by (simp only: of_nat_add of_nat_mult of_nat_numeral) simp
  then have "of_nat 6148914689804861439 = - (2 * adiv3 K)" by (simp only: eq_neg_iff_add_eq_0)
  then show "cap_a K = curve_b K - 2 * adiv3 K" unfolding cap_a_def ECGFP5_CAP_A_def arr5_linear b by simp
  have "(of_nat (6148914689804861265 + ?t * 263) :: 'k) = of_nat 0" by (rule of_nat_eq_k) simp
  then have "of_nat 6148914689804861265 + adiv3 K * of_nat 263 = 0" unfolding t by (simp only: of_nat_add of_nat_mult) simp
  then have m: "of_nat 6148914689804861265 = - (adiv3 K * of_nat 263)" by (simp only: eq_neg_iff_add_eq_0)
  have "(of_nat 15713893096167979237 :: 'k) = of_nat (2 * ?t * ?t * ?t)" by (rule of_nat_eq_k) simp
  then have c: "of_nat 15713893096167979237 = 2 * adiv3 K * adiv3 K * adiv3 K" unfolding t by (simp only: of_nat_mult of_nat_numeral)
  show "cap_b K = 2 * adiv3 K * adiv3 K * adiv3 K - adiv3 K * curve_b K"
    unfolding cap_b_def ECGFP5_CAP_B_def arr5_linear b m c by (simp add: mult.assoc)
qed

text \<open>The curve in its original form, shifted by \<open>a / 3\<close>.\<close>

lemma shifted_curve:
  assumes "u = px p - adiv3 K"
  shows "is_on_curve K p \<longleftrightarrow> py p * py p = u * (u * u + curve_a K * u + curve_b K)"
proof -
  let ?t = "adiv3 K" and ?b = "curve_b K"
  have x: "px p = u + ?t" using assms by simp
  have "px p * px p * px p + cap_a K * px p + cap_b K - u * (u * u + 2 * u + ?b)
      = (3 * ?t - 2) * (u * u + ?t * u) + (?t * ?t * (3 * ?t - 2))"
    unfolding x curve_consts(4,5) by (simp add: algebra_simps)
  then show ?thesis using curve_consts(1,2) by (simp add: is_on_curve_def)
qed

subsection \<open>Norms and square roots\<close>

lemma norm_const_k:
  obtains a where "(x :: 'k) ^ norm_exp = of5 K (lqe_const a)"
proof -
  have "norm_exp * gp = (norm_exp - 1) + gp ^ 5" by (simp add: norm_exp_def)
  then have "(x ^ norm_exp) ^ gp = x ^ (norm_exp - 1) * x ^ (gp ^ 5)" by (simp only: power_add flip: power_mult)
  also have "\<dots> = x ^ (norm_exp - 1) * x" by (simp only: power_gp5_k)
  also have "\<dots> = x ^ Suc (norm_exp - 1)" by (simp only: power_Suc2)
  also have "Suc (norm_exp - 1) = norm_exp" by (simp add: norm_exp_def)
  finally show thesis using fixed_const that by blast
qed

lemma power_norm: "(x :: 'k) ^ norm_exp = x * x ^ gp * x ^ (gp ^ 2) * x ^ (gp ^ 3) * x ^ (gp ^ 4)"
  by (simp only: norm_exp_def power_add power_one_right)

lemma norm_zk: "zk ^ norm_exp = 3"
proof -
  define c where "c = of5 K (lqe_const zeta)"
  have "zk ^ gp = of5 K (lqe_z ^ gp)" by (simp only: of5_power)
  then have zp: "zk ^ gp = c * zk" by (simp only: z_frob of5_mul c_def)
  have "c ^ gp = of5 K (lqe_const zeta ^ gp)" by (simp only: c_def of5_power)
  then have cp: "c ^ gp = c" by (simp only: const_frob c_def)
  have conj: "zk ^ (gp ^ i) = c ^ i * zk" for i
  proof (induction i)
    case (Suc i)
    have "zk ^ (gp ^ Suc i) = (zk ^ (gp ^ i)) ^ gp" by (simp only: power_Suc2 power_mult)
    also have "\<dots> = (c ^ i) ^ gp * (c * zk)" by (simp only: Suc power_mult_distrib zp)
    also have "(c ^ i) ^ gp = c ^ i" by (simp only: power_commuting [of c i] cp)
    finally show ?case by (simp add: mult.assoc mult.left_commute)
  qed simp
  have "c ^ 5 = of5 K (lqe_const (zeta ^ 5))" by (simp add: c_def flip: of5_power)
  then have c5: "c ^ 5 = 1" by (simp add: zeta_pow5 lqe_const_0_1 of5_1)
  have "zk ^ 5 = of5 K (lqe_const 3)" by (simp flip: of5_power lqe_z_pow5)
  also have "lqe_const 3 = of_nat 3" by (simp add: lqe_of_nat)
  finally have z5: "zk ^ 5 = 3" unfolding of5_of_nat by simp
  have "zk ^ norm_exp = zk * (c * zk) * (c ^ 2 * zk) * (c ^ 3 * zk) * (c ^ 4 * zk)" by (simp only: power_norm zp conj)
  also have "\<dots> = c ^ 5 * c ^ 5 * zk ^ 5" by (simp add: eval_nat_numeral ac_simps)
  finally show ?thesis by (simp add: c5 z5)
qed

lemma b4mul_nonsquare: "e * e \<noteq> b4mul K"
proof
  assume sq: "e * e = b4mul K"
  obtain a where a: "e ^ norm_exp = of5 K (lqe_const a)" by (rule norm_const_k)
  have fix1: "(of_nat 1052 :: 'k) ^ gp = of_nat 1052" by (rule fermat_of_nat [OF char_k])
  have fixi: "(of_nat 1052 :: 'k) ^ (gp ^ i) = of_nat 1052" for i
  proof (induction i)
    case (Suc i)
    then show ?case by (simp only: power_Suc2 power_mult fix1)
  qed simp
  have "b4mul K = of_nat 1052 * zk" unfolding b4mul_def ECGFP5_4BZ_def arr5_linear by simp
  then have "(e * e) ^ norm_exp = of_nat 1052 ^ norm_exp * 3" unfolding sq by (simp only: power_mult_distrib norm_zk)
  also have "(of_nat 1052 :: 'k) ^ norm_exp = of_nat (1052 ^ 5)" by (simp only: power_norm fix1 fixi flip: of_nat_mult) simp
  finally have "(e * e) ^ norm_exp = of_nat (1052 ^ 5 * 3)" by (simp only: of_nat_mult of_nat_numeral)
  also have "\<dots> = of_nat 3865449054852096" by (rule of_nat_eq_k) simp
  also have "\<dots> = of5 K (lqe_const (of_nat 3865449054852096))" by (simp only: of5_of_nat flip: lqe_of_nat)
  finally have "of5 K (lqe_const (a * a)) = of5 K (lqe_const (of_nat 3865449054852096))"
    by (simp only: power_mult_distrib a lqe_const_hom(1) flip: of5_mul)
  then have "a * a = of_nat 3865449054852096" by (simp only: of5_inj lqe_const_hom(6))
  then show False using norm_nonsquare by blast
qed

definition base_norm :: "'k \<Rightarrow> gl" where "base_norm x = lqe_head (to5 K (x ^ norm_exp))"

lemma base_norm: "of5 K (lqe_const (base_norm x)) = x ^ norm_exp"
  using norm_const_k [of x] by (metis base_norm_def lqe_head_const to5_of5)

lemma base_norm_mult: "base_norm (x * y) = base_norm x * base_norm y"
proof -
  have "of5 K (lqe_const (base_norm (x * y))) = of5 K (lqe_const (base_norm x * base_norm y))"
    by (simp only: base_norm power_mult_distrib of5_mul flip: lqe_const_hom(1))
  then show ?thesis by (simp only: of5_inj lqe_const_hom(6))
qed

text \<open>
  The root of \<open>x\<close>: with \<open>t = x ^ ((r - 1) / 2)\<close> for the exponent \<open>r\<close> of the norm, the root of the norm
  divided by \<open>t\<close>.
\<close>

lemma root_norm: "(x :: 'k) * (x ^ root_exp * x ^ root_exp) = x ^ norm_exp"
proof -
  have h: "2 * (half_gp + 1) = gp + 1" using half_gp by simp
  have "Suc (2 * root_exp) = Suc (2 * (half_gp + 1) * ((1 + gp ^ 2) * gp))" by (simp only: root_exp_def mult.assoc)
  also have "\<dots> = norm_exp" unfolding h by (simp add: norm_exp_def)
  finally have exp: "Suc (2 * root_exp) = norm_exp" .
  have "x * (x ^ root_exp * x ^ root_exp) = x ^ Suc (2 * root_exp)" by (simp only: power_Suc mult_2 power_add)
  then show ?thesis unfolding exp .
qed

lemma root_exp_pos: "0 < root_exp"
  by (simp add: root_exp_def)

lemma ext_sqrt_eq:
  "ext_sqrt K x = (case base_sqrt K (base_norm x) of None \<Rightarrow> Inr None
     | Some s \<Rightarrow> if x = 0 then Inl (Panic Unwrap_failed) else Inr (Some (inverse (x ^ root_exp) * of5 K (lqe_const s))))"
proof -
  let ?h = "half_gp + 1" and ?t = "x ^ root_exp"
  have zero: "?t = 0 \<longleftrightarrow> x = 0" using root_exp_pos by (metis power_eq_0_iff not_gr_zero)
  have root: "repeated_square y 31 * x = x ^ ?h" if
    "y = x16 * repeated_square x16 16" "x16 = x8 * repeated_square x8 8" "x8 = x4 * repeated_square x4 4"
    "x4 = x2 * repeated_square x2 2" "x2 = x * (x * x)" for y x16 x8 x4 x2
    using chain32 [OF that(5,4,3,2,1)] by (simp only: half_gp_def power_add power_one_right)
  have frob: "frobenius K (x ^ ?h * frobenius K (frobenius K (x ^ ?h))) = ?t"
    by (simp only: frobenius root_exp_def power2_eq_square power_mult power_add power_one_right distrib_left mult_1_right)
  have base: "of5 K (lqe_mul_base (to5 K v) s) = v * of5 K (lqe_const s)" for v s
    by (simp only: lqe_mul_base_const of5_mul of5_to5)
  show ?thesis
    unfolding ext_sqrt_def Let_def root [OF refl refl refl refl refl] frob root_norm zero base base_norm_def by (rule refl)
qed

lemma ext_sqrt_root:
  assumes "ext_sqrt K x = Inr (Some r)"
  shows "r * r = x"
proof -
  obtain s where s: "base_sqrt K (base_norm x) = Some s" "x \<noteq> 0" "r = inverse (x ^ root_exp) * of5 K (lqe_const s)"
    using assms by (auto simp: ext_sqrt_eq split: option.splits if_splits)
  have "s * s = base_norm x" using base_root [OF s(1)] .
  then have "of5 K (lqe_const s) * of5 K (lqe_const s) = x * (x ^ root_exp * x ^ root_exp)"
    by (simp only: base_norm root_norm lqe_const_hom(1) flip: of5_mul)
  moreover have "x ^ root_exp \<noteq> 0" using s(2) by simp
  ultimately show ?thesis unfolding s(3) by (simp add: field_simps)
qed

lemma ext_sqrt_outcome:
  "if x = 0 then ext_sqrt K x = Inl (Panic Unwrap_failed)
   else \<exists>root. ext_sqrt K x = Inr root \<and> (case root of Some r \<Rightarrow> r * r = x | None \<Rightarrow> \<forall>r. r * r \<noteq> x)"
proof (cases "base_sqrt K (base_norm x)")
  case None
  then have "r * r \<noteq> x" for r using base_total [of "base_norm r"] by (auto simp: base_norm_mult)
  with None this [of 0] show ?thesis by (auto simp: ext_sqrt_eq)
next
  case (Some s)
  then show ?thesis using ext_sqrt_root [of x] by (auto simp: ext_sqrt_eq)
qed

lemma conjugates: "(x :: 'k) * (x ^ p * (x ^ p) ^ p * ((x ^ p * (x ^ p) ^ p) ^ p) ^ p) = x * x ^ p * x ^ (p ^ 2) * x ^ (p ^ 3) * x ^ (p ^ 4)"
proof -
  have "x ^ (p ^ 2) = (x ^ p) ^ p" "x ^ (p ^ 3) = ((x ^ p) ^ p) ^ p" "x ^ (p ^ 4) = (((x ^ p) ^ p) ^ p) ^ p"
    by (simp_all add: eval_nat_numeral mult.assoc flip: power_mult)
  then show ?thesis by (simp only: power_mult_distrib mult.assoc)
qed

lemma ext_legendre_eq: "ext_legendre K x = Inr (gl_legendre (base_norm x))"
proof -
  have "x * (frobenius K x * frobenius K (frobenius K x) * frobenius K (frobenius K (frobenius K x * frobenius K (frobenius K x)))) = x ^ norm_exp"
    by (simp only: frobenius power_norm conjugates)
  moreover have "to5 K (x ^ norm_exp) = lqe_const (base_norm x)" by (metis base_norm to5_of5)
  ultimately show ?thesis by (simp add: ext_legendre_def Let_def lqe_const_def)
qed

subsection \<open>Decoding\<close>

lemma half_k: "of5 K (lqe_mul_base (to5 K v) (of_nat ((gp + 1) div 2))) = v / 2"
proof -
  let ?h = "9223372034707292161 :: nat"
  have "(gp + 1) div 2 = ?h" by simp
  then have "of5 K (lqe_mul_base (to5 K v) (of_nat ((gp + 1) div 2))) = v * of_nat ?h"
    by (simp only: lqe_mul_base_const of5_mul of5_to5 of5_of_nat flip: lqe_of_nat)
  moreover have "(of_nat (?h * 2) :: 'k) = of_nat 1" by (rule of_nat_eq_k) simp
  then have "(of_nat ?h :: 'k) * 2 = 1" by (simp only: of_nat_mult of_nat_numeral of_nat_1)
  ultimately show ?thesis using two_ne_0 by (simp add: field_simps)
qed

lemma decode_eq:
  assumes "w \<noteq> 0"
  shows "point_decode K w = (let e = w * w - 2; delta = e * e - b4mul K in
     bind_r (ext_sqrt K delta) (\<lambda>root. case root of None \<Rightarrow> Inr None
      | Some r \<Rightarrow> let x = (if gl_legendre (base_norm ((e + r) / 2)) = LegendreONE then (e + r) / 2 else (e - r) / 2) in
          Inr (Some \<lparr>px = x + adiv3 K, py = - w * x, at_inf = False\<rparr>)))"
  using assms unfolding point_decode_def Let_def half_k curve_consts(1) ext_legendre_eq bind_r_Inr by (simp cong: option.case_cong)

text \<open>The abscissa that decoding computes is a root of the curve equation for \<open>w\<close>.\<close>

lemma quadratic_root:
  assumes "r * r = e * e - 4 * b" "x = (e + r) / 2 \<or> x = (e - r) / 2"
  shows "x * x + b = e * (x :: 'k)"
proof -
  have "2 * x - e = r \<or> 2 * x - e = - r" using assms(2) two_ne_0 by (auto simp: mult.commute)
  then have x: "(2 * x - e) * (2 * x - e) = r * r" by auto
  have "4 * (x * x + b - e * x) = (2 * x - e) * (2 * x - e) - (e * e - 4 * b)" by (simp add: algebra_simps)
  also have "\<dots> = 0" unfolding x assms(1) by simp
  finally have "2 * (2 * (x * x + b - e * x)) = 0" by (simp only: mult.assoc [symmetric]) simp
  then have "x * x + b - e * x = 0" using two_ne_0 by (simp only: mult_eq_0_iff simp_thms)
  then show ?thesis by simp
qed

lemma curve_b_ne_0: "curve_b K \<noteq> 0"
  using b4mul_nonsquare [of 0] by (auto simp: curve_consts(3))

lemma decode_point:
  assumes root: "x * x + curve_b K = (w * w - 2) * x"
  shows "is_on_curve K \<lparr>px = x + adiv3 K, py = - w * x, at_inf = False\<rparr>"
    "point_encode K \<lparr>px = x + adiv3 K, py = - w * x, at_inf = False\<rparr> = Inr w"
proof -
  have "x * (x * x + 2 * x + curve_b K) = x * (x * x + curve_b K) + 2 * x * x" by (simp add: algebra_simps)
  also have "\<dots> = - w * x * (- w * x)" unfolding root by (simp add: algebra_simps)
  finally show "is_on_curve K \<lparr>px = x + adiv3 K, py = - w * x, at_inf = False\<rparr>"
    by (subst shifted_curve [OF refl]) (auto simp: curve_consts(1))
  have "x \<noteq> 0" using root curve_b_ne_0 by auto
  then show "point_encode K \<lparr>px = x + adiv3 K, py = - w * x, at_inf = False\<rparr> = Inr w" by (simp add: point_encode_def)
qed

lemma encoded_delta:
  assumes "is_on_curve K p" "\<not> at_inf p" "point_encode K p = Inr w"
  shows "\<exists>r. r * r = (w * w - 2) * (w * w - 2) - b4mul K"
proof -
  define x where "x = px p - adiv3 K"
  have w: "x \<noteq> 0" "py p = - w * x" using assms(2,3) by (auto simp: point_encode_def x_def algebra_simps)
  have "x * (x * x + 2 * x + curve_b K - w * w * x) = 0"
    using assms(1) unfolding shifted_curve [OF x_def] curve_consts(1) w(2) by (simp add: algebra_simps)
  then have "x * x + 2 * x + curve_b K - w * w * x = 0" using w(1) by simp
  then have b: "curve_b K = (w * w - 2) * x - x * x" by (simp add: algebra_simps)
  have "(2 * x - (w * w - 2)) * (2 * x - (w * w - 2)) = (w * w - 2) * (w * w - 2) - b4mul K"
    unfolding curve_consts(3) b by (simp add: algebra_simps)
  then show ?thesis by blast
qed

lemma decode_cases:
  assumes w: "w \<noteq> 0"
  shows "\<exists>res. point_decode K w = (Inr res :: ('e, 'k point_ew option) result) \<and> (case res of
      Some p \<Rightarrow> is_on_curve K p \<and> \<not> at_inf p \<and> point_encode K p = Inr w
    | None \<Rightarrow> \<forall>p. is_on_curve K p \<longrightarrow> \<not> at_inf p \<longrightarrow> point_encode K p \<noteq> Inr w)"
proof -
  let ?e = "w * w - 2" and ?delta = "(w * w - 2) * (w * w - 2) - b4mul K"
  have "?delta \<noteq> 0" using b4mul_nonsquare by simp
  then obtain root where root: "ext_sqrt K ?delta = (Inr root :: ('e, 'k option) result)"
      "case root of Some r \<Rightarrow> r * r = ?delta | None \<Rightarrow> \<forall>r. r * r \<noteq> ?delta"
    using ext_sqrt_outcome [of ?delta, where 'b = 'e] by auto
  show ?thesis
  proof (cases root)
    case None
    then have "point_decode K w = (Inr None :: ('e, 'k point_ew option) result)" using root(1) by (simp add: decode_eq [OF w] Let_def)
    moreover have "\<forall>p. is_on_curve K p \<longrightarrow> \<not> at_inf p \<longrightarrow> point_encode K p \<noteq> Inr w" using root(2) None encoded_delta by auto
    ultimately show ?thesis by (intro exI [of _ None]) simp
  next
    case (Some r)
    define x where "x = (if gl_legendre (base_norm ((?e + r) / 2)) = LegendreONE then (?e + r) / 2 else (?e - r) / 2)"
    have "r * r = ?e * ?e - 4 * curve_b K" using root(2) by (simp add: Some curve_consts(3))
    moreover have "x = (?e + r) / 2 \<or> x = (?e - r) / 2" by (simp add: x_def)
    ultimately have "x * x + curve_b K = ?e * x" by (rule quadratic_root)
    note pt = decode_point [OF this]
    have "(point_decode K w :: ('e, 'k point_ew option) result) = Inr (Some \<lparr>px = x + adiv3 K, py = - w * x, at_inf = False\<rparr>)"
      by (simp add: decode_eq [OF w] root(1) Some Let_def x_def)
    then show ?thesis using pt by simp
  qed
qed

subsection \<open>Addition\<close>

lemma add_outcome:
  assumes "on_curve K p" "on_curve K q"
  shows "if \<not> at_inf p \<and> \<not> at_inf q \<and> px p = px q \<and> py p = 0 then py q = 0 \<and> point_add K p q = Inl (Panic Unwrap_failed)
    else \<exists>r. point_add K p q = Inr r \<and> on_curve K r"
proof (cases "at_inf p \<or> at_inf q")
  case True
  then show ?thesis using assms by (auto simp: point_add_def)
next
  case False
  then have c: "is_on_curve K p" "is_on_curve K q" "\<not> at_inf p" "\<not> at_inf q" using assms by (auto simp: on_curve_def)
  show ?thesis
  proof (cases "px p = px q")
    case True
    show ?thesis
    proof (cases "py p = py q")
      case eq: True
      then have "\<exists>r. point_double K p = Inr r \<and> on_curve K r" if "py p \<noteq> 0"
        using double_on_curve [OF c(1)] that by (auto simp: point_double_eq Let_def on_curve_def)
      with True eq c show ?thesis by (auto simp: point_add_def point_double_eq)
    next
      case False
      then have "py p \<noteq> 0" using same_px [OF c(1,2) True] by auto
      with True False c show ?thesis by (auto simp: point_add_def on_curve_def)
    qed
  next
    case False
    then have "\<exists>r. add_incomplete p q = Inr r \<and> on_curve K r"
      using add_incomplete_on_curve [OF c(1,2)] by (auto simp: add_incomplete_eq Let_def on_curve_def)
    with False c show ?thesis by (auto simp: point_add_def)
  qed
qed

lemma add_incomplete_commute: "add_incomplete p q = add_incomplete q p"
proof (cases "px p = px q")
  case False
  define l where "l = (py q - py p) / (px q - px p)"
  have l': "(py p - py q) / (px p - px q) = l" using False by (simp add: l_def divide_simps) (simp add: algebra_simps)
  have "l * (px q - px p) = py q - py p" using False by (simp add: l_def)
  then have "l * (px p - v) - py p = l * (px q - v) - py q" for v by (simp add: algebra_simps)
  then have "l * (px p - (l * l - px p - px q)) - py p = l * (px q - (l * l - px q - px p)) - py q" by (metis diff_diff_add add.commute)
  then show ?thesis using False unfolding add_incomplete_eq l' l_def [symmetric] Let_def by auto
qed (simp add: add_incomplete_eq)

lemma add_commute:
  assumes "\<not> (at_inf p \<and> at_inf q)"
  shows "point_add K p q = point_add K q p"
proof (cases "at_inf p \<or> at_inf q \<or> px p \<noteq> px q")
  case True
  then show ?thesis using assms add_incomplete_commute [of p q] by (auto simp: point_add_def)
next
  case False
  then show ?thesis by (auto simp: point_add_def point_double_def)
qed

lemma add_neg:
  assumes "\<not> at_inf p" "py p \<noteq> 0"
  shows "point_add K p (point_neg p) = Inr NEUTRAL"
proof -
  have "py p \<noteq> - py p"
  proof
    assume "py p = - py p"
    then have "2 * py p = 0" by (simp add: eq_neg_iff_add_eq_0)
    then show False using assms two_ne_0 by simp
  qed
  with assms show ?thesis by (simp add: point_add_def point_neg_def NEUTRAL_def)
qed

end

text \<open>Multiplication by a number, by halving.\<close>

function nat_mul :: "'k :: field ext \<Rightarrow> 'k point_ew \<Rightarrow> nat \<Rightarrow> ('e, 'k point_ew) result" where
  "nat_mul K p n =
     (if n = 0 then Inr NEUTRAL else if n = 1 then Inr p
      else bind_r (nat_mul K p (n div 2)) (\<lambda>acc. bind_r (point_double K acc) (\<lambda>acc.
        if odd n then point_add K acc p else Inr acc)))"
  by pat_completeness auto
termination by (relation "measure (\<lambda>(K, p, n). n)") auto

declare nat_mul.simps [simp del]

lemma strip_top_le: "strip_top bits n \<le> n"
  by (induction n) auto

lemma strip_top_bits:
  "(strip_top bits n = 0 \<longrightarrow> (\<forall>i < n. \<not> bits ! i)) \<and> (0 < strip_top bits n \<longrightarrow> bits ! (strip_top bits n - 1) \<and> (\<forall>i < n. strip_top bits n \<le> i \<longrightarrow> \<not> bits ! i))"
  by (induction n) (auto simp: less_Suc_eq)

text \<open>The loop over the bits \<open>i - 1\<close> down to \<open>0\<close> takes the multiple for the higher bits to that for all.\<close>

lemma for_each_Cons_fun: "for_each f (i # is) = (\<lambda>s. bind_r (f i s) (for_each f is))"
  by (rule ext) simp

lemma bind_return: "bind_r r (for_each f []) = r"
  by (cases r) (simp_all add: bind_r_def)

lemma mul_loop:
  assumes "0 < v div 2 ^ i"
  shows "bind_r (nat_mul K p (v div 2 ^ i) :: ('e, 'k :: field point_ew) result) (for_each (\<lambda>i acc. bind_r (point_double K acc) (\<lambda>acc.
      if odd (v div 2 ^ i) then point_add K acc p else Inr acc)) (rev [0..<i])) = nat_mul K p v"
  using assms
proof (induction i)
  case 0
  show ?case by (simp only: upt_0 rev.simps bind_return power_0 div_by_1)
next
  case (Suc i)
  let ?f = "\<lambda>i acc. bind_r (point_double K acc) (\<lambda>acc. if odd (v div 2 ^ i) then point_add K acc p else (Inr acc :: ('e, 'k point_ew) result))"
  let ?n = "v div 2 ^ i"
  have half: "v div 2 ^ Suc i = ?n div 2" by (simp only: power_Suc2 div_mult2_eq)
  then have n: "1 < ?n" using Suc.prems by auto
  then have "nat_mul K p ?n = bind_r (nat_mul K p (?n div 2)) (?f i)" by (subst nat_mul.simps) simp
  then have step: "nat_mul K p ?n = bind_r (nat_mul K p (v div 2 ^ Suc i)) (?f i)" by (simp only: half)
  have "bind_r (nat_mul K p (v div 2 ^ Suc i)) (for_each ?f (rev [0..<Suc i])) =
      bind_r (nat_mul K p (v div 2 ^ Suc i)) (\<lambda>acc. bind_r (?f i acc) (for_each ?f (rev [0..<i])))"
    by (simp add: for_each_Cons_fun)
  also have "\<dots> = bind_r (nat_mul K p ?n) (for_each ?f (rev [0..<i]))" unfolding step bind_r_assoc ..
  also have "\<dots> = nat_mul K p v" by (rule Suc.IH) (use n in simp)
  finally show ?case .
qed

lemma bits_of_scalar: "reduced s \<Longrightarrow> i < SCALAR_BITS \<Longrightarrow> to_bit_arr s ! i \<longleftrightarrow> odd (sval s div 2 ^ i)"
  unfolding to_bit_arr_def using reducedD(1) [of s]
  by (simp add: limb_bit sval_bit SCALAR_BITS_def del: upt_Suc)

lemma top_value:
  assumes s: "reduced s" and t: "t = strip_top (to_bit_arr s) SCALAR_BITS"
  shows "if t = 0 then sval s = 0 else sval s div 2 ^ (t - 1) = 1"
proof -
  have v: "sval s < 2 ^ SCALAR_BITS" using reducedD(2) [OF s] order_bounds(2) by (simp add: SCALAR_BITS_def)
  have none: "sval s < 2 ^ m" if "\<forall>i < SCALAR_BITS. m \<le> i \<longrightarrow> \<not> to_bit_arr s ! i" "m \<le> SCALAR_BITS" for m
    using that(2)
  proof (induction rule: inc_induct)
    case (step i)
    then have "sval s div 2 ^ i < 2" by (simp add: less_mult_imp_div_less)
    moreover have "even (sval s div 2 ^ i)" using bits_of_scalar [OF s] that(1) step.hyps by auto
    ultimately have "sval s div 2 ^ i = 0" by (metis One_nat_def less_2_cases odd_one)
    then show ?case by (simp add: div_eq_0_iff)
  qed (rule v)
  note tb = strip_top_bits [of "to_bit_arr s" SCALAR_BITS, folded t] and le = strip_top_le [of "to_bit_arr s" SCALAR_BITS, folded t]
  show ?thesis
  proof (cases "t = 0")
    case True
    then show ?thesis using none [of 0] tb by simp
  next
    case False
    then have b: "to_bit_arr s ! (t - 1)" "sval s < 2 ^ t" using tb le none [of t] by auto
    then have "odd (sval s div 2 ^ (t - 1))" using bits_of_scalar [OF s, of "t - 1"] le False by simp
    moreover have "(2 :: nat) ^ t = 2 * 2 ^ (t - 1)" using False by (cases t) simp_all
    then have "sval s div 2 ^ (t - 1) < 2" using b(2) by (simp add: less_mult_imp_div_less)
    ultimately show ?thesis using False by (metis even_zero less_2_cases One_nat_def)
  qed
qed

lemma scalar_mul_nat:
  assumes "reduced s" "\<not> at_inf p"
  shows "scalar_mul K p s = (nat_mul K p (sval s) :: ('e, 'k :: field point_ew) result)"
proof -
  define t where "t = strip_top (to_bit_arr s) SCALAR_BITS"
  let ?f = "\<lambda>b acc. bind_r (point_double K acc) (\<lambda>acc. if b then point_add K acc p else (Inr acc :: ('e, 'k point_ew) result))"
  note top = top_value [OF assms(1) t_def]
  show ?thesis
  proof (cases "t = 0")
    case True
    then show ?thesis using top assms(2) by (simp add: scalar_mul_def t_def nat_mul.simps)
  next
    case False
    have le: "t \<le> SCALAR_BITS" unfolding t_def by (rule strip_top_le)
    have "for_each (\<lambda>i. ?f (to_bit_arr s ! i)) (rev [0..<t - 1]) p = for_each (\<lambda>i. ?f (odd (sval s div 2 ^ i))) (rev [0..<t - 1]) p"
      using bits_of_scalar [OF assms(1)] le by (intro for_each_cong) auto
    moreover have "nat_mul K p (sval s div 2 ^ (t - 1)) = (Inr p :: ('e, 'k point_ew) result)" using top False by (simp add: nat_mul.simps)
    ultimately show ?thesis
      using mul_loop [of "sval s" "t - 1" K p, where 'e = 'e] top False assms(2) by (simp add: scalar_mul_def t_def [symmetric] Let_def)
  qed
qed

subsection \<open>Computing with constants\<close>

text \<open>Products of constant arrays, reduced coefficient by coefficient.\<close>

fun n5 :: "nat list \<Rightarrow> gl lqe" where
  "n5 [a0, a1, a2, a3, a4] = LQE (of_nat a0) (of_nat a1) (of_nat a2) (of_nat a3) (of_nat a4)"
| "n5 _ = lqe_ZERO"

fun n5_mul :: "nat list \<Rightarrow> nat list \<Rightarrow> nat list" where
  "n5_mul [a0, a1, a2, a3, a4] [b0, b1, b2, b3, b4] =
     [(a0 * b0 + 3 * (a1 * b4 + a2 * b3 + a3 * b2 + a4 * b1)) mod gp,
      (a0 * b1 + a1 * b0 + 3 * (a2 * b4 + a3 * b3 + a4 * b2)) mod gp,
      (a0 * b2 + a1 * b1 + a2 * b0 + 3 * (a3 * b4 + a4 * b3)) mod gp,
      (a0 * b3 + a1 * b2 + a2 * b1 + a3 * b0 + 3 * (a4 * b4)) mod gp,
      (a0 * b4 + a1 * b3 + a2 * b2 + a3 * b1 + a4 * b0) mod gp]"
| "n5_mul _ _ = [0, 0, 0, 0, 0]"

definition n5_add :: "nat list \<Rightarrow> nat list \<Rightarrow> nat list" where
  "n5_add a b = map2 (\<lambda>x y. (x + y) mod gp) a b"

lemma gl_of_nat_mod: "(of_nat (n mod gp) :: gl) = of_nat n"
  by (rule gl_of_nat_eq) (rule mod_mod_trivial)

lemma length5E:
  assumes "length a = 5"
  obtains a0 a1 a2 a3 a4 where "a = [a0, a1, a2, a3, a4]"
  using assms by (auto simp: numeral_eq_Suc length_Suc_conv)

lemma n5_mul: "length a = 5 \<Longrightarrow> length b = 5 \<Longrightarrow> n5 (n5_mul a b) = n5 a * n5 b"
  by (elim length5E) (simp add: gl_of_nat_mod lqe_ops Let_def lqe_w_def mult.assoc)

lemma n5_add: "length a = 5 \<Longrightarrow> length b = 5 \<Longrightarrow> n5 (n5_add a b) = n5 a + n5 b"
  by (elim length5E) (simp add: n5_add_def gl_of_nat_mod lqe_ops)

lemma length_n5 [simp]: "length (n5_mul a b) = 5" "length a = 5 \<Longrightarrow> length b = 5 \<Longrightarrow> length (n5_add a b) = 5"
  by (induction a b rule: n5_mul.induct) (simp_all add: n5_add_def)

definition on_curve_n5 :: "nat list \<Rightarrow> nat list \<Rightarrow> bool" where
  "on_curve_n5 x y \<longleftrightarrow> n5_mul y y = n5_add (n5_add (n5_mul (n5_mul x x) x) (n5_mul ECGFP5_CAP_A x)) ECGFP5_CAP_B"

context quintic_ext
begin

lemma arr5_n5: "length v = 5 \<Longrightarrow> arr5 K v = of5 K (n5 v)"
  by (elim length5E) (simp add: arr5_def)

lemma on_curve_n5:
  assumes "length x = 5" "length y = 5" "on_curve_n5 x y"
  shows "is_on_curve K \<lparr>px = arr5 K x, py = arr5 K y, at_inf = c\<rparr>"
proof -
  let ?A = ECGFP5_CAP_A and ?B = ECGFP5_CAP_B
  have c: "length ?A = 5" "length ?B = 5" by (simp_all add: ECGFP5_CAP_A_def ECGFP5_CAP_B_def)
  have "n5 y * n5 y = n5 x * n5 x * n5 x + n5 ?A * n5 x + n5 ?B"
    using assms c by (simp add: on_curve_n5_def flip: n5_mul n5_add)
  then have "of5 K (n5 y * n5 y) = of5 K (n5 x * n5 x * n5 x + n5 ?A * n5 x + n5 ?B)" by simp
  then show ?thesis by (simp add: is_on_curve_def arr5_n5 assms(1,2) cap_a_def cap_b_def c of5_hom)
qed

lemma arr5_inj:
  assumes "length u = 5" "length v = 5" "list_all (\<lambda>x. x < gp) u" "list_all (\<lambda>x. x < gp) v"
  shows "arr5 K u = arr5 K v \<longleftrightarrow> u = v"
proof -
  obtain u0 u1 u2 u3 u4 v0 v1 v2 v3 v4 where "u = [u0, u1, u2, u3, u4]" "v = [v0, v1, v2, v3, v4]"
    using assms(1,2) by (auto elim!: length5E)
  then show ?thesis using assms(3,4) by (auto simp: arr5_def of5_inj gl_of_nat_inj)
qed

lemma generator_ne: "py (generator K) \<noteq> 0" "adiv3 K - px (generator K) \<noteq> 0"
proof -
  have "arr5 K (GENERATOR ! 1) \<noteq> arr5 K [0, 0, 0, 0, 0]" "arr5 K ECGFP5_A_DIV_3 \<noteq> arr5 K (GENERATOR ! 0)"
    by (subst arr5_inj; simp add: GENERATOR_def ECGFP5_A_DIV_3_def)+
  then show "py (generator K) \<noteq> 0" "adiv3 K - px (generator K) \<noteq> 0"
    using arr5_const [of 0] by (simp_all add: generator_def adiv3_def)
qed

lemma generator_on_curve: "is_on_curve K (generator K)"
  unfolding generator_def by (rule on_curve_n5) (simp_all add: GENERATOR_def on_curve_n5_def n5_add_def ECGFP5_CAP_A_def ECGFP5_CAP_B_def)

text \<open>Multiples stay on the curve; the point at infinity has ordinate 0, so that doubling it panics.\<close>

definition proper :: "'k point_ew \<Rightarrow> bool" where
  "proper p \<longleftrightarrow> on_curve K p \<and> (at_inf p \<longrightarrow> py p = 0)"

lemma proper_double: "proper p \<Longrightarrow> point_double K p = Inr q \<Longrightarrow> proper q"
  using double_on_curve [of p q] by (auto simp: proper_def on_curve_def point_double_eq split: if_splits)

lemma proper_add: "proper p \<Longrightarrow> proper q \<Longrightarrow> point_add K p q = Inr r \<Longrightarrow> proper r"
  using add_incomplete_on_curve [of p q r] double_on_curve [of p r]
  by (auto simp: proper_def on_curve_def point_add_def split: if_splits)

lemma proper_mul: "proper p \<Longrightarrow> nat_mul K p n = (Inr r :: ('e, 'k point_ew) result) \<Longrightarrow> proper r"
proof (induction n arbitrary: r rule: less_induct)
  case (less n)
  consider "n = 0" | "n = 1" | "1 < n" by linarith
  then show ?case
  proof cases
    case 3
    obtain a b where ab: "nat_mul K p (n div 2) = (Inr a :: ('e, 'k point_ew) result)" "point_double K a = (Inr b :: ('e, 'k point_ew) result)"
      "(if odd n then point_add K b p else Inr b) = (Inr r :: ('e, 'k point_ew) result)"
      using less.prems(2) [unfolded nat_mul.simps [of K p n]] 3 by (auto simp: result_simps)
    have "proper a" using less.IH [OF _ less.prems(1) ab(1)] 3 by simp
    then have "proper b" using ab(2) by (rule proper_double)
    then show ?thesis using ab(3) proper_add [OF _ less.prems(1)] by (auto split: if_splits)
  qed (use less.prems in \<open>auto simp: nat_mul.simps NEUTRAL_def proper_def on_curve_def\<close>)
qed

end

subsection \<open>Properties\<close>

text \<open>
  C23. The curve is closed under addition. For points of the curve, addition panics exactly when a
  point with ordinate 0 is added to itself; otherwise the sum is on the curve, the order of the
  arguments does not matter, the point at infinity is neutral, and a point and its negation add
  up to the point at infinity.
\<close>

theorem point_add_closed:
  assumes K: "quintic_ext K" and p: "on_curve K p" and q: "on_curve K q"
  shows "(let res = point_add K p q :: ('e, 'k :: field point_ew) result in
      if \<not> at_inf p \<and> \<not> at_inf q \<and> px p = px q \<and> py p = 0 then py q = 0 \<and> res = Inl (Panic Unwrap_failed)
      else \<exists>r. res = Inr r \<and> on_curve K r)
    \<and> (\<not> (at_inf p \<and> at_inf q) \<longrightarrow> (point_add K p q :: ('e, 'k point_ew) result) = point_add K q p)
    \<and> (point_add K p NEUTRAL = (Inr p :: ('e, 'k point_ew) result) \<or> at_inf p)
    \<and> (\<not> at_inf p \<longrightarrow> py p \<noteq> 0 \<longrightarrow> point_add K p (point_neg p) = (Inr NEUTRAL :: ('e, 'k point_ew) result))"
  using quintic_ext.add_outcome [OF K p q] quintic_ext.add_commute [OF K, of p q] quintic_ext.add_neg [OF K, of p]
  unfolding Let_def by (intro conjI impI) (assumption | simp add: point_add_def NEUTRAL_def)+

theorem point_add_closed_witness:
  "quintic_ext gfp5_ext \<and> on_curve gfp5_ext (generator gfp5_ext)
    \<and> point_add gfp5_ext (generator gfp5_ext) (point_neg (generator gfp5_ext)) = (Inr NEUTRAL :: (unit, gfp5 point_ew) result)
    \<and> (\<exists>r. point_add gfp5_ext (generator gfp5_ext) (generator gfp5_ext) = (Inr r :: (unit, gfp5 point_ew) result) \<and> on_curve gfp5_ext r)"
proof -
  let ?K = gfp5_ext and ?G = "generator gfp5_ext"
  have K: "quintic_ext ?K" by unfold_locales
  have g: "on_curve ?K ?G" using gfp5.generator_on_curve by (simp add: on_curve_def)
  have inf: "\<not> at_inf ?G" by (simp add: generator_def)
  note ne = gfp5.generator_ne(1)
  show ?thesis using point_add_closed [OF K g g, where 'e = unit] K g inf ne by (simp add: Let_def)
qed

text \<open>
  C21. Decoding inverts encoding. For every compressed value other than 0 decoding ends without a
  panic; a decoded point is on the curve and encodes to the value again, and a value is refused
  only if no point of the curve encodes to it.
\<close>

theorem point_decode_exact:
  assumes K: "quintic_ext K" and w: "w \<noteq> 0"
  shows "\<exists>res. point_decode K w = (Inr res :: ('e, 'k :: field point_ew option) result) \<and> (case res of
      Some p \<Rightarrow> is_on_curve K p \<and> \<not> at_inf p \<and> point_encode K p = (Inr w :: ('e, 'k) result)
    | None \<Rightarrow> \<forall>p. is_on_curve K p \<longrightarrow> \<not> at_inf p \<longrightarrow> point_encode K p \<noteq> (Inr w :: ('e, 'k) result))"
  using K w by (rule quintic_ext.decode_cases)

theorem point_decode_exact_witness:
  "\<exists>w p. w \<noteq> 0 \<and> point_decode gfp5_ext w = (Inr (Some p) :: (unit, gfp5 point_ew option) result) \<and> is_on_curve gfp5_ext p"
proof -
  let ?K = gfp5_ext and ?G = "generator gfp5_ext"
  have K: "quintic_ext ?K" by unfold_locales
  note y = gfp5.generator_ne(1) and x = gfp5.generator_ne(2)
  define w where "w = py ?G / (adiv3 ?K - px ?G)"
  have w: "w \<noteq> 0" using x y by (simp add: w_def)
  have enc: "point_encode ?K ?G = (Inr w :: (unit, gfp5) result)" using x by (simp add: point_encode_def generator_def w_def)
  show ?thesis
    using point_decode_exact [OF K w, where 'e = unit] enc gfp5.generator_on_curve w
    by (auto split: option.splits) (auto simp: generator_def)
qed

text \<open>
  C22. Multiplication by a scalar is the recursion by halving on its value: for a reduced scalar and
  a point of the curve the loop over the bits computes it, including its panics, and the result
  is on the curve.
\<close>

theorem scalar_mul_exact:
  assumes K: "quintic_ext K" and s: "reduced s" and p: "is_on_curve K p" "\<not> at_inf p"
  shows "scalar_mul K p s = (nat_mul K p (sval s) :: ('e, 'k :: field point_ew) result)
    \<and> (\<forall>r. scalar_mul K p s = (Inr r :: ('e, 'k point_ew) result) \<longrightarrow> on_curve K r)"
proof -
  have "quintic_ext.proper K p" using p by (simp add: quintic_ext.proper_def [OF K] on_curve_def)
  then show ?thesis
    using scalar_mul_nat [OF s p(2)] quintic_ext.proper_mul [OF K] quintic_ext.proper_def [OF K] by metis
qed

theorem scalar_mul_exact_witness:
  "reduced SCALAR_ONE \<and> scalar_mul gfp5_ext (generator gfp5_ext) SCALAR_ONE = (Inr (generator gfp5_ext) :: (unit, gfp5 point_ew) result)"
proof -
  have "reduced SCALAR_ONE" "sval SCALAR_ONE = 1" by (simp_all add: reduced_def sval_consts SCALAR_ONE_def GROUP_ORDER_def)
  then show ?thesis
    using scalar_mul_exact [of gfp5_ext SCALAR_ONE "generator gfp5_ext", where 'e = unit] gfp5.generator_on_curve gfp5.quintic_ext_axioms
    by (simp add: nat_mul.simps generator_def)
qed

end
