(* ===== verification/Sig_Gates.thy ===== *)
theory Sig_Gates
  imports Ecgfp5
begin

section \<open>The gates of the signature gadget\<close>

text \<open>
  \<^verbatim>\<open>plonky2_gadgets/signature.rs\<close>: a gate that performs four steps of a double-and-add chain for two
  points at once, and a gate that checks the compression of a point. A gate is the list of
  values of its constraint polynomials on the wires of its row, which are all zero in a satisfied
  circuit. Each gate has a second version for recursive verification, over the targets of a
  circuit builder (\<^verbatim>\<open>QET\<close>), modelled by the values the builder's operations compute. The theorems
  relate the gates to each other and to the native operations of the curve.
\<close>

definition OFFSET :: "nat list list" where
  "OFFSET =
     [[2626390539619063455, 3069873143820007175, 16481805966921623903, 2169403494164322467, 15849876939764656634],
      [8052493994140007067, 12476750341447220703, 7297584762312352412, 4456043296886321460, 17416054515469523789]]"

definition OFFSET_NEG_319 :: "nat list list" where
  "OFFSET_NEG_319 =
     [[4290739547668160462, 4414444320864360104, 13341412719882091143, 6277196213122332219, 5576063673169056362],
      [31345035390588453, 16142908491486898889, 1937863704661416826, 5598663702127262288, 17388813215359868465]]"

definition lqe_arr :: "nat list \<Rightarrow> 'a :: comm_ring_1 lqe" where
  "lqe_arr v = LQE (of_nat (v ! 0)) (of_nat (v ! 1)) (of_nat (v ! 2)) (of_nat (v ! 3)) (of_nat (v ! 4))"

definition lqe_adiv3 :: "'a :: comm_ring_1 lqe" where
  "lqe_adiv3 = LQE (of_nat 6148914689804861441) 0 0 0 0"

definition lqe_cap_a :: "'a :: comm_ring_1 lqe" where
  "lqe_cap_a = LQE (of_nat 6148914689804861439) (of_nat 263) 0 0 0"

definition lqe_cap_b :: "'a :: comm_ring_1 lqe" where
  "lqe_cap_b = LQE (of_nat 15713893096167979237) (of_nat 6148914689804861265) 0 0 0"

definition lqe_assert_equal :: "'a :: comm_ring_1 lqe \<Rightarrow> 'a lqe \<Rightarrow> 'a list" where
  "lqe_assert_equal x y = map2 (-) (lqe_list x) (lqe_list y)"

subsection \<open>Constraints of points\<close>

type_synonym 'a lpoint = "'a lqe \<times> 'a lqe"

definition add_two_points :: "'a :: comm_ring_1 lpoint \<Rightarrow> 'a lpoint \<Rightarrow> 'a lpoint \<Rightarrow> 'a list" where
  "add_two_points p1 p2 po = (case (p1, p2, po) of ((x1, y1), (x2, y2), (xo, yo)) \<Rightarrow>
     let x2x1 = x2 - x1; y2y1 = y2 - y1 in
     lqe_assert_equal ((xo + x1 + x2) * lqe_square x2x1) (lqe_square y2y1)
     @ lqe_assert_equal ((yo + y1) * x2x1) (y2y1 * (x1 - xo)))"

definition add_three_points :: "'a :: comm_ring_1 lpoint \<Rightarrow> 'a lpoint \<Rightarrow> 'a lpoint \<Rightarrow> 'a lqe \<Rightarrow> 'a lpoint \<Rightarrow> 'a list" where
  "add_three_points p1 p2 p3 lambda po = (case (p1, p2, p3, po) of ((x1, y1), (x2, y2), (x3, y3), (xo, yo)) \<Rightarrow>
     let xi = lqe_square lambda - x1 - x2; yi = lambda * (x1 - xi) - y1; yiy3 = yi - y3; xix3 = xi - x3 in
     lqe_assert_equal (lambda * (x2 - x1)) (y2 - y1)
     @ lqe_assert_equal ((xo + xi + x3) * lqe_square xix3) (lqe_square yiy3)
     @ lqe_assert_equal ((yo + y3) * xix3) (yiy3 * (x3 - xo)))"

definition double_acc_chain ::
  "'a :: comm_ring_1 lpoint \<Rightarrow> 'a lpoint \<Rightarrow> 'a lpoint \<Rightarrow> 'a lpoint \<Rightarrow> 'a lqe \<Rightarrow> 'a \<Rightarrow> 'a \<Rightarrow> 'a list" where
  "double_acc_chain acci p1 p2 acco lambda b0 b1 =
     (let s0 = (1 - b0) * (1 - b1); s1 = b0 * (1 - b1); s2 = (1 - b0) * b1; s3 = b0 * b1 in
      [(1 - b0) * b0, (1 - b1) * b1]
      @ concat (map (\<lambda>i. [s0 * (lqe_list (fst acci) ! i - lqe_list (fst acco) ! i),
                           s0 * (lqe_list (snd acci) ! i - lqe_list (snd acco) ! i)]) [0..<5])
      @ map ((*) s1) (add_two_points acci p1 acco)
      @ map ((*) s2) (add_two_points acci p2 acco)
      @ map ((*) s3) (add_three_points acci p1 p2 lambda acco))"

definition p2_doubleof_p1 :: "'a :: comm_ring_1 lpoint \<Rightarrow> 'a lpoint \<Rightarrow> 'a list" where
  "p2_doubleof_p1 p1 p2 = (case (p1, p2) of ((p1x, p1y), (p2x, p2y)) \<Rightarrow>
     let lambda_num = lqe_mul_base (lqe_square p1x) 3 + lqe_cap_a; lambda_denom = lqe_mul_base p1y 2;
         lambda_num_sq = lqe_square lambda_num; lambda_denom_sq = lqe_square lambda_denom;
         lambda_denom_cube = lambda_denom_sq * lambda_denom in
     lqe_assert_equal ((p2x + p1x + p1x) * lqe_square lambda_denom) (lqe_square lambda_num)
     @ lqe_assert_equal ((p2y + p1y) * lambda_denom_cube)
         (lqe_mul_base (p1x * lambda_num * lambda_denom_sq) 3 - lambda_num_sq * lambda_num))"

subsection \<open>The double-and-add gate\<close>

definition wire5 :: "'a list \<Rightarrow> nat \<Rightarrow> 'a lqe" where
  "wire5 w base = LQE (w ! base) (w ! (base + 1)) (w ! (base + 2)) (w ! (base + 3)) (w ! (base + 4))"

definition wire_point :: "'a list \<Rightarrow> nat \<Rightarrow> 'a lpoint" where
  "wire_point w base = (wire5 w base, wire5 w (base + 5))"

definition lqe_select :: "'a :: comm_ring_1 \<Rightarrow> 'a lqe \<Rightarrow> 'a lqe \<Rightarrow> 'a lqe" where
  "lqe_select lgs x y = (case (x, y) of (LQE x0 x1 x2 x3 x4, LQE y0 y1 y2 y3 y4) \<Rightarrow>
     LQE ((1 - lgs) * x0 + lgs * y0) ((1 - lgs) * x1 + lgs * y1) ((1 - lgs) * x2 + lgs * y2)
       ((1 - lgs) * x3 + lgs * y3) ((1 - lgs) * x4 + lgs * y4))"

definition da4x_eval :: "'a :: comm_ring_1 list \<Rightarrow> 'a list" where
  "da4x_eval w =
     (let g = (lqe_arr (GENERATOR ! 0), lqe_arr (GENERATOR ! 1));
          noff = (lqe_arr (OFFSET_NEG_319 ! 0), lqe_arr (OFFSET_NEG_319 ! 1));
          p = wire_point w 0; accin = wire_point w 10; acco4 = wire_point w 20;
          sp = (\<lambda>i. w ! (30 + i)); sg = (\<lambda>i. w ! (35 + i)); lgs = w ! 39;
          acco1 = wire_point w 40; acco2 = wire_point w 50; acco3 = wire_point w 60;
          accdblin = wire_point w 70; accdblo1 = wire_point w 80; accdblo2 = wire_point w 90; accdblo3 = wire_point w 100;
          lambda1 = wire5 w 110; lambda2 = wire5 w 115; lambda3 = wire5 w 120; lambda4 = wire5 w 125;
          nlgs = 1 - lgs;
          p2 = (lqe_select lgs (fst g) (fst noff), lqe_select lgs (snd g) (snd noff)) in
      p2_doubleof_p1 accin accdblin
      @ p2_doubleof_p1 acco1 accdblo1
      @ p2_doubleof_p1 acco2 accdblo2
      @ [lgs * nlgs]
      @ map ((*) nlgs) (p2_doubleof_p1 acco3 accdblo3)
      @ map ((*) lgs) (lqe_assert_equal (fst acco3) (fst accdblo3) @ lqe_assert_equal (snd acco3) (snd accdblo3))
      @ double_acc_chain accdblin p g acco1 lambda1 (sp 0) (sg 0)
      @ double_acc_chain accdblo1 p g acco2 lambda2 (sp 1) (sg 1)
      @ double_acc_chain accdblo2 p g acco3 lambda3 (sp 2) (sg 2)
      @ double_acc_chain accdblo3 p p2 acco4 lambda4 (sp 3) (sg 3))"

definition da4x_num_wires :: nat where "da4x_num_wires = 130"

definition da4x_num_constraints :: nat where "da4x_num_constraints = 47 * 4 + (2 * 5) * 4 + 1 + 10"

subsection \<open>The compression gate\<close>

definition compression_num_ops :: "nat \<Rightarrow> nat" where "compression_num_ops num_routed_wires = num_routed_wires div 16"

definition wire_ith_w_offset :: "nat \<Rightarrow> nat" where "wire_ith_w_offset i = i * 16"
definition wire_ith_x_offset :: "nat \<Rightarrow> nat" where "wire_ith_x_offset i = i * 16 + 5"
definition wire_ith_y_offset :: "nat \<Rightarrow> nat" where "wire_ith_y_offset i = i * 16 + 10"
definition wire_ith_isactive_offset :: "nat \<Rightarrow> nat" where "wire_ith_isactive_offset i = i * 16 + 15"

definition compression_op :: "'a :: comm_ring_1 list \<Rightarrow> nat \<Rightarrow> 'a list" where
  "compression_op wires j =
     (let isactive = wires ! wire_ith_isactive_offset j; w = wire5 wires (wire_ith_w_offset j);
          x = wire5 wires (wire_ith_x_offset j); y = wire5 wires (wire_ith_y_offset j) in
      lqe_assert_equal (w * (lqe_adiv3 - x)) y
      @ lqe_assert_equal (lqe_square x * x + lqe_mul_base (lqe_cap_a * x + lqe_cap_b) isactive) (lqe_square y))"

definition compression_eval :: "nat \<Rightarrow> 'a :: comm_ring_1 list \<Rightarrow> 'a list" where
  "compression_eval num_ops wires = concat (map (compression_op wires) [0..<num_ops])"

definition compression_num_constraints :: "nat \<Rightarrow> nat" where "compression_num_constraints num_ops = 5 * (2 * num_ops)"

subsection \<open>The gates over circuit targets\<close>

definition qet_add :: "'a :: comm_ring_1 lqe \<Rightarrow> 'a lqe \<Rightarrow> 'a lqe" where
  "qet_add x y = (case (x, y) of (LQE a0 a1 a2 a3 a4, LQE b0 b1 b2 b3 b4) \<Rightarrow> LQE (a0 + b0) (a1 + b1) (a2 + b2) (a3 + b3) (a4 + b4))"

definition qet_sub :: "'a :: comm_ring_1 lqe \<Rightarrow> 'a lqe \<Rightarrow> 'a lqe" where
  "qet_sub x y = (case (x, y) of (LQE a0 a1 a2 a3 a4, LQE b0 b1 b2 b3 b4) \<Rightarrow> LQE (a0 - b0) (a1 - b1) (a2 - b2) (a3 - b3) (a4 - b4))"

definition qet_mul :: "'a :: comm_ring_1 lqe \<Rightarrow> 'a lqe \<Rightarrow> 'a lqe" where
  "qet_mul x y = (case (x, y) of (LQE a0 a1 a2 a3 a4, LQE b0 b1 b2 b3 b4) \<Rightarrow>
     let w = 3;
         c0 = (let t0 = a0 * b0; t1 = a1 * b4; t2 = a2 * b3; t3 = a3 * b2; t4 = a4 * b1;
                   inner = sum_list [t1, t2, t3, t4]; w_inner = w * inner in t0 + w_inner);
         c1 = (let t0 = a0 * b1; t1 = a1 * b0; t2 = a2 * b4; t3 = a3 * b3; t4 = a4 * b2;
                   inner = sum_list [t2, t3, t4]; w_inner = w * inner in sum_list [t0, t1, w_inner]);
         c2 = (let t0 = a0 * b2; t1 = a1 * b1; t2 = a2 * b0; t3 = a3 * b4; t4 = a4 * b3;
                   inner = t3 + t4; w_inner = w * inner in sum_list [t0, t1, t2, w_inner]);
         c3 = (let t0 = a0 * b3; t1 = a1 * b2; t2 = a2 * b1; t3 = a3 * b0; t4 = a4 * b4;
                   w_t4 = w * t4 in sum_list [t0, t1, t2, t3, w_t4]);
         c4 = (let t0 = a0 * b4; t1 = a1 * b3; t2 = a2 * b2; t3 = a3 * b1; t4 = a4 * b0
               in sum_list [t0, t1, t2, t3, t4])
     in LQE c0 c1 c2 c3 c4)"

definition qet_square :: "'a :: comm_ring_1 lqe \<Rightarrow> 'a lqe" where "qet_square x = qet_mul x x"

definition qet_mul_basef :: "'a :: comm_ring_1 lqe \<Rightarrow> 'a \<Rightarrow> 'a lqe" where
  "qet_mul_basef x s = (case x of LQE a0 a1 a2 a3 a4 \<Rightarrow> LQE (a0 * s) (a1 * s) (a2 * s) (a3 * s) (a4 * s))"

definition qet_assert_equal :: "'a :: comm_ring_1 lqe \<Rightarrow> 'a lqe \<Rightarrow> 'a list" where
  "qet_assert_equal x y = map (\<lambda>i. lqe_list x ! i - lqe_list y ! i) [0..<5]"

definition qet_add_two_points :: "'a :: comm_ring_1 lpoint \<Rightarrow> 'a lpoint \<Rightarrow> 'a lpoint \<Rightarrow> 'a list" where
  "qet_add_two_points p1 p2 po = (case (p1, p2, po) of ((x1, y1), (x2, y2), (xo, yo)) \<Rightarrow>
     let x2x1 = qet_sub x2 x1; y2y1 = qet_sub y2 y1;
         lhs = qet_mul (qet_add (qet_add xo x1) x2) (qet_square x2x1); rhs = qet_square y2y1;
         lhs2 = qet_mul (qet_add yo y1) x2x1; rhs2 = qet_mul y2y1 (qet_sub x1 xo) in
     qet_assert_equal lhs rhs @ qet_assert_equal lhs2 rhs2)"

definition qet_add_three_points :: "'a :: comm_ring_1 lpoint \<Rightarrow> 'a lpoint \<Rightarrow> 'a lpoint \<Rightarrow> 'a lqe \<Rightarrow> 'a lpoint \<Rightarrow> 'a list" where
  "qet_add_three_points p1 p2 p3 lambda po = (case (p1, p2, p3, po) of ((x1, y1), (x2, y2), (x3, y3), (xo, yo)) \<Rightarrow>
     let xi = qet_sub (qet_sub (qet_square lambda) x1) x2; yi = qet_sub (qet_mul lambda (qet_sub x1 xi)) y1;
         yiy3 = qet_sub yi y3; xix3 = qet_sub xi x3 in
     qet_assert_equal (qet_mul lambda (qet_sub x2 x1)) (qet_sub y2 y1)
     @ qet_assert_equal (qet_mul (qet_add (qet_add xo xi) x3) (qet_square xix3)) (qet_square yiy3)
     @ qet_assert_equal (qet_mul (qet_add yo y3) xix3) (qet_mul yiy3 (qet_sub x3 xo)))"

definition qet_double_acc_chain ::
  "'a :: comm_ring_1 lpoint \<Rightarrow> 'a lpoint \<Rightarrow> 'a lpoint \<Rightarrow> 'a lpoint \<Rightarrow> 'a lqe \<Rightarrow> 'a \<Rightarrow> 'a \<Rightarrow> 'a list" where
  "qet_double_acc_chain acci p1 p2 acco lambda b0 b1 =
     (let nb0 = 1 - b0; nb1 = 1 - b1; s0 = nb0 * nb1; s1 = b0 * nb1; s2 = nb0 * b1; s3 = b0 * b1 in
      [nb0 * b0, nb1 * b1]
      @ concat (map (\<lambda>i. let diff_x = lqe_list (fst acci) ! i - lqe_list (fst acco) ! i;
                            diff_y = lqe_list (snd acci) ! i - lqe_list (snd acco) ! i in [s0 * diff_x, s0 * diff_y]) [0..<5])
      @ map ((*) s1) (qet_add_two_points acci p1 acco)
      @ map ((*) s2) (qet_add_two_points acci p2 acco)
      @ map ((*) s3) (qet_add_three_points acci p1 p2 lambda acco))"

definition qet_p2_doubleof_p1 :: "'a :: comm_ring_1 lpoint \<Rightarrow> 'a lpoint \<Rightarrow> 'a list" where
  "qet_p2_doubleof_p1 p1 p2 = (case (p1, p2) of ((p1x, p1y), (p2x, p2y)) \<Rightarrow>
     let lambda_num = qet_add (qet_mul_basef (qet_square p1x) 3) lqe_cap_a; lambda_denom = qet_mul_basef p1y 2;
         lhs = qet_mul (qet_add p2x (qet_mul_basef p1x 2)) (qet_square lambda_denom); rhs = qet_square lambda_num;
         ld2 = qet_square lambda_denom; ld3 = qet_mul ld2 lambda_denom; ln2 = qet_square lambda_num; ln3 = qet_mul ln2 lambda_num;
         lhs2 = qet_mul (qet_add p2y p1y) ld3;
         rhs2 = qet_sub (qet_mul_basef (qet_mul (qet_mul p1x lambda_num) ld2) 3) ln3 in
     qet_assert_equal lhs rhs @ qet_assert_equal lhs2 rhs2)"

definition da4x_eval_circuit :: "'a :: comm_ring_1 list \<Rightarrow> 'a list" where
  "da4x_eval_circuit w =
     (let g = (lqe_arr (GENERATOR ! 0), lqe_arr (GENERATOR ! 1));
          noff = (lqe_arr (OFFSET_NEG_319 ! 0), lqe_arr (OFFSET_NEG_319 ! 1));
          p = wire_point w 0; accin = wire_point w 10; acco4 = wire_point w 20;
          sp = (\<lambda>i. w ! (30 + i)); sg = (\<lambda>i. w ! (35 + i)); lgs = w ! 39;
          acco1 = wire_point w 40; acco2 = wire_point w 50; acco3 = wire_point w 60;
          accdblin = wire_point w 70; accdblo1 = wire_point w 80; accdblo2 = wire_point w 90; accdblo3 = wire_point w 100;
          lambda1 = wire5 w 110; lambda2 = wire5 w 115; lambda3 = wire5 w 120; lambda4 = wire5 w 125;
          nlgs = 1 - lgs;
          p2 = (lqe_select lgs (fst g) (fst noff), lqe_select lgs (snd g) (snd noff)) in
      qet_p2_doubleof_p1 accin accdblin
      @ qet_p2_doubleof_p1 acco1 accdblo1
      @ qet_p2_doubleof_p1 acco2 accdblo2
      @ [nlgs * lgs]
      @ map (\<lambda>c. c * nlgs) (qet_p2_doubleof_p1 acco3 accdblo3)
      @ map (\<lambda>c. c * lgs) (qet_assert_equal (fst acco3) (fst accdblo3) @ qet_assert_equal (snd acco3) (snd accdblo3))
      @ qet_double_acc_chain accdblin p g acco1 lambda1 (sp 0) (sg 0)
      @ qet_double_acc_chain accdblo1 p g acco2 lambda2 (sp 1) (sg 1)
      @ qet_double_acc_chain accdblo2 p g acco3 lambda3 (sp 2) (sg 2)
      @ qet_double_acc_chain accdblo3 p p2 acco4 lambda4 (sp 3) (sg 3))"

definition compression_op_circuit :: "'a :: comm_ring_1 list \<Rightarrow> nat \<Rightarrow> 'a list" where
  "compression_op_circuit wires j =
     (let isactv = wires ! wire_ith_isactive_offset j; w = wire5 wires (wire_ith_w_offset j);
          x = wire5 wires (wire_ith_x_offset j); y = wire5 wires (wire_ith_y_offset j);
          x3 = qet_mul (qet_square x) x; capax = qet_mul lqe_cap_a x;
          capax_capb = (case qet_add capax lqe_cap_b of LQE v0 v1 v2 v3 v4 \<Rightarrow>
            LQE (isactv * v0) (isactv * v1) (isactv * v2) (isactv * v3) (isactv * v4)) in
      qet_assert_equal (qet_mul w (qet_sub lqe_adiv3 x)) y
      @ qet_assert_equal (qet_add x3 capax_capb) (qet_square y))"

definition compression_eval_circuit :: "nat \<Rightarrow> 'a :: comm_ring_1 list \<Rightarrow> 'a list" where
  "compression_eval_circuit num_ops wires = concat (map (compression_op_circuit wires) [0..<num_ops])"

subsection \<open>Both versions agree\<close>

lemma qet_ops: "qet_add x y = x + y" "qet_sub x y = x - y" "qet_mul x y = x * y" "qet_mul_basef x s = lqe_mul_base x s"
  "qet_square x = lqe_square x"
proof -
  show "qet_add x y = x + y" "qet_sub x y = x - y" "qet_mul_basef x s = lqe_mul_base x s"
    by (cases x; cases y; simp add: qet_add_def qet_sub_def qet_mul_basef_def lqe_ops)+
  show m: "qet_mul x y = x * y" for x y :: "'a lqe"
    by (cases x; cases y) (simp add: qet_mul_def lqe_ops lqe_w_def Let_def algebra_simps)
  show "qet_square x = lqe_square x" by (simp add: qet_square_def m lqe_square_mult)
qed

lemma assert_equal_same: "qet_assert_equal x y = lqe_assert_equal x y"
  by (cases x; cases y) (simp add: qet_assert_equal_def lqe_assert_equal_def numeral_eq_Suc)

lemma two_points_same: "qet_add_two_points p1 p2 po = add_two_points p1 p2 po"
  by (simp add: qet_add_two_points_def add_two_points_def qet_ops assert_equal_same Let_def split: prod.splits)

lemma three_points_same: "qet_add_three_points p1 p2 p3 lambda po = add_three_points p1 p2 p3 lambda po"
  by (simp add: qet_add_three_points_def add_three_points_def qet_ops assert_equal_same Let_def split: prod.splits)

lemma chain_same: "qet_double_acc_chain acci p1 p2 acco lambda b0 b1 = double_acc_chain acci p1 p2 acco lambda b0 b1"
  by (simp add: qet_double_acc_chain_def double_acc_chain_def two_points_same three_points_same Let_def)

lemma double_same: "qet_p2_doubleof_p1 p1 p2 = p2_doubleof_p1 p1 p2"
proof -
  have "x + lqe_mul_base y 2 = x + y + y" for x y :: "'a lqe" by (cases x; cases y) (simp add: lqe_ops mult_2_right)
  then show ?thesis
    by (cases p1; cases p2) (simp only: qet_p2_doubleof_p1_def p2_doubleof_p1_def qet_ops assert_equal_same Let_def prod.case)
qed

lemma compression_same: "compression_op_circuit wires j = compression_op wires j"
proof -
  have "(case v of LQE v0 v1 v2 v3 v4 \<Rightarrow> LQE (s * v0) (s * v1) (s * v2) (s * v3) (s * v4)) = lqe_mul_base v s" for v and s :: 'a
    by (cases v) (simp add: mult.commute)
  then show ?thesis
    by (simp add: compression_op_circuit_def compression_op_def qet_ops assert_equal_same Let_def)
qed

lemma length_assert_equal [simp]: "length (lqe_assert_equal x y) = 5"
  by (cases x; cases y) (simp add: lqe_assert_equal_def)

lemma length_points [simp]: "length (add_two_points p1 p2 po) = 10" "length (add_three_points p1 p2 p3 l po) = 15"
  "length (p2_doubleof_p1 p1 p2) = 10"
  by (simp_all add: add_two_points_def add_three_points_def p2_doubleof_p1_def Let_def split: prod.splits)

lemma length_chain [simp]: "length (double_acc_chain a p1 p2 a' l b0 b1) = 47"
  by (simp add: double_acc_chain_def Let_def numeral_eq_Suc)

text \<open>
  C24. Each gate evaluates to the same constraints in a recursive verifier as natively, and their
  number is the one the gate announces.
\<close>

theorem gates_agree:
  "da4x_eval_circuit w = da4x_eval (w :: 'a :: comm_ring_1 list) \<and> length (da4x_eval w) = da4x_num_constraints
   \<and> compression_eval_circuit n v = compression_eval n v \<and> length (compression_eval n v) = compression_num_constraints n"
proof -
  have "length (compression_eval n v) = compression_num_constraints n"
    by (induction n) (simp_all add: compression_eval_def compression_num_constraints_def compression_op_def Let_def)
  moreover have "da4x_eval_circuit w = da4x_eval w"
  proof -
    have "(\<lambda>c. c * k) = (*) k" for k :: 'a by (simp add: fun_eq_iff mult.commute)
    then show ?thesis
      unfolding da4x_eval_circuit_def da4x_eval_def Let_def double_same chain_same assert_equal_same
      by (simp only: mult.commute [of "1 - w ! 39" "w ! 39"])
  qed
  moreover have "length (da4x_eval w) = da4x_num_constraints"
    unfolding da4x_eval_def Let_def by (simp add: da4x_num_constraints_def)
  moreover have "compression_op_circuit v = compression_op v" by (rule ext) (rule compression_same)
  ultimately show ?thesis by (simp add: compression_eval_circuit_def compression_eval_def)
qed

subsection \<open>Native witnesses\<close>

definition step_add :: "'k :: field ext \<Rightarrow> bool \<Rightarrow> bool \<Rightarrow> 'k point_ew \<Rightarrow> 'k point_ew \<Rightarrow> 'k point_ew \<Rightarrow> ('e, 'k point_ew) result" where
  "step_add K spi sgi accdbl p p2 =
     (case (spi, sgi) of
        (False, False) \<Rightarrow> Inr accdbl
      | (True, False) \<Rightarrow> point_add K accdbl p
      | (False, True) \<Rightarrow> point_add K accdbl p2
      | (True, True) \<Rightarrow> bind_r (point_add K accdbl p) (\<lambda>m. point_add K m p2))"

definition gate_step ::
  "'k :: field ext \<Rightarrow> bool \<Rightarrow> 'k point_ew \<Rightarrow> 'k point_ew \<Rightarrow> 'k point_ew \<Rightarrow> gl \<Rightarrow> gl \<Rightarrow> ('e, 'k point_ew \<times> 'k point_ew \<times> 'k) result" where
  "gate_step K final p p2 acc spi sgi =
     bind_r (if final then Inr acc else point_double K acc) (\<lambda>accdbl.
     bind_r (tangent accdbl p) (\<lambda>lambda.
     bind_r (step_add K (spi = 1) (sgi = 1) accdbl p p2) (\<lambda>acco. Inr (accdbl, acco, lambda))))"

record 'k gate_witness =
  gw_accdblin :: "'k point_ew"
  gw_acco1 :: "'k point_ew"
  gw_accdblo1 :: "'k point_ew"
  gw_acco2 :: "'k point_ew"
  gw_accdblo2 :: "'k point_ew"
  gw_acco3 :: "'k point_ew"
  gw_accdblo3 :: "'k point_ew"
  gw_acco4 :: "'k point_ew"
  gw_lambda1 :: 'k
  gw_lambda2 :: 'k
  gw_lambda3 :: 'k
  gw_lambda4 :: 'k

definition compute_gate_witness ::
  "'k :: field ext \<Rightarrow> gl list \<Rightarrow> gl list \<Rightarrow> 'k point_ew \<Rightarrow> 'k point_ew \<Rightarrow> bool \<Rightarrow> ('e, 'k gate_witness) result" where
  "compute_gate_witness K sp sg p accin is_last =
     (let g = generator K in
      bind_r (point_from K OFFSET_NEG_319) (\<lambda>neg_off.
      bind_r (assert_r (is_last \<longrightarrow> sp ! 3 = 0 \<and> sg ! 3 = 1)) (\<lambda>_.
      bind_r (gate_step K False p g accin (sp ! 0) (sg ! 0)) (\<lambda>(accdbl, acco1, lambda1).
      bind_r (gate_step K False p g acco1 (sp ! 1) (sg ! 1)) (\<lambda>(accdblo1, acco2, lambda2).
      bind_r (gate_step K False p g acco2 (sp ! 2) (sg ! 2)) (\<lambda>(accdblo2, acco3, lambda3).
      bind_r (gate_step K is_last p (if is_last then neg_off else g) acco3 (sp ! 3) (sg ! 3)) (\<lambda>(accdblo3, acco4, lambda4).
      Inr \<lparr>gw_accdblin = accdbl, gw_acco1 = acco1, gw_accdblo1 = accdblo1, gw_acco2 = acco2, gw_accdblo2 = accdblo2,
           gw_acco3 = acco3, gw_accdblo3 = accdblo3, gw_acco4 = acco4, gw_lambda1 = lambda1, gw_lambda2 = lambda2,
           gw_lambda3 = lambda3, gw_lambda4 = lambda4\<rparr>)))))))"

text \<open>The wires of a row; wire 34 is not used.\<close>

definition point_wires :: "'k ext \<Rightarrow> 'k point_ew \<Rightarrow> gl list" where
  "point_wires K p = lqe_list (to5 K (px p)) @ lqe_list (to5 K (py p))"

definition set_dbladd4x_gate_witness ::
  "'k ext \<Rightarrow> 'k point_ew \<Rightarrow> 'k point_ew \<Rightarrow> gl list \<Rightarrow> gl list \<Rightarrow> bool \<Rightarrow> 'k gate_witness \<Rightarrow> gl list" where
  "set_dbladd4x_gate_witness K p accin sp sg lgs w =
     point_wires K p @ point_wires K accin @ point_wires K (gw_acco4 w) @ sp @ [0] @ sg @ [if lgs then 1 else 0]
     @ point_wires K (gw_acco1 w) @ point_wires K (gw_acco2 w) @ point_wires K (gw_acco3 w)
     @ point_wires K (gw_accdblin w) @ point_wires K (gw_accdblo1 w) @ point_wires K (gw_accdblo2 w) @ point_wires K (gw_accdblo3 w)
     @ lqe_list (to5 K (gw_lambda1 w)) @ lqe_list (to5 K (gw_lambda2 w)) @ lqe_list (to5 K (gw_lambda3 w)) @ lqe_list (to5 K (gw_lambda4 w))"

subsection \<open>What satisfied constraints say\<close>

definition satisfied :: "'a :: zero list \<Rightarrow> bool" where
  "satisfied cs \<longleftrightarrow> list_all (\<lambda>c. c = 0) cs"

lemma satisfied_simps [simp]: "satisfied []" "satisfied (c # cs) \<longleftrightarrow> c = 0 \<and> satisfied cs"
  "satisfied (cs @ ds) \<longleftrightarrow> satisfied cs \<and> satisfied ds"
  by (simp_all add: satisfied_def)

lemma satisfied_scaled: "satisfied (map ((*) (k :: gl)) cs) \<longleftrightarrow> k = 0 \<or> satisfied cs"
  by (induction cs) auto

lemma satisfied_zeros [simp]: "satisfied (concat (map (\<lambda>i. [0, 0 :: gl]) is))"
  by (induction "is") simp_all

lemma satisfied_equal: "satisfied (lqe_assert_equal x y) \<longleftrightarrow> x = y"
  by (cases x; cases y) (auto simp: lqe_assert_equal_def)

lemma satisfied_copies:
  "satisfied (concat (map (\<lambda>i. [(k :: gl) * (lqe_list x ! i - lqe_list x' ! i), k * (lqe_list y ! i - lqe_list y' ! i)]) [0..<5]))
    \<longleftrightarrow> k = 0 \<or> x = x' \<and> y = y'"
  by (cases x; cases x'; cases y; cases y') (auto simp: numeral_eq_Suc)

text \<open>
  A step is regular if none of its additions meets a point with the same abscissa. The gate's
  constraints say nothing about other additions.
\<close>

definition regular_step :: "'k :: field ext \<Rightarrow> bool \<Rightarrow> bool \<Rightarrow> 'k point_ew \<Rightarrow> 'k point_ew \<Rightarrow> 'k point_ew \<Rightarrow> bool" where
  "regular_step K b0 b1 acc p p2 \<longleftrightarrow>
     px acc \<noteq> px p \<and> (\<not> b0 \<and> b1 \<longrightarrow> px acc \<noteq> px p2)
     \<and> (b0 \<and> b1 \<longrightarrow> (case point_add K acc p :: (unit, 'k point_ew) result of Inr m \<Rightarrow> px m \<noteq> px p2 | Inl _ \<Rightarrow> True))"

text \<open>The point of the curve that a pair of wires carries.\<close>

definition curve_point :: "'k ext \<Rightarrow> gl lpoint \<Rightarrow> 'k point_ew" where
  "curve_point K p = \<lparr>px = of5 K (fst p), py = of5 K (snd p), at_inf = False\<rparr>"

lemma curve_point_sel [simp]: "px (curve_point K p) = of5 K (fst p)" "py (curve_point K p) = of5 K (snd p)" "\<not> at_inf (curve_point K p)"
  by (simp_all add: curve_point_def)

definition neg_offset :: "'k ext \<Rightarrow> 'k point_ew" where
  "neg_offset K = \<lparr>px = arr5 K (OFFSET_NEG_319 ! 0), py = arr5 K (OFFSET_NEG_319 ! 1), at_inf = False\<rparr>"

text \<open>The four steps of a row: doubling inputs, doubled points, results and slopes.\<close>

definition regular_row :: "'k :: field ext \<Rightarrow> gl list \<Rightarrow> bool" where
  "regular_row K w \<longleftrightarrow>
     (let pt = (\<lambda>i. curve_point K (wire_point w i)); g = generator K; final = (w ! 39 = 1) in
      py (pt 10) \<noteq> 0 \<and> py (pt 40) \<noteq> 0 \<and> py (pt 50) \<noteq> 0 \<and> (final \<or> py (pt 60) \<noteq> 0)
      \<and> regular_step K (w ! 30 = 1) (w ! 35 = 1) (pt 70) (pt 0) g
      \<and> regular_step K (w ! 31 = 1) (w ! 36 = 1) (pt 80) (pt 0) g
      \<and> regular_step K (w ! 32 = 1) (w ! 37 = 1) (pt 90) (pt 0) g
      \<and> regular_step K (w ! 33 = 1) (w ! 38 = 1) (pt 100) (pt 0) (if final then neg_offset K else g))"

definition row_carries :: "'k ext \<Rightarrow> gl list \<Rightarrow> 'k gate_witness \<Rightarrow> bool" where
  "row_carries K w W \<longleftrightarrow>
     (let pt = (\<lambda>i. curve_point K (wire_point w i)); both = (\<lambda>i. w ! (30 + i) = 1 \<and> w ! (35 + i) = 1) in
      gw_accdblin W = pt 70 \<and> gw_acco1 W = pt 40 \<and> gw_accdblo1 W = pt 80 \<and> gw_acco2 W = pt 50
      \<and> gw_accdblo2 W = pt 90 \<and> gw_acco3 W = pt 60 \<and> gw_accdblo3 W = pt 100 \<and> gw_acco4 W = pt 20
      \<and> (both 0 \<longrightarrow> gw_lambda1 W = of5 K (wire5 w 110)) \<and> (both 1 \<longrightarrow> gw_lambda2 W = of5 K (wire5 w 115))
      \<and> (both 2 \<longrightarrow> gw_lambda3 W = of5 K (wire5 w 120)) \<and> (both 3 \<longrightarrow> gw_lambda4 W = of5 K (wire5 w 125)))"

definition row_bits :: "gl list \<Rightarrow> bool" where
  "row_bits w \<longleftrightarrow> list_all (\<lambda>i. w ! i = 0 \<or> w ! i = 1) [30, 31, 32, 33, 35, 36, 37, 38, 39]"

context quintic_ext
begin

lemma curve_point_inj: "curve_point K p = curve_point K q \<longleftrightarrow> p = q"
  by (cases p; cases q) (auto simp: curve_point_def of5_inj)

lemma lqe_consts: "of5 K lqe_cap_a = cap_a K" "of5 K lqe_cap_b = cap_b K" "of5 K lqe_adiv3 = adiv3 K"
  "of5 K (lqe_arr v) = arr5 K v"
  by (simp_all add: lqe_cap_a_def lqe_cap_b_def lqe_adiv3_def lqe_arr_def cap_a_def cap_b_def adiv3_def arr5_def
      ECGFP5_CAP_A_def ECGFP5_CAP_B_def ECGFP5_A_DIV_3_def)

text \<open>A chord: for points with different abscissas the two constraints are the coordinates of the sum.\<close>

lemma chord_solution:
  fixes x1 :: "'a :: field"
  assumes "x1 \<noteq> x2" "l = (y2 - y1) / (x2 - x1)"
  shows "(xo + x1 + x2) * ((x2 - x1) * (x2 - x1)) = (y2 - y1) * (y2 - y1) \<and> (yo + y1) * (x2 - x1) = (y2 - y1) * (x1 - xo)
    \<longleftrightarrow> xo = l * l - x1 - x2 \<and> yo = l * (x1 - xo) - y1"
proof -
  let ?d = "x2 - x1"
  have d: "?d \<noteq> 0" using assms(1) by simp
  then have l: "y2 - y1 = l * ?d" using assms(2) by simp
  have "(xo + x1 + x2) * (?d * ?d) = l * ?d * (l * ?d) \<longleftrightarrow> (?d * ?d) * (xo + x1 + x2) = (?d * ?d) * (l * l)" by (simp add: ac_simps)
  also have "\<dots> \<longleftrightarrow> xo + x1 + x2 = l * l" using d by simp
  also have "\<dots> \<longleftrightarrow> xo = l * l - x1 - x2" by (auto simp: algebra_simps)
  finally have first: "(xo + x1 + x2) * (?d * ?d) = l * ?d * (l * ?d) \<longleftrightarrow> xo = l * l - x1 - x2" .
  have "(yo + y1) * ?d = l * ?d * (x1 - xo) \<longleftrightarrow> ?d * (yo + y1) = ?d * (l * (x1 - xo))" by (simp add: ac_simps)
  also have "\<dots> \<longleftrightarrow> yo + y1 = l * (x1 - xo)" using d by simp
  also have "\<dots> \<longleftrightarrow> yo = l * (x1 - xo) - y1" by (auto simp: algebra_simps)
  finally show ?thesis using first unfolding l by blast
qed

lemma add_chord:
  assumes "px p \<noteq> px q" "\<not> at_inf p" "\<not> at_inf q" "l = (py q - py p) / (px q - px p)"
  shows "point_add K p q = (Inr r :: ('e, 'k point_ew) result) \<longleftrightarrow> px r = l * l - px p - px q \<and> py r = l * (px p - px r) - py p \<and> \<not> at_inf r"
proof -
  have "(point_add K p q :: ('e, 'k point_ew) result) = Inr \<lparr>px = l * l - px p - px q, py = l * (px p - (l * l - px p - px q)) - py p, at_inf = False\<rparr>"
    using assms by (simp only: point_add_def add_incomplete_eq Let_def if_False)
  then show ?thesis by (cases r) (auto simp only: sum.inject point_ew.simps)
qed

lemma two_points_sound:
  assumes "fst p1 \<noteq> fst p2"
  shows "satisfied (add_two_points p1 p2 po) \<longleftrightarrow>
    point_add K (curve_point K p1) (curve_point K p2) = (Inr (curve_point K po) :: ('e, 'k point_ew) result)"
proof -
  obtain x1 y1 x2 y2 xo yo where p: "p1 = (x1, y1)" "p2 = (x2, y2)" "po = (xo, yo)" by (metis surj_pair)
  have "satisfied (add_two_points p1 p2 po) \<longleftrightarrow>
      (xo + x1 + x2) * ((x2 - x1) * (x2 - x1)) = (y2 - y1) * (y2 - y1) \<and> (yo + y1) * (x2 - x1) = (y2 - y1) * (x1 - xo)"
    by (simp add: p add_two_points_def Let_def satisfied_equal lqe_square_mult)
  also have "\<dots> \<longleftrightarrow> (of5 K xo + of5 K x1 + of5 K x2) * ((of5 K x2 - of5 K x1) * (of5 K x2 - of5 K x1)) = (of5 K y2 - of5 K y1) * (of5 K y2 - of5 K y1)
      \<and> (of5 K yo + of5 K y1) * (of5 K x2 - of5 K x1) = (of5 K y2 - of5 K y1) * (of5 K x1 - of5 K xo)"
    by (simp only: of5_inj flip: of5_add of5_sub of5_mul)
  also have "\<dots> \<longleftrightarrow> point_add K (curve_point K p1) (curve_point K p2) = (Inr (curve_point K po) :: ('e, 'k point_ew) result)"
  proof -
    define l where "l = (of5 K y2 - of5 K y1) / (of5 K x2 - of5 K x1)"
    have ne: "of5 K x1 \<noteq> of5 K x2" using assms by (simp add: p of5_inj)
    show ?thesis
      using add_chord [of "curve_point K p1" "curve_point K p2" l "curve_point K po", where 'e = 'e] ne
      unfolding chord_solution [OF ne l_def] by (simp add: p l_def)
  qed
  finally show ?thesis .
qed

text \<open>The two additions of a step with both bits set, with the slope of the first one as a wire.\<close>

lemma three_points_sound:
  assumes ne: "fst p1 \<noteq> fst p2" and mid: "point_add K (curve_point K p1) (curve_point K p2) = (Inr m :: ('e, 'k point_ew) result)"
    and ne3: "px m \<noteq> of5 K (fst p3)"
  shows "satisfied (add_three_points p1 p2 p3 l po) \<longleftrightarrow>
    tangent (curve_point K p1) (curve_point K p2) = (Inr (of5 K l) :: ('e, 'k) result)
    \<and> point_add K m (curve_point K p3) = (Inr (curve_point K po) :: ('e, 'k point_ew) result)"
proof -
  obtain x1 y1 x2 y2 x3 y3 xo yo where p: "p1 = (x1, y1)" "p2 = (x2, y2)" "p3 = (x3, y3)" "po = (xo, yo)" by (metis surj_pair)
  have ne': "of5 K x1 \<noteq> of5 K x2" using ne by (simp add: p of5_inj)
  define xi where "xi = l * l - x1 - x2"
  define yi where "yi = l * (x1 - xi) - y1"
  have sat: "satisfied (add_three_points p1 p2 p3 l po) \<longleftrightarrow> l * (x2 - x1) = y2 - y1 \<and> satisfied (add_two_points (x3, y3) (xi, yi) po)"
  proof -
    have "(xo + xi + x3) = (xo + x3 + xi)" by (simp add: ac_simps)
    then show ?thesis
      by (simp only: p add_three_points_def add_two_points_def prod.case Let_def satisfied_simps satisfied_equal lqe_square_mult
          xi_def [symmetric] yi_def [symmetric])
  qed
  have slope: "l * (x2 - x1) = y2 - y1 \<longleftrightarrow> tangent (curve_point K p1) (curve_point K p2) = (Inr (of5 K l) :: ('e, 'k) result)"
  proof -
    have "l * (x2 - x1) = y2 - y1 \<longleftrightarrow> of5 K l * (of5 K x2 - of5 K x1) = of5 K y2 - of5 K y1"
      by (simp only: of5_inj flip: of5_sub of5_mul)
    then show ?thesis using ne' by (auto simp: tangent_def p)
  qed
  show ?thesis
  proof (cases "l * (x2 - x1) = y2 - y1")
    case True
    then have "of5 K l * (of5 K x2 - of5 K x1) = of5 K y2 - of5 K y1" by (simp only: flip: of5_sub of5_mul)
    then have l: "of5 K l = (of5 K y2 - of5 K y1) / (of5 K x2 - of5 K x1)" using ne' by (simp add: eq_divide_eq)
    have "point_add K (curve_point K p1) (curve_point K p2) = (Inr (curve_point K (xi, yi)) :: ('e, 'k point_ew) result)"
      using ne' l by (subst add_chord [of _ _ "of5 K l"]) (simp_all only: p curve_point_sel fst_conv snd_conv xi_def yi_def of5_hom simp_thms)
    with mid have m: "m = curve_point K (xi, yi)" by simp
    have "x3 \<noteq> xi" using ne3 by (auto simp: m p)
    moreover have "(point_add K m (curve_point K p3) :: ('e, 'k point_ew) result) = point_add K (curve_point K p3) m"
      by (rule add_commute) simp
    ultimately show ?thesis
      using two_points_sound [of "(x3, y3)" "(xi, yi)" po, where 'e = 'e] slope
      by (simp add: sat [unfolded p] True p m)
  qed (use sat slope in auto)
qed

text \<open>Doubling, with denominators cleared.\<close>

lemma tangent_solution:
  fixes x1 :: "'a :: field"
  assumes "d \<noteq> 0" "l = n / d"
  shows "(x2 + x1 + x1) * (d * d) = n * n \<and> (y2 + y1) * (d * d * d) = x1 * n * (d * d) * 3 - n * n * n
    \<longleftrightarrow> x2 = l * l - x1 - x1 \<and> y2 = l * (x1 - x2) - y1"
proof -
  have n: "n = l * d" using assms by simp
  have "(x2 + x1 + x1) * (d * d) = l * d * (l * d) \<longleftrightarrow> (d * d) * (x2 + x1 + x1) = (d * d) * (l * l)" by (simp add: ac_simps)
  also have "\<dots> \<longleftrightarrow> x2 + x1 + x1 = l * l" using assms(1) by simp
  also have "\<dots> \<longleftrightarrow> x2 = l * l - x1 - x1" by (auto simp: algebra_simps)
  finally have first: "(x2 + x1 + x1) * (d * d) = l * d * (l * d) \<longleftrightarrow> x2 = l * l - x1 - x1" .
  have "(y2 + y1) * (d * d * d) = x1 * (l * d) * (d * d) * 3 - l * d * (l * d) * (l * d) \<longleftrightarrow>
      (d * d * d) * (y2 + y1) = (d * d * d) * (l * (3 * x1 - l * l))" by (simp add: algebra_simps)
  also have "\<dots> \<longleftrightarrow> y2 + y1 = l * (3 * x1 - l * l)" using assms(1) by simp
  finally have second: "(y2 + y1) * (d * d * d) = x1 * (l * d) * (d * d) * 3 - l * d * (l * d) * (l * d) \<longleftrightarrow> y2 + y1 = l * (3 * x1 - l * l)" .
  have "y2 + y1 = l * (3 * x1 - l * l) \<longleftrightarrow> y2 = l * (x1 - x2) - y1" if "x2 = l * l - x1 - x1"
    unfolding that by (auto simp: algebra_simps)
  then show ?thesis using first second unfolding n by blast
qed

lemma double_tangent:
  assumes "py p \<noteq> 0" "l = (px p * px p * 3 + cap_a K) / (py p * 2)"
  shows "point_double K p = (Inr r :: ('e, 'k point_ew) result) \<longleftrightarrow>
    px r = l * l - px p - px p \<and> py r = l * (px p - px r) - py p \<and> \<not> at_inf r"
proof -
  have "(point_double K p :: ('e, 'k point_ew) result) = Inr \<lparr>px = l * l - px p - px p, py = l * (px p - (l * l - px p - px p)) - py p, at_inf = False\<rparr>"
    using assms by (simp only: point_double_eq Let_def if_False)
  then show ?thesis by (cases r) (auto simp only: sum.inject point_ew.simps)
qed

lemma doubling_sound:
  assumes "snd p1 \<noteq> 0"
  shows "satisfied (p2_doubleof_p1 p1 p2) \<longleftrightarrow> point_double K (curve_point K p1) = (Inr (curve_point K p2) :: ('e, 'k point_ew) result)"
proof -
  obtain x1 y1 x2 y2 where p: "p1 = (x1, y1)" "p2 = (x2, y2)" by (metis surj_pair)
  let ?n = "x1 * x1 * lqe_const 3 + lqe_cap_a" and ?d = "y1 * lqe_const 2"
  let ?N = "of5 K x1 * of5 K x1 * 3 + cap_a K" and ?D = "of5 K y1 * 2"
  have c: "of5 K (lqe_const 3) = 3" "of5 K (lqe_const 2) = 2"
    using of5_of_nat [of 3] of5_of_nat [of 2] by (simp_all add: lqe_of_nat del: of_nat_numeral) simp_all
  have y: "of5 K y1 \<noteq> 0" using assms by (simp add: p flip: of5_0) (simp add: of5_inj)
  then have d: "?D \<noteq> 0" using two_ne_0 by simp
  have "satisfied (p2_doubleof_p1 p1 p2) \<longleftrightarrow> (x2 + x1 + x1) * (?d * ?d) = ?n * ?n
      \<and> (y2 + y1) * (?d * ?d * ?d) = x1 * ?n * (?d * ?d) * lqe_const 3 - ?n * ?n * ?n"
    by (simp add: p p2_doubleof_p1_def Let_def satisfied_equal lqe_square_mult lqe_mul_base_const)
  also have "\<dots> \<longleftrightarrow> (of5 K x2 + of5 K x1 + of5 K x1) * (?D * ?D) = ?N * ?N
      \<and> (of5 K y2 + of5 K y1) * (?D * ?D * ?D) = of5 K x1 * ?N * (?D * ?D) * 3 - ?N * ?N * ?N"
    unfolding c [symmetric] lqe_consts(1) [symmetric] by (simp only: of5_inj flip: of5_add of5_sub of5_mul)
  also have "\<dots> \<longleftrightarrow> point_double K (curve_point K p1) = (Inr (curve_point K p2) :: ('e, 'k point_ew) result)"
    unfolding tangent_solution [OF d refl] using y by (subst double_tangent [OF _ refl]) (simp_all only: p curve_point_sel fst_conv snd_conv simp_thms)
  finally show ?thesis .
qed

lemma add_any: "point_add K p q = (Inr r :: ('e, 'k point_ew) result) \<Longrightarrow> point_add K p q = (Inr r :: ('f, 'k point_ew) result)"
  by (auto simp: point_add_def point_double_def add_incomplete_def qdiv_def Let_def split: if_splits)

lemma addition_chain_sound:
  assumes reg: "regular_step K (b0 = 1) (b1 = 1) (curve_point K acci) (curve_point K p1) (curve_point K p2)"
  shows "satisfied (double_acc_chain acci p1 p2 acco l b0 b1) \<longleftrightarrow>
    (b0 = 0 \<or> b0 = 1) \<and> (b1 = 0 \<or> b1 = 1)
    \<and> step_add K (b0 = 1) (b1 = 1) (curve_point K acci) (curve_point K p1) (curve_point K p2) = (Inr (curve_point K acco) :: ('e, 'k point_ew) result)
    \<and> (b0 = 1 \<and> b1 = 1 \<longrightarrow> tangent (curve_point K acci) (curve_point K p1) = (Inr (of5 K l) :: ('e, 'k) result))"
proof (cases "(b0 = 0 \<or> b0 = 1) \<and> (b1 = 0 \<or> b1 = 1)")
  case bits: True
  have copy: "curve_point K acci = curve_point K acco \<longleftrightarrow> fst acci = fst acco \<and> snd acci = snd acco"
    by (simp add: curve_point_inj prod_eq_iff)
  have ne: "b0 = 1 \<Longrightarrow> fst acci \<noteq> fst p1" "b0 = 0 \<Longrightarrow> b1 = 1 \<Longrightarrow> fst acci \<noteq> fst p2"
    using reg by (auto simp: regular_step_def)
  consider "b0 = 0" "b1 = 0" | "b0 = 1" "b1 = 0" | "b0 = 0" "b1 = 1" | "b0 = 1" "b1 = 1" using bits by auto
  then show ?thesis
  proof cases
    case 1
    then show ?thesis by (simp add: double_acc_chain_def Let_def satisfied_scaled satisfied_copies [of 1, simplified] step_add_def copy)
  next
    case 2
    then show ?thesis using two_points_sound [OF ne(1), of acco, where 'e = 'e]
      by (simp add: double_acc_chain_def Let_def satisfied_scaled satisfied_copies step_add_def)
  next
    case 3
    then show ?thesis using two_points_sound [OF ne(2), of acco, where 'e = 'e]
      by (simp add: double_acc_chain_def Let_def satisfied_scaled satisfied_copies step_add_def)
  next
    case 4
    obtain m where m: "point_add K (curve_point K acci) (curve_point K p1) = (Inr m :: ('e, 'k point_ew) result)"
      using ne(1) 4 by (simp add: point_add_def add_incomplete_eq of5_inj Let_def)
    have "px m \<noteq> of5 K (fst p2)" using reg add_any [OF m, where 'f = unit] 4 by (auto simp: regular_step_def)
    then show ?thesis
      using three_points_sound [OF ne(1) m, of p2 l acco] 4 m
      by (auto simp: double_acc_chain_def Let_def satisfied_scaled satisfied_copies step_add_def)
  qed
next
  case False
  have "(1 - b) * b = 0 \<longleftrightarrow> b = 0 \<or> b = 1" for b :: gl by auto
  with False show ?thesis by (auto simp: double_acc_chain_def Let_def)
qed

text \<open>The two parts of a step together.\<close>

lemma step_sound:
  assumes reg: "regular_step K (b0 = 1) (b1 = 1) (curve_point K accdbl) (curve_point K p) (curve_point K p2)"
    and y: "\<not> final \<Longrightarrow> snd acc \<noteq> 0" and bits: "b0 = 0 \<or> b0 = 1" "b1 = 0 \<or> b1 = 1"
  shows "(if final then acc = accdbl else satisfied (p2_doubleof_p1 acc accdbl)) \<and> satisfied (double_acc_chain accdbl p p2 acco l b0 b1) \<longleftrightarrow>
    (\<exists>l'. gate_step K final (curve_point K p) (curve_point K p2) (curve_point K acc) b0 b1
        = (Inr (curve_point K accdbl, curve_point K acco, l') :: ('e, 'k point_ew \<times> 'k point_ew \<times> 'k) result)
      \<and> (b0 = 1 \<and> b1 = 1 \<longrightarrow> l' = of5 K l))"
proof -
  have ne: "px (curve_point K accdbl) \<noteq> px (curve_point K p)" using reg by (simp add: regular_step_def)
  then obtain t where t: "tangent (curve_point K accdbl) (curve_point K p) = (Inr t :: ('e, 'k) result)"
    by (simp add: tangent_def qdiv_def)
  have dbl: "(if final then acc = accdbl else satisfied (p2_doubleof_p1 acc accdbl)) \<longleftrightarrow>
      (if final then Inr (curve_point K acc) else point_double K (curve_point K acc)) = (Inr (curve_point K accdbl) :: ('e, 'k point_ew) result)"
    using doubling_sound [OF y, of accdbl, where 'e = 'e] by (simp add: curve_point_inj)
  show ?thesis
    unfolding dbl addition_chain_sound [OF reg, where 'e = 'e] using bits t
    by (auto simp: gate_step_def result_simps)
qed

text \<open>A whole row.\<close>

lemma lqe_select_bit: "lqe_select (0 :: 'a :: comm_ring_1) x y = x" "lqe_select (1 :: 'a) x y = y"
  by (cases x; cases y; simp add: lqe_select_def)+

lemma row_constraints:
  fixes w :: "gl list"
  shows "satisfied (da4x_eval w) \<longleftrightarrow>
    (let g = (lqe_arr (GENERATOR ! 0), lqe_arr (GENERATOR ! 1)); noff = (lqe_arr (OFFSET_NEG_319 ! 0), lqe_arr (OFFSET_NEG_319 ! 1));
         p = wire_point w 0; final = (w ! 39 = 1) in
     (w ! 39 = 0 \<or> w ! 39 = 1)
     \<and> (satisfied (p2_doubleof_p1 (wire_point w 10) (wire_point w 70))
        \<and> satisfied (double_acc_chain (wire_point w 70) p g (wire_point w 40) (wire5 w 110) (w ! 30) (w ! 35)))
     \<and> (satisfied (p2_doubleof_p1 (wire_point w 40) (wire_point w 80))
        \<and> satisfied (double_acc_chain (wire_point w 80) p g (wire_point w 50) (wire5 w 115) (w ! 31) (w ! 36)))
     \<and> (satisfied (p2_doubleof_p1 (wire_point w 50) (wire_point w 90))
        \<and> satisfied (double_acc_chain (wire_point w 90) p g (wire_point w 60) (wire5 w 120) (w ! 32) (w ! 37)))
     \<and> ((if final then wire_point w 60 = wire_point w 100 else satisfied (p2_doubleof_p1 (wire_point w 60) (wire_point w 100)))
        \<and> satisfied (double_acc_chain (wire_point w 100) p (if final then noff else g) (wire_point w 20) (wire5 w 125) (w ! 33) (w ! 38))))"
proof -
  have lgs: "w ! 39 * (1 - w ! 39) = 0 \<longleftrightarrow> w ! 39 = 0 \<or> w ! 39 = 1" by auto
  have eq: "wire_point w 60 = wire_point w 100 \<longleftrightarrow> fst (wire_point w 60) = fst (wire_point w 100) \<and> snd (wire_point w 60) = snd (wire_point w 100)"
    by (rule prod_eq_iff)
  consider "w ! 39 = 0" | "w ! 39 = 1" | "w ! 39 \<noteq> 0" "w ! 39 \<noteq> 1" by blast
  then show ?thesis
    by cases (simp_all add: da4x_eval_def Let_def lgs satisfied_scaled satisfied_equal eq lqe_select_bit conj_ac)
qed

lemma const_points:
  "curve_point K (lqe_arr (GENERATOR ! 0), lqe_arr (GENERATOR ! 1)) = generator K"
  "curve_point K (lqe_arr (OFFSET_NEG_319 ! 0), lqe_arr (OFFSET_NEG_319 ! 1)) = neg_offset K"
  by (simp_all add: curve_point_def generator_def neg_offset_def lqe_consts)

lemma neg_offset_from: "point_from K OFFSET_NEG_319 = Inr (neg_offset K)"
proof -
  have "is_on_curve K (neg_offset K)"
    unfolding neg_offset_def by (rule on_curve_n5) (simp_all add: OFFSET_NEG_319_def on_curve_n5_def n5_add_def ECGFP5_CAP_A_def ECGFP5_CAP_B_def)
  then show ?thesis by (simp add: point_from_def neg_offset_def)
qed

lemma chain_bits: "satisfied (double_acc_chain a p q a' l b0 b1) \<Longrightarrow> (b0 = 0 \<or> b0 = 1) \<and> (b1 = 0 \<or> (b1 :: gl) = 1)"
  by (auto simp: double_acc_chain_def Let_def)

lemma bind_r3_Inr: "bind_r r (\<lambda>(a, b, c). f a b c) = Inr z \<longleftrightarrow> (\<exists>a b c. r = Inr (a, b, c) \<and> f a b c = Inr z)"
  by (cases r) auto

lemma witness_steps:
  fixes w :: "gl list"
  defines "sp \<equiv> map (\<lambda>i. w ! (30 + i)) [0..<4]" and "sg \<equiv> map (\<lambda>i. w ! (35 + i)) [0..<4]" and "pt \<equiv> \<lambda>i. curve_point K (wire_point w i)"
    and "final \<equiv> w ! 39 = 1"
  assumes last: "final \<longrightarrow> w ! 33 = 0 \<and> w ! 38 = 1"
  shows "(\<exists>W. compute_gate_witness K sp sg (pt 0) (pt 10) final = (Inr W :: ('e, 'k gate_witness) result) \<and> row_carries K w W) \<longleftrightarrow>
    (\<exists>l. gate_step K False (pt 0) (generator K) (pt 10) (w ! 30) (w ! 35) = (Inr (pt 70, pt 40, l) :: ('e, 'k point_ew \<times> 'k point_ew \<times> 'k) result)
       \<and> (w ! 30 = 1 \<and> w ! 35 = 1 \<longrightarrow> l = of5 K (wire5 w 110)))
    \<and> (\<exists>l. gate_step K False (pt 0) (generator K) (pt 40) (w ! 31) (w ! 36) = (Inr (pt 80, pt 50, l) :: ('e, 'k point_ew \<times> 'k point_ew \<times> 'k) result)
       \<and> (w ! 31 = 1 \<and> w ! 36 = 1 \<longrightarrow> l = of5 K (wire5 w 115)))
    \<and> (\<exists>l. gate_step K False (pt 0) (generator K) (pt 50) (w ! 32) (w ! 37) = (Inr (pt 90, pt 60, l) :: ('e, 'k point_ew \<times> 'k point_ew \<times> 'k) result)
       \<and> (w ! 32 = 1 \<and> w ! 37 = 1 \<longrightarrow> l = of5 K (wire5 w 120)))
    \<and> (\<exists>l. gate_step K final (pt 0) (if final then neg_offset K else generator K) (pt 60) (w ! 33) (w ! 38) =
        (Inr (pt 100, pt 20, l) :: ('e, 'k point_ew \<times> 'k point_ew \<times> 'k) result)
       \<and> (w ! 33 = 1 \<and> w ! 38 = 1 \<longrightarrow> l = of5 K (wire5 w 125)))"
proof -
  have sel: "sp ! 0 = w ! 30" "sp ! 1 = w ! 31" "sp ! 2 = w ! 32" "sp ! 3 = w ! 33" "sg ! 0 = w ! 35" "sg ! 1 = w ! 36" "sg ! 2 = w ! 37" "sg ! 3 = w ! 38"
    by (simp_all add: sp_def sg_def)
  let ?G = "generator K" and ?p2 = "if final then neg_offset K else generator K"
  have ok: "assert_r (final \<longrightarrow> w ! 33 = 0 \<and> w ! 38 = 1) = (Inr () :: ('e, unit) result)" using last by simp
  have run: "compute_gate_witness K sp sg (pt 0) (pt 10) final = (Inr W :: ('e, 'k gate_witness) result) \<longleftrightarrow>
    (\<exists>d1 o1 l1 d2 o2 l2 d3 o3 l3 d4 o4 l4.
      gate_step K False (pt 0) ?G (pt 10) (w ! 30) (w ! 35) = (Inr (d1, o1, l1) :: ('e, 'k point_ew \<times> 'k point_ew \<times> 'k) result)
      \<and> gate_step K False (pt 0) ?G o1 (w ! 31) (w ! 36) = (Inr (d2, o2, l2) :: ('e, 'k point_ew \<times> 'k point_ew \<times> 'k) result)
      \<and> gate_step K False (pt 0) ?G o2 (w ! 32) (w ! 37) = (Inr (d3, o3, l3) :: ('e, 'k point_ew \<times> 'k point_ew \<times> 'k) result)
      \<and> gate_step K final (pt 0) ?p2 o3 (w ! 33) (w ! 38) = (Inr (d4, o4, l4) :: ('e, 'k point_ew \<times> 'k point_ew \<times> 'k) result)
      \<and> W = \<lparr>gw_accdblin = d1, gw_acco1 = o1, gw_accdblo1 = d2, gw_acco2 = o2, gw_accdblo2 = d3, gw_acco3 = o3, gw_accdblo3 = d4,
             gw_acco4 = o4, gw_lambda1 = l1, gw_lambda2 = l2, gw_lambda3 = l3, gw_lambda4 = l4\<rparr>)" for W
    unfolding compute_gate_witness_def Let_def neg_offset_from sel ok bind_r_Inr bind_r3_Inr sum.inject by blast
  have carries: "row_carries K w \<lparr>gw_accdblin = d1, gw_acco1 = o1, gw_accdblo1 = d2, gw_acco2 = o2, gw_accdblo2 = d3, gw_acco3 = o3, gw_accdblo3 = d4,
             gw_acco4 = o4, gw_lambda1 = l1, gw_lambda2 = l2, gw_lambda3 = l3, gw_lambda4 = l4\<rparr> \<longleftrightarrow>
      d1 = pt 70 \<and> o1 = pt 40 \<and> d2 = pt 80 \<and> o2 = pt 50 \<and> d3 = pt 90 \<and> o3 = pt 60 \<and> d4 = pt 100 \<and> o4 = pt 20
      \<and> (w ! 30 = 1 \<and> w ! 35 = 1 \<longrightarrow> l1 = of5 K (wire5 w 110)) \<and> (w ! 31 = 1 \<and> w ! 36 = 1 \<longrightarrow> l2 = of5 K (wire5 w 115))
      \<and> (w ! 32 = 1 \<and> w ! 37 = 1 \<longrightarrow> l3 = of5 K (wire5 w 120)) \<and> (w ! 33 = 1 \<and> w ! 38 = 1 \<longrightarrow> l4 = of5 K (wire5 w 125))"
    for d1 o1 l1 d2 o2 l2 d3 o3 l3 d4 o4 l4
    by (simp add: row_carries_def pt_def)
  have flat: "(\<exists>W. compute_gate_witness K sp sg (pt 0) (pt 10) final = (Inr W :: ('e, 'k gate_witness) result) \<and> row_carries K w W) \<longleftrightarrow>
    (\<exists>l1 l2 l3 l4.
      gate_step K False (pt 0) ?G (pt 10) (w ! 30) (w ! 35) = (Inr (pt 70, pt 40, l1) :: ('e, 'k point_ew \<times> 'k point_ew \<times> 'k) result)
      \<and> gate_step K False (pt 0) ?G (pt 40) (w ! 31) (w ! 36) = (Inr (pt 80, pt 50, l2) :: ('e, 'k point_ew \<times> 'k point_ew \<times> 'k) result)
      \<and> gate_step K False (pt 0) ?G (pt 50) (w ! 32) (w ! 37) = (Inr (pt 90, pt 60, l3) :: ('e, 'k point_ew \<times> 'k point_ew \<times> 'k) result)
      \<and> gate_step K final (pt 0) ?p2 (pt 60) (w ! 33) (w ! 38) = (Inr (pt 100, pt 20, l4) :: ('e, 'k point_ew \<times> 'k point_ew \<times> 'k) result)
      \<and> (w ! 30 = 1 \<and> w ! 35 = 1 \<longrightarrow> l1 = of5 K (wire5 w 110)) \<and> (w ! 31 = 1 \<and> w ! 36 = 1 \<longrightarrow> l2 = of5 K (wire5 w 115))
      \<and> (w ! 32 = 1 \<and> w ! 37 = 1 \<longrightarrow> l3 = of5 K (wire5 w 120)) \<and> (w ! 33 = 1 \<and> w ! 38 = 1 \<longrightarrow> l4 = of5 K (wire5 w 125)))"
    (is "?L \<longleftrightarrow> ?R")
  proof
    assume ?L
    then show ?R unfolding run by (elim exE conjE) (simp only: carries, blast)
  next
    assume ?R
    then show ?L unfolding run by (elim exE conjE) (intro exI conjI, assumption+, rule refl, simp only: carries simp_thms)
  qed
  then show ?thesis by blast
qed

lemma row_exact:
  fixes w :: "gl list"
  assumes reg: "regular_row K w" and last: "w ! 39 = 1 \<longrightarrow> w ! 33 = 0 \<and> w ! 38 = 1"
  shows "satisfied (da4x_eval w) \<longleftrightarrow> row_bits w \<and> (\<exists>W. compute_gate_witness K (map (\<lambda>i. w ! (30 + i)) [0..<4]) (map (\<lambda>i. w ! (35 + i)) [0..<4])
      (curve_point K (wire_point w 0)) (curve_point K (wire_point w 10)) (w ! 39 = 1) = (Inr W :: ('e, 'k gate_witness) result) \<and> row_carries K w W)"
proof (cases "row_bits w")
  case True
  let ?g = "(lqe_arr (GENERATOR ! 0), lqe_arr (GENERATOR ! 1))" and ?n = "(lqe_arr (OFFSET_NEG_319 ! 0), lqe_arr (OFFSET_NEG_319 ! 1))"
  have ne: "of5 K v \<noteq> 0 \<Longrightarrow> v \<noteq> 0" for v by (auto simp: of5_0)
  have p2: "curve_point K (if w ! 39 = 1 then ?n else ?g) = (if w ! 39 = 1 then neg_offset K else generator K)" by (simp only: const_points split: if_split) simp
  have r: "regular_step K (w ! 30 = 1) (w ! 35 = 1) (curve_point K (wire_point w 70)) (curve_point K (wire_point w 0)) (curve_point K ?g)"
    "regular_step K (w ! 31 = 1) (w ! 36 = 1) (curve_point K (wire_point w 80)) (curve_point K (wire_point w 0)) (curve_point K ?g)"
    "regular_step K (w ! 32 = 1) (w ! 37 = 1) (curve_point K (wire_point w 90)) (curve_point K (wire_point w 0)) (curve_point K ?g)"
    "regular_step K (w ! 33 = 1) (w ! 38 = 1) (curve_point K (wire_point w 100)) (curve_point K (wire_point w 0)) (curve_point K (if w ! 39 = 1 then ?n else ?g))"
    unfolding p2 const_points using reg by (simp_all only: regular_row_def Let_def)
  have y: "snd (wire_point w 10) \<noteq> 0" "snd (wire_point w 40) \<noteq> 0" "snd (wire_point w 50) \<noteq> 0" "w ! 39 \<noteq> 1 \<Longrightarrow> snd (wire_point w 60) \<noteq> 0"
    using reg ne by (auto simp: regular_row_def Let_def)
  have bits: "w ! 30 = 0 \<or> w ! 30 = 1" "w ! 31 = 0 \<or> w ! 31 = 1" "w ! 32 = 0 \<or> w ! 32 = 1" "w ! 33 = 0 \<or> w ! 33 = 1"
    "w ! 35 = 0 \<or> w ! 35 = 1" "w ! 36 = 0 \<or> w ! 36 = 1" "w ! 37 = 0 \<or> w ! 37 = 1" "w ! 38 = 0 \<or> w ! 38 = 1" "w ! 39 = 0 \<or> w ! 39 = 1"
    using True by (simp_all add: row_bits_def)
  note e1 = step_sound [OF r(1), of False "wire_point w 10" "wire_point w 40" "wire5 w 110", OF y(1) bits(1,5), where 'e = 'e]
    and e2 = step_sound [OF r(2), of False "wire_point w 40" "wire_point w 50" "wire5 w 115", OF y(2) bits(2,6), where 'e = 'e]
    and e3 = step_sound [OF r(3), of False "wire_point w 50" "wire_point w 60" "wire5 w 120", OF y(3) bits(3,7), where 'e = 'e]
    and e4 = step_sound [OF r(4), of "w ! 39 = 1" "wire_point w 60" "wire_point w 20" "wire5 w 125", OF y(4) bits(4,8), where 'e = 'e]
  show ?thesis
    unfolding row_constraints Let_def witness_steps [OF last, where 'e = 'e]
      e1 [unfolded if_False const_points] e2 [unfolded if_False const_points] e3 [unfolded if_False const_points]
    using True bits(9) e4 [unfolded p2] by (simp only: simp_thms)
next
  case False
  have "row_bits w" if "satisfied (da4x_eval w)"
  proof -
    have "w ! 39 = 0 \<or> w ! 39 = 1" "(w ! 30 = 0 \<or> w ! 30 = 1) \<and> (w ! 35 = 0 \<or> w ! 35 = 1)" "(w ! 31 = 0 \<or> w ! 31 = 1) \<and> (w ! 36 = 0 \<or> w ! 36 = 1)"
      "(w ! 32 = 0 \<or> w ! 32 = 1) \<and> (w ! 37 = 0 \<or> w ! 37 = 1)" "(w ! 33 = 0 \<or> w ! 33 = 1) \<and> (w ! 38 = 0 \<or> w ! 38 = 1)"
      using that unfolding row_constraints Let_def by (blast dest: chain_bits)+
    then show ?thesis by (simp add: row_bits_def)
  qed
  with False show ?thesis by blast
qed

end

text \<open>
  A row of the gate with real values, in groups of five wires: two steps that add, one the
  variable point and one the generator, and two that only double.
\<close>

definition sample_arrs :: "nat list list" where
  "sample_arrs =
     [[2626390539619063455, 3069873143820007175, 16481805966921623903, 2169403494164322467, 15849876939764656634],
      [8052493994140007067, 12476750341447220703, 7297584762312352412, 4456043296886321460, 17416054515469523789],
      [11712523173042564207, 14090224426659529053, 13197813503519687414, 16280770174934269299, 15998333998318935536],
      [14639054205878357578, 17426078571020221072, 2548978194165003307, 8663895577921260088, 9793640284382595140],
      [7669992489562037997, 5093721582816490272, 5243838630718946154, 496395842535345532, 7684008987131926441],
      [17197841839487015319, 9621294345095679332, 18440622834026038947, 5517487825246907850, 11302908959889617107],
      [1, 0, 0, 0, 0],
      [0, 1, 0, 0, 0],
      [6820295826223438312, 6117290414238323179, 13640738847881455289, 13259571933927231005, 15983684561938380553],
      [8397875662714823743, 6078208173787357797, 7669929432948041779, 1785908036463186724, 5164115660911209875],
      [17747889377703936209, 14823716251040682820, 654974297036308768, 9742505852441414699, 3931051803901409848],
      [15392711292007986880, 16794576710588400614, 1876263539159518674, 6207295620159141861, 16499641130910320962],
      [14746079629923989897, 9507467317319906435, 13870503980042320349, 13741640375086760457, 4735278342456527193],
      [3935203033499009551, 8351993803246905942, 7791386970082559718, 12789816434040551606, 4292576806301022067],
      [4995993185466449924, 8070450530368880624, 0, 0, 0],
      [2802119724609112643, 15148449414430609716, 8946200504603803264, 5543440903273420636, 6411036242926574856],
      [14205121672418871180, 12397947380463694407, 5700379829944062108, 11011499568294210452, 17419309495939761749],
      [11416052197298488659, 5011359405490254028, 791561005156469469, 17368422974572652207, 17236771227662746972],
      [14746079629923989897, 9507467317319906435, 13870503980042320349, 13741640375086760457, 4735278342456527193],
      [3935203033499009551, 8351993803246905942, 7791386970082559718, 12789816434040551606, 4292576806301022067],
      [7669992489562037997, 5093721582816490272, 5243838630718946154, 496395842535345532, 7684008987131926441],
      [17197841839487015319, 9621294345095679332, 18440622834026038947, 5517487825246907850, 11302908959889617107],
      [0, 0, 0, 0, 0],
      [0, 0, 0, 0, 0],
      [0, 0, 0, 0, 0],
      [0, 0, 0, 0, 0]]"

definition sample_row :: "gl list" where
  "sample_row = concat (map (map of_nat) sample_arrs)"

lemma concat_nth:
  assumes "list_all (\<lambda>v. length v = 5) xss" "i < length xss" "j < 5"
  shows "concat xss ! (5 * i + j) = xss ! i ! j"
  using assms
proof (induction xss arbitrary: i)
  case (Cons v xss)
  then show ?case by (cases i) (simp_all add: nth_append algebra_simps)
qed simp

lemma wire5_concat:
  assumes "list_all (\<lambda>v. length v = 5) xss" "i < length xss"
  shows "wire5 (concat (map (map of_nat) xss)) (5 * i) = n5 (xss ! i)"
proof -
  have "length (xss ! i) = 5" using assms by (simp add: list_all_length)
  moreover have "concat (map (map (of_nat :: nat \<Rightarrow> gl)) xss) ! (5 * i + j) = of_nat (xss ! i ! j)" if "j < 5" for j
    using concat_nth [of "map (map of_nat) xss" i j] assms that \<open>length (xss ! i) = 5\<close> by (simp add: list_all_iff)
  from this [of 0] this [of 1] this [of 2] this [of 3] this [of 4] calculation show ?thesis
    by (auto elim!: length5E simp: wire5_def)
qed

lemma sample_wires: "i < 26 \<Longrightarrow> wire5 sample_row (5 * i) = n5 (sample_arrs ! i)"
  unfolding sample_row_def by (rule wire5_concat) (simp_all add: sample_arrs_def)

lemma sample_bits: "sample_row ! 30 = 1" "sample_row ! 31 = 0" "sample_row ! 32 = 0" "sample_row ! 33 = 0"
  "sample_row ! 35 = 0" "sample_row ! 36 = 1" "sample_row ! 37 = 0" "sample_row ! 38 = 0" "sample_row ! 39 = 0"
  using sample_wires [of 6] sample_wires [of 7] by (simp_all add: wire5_def sample_arrs_def)

text \<open>Evaluation of the constraints with every intermediate value reduced.\<close>

definition n5_sub :: "nat list \<Rightarrow> nat list \<Rightarrow> nat list" where
  "n5_sub a b = map2 (\<lambda>x y. (x + (gp - y)) mod gp) a b"

lemma n5_sub:
  assumes "length a = 5" "length b = 5" "list_all (\<lambda>y. y \<le> gp) b"
  shows "n5 (n5_sub a b) = n5 a - n5 b"
proof -
  have "(of_nat ((x + (gp - y)) mod gp) :: gl) = of_nat x - of_nat y" if "y \<le> gp" for x y
    unfolding gl_of_nat_mod using that gl_char by (simp only: of_nat_add of_nat_diff) simp
  then show ?thesis using assms by (elim length5E) (simp only: n5_sub_def zip_Cons_Cons zip_Nil list.map prod.case n5.simps lqe_ops lqe_sub.simps list.pred_inject simp_thms)
qed

definition doubles_n5_at :: "nat list \<Rightarrow> nat list \<Rightarrow> nat list \<Rightarrow> nat list \<Rightarrow> nat list \<Rightarrow> nat list \<Rightarrow> nat list \<Rightarrow> nat list \<Rightarrow> bool" where
  "doubles_n5_at x y x' y' n d dd nn =
     (n5_mul (n5_add (n5_add x' x) x) dd = nn
      \<and> n5_mul (n5_add y' y) (n5_mul dd d) = n5_sub (n5_mul (n5_mul (n5_mul x n) dd) [3, 0, 0, 0, 0]) (n5_mul nn n))"

definition doubles_n5_with :: "nat list \<Rightarrow> nat list \<Rightarrow> nat list \<Rightarrow> nat list \<Rightarrow> nat list \<Rightarrow> nat list \<Rightarrow> bool" where
  "doubles_n5_with x y x' y' n d = doubles_n5_at x y x' y' n d (n5_mul d d) (n5_mul n n)"

definition doubles_n5 :: "nat list \<Rightarrow> nat list \<Rightarrow> nat list \<Rightarrow> nat list \<Rightarrow> bool" where
  "doubles_n5 x y x' y' =
     doubles_n5_with x y x' y' (n5_add (n5_mul (n5_mul x x) [3, 0, 0, 0, 0]) ECGFP5_CAP_A) (n5_mul y [2, 0, 0, 0, 0])"

lemmas doubles_n5_defs = doubles_n5_def doubles_n5_with_def doubles_n5_at_def

definition adds_n5 :: "nat list \<Rightarrow> nat list \<Rightarrow> nat list \<Rightarrow> nat list \<Rightarrow> nat list \<Rightarrow> nat list \<Rightarrow> bool" where
  "adds_n5 x1 y1 x2 y2 x y =
     (let dx = n5_sub x2 x1; dy = n5_sub y2 y1 in
      n5_mul (n5_add (n5_add x x1) x2) (n5_mul dx dx) = n5_mul dy dy \<and> n5_mul (n5_add y y1) dx = n5_mul dy (n5_sub x1 x))"

definition fives :: "nat list list \<Rightarrow> bool" where
  "fives = list_all (\<lambda>v. length v = 5 \<and> list_all (\<lambda>y. y \<le> gp) v)"

lemma n5_mul_le: "list_all (\<lambda>y. y \<le> gp) (n5_mul a b)"
  by (induction a b rule: n5_mul.induct) (simp_all add: less_imp_le)

lemma n5_eq: "u = v \<Longrightarrow> n5 u = n5 v" by simp

lemma doubles_n5:
  assumes "doubles_n5 x y x' y'" "fives [x, y, x', y']"
  shows "satisfied (p2_doubleof_p1 (n5 x, n5 y) (n5 x', n5 y'))"
proof -
  have len: "length x = 5" "length y = 5" "length x' = 5" "length y' = 5" "length ECGFP5_CAP_A = 5" "length [3, 0, 0, 0, 0 :: nat] = 5" "length [2, 0, 0, 0, 0 :: nat] = 5"
    using assms(2) by (simp_all add: fives_def ECGFP5_CAP_A_def)
  have lit: "lqe_const 2 = n5 [2, 0, 0, 0, 0]" "lqe_const 3 = n5 [3, 0, 0, 0, 0]" "lqe_cap_a = n5 ECGFP5_CAP_A"
    by (simp_all add: lqe_const_def lqe_cap_a_def ECGFP5_CAP_A_def)
  show ?thesis
    using assms(1) [unfolded doubles_n5_defs, THEN conjunct1, THEN n5_eq] assms(1) [unfolded doubles_n5_defs, THEN conjunct2, THEN n5_eq]
    by (simp add: p2_doubleof_p1_def Let_def satisfied_equal lqe_square_mult lqe_mul_base_const lit n5_mul n5_add n5_sub n5_mul_le len del: n5.simps)
qed

lemma adds_n5:
  assumes "adds_n5 x1 y1 x2 y2 x y" "fives [x1, y1, x2, y2, x, y]"
  shows "satisfied (add_two_points (n5 x1, n5 y1) (n5 x2, n5 y2) (n5 x, n5 y))"
proof -
  have le: "length u = 5 \<Longrightarrow> length v = 5 \<Longrightarrow> length (n5_sub u v) = 5" for u v by (simp add: n5_sub_def)
  show ?thesis
    using assms(2) assms(1) [unfolded adds_n5_def Let_def, THEN conjunct1, THEN n5_eq] assms(1) [unfolded adds_n5_def Let_def, THEN conjunct2, THEN n5_eq]
    by (simp add: fives_def add_two_points_def Let_def satisfied_equal lqe_square_mult n5_mul n5_add n5_sub le del: n5.simps)
qed

lemma sample_points: "i < 25 \<Longrightarrow> wire_point sample_row (5 * i) = (n5 (sample_arrs ! i), n5 (sample_arrs ! Suc i))"
  using sample_wires [of i] sample_wires [of "Suc i"] by (simp add: wire_point_def algebra_simps)

lemma sample_doubling1: "doubles_n5 (sample_arrs ! 2) (sample_arrs ! 3) (sample_arrs ! 14) (sample_arrs ! 15)"
  unfolding sample_arrs_def by (simp add: doubles_n5_defs n5_add_def n5_sub_def ECGFP5_CAP_A_def)

lemma sample_doubling2: "doubles_n5 (sample_arrs ! 8) (sample_arrs ! 9) (sample_arrs ! 16) (sample_arrs ! 17)"
  unfolding sample_arrs_def by (simp add: doubles_n5_defs n5_add_def n5_sub_def ECGFP5_CAP_A_def)

lemma sample_doubling3: "doubles_n5 (sample_arrs ! 10) (sample_arrs ! 11) (sample_arrs ! 18) (sample_arrs ! 19)"
  unfolding sample_arrs_def by (simp add: doubles_n5_defs n5_add_def n5_sub_def ECGFP5_CAP_A_def)

lemma sample_doubling4: "doubles_n5 (sample_arrs ! 12) (sample_arrs ! 13) (sample_arrs ! 20) (sample_arrs ! 21)"
  unfolding sample_arrs_def by (simp add: doubles_n5_defs n5_add_def n5_sub_def ECGFP5_CAP_A_def)

lemma sample_adding1:
  "adds_n5 (sample_arrs ! 14) (sample_arrs ! 15) (sample_arrs ! 0) (sample_arrs ! 1) (sample_arrs ! 8) (sample_arrs ! 9)"
  unfolding sample_arrs_def by (simp add: adds_n5_def n5_add_def n5_sub_def)

lemma sample_adding2:
  "adds_n5 (sample_arrs ! 16) (sample_arrs ! 17) (sample_arrs ! 2) (sample_arrs ! 3) (sample_arrs ! 10) (sample_arrs ! 11)"
  unfolding sample_arrs_def by (simp add: adds_n5_def n5_add_def n5_sub_def)

lemma fives_sub: "fives xss \<Longrightarrow> list_all (\<lambda>i. i < length xss) is \<Longrightarrow> fives (map ((!) xss) is)"
  by (auto simp: fives_def list_all_iff)

lemma sample_fives: "list_all (\<lambda>i. i < 26) is \<Longrightarrow> fives (map ((!) sample_arrs) is)"
proof -
  have "fives sample_arrs" "length sample_arrs = 26" by (simp_all add: fives_def sample_arrs_def)
  then show "list_all (\<lambda>i. i < 26) is \<Longrightarrow> ?thesis" using fives_sub [of sample_arrs "is"] by simp
qed

lemma sample_generator: "(lqe_arr (GENERATOR ! 0), lqe_arr (GENERATOR ! 1)) = wire_point sample_row 10"
  using sample_points [of 2] by (simp add: lqe_arr_def GENERATOR_def sample_arrs_def)

lemma sample_row_satisfied: "satisfied (da4x_eval sample_row)"
proof -
  have pts: "wire_point sample_row 0 = (n5 (sample_arrs ! 0), n5 (sample_arrs ! 1))" "wire_point sample_row 10 = (n5 (sample_arrs ! 2), n5 (sample_arrs ! 3))"
    "wire_point sample_row 40 = (n5 (sample_arrs ! 8), n5 (sample_arrs ! 9))" "wire_point sample_row 50 = (n5 (sample_arrs ! 10), n5 (sample_arrs ! 11))"
    "wire_point sample_row 60 = (n5 (sample_arrs ! 12), n5 (sample_arrs ! 13))" "wire_point sample_row 70 = (n5 (sample_arrs ! 14), n5 (sample_arrs ! 15))"
    "wire_point sample_row 80 = (n5 (sample_arrs ! 16), n5 (sample_arrs ! 17))" "wire_point sample_row 90 = (n5 (sample_arrs ! 18), n5 (sample_arrs ! 19))"
    "wire_point sample_row 100 = (n5 (sample_arrs ! 20), n5 (sample_arrs ! 21))"
    using sample_points [of 0] sample_points [of 2] sample_points [of 8] sample_points [of 10] sample_points [of 12] sample_points [of 14]
      sample_points [of 16] sample_points [of 18] sample_points [of 20] by (simp_all only: mult_0_right) simp_all
  have same: "wire_point sample_row 90 = wire_point sample_row 60" "wire_point sample_row 100 = wire_point sample_row 20"
    using sample_points [of 4] by (simp_all add: pts) (simp_all add: sample_arrs_def del: n5.simps)
  have dbl: "satisfied (p2_doubleof_p1 (wire_point sample_row 10) (wire_point sample_row 70))" "satisfied (p2_doubleof_p1 (wire_point sample_row 40) (wire_point sample_row 80))"
    "satisfied (p2_doubleof_p1 (wire_point sample_row 50) (wire_point sample_row 90))" "satisfied (p2_doubleof_p1 (wire_point sample_row 60) (wire_point sample_row 100))"
    using doubles_n5 [OF sample_doubling1] doubles_n5 [OF sample_doubling2] doubles_n5 [OF sample_doubling3] doubles_n5 [OF sample_doubling4]
      sample_fives [of "[2, 3, 14, 15]"] sample_fives [of "[8, 9, 16, 17]"] sample_fives [of "[10, 11, 18, 19]"] sample_fives [of "[12, 13, 20, 21]"]
    by (simp_all add: pts)
  have add: "satisfied (add_two_points (wire_point sample_row 70) (wire_point sample_row 0) (wire_point sample_row 40))"
    "satisfied (add_two_points (wire_point sample_row 80) (wire_point sample_row 10) (wire_point sample_row 50))"
    using adds_n5 [OF sample_adding1] adds_n5 [OF sample_adding2] sample_fives [of "[14, 15, 0, 1, 8, 9]"] sample_fives [of "[16, 17, 2, 3, 10, 11]"]
    by (simp_all add: pts)
  show ?thesis
    using dbl add unfolding gfp5.row_constraints Let_def sample_generator
    by (simp add: sample_bits double_acc_chain_def Let_def satisfied_scaled satisfied_copies same satisfied_copies [of 1, simplified])
qed

lemma sample_row_regular: "regular_row gfp5_ext sample_row"
proof -
  have "length u = 5 \<Longrightarrow> length v = 5 \<Longrightarrow> list_all (\<lambda>x. x < gp) u \<Longrightarrow> list_all (\<lambda>x. x < gp) v \<Longrightarrow> n5 u = n5 v \<longleftrightarrow> u = v" for u v
    using gfp5.arr5_inj [of u v] by (simp add: gfp5.arr5_n5 gfp5.of5_inj)
  note ne = this
  have z: "(0 :: gfp5) = of5 gfp5_ext (n5 [0, 0, 0, 0, 0])" using gfp5.of5_0 by (simp add: lqe_ops)
  have g: "px (generator gfp5_ext) = of5 gfp5_ext (n5 (GENERATOR ! 0))" by (simp add: generator_def gfp5.arr5_n5 GENERATOR_def)
  show ?thesis
    unfolding regular_row_def regular_step_def Let_def sample_bits curve_point_sel g z gfp5.of5_inj
    using sample_points [of 0] sample_points [of 2] sample_points [of 8] sample_points [of 10] sample_points [of 12] sample_points [of 14]
      sample_points [of 16] sample_points [of 18] sample_points [of 20]
    by (simp add: ne sample_arrs_def GENERATOR_def del: n5.simps)
qed

text \<open>
  C20. The double-and-add gate is exact. On a row of bits and wires where the additions meet no
  exceptional case the constraints of the gate vanish if and only if the selectors are bits and
  the witness computation of the prover ends without a panic with exactly the points on the
  wires, and with the slope on the wire of every step that adds both points.
\<close>

theorem gate_exact:
  assumes K: "quintic_ext K" and reg: "regular_row K w" and last: "w ! 39 = 1 \<longrightarrow> w ! 33 = 0 \<and> w ! 38 = 1"
  shows "satisfied (da4x_eval w) \<longleftrightarrow> row_bits w
    \<and> (\<exists>W. compute_gate_witness K (map (\<lambda>i. w ! (30 + i)) [0..<4]) (map (\<lambda>i. w ! (35 + i)) [0..<4])
          (curve_point K (wire_point w 0)) (curve_point K (wire_point w 10)) (w ! 39 = 1) = (Inr W :: ('e, 'k :: field gate_witness) result)
        \<and> row_carries K w W)"
  using quintic_ext.row_exact [OF K reg last] .

theorem gate_exact_witness:
  "quintic_ext gfp5_ext \<and> regular_row gfp5_ext sample_row \<and> satisfied (da4x_eval sample_row)
    \<and> (\<exists>W. compute_gate_witness gfp5_ext [1, 0, 0, 0] [0, 1, 0, 0] (curve_point gfp5_ext (wire_point sample_row 0))
          (curve_point gfp5_ext (wire_point sample_row 10)) False = (Inr W :: (unit, gfp5 gate_witness) result)
        \<and> row_carries gfp5_ext sample_row W)"
proof -
  have K: "quintic_ext gfp5_ext" by unfold_locales
  have "[0..<4 :: nat] = [0, 1, 2, 3]" by (simp add: upt_rec)
  then have "map (\<lambda>i. sample_row ! (30 + i)) [0..<4] = [1, 0, 0, 0]" "map (\<lambda>i. sample_row ! (35 + i)) [0..<4] = [0, 1, 0, 0]"
    by (simp_all add: sample_bits)
  then show ?thesis
    using gate_exact [OF K sample_row_regular, where 'e = unit] sample_row_satisfied sample_row_regular K by (simp add: sample_bits)
qed

end
