(* ===== verification/Schnorr.thy ===== *)
theory Schnorr
  imports Sig_Gates Tx_Circuit_Builder
begin

section \<open>Schnorr signatures and their circuit\<close>

text \<open>
  The keys, signatures and the challenge of \<^verbatim>\<open>doxa-client/src/schnorr.rs\<close>, and the gadget of
  \<^verbatim>\<open>plonky2_gadgets/signature.rs\<close> that verifies a signature in a circuit, with the code that fills its
  wires. The Poseidon sponge with five outputs is the argument \<open>H\<close>. As in the other circuits the
  gadget is the predicate its constraints amount to, on a record of the wires it allocates.
\<close>

subsection \<open>Keys and signatures\<close>

definition public_key :: "'k :: field ext \<Rightarrow> scalar \<Rightarrow> ('e, 'k point_ew) result" where
  "public_key K privkey = scalar_mul K (generator K) privkey"

definition compress_key :: "'k :: field ext \<Rightarrow> 'k point_ew \<Rightarrow> ('e, 'k) result" where
  "compress_key K value = point_encode K value"

definition key_encode :: "'k ext \<Rightarrow> 'k \<Rightarrow> bytes" where
  "key_encode K w = concat (map (\<lambda>f. u64_to_le_bytes (gl_word f)) (lqe_list (to5 K w)))"

definition key_decode :: "'k ext \<Rightarrow> bytes \<Rightarrow> 'k" where
  "key_decode K bs = arr5 K (map (\<lambda>i. unat (u64_from_le_bytes (slice_at bs (i * 8) 8))) [0..<5])"

record 'k signature =
  sig_r :: "'k point_ew"
  sig_s :: scalar

definition SIGNATURE_ZERO :: "'k :: field signature" where
  "SIGNATURE_ZERO = \<lparr>sig_r = NEUTRAL, sig_s = SCALAR_ZERO\<rparr>"

definition signature_encode :: "'k :: field ext \<Rightarrow> 'k signature \<Rightarrow> ('e, bytes) result" where
  "signature_encode K sig =
     bind_r (point_encode K (sig_r sig)) (\<lambda>w.
     Inr (concat (map (\<lambda>f. u64_to_le_bytes (gl_word f)) (lqe_list (to5 K w))) @ concat (map u64_to_le_bytes (sig_s sig))))"

type_synonym sponge = "gl list \<Rightarrow> gl list"

definition poseidon_hash_to_scalar :: "sponge \<Rightarrow> gl list \<Rightarrow> ('e, scalar) result" where
  "poseidon_hash_to_scalar H hash_input =
     bind_r (assert_r (length (H hash_input) = 5)) (\<lambda>_. Inr (from_hash_words (map gl_word (H hash_input))))"

definition schnorr_challenge :: "'k ext \<Rightarrow> sponge \<Rightarrow> 'k \<Rightarrow> 'k \<Rightarrow> gl list \<Rightarrow> ('e, scalar) result" where
  "schnorr_challenge K H cr cq m = poseidon_hash_to_scalar H (lqe_list (to5 K cr) @ lqe_list (to5 K cq) @ m)"

definition schnorr_sign :: "'k :: field ext \<Rightarrow> sponge \<Rightarrow> scalar \<Rightarrow> gl list \<Rightarrow> scalar \<Rightarrow> ('e, 'k signature) result" where
  "schnorr_sign K H privkey m k =
     bind_r (scalar_mul K (generator K) k) (\<lambda>r.
     bind_r (point_encode K r) (\<lambda>r_encoded.
     bind_r (public_key K privkey) (\<lambda>q.
     bind_r (point_encode K q) (\<lambda>q_encoded.
     bind_r (schnorr_challenge K H r_encoded q_encoded m) (\<lambda>e.
     Inr \<lparr>sig_r = r, sig_s = add_mod k (mul_mod privkey (neg_mod e))\<rparr>)))))"

definition schnorr_verify :: "'k :: field ext \<Rightarrow> sponge \<Rightarrow> 'k point_ew \<Rightarrow> gl list \<Rightarrow> 'k signature \<Rightarrow> ('e, bool) result" where
  "schnorr_verify K H pubkey m sig =
     bind_r (point_encode K (sig_r sig)) (\<lambda>r_encoded.
     bind_r (point_encode K pubkey) (\<lambda>q_encoded.
     bind_r (schnorr_challenge K H r_encoded q_encoded m) (\<lambda>e.
     bind_r (scalar_mul K (generator K) (sig_s sig)) (\<lambda>sg.
     bind_r (scalar_mul K pubkey e) (\<lambda>eq.
     bind_r (point_add K sg eq) (\<lambda>res.
     bind_r (point_encode K res) (\<lambda>c. Inr (c = r_encoded))))))))"

subsection \<open>The verification gadget\<close>

text \<open>
  The wires of the gadget: the public point, the 80 rows of the double-and-add gate, and the
  sixteen wires of each of the two compression slots (compressed value, coordinates, selector).
\<close>

record schnorr_wires =
  sw_q :: "gl lpoint"
  sw_rows :: "gl list list"
  sw_cg_r :: "gl list"
  sw_cg_q :: "gl list"

definition le_sum :: "gl list \<Rightarrow> gl" where
  "le_sum bs = foldr (\<lambda>b acc. b + 2 * acc) bs 0"

definition all_e_bits :: "gl list list \<Rightarrow> gl list" where
  "all_e_bits rows = map (\<lambda>i. rows ! (79 - i div 4) ! (30 + 3 - i mod 4)) [1..<320] @ [0]"

definition reconstructed :: "gl list \<Rightarrow> nat \<Rightarrow> gl" where
  "reconstructed bits k =
     (let start = 64 * k; lo = le_sum (slice_at bits start 32); hi = le_sum (slice_at bits (start + 32) 32) in
      of_nat (2 ^ 32) * hi + lo)"

definition challenge_constraint :: "bool \<Rightarrow> gl list \<Rightarrow> gl list \<Rightarrow> nat \<Rightarrow> bool" where
  "challenge_constraint apply_check bits e_hash k =
     (if k < 4 then conditional_assert_eq apply_check (reconstructed bits k) (e_hash ! k)
      else let diff = e_hash ! 4 - reconstructed bits k;
               d0 = diff; d1 = diff - of_nat (2 ^ 62); d2 = diff - of_nat (2 ^ 63); d3 = diff - of_nat (3 * 2 ^ 62);
               product = (d0 * d1) * (d2 * d3) in
           of_bool apply_check * product = 0)"

definition compression_slot :: "gl list \<Rightarrow> gl lpoint \<Rightarrow> bool" where
  "compression_slot slot p \<longleftrightarrow>
     satisfied (compression_op slot 0) \<and> slot ! wire_ith_isactive_offset 0 = 1
     \<and> fst p = wire5 slot (wire_ith_x_offset 0) \<and> snd p = wire5 slot (wire_ith_y_offset 0)"

definition compressed_wire :: "gl list \<Rightarrow> gl lqe" where
  "compressed_wire slot = wire5 slot (wire_ith_w_offset 0)"

definition conditional_schnorr_verify_gadget :: "sponge \<Rightarrow> bool \<Rightarrow> gl list \<Rightarrow> gl lqe \<Rightarrow> schnorr_wires \<Rightarrow> bool" where
  "conditional_schnorr_verify_gadget H apply_check message pubkey W \<longleftrightarrow>
     (let rows = sw_rows W; q = sw_q W; cr = compressed_wire (sw_cg_r W); cq = compressed_wire (sw_cg_q W);
          e_hash = H (lqe_list cr @ lqe_list cq @ message) in
      list_all (\<lambda>i. satisfied (da4x_eval (rows ! i))) [0..<80]
      \<and> list_all (\<lambda>i. wire_point (rows ! i) 20 = wire_point (rows ! (i + 1)) 10) [0..<79]
      \<and> list_all (\<lambda>i. wire_point (rows ! i) 0 = q) [0..<80]
      \<and> wire_point (rows ! 0) 10 = (lqe_arr (OFFSET ! 0), lqe_arr (OFFSET ! 1))
      \<and> compression_slot (sw_cg_r W) (wire_point (rows ! 79) 20)
      \<and> compression_slot (sw_cg_q W) q
      \<and> cq = pubkey
      \<and> list_all (challenge_constraint apply_check (all_e_bits rows) e_hash) [0..<5])"

subsection \<open>Filling the wires\<close>

text \<open>
  The selectors of a row: the bits from the most significant one on, and in the last step of the
  last row the fixed pair that adds the offset correction.
\<close>

definition gate_selectors :: "bool list \<Rightarrow> gl \<Rightarrow> nat \<Rightarrow> gl list" where
  "gate_selectors bits final_sel gate_idx =
     map (\<lambda>k. let bit_idx = 4 * gate_idx + k in if bit_idx < 319 then (if bits ! bit_idx then 1 else 0) else final_sel) [0..<4]"

definition schnorr_gate ::
  "'k :: field ext \<Rightarrow> 'k point_ew \<Rightarrow> scalar \<Rightarrow> scalar \<Rightarrow> nat \<Rightarrow> 'k point_ew \<times> 'k gate_witness list
     \<Rightarrow> ('e, 'k point_ew \<times> 'k gate_witness list) result" where
  "schnorr_gate K q e s gate_idx = (\<lambda>(accin, ws).
     let sp = gate_selectors (rev (to_bit_arr e)) 0 gate_idx; sg = gate_selectors (rev (to_bit_arr s)) 1 gate_idx in
     bind_r (compute_gate_witness K sp sg q accin (gate_idx = 79)) (\<lambda>w. Inr (gw_acco4 w, ws @ [w])))"

definition schnorr_run :: "'k :: field ext \<Rightarrow> 'k point_ew \<Rightarrow> scalar \<Rightarrow> scalar \<Rightarrow> ('e, 'k point_ew \<times> 'k gate_witness list) result" where
  "schnorr_run K q e s = bind_r (point_from K OFFSET) (\<lambda>accin. for_each (schnorr_gate K q e s) [0..<80] (accin, []))"

definition set_schnorr_witness :: "'k :: field ext \<Rightarrow> 'k point_ew \<Rightarrow> 'k \<Rightarrow> scalar \<Rightarrow> scalar \<Rightarrow> ('e, gl list list) result" where
  "set_schnorr_witness K q cr e s =
     bind_r (point_from K OFFSET) (\<lambda>accin0.
     bind_r (schnorr_run K q e s) (\<lambda>(accin, ws).
     bind_r (point_encode K accin) (\<lambda>c.
     bind_r (assert_r (c = cr)) (\<lambda>_.
     Inr (map (\<lambda>i. set_dbladd4x_gate_witness K q (if i = 0 then accin0 else gw_acco4 (ws ! (i - 1)))
       (gate_selectors (rev (to_bit_arr e)) 0 i) (gate_selectors (rev (to_bit_arr s)) 1 i) (i = 79) (ws ! i)) [0..<80])))))"

subsection \<open>Compression slots\<close>

text \<open>
  What a satisfied slot says of its compressed value: it is the encoding of the point, or the
  point is the one with the abscissa \<open>a/3\<close> and ordinate 0, where the constraint is void.
\<close>

definition accepted_as :: "'k :: field ext \<Rightarrow> 'k point_ew \<Rightarrow> 'k \<Rightarrow> bool" where
  "accepted_as K p w \<longleftrightarrow> point_encode K p = (Inr w :: (unit, 'k) result) \<or> px p = adiv3 K \<and> py p = 0"

lemma compression_op_first:
  "satisfied (compression_op slot 0) \<longleftrightarrow>
    (let w = wire5 slot 0; x = wire5 slot 5; y = wire5 slot 10 in
     w * (lqe_adiv3 - x) = y \<and> x * x * x + (lqe_cap_a * x + lqe_cap_b) * lqe_const (slot ! 15) = y * y)"
  by (simp add: compression_op_def Let_def satisfied_equal lqe_square_mult lqe_mul_base_const wire_ith_w_offset_def wire_ith_x_offset_def
      wire_ith_y_offset_def wire_ith_isactive_offset_def)

context quintic_ext
begin

lemma slot_exact:
  "compression_slot slot p \<longleftrightarrow> slot ! 15 = 1 \<and> fst p = wire5 slot 5 \<and> snd p = wire5 slot 10
     \<and> is_on_curve K (curve_point K p) \<and> accepted_as K (curve_point K p) (of5 K (compressed_wire slot))"
proof -
  obtain x y where p: "p = (x, y)" by (cases p)
  let ?w = "compressed_wire slot"
  have curve: "x * x * x + (lqe_cap_a * x + lqe_cap_b) = y * y \<longleftrightarrow> is_on_curve K (curve_point K p)"
  proof -
    have "x * x * x + (lqe_cap_a * x + lqe_cap_b) = y * y \<longleftrightarrow> of5 K (x * x * x + (lqe_cap_a * x + lqe_cap_b)) = of5 K (y * y)"
      by (simp only: of5_inj)
    then show ?thesis by (auto simp: is_on_curve_def p of5_hom lqe_consts ac_simps)
  qed
  have key: "?w * (lqe_adiv3 - x) = y \<longleftrightarrow> accepted_as K (curve_point K p) (of5 K ?w)"
  proof -
    have "?w * (lqe_adiv3 - x) = y \<longleftrightarrow> of5 K (?w * (lqe_adiv3 - x)) = of5 K y" by (simp only: of5_inj)
    also have "\<dots> \<longleftrightarrow> of5 K ?w * (adiv3 K - of5 K x) = of5 K y" by (simp add: of5_hom lqe_consts)
    also have "\<dots> \<longleftrightarrow> accepted_as K (curve_point K p) (of5 K ?w)"
      by (auto simp: accepted_as_def point_encode_def qdiv_def p eq_divide_eq divide_eq_eq)
    finally show ?thesis .
  qed
  have one: "lqe_const (1 :: gl) = 1" by (simp add: lqe_const_0_1)
  show ?thesis
    unfolding compression_slot_def compression_op_first Let_def
    using curve key by (auto simp: one p compressed_wire_def wire_ith_w_offset_def wire_ith_x_offset_def wire_ith_y_offset_def wire_ith_isactive_offset_def)
qed

end

subsection \<open>The bits of the scalars\<close>

lemma le_sum_bits: "le_sum (map of_bool bs) = of_nat (horner_sum of_bool 2 bs)"
  by (induction bs) (simp_all add: le_sum_def)

lemma le_sum_append: "le_sum (xs @ ys) = le_sum xs + of_nat (2 ^ length xs) * le_sum ys"
  by (induction xs) (simp_all add: le_sum_def algebra_simps)

lemma slice_at_map: "slice_at (map f xs) i n = map f (slice_at xs i n)"
  by (simp add: slice_at_def take_map drop_map)

lemma reconstructed_bits:
  assumes "64 * k + 64 \<le> length bs"
  shows "reconstructed (map of_bool bs) k = of_nat (horner_sum of_bool 2 (slice_at bs (64 * k) 64))"
proof -
  have "slice_at bs (64 * k) 64 = slice_at bs (64 * k) 32 @ slice_at bs (64 * k + 32) 32"
    using take_add [of 32 32 "drop (64 * k) bs"] by (simp add: slice_at_def add.commute)
  then have "le_sum (map of_bool (slice_at bs (64 * k) 64)) =
      of_nat (2 ^ 32) * le_sum (map of_bool (slice_at bs (64 * k + 32) 32)) + le_sum (map of_bool (slice_at bs (64 * k) 32))"
    using assms by (simp only: map_append le_sum_append length_map length_slice_at) (simp add: slice_at_def)
  then show ?thesis by (simp only: reconstructed_def Let_def slice_at_map le_sum_bits)
qed

text \<open>The scalar with the given binary digits, of which the gadget uses the lowest 319.\<close>

definition scalar_of :: "(nat \<Rightarrow> bool) \<Rightarrow> scalar" where
  "scalar_of f = map (\<lambda>k. horner_sum of_bool 2 (map (\<lambda>i. f (64 * k + i)) [0..<64])) [0..<5]"

definition short_scalar :: "scalar \<Rightarrow> bool" where
  "short_scalar e \<longleftrightarrow> length e = 5 \<and> \<not> bit (e ! 4) 63"

lemma to_bit_arr_bit: "to_bit_arr e = map (\<lambda>j. bit (e ! (j div 64)) (j mod 64)) [0..<319]"
  unfolding to_bit_arr_def SCALAR_BITS_def
  by (intro map_cong refl) (simp add: and_one_eq bit_iff_odd_drop_bit odd_iff_mod_2_eq_one)

lemma bit_scalar_of: "j < 320 \<Longrightarrow> bit (scalar_of f ! (j div 64)) (j mod 64) \<longleftrightarrow> f j"
proof -
  assume "j < 320"
  then have "j div 64 < 5" by (simp add: less_mult_imp_div_less)
  then show ?thesis
    by (simp add: scalar_of_def bit_horner_sum_bit_word_iff nth_append del: upt_Suc)
qed

lemma to_bit_arr_scalar_of: "to_bit_arr (scalar_of f) = map f [0..<319]"
  unfolding to_bit_arr_bit by (intro map_cong refl) (simp add: bit_scalar_of del: upt_Suc)

lemma short_scalar_of: "short_scalar (scalar_of f) \<longleftrightarrow> \<not> f 319"
  using bit_scalar_of [of 319 f] by (simp add: short_scalar_def scalar_of_def del: upt_Suc)

lemma limb_digits:
  assumes "short_scalar e" "k < 5"
  shows "horner_sum of_bool 2 (slice_at (to_bit_arr e @ [False]) (64 * k) 64) = unat (e ! k)"
proof -
  have j: "(to_bit_arr e @ [False]) ! j \<longleftrightarrow> bit (e ! (j div 64)) (j mod 64)" if "j < 320" for j
    using that assms(1) by (cases "j = 319") (auto simp: to_bit_arr_bit short_scalar_def nth_append simp del: upt_Suc)
  have "slice_at (to_bit_arr e @ [False]) (64 * k) 64 = map (bit (unat (e ! k))) [0..<64]"
  proof (rule nth_equalityI)
    fix i assume "i < length (slice_at (to_bit_arr e @ [False]) (64 * k) 64)"
    then have i: "i < 64" by (simp add: slice_at_def)
    then have "64 * k + i < 320" using assms(2) by simp
    then show "slice_at (to_bit_arr e @ [False]) (64 * k) 64 ! i = map (bit (unat (e ! k))) [0..<64] ! i"
      using i j [of "64 * k + i"] unfolding slice_at_def by (simp add: bit_unsigned_iff to_bit_arr_bit del: upt_Suc take_append drop_append)
  qed (use assms(2) in \<open>simp add: slice_at_def to_bit_arr_bit\<close>)
  then show ?thesis by (simp only: horner_sum_bit_eq_take_bit) (rule take_bit_nat_eq_self, rule u64_less)
qed

text \<open>What the challenge constraints say of a scalar whose bits are on the selector wires.\<close>

definition challenge_limbs :: "scalar \<Rightarrow> gl list \<Rightarrow> bool" where
  "challenge_limbs e h \<longleftrightarrow>
     (\<forall>k < 4. of_nat (unat (e ! k)) = h ! k) \<and> (\<exists>j < 4. of_nat (unat (e ! 4) + j * 2 ^ 62) = h ! 4)"

lemma challenge_constraints:
  assumes "short_scalar e"
  shows "list_all (challenge_constraint a (map of_bool (to_bit_arr e @ [False])) h) [0..<5] \<longleftrightarrow> (a \<longrightarrow> challenge_limbs e h)"
proof -
  let ?b = "map of_bool (to_bit_arr e @ [False]) :: gl list"
  have r: "reconstructed ?b k = of_nat (unat (e ! k))" if "k < 5" for k
    using reconstructed_bits [of k "to_bit_arr e @ [False]"] limb_digits [OF assms that] that by (simp add: to_bit_arr_bit)
  have low: "(\<forall>k < 4. challenge_constraint a ?b h k) \<longleftrightarrow> (a \<longrightarrow> (\<forall>k < 4. of_nat (unat (e ! k)) = h ! k))"
    unfolding challenge_constraint_def conditional_assert_eq_def using r by auto
  have j4: "(\<exists>j < 4 :: nat. P j) \<longleftrightarrow> P 0 \<or> P 1 \<or> P 2 \<or> P 3" for P
    by (auto simp: numeral_eq_Suc less_Suc_eq)
  have high: "challenge_constraint a ?b h 4 \<longleftrightarrow> (a \<longrightarrow> (\<exists>j < 4. of_nat (unat (e ! 4) + j * 2 ^ 62) = h ! 4))"
  proof -
    have d: "x - y = of_nat c \<longleftrightarrow> y + of_nat c = x" for x y :: gl and c
      by (auto simp: algebra_simps)
    have c: "2 * 2 ^ 62 = (2 ^ 63 :: nat)" and z: "(of_nat 0 :: gl) = 0" by simp_all
    have r4: "reconstructed ?b 4 = of_nat (unat (e ! 4))" by (rule r) simp
    have four: "\<not> (4 :: nat) < 4" by simp
    show ?thesis
      unfolding j4 challenge_constraint_def Let_def r4 if_not_P [OF four] mult_eq_0_iff of_bool_eq_0_iff right_minus_eq d of_nat_add mult_0 mult_1 c
      using z by (metis add_0_right)
  qed
  have "list_all P [0..<5] \<longleftrightarrow> (\<forall>k < 4. P k) \<and> P 4" for P :: "nat \<Rightarrow> bool"
    by (auto simp: numeral_eq_Suc less_Suc_eq)
  then show ?thesis using low high by (auto simp: challenge_limbs_def)
qed

subsection \<open>Selectors\<close>

abbreviation row_selectors :: "gl list \<Rightarrow> nat \<Rightarrow> gl list" where
  "row_selectors row base \<equiv> map (\<lambda>k. row ! (base + k)) [0..<4]"

lemma upt_4: "[0..<4] = [0, 1, 2, 3 :: nat]" by (simp add: upt_rec)

lemma gate_selectors_nth:
  "k < 4 \<Longrightarrow> gate_selectors bits c g ! k = (if 4 * g + k < 319 then of_bool (bits ! (4 * g + k)) else c)"
  by (simp add: gate_selectors_def Let_def)

lemma selectors_iff:
  "row_selectors row base = gate_selectors bits c g \<longleftrightarrow> (\<forall>k < 4. row ! (base + k) = (if 4 * g + k < 319 then of_bool (bits ! (4 * g + k)) else c))"
  unfolding list_eq_iff_nth_eq by (auto simp: gate_selectors_nth) (simp_all add: gate_selectors_def)

text \<open>Position \<open>j\<close> of the bits, least significant first, is in this row at this selector.\<close>

lemma bit_position:
  fixes g k j :: nat
  assumes "g < 80" "k < 4" "4 * g + k < 319" "j = 318 - (4 * g + k)"
  shows "79 - (j + 1) div 4 = g" "3 - (j + 1) mod 4 = k"
proof -
  have "j + 1 = 4 * (79 - g) + (3 - k)" using assms by auto
  then have "(j + 1) div 4 = 79 - g" "(j + 1) mod 4 = 3 - k" using assms(2) by (simp_all only: div_mult_self4 mod_mult_self4) auto
  then show "79 - (j + 1) div 4 = g" "3 - (j + 1) mod 4 = k" using assms(1,2) by auto
qed

lemma position_bit:
  fixes g k j :: nat
  assumes "j < 319" "g = 79 - (j + 1) div 4" "k = 3 - (j + 1) mod 4"
  shows "g < 80" "k < 4" "4 * g + k = 318 - j"
proof -
  have "(j + 1) div 4 \<le> 79" using assms(1) by auto
  moreover have "(j + 1) mod 4 \<le> 3" by auto
  moreover have "j + 1 = 4 * ((j + 1) div 4) + (j + 1) mod 4" by (simp only: mult_div_mod_eq)
  ultimately show "g < 80" "k < 4" "4 * g + k = 318 - j" unfolding assms(2,3) by linarith+
qed

lemma all_e_bits_of:
  assumes "\<forall>g < 80. row_selectors (rows ! g) 30 = gate_selectors (rev (to_bit_arr e)) c g"
  shows "all_e_bits rows = map of_bool (to_bit_arr e @ [False])"
proof (rule nth_equalityI)
  fix j assume "j < length (all_e_bits rows)"
  then have j: "j < 320" by (simp add: all_e_bits_def)
  show "all_e_bits rows ! j = map of_bool (to_bit_arr e @ [False]) ! j"
  proof (cases "j = 319")
    case False
    define g where "g = 79 - (j + 1) div 4"
    define k where "k = 3 - (j + 1) mod 4"
    have j': "j < 319" using j False by simp
    note pos = position_bit [OF j' g_def k_def]
    have "rows ! g ! (30 + k) = of_bool (rev (to_bit_arr e) ! (4 * g + k))"
      using assms pos unfolding selectors_iff by auto
    also have "\<dots> = of_bool (to_bit_arr e ! j)" using j' by (simp add: pos(3) rev_nth to_bit_arr_bit del: upt_Suc)
    also have "30 + k = 30 + 3 - (j + 1) mod 4" unfolding k_def by (rule Nat.add_diff_assoc) (use mod_less_divisor [of 4 "j + 1"] in linarith)
    finally have "rows ! g ! (30 + 3 - (j + 1) mod 4) = of_bool (to_bit_arr e ! j)" .
    then show ?thesis using j' by (simp add: all_e_bits_def nth_append g_def to_bit_arr_bit del: upt_Suc)
  qed (simp add: all_e_bits_def nth_append to_bit_arr_bit del: upt_Suc)
qed (simp add: all_e_bits_def to_bit_arr_bit)

lemma scalar_exists:
  assumes bits: "\<And>g k. g < 80 \<Longrightarrow> k < 4 \<Longrightarrow> rows ! g ! (base + k) = 0 \<or> rows ! g ! (base + k) = (1 :: gl)"
    and c: "rows ! 79 ! (base + 3) = c"
  shows "\<exists>e. short_scalar e \<and> (\<forall>g < 80. row_selectors (rows ! g) base = gate_selectors (rev (to_bit_arr e)) c g)"
proof (intro exI conjI allI impI)
  let ?f = "\<lambda>j. j < 319 \<and> rows ! (79 - (j + 1) div 4) ! (base + (3 - (j + 1) mod 4)) = 1"
  show "short_scalar (scalar_of ?f)" by (simp add: short_scalar_of)
  fix g :: nat assume g: "g < 80"
  have "rows ! g ! (base + k) = (if 4 * g + k < 319 then of_bool (rev (to_bit_arr (scalar_of ?f)) ! (4 * g + k)) else c)" if k: "k < 4" for k
  proof (cases "4 * g + k < 319")
    case True
    have "rev (to_bit_arr (scalar_of ?f)) ! (4 * g + k) = ?f (318 - (4 * g + k))"
    proof -
      have "318 - (4 * g + k) < 319" by arith
      then show ?thesis unfolding to_bit_arr_scalar_of using True by (simp add: rev_nth del: upt_Suc)
    qed
    also have "\<dots> \<longleftrightarrow> rows ! g ! (base + k) = 1" using bit_position [OF g k True refl] by (simp add: less_Suc_eq_le [of _ 318, simplified])
    finally show ?thesis using bits [OF g k] True by auto
  next
    case False
    then have "g = 79" "k = 3" using g k by auto
    then show ?thesis using c by simp
  qed
  then show "row_selectors (rows ! g) base = gate_selectors (rev (to_bit_arr (scalar_of ?f))) c g" unfolding selectors_iff by blast
qed

subsection \<open>The chain of rows\<close>

definition offset :: "'k ext \<Rightarrow> 'k point_ew" where
  "offset K = \<lparr>px = arr5 K (OFFSET ! 0), py = arr5 K (OFFSET ! 1), at_inf = False\<rparr>"

definition gate_at ::
  "'k :: field ext \<Rightarrow> 'k point_ew \<Rightarrow> scalar \<Rightarrow> scalar \<Rightarrow> 'k point_ew \<Rightarrow> 'k gate_witness list \<Rightarrow> nat \<Rightarrow> ('e, 'k gate_witness) result" where
  "gate_at K q e s acc0 ws i = compute_gate_witness K (gate_selectors (rev (to_bit_arr e)) 0 i) (gate_selectors (rev (to_bit_arr s)) 1 i) q
     (if i = 0 then acc0 else gw_acco4 (ws ! (i - 1))) (i = 79)"

lemma run_steps:
  "for_each (schnorr_gate K q e s) [0..<n] (acc0, []) = (Inr (acc, ws) :: ('e, 'k :: field point_ew \<times> 'k gate_witness list) result) \<longleftrightarrow>
    length ws = n \<and> acc = (if n = 0 then acc0 else gw_acco4 (ws ! (n - 1)))
    \<and> (\<forall>i < n. gate_at K q e s acc0 ws i = (Inr (ws ! i) :: ('e, 'k gate_witness) result))"
proof (induction n arbitrary: acc ws)
  case 0
  show ?case by auto
next
  case (Suc n)
  have step: "schnorr_gate K q e s n (a, vs) = (Inr (acc, ws) :: ('e, 'k point_ew \<times> 'k gate_witness list) result) \<longleftrightarrow>
      (\<exists>w. compute_gate_witness K (gate_selectors (rev (to_bit_arr e)) 0 n) (gate_selectors (rev (to_bit_arr s)) 1 n) q a (n = 79)
         = (Inr w :: ('e, 'k gate_witness) result) \<and> acc = gw_acco4 w \<and> ws = vs @ [w])" for a vs
    by (auto simp: schnorr_gate_def Let_def bind_r_eq_Inr)
  have cong: "(gate_at K q e s acc0 (vs @ [w]) i :: ('e, 'k gate_witness) result) = gate_at K q e s acc0 vs i" if "i \<le> length vs" for vs w i
    using that by (auto simp: gate_at_def nth_append)
  have "for_each (schnorr_gate K q e s) [0..<Suc n] (acc0, []) = (Inr (acc, ws) :: ('e, 'k point_ew \<times> 'k gate_witness list) result) \<longleftrightarrow>
      (\<exists>a vs. (length vs = n \<and> a = (if n = 0 then acc0 else gw_acco4 (vs ! (n - 1)))
        \<and> (\<forall>i < n. gate_at K q e s acc0 vs i = (Inr (vs ! i) :: ('e, 'k gate_witness) result)))
        \<and> schnorr_gate K q e s n (a, vs) = (Inr (acc, ws) :: ('e, 'k point_ew \<times> 'k gate_witness list) result))"
    by (simp add: for_each_snoc bind_r_eq_Inr Suc.IH)
  also have "\<dots> \<longleftrightarrow> (\<exists>vs w. ws = vs @ [w] \<and> length vs = n \<and> acc = gw_acco4 w
      \<and> (\<forall>i < n. gate_at K q e s acc0 vs i = (Inr (vs ! i) :: ('e, 'k gate_witness) result))
      \<and> gate_at K q e s acc0 vs n = (Inr w :: ('e, 'k gate_witness) result))"
    unfolding step gate_at_def by blast
  also have "\<dots> \<longleftrightarrow> length ws = Suc n \<and> acc = gw_acco4 (ws ! n)
      \<and> (\<forall>i < Suc n. gate_at K q e s acc0 ws i = (Inr (ws ! i) :: ('e, 'k gate_witness) result))"
    (is "?L \<longleftrightarrow> ?R")
  proof
    assume ?L
    then show ?R by (auto simp: cong nth_append less_Suc_eq)
  next
    assume R: ?R
    then obtain vs w where ws: "ws = vs @ [w]" "length vs = n" by (metis length_Suc_conv_rev)
    then show ?L using R cong [of _ vs w] by (intro exI [of _ vs] exI [of _ w]) (auto simp: nth_append less_Suc_eq split: if_splits)
  qed
  finally show ?case by simp
qed

text \<open>
  The rows that the native computation fills: every row carries the public point, the accumulator,
  its four bits of both scalars and the points of its witness.
\<close>

definition rows_filled :: "'k ext \<Rightarrow> gl lpoint \<Rightarrow> scalar \<Rightarrow> scalar \<Rightarrow> gl list list \<Rightarrow> 'k gate_witness list \<Rightarrow> bool" where
  "rows_filled K q e s rows ws \<longleftrightarrow> (\<forall>i < 80.
     wire_point (rows ! i) 0 = q \<and> curve_point K (wire_point (rows ! i) 10) = (if i = 0 then offset K else gw_acco4 (ws ! (i - 1)))
     \<and> row_selectors (rows ! i) 30 = gate_selectors (rev (to_bit_arr e)) 0 i
     \<and> row_selectors (rows ! i) 35 = gate_selectors (rev (to_bit_arr s)) 1 i
     \<and> row_carries K (rows ! i) (ws ! i))"

text \<open>
  The side conditions on an assignment: no exceptional addition, and the selectors of the last
  step set in the last row only, which no constraint of the gadget enforces.
\<close>

definition regular_rows :: "'k :: field ext \<Rightarrow> gl list list \<Rightarrow> bool" where
  "regular_rows K rows \<longleftrightarrow> (\<forall>i < 80. regular_row K (rows ! i) \<and> rows ! i ! 39 = of_bool (i = 79))
     \<and> rows ! 79 ! 33 = 0 \<and> rows ! 79 ! 38 = 1"

definition slot_wired :: "gl list \<Rightarrow> gl lpoint \<Rightarrow> bool" where
  "slot_wired slot p \<longleftrightarrow> slot ! 15 = 1 \<and> fst p = wire5 slot 5 \<and> snd p = wire5 slot 10"

definition rows_accepted :: "gl lpoint \<Rightarrow> gl list list \<Rightarrow> bool" where
  "rows_accepted q rows \<longleftrightarrow> (\<forall>i < 80. satisfied (da4x_eval (rows ! i)) \<and> wire_point (rows ! i) 0 = q)
     \<and> (\<forall>i < 79. wire_point (rows ! i) 20 = wire_point (rows ! (i + 1)) 10)
     \<and> wire_point (rows ! 0) 10 = (lqe_arr (OFFSET ! 0), lqe_arr (OFFSET ! 1))"

lemma row_bits_selectors:
  assumes "row_selectors row 30 = gate_selectors b 0 i" "row_selectors row 35 = gate_selectors c 1 i" "row ! 39 = of_bool d"
  shows "row_bits row"
proof -
  have "row ! (30 + k) = 0 \<or> row ! (30 + k) = 1" "row ! (35 + k) = 0 \<or> row ! (35 + k) = 1" if "k < 4" for k
    using assms(1,2) that unfolding selectors_iff by (auto split: if_splits)
  from this [of 0] this [of 1] this [of 2] this [of 3] show ?thesis using assms(3) by (simp add: row_bits_def)
qed

lemma row_bits_nth:
  assumes "row_bits row" "k < 4"
  shows "row ! (30 + k) = 0 \<or> row ! (30 + k) = 1" "row ! (35 + k) = 0 \<or> row ! (35 + k) = 1"
proof -
  have "k \<in> set [0..<4]" using assms(2) by simp
  then have "k = 0 \<or> k = 1 \<or> k = 2 \<or> k = 3" unfolding upt_4 by simp
  then show "row ! (30 + k) = 0 \<or> row ! (30 + k) = 1" "row ! (35 + k) = 0 \<or> row ! (35 + k) = 1"
    using assms(1) unfolding row_bits_def by (elim disjE; simp)+
qed

context quintic_ext
begin

lemma offset_point: "curve_point K (lqe_arr (OFFSET ! 0), lqe_arr (OFFSET ! 1)) = offset K"
  by (simp add: curve_point_def offset_def lqe_consts)

lemma offset_on_curve: "is_on_curve K (offset K)"
  unfolding offset_def by (rule on_curve_n5) (simp_all add: OFFSET_def on_curve_n5_def n5_add_def ECGFP5_CAP_A_def ECGFP5_CAP_B_def)

lemma run_iff:
  "schnorr_run K q e s = (Inr (acc, ws) :: ('e, 'k point_ew \<times> 'k gate_witness list) result) \<longleftrightarrow>
    length ws = 80 \<and> acc = gw_acco4 (ws ! 79) \<and> (\<forall>i < 80. gate_at K q e s (offset K) ws i = (Inr (ws ! i) :: ('e, 'k gate_witness) result))"
proof -
  have "point_from K OFFSET = (Inr (offset K) :: ('e, 'k point_ew) result)"
    using offset_on_curve by (simp add: point_from_def offset_def)
  then show ?thesis unfolding schnorr_run_def by (simp add: run_steps)
qed

text \<open>Every point of the chain is on the curve.\<close>

lemma gate_step_proper:
  assumes "proper p" "proper p2" "proper acc" "gate_step K fin p p2 acc b0 b1 = (Inr (d, acc', l) :: ('e, 'k point_ew \<times> 'k point_ew \<times> 'k) result)"
  shows "proper acc'"
proof -
  have d: "(if fin then Inr acc else point_double K acc) = (Inr d :: ('e, 'k point_ew) result)"
    and step: "step_add K (b0 = 1) (b1 = 1) d p p2 = (Inr acc' :: ('e, 'k point_ew) result)"
    using assms(4) unfolding gate_step_def bind_r_eq_Inr by simp_all
  have d: "proper d" using d assms(3) proper_double [of acc d] by (cases fin) auto
  consider "b0 \<noteq> 1" "b1 \<noteq> 1" | "b0 = 1" "b1 \<noteq> 1" | "b0 \<noteq> 1" "b1 = 1" | "b0 = 1" "b1 = 1" by blast
  then show ?thesis
  proof cases
    case 4
    then obtain m where "point_add K d p = (Inr m :: ('e, 'k point_ew) result)" "point_add K m p2 = (Inr acc' :: ('e, 'k point_ew) result)"
      using step by (auto simp: step_add_def bind_r_eq_Inr)
    then show ?thesis using proper_add d assms(1,2) by blast
  qed (use step d proper_add [OF d assms(1)] proper_add [OF d assms(2)] in \<open>simp_all add: step_add_def\<close>)
qed

lemma witness_proper:
  assumes "proper q" "proper accin" "compute_gate_witness K sp sg q accin lst = (Inr w :: ('e, 'k gate_witness) result)"
  shows "proper (gw_acco4 w)"
proof -
  let ?G = "generator K" and ?p2 = "if lst then neg_offset K else generator K"
  have g: "proper ?G" and p2: "proper ?p2"
  proof -
    have "is_on_curve K (neg_offset K)"
      using neg_offset_from [where 'a = unit] by (cases "is_on_curve K (neg_offset K)") (simp_all add: point_from_def neg_offset_def Let_def)
    then show "proper ?G" "proper ?p2" using generator_on_curve by (simp_all add: proper_def on_curve_def generator_def neg_offset_def)
  qed
  obtain d1 o1 l1 d2 o2 l2 d3 o3 l3 d4 o4 l4 where
    "gate_step K False q ?G accin (sp ! 0) (sg ! 0) = (Inr (d1, o1, l1) :: ('e, 'k point_ew \<times> 'k point_ew \<times> 'k) result)"
    "gate_step K False q ?G o1 (sp ! 1) (sg ! 1) = (Inr (d2, o2, l2) :: ('e, 'k point_ew \<times> 'k point_ew \<times> 'k) result)"
    "gate_step K False q ?G o2 (sp ! 2) (sg ! 2) = (Inr (d3, o3, l3) :: ('e, 'k point_ew \<times> 'k point_ew \<times> 'k) result)"
    "gate_step K lst q ?p2 o3 (sp ! 3) (sg ! 3) = (Inr (d4, o4, l4) :: ('e, 'k point_ew \<times> 'k point_ew \<times> 'k) result)"
    "gw_acco4 w = o4"
    using assms(3) unfolding compute_gate_witness_def Let_def neg_offset_from bind_r_Inr
    by (auto simp only: bind_r3_Inr bind_r_eq_Inr sum.inject gate_witness.simps)
  then show ?thesis using gate_step_proper [OF assms(1) g] gate_step_proper [OF assms(1) p2] assms(2) by metis
qed

lemma run_on_curve:
  assumes "is_on_curve K q" "\<not> at_inf q" "schnorr_run K q e s = (Inr (acc, ws) :: ('e, 'k point_ew \<times> 'k gate_witness list) result)"
  shows "on_curve K acc"
proof -
  have q: "proper q" and off: "proper (offset K)"
    using assms(1,2) offset_on_curve by (simp_all add: proper_def on_curve_def offset_def)
  have run: "acc = gw_acco4 (ws ! 79)" "\<And>i. i < 80 \<Longrightarrow> gate_at K q e s (offset K) ws i = (Inr (ws ! i) :: ('e, 'k gate_witness) result)"
    using assms(3) by (simp_all add: run_iff)
  have "proper (gw_acco4 (ws ! i))" if "i < 80" for i
    using that
  proof (induction i)
    case 0
    then show ?case using run(2) [of 0] witness_proper [OF q off] by (simp add: gate_at_def)
  next
    case (Suc i)
    then show ?case using run(2) [of "Suc i"] witness_proper [OF q, of "gw_acco4 (ws ! i)"] by (simp add: gate_at_def)
  qed
  then show ?thesis by (simp add: run(1) proper_def)
qed

lemma regular_row_exact:
  assumes "regular_rows K rows" "i < 80"
  shows "satisfied (da4x_eval (rows ! i)) \<longleftrightarrow> row_bits (rows ! i) \<and> (\<exists>w. compute_gate_witness K (row_selectors (rows ! i) 30) (row_selectors (rows ! i) 35)
      (curve_point K (wire_point (rows ! i) 0)) (curve_point K (wire_point (rows ! i) 10)) (i = 79) = (Inr w :: ('e, 'k gate_witness) result) \<and> row_carries K (rows ! i) w)"
proof -
  have "rows ! i ! 39 = of_bool (i = 79)" "regular_row K (rows ! i)" using assms by (simp_all add: regular_rows_def)
  moreover have "rows ! i ! 39 = 1 \<longrightarrow> rows ! i ! 33 = 0 \<and> rows ! i ! 38 = 1"
    using assms by (cases "i = 79") (simp_all add: regular_rows_def)
  ultimately show ?thesis using row_exact [of "rows ! i", where 'e = 'e] by (simp only: of_bool_eq_1_iff simp_thms)
qed

text \<open>The rows are connected and satisfied exactly if the native computation fills them.\<close>

lemma accepted_rows:
  assumes reg: "regular_rows K rows" and L: "rows_accepted q rows"
  shows "\<exists>e s acc ws. short_scalar e \<and> short_scalar s
    \<and> schnorr_run K (curve_point K q) e s = (Inr (acc, ws) :: ('e, 'k point_ew \<times> 'k gate_witness list) result) \<and> rows_filled K q e s rows ws"
proof -
  from L have bits: "row_bits (rows ! i)" and "\<exists>w. compute_gate_witness K (row_selectors (rows ! i) 30) (row_selectors (rows ! i) 35)
      (curve_point K q) (curve_point K (wire_point (rows ! i) 10)) (i = 79) = (Inr w :: ('e, 'k gate_witness) result) \<and> row_carries K (rows ! i) w"
    if "i < 80" for i
    using that regular_row_exact [OF reg that, where 'e = 'e] by (simp_all add: rows_accepted_def)
  then obtain f where f: "compute_gate_witness K (row_selectors (rows ! i) 30) (row_selectors (rows ! i) 35)
      (curve_point K q) (curve_point K (wire_point (rows ! i) 10)) (i = 79) = (Inr (f i) :: ('e, 'k gate_witness) result)" "row_carries K (rows ! i) (f i)"
    if "i < 80" for i by metis
  obtain e where e: "short_scalar e" "\<forall>g < 80. row_selectors (rows ! g) 30 = gate_selectors (rev (to_bit_arr e)) 0 g"
    using scalar_exists [of rows 30 0] row_bits_nth(1) [OF bits] reg by (auto simp: regular_rows_def)
  obtain s where s: "short_scalar s" "\<forall>g < 80. row_selectors (rows ! g) 35 = gate_selectors (rev (to_bit_arr s)) 1 g"
    using scalar_exists [of rows 35 1] row_bits_nth(2) [OF bits] reg by (auto simp: regular_rows_def)
  define ws where "ws = map f [0..<80]"
  have ws: "length ws = 80" "\<And>i. i < 80 \<Longrightarrow> ws ! i = f i" by (simp_all add: ws_def)
  have acc: "curve_point K (wire_point (rows ! i) 10) = (if i = 0 then offset K else gw_acco4 (ws ! (i - 1)))" if "i < 80" for i
  proof (cases i)
    case (Suc j)
    then have "wire_point (rows ! j) 20 = wire_point (rows ! i) 10" using L that by (simp add: rows_accepted_def)
    moreover have "gw_acco4 (f j) = curve_point K (wire_point (rows ! j) 20)" using f(2) [of j] Suc that by (simp add: row_carries_def)
    ultimately show ?thesis using Suc ws(2) that by simp
  qed (use L offset_point in \<open>simp add: rows_accepted_def\<close>)
  have "gate_at K (curve_point K q) e s (offset K) ws i = (Inr (ws ! i) :: ('e, 'k gate_witness) result)" if "i < 80" for i
    using f(1) [OF that] e(2) s(2) that unfolding acc [OF that] by (simp add: gate_at_def ws(2))
  then have run: "schnorr_run K (curve_point K q) e s = (Inr (gw_acco4 (ws ! 79), ws) :: ('e, 'k point_ew \<times> 'k gate_witness list) result)"
    using ws(1) by (simp add: run_iff)
  have "rows_filled K q e s rows ws"
    unfolding rows_filled_def using L e(2) s(2) acc f(2) ws(2) by (simp add: rows_accepted_def)
  with run e(1) s(1) show ?thesis by blast
qed

lemma filled_rows:
  assumes reg: "regular_rows K rows" and run: "schnorr_run K (curve_point K q) e s = (Inr (acc, ws) :: ('e, 'k point_ew \<times> 'k gate_witness list) result)"
    and filled: "rows_filled K q e s rows ws"
  shows "rows_accepted q rows"
proof -
  have row: "satisfied (da4x_eval (rows ! i))" "wire_point (rows ! i) 0 = q" if i: "i < 80" for i
  proof -
    have fl: "wire_point (rows ! i) 0 = q" "curve_point K (wire_point (rows ! i) 10) = (if i = 0 then offset K else gw_acco4 (ws ! (i - 1)))"
      "row_selectors (rows ! i) 30 = gate_selectors (rev (to_bit_arr e)) 0 i" "row_selectors (rows ! i) 35 = gate_selectors (rev (to_bit_arr s)) 1 i"
      "row_carries K (rows ! i) (ws ! i)"
      using filled i by (simp_all only: rows_filled_def)
    have "row_bits (rows ! i)" using row_bits_selectors [OF fl(3,4)] reg i by (simp add: regular_rows_def)
    moreover have "compute_gate_witness K (row_selectors (rows ! i) 30) (row_selectors (rows ! i) 35)
      (curve_point K (wire_point (rows ! i) 0)) (curve_point K (wire_point (rows ! i) 10)) (i = 79) = (Inr (ws ! i) :: ('e, 'k gate_witness) result)"
      using run i unfolding run_iff gate_at_def fl(1-4) by blast
    ultimately show "satisfied (da4x_eval (rows ! i))" unfolding regular_row_exact [OF reg i, where 'e = 'e] using fl(5) by blast
    show "wire_point (rows ! i) 0 = q" by (rule fl(1))
  qed
  have "wire_point (rows ! i) 20 = wire_point (rows ! (i + 1)) 10" if "i < 79" for i
  proof -
    have "curve_point K (wire_point (rows ! (i + 1)) 10) = gw_acco4 (ws ! i)" "row_carries K (rows ! i) (ws ! i)"
      using filled [unfolded rows_filled_def, rule_format, of "i + 1"] filled [unfolded rows_filled_def, rule_format, of i] that by simp_all
    then show ?thesis by (simp add: row_carries_def flip: curve_point_inj)
  qed
  moreover have "wire_point (rows ! 0) 10 = (lqe_arr (OFFSET ! 0), lqe_arr (OFFSET ! 1))"
    using filled [unfolded rows_filled_def, rule_format, of 0] by (simp flip: curve_point_inj offset_point)
  ultimately show ?thesis using row by (simp add: rows_accepted_def)
qed

lemma gadget_parts:
  "conditional_schnorr_verify_gadget H a m pk W \<longleftrightarrow>
    rows_accepted (sw_q W) (sw_rows W)
    \<and> compression_slot (sw_cg_r W) (wire_point (sw_rows W ! 79) 20) \<and> compression_slot (sw_cg_q W) (sw_q W)
    \<and> compressed_wire (sw_cg_q W) = pk
    \<and> list_all (challenge_constraint a (all_e_bits (sw_rows W)) (H (lqe_list (compressed_wire (sw_cg_r W)) @ lqe_list pk @ m))) [0..<5]"
  unfolding conditional_schnorr_verify_gadget_def rows_accepted_def Let_def list_all_iff set_upt atLeastLessThan_iff by auto

end

subsection \<open>Properties\<close>

text \<open>
  C18. The signature gadget is exact. On an assignment without exceptional additions, with the
  selectors of the last step set in the last row only, the constraints hold if and only if the
  native computation of the prover runs through for two scalars whose bits are on the selector
  wires and fills the rows, the public point is on the curve and accepted as the key, the
  resulting point is accepted as the commitment, and, where the check is applied, the limbs of
  the first scalar match the hash of commitment, key and message. A point is accepted as a
  compressed value that it encodes to, or for any value at all when it is the point with the
  abscissa \<open>a/3\<close>.
\<close>

theorem schnorr_gadget_exact:
  assumes K: "quintic_ext K" and reg: "regular_rows K (sw_rows W)"
  shows "conditional_schnorr_verify_gadget H apply_check m pk W \<longleftrightarrow>
    (let Q = curve_point K (sw_q W); cr = compressed_wire (sw_cg_r W) in
     slot_wired (sw_cg_r W) (wire_point (sw_rows W ! 79) 20) \<and> slot_wired (sw_cg_q W) (sw_q W) \<and> compressed_wire (sw_cg_q W) = pk
     \<and> is_on_curve K Q \<and> accepted_as K Q (of5 K pk)
     \<and> (\<exists>e s R ws. short_scalar e \<and> short_scalar s
         \<and> schnorr_run K Q e s = (Inr (R, ws) :: ('e, 'k :: field point_ew \<times> 'k gate_witness list) result)
         \<and> rows_filled K (sw_q W) e s (sw_rows W) ws \<and> accepted_as K R (of5 K cr)
         \<and> (apply_check \<longrightarrow> challenge_limbs e (H (lqe_list cr @ lqe_list pk @ m)))))"
proof -
  let ?q = "sw_q W" and ?rows = "sw_rows W" and ?R = "wire_point (sw_rows W ! 79) 20" and ?h = "H (lqe_list (compressed_wire (sw_cg_r W)) @ lqe_list pk @ m)"
  have filled: "R = curve_point K ?R \<and> rows_accepted ?q ?rows
      \<and> (is_on_curve K (curve_point K ?q) \<longrightarrow> is_on_curve K R)
      \<and> (list_all (challenge_constraint apply_check (all_e_bits ?rows) ?h) [0..<5] \<longleftrightarrow> (apply_check \<longrightarrow> challenge_limbs e ?h))"
    if "short_scalar e" "schnorr_run K (curve_point K ?q) e s = (Inr (R, ws) :: ('e, 'k point_ew \<times> 'k gate_witness list) result)"
      "rows_filled K ?q e s ?rows ws" for e s R ws
  proof -
    have "R = gw_acco4 (ws ! 79)" "row_carries K (?rows ! 79) (ws ! 79)"
      using that(2) that(3) [unfolded rows_filled_def, rule_format, of 79] by (simp_all add: quintic_ext.run_iff [OF K])
    then have R: "R = curve_point K ?R" by (simp add: row_carries_def)
    have "all_e_bits ?rows = map of_bool (to_bit_arr e @ [False])"
      using that(3) unfolding rows_filled_def by (intro all_e_bits_of) blast
    then have "list_all (challenge_constraint apply_check (all_e_bits ?rows) ?h) [0..<5] \<longleftrightarrow> (apply_check \<longrightarrow> challenge_limbs e ?h)"
      using challenge_constraints [OF that(1)] by (simp only:)
    moreover have "is_on_curve K R" if "is_on_curve K (curve_point K ?q)"
      using quintic_ext.run_on_curve [OF K that _ \<open>schnorr_run K (curve_point K ?q) e s = Inr (R, ws)\<close>] R by (simp add: on_curve_def)
    ultimately show ?thesis using quintic_ext.filled_rows [OF K reg that(2,3)] R by blast
  qed
  have slots: "compression_slot slot p \<longleftrightarrow> slot_wired slot p \<and> is_on_curve K (curve_point K p) \<and> accepted_as K (curve_point K p) (of5 K (compressed_wire slot))" for slot p
    by (simp add: quintic_ext.slot_exact [OF K] slot_wired_def)
  show ?thesis (is "?G \<longleftrightarrow> ?N")
  proof
    assume ?G
    then have g: "rows_accepted ?q ?rows" "compression_slot (sw_cg_r W) ?R" "compression_slot (sw_cg_q W) ?q" "compressed_wire (sw_cg_q W) = pk"
      "list_all (challenge_constraint apply_check (all_e_bits ?rows) ?h) [0..<5]" by (simp_all add: quintic_ext.gadget_parts [OF K])
    obtain e s R ws where run: "short_scalar e" "short_scalar s" "schnorr_run K (curve_point K ?q) e s = (Inr (R, ws) :: ('e, 'k point_ew \<times> 'k gate_witness list) result)"
      "rows_filled K ?q e s ?rows ws" using quintic_ext.accepted_rows [OF K reg g(1), where 'e = 'e] by blast
    show ?N using g(2-5) run filled [OF run(1,3,4)] unfolding Let_def slots by auto
  next
    assume N: ?N
    then obtain e s R ws where run: "short_scalar e" "short_scalar s" "schnorr_run K (curve_point K ?q) e s = (Inr (R, ws) :: ('e, 'k point_ew \<times> 'k gate_witness list) result)"
      "rows_filled K ?q e s ?rows ws" and rest: "accepted_as K R (of5 K (compressed_wire (sw_cg_r W)))" "apply_check \<longrightarrow> challenge_limbs e ?h"
      unfolding Let_def by blast
    show ?G using N rest filled [OF run(1,3,4)] unfolding Let_def quintic_ext.gadget_parts [OF K] slots by blast
  qed
qed

definition plain_row :: "bool \<Rightarrow> gl list" where
  "plain_row lst = map (\<lambda>i. if i < 10 then 0 else if i < 30 then 1 else if i < 38 then 0 else if i < 40 then of_bool lst else 1) [0..<130]"

definition plain_wires :: schnorr_wires where
  "plain_wires = \<lparr>sw_q = (0, 0), sw_rows = replicate 79 (plain_row False) @ [plain_row True], sw_cg_r = replicate 16 1, sw_cg_q = replicate 16 1\<rparr>"

lemma plain_row_nth:
  "i < 130 \<Longrightarrow> plain_row b ! i = (if i < 10 then 0 else if i < 30 then 1 else if i < 38 then 0 else if i < 40 then of_bool b else 1)"
  by (simp add: plain_row_def del: upt_Suc)

lemma plain_row_wires:
  "wire_point (plain_row b) 0 = (LQE 0 0 0 0 0, LQE 0 0 0 0 0)"
  "wire_point (plain_row b) 10 = (LQE 1 1 1 1 1, LQE 1 1 1 1 1)" "wire_point (plain_row b) 40 = (LQE 1 1 1 1 1, LQE 1 1 1 1 1)"
  "wire_point (plain_row b) 50 = (LQE 1 1 1 1 1, LQE 1 1 1 1 1)" "wire_point (plain_row b) 60 = (LQE 1 1 1 1 1, LQE 1 1 1 1 1)"
  "wire_point (plain_row b) 70 = (LQE 1 1 1 1 1, LQE 1 1 1 1 1)" "wire_point (plain_row b) 80 = (LQE 1 1 1 1 1, LQE 1 1 1 1 1)"
  "wire_point (plain_row b) 90 = (LQE 1 1 1 1 1, LQE 1 1 1 1 1)" "wire_point (plain_row b) 100 = (LQE 1 1 1 1 1, LQE 1 1 1 1 1)"
  "plain_row b ! 30 = 0" "plain_row b ! 31 = 0" "plain_row b ! 32 = 0" "plain_row b ! 33 = 0"
  "plain_row b ! 35 = 0" "plain_row b ! 36 = 0" "plain_row b ! 37 = 0" "plain_row b ! 38 = of_bool b" "plain_row b ! 39 = of_bool b"
  by (simp_all add: wire_point_def wire5_def plain_row_nth)

lemma plain_rows_regular: "regular_rows gfp5_ext (sw_rows plain_wires)"
proof -
  have ne: "of5 gfp5_ext (LQE 1 1 1 1 1) \<noteq> of5 gfp5_ext (LQE 0 0 0 0 0)" by (simp only: gfp5.of5_inj) simp
  have z: "of5 gfp5_ext (LQE 0 0 0 0 0) = 0" using gfp5.of5_0 by (simp add: lqe_ops)
  have n: "px (neg_offset gfp5_ext) = of5 gfp5_ext (n5 (OFFSET_NEG_319 ! 0))" by (simp add: neg_offset_def gfp5.arr5_n5 OFFSET_NEG_319_def)
  have "arr5 gfp5_ext [1, 1, 1, 1, 1] \<noteq> arr5 gfp5_ext (OFFSET_NEG_319 ! 0)" by (subst gfp5.arr5_inj) (simp_all add: OFFSET_NEG_319_def)
  then have off: "of5 gfp5_ext (LQE 1 1 1 1 1) \<noteq> px (neg_offset gfp5_ext)" by (simp add: neg_offset_def arr5_def)
  have "regular_row gfp5_ext (plain_row b)" for b
    using ne z off by (cases b) (simp_all add: regular_row_def regular_step_def plain_row_wires Let_def)
  moreover have "sw_rows plain_wires ! i = plain_row (i = 79)" if "i < 80" for i
    using that by (cases "i = 79") (simp_all add: plain_wires_def nth_append)
  ultimately show ?thesis by (simp add: regular_rows_def plain_row_wires)
qed

theorem schnorr_gadget_exact_witness:
  "quintic_ext gfp5_ext \<and> regular_rows gfp5_ext (sw_rows plain_wires)
    \<and> \<not> conditional_schnorr_verify_gadget (\<lambda>_. [0, 0, 0, 0, 0]) True [] 1 plain_wires
    \<and> \<not> (slot_wired (sw_cg_r plain_wires) (wire_point (sw_rows plain_wires ! 79) 20) \<and> slot_wired (sw_cg_q plain_wires) (sw_q plain_wires)
        \<and> compressed_wire (sw_cg_q plain_wires) = 1
        \<and> is_on_curve gfp5_ext (curve_point gfp5_ext (sw_q plain_wires)) \<and> accepted_as gfp5_ext (curve_point gfp5_ext (sw_q plain_wires)) (of5 gfp5_ext 1)
        \<and> (\<exists>e s R ws. short_scalar e \<and> short_scalar s
           \<and> schnorr_run gfp5_ext (curve_point gfp5_ext (sw_q plain_wires)) e s = (Inr (R, ws) :: (unit, gfp5 point_ew \<times> gfp5 gate_witness list) result)
           \<and> rows_filled gfp5_ext (sw_q plain_wires) e s (sw_rows plain_wires) ws \<and> accepted_as gfp5_ext R (of5 gfp5_ext (compressed_wire (sw_cg_r plain_wires)))
           \<and> challenge_limbs e [0, 0, 0, 0, 0]))"
proof -
  have K: "quintic_ext gfp5_ext" by unfold_locales
  have "compressed_wire (sw_cg_q plain_wires) = LQE 1 1 1 1 1" by (simp add: compressed_wire_def wire_ith_w_offset_def wire5_def plain_wires_def)
  then have "compressed_wire (sw_cg_q plain_wires) \<noteq> 1" by (simp add: lqe_ops)
  then have "\<not> conditional_schnorr_verify_gadget (\<lambda>_. [0, 0, 0, 0, 0]) True [] 1 plain_wires" by (simp add: quintic_ext.gadget_parts [OF K])
  then show ?thesis
    using schnorr_gadget_exact [OF K plain_rows_regular, of "\<lambda>_. [0, 0, 0, 0, 0]" True "[]" 1, where 'e = unit] K plain_rows_regular
    unfolding Let_def by (simp only: simp_thms)
qed

text \<open>
  C17. The key is not bound. With the point of order two \<open>(a/3, 0)\<close>, which is on the curve and has
  no encoding, as the public point, the slot of the key accepts every compressed key: the
  constraints of the whole gadget then mention the key in the hash only, so that a prover who
  knows no secret key can fill all rows from that point.
\<close>

definition void_slot :: "gl lqe \<Rightarrow> gl list" where
  "void_slot w = lqe_list w @ lqe_list lqe_adiv3 @ lqe_list 0 @ [1]"


lemma challenge_limbs_two:
  assumes h: "length h = 5"
  shows "(let e = from_hash_words (map gl_word h) in
    (poseidon_hash_to_scalar (\<lambda>_. h) input = (Inr e :: (unit, scalar) result) \<and> short_scalar e \<and> challenge_limbs e h)
    \<and> (2 ^ 62 \<le> unat (gl_word (h ! 4)) \<longrightarrow> (\<exists>e'. e' \<noteq> e \<and> short_scalar e' \<and> challenge_limbs e' h)))"
proof -
  define v where "v = gl_word (h ! 4)"
  define t where "t = drop_bit 2 (push_bit 2 v)"
  define e where "e = from_hash_words (map gl_word h)"
  have t: "unat t = unat v mod 2 ^ 62"
    using mod_mult_mult2 [of "unat v" 4 "2 ^ 62"]
    by (simp add: t_def unat_drop_bit_eq unsigned_push_bit_eq drop_bit_eq_div [where 'a = nat] push_bit_eq_mult [where 'a = nat] take_bit_eq_mod [where 'a = nat])
  have e: "length e = 5" "e ! 4 = t" "\<And>k. k < 4 \<Longrightarrow> e ! k = gl_word (h ! k)"
    using h by (simp_all add: e_def from_hash_words_def v_def t_def)
  have j: "unat v div 2 ^ 62 < 4" "of_nat (unat t + unat v div 2 ^ 62 * 2 ^ 62) = h ! 4"
    using u64_less [of v] gl_word_value(2) [of "h ! 4"] by (simp_all only: t v_def [symmetric] mod_div_mult_eq) simp
  have short: "\<not> bit x 63" if "unat x < 2 ^ 63" for x :: u64
  proof -
    have "bit x 63 \<longleftrightarrow> bit (unat x) 63" by (simp add: bit_unsigned_iff)
    then show ?thesis using div_less [OF that] by (simp only: bit_iff_odd) simp
  qed
  have low: "of_nat (unat (e ! k)) = h ! k" if "k < 4" for k using that by (simp only: e(3) gl_word_value(2))
  have lt: "unat t < 2 ^ 62" unfolding t by (rule mod_less_divisor) simp
  have b63: "\<not> bit t 63" using lt by (intro short) simp
  have native: "short_scalar e \<and> challenge_limbs e h"
    using e(1) b63 j low unfolding short_scalar_def challenge_limbs_def e(2) by blast
  have second: "e[4 := t + 2 ^ 62] \<noteq> e \<and> short_scalar (e[4 := t + 2 ^ 62]) \<and> challenge_limbs (e[4 := t + 2 ^ 62]) h" if big: "2 ^ 62 \<le> unat v"
  proof -
    define j where "j = unat v div 2 ^ 62"
    have j1: "1 \<le> j" using div_le_mono [OF big, of "2 ^ 62"] by (simp add: j_def)
    have u: "unat (t + 2 ^ 62) = unat t + 2 ^ 62" using lt by (simp add: unat_plus_if')
    have "unat (t + 2 ^ 62) + (j - 1) * 2 ^ 62 = unat t + j * 2 ^ 62" unfolding u using j1 by (cases j) simp_all
    then have "of_nat (unat (t + 2 ^ 62) + (j - 1) * 2 ^ 62) = h ! 4" using j(2) by (simp only: j_def)
    moreover have "j - 1 < 4" using j(1) by (simp add: j_def)
    moreover have "\<not> bit (t + 2 ^ 62) 63" by (rule short, unfold u) (use lt in simp)
    moreover have "t + 2 ^ 62 \<noteq> t" using u by (metis add_cancel_left_right power_not_zero zero_neq_numeral)
    moreover have "e[4 := t + 2 ^ 62] ! 4 = t + 2 ^ 62" "\<And>k. k < 4 \<Longrightarrow> e[4 := t + 2 ^ 62] ! k = e ! k" using e(1) by simp_all
    ultimately show ?thesis using low e(1,2) unfolding short_scalar_def challenge_limbs_def by (metis length_list_update)
  qed
  have "poseidon_hash_to_scalar (\<lambda>_. h) input = (Inr e :: (unit, scalar) result)" using h by (simp add: poseidon_hash_to_scalar_def e_def)
  then show ?thesis using native second unfolding Let_def e_def [symmetric] v_def by blast
qed



text \<open>
  Keys in bytes: decoding inverts encoding, and encoding inverts decoding exactly for byte strings
  whose five limbs are canonical.
\<close>

lemma of_nat_gl_word: "of_nat n = x \<Longrightarrow> n < gp \<Longrightarrow> unat (gl_word x) = n"
proof -
  assume a: "of_nat n = x" "n < gp"
  have "gl_int (of_int (int n)) = int n" using a(2) unfolding gl_of_int by simp
  then show "unat (gl_word x) = n" using a(1) by (simp add: gl_word_value(1))
qed

lemma limb_slices:
  assumes "length ws = 5" "i < 5"
  shows "slice_at (concat (map u64_to_le_bytes ws)) (i * 8) 8 = u64_to_le_bytes (ws ! i)"
  using assms by (simp add: slice_concat_map)

lemma key_codec_exact:
  assumes "quintic_ext K"
  shows "length (key_encode K w) = 40" "key_decode K (key_encode K w) = w"
    "length bs = 40 \<Longrightarrow> key_encode K (key_decode K bs) = bs \<longleftrightarrow> (\<forall>i < 5. unat (u64_from_le_bytes (slice_at bs (i * 8) 8)) < gp)"
proof -
  obtain w0 w1 w2 w3 w4 where w: "to5 K w = LQE w0 w1 w2 w3 w4" by (cases "to5 K w")
  have enc: "key_encode K x = concat (map u64_to_le_bytes (map gl_word (lqe_list (to5 K x))))" for x by (simp add: key_encode_def comp_def)
  show "length (key_encode K w) = 40" by (simp add: key_encode_def w)
  have five: "[0..<5] = [0, 1, 2, 3, 4 :: nat]" by (simp add: upt_rec)
  have "key_decode K (key_encode K w) = of5 K (to5 K w)"
    unfolding enc key_decode_def using limb_slices [of "map gl_word (lqe_list (to5 K w))"]
    by (simp add: w five arr5_def gl_word_value(2) del: of_nat_unat)
  then show "key_decode K (key_encode K w) = w" by (simp add: quintic_ext.of5_to5 [OF assms])
  assume bs: "length bs = 40"
  define v where "v = map (\<lambda>i. u64_from_le_bytes (slice_at bs (i * 8) 8)) [0..<5]"
  have "lqe_list (to5 K (key_decode K bs)) = map (\<lambda>x. of_nat (unat x)) v"
    by (simp add: key_decode_def v_def five arr5_def quintic_ext.to5_of5 [OF assms] del: of_nat_unat)
  then have e: "key_encode K (key_decode K bs) = concat (map u64_to_le_bytes (map (\<lambda>x. gl_word (of_nat (unat x))) v))"
    unfolding enc by (simp add: comp_def del: of_nat_unat)
  have b: "bs = concat (map u64_to_le_bytes v)"
  proof -
    have "map u64_to_le_bytes v = map (\<lambda>i. slice_at bs (i * 8) 8) [0..<5]"
      unfolding v_def map_map using bs by (intro map_cong refl) (simp add: u64_le_roundtrip_bytes del: upt_Suc)
    then show ?thesis using concat_slices [of bs 8 5] bs by simp
  qed
  show "key_encode K (key_decode K bs) = bs \<longleftrightarrow> (\<forall>i < 5. unat (u64_from_le_bytes (slice_at bs (i * 8) 8)) < gp)"
  proof -
    let ?f = "\<lambda>x :: u64. gl_word (of_nat (unat x))"
    have len: "length v = 5" "\<And>i. i < 5 \<Longrightarrow> v ! i = u64_from_le_bytes (slice_at bs (i * 8) 8)" by (simp_all add: v_def del: upt_Suc)
    have "?f x = x \<longleftrightarrow> unat x < gp" for x
      using of_nat_gl_word [OF refl, of "unat x"] gl_word_value(3) [of "of_nat (unat x)"] by (metis word_unat_eq_iff)
    moreover have "concat (map u64_to_le_bytes (map ?f v)) = concat (map u64_to_le_bytes v) \<longleftrightarrow> (\<forall>i < 5. ?f (v ! i) = v ! i)"
      using limb_slices [of "map ?f v"] limb_slices [of v] len(1)
      by (metis (no_types, lifting) length_map nth_equalityI nth_map u64_le_roundtrip)
    ultimately show ?thesis unfolding e using b len(2) by (metis (no_types, lifting))
  qed
qed

text \<open>
  What a returned signature contains: the commitment is the multiple of the generator by the
  nonce, and the response solves the equation of the scheme modulo the group order.
\<close>

lemma schnorr_sign_equation:
  assumes d: "reduced d" and k: "reduced k" and sign: "schnorr_sign K H d m k = (Inr sig :: ('e, 'k :: field signature) result)"
  shows "\<exists>cr cq Q e. scalar_mul K (generator K) k = (Inr (sig_r sig) :: ('e, 'k point_ew) result) \<and> point_encode K (sig_r sig) = (Inr cr :: ('e, 'k) result)
    \<and> public_key K d = (Inr Q :: ('e, 'k point_ew) result) \<and> point_encode K Q = (Inr cq :: ('e, 'k) result)
    \<and> schnorr_challenge K H cr cq m = (Inr e :: ('e, scalar) result) \<and> reduced e
    \<and> reduced (sig_s sig) \<and> (sval (sig_s sig) + sval d * sval e) mod GROUP_ORDER = sval k"
proof -
  obtain r cr Q cq e where parts: "scalar_mul K (generator K) k = (Inr r :: ('e, 'k point_ew) result)" "point_encode K r = (Inr cr :: ('e, 'k) result)"
    "public_key K d = (Inr Q :: ('e, 'k point_ew) result)" "point_encode K Q = (Inr cq :: ('e, 'k) result)"
    "schnorr_challenge K H cr cq m = (Inr e :: ('e, scalar) result)" and sig: "sig = \<lparr>sig_r = r, sig_s = add_mod k (mul_mod d (neg_mod e))\<rparr>"
    using sign by (auto simp: schnorr_sign_def bind_r_eq_Inr)
  have e: "reduced e"
    using parts(5) from_hash_words_value by (auto simp: schnorr_challenge_def poseidon_hash_to_scalar_def bind_r_eq_Inr assert_r_def split: if_splits)
  note n = neg_mod_value [OF e]
  note p = mul_mod_value [OF d reducedD(1) [OF n(1)]]
  note a = add_mod_value [OF k p(1)]
  let ?N = "int GROUP_ORDER"
  have "int (sval (sig_s sig)) = (int (sval k) + (int (sval d) * ((- int (sval e)) mod ?N)) mod ?N) mod ?N"
    using a(2) p(2) n(2) by (simp add: sig of_nat_mod)
  then have "(int (sval (sig_s sig)) + int (sval d) * int (sval e)) mod ?N = int (sval k) mod ?N"
    by (simp add: mod_simps algebra_simps)
  then have "(sval (sig_s sig) + sval d * sval e) mod GROUP_ORDER = sval k mod GROUP_ORDER"
    by (metis of_nat_add of_nat_mult of_nat_eq_iff of_nat_mod)
  also have "\<dots> = sval k" using reducedD(2) [OF k] by simp
  finally show ?thesis using parts e a(1) sig by auto
qed

end
