(* ===== verification/Spec2Isabelle.thy ===== *)
theory Spec2Isabelle
  imports Batch_Replay Sync_Replay Bridge_Public_Inputs Withdraw_Tx Schnorr
begin

text \<open>
  \<^bold>\<open>Doxa\<close> is a privacy-preserving rollup. Accounts and notes live off chain; the contract stores
  the root of a Merkle tree of their commitments. A client builds a transaction, proves it in
  a plonky2 circuit and sends the proof to a server, which collects proofs in batches of fixed
  size, aggregates them and submits the batch. A sync service replays the contract's events,
  mirrors the tree and answers membership queries, so that clients can prove the next
  transaction. Subpools are groups of accounts with an approval key of their own; a second
  Merkle tree, the main pool configuration, records those keys.

  \<^bold>\<open>Conventions.\<close> A function that can fail returns a \<open>result\<close>, with the source's error or a
  \<open>Panic\<close> on the left; every \<^verbatim>\<open>unwrap\<close>, \<^verbatim>\<open>expect\<close>, index, \<^verbatim>\<open>debug_assert\<close> and checked arithmetic of the
  source is such a branch (the model is the build with debug assertions and overflow checks).
  Methods on \<^verbatim>\<open>&mut self\<close> are state passing functions or values of the state monad \<open>op\<close> of the
  prelude. \<^verbatim>\<open>usize\<close> and \<^verbatim>\<open>u64\<close> counters are \<open>nat\<close> with the overflow check written out, bytes, 32-bit,
  64-bit and 256-bit values are words. A field element is the 64-bit word that represents it.
  Poseidon (\<^verbatim>\<open>hash_no_pad\<close>) is an argument \<open>P\<close> of every definition that hashes; nothing is assumed
  of it, and statements about collision resistance name the colliding inputs, which an
  executable function computes from the two openings. Code outside the repository is an argument in the
  same way: the RPC provider and the event decoders of the sync service, the prover of padding
  transactions, the digest of the batch preimage; the transaction circuits take the constraints of the
  Schnorr gadget, which has a theory of its own, as an argument too.

  \<^bold>\<open>Theories, in the order of their imports.\<close>

  \<^item> \<open>Doxa_Prelude\<close>: results, panics, the state monad, checked arithmetic, loops over lists,
    slices, and the lemma collections the other theories share.
  \<^item> \<open>Field_Codec\<close> (\<^verbatim>\<open>doxa-utils/src/hasher.rs\<close>, \<^verbatim>\<open>doxa-state-sync/src/contract.rs\<close> and
    \<^verbatim>\<open>doxa-subpool-database/src/convert.rs\<close>): field elements, digests and their byte and word encodings,
    with the exact domain of every decoder.
  \<^item> \<open>Merkle_Tree\<close>, \<open>Merkle_Proof\<close> (\<^verbatim>\<open>doxa-trees\<close>): the layered incremental tree, single and batched
    inserts, leaf updates, rebuilding, membership proofs and the self-check. The locale
    \<open>merkle_hash_laws\<close> states what the tree needs of a two-to-one hash; it is interpreted on the
    repository's hasher. A tree is well-formed when it is the canonical tree of its leaves, and
    every operation refines an operation on the list of leaves.
  \<^item> \<open>Account\<close>, \<open>Note\<close>, \<open>Pool_Config\<close> (\<^verbatim>\<open>doxa-client/src/account.rs\<close>, \<^verbatim>\<open>note.rs\<close>, \<^verbatim>\<open>pool_config.rs\<close>, \<^verbatim>\<open>lib.rs\<close>):
    the account state tree as a refinement of a list of balances (interface \<open>asset_store\<close>),
    commitments and nullifiers with injective hash inputs, subpool registration.
  \<^item> \<open>Sync_State\<close>, \<open>Sync_Replay\<close>, \<open>Batch_Replay\<close> (\<^verbatim>\<open>doxa-state-sync/src/state.rs\<close>, \<^verbatim>\<open>sync.rs\<close>): pending and
    confirmed batches, the queries, event paging, both sync drivers and the decoding of batch
    preimages. Polling preserves the state invariant for every provider, also one that fails;
    paging ends and is complete; a replayed batch makes its commitments provable.
  \<^item> \<open>Tx_Batch\<close> (\<^verbatim>\<open>doxa-server/src/batch_helper.rs\<close>, \<^verbatim>\<open>prover_service\<close>): the private and the bridge batch,
    padding, the preimage encoding and the subtree root, up to the end-to-end theorem that
    what the server finalizes is what the sync service replays.
  \<^item> \<open>Goldilocks\<close>: the order of the field is prime (by a Pocklington certificate), so products
    and boolean constraints behave as in a field.
  \<^item> \<open>U32_Gadgets\<close>, \<open>U256_Gadgets\<close> (\<^verbatim>\<open>doxa-utils/src/plonky2_gadgets/u32\<close>, \<^verbatim>\<open>doxa-client/src/plonky2_gadgets/u256.rs\<close>):
    lookup tables, decompositions, bitwise operations, wrapping addition, rotations and the
    chained 256-bit sum. A gadget is the predicate its constraints amount to, with the wires it
    allocates as arguments, and its generator is a function that fills them.
  \<^item> \<open>Tx_Circuit_Builder\<close>, \<open>Priv_Tx_Circuit\<close>, \<open>Bridge_Tx_Circuit\<close>, \<open>Bridge_Public_Inputs\<close> (\<^verbatim>\<open>merkle.rs\<close>, \<^verbatim>\<open>priv_tx\<close>, \<^verbatim>\<open>deposit_tx\<close> and
    \<^verbatim>\<open>withdraw_tx\<close> of \<^verbatim>\<open>doxa-client/src/plonky2_gadgets\<close>): the assertions of the circuit builder and the three
    transaction circuits with their public inputs. The theorems say what satisfied wires prove
    to a verifier, that circuit and native derivations agree, that the server reads back what
    the circuit registered, and which checks the constraints leave out.
  \<^item> \<open>Spend_Builder\<close>, \<open>Priv_Tx_Witness\<close>, \<open>Fresh_Fake_Tx\<close> (\<^verbatim>\<open>priv_tx/builder\<close>): the builders of spend,
    fresh-account and fake transactions, the filling of the circuit's wires and \<^verbatim>\<open>prove\<close>. A
    builder is used through its interface (an inductive predicate of reachable builders with an
    invariant); every outcome of building is stated, and what is built satisfies every
    constraint of the circuit but those of the signatures, which alone decide the proof.
  \<^item> \<open>Deposit_Builder\<close>, \<open>Withdraw_Builder\<close>, \<open>Withdraw_Tx\<close> (\<^verbatim>\<open>builder.rs\<close> of \<^verbatim>\<open>deposit_tx\<close> and \<^verbatim>\<open>withdraw_tx\<close>): the same for
    deposits and withdrawals, real and fake. A withdrawal applies up to seven updates to the
    balance tree; the theorems say when building succeeds, what the balances are afterwards
    and why a withdrawal of a whole balance cannot be proved.
  \<^item> \<open>Scalar_Arith\<close> (\<^verbatim>\<open>doxa-client/src/schnorr.rs\<close>): the scalars of the signature scheme, five 64-bit
    limbs with Montgomery multiplication, against arithmetic modulo the group order.
  \<^item> \<open>Gl_Field\<close>, \<open>Quintic\<close> (\<^verbatim>\<open>LocalQuinticExtension\<close> of \<^verbatim>\<open>plonky2_gadgets/signature.rs\<close>): the Goldilocks field
    and its extension of degree five as instances of the field class, the latter by proving
    that \<open>z\<^sup>5 - 3\<close> is irreducible. The extension field of plonky2 is a parameter with the laws of the
    locale \<open>quintic_ext\<close>, interpreted on the model of the repository's own extension arithmetic.
  \<^item> \<open>Ecgfp5\<close> (\<^verbatim>\<open>doxa-client/src/ecgfp5.rs\<close>): the curve in Weierstrass form, addition, doubling,
    multiplication by scalars, square roots, the Legendre symbol and point compression. Points
    stay on the curve, the loop computes the multiple, decoding inverts encoding; the panics on
    exceptional inputs are part of the statements.
  \<^item> \<open>Sig_Gates\<close> (\<^verbatim>\<open>plonky2_gadgets/signature.rs\<close>): the two custom gates of the signature circuit, natively
    and over circuit targets, and the filling of a row. On a row that meets no exceptional
    addition the constraints of the gate are exactly the native computation.
  \<^item> \<open>Schnorr\<close> (\<^verbatim>\<open>doxa-client/src/schnorr.rs\<close>, \<^verbatim>\<open>plonky2_gadgets/signature.rs\<close>): keys, signatures and their
    encodings, the challenge, signing and verification, the verification gadget over 80 rows
    and two compression slots, and the filling of its wires. Apart from exceptional additions
    the gadget accepts exactly what the native computation of the prover fills; the theorems
    also show what it does not bind: the key, at the point of order two, and the challenge.

  \<^bold>\<open>Termination and fuel.\<close> No definition uses fuel: loops are folds or structural recursion, and
  paging, the one loop with a computed step, is a function with a measure.

  \<^bold>\<open>Not modelled.\<close> HTTP routes, SQL, the command lines and start-up code (glue around the modelled
  functions); the
  recursive aggregation circuits, the Keccak tables and the Groth16 wrapping, which mostly
  configure external provers; Solidity contracts and tests. Serialization of the witness
  generators is left out, since it only concerns the storage of a compiled circuit.
\<close>

end
